(* ===== verification/WC_Prelude.thy ===== *)
theory WC_Prelude
  imports Main "HOL-Library.Word" "HOL-Library.Sublist" "HOL-Library.Code_Target_Nat"
begin

text \<open>
  The prelude of the development: the machine types of the Rust code, the errors its fallible
  functions return, slices, big-endian integers, and the lemmas on them that the component
  theories share.

  \<^item> A byte is an \<open>8 word\<close>, a \<open>u16\<close>/\<open>u32\<close>/\<open>u64\<close>/\<open>u128\<close> a word of that width; a \<open>usize\<close> that
    only counts elements of a list in memory is a \<open>nat\<close>.
  \<^item> \<open>io::Result<T>\<close> is \<open>io_error + 'a\<close>. An error carries the \<open>io::ErrorKind\<close> of the source and a
    short English rendering of its message, so that two early returns of the same kind stay
    apart; \<open>Panic\<close> is the error of an indexing or division that Rust would abort on.
  \<^item> \<open>and_then\<close> is the \<open>?\<close> operator.
\<close>

unbundle bit_operations_syntax

named_theorems be_simps \<open>reading and writing big-endian integers\<close>
named_theorems slice_simps \<open>slices of concatenations\<close>

type_synonym byte = "8 word"
type_synonym bytes = "8 word list"
type_synonym u8 = "8 word"
type_synonym u16 = "16 word"
type_synonym u32 = "32 word"
type_synonym u64 = "64 word"
type_synonym u128 = "128 word"

subsection \<open>Errors\<close>

datatype error_kind =
    InvalidInput | InvalidData | PermissionDenied | Unsupported | AlreadyExists
  | BrokenPipe | OutOfMemory | Other

datatype io_error = Io_Error error_kind string | Panic

definition invalid_input :: "string \<Rightarrow> io_error" where
  "invalid_input m = Io_Error InvalidInput m"

definition invalid_data :: "string \<Rightarrow> io_error" where
  "invalid_data m = Io_Error InvalidData m"

definition permission_denied :: "string \<Rightarrow> io_error" where
  "permission_denied m = Io_Error PermissionDenied m"

definition unsupported :: "string \<Rightarrow> io_error" where
  "unsupported m = Io_Error Unsupported m"

lemmas error_defs = invalid_input_def invalid_data_def permission_denied_def unsupported_def

definition and_then :: "'e + 'a \<Rightarrow> ('a \<Rightarrow> 'e + 'b) \<Rightarrow> 'e + 'b" where
  "and_then m f = (case m of Inl e \<Rightarrow> Inl e | Inr x \<Rightarrow> f x)"

lemma and_then_simps [simp]:
  "and_then (Inl e) f = Inl e"
  "and_then (Inr x) f = f x"
  by (simp_all add: and_then_def)

lemma and_then_Inr_iff: "and_then m f = Inr y \<longleftrightarrow> (\<exists>x. m = Inr x \<and> f x = Inr y)"
  by (cases m) auto

lemma and_then_Inl_iff: "and_then m f = Inl e \<longleftrightarrow> m = Inl e \<or> (\<exists>x. m = Inr x \<and> f x = Inl e)"
  by (cases m) auto

text \<open>\<open>collect::<io::Result<Vec<_>>>()\<close>: stop at the first error.\<close>

fun collect_results :: "('e + 'a) list \<Rightarrow> 'e + 'a list" where
  "collect_results [] = Inr []"
| "collect_results (r # rs) = and_then r (\<lambda>x. and_then (collect_results rs) (\<lambda>xs. Inr (x # xs)))"

lemma collect_results_map_Inr [simp]: "collect_results (map (\<lambda>x. Inr (f x)) xs) = Inr (map f xs)"
  by (induction xs) auto

lemma collect_results_ok: "\<forall>x \<in> set xs. f x = Inr (g x) \<Longrightarrow> collect_results (map f xs) = Inr (map g xs)"
  by (induction xs) auto

lemma collect_results_Inr_iff: "collect_results rs = Inr xs \<longleftrightarrow> rs = map Inr xs"
  by (induction rs arbitrary: xs) (auto simp: and_then_Inr_iff)

subsection \<open>Slices\<close>

definition slice :: "nat \<Rightarrow> nat \<Rightarrow> 'a list \<Rightarrow> 'a list" where
  "slice a b xs = take (b - a) (drop a xs)"

lemma length_slice [simp]: "b \<le> length xs \<Longrightarrow> length (slice a b xs) = b - a"
  by (simp add: slice_def)

lemma slice_0 [simp]: "slice 0 n xs = take n xs"
  by (simp add: slice_def)

lemma slice_same [simp]: "slice a a xs = []"
  by (simp add: slice_def)

lemma slice_append_skip [slice_simps]:
  "length xs \<le> a \<Longrightarrow> slice a b (xs @ ys) = slice (a - length xs) (b - length xs) ys"
  by (cases "b \<le> a") (simp_all add: slice_def)

lemma slice_append_left [slice_simps]:
  "b \<le> length xs \<Longrightarrow> slice a b (xs @ ys) = slice a b xs"
  by (cases "a \<le> length xs") (simp_all add: slice_def)

lemma slice_all [slice_simps]: "length xs \<le> b \<Longrightarrow> slice 0 b xs = xs"
  by simp

lemma slice_prefix_stable: "b \<le> n \<Longrightarrow> slice a b (take n xs) = slice a b xs"
  by (simp add: slice_def drop_take min_def)

lemma take_slice_split: "a \<le> b \<Longrightarrow> take b xs = take a xs @ slice a b xs"
  by (metis le_add_diff_inverse slice_def take_add)

text \<open>\<open>slice.chunks(n)\<close>: consecutive blocks of \<open>n\<close> elements, the last one possibly shorter.\<close>

function chunks :: "nat \<Rightarrow> 'a list \<Rightarrow> 'a list list" where
  "chunks n xs = (if n = 0 \<or> xs = [] then [] else take n xs # chunks n (drop n xs))"
  by pat_completeness auto
termination
  by (relation "measure (\<lambda>(n, xs). length xs)") auto

declare chunks.simps [simp del]

lemma chunks_Nil [simp]: "chunks n [] = []"
  by (simp add: chunks.simps)

lemma chunks_step: "0 < n \<Longrightarrow> xs \<noteq> [] \<Longrightarrow> chunks n xs = take n xs # chunks n (drop n xs)"
  by (simp add: chunks.simps)

lemma concat_chunks: "0 < n \<Longrightarrow> concat (chunks n xs) = xs"
proof (induction n xs rule: chunks.induct)
  case (1 n xs)
  then show ?case by (cases "xs = []") (simp_all add: chunks_step)
qed

lemma chunks_bounds: "c \<in> set (chunks n xs) \<Longrightarrow> c \<noteq> [] \<and> length c \<le> n"
proof (induction n xs rule: chunks.induct)
  case (1 n xs)
  show ?case
  proof (cases "n = 0 \<or> xs = []")
    case True
    with 1 show ?thesis by (auto simp: chunks.simps)
  next
    case False
    with 1 show ?thesis by (auto simp: chunks_step)
  qed
qed

lemma chunks_eq_Nil_iff: "0 < n \<Longrightarrow> chunks n xs = [] \<longleftrightarrow> xs = []"
  by (simp add: chunks.simps)

lemma length_chunks: "0 < n \<Longrightarrow> length (chunks n xs) = (length xs + n - 1) div n"
proof (induction n xs rule: chunks.induct)
  case (1 n xs)
  show ?case
  proof (cases "xs = []")
    case True
    with 1 show ?thesis by simp
  next
    case False
    show ?thesis
    proof (cases "length xs \<le> n")
      case True
      have "(length xs + n - 1) div n = Suc ((length xs - 1) div n)"
        using 1(2) False by (cases xs) (simp_all add: div_add_self2)
      with 1(2) False True show ?thesis
        by (cases xs) (simp_all add: chunks_step)
    next
      case len: False
      then have "length xs + n - 1 = (length xs - n + n - 1) + n" by simp
      then have "(length xs + n - 1) div n = Suc ((length xs - n + n - 1) div n)"
        using 1(2) by (simp only: div_add_self2)
      with 1 False show ?thesis by (simp add: chunks_step)
    qed
  qed
qed

lemma chunks_uniform:
  assumes "\<forall>x \<in> set xs. length x = n" "0 < n"
  shows "chunks n (concat xs) = xs"
  using assms(1)
proof (induction xs)
  case Nil
  then show ?case by simp
next
  case (Cons x xs)
  then have "x \<noteq> []" using assms(2) by auto
  with Cons assms(2) show ?case by (simp add: chunks_step)
qed

lemma length_concat_uniform: "\<forall>x \<in> set xs. length x = n \<Longrightarrow> length (concat xs) = n * length xs"
  by (induction xs) auto

lemma length_le_concat: "\<forall>x \<in> set xs. x \<noteq> [] \<Longrightarrow> length xs \<le> length (concat xs)"
proof (induction xs)
  case (Cons x xs)
  then show ?case by (cases x) auto
qed simp

text \<open>\<open>slice.chunks_exact(n)\<close>: the blocks that are complete.\<close>

definition chunks_exact :: "nat \<Rightarrow> 'a list \<Rightarrow> 'a list list" where
  "chunks_exact n xs = filter (\<lambda>c. length c = n) (chunks n xs)"

lemma chunks_exact_uniform:
  "\<forall>x \<in> set xs. length x = n \<Longrightarrow> 0 < n \<Longrightarrow> chunks_exact n (concat xs) = xs"
  by (simp add: chunks_exact_def chunks_uniform filter_id_conv)

lemma chunks_exact_dvd:
  assumes "0 < n" "n dvd length xs"
  shows "chunks_exact n xs = chunks n xs" "concat (chunks_exact n xs) = xs"
    "length (chunks_exact n xs) = length xs div n"
proof -
  have all: "\<forall>c \<in> set (chunks n xs). length c = n"
    using assms
  proof (induction n xs rule: chunks.induct)
    case (1 n xs)
    show ?case
    proof (cases "xs = []")
      case False
      then have "n \<le> length xs" using 1(3) by (auto dest: dvd_imp_le)
      then have "length (take n xs) = n" "n dvd length (drop n xs)" using 1(3) by simp_all
      moreover from this(2) have "\<forall>c \<in> set (chunks n (drop n xs)). length c = n"
        using 1(1,2) False by blast
      ultimately show ?thesis unfolding chunks_step [OF 1(2) False] set_simps by blast
    qed simp
  qed
  then show eq: "chunks_exact n xs = chunks n xs"
    unfolding chunks_exact_def by (simp only: filter_id_conv all ball_simps)
  show "concat (chunks_exact n xs) = xs" unfolding eq using assms(1) by (rule concat_chunks)
  have "length xs = n * length (chunks n xs)"
    using length_concat_uniform [OF all] concat_chunks [OF assms(1), of xs] by metis
  then have "length xs div n = length (chunks n xs)"
    using assms(1) by (metis less_irrefl nonzero_mult_div_cancel_left)
  then show "length (chunks_exact n xs) = length xs div n" by (simp only: eq)
qed

subsection \<open>Big-endian integers\<close>

fun be_bytes :: "nat \<Rightarrow> nat \<Rightarrow> bytes" where
  "be_bytes 0 k = []"
| "be_bytes (Suc n) k = be_bytes n (k div 256) @ [of_nat (k mod 256)]"

definition be_val :: "bytes \<Rightarrow> nat" where
  "be_val bs = foldl (\<lambda>a b. a * 256 + unat b) 0 bs"

lemma length_be_bytes [simp]: "length (be_bytes n k) = n"
  by (induction n arbitrary: k) auto

lemma be_val_Nil [simp]: "be_val [] = 0"
  by (simp add: be_val_def)

lemma be_val_snoc [be_simps]: "be_val (bs @ [b]) = be_val bs * 256 + unat b"
  by (simp add: be_val_def)

lemma unat_bound: "unat (w :: 'a::len word) < 2 ^ LENGTH('a)"
  by (rule unsigned_less)

lemma unat_max: "unat (- 1 :: 'a::len word) = 2 ^ LENGTH('a) - 1"
  by (simp add: unsigned_minus_1_eq_mask mask_eq_exp_minus_1)

lemma unat_byte_of_mod [simp]: "unat (of_nat (k mod 256) :: byte) = k mod 256"
  by (simp add: unat_of_nat)

lemma be_val_be_bytes: "be_val (be_bytes n k) = k mod 256 ^ n"
proof (induction n arbitrary: k)
  case 0
  then show ?case by simp
next
  case (Suc n)
  have "be_val (be_bytes (Suc n) k) = (k div 256) mod 256 ^ n * 256 + k mod 256"
    by (simp add: be_val_snoc Suc.IH)
  also have "\<dots> = k mod (256 * 256 ^ n)"
    by (simp add: mod_mult2_eq mult.commute)
  finally show ?case by simp
qed

lemma be_val_bound: "be_val bs < 256 ^ length bs"
proof (induction bs rule: rev_induct)
  case Nil
  then show ?case by simp
next
  case (snoc b bs)
  have "unat b < 256" using unat_bound [of b] by simp
  with snoc show ?case by (simp add: be_val_snoc)
qed

lemma be_bytes_be_val: "be_bytes (length bs) (be_val bs) = bs"
proof (induction bs rule: rev_induct)
  case Nil
  then show ?case by simp
next
  case (snoc b bs)
  have "unat b < 256" using unat_bound [of b] by simp
  with snoc show ?case by (simp add: be_val_snoc)
qed

text \<open>\<open>to_be_bytes\<close> and \<open>from_be_bytes\<close> at the widths the code uses.\<close>

definition u16_be :: "u16 \<Rightarrow> bytes" where "u16_be w = be_bytes 2 (unat w)"
definition u32_be :: "u32 \<Rightarrow> bytes" where "u32_be w = be_bytes 4 (unat w)"
definition u64_be :: "u64 \<Rightarrow> bytes" where "u64_be w = be_bytes 8 (unat w)"

definition u16_from_be :: "bytes \<Rightarrow> u16" where "u16_from_be bs = of_nat (be_val bs)"
definition u32_from_be :: "bytes \<Rightarrow> u32" where "u32_from_be bs = of_nat (be_val bs)"
definition u64_from_be :: "bytes \<Rightarrow> u64" where "u64_from_be bs = of_nat (be_val bs)"

lemma length_word_be [simp]:
  "length (u16_be a) = 2" "length (u32_be b) = 4" "length (u64_be c) = 8"
  by (simp_all add: u16_be_def u32_be_def u64_be_def)

lemma unat_mod_u16: "unat (w :: u16) mod 65536 = unat w"
  using unat_bound [of w] by simp

lemma unat_mod_u32: "unat (w :: u32) mod 4294967296 = unat w"
  using unat_bound [of w] by simp

lemma unat_mod_u64: "unat (w :: u64) mod 18446744073709551616 = unat w"
  using unat_bound [of w] by simp

lemma word_be_roundtrip [simp, be_simps]:
  "u16_from_be (u16_be a) = a" "u32_from_be (u32_be b) = b" "u64_from_be (u64_be c) = c"
  by (simp_all add: u16_from_be_def u16_be_def u32_from_be_def u32_be_def u64_from_be_def
      u64_be_def be_val_be_bytes unat_mod_u16 unat_mod_u32 unat_mod_u64)

lemma u16_be_inj: "u16_be a = u16_be b \<Longrightarrow> a = b"
  by (metis word_be_roundtrip(1))

lemma u64_be_inj: "u64_be a = u64_be b \<Longrightarrow> a = b"
  by (metis word_be_roundtrip(3))

lemma u16_be_from_be: "length bs = 2 \<Longrightarrow> u16_be (u16_from_be bs) = bs"
  using be_bytes_be_val [of bs] be_val_bound [of bs]
  by (simp add: u16_be_def u16_from_be_def unat_of_nat)

lemma u32_be_from_be: "length bs = 4 \<Longrightarrow> u32_be (u32_from_be bs) = bs"
  using be_bytes_be_val [of bs] be_val_bound [of bs]
  by (simp add: u32_be_def u32_from_be_def unat_of_nat)

lemma u64_be_from_be: "length bs = 8 \<Longrightarrow> u64_be (u64_from_be bs) = bs"
  using be_bytes_be_val [of bs] be_val_bound [of bs]
  by (simp add: u64_be_def u64_from_be_def unat_of_nat)

subsection \<open>Checked and saturating arithmetic\<close>

definition saturating_add :: "'a::len word \<Rightarrow> 'a word \<Rightarrow> 'a word" where
  "saturating_add a b = (if unat a + unat b < 2 ^ LENGTH('a) then a + b else - 1)"

definition saturating_sub :: "'a::len word \<Rightarrow> 'a word \<Rightarrow> 'a word" where
  "saturating_sub a b = (if b \<le> a then a - b else 0)"

definition saturating_mul :: "'a::len word \<Rightarrow> 'a word \<Rightarrow> 'a word" where
  "saturating_mul a b = (if unat a * unat b < 2 ^ LENGTH('a) then a * b else - 1)"

definition checked_add :: "'a::len word \<Rightarrow> 'a word \<Rightarrow> 'a word option" where
  "checked_add a b = (if unat a + unat b < 2 ^ LENGTH('a) then Some (a + b) else None)"

definition abs_diff :: "'a::len word \<Rightarrow> 'a word \<Rightarrow> 'a word" where
  "abs_diff a b = (if a \<le> b then b - a else a - b)"

lemma unat_saturating_sub: "unat (saturating_sub a b) = unat a - unat b"
  by (auto simp: saturating_sub_def unat_sub word_le_nat_alt)

lemma unat_saturating_mul:
  fixes a b :: "'a::len word"
  shows "unat (saturating_mul a b) = min (unat a * unat b) (2 ^ LENGTH('a) - 1)"
  using unat_bound [of a] unat_bound [of b]
  by (auto simp: saturating_mul_def unat_word_ariths unat_max)

lemma unat_saturating_add:
  fixes a b :: "'a::len word"
  shows "unat (saturating_add a b) = min (unat a + unat b) (2 ^ LENGTH('a) - 1)"
  by (auto simp: saturating_add_def unat_word_ariths unat_max)

lemma unat_abs_diff: "unat (abs_diff a b) = (if unat a \<le> unat b then unat b - unat a else unat a - unat b)"
  by (auto simp: abs_diff_def unat_sub word_le_nat_alt)

lemma checked_add_Some: "checked_add a b = Some c \<Longrightarrow> unat c = unat a + unat b"
  by (auto simp: checked_add_def unat_word_ariths split: if_splits)

lemma checked_add_None_iff:
  "checked_add (a :: 'a::len word) b = None \<longleftrightarrow> 2 ^ LENGTH('a) \<le> unat a + unat b"
  by (auto simp: checked_add_def)

subsection \<open>Hash maps as association lists\<close>

text \<open>
  A \<open>HashMap\<close> is an association list with distinct keys, in the order its iterator would visit.
  The order is arbitrary in Rust, so every theorem quantifies over it.
\<close>

definition amap_wf :: "('k \<times> 'v) list \<Rightarrow> bool" where
  "amap_wf m \<longleftrightarrow> distinct (map fst m)"

definition amap_contains :: "'k \<Rightarrow> ('k \<times> 'v) list \<Rightarrow> bool" where
  "amap_contains k m \<longleftrightarrow> k \<in> fst ` set m"

definition amap_remove :: "'k \<Rightarrow> ('k \<times> 'v) list \<Rightarrow> ('k \<times> 'v) list" where
  "amap_remove k m = filter (\<lambda>(k', v). k' \<noteq> k) m"

definition amap_insert :: "'k \<Rightarrow> 'v \<Rightarrow> ('k \<times> 'v) list \<Rightarrow> ('k \<times> 'v) list" where
  "amap_insert k v m = amap_remove k m @ [(k, v)]"

definition amap_retain :: "('k \<Rightarrow> 'v \<Rightarrow> bool) \<Rightarrow> ('k \<times> 'v) list \<Rightarrow> ('k \<times> 'v) list" where
  "amap_retain p m = filter (\<lambda>(k, v). p k v) m"

text \<open>\<open>iter().min_by_key(..)\<close>: the first minimal entry in iteration order.\<close>

fun min_by_key :: "('v \<Rightarrow> 'c::linorder) \<Rightarrow> ('k \<times> 'v) list \<Rightarrow> 'k option" where
  "min_by_key f [] = None"
| "min_by_key f ((k, v) # rest) =
     (case min_by_key f rest of
        None \<Rightarrow> Some k
      | Some k' \<Rightarrow> (case map_of rest k' of
            Some v' \<Rightarrow> if f v' < f v then Some k' else Some k
          | None \<Rightarrow> Some k))"

lemma min_by_key_None_iff [simp]: "min_by_key f m = None \<longleftrightarrow> m = []"
  by (induction f m rule: min_by_key.induct) (auto split: option.splits)

lemma min_by_key_in: "min_by_key f m = Some k \<Longrightarrow> amap_contains k m"
  by (induction f m arbitrary: k rule: min_by_key.induct)
    (auto simp: amap_contains_def split: option.splits if_splits)

lemma amap_contains_retain:
  "amap_contains k (amap_retain p m) \<longleftrightarrow> (\<exists>v. (k, v) \<in> set m \<and> p k v)"
  by (force simp: amap_contains_def amap_retain_def)

lemma amap_contains_insert [simp]:
  "amap_contains k (amap_insert k' v m) \<longleftrightarrow> k = k' \<or> amap_contains k m"
  by (force simp: amap_contains_def amap_insert_def amap_remove_def)

lemma amap_contains_remove [simp]:
  "amap_contains k (amap_remove k' m) \<longleftrightarrow> k \<noteq> k' \<and> amap_contains k m"
  by (force simp: amap_contains_def amap_remove_def)

lemma amap_wf_Nil [simp]: "amap_wf []"
  by (simp add: amap_wf_def)

lemma amap_wf_filter: "amap_wf m \<Longrightarrow> amap_wf (filter p m)"
  by (simp add: amap_wf_def distinct_map_filter)

lemma amap_wf_retain [intro, simp]: "amap_wf m \<Longrightarrow> amap_wf (amap_retain p m)"
  by (simp add: amap_retain_def amap_wf_filter)

lemma amap_wf_remove [intro, simp]: "amap_wf m \<Longrightarrow> amap_wf (amap_remove k m)"
  by (simp add: amap_remove_def amap_wf_filter)

lemma amap_wf_insert [intro, simp]: "amap_wf m \<Longrightarrow> amap_wf (amap_insert k v m)"
  by (auto simp: amap_insert_def amap_wf_def amap_remove_def distinct_map_filter)

lemma map_of_amap_remove: "map_of (amap_remove k m) = (map_of m)(k := None)"
  by (induction m) (auto simp: amap_remove_def fun_eq_iff)

lemma map_of_amap_insert: "map_of (amap_insert k v m) = (map_of m)(k \<mapsto> v)"
  by (auto simp: amap_insert_def map_of_amap_remove fun_eq_iff map_add_def split: option.splits)

lemma map_of_amap_retain:
  "amap_wf m \<Longrightarrow> map_of (amap_retain p m) k =
     (case map_of m k of Some v \<Rightarrow> if p k v then Some v else None | None \<Rightarrow> None)"
  by (induction m)
    (auto simp: amap_retain_def amap_wf_def map_of_eq_None_iff image_iff split: option.splits)

lemma length_amap_remove_in:
  "amap_wf m \<Longrightarrow> amap_contains k m \<Longrightarrow> length (amap_remove k m) = length m - 1"
proof (induction m)
  case Nil
  then show ?case by (simp add: amap_contains_def)
next
  case (Cons a m)
  obtain k' v where a: "a = (k', v)" by (cases a)
  show ?case
  proof (cases "k' = k")
    case True
    with Cons.prems a have "filter (\<lambda>(k', v). k' \<noteq> k) m = m"
      by (force simp: amap_wf_def filter_id_conv)
    with True a show ?thesis by (simp add: amap_remove_def)
  next
    case False
    with Cons a have "length (amap_remove k m) = length m - 1" and "m \<noteq> []"
      by (auto simp: amap_wf_def amap_contains_def)
    with False a show ?thesis by (cases m) (auto simp: amap_remove_def)
  qed
qed

lemma length_amap_remove_le [simp]: "length (amap_remove k m) \<le> length m"
  by (simp add: amap_remove_def)

lemma length_amap_retain_le [simp]: "length (amap_retain p m) \<le> length m"
  by (simp add: amap_retain_def)

lemma length_amap_insert_le: "length (amap_insert k v m) \<le> Suc (length m)"
  by (simp add: amap_insert_def)

lemma length_amap_insert_new: "\<not> amap_contains k m \<Longrightarrow> length (amap_insert k v m) = Suc (length m)"
  by (auto simp: amap_insert_def amap_remove_def amap_contains_def image_iff
      intro!: arg_cong [of _ _ length] filter_True)

lemma amap_contains_map_of: "amap_contains k m \<longleftrightarrow> map_of m k \<noteq> None"
  by (simp add: amap_contains_def map_of_eq_None_iff)

lemma unat_u16: "n < 65536 \<Longrightarrow> unat (of_nat n :: u16) = n"
  by (simp add: unat_of_nat)

end
