(* ===== verification/Std_Net.thy ===== *)
theory Std_Net
  imports WC_Prelude
begin

text \<open>
  The parts of Rust's standard library the program's text handling rests on: strings as UTF-8
  byte sequences (\<open>str::as_bytes\<close>, \<open>String::from_utf8\<close>), decimal and hexadecimal display of
  integers, and the parser and the \<open>Display\<close> of \<open>Ipv4Addr\<close>, \<open>Ipv6Addr\<close> and \<open>IpAddr\<close>
  (\<open>core::net\<close>). A Rust \<open>String\<close> is a HOL \<open>string\<close> whose characters are its UTF-8 bytes.

  The lemmas give the round trip of bytes and strings, that every printed IPv4 address parses
  back to itself, and the bounds on printed addresses that the wire codecs need.
\<close>

subsection \<open>Strings and bytes\<close>

definition as_bytes :: "string \<Rightarrow> bytes" where
  "as_bytes s = map (\<lambda>c. of_nat (of_char c)) s"

definition bytes_to_string :: "bytes \<Rightarrow> string" where
  "bytes_to_string bs = map (\<lambda>b. char_of (unat b)) bs"

lemma length_as_bytes [simp]: "length (as_bytes s) = length s"
  by (simp add: as_bytes_def)

lemma as_bytes_Nil_iff [simp]: "as_bytes s = [] \<longleftrightarrow> s = []"
  by (simp add: as_bytes_def)

lemma bytes_to_string_as_bytes [simp]: "bytes_to_string (as_bytes s) = s"
proof -
  have "of_char c < (256::nat)" for c :: char
    by simp
  then show ?thesis
    by (induction s) (simp_all add: bytes_to_string_def as_bytes_def unat_of_nat)
qed

lemma as_bytes_bytes_to_string [simp]: "as_bytes (bytes_to_string bs) = bs"
proof -
  have "unat (b::byte) mod 256 = unat b" for b
    using unat_bound [of b] by simp
  then show ?thesis
    by (induction bs) (simp_all add: bytes_to_string_def as_bytes_def)
qed

lemma length_bytes_to_string [simp]: "length (bytes_to_string bs) = length bs"
  by (simp add: bytes_to_string_def)

lemma as_bytes_inj: "as_bytes s = as_bytes t \<Longrightarrow> s = t"
  by (metis bytes_to_string_as_bytes)

text \<open>Well-formed UTF-8 (the table of the Unicode standard that \<open>core::str\<close> checks).\<close>

definition cont :: "byte \<Rightarrow> bool" where
  "cont b \<longleftrightarrow> 128 \<le> b \<and> b \<le> 191"

fun utf8_valid :: "bytes \<Rightarrow> bool" where
  "utf8_valid [] = True"
| "utf8_valid (a # r) =
    (if a < 128 then utf8_valid r
     else if 194 \<le> a \<and> a \<le> 223 then
       (case r of b # r' \<Rightarrow> cont b \<and> utf8_valid r' | _ \<Rightarrow> False)
     else if 224 \<le> a \<and> a \<le> 239 then
       (case r of b # c # r' \<Rightarrow>
            (if a = 224 then 160 \<le> b \<and> b \<le> 191
             else if a = 237 then 128 \<le> b \<and> b \<le> 159 else cont b)
            \<and> cont c \<and> utf8_valid r'
        | _ \<Rightarrow> False)
     else if 240 \<le> a \<and> a \<le> 244 then
       (case r of b # c # d # r' \<Rightarrow>
            (if a = 240 then 144 \<le> b \<and> b \<le> 191
             else if a = 244 then 128 \<le> b \<and> b \<le> 143 else cont b)
            \<and> cont c \<and> cont d \<and> utf8_valid r'
        | _ \<Rightarrow> False)
     else False)"

definition from_utf8 :: "bytes \<Rightarrow> string option" where
  "from_utf8 bs = (if utf8_valid bs then Some (bytes_to_string bs) else None)"

lemma utf8_valid_ascii: "\<forall>b \<in> set bs. b < 128 \<Longrightarrow> utf8_valid bs"
  by (induction bs) auto

lemma from_utf8_as_bytes: "utf8_valid (as_bytes s) \<Longrightarrow> from_utf8 (as_bytes s) = Some s"
  by (simp add: from_utf8_def)

definition is_ascii :: "string \<Rightarrow> bool" where
  "is_ascii s \<longleftrightarrow> (\<forall>c \<in> set s. (of_char c :: nat) < 128)"

lemma is_ascii_simps [simp]:
  "is_ascii []"
  "is_ascii (c # s) \<longleftrightarrow> (of_char c :: nat) < 128 \<and> is_ascii s"
  "is_ascii (s @ t) \<longleftrightarrow> is_ascii s \<and> is_ascii t"
  by (auto simp: is_ascii_def)

lemma is_ascii_valid: "is_ascii s \<Longrightarrow> utf8_valid (as_bytes s)"
  by (rule utf8_valid_ascii)
    (auto simp: is_ascii_def as_bytes_def word_less_nat_alt unat_of_nat)

subsection \<open>Displaying and reading numbers\<close>

definition digit_char :: "nat \<Rightarrow> char" where
  "digit_char d = (if d < 10 then char_of (48 + d) else char_of (87 + d))"

fun show_base :: "nat \<Rightarrow> nat \<Rightarrow> string" where
  "show_base b n =
     (if b < 2 \<or> n < b then [digit_char n] else show_base b (n div b) @ [digit_char (n mod b)])"

declare show_base.simps [simp del]

definition show_nat :: "nat \<Rightarrow> string" where "show_nat n = show_base 10 n"
definition show_hex :: "nat \<Rightarrow> string" where "show_hex n = show_base 16 n"

text \<open>\<open>char::to_digit\<close>: decimal digits, then letters of either case.\<close>

definition to_digit :: "nat \<Rightarrow> char \<Rightarrow> nat option" where
  "to_digit radix c =
    (let n = of_char c :: nat;
         d = (if 48 \<le> n \<and> n \<le> 57 then Some (n - 48)
              else if 97 \<le> n \<and> n \<le> 122 then Some (n - 87)
              else if 65 \<le> n \<and> n \<le> 90 then Some (n - 55)
              else None)
     in case d of Some v \<Rightarrow> if v < radix then Some v else None | None \<Rightarrow> None)"

definition digits_val :: "nat \<Rightarrow> string \<Rightarrow> nat" where
  "digits_val radix ds = foldl (\<lambda>a c. a * radix + the (to_digit radix c)) 0 ds"

lemma digits_val_snoc:
  "digits_val b (ds @ [c]) = digits_val b ds * b + the (to_digit b c)"
  by (simp add: digits_val_def)

lemma to_digit_digit_char: "d < b \<Longrightarrow> b \<le> 16 \<Longrightarrow> to_digit b (digit_char d) = Some d"
  by (auto simp: to_digit_def digit_char_def)

lemma show_base_digits:
  assumes "2 \<le> b" "b \<le> 16"
  shows "\<forall>c \<in> set (show_base b n). to_digit b c \<noteq> None"
  using assms
proof (induction b n rule: show_base.induct)
  case (1 b n)
  then show ?case
    by (subst show_base.simps) (auto simp: to_digit_digit_char)
qed

lemma digits_val_show_base:
  assumes "2 \<le> b" "b \<le> 16"
  shows "digits_val b (show_base b n) = n"
  using assms
proof (induction b n rule: show_base.induct)
  case (1 b n)
  show ?case
  proof (cases "n < b")
    case True
    with 1 show ?thesis
      by (subst show_base.simps) (simp add: digits_val_def to_digit_digit_char)
  next
    case False
    with 1 show ?thesis
      by (subst show_base.simps) (simp add: digits_val_snoc to_digit_digit_char)
  qed
qed

lemma show_base_nonempty [simp]: "show_base b n \<noteq> []"
  by (subst show_base.simps) simp

lemma length_show_base_le: "2 \<le> b \<Longrightarrow> n < b ^ k \<Longrightarrow> 0 < k \<Longrightarrow> length (show_base b n) \<le> k"
proof (induction k arbitrary: n)
  case 0
  then show ?case by simp
next
  case (Suc k)
  show ?case
  proof (cases "n < b")
    case True
    then show ?thesis by (subst show_base.simps) simp
  next
    case False
    with Suc.prems have "0 < k" by (cases k) auto
    moreover have "n div b < b ^ k"
      using Suc.prems by (simp add: less_mult_imp_div_less mult.commute)
    ultimately have "length (show_base b (n div b)) \<le> k"
      using Suc by simp
    with False show ?thesis by (subst show_base.simps) simp
  qed
qed

lemma show_base_leading_zero:
  assumes "2 \<le> b" "b \<le> 16" "hd (show_base b n) = digit_char 0"
  shows "n = 0"
  using assms
proof (induction b n rule: show_base.induct)
  case (1 b n)
  have inj: "digit_char d = digit_char 0 \<Longrightarrow> d = 0" if "d < b" for d
    using that 1(2,3) to_digit_digit_char [of d b] to_digit_digit_char [of 0 b] by simp
  show ?case
  proof (cases "n < b")
    case True
    with 1 inj show ?thesis by (simp add: show_base.simps [of b n])
  next
    case False
    with 1 have "n div b = 0"
      by (simp add: show_base.simps [of b n])
    with False 1(2) show ?thesis by (simp add: div_eq_0_iff)
  qed
qed

lemma digit_char_ascii: "d < 16 \<Longrightarrow> (of_char (digit_char d) :: nat) < 128 \<and> digit_char d \<noteq> CHR 0x00"
  by (auto simp: digit_char_def dest: arg_cong [of _ _ "of_char :: char \<Rightarrow> nat"])

lemma show_base_ascii:
  assumes "2 \<le> b" "b \<le> 16"
  shows "is_ascii (show_base b n) \<and> CHR 0x00 \<notin> set (show_base b n)"
  using assms
proof (induction b n rule: show_base.induct)
  case (1 b n)
  from 1(2) have "n mod b < b" by simp
  with 1(3) have "n mod b < 16" by linarith
  with 1 show ?case
    using digit_char_ascii [of "n mod b"] digit_char_ascii [of n]
    by (subst (1 2) show_base.simps) auto
qed

subsection \<open>Addresses\<close>

datatype ip_addr = V4 u32 | V6 u128

definition octets4 :: "u32 \<Rightarrow> bytes" where "octets4 w = be_bytes 4 (unat w)"
definition octets6 :: "u128 \<Rightarrow> bytes" where "octets6 w = be_bytes 16 (unat w)"
definition from_octets4 :: "bytes \<Rightarrow> u32" where "from_octets4 bs = of_nat (be_val bs)"
definition from_octets6 :: "bytes \<Rightarrow> u128" where "from_octets6 bs = of_nat (be_val bs)"

fun octets :: "ip_addr \<Rightarrow> bytes" where
  "octets (V4 w) = octets4 w"
| "octets (V6 w) = octets6 w"

lemma length_octets [simp]: "length (octets4 a) = 4" "length (octets6 b) = 16"
  by (simp_all add: octets4_def octets6_def)

lemma from_octets_octets [simp]: "from_octets4 (octets4 a) = a" "from_octets6 (octets6 b) = b"
  using unat_bound [of a] unat_bound [of b]
  by (simp_all add: from_octets4_def octets4_def from_octets6_def octets6_def be_val_be_bytes)

lemma octets_from_octets:
  "length bs = 4 \<Longrightarrow> octets4 (from_octets4 bs) = bs"
  "length cs = 16 \<Longrightarrow> octets6 (from_octets6 cs) = cs"
  using be_bytes_be_val [of bs] be_val_bound [of bs] be_bytes_be_val [of cs] be_val_bound [of cs]
  by (simp_all add: octets4_def from_octets4_def octets6_def from_octets6_def unat_of_nat)

text \<open>The eight 16-bit segments of an IPv6 address, most significant first.\<close>

definition segments :: "u128 \<Rightarrow> nat list" where
  "segments w = map (\<lambda>i. be_val (slice (2 * i) (2 * i + 2) (octets6 w))) [0..<8]"

definition from_segments :: "nat list \<Rightarrow> u128" where
  "from_segments gs = from_octets6 (concat (map (be_bytes 2) gs))"

definition to_ipv4_mapped :: "u128 \<Rightarrow> u32 option" where
  "to_ipv4_mapped w =
     (if take 12 (octets6 w) = replicate 10 0 @ [255, 255]
      then Some (from_octets4 (drop 12 (octets6 w))) else None)"

subsection \<open>Parsing addresses\<close>

text \<open>The recursive-descent parser of \<open>core::net\<close>; a parser returns the value and the rest.\<close>

definition read_number :: "nat \<Rightarrow> nat \<Rightarrow> bool \<Rightarrow> nat \<Rightarrow> string \<Rightarrow> (nat \<times> string) option" where
  "read_number radix max_digits allow_zero_prefix limit s =
    (let ds = takeWhile (\<lambda>c. to_digit radix c \<noteq> None) s;
         rest = dropWhile (\<lambda>c. to_digit radix c \<noteq> None) s
     in if length ds > max_digits then None
        else if ds = [] then None
        else if \<not> allow_zero_prefix \<and> hd ds = CHR ''0'' \<and> length ds > 1 then None
        else if digits_val radix ds > limit then None
        else Some (digits_val radix ds, rest))"

definition read_separator :: "char \<Rightarrow> nat \<Rightarrow> (string \<Rightarrow> 'a option) \<Rightarrow> string \<Rightarrow> 'a option" where
  "read_separator sep i f s =
     (if 0 < i then (case s of c # r \<Rightarrow> if c = sep then f r else None | [] \<Rightarrow> None) else f s)"

fun read_dotted :: "nat \<Rightarrow> nat \<Rightarrow> string \<Rightarrow> (nat list \<times> string) option" where
  "read_dotted i 0 s = Some ([], s)"
| "read_dotted i (Suc k) s =
     (case read_separator CHR ''.'' i (read_number 10 3 False 255) s of
        None \<Rightarrow> None
      | Some (g, r) \<Rightarrow> (case read_dotted (Suc i) k r of
            None \<Rightarrow> None | Some (gs, r') \<Rightarrow> Some (g # gs, r')))"

definition read_ipv4_addr :: "string \<Rightarrow> (nat list \<times> string) option" where
  "read_ipv4_addr s = read_dotted 0 4 s"

text \<open>
  \<open>read_groups\<close> reads up to \<open>limit\<close> colon-separated groups, accepting a dotted quad for the
  last two; it returns the groups and whether a dotted quad ended them.
\<close>

fun read_groups :: "nat \<Rightarrow> nat \<Rightarrow> string \<Rightarrow> nat list \<times> bool \<times> string" where
  "read_groups i 0 s = ([], False, s)"
| "read_groups i (Suc k) s =
     (let v4 = (if 0 < k then read_separator CHR '':'' i read_ipv4_addr s else None)
      in case v4 of
           Some (q, r) \<Rightarrow> ([q ! 0 * 256 + q ! 1, q ! 2 * 256 + q ! 3], True, r)
         | None \<Rightarrow>
             (case read_separator CHR '':'' i (read_number 16 4 True 65535) s of
                None \<Rightarrow> ([], False, s)
              | Some (g, r) \<Rightarrow>
                  (case read_groups (Suc i) k r of (gs, q, r') \<Rightarrow> (g # gs, q, r'))))"

definition read_ipv6_addr :: "string \<Rightarrow> (nat list \<times> string) option" where
  "read_ipv6_addr s =
    (case read_groups 0 8 s of
       (head, head_ipv4, r) \<Rightarrow>
         if length head = 8 then Some (head, r)
         else if head_ipv4 then None
         else (case r of
             c1 # c2 # r2 \<Rightarrow>
               if c1 = CHR '':'' \<and> c2 = CHR '':'' then
                 (case read_groups 0 (8 - (length head + 1)) r2 of
                    (tail, _, r3) \<Rightarrow>
                      Some (head @ replicate (8 - length head - length tail) 0 @ tail, r3))
               else None
           | _ \<Rightarrow> None))"

definition parse_ipv4 :: "string \<Rightarrow> u32 option" where
  "parse_ipv4 s =
     (if length s > 15 then None
      else case read_ipv4_addr s of
        Some (gs, []) \<Rightarrow> Some (from_octets4 (map of_nat gs)) | _ \<Rightarrow> None)"

definition parse_ipv6 :: "string \<Rightarrow> u128 option" where
  "parse_ipv6 s =
     (case read_ipv6_addr s of Some (gs, []) \<Rightarrow> Some (from_segments gs) | _ \<Rightarrow> None)"

definition parse_ip :: "string \<Rightarrow> ip_addr option" where
  "parse_ip s =
     (case read_ipv4_addr s of
        Some (gs, r) \<Rightarrow> if r = [] then Some (V4 (from_octets4 (map of_nat gs))) else None
      | None \<Rightarrow> map_option V6 (parse_ipv6 s))"

subsection \<open>Displaying addresses\<close>

fun join_with :: "string \<Rightarrow> string list \<Rightarrow> string" where
  "join_with sep [] = []"
| "join_with sep [x] = x"
| "join_with sep (x # y # xs) = x @ sep @ join_with sep (y # xs)"

definition show_ipv4 :: "u32 \<Rightarrow> string" where
  "show_ipv4 w = join_with ''.'' (map (\<lambda>b. show_nat (unat b)) (octets4 w))"

text \<open>The longest run of zero segments, the first of several: \<open>(start, len)\<close>.\<close>

fun zero_span :: "nat \<Rightarrow> nat \<times> nat \<Rightarrow> nat \<times> nat \<Rightarrow> nat list \<Rightarrow> nat \<times> nat" where
  "zero_span i current longest [] = longest"
| "zero_span i current longest (g # gs) =
     (if g = 0 then
        (let cur = (if snd current = 0 then (i, 1) else (fst current, Suc (snd current)));
             lng = (if snd cur > snd longest then cur else longest)
         in zero_span (Suc i) cur lng gs)
      else zero_span (Suc i) (0, 0) longest gs)"

definition show_ipv6 :: "u128 \<Rightarrow> string" where
  "show_ipv6 w =
    (case to_ipv4_mapped w of
       Some v4 \<Rightarrow> ''::ffff:'' @ show_ipv4 v4
     | None \<Rightarrow>
        (let gs = segments w; (start, len) = zero_span 0 (0, 0) (0, 0) gs
         in if len > 1
            then join_with '':'' (map show_hex (take start gs)) @ ''::''
                 @ join_with '':'' (map show_hex (drop (start + len) gs))
            else join_with '':'' (map show_hex gs)))"

fun show_ip :: "ip_addr \<Rightarrow> string" where
  "show_ip (V4 w) = show_ipv4 w"
| "show_ip (V6 w) = show_ipv6 w"

subsection \<open>Printed addresses\<close>

lemma length_join_with:
  "length (join_with sep xs) \<le> sum_list (map length xs) + length xs * length sep"
  by (induction sep xs rule: join_with.induct) auto

lemma join_with_ascii:
  "\<forall>x \<in> set xs. is_ascii x \<and> CHR 0x00 \<notin> set x \<Longrightarrow> is_ascii sep \<and> CHR 0x00 \<notin> set sep \<Longrightarrow>
     is_ascii (join_with sep xs) \<and> CHR 0x00 \<notin> set (join_with sep xs)"
  by (induction sep xs rule: join_with.induct) auto

lemma join_with_nonempty: "xs \<noteq> [] \<Longrightarrow> \<forall>x \<in> set xs. x \<noteq> [] \<Longrightarrow> join_with sep xs \<noteq> []"
  by (induction sep xs rule: join_with.induct) auto

lemma sum_list_length_le: "\<forall>x \<in> set xs. length x \<le> k \<Longrightarrow> sum_list (map length xs) \<le> k * length xs"
  by (induction xs) auto

definition plain_host :: "string \<Rightarrow> bool" where
  "plain_host s \<longleftrightarrow> s \<noteq> [] \<and> length s \<le> 253 \<and> CHR 0x00 \<notin> set s \<and> is_ascii s"

lemma unat_byte_less [simp]: "unat (b::byte) < 256"
  using unat_bound [of b] by simp

lemma show_nat_byte:
  "length (show_nat (unat (b::byte))) \<le> 3" "show_nat k \<noteq> []" "is_ascii (show_nat k)"
  "CHR 0x00 \<notin> set (show_nat k)"
proof -
  have "unat b < 10 ^ 3" by (rule less_trans [OF unat_byte_less]) simp
  then show "length (show_nat (unat b)) \<le> 3"
    unfolding show_nat_def by (intro length_show_base_le) auto
  show "show_nat k \<noteq> []" "is_ascii (show_nat k)" "CHR 0x00 \<notin> set (show_nat k)"
    using show_base_ascii [of 10 k] by (auto simp: show_nat_def)
qed

lemma show_ipv4_plain: "plain_host (show_ipv4 w) \<and> length (show_ipv4 w) \<le> 16"
proof -
  let ?xs = "map (\<lambda>b. show_nat (unat b)) (octets4 w)"
  have "sum_list (map length ?xs) \<le> 3 * length ?xs"
    by (rule sum_list_length_le) (auto simp: show_nat_byte)
  then have "length (show_ipv4 w) \<le> 16"
    using length_join_with [of "''.''" ?xs] by (simp add: show_ipv4_def)
  moreover have "show_ipv4 w \<noteq> []"
    unfolding show_ipv4_def
    by (rule join_with_nonempty) (auto simp: show_nat_byte dest: arg_cong [of _ _ length])
  moreover have "is_ascii (show_ipv4 w) \<and> CHR 0x00 \<notin> set (show_ipv4 w)"
    unfolding show_ipv4_def by (rule join_with_ascii) (auto simp: show_nat_byte)
  ultimately show ?thesis by (auto simp: plain_host_def)
qed

lemma segments_bound: "g \<in> set (segments w) \<Longrightarrow> g < 65536"
proof -
  assume "g \<in> set (segments w)"
  then obtain i where "i < 8" and g: "g = be_val (slice (2 * i) (2 * i + 2) (octets6 w))"
    by (auto simp: segments_def)
  then have "length (slice (2 * i) (2 * i + 2) (octets6 w)) = 2" by simp
  then show ?thesis using be_val_bound [of "slice (2 * i) (2 * i + 2) (octets6 w)"] g by simp
qed

lemma show_hex_group:
  "k < 65536 \<Longrightarrow> length (show_hex k) \<le> 4" "show_hex k \<noteq> []" "is_ascii (show_hex k)"
  "CHR 0x00 \<notin> set (show_hex k)"
  using show_base_ascii [of 16 k] length_show_base_le [of 16 k 4] by (auto simp: show_hex_def)

lemma join_hex_plain:
  assumes "\<forall>g \<in> set gs. g < 65536" "length gs \<le> 8"
  shows "length (join_with '':'' (map show_hex gs)) \<le> 40"
    "is_ascii (join_with '':'' (map show_hex gs)) \<and> CHR 0x00 \<notin> set (join_with '':'' (map show_hex gs))"
proof -
  have "sum_list (map length (map show_hex gs)) \<le> 4 * length (map show_hex gs)"
    using assms(1) by (intro sum_list_length_le) (auto simp: show_hex_group)
  then show "length (join_with '':'' (map show_hex gs)) \<le> 40"
    using length_join_with [of "'':''" "map show_hex gs"] assms(2) by simp
  show "is_ascii (join_with '':'' (map show_hex gs)) \<and> CHR 0x00 \<notin> set (join_with '':'' (map show_hex gs))"
    by (rule join_with_ascii) (auto simp: show_hex_group)
qed

lemma show_ipv6_plain: "plain_host (show_ipv6 w)"
proof (cases "to_ipv4_mapped w")
  case (Some v4)
  then show ?thesis
    using show_ipv4_plain [of v4] by (auto simp: show_ipv6_def plain_host_def)
next
  case None
  obtain start len where z: "zero_span 0 (0, 0) (0, 0) (segments w) = (start, len)"
    by (cases "zero_span 0 (0, 0) (0, 0) (segments w)")
  have seg: "length (segments w) = 8" by (simp add: segments_def)
  have b: "\<forall>g \<in> set (segments w). g < 65536" by (simp add: segments_bound)
  have "\<forall>g \<in> set (take start (segments w)). g < 65536"
    "\<forall>g \<in> set (drop (start + len) (segments w)). g < 65536"
    using b by (auto dest: in_set_takeD in_set_dropD)
  note p1 = join_hex_plain [OF this(1)] and p2 = join_hex_plain [OF this(2)]
    and p3 = join_hex_plain [OF b]
  have "join_with '':'' (map show_hex (segments w)) \<noteq> []"
    using seg by (intro join_with_nonempty) (auto simp: show_hex_group)
  with None z seg p1 p2 p3 show ?thesis
    by (simp add: show_ipv6_def plain_host_def Let_def)
qed

lemma show_ip_plain: "plain_host (show_ip ip)"
  using show_ipv4_plain show_ipv6_plain by (cases ip) auto

subsection \<open>A printed IPv4 address parses back\<close>

lemma takeWhile_digits:
  assumes "2 \<le> b" "b \<le> 16" "rest = [] \<or> to_digit b (hd rest) = None"
  shows "takeWhile (\<lambda>c. to_digit b c \<noteq> None) (show_base b n @ rest) = show_base b n"
    "dropWhile (\<lambda>c. to_digit b c \<noteq> None) (show_base b n @ rest) = rest"
proof -
  have d: "\<forall>c \<in> set (show_base b n). to_digit b c \<noteq> None"
    using assms(1,2) by (rule show_base_digits)
  have "takeWhile (\<lambda>c. to_digit b c \<noteq> None) rest = []"
    "dropWhile (\<lambda>c. to_digit b c \<noteq> None) rest = rest"
    using assms(3) by (cases rest; simp)+
  with d show "takeWhile (\<lambda>c. to_digit b c \<noteq> None) (show_base b n @ rest) = show_base b n"
    "dropWhile (\<lambda>c. to_digit b c \<noteq> None) (show_base b n @ rest) = rest"
    by (simp_all add: takeWhile_append2 dropWhile_append2)
qed

lemma read_number_byte:
  assumes "rest = [] \<or> to_digit 10 (hd rest) = None"
  shows "read_number 10 3 False 255 (show_nat (unat (b::byte)) @ rest) = Some (unat b, rest)"
proof -
  have zero: "length (show_nat (unat b)) = 1" if "hd (show_nat (unat b)) = CHR ''0''"
  proof -
    have "digit_char 0 = CHR ''0''" by code_simp
    with that have "unat b = 0"
      using show_base_leading_zero [of 10 "unat b"] by (simp add: show_nat_def)
    then have "show_nat (unat b) = [digit_char 0]"
      by (simp add: show_nat_def show_base.simps)
    then show ?thesis by simp
  qed
  have "unat b \<le> 255" using unat_byte_less [of b] by linarith
  then show ?thesis
    using takeWhile_digits [of 10 rest "unat b"] assms show_nat_byte(1) [of b]
      digits_val_show_base [of 10 "unat b"] zero
    by (auto simp: read_number_def show_nat_def Let_def)
qed

lemma octets4_cases: obtains a b c d where "octets4 w = [a, b, c, d]"
proof -
  have "length (octets4 w) = Suc (Suc (Suc (Suc 0)))" by simp
  then show ?thesis using that by (auto simp only: length_Suc_conv length_0_conv)
qed

lemma dot_no_digit: "to_digit 10 CHR ''.'' = None"
  by (simp add: to_digit_def)

lemma read_ipv4_show:
  assumes "rest = [] \<or> to_digit 10 (hd rest) = None"
  shows "read_ipv4_addr (show_ipv4 w @ rest) = Some (map unat (octets4 w), rest)"
proof -
  obtain a b c d where o: "octets4 w = [a, b, c, d]" by (rule octets4_cases)
  have four: "(4::nat) = Suc (Suc (Suc (Suc 0)))" by simp
  show ?thesis
    using assms
    by (simp add: read_ipv4_addr_def show_ipv4_def o four read_separator_def read_number_byte
        dot_no_digit)
qed

lemma parse_show_ipv4: "parse_ipv4 (show_ipv4 w) = Some w"
proof -
  obtain a b c d where o: "octets4 w = [a, b, c, d]" by (rule octets4_cases)
  have "length (show_ipv4 w) \<le> 15"
    using show_nat_byte(1) [of a] show_nat_byte(1) [of b] show_nat_byte(1) [of c]
      show_nat_byte(1) [of d]
    by (simp add: show_ipv4_def o)
  moreover have "map of_nat (map unat (octets4 w)) = octets4 w"
    by (simp add: o)
  ultimately show ?thesis
    using read_ipv4_show [of "[]" w] by (simp add: parse_ipv4_def)
qed

lemma parse_ip_show_ipv4: "parse_ip (show_ipv4 w) = Some (V4 w)"
proof -
  obtain a b c d where o: "octets4 w = [a, b, c, d]" by (rule octets4_cases)
  have "map of_nat (map unat (octets4 w)) = octets4 w"
    by (simp add: o)
  then show ?thesis
    using read_ipv4_show [of "[]" w] by (simp add: parse_ip_def)
qed

end
