(* ===== verification/Young_Crypto.thy ===== *)
theory Young_Crypto
  imports Std_Net
begin

text \<open>
  The cryptographic layer of the Young codec (\<open>core-young/src/codec.rs\<close>): HMAC tags over a list
  of parts, full and truncated tag verification, and the deterministic padding that both peers
  derive from the session key with BLAKE3's extendable output.

  SHA-256, HMAC-SHA-256, BLAKE3 and base64url are third-party crates: they are the fields of a
  record \<open>crypto\<close> that every definition takes as an argument. BLAKE3's output reader is the
  infinite byte stream \<open>blake3_xof c key message\<close>, so that filling a buffer in blocks and in one
  go are two ways of reading the same stream. \<open>crypto_ok\<close> names what the code relies on.
\<close>

record crypto =
  sha256 :: "bytes \<Rightarrow> bytes"
  hmac_sha256 :: "bytes \<Rightarrow> bytes \<Rightarrow> bytes"
  blake3_xof :: "bytes \<Rightarrow> bytes \<Rightarrow> nat \<Rightarrow> byte"
  b64_encode :: "bytes \<Rightarrow> string"
  b64_decode :: "string \<Rightarrow> bytes option"

definition crypto_ok :: "crypto \<Rightarrow> bool" where
  "crypto_ok c \<longleftrightarrow>
     (\<forall>m. length (sha256 c m) = 32) \<and>
     (\<forall>k m. length (hmac_sha256 c k m) = 32) \<and>
     (\<forall>x. b64_decode c (b64_encode c x) = Some x) \<and>
     (\<forall>x. length (b64_encode c x) = (4 * length x + 2) div 3)"

lemma crypto_okD [simp]:
  assumes "crypto_ok c"
  shows "length (sha256 c m) = 32" "length (hmac_sha256 c k m) = 32"
    "b64_decode c (b64_encode c x) = Some x"
    "length (b64_encode c x) = (4 * length x + 2) div 3"
  using assms by (simp_all add: crypto_ok_def)

definition VERSION :: byte where "VERSION = 1"
definition MAX_PADDING_BYTES :: nat where "MAX_PADDING_BYTES = 4096"
definition MAX_PADDING_SCHEME_LENGTH :: nat where "MAX_PADDING_SCHEME_LENGTH = 256"
definition MAX_DATA_PAYLOAD_BYTES :: nat where "MAX_DATA_PAYLOAD_BYTES = 32 * 1024"
definition MAX_UDP_PAYLOAD_BYTES :: nat where "MAX_UDP_PAYLOAD_BYTES = 65507"
definition MAX_UDP_FRAGMENTS :: nat where "MAX_UDP_FRAGMENTS = 256"
definition AUTH_TOKEN_BYTES :: nat where "AUTH_TOKEN_BYTES = 1 + 8 + 8 + 16 + 4 + 32"
definition FLOW_TAG_BYTES :: nat where "FLOW_TAG_BYTES = 16"
definition FLOW_RESPONSE_BYTES :: nat where "FLOW_RESPONSE_BYTES = 2 + 1 + 1 + 8 + FLOW_TAG_BYTES"
definition DATA_FRAME_HEADER_BYTES :: nat where "DATA_FRAME_HEADER_BYTES = 2 + 1 + 1 + 8 + 2 + 2"
definition UDP_HEADER_BYTES :: nat where "UDP_HEADER_BYTES = 2 + 1 + 1 + 8 + 4 + 2 + 2 + 2"
definition PADDED_UDP_HEADER_BYTES :: nat where "PADDED_UDP_HEADER_BYTES = UDP_HEADER_BYTES + 2 + 2"
definition UDP_TAG_BYTES :: nat where "UDP_TAG_BYTES = 16"
definition PADDING_SCHEME_TAG_BYTES :: nat where "PADDING_SCHEME_TAG_BYTES = 32"
definition LEGACY_PADDING_SCHEME_VERSION :: byte where "LEGACY_PADDING_SCHEME_VERSION = 1"
definition BIDIRECTIONAL_PADDING_SCHEME_VERSION :: byte where "BIDIRECTIONAL_PADDING_SCHEME_VERSION = 2"
definition PADDING_SCHEME_MAX_ENCODED_BYTES :: nat where "PADDING_SCHEME_MAX_ENCODED_BYTES = ((1 + 2 + 2 * MAX_PADDING_SCHEME_LENGTH * 2 + PADDING_SCHEME_TAG_BYTES + 2) div 3) * 4"

lemmas young_consts =
  VERSION_def MAX_PADDING_BYTES_def MAX_PADDING_SCHEME_LENGTH_def MAX_DATA_PAYLOAD_BYTES_def
  MAX_UDP_PAYLOAD_BYTES_def MAX_UDP_FRAGMENTS_def AUTH_TOKEN_BYTES_def FLOW_TAG_BYTES_def
  FLOW_RESPONSE_BYTES_def DATA_FRAME_HEADER_BYTES_def UDP_HEADER_BYTES_def
  PADDED_UDP_HEADER_BYTES_def UDP_TAG_BYTES_def PADDING_SCHEME_TAG_BYTES_def
  LEGACY_PADDING_SCHEME_VERSION_def BIDIRECTIONAL_PADDING_SCHEME_VERSION_def
  PADDING_SCHEME_MAX_ENCODED_BYTES_def

subsection \<open>Tags\<close>

definition hmac_tag :: "crypto \<Rightarrow> bytes \<Rightarrow> bytes list \<Rightarrow> bytes" where
  "hmac_tag c key parts = hmac_sha256 c key (concat parts)"

definition verify_hmac :: "crypto \<Rightarrow> bytes \<Rightarrow> bytes list \<Rightarrow> bytes \<Rightarrow> io_error + unit" where
  "verify_hmac c key parts tag =
     (if tag = hmac_tag c key parts then Inr ()
      else Inl (permission_denied ''authentication tag mismatch''))"

definition verify_hmac_truncated :: "crypto \<Rightarrow> bytes \<Rightarrow> bytes list \<Rightarrow> bytes \<Rightarrow> io_error + unit" where
  "verify_hmac_truncated c key parts tag =
     (if length tag \<noteq> FLOW_TAG_BYTES then Inl (permission_denied ''truncated tag length'')
      else if take (length tag) (hmac_tag c key parts) = tag then Inr ()
      else Inl (permission_denied ''authentication tag mismatch''))"

lemma length_hmac_tag [simp]: "crypto_ok c \<Longrightarrow> length (hmac_tag c k ps) = 32"
  by (simp add: hmac_tag_def)

lemma verify_hmac_own [simp]: "verify_hmac c k ps (hmac_tag c k ps) = Inr ()"
  by (simp add: verify_hmac_def)

lemma verify_hmac_Inr: "verify_hmac c k ps t = Inr u \<longleftrightarrow> t = hmac_tag c k ps"
  by (auto simp: verify_hmac_def)

lemma verify_hmac_truncated_own [simp]:
  "crypto_ok c \<Longrightarrow> verify_hmac_truncated c k ps (take FLOW_TAG_BYTES (hmac_tag c k ps)) = Inr ()"
  by (simp add: verify_hmac_truncated_def young_consts)

lemma verify_hmac_truncated_Inr:
  "crypto_ok c \<Longrightarrow>
     verify_hmac_truncated c k ps t = Inr u \<longleftrightarrow> t = take FLOW_TAG_BYTES (hmac_tag c k ps)"
  by (auto simp: verify_hmac_truncated_def young_consts split: if_splits)

subsection \<open>Deterministic padding\<close>

definition deterministic_padding :: "crypto \<Rightarrow> bytes \<Rightarrow> bytes \<Rightarrow> bytes list \<Rightarrow> nat \<Rightarrow> bytes" where
  "deterministic_padding c key domain context n =
     map (blake3_xof c key (domain @ concat context)) [0..<n]"

definition extend_deterministic_padding ::
  "crypto \<Rightarrow> bytes \<Rightarrow> bytes \<Rightarrow> bytes list \<Rightarrow> bytes \<Rightarrow> nat \<Rightarrow> bytes" where
  "extend_deterministic_padding c key domain context output padding_len =
     (if padding_len = 0 then output
      else output @ deterministic_padding c key domain context padding_len)"

text \<open>
  The verifier reads the stream in blocks of 64 bytes and accumulates the differences with OR,
  so that its running time does not depend on where a difference is.
\<close>

fun padding_mismatch :: "(nat \<Rightarrow> byte) \<Rightarrow> nat \<Rightarrow> byte \<Rightarrow> bytes list \<Rightarrow> byte" where
  "padding_mismatch reader pos mismatch [] = mismatch"
| "padding_mismatch reader pos mismatch (actual # rest) =
     (let expected = map reader [pos..<pos + length actual];
          m = foldl (\<lambda>m (l, r). m OR (l XOR r)) mismatch (zip actual expected)
      in padding_mismatch reader (pos + length actual) m rest)"

definition verify_deterministic_padding ::
  "crypto \<Rightarrow> bytes \<Rightarrow> bytes \<Rightarrow> bytes list \<Rightarrow> bytes \<Rightarrow> io_error + unit" where
  "verify_deterministic_padding c key domain context padding =
     (if padding_mismatch (blake3_xof c key (domain @ concat context)) 0 0 (chunks 64 padding) = 0
      then Inr () else Inl (invalid_data ''deterministic padding mismatch''))"

lemma length_deterministic_padding [simp]: "length (deterministic_padding c k d ctx n) = n"
  by (simp add: deterministic_padding_def)

lemma extend_deterministic_padding_eq:
  "extend_deterministic_padding c k d ctx out n = out @ deterministic_padding c k d ctx n"
  by (simp add: extend_deterministic_padding_def deterministic_padding_def)

lemma xor_word_eq_0_iff: "(a :: 'a::len word) XOR b = 0 \<longleftrightarrow> a = b"
proof
  assume z: "a XOR b = 0"
  show "a = b"
  proof (rule bit_word_eqI)
    fix n assume "n < LENGTH('a)"
    from z have "bit (a XOR b) n = bit (0 :: 'a word) n" by (rule arg_cong)
    then show "bit a n \<longleftrightarrow> bit b n" by (simp add: bit_xor_iff)
  qed
qed simp

lemma mismatch_fold:
  "foldl (\<lambda>m (l, r). m OR (l XOR r)) m0 ps = (0 :: byte) \<longleftrightarrow> m0 = 0 \<and> (\<forall>(l, r) \<in> set ps. l = r)"
  by (induction ps arbitrary: m0) (auto simp: or_eq_0_iff xor_word_eq_0_iff)

lemma all_zip_eq: "length xs = length ys \<Longrightarrow> (\<forall>(l, r) \<in> set (zip xs ys). l = r) \<longleftrightarrow> xs = ys"
  by (induction xs ys rule: list_induct2) auto

lemma padding_mismatch_0_iff:
  "padding_mismatch f pos m cs = 0 \<longleftrightarrow>
     m = 0 \<and> concat cs = map f [pos..<pos + length (concat cs)]"
proof (induction cs arbitrary: pos m)
  case Nil
  then show ?case by simp
next
  case (Cons a cs)
  have split: "[pos..<pos + (length a + length (concat cs))] =
      [pos..<pos + length a] @ [pos + length a..<pos + length a + length (concat cs)]"
    using upt_add_eq_append [of pos "pos + length a" "length (concat cs)"] by (simp add: add.assoc)
  show ?case
    by (auto simp: Let_def Cons.IH mismatch_fold all_zip_eq split append_eq_append_conv)
qed

lemma verify_padding_iff:
  "verify_deterministic_padding c k d ctx p = Inr u \<longleftrightarrow>
     p = deterministic_padding c k d ctx (length p)"
  by (simp add: verify_deterministic_padding_def padding_mismatch_0_iff concat_chunks
      deterministic_padding_def)

lemma verify_padding_own [simp]:
  "verify_deterministic_padding c k d ctx (deterministic_padding c k d ctx n) = Inr ()"
  using verify_padding_iff [of c k d ctx "deterministic_padding c k d ctx n" "()"] by simp

subsection \<open>A concrete instance, for evaluating the model\<close>

definition sample_crypto :: crypto where
  "sample_crypto = \<lparr>
     sha256 = (\<lambda>m. replicate 32 (sum_list m)),
     hmac_sha256 = (\<lambda>k m. replicate 32 (sum_list k + 3 * sum_list m)),
     blake3_xof = (\<lambda>k m i. sum_list k + sum_list m + of_nat i),
     b64_encode = (\<lambda>x. bytes_to_string (x @ replicate ((4 * length x + 2) div 3 - length x) 0)),
     b64_decode = (\<lambda>s. Some (take (3 * length s div 4) (as_bytes s)))\<rparr>"

lemma sample_crypto_ok: "crypto_ok sample_crypto"
proof -
  have "3 * ((4 * n + 2) div 3) div 4 = n" "n \<le> (4 * n + 2) div 3" for n :: nat
    by presburger+
  then show ?thesis by (simp add: crypto_ok_def sample_crypto_def)
qed

end
