(* ===== verification/Young_Auth.thy ===== *)
theory Young_Auth
  imports Young_Crypto
begin

text \<open>
  Session authentication of the Young protocol (\<open>core-young/src/codec.rs\<close>): pre-shared keys and
  the key ring, the replay cache, the authorization token a client sends and the server
  verifies, the server's accept proof, the daily rotating path and the session key.

  \<open>check_and_insert\<close> and \<open>verify_authorization\<close> return their result together with the cache they
  leave behind, since the cache is pruned even when a token is rejected as a replay.
  The mutex around the cache is not modelled: the calls are the steps of a sequence.
\<close>

subsection \<open>Keys\<close>

datatype young_key = YoungKey (key_bytes: bytes)

definition from_bytes :: "bytes \<Rightarrow> young_key" where
  "from_bytes bs = YoungKey bs"

text \<open>\<open>trim\<close> is \<open>str::trim\<close>, which needs the Unicode tables and is an argument.\<close>

definition parse_base64url :: "crypto \<Rightarrow> (string \<Rightarrow> string) \<Rightarrow> string \<Rightarrow> io_error + young_key" where
  "parse_base64url c trim value =
     (case b64_decode c (trim value) of
        None \<Rightarrow> Inl (invalid_input ''key is not base64url'')
      | Some bs \<Rightarrow>
          if length bs = 32 then Inr (from_bytes bs)
          else Inl (invalid_input ''key must decode to 32 bytes''))"

definition key_id :: "crypto \<Rightarrow> young_key \<Rightarrow> bytes" where
  "key_id c k = take 8 (sha256 c (key_bytes k))"

definition hex_id :: "bytes \<Rightarrow> string" where
  "hex_id kid = concat (map (\<lambda>b. [digit_char (unat (drop_bit 4 b)), digit_char (unat (b AND 15))]) kid)"

lemma length_key_id [simp]: "crypto_ok c \<Longrightarrow> length (key_id c k) = 8"
  by (simp add: key_id_def)

record key_ring =
  ring_keys :: "young_key list"

fun has_duplicate_id :: "crypto \<Rightarrow> bytes set \<Rightarrow> young_key list \<Rightarrow> bool" where
  "has_duplicate_id c ids [] = False"
| "has_duplicate_id c ids (k # ks) =
     (if key_id c k \<in> ids then True else has_duplicate_id c (insert (key_id c k) ids) ks)"

definition key_ring_new :: "crypto \<Rightarrow> young_key list \<Rightarrow> io_error + key_ring" where
  "key_ring_new c ks =
     (if ks = [] then Inl (invalid_input ''key ring is empty'')
      else if has_duplicate_id c {} ks then Inl (invalid_input ''duplicate key id'')
      else Inr \<lparr>ring_keys = ks\<rparr>)"

definition key_ring_find :: "crypto \<Rightarrow> key_ring \<Rightarrow> bytes \<Rightarrow> young_key option" where
  "key_ring_find c ring kid = find (\<lambda>k. key_id c k = kid) (ring_keys ring)"

lemma has_duplicate_id_iff:
  "\<not> has_duplicate_id c ids ks \<longleftrightarrow>
     distinct (map (key_id c) ks) \<and> set (map (key_id c) ks) \<inter> ids = {}"
  by (induction c ids ks rule: has_duplicate_id.induct) auto

lemma key_ring_find_new:
  assumes "key_ring_new c ks = Inr ring" "k \<in> set ks"
  shows "key_ring_find c ring (key_id c k) = Some k"
proof -
  from assms(1) have ring: "ring = \<lparr>ring_keys = ks\<rparr>" and d: "distinct (map (key_id c) ks)"
    by (auto simp: key_ring_new_def has_duplicate_id_iff split: if_splits)
  from d assms(2) have "find (\<lambda>k'. key_id c k' = key_id c k) ks = Some k"
    by (induction ks) auto
  with ring show ?thesis by (simp add: key_ring_find_def)
qed

lemma key_ring_find_Some: "key_ring_find c ring kid = Some k \<Longrightarrow> k \<in> set (ring_keys ring) \<and> key_id c k = kid"
  by (auto simp: key_ring_find_def find_Some_iff)

subsection \<open>The replay cache\<close>

record replay_cache =
  entries :: "(bytes \<times> u64) list"
  max_entries :: nat

definition replay_default :: replay_cache where
  "replay_default = \<lparr>entries = [], max_entries = 65536\<rparr>"

definition with_capacity :: "nat \<Rightarrow> replay_cache" where
  "with_capacity n = \<lparr>entries = [], max_entries = max n 1\<rparr>"

definition replay_cutoff :: "u64 \<Rightarrow> u64 \<Rightarrow> u64" where
  "replay_cutoff now window_secs = saturating_sub now (saturating_mul window_secs 2)"

definition check_and_insert ::
  "replay_cache \<Rightarrow> bytes \<Rightarrow> bytes \<Rightarrow> u64 \<Rightarrow> u64 \<Rightarrow> u64 \<Rightarrow> (io_error + unit) \<times> replay_cache" where
  "check_and_insert r kid nonce timestamp now window_secs =
    (let replay_key = kid @ nonce;
         cutoff = replay_cutoff now window_secs;
         kept = amap_retain (\<lambda>_ seen_at. cutoff \<le> seen_at) (entries r)
     in if amap_contains replay_key kept
        then (Inl (permission_denied ''session authentication replayed''), r\<lparr>entries := kept\<rparr>)
        else (let room = (if max_entries r \<le> length kept
                          then (case min_by_key id kept of
                                  Some oldest \<Rightarrow> amap_remove oldest kept
                                | None \<Rightarrow> kept)
                          else kept)
              in (Inr (), r\<lparr>entries := amap_insert replay_key timestamp room\<rparr>)))"

definition replay_len :: "replay_cache \<Rightarrow> nat" where
  "replay_len r = length (entries r)"

definition replay_wf :: "replay_cache \<Rightarrow> bool" where
  "replay_wf r \<longleftrightarrow> amap_wf (entries r) \<and> 0 < max_entries r \<and> length (entries r) \<le> max_entries r"

lemma max_entries_check_and_insert [simp]:
  "max_entries (snd (check_and_insert r kid nonce ts now w)) = max_entries r"
  by (simp add: check_and_insert_def Let_def)

text \<open>Every call keeps the cache a map of bounded size.\<close>

lemma check_and_insert_wf:
  assumes "replay_wf r"
  shows "replay_wf (snd (check_and_insert r kid nonce ts now w))"
proof -
  let ?kept = "amap_retain (\<lambda>_ seen_at. replay_cutoff now w \<le> seen_at) (entries r)"
  from assms have wf: "amap_wf ?kept" and pos: "0 < max_entries r" by (simp_all add: replay_wf_def)
  have le: "length ?kept \<le> max_entries r"
    by (rule le_trans [OF length_amap_retain_le]) (use assms in \<open>simp add: replay_wf_def\<close>)
  have room: "length (amap_remove k ?kept) < max_entries r"
    if "min_by_key id ?kept = Some k" for k
  proof -
    have "amap_contains k ?kept" using that by (rule min_by_key_in)
    moreover from this have "?kept \<noteq> []" by (auto simp: amap_contains_def)
    ultimately show ?thesis using wf le pos length_amap_remove_in [of ?kept k] by (cases ?kept) auto
  qed
  have ins: "length (amap_insert k v m) \<le> max_entries r" if "length m < max_entries r"
    for k :: bytes and v :: u64 and m
    using that length_amap_insert_le [of k v m] by linarith
  show ?thesis
    using wf le pos room ins
    by (auto simp: check_and_insert_def replay_wf_def Let_def split: option.splits)
qed

lemma check_and_insert_length:
  "length (entries (snd (check_and_insert r kid nonce ts now w))) \<le> Suc (length (entries r))"
proof -
  have "length (amap_insert k v (amap_remove o' (amap_retain p m))) \<le> Suc (length m)"
    and "length (amap_insert k v (amap_retain p m)) \<le> Suc (length m)"
    and "length (amap_retain p m) \<le> Suc (length m)"
    for k o' :: bytes and v :: u64 and m p
    using length_amap_insert_le [of k v "amap_remove o' (amap_retain p m)"]
      length_amap_insert_le [of k v "amap_retain p m"]
      length_amap_remove_le [of o' "amap_retain p m"] length_amap_retain_le [of p m]
    by linarith+
  then show ?thesis
    by (simp add: check_and_insert_def Let_def length_amap_insert_le le_trans [OF length_amap_insert_le]
        split: option.splits)
qed

text \<open>
  An entry younger than the cut-off survives a call that does not evict; while it is there, its
  key is rejected.
\<close>

lemma check_and_insert_keeps:
  assumes "(k, t) \<in> set (entries r)" "replay_cutoff now w \<le> t" "length (entries r) < max_entries r"
  shows "(k, t) \<in> set (entries (snd (check_and_insert r kid nonce ts now w)))"
proof -
  let ?kept = "amap_retain (\<lambda>_ seen_at. replay_cutoff now w \<le> seen_at) (entries r)"
  have kept: "(k, t) \<in> set ?kept" using assms(1,2) by (simp add: amap_retain_def)
  have few: "length ?kept < max_entries r"
    using assms(3) length_amap_retain_le le_less_trans by blast
  show ?thesis
  proof (cases "amap_contains (kid @ nonce) ?kept")
    case True
    with kept show ?thesis by (simp add: check_and_insert_def Let_def)
  next
    case False
    with kept have "k \<noteq> kid @ nonce" by (force simp: amap_contains_def)
    with kept few False show ?thesis
      by (simp add: check_and_insert_def Let_def amap_insert_def amap_remove_def)
  qed
qed

lemma check_and_insert_rejects:
  assumes "(kid @ nonce, t) \<in> set (entries r)" "replay_cutoff now w \<le> t"
  shows "fst (check_and_insert r kid nonce ts now w) =
    Inl (permission_denied ''session authentication replayed'')"
  using assms by (auto simp: check_and_insert_def Let_def amap_contains_retain)

lemma check_and_insert_records:
  "fst (check_and_insert r kid nonce ts now w) = Inr u \<Longrightarrow>
     (kid @ nonce, ts) \<in> set (entries (snd (check_and_insert r kid nonce ts now w)))"
  by (auto simp: check_and_insert_def Let_def amap_insert_def split: if_splits)

lemma check_and_insert_fresh:
  assumes "\<not> amap_contains (kid @ nonce) (entries r)"
  shows "fst (check_and_insert r kid nonce ts now w) = Inr ()"
  using assms by (force simp: check_and_insert_def Let_def amap_contains_def amap_retain_def)

lemma replay_cutoff_mono: "now \<le> now' \<Longrightarrow> replay_cutoff now w \<le> replay_cutoff now' w"
  by (simp add: replay_cutoff_def word_le_nat_alt unat_saturating_sub)

lemma replay_cutoff_window:
  assumes "unat (abs_diff now ts) \<le> unat w"
  shows "replay_cutoff now w \<le> ts"
proof -
  have "unat w \<le> unat (saturating_mul w 2)"
    using unat_bound [of w] by (simp add: unat_saturating_mul)
  with assms show ?thesis
    by (auto simp: replay_cutoff_def word_le_nat_alt unat_saturating_sub unat_abs_diff split: if_splits)
qed

subsection \<open>Authorization tokens\<close>

definition auth_header :: "crypto \<Rightarrow> young_key \<Rightarrow> u32 \<Rightarrow> u64 \<Rightarrow> bytes \<Rightarrow> bytes" where
  "auth_header c key capabilities timestamp nonce =
     [VERSION] @ key_id c key @ u64_be timestamp @ nonce @ u32_be capabilities"

definition create_authorization_at ::
  "crypto \<Rightarrow> young_key \<Rightarrow> string \<Rightarrow> string \<Rightarrow> u32 \<Rightarrow> u64 \<Rightarrow> bytes \<Rightarrow> string" where
  "create_authorization_at c key authority path capabilities timestamp nonce =
    (let token = auth_header c key capabilities timestamp nonce;
         tag = hmac_tag c (key_bytes key)
                 [as_bytes ''young/session/v1'', as_bytes authority, as_bytes path, token]
     in b64_encode c (token @ tag))"

definition verify_authorization ::
  "crypto \<Rightarrow> string \<Rightarrow> string \<Rightarrow> string \<Rightarrow> key_ring \<Rightarrow> replay_cache \<Rightarrow> u64 \<Rightarrow> u64 \<Rightarrow>
     (io_error + young_key \<times> bytes \<times> u32) \<times> replay_cache" where
  "verify_authorization c encoded authority path keys replay now clock_skew_secs =
    (case b64_decode c encoded of
       None \<Rightarrow> (Inl (permission_denied ''authorization encoding''), replay)
     | Some token \<Rightarrow>
        if length token \<noteq> AUTH_TOKEN_BYTES \<or> token ! 0 \<noteq> VERSION
        then (Inl (permission_denied ''authorization version or length''), replay)
        else
          (let kid = slice 1 9 token;
               timestamp = u64_from_be (slice 9 17 token);
               nonce = slice 17 33 token;
               capabilities = u32_from_be (slice 33 37 token)
           in if clock_skew_secs < abs_diff now timestamp
              then (Inl (permission_denied ''authorization outside the time window''), replay)
              else
                (case key_ring_find c keys kid of
                   None \<Rightarrow> (Inl (permission_denied ''key id not authorized''), replay)
                 | Some key \<Rightarrow>
                    (case verify_hmac c (key_bytes key)
                            [as_bytes ''young/session/v1'', as_bytes authority, as_bytes path,
                             take 37 token] (drop 37 token) of
                       Inl e \<Rightarrow> (Inl e, replay)
                     | Inr _ \<Rightarrow>
                        (case check_and_insert replay kid nonce timestamp now clock_skew_secs of
                           (Inl e, replay') \<Rightarrow> (Inl e, replay')
                         | (Inr _, replay') \<Rightarrow> (Inr (key, nonce, capabilities), replay'))))))"

definition server_accept_proof :: "crypto \<Rightarrow> young_key \<Rightarrow> bytes \<Rightarrow> string" where
  "server_accept_proof c key client_nonce =
     b64_encode c (hmac_tag c (key_bytes key) [as_bytes ''young/server-accept/v1'', client_nonce])"

definition verify_server_accept_proof ::
  "crypto \<Rightarrow> young_key \<Rightarrow> bytes \<Rightarrow> string \<Rightarrow> io_error + unit" where
  "verify_server_accept_proof c key client_nonce encoded =
     (case b64_decode c encoded of
        None \<Rightarrow> Inl (permission_denied ''server proof encoding'')
      | Some proof_bytes \<Rightarrow>
          verify_hmac c (key_bytes key) [as_bytes ''young/server-accept/v1'', client_nonce] proof_bytes)"

definition trim_end_slashes :: "string \<Rightarrow> string" where
  "trim_end_slashes s = rev (dropWhile (\<lambda>ch. ch = CHR ''/'') (rev s))"

definition derive_rotating_path :: "crypto \<Rightarrow> young_key \<Rightarrow> string \<Rightarrow> u64 \<Rightarrow> string" where
  "derive_rotating_path c key base_path unix_seconds =
    (let day = unix_seconds div 86400;
         suffix = hmac_tag c (key_bytes key) [as_bytes ''young/path/v1'', u64_be day];
         token = b64_encode c (take 9 suffix);
         base = (case base_path of
                   CHR ''/'' # _ \<Rightarrow> trim_end_slashes base_path
                 | _ \<Rightarrow> ''/'' @ trim_end_slashes base_path)
     in base @ ''/'' @ token)"

definition derive_session_key :: "crypto \<Rightarrow> young_key \<Rightarrow> bytes \<Rightarrow> bytes \<Rightarrow> bytes" where
  "derive_session_key c key exporter client_nonce =
     hmac_tag c (key_bytes key) [as_bytes ''young/exporter/v1'', exporter, client_nonce]"

lemma length_auth_header [simp]:
  "crypto_ok c \<Longrightarrow> length nonce = 16 \<Longrightarrow> length (auth_header c key caps ts nonce) = 37"
  by (simp add: auth_header_def)

text \<open>The fields of a well-formed token sit where the verifier reads them.\<close>

lemma auth_token_fields:
  assumes "crypto_ok c" "length nonce = 16" "length tag = 32"
    and token_def: "token = auth_header c key caps ts nonce @ tag"
  shows "length token = AUTH_TOKEN_BYTES" "token ! 0 = VERSION" "slice 1 9 token = key_id c key"
    "u64_from_be (slice 9 17 token) = ts" "slice 17 33 token = nonce"
    "u32_from_be (slice 33 37 token) = caps"
    "take 37 token = auth_header c key caps ts nonce" "drop 37 token = tag"
proof -
  have t: "token = [VERSION] @ key_id c key @ u64_be ts @ nonce @ u32_be caps @ tag"
    by (simp add: token_def auth_header_def)
  show "token ! 0 = VERSION" by (simp add: t)
  show "length token = AUTH_TOKEN_BYTES" "slice 1 9 token = key_id c key"
    "u64_from_be (slice 9 17 token) = ts" "slice 17 33 token = nonce"
    "u32_from_be (slice 33 37 token) = caps"
    using assms(1-3) unfolding t
    by (simp_all add: AUTH_TOKEN_BYTES_def slice_simps del: append.simps)
  show "take 37 token = auth_header c key caps ts nonce" "drop 37 token = tag"
    using assms(1,2) by (simp_all add: token_def)
qed

subsection \<open>What an accepted token proves\<close>

definition auth_token :: "crypto \<Rightarrow> young_key \<Rightarrow> string \<Rightarrow> string \<Rightarrow> u32 \<Rightarrow> u64 \<Rightarrow> bytes \<Rightarrow> bytes" where
  "auth_token c key authority path caps ts nonce =
    (let token = auth_header c key caps ts nonce
     in token @ hmac_tag c (key_bytes key)
          [as_bytes ''young/session/v1'', as_bytes authority, as_bytes path, token])"

lemma create_authorization_at_eq:
  "create_authorization_at c key authority path caps ts nonce =
     b64_encode c (auth_token c key authority path caps ts nonce)"
  by (simp add: create_authorization_at_def auth_token_def Let_def)

text \<open>A token is determined by its fields: the header of a verified token is \<open>auth_header\<close>.\<close>

lemma auth_header_of_fields:
  assumes "length token = AUTH_TOKEN_BYTES" "token ! 0 = VERSION" "key_id c key = slice 1 9 token"
  shows "take 37 token =
    auth_header c key (u32_from_be (slice 33 37 token)) (u64_from_be (slice 9 17 token)) (slice 17 33 token)"
proof -
  have len: "length token = 69" using assms(1) by (simp add: AUTH_TOKEN_BYTES_def)
  have "take 37 token = take 1 token @ slice 1 9 token @ slice 9 17 token @ slice 17 33 token @ slice 33 37 token"
    using take_slice_split [of 33 37 token] take_slice_split [of 17 33 token]
      take_slice_split [of 9 17 token] take_slice_split [of 1 9 token] by simp
  moreover have "take 1 token = [VERSION]" using assms(2) len by (cases token) auto
  ultimately show ?thesis
    using len assms(3) by (simp add: auth_header_def u64_be_from_be u32_be_from_be)
qed

lemma verify_authorization_Inr:
  assumes "verify_authorization c encoded authority path ring r now w = (Inr (key, nonce, caps), r')"
  obtains ts where
    "b64_decode c encoded = Some (auth_token c key authority path caps ts nonce)"
    "length nonce = 16" "key \<in> set (ring_keys ring)" "abs_diff now ts \<le> w"
    "check_and_insert r (key_id c key) nonce ts now w = (Inr (), r')"
proof -
  from assms obtain token where dec: "b64_decode c encoded = Some token"
    by (auto simp: verify_authorization_def split: option.splits)
  let ?ts = "u64_from_be (slice 9 17 token)"
  have len: "length token = AUTH_TOKEN_BYTES" and ver: "token ! 0 = VERSION"
    and win: "abs_diff now ?ts \<le> w"
    and find: "key_ring_find c ring (slice 1 9 token) = Some key"
    and tag: "verify_hmac c (key_bytes key)
            [as_bytes ''young/session/v1'', as_bytes authority, as_bytes path, take 37 token]
            (drop 37 token) = Inr ()"
    and ins: "check_and_insert r (slice 1 9 token) nonce ?ts now w = (Inr (), r')"
    and flds: "nonce = slice 17 33 token" "caps = u32_from_be (slice 33 37 token)"
    using assms by (auto simp: verify_authorization_def dec Let_def
        split: option.splits sum.splits prod.splits if_splits)
  have kid: "key_id c key = slice 1 9 token" and mem: "key \<in> set (ring_keys ring)"
    using key_ring_find_Some [OF find] by auto
  have hd: "take 37 token = auth_header c key caps ?ts nonce"
    using auth_header_of_fields [OF len ver kid] flds by simp
  have "token = take 37 token @ drop 37 token" by simp
  then have "token = auth_token c key authority path caps ?ts nonce"
    using tag by (simp add: hd auth_token_def Let_def verify_hmac_Inr)
  moreover have "length nonce = 16" using len flds by (simp add: AUTH_TOKEN_BYTES_def)
  ultimately show thesis using that [of ?ts] dec kid mem win ins by simp
qed

lemma verify_authorization_own:
  assumes "crypto_ok c" "key_ring_find c ring (key_id c key) = Some key" "length nonce = 16"
    "abs_diff now ts \<le> w"
  shows "verify_authorization c (create_authorization_at c key authority path caps ts nonce)
      authority path ring r now w =
    (case check_and_insert r (key_id c key) nonce ts now w of
       (Inl e, r') \<Rightarrow> (Inl e, r')
     | (Inr _, r') \<Rightarrow> (Inr (key, nonce, caps), r'))"
proof -
  let ?tag = "hmac_tag c (key_bytes key) [as_bytes ''young/session/v1'', as_bytes authority,
     as_bytes path, auth_header c key caps ts nonce]"
  note f = auth_token_fields [OF assms(1,3) _ refl, of ?tag key caps ts]
  have "\<not> w < abs_diff now ts" using assms(4) by (simp add: not_less)
  then show ?thesis
    using assms f
    by (simp add: verify_authorization_def create_authorization_at_eq auth_token_def Let_def
        split: prod.splits sum.splits)
qed

lemma verify_authorization_fresh:
  assumes "crypto_ok c" "key_ring_new c ks = Inr ring" "key \<in> set ks" "length nonce = 16"
    "abs_diff now ts \<le> w" "\<not> amap_contains (key_id c key @ nonce) (entries r)"
  shows "fst (verify_authorization c (create_authorization_at c key authority path caps ts nonce)
    authority path ring r now w) = Inr (key, nonce, caps)"
  using check_and_insert_fresh [OF assms(6), of ts now w] assms
  by (auto simp: verify_authorization_own key_ring_find_new split: prod.splits)

subsection \<open>Sequences of authorization requests\<close>

record auth_request =
  req_encoded :: string
  req_authority :: string
  req_path :: string
  req_now :: u64

definition handle_auth ::
  "crypto \<Rightarrow> key_ring \<Rightarrow> u64 \<Rightarrow> replay_cache \<Rightarrow> auth_request \<Rightarrow>
     (io_error + young_key \<times> bytes \<times> u32) \<times> replay_cache" where
  "handle_auth c ring w r q =
     verify_authorization c (req_encoded q) (req_authority q) (req_path q) ring r (req_now q) w"

fun run_auth ::
  "crypto \<Rightarrow> key_ring \<Rightarrow> u64 \<Rightarrow> replay_cache \<Rightarrow> auth_request list \<Rightarrow>
     (io_error + young_key \<times> bytes \<times> u32) list \<times> replay_cache" where
  "run_auth c ring w r [] = ([], r)"
| "run_auth c ring w r (q # qs) =
     (let (res, r') = handle_auth c ring w r q; (ress, r'') = run_auth c ring w r' qs
      in (res # ress, r''))"

lemma run_auth_append:
  "run_auth c ring w r (xs @ ys) =
     (fst (run_auth c ring w r xs) @ fst (run_auth c ring w (snd (run_auth c ring w r xs)) ys),
      snd (run_auth c ring w (snd (run_auth c ring w r xs)) ys))"
  by (induction xs arbitrary: r) (auto simp: Let_def split: prod.splits)

lemma length_run_auth [simp]: "length (fst (run_auth c ring w r qs)) = length qs"
  by (induction qs arbitrary: r) (simp_all add: Let_def case_prod_beta)

lemma run_auth_nth:
  assumes "i < length qs"
  shows "fst (run_auth c ring w r qs) ! i =
    fst (handle_auth c ring w (snd (run_auth c ring w r (take i qs))) (qs ! i))"
proof -
  have "qs = take i qs @ qs ! i # drop (Suc i) qs" using assms by (rule id_take_nth_drop)
  then have "fst (run_auth c ring w r qs) = fst (run_auth c ring w r (take i qs)) @
      fst (handle_auth c ring w (snd (run_auth c ring w r (take i qs))) (qs ! i)) #
      fst (run_auth c ring w (snd (handle_auth c ring w (snd (run_auth c ring w r (take i qs))) (qs ! i)))
        (drop (Suc i) qs))"
    by (metis (no_types, lifting) fst_conv run_auth.simps(2) run_auth_append case_prod_beta)
  then show ?thesis using assms by (simp add: nth_append)
qed

text \<open>The cache after a request is the old one or the one \<open>check_and_insert\<close> leaves.\<close>

lemma handle_auth_cache:
  "snd (handle_auth c ring w r q) = r \<or>
     (\<exists>kid nonce ts. snd (handle_auth c ring w r q) =
        snd (check_and_insert r kid nonce ts (req_now q) w))"
  unfolding handle_auth_def verify_authorization_def Let_def
  by (auto split: option.splits sum.splits prod.splits) (metis snd_conv)+

lemma max_entries_handle_auth [simp]: "max_entries (snd (handle_auth c ring w r q)) = max_entries r"
  using handle_auth_cache [of c ring w r q] by auto

lemma replay_len_handle_auth: "replay_len (snd (handle_auth c ring w r q)) \<le> Suc (replay_len r)"
  using handle_auth_cache [of c ring w r q] check_and_insert_length
  unfolding replay_len_def by (metis le_SucI order_refl)

lemma handle_auth_wf: "replay_wf r \<Longrightarrow> replay_wf (snd (handle_auth c ring w r q))"
  using handle_auth_cache [of c ring w r q] check_and_insert_wf by metis

lemma handle_auth_keeps:
  assumes "(k, t) \<in> set (entries r)" "replay_cutoff (req_now q) w \<le> t" "replay_len r < max_entries r"
  shows "(k, t) \<in> set (entries (snd (handle_auth c ring w r q)))"
  using handle_auth_cache [of c ring w r q] assms check_and_insert_keeps [of k t r "req_now q" w]
  unfolding replay_len_def by metis

lemma run_auth_Cons [simp]:
  "snd (run_auth c ring w r (q # qs)) = snd (run_auth c ring w (snd (handle_auth c ring w r q)) qs)"
  by (simp add: Let_def split: prod.splits)

declare run_auth.simps(2) [simp del]

lemma max_entries_run_auth [simp]: "max_entries (snd (run_auth c ring w r qs)) = max_entries r"
  by (induction qs arbitrary: r) simp_all

lemma replay_len_run_auth: "replay_len (snd (run_auth c ring w r qs)) \<le> replay_len r + length qs"
proof (induction qs arbitrary: r)
  case (Cons q qs)
  show ?case
    using Cons [of "snd (handle_auth c ring w r q)"] replay_len_handle_auth [of c ring w r q] by simp
qed simp

lemma run_auth_wf: "replay_wf r \<Longrightarrow> replay_wf (snd (run_auth c ring w r qs))"
  by (induction qs arbitrary: r) (auto intro: handle_auth_wf)

lemma run_auth_keeps:
  assumes "(k, t) \<in> set (entries r)" "\<forall>q \<in> set qs. replay_cutoff (req_now q) w \<le> t"
    "replay_len r + length qs \<le> max_entries r"
  shows "(k, t) \<in> set (entries (snd (run_auth c ring w r qs)))"
  using assms
proof (induction qs arbitrary: r)
  case (Cons q qs)
  have "(k, t) \<in> set (entries (snd (handle_auth c ring w r q)))"
    using Cons.prems by (intro handle_auth_keeps) auto
  then show ?case
    using Cons replay_len_handle_auth [of c ring w r q] by simp
qed simp

lemma handle_auth_accepts:
  assumes "fst (handle_auth c ring w r q) = Inr a"
  obtains key nonce caps ts where
    "b64_decode c (req_encoded q) = Some (auth_token c key (req_authority q) (req_path q) caps ts nonce)"
    "length nonce = 16" "abs_diff (req_now q) ts \<le> w"
    "fst (check_and_insert r (key_id c key) nonce ts (req_now q) w) = Inr ()"
    "(key_id c key @ nonce, ts) \<in> set (entries (snd (handle_auth c ring w r q)))"
proof -
  obtain key nonce caps r' where h: "handle_auth c ring w r q = (Inr (key, nonce, caps), r')"
    using assms by (cases "handle_auth c ring w r q"; cases a) auto
  from verify_authorization_Inr [OF h [unfolded handle_auth_def]] obtain ts where
    t: "b64_decode c (req_encoded q) = Some (auth_token c key (req_authority q) (req_path q) caps ts nonce)"
      "length nonce = 16" "abs_diff (req_now q) ts \<le> w"
      "check_and_insert r (key_id c key) nonce ts (req_now q) w = (Inr (), r')"
    by metis
  show thesis
    using that [OF t(1-3)] t(4) check_and_insert_records [of r "key_id c key" nonce ts "req_now q" w "()"] h
    by simp
qed

lemma auth_token_inj:
  assumes "auth_token c k1 a1 p1 c1 t1 n1 = auth_token c k2 a2 p2 c2 t2 n2"
    "length n1 = 16" "length n2 = 16" "crypto_ok c"
  shows "key_id c k1 = key_id c k2" "t1 = t2" "n1 = n2" "c1 = c2"
proof -
  define g :: bytes where "g = replicate 32 0"
  have "auth_header c k1 c1 t1 n1 @ g = auth_header c k2 c2 t2 n2 @ g" "length g = 32"
    using assms by (simp_all add: auth_token_def Let_def g_def)
  note f = auth_token_fields [OF assms(4,2) this(2) this(1) [symmetric]]
    auth_token_fields [OF assms(4,3) this(2) refl]
  show "key_id c k1 = key_id c k2" "t1 = t2" "n1 = n2" "c1 = c2" using f by auto
qed

lemma accepted_token_refused:
  assumes "crypto_ok c" and len: "replay_len r + length qs \<le> max_entries r"
    and mem: "(key_id c k1 @ n1, t1) \<in> set (entries r)"
    and dec: "b64_decode c (req_encoded q) = Some (auth_token c k1 a1 p1 c1 t1 n1)" "length n1 = 16"
    and ordered: "\<forall>m \<in> set qs. req_now m \<le> req_now q"
  shows "fst (handle_auth c ring w (snd (run_auth c ring w r qs)) q) \<noteq> Inr b"
proof
  define rj where "rj = snd (run_auth c ring w r qs)"
  assume "fst (handle_auth c ring w (snd (run_auth c ring w r qs)) q) = Inr b"
  then have "fst (handle_auth c ring w rj q) = Inr b" by (simp add: rj_def)
  then obtain k2 n2 c2 t2 where
    d2: "b64_decode c (req_encoded q) = Some (auth_token c k2 (req_authority q) (req_path q) c2 t2 n2)"
      "length n2 = 16"
    and win: "abs_diff (req_now q) t2 \<le> w"
    and ins: "fst (check_and_insert rj (key_id c k2) n2 t2 (req_now q) w) = Inr ()"
    by (rule handle_auth_accepts)
  have "auth_token c k1 a1 p1 c1 t1 n1 = auth_token c k2 (req_authority q) (req_path q) c2 t2 n2"
    using d2(1) dec(1) by simp
  note eq = auth_token_inj [OF this dec(2) d2(2) assms(1)]
  have cut: "replay_cutoff (req_now q) w \<le> t1"
    using win eq by (intro replay_cutoff_window) (simp add: word_le_nat_alt)
  then have "\<forall>m \<in> set qs. replay_cutoff (req_now m) w \<le> t1"
    using ordered replay_cutoff_mono order_trans by blast
  with mem len have "(key_id c k1 @ n1, t1) \<in> set (entries rj)"
    unfolding rj_def by (intro run_auth_keeps)
  then show False
    using check_and_insert_rejects [of "key_id c k2" n2 t1 rj "req_now q" w t2] cut eq ins by simp
qed


definition sample_key :: young_key where
  "sample_key = YoungKey (replicate 32 7)"

definition sample_ring :: key_ring where
  "sample_ring = \<lparr>ring_keys = [sample_key]\<rparr>"

definition sample_request :: "u64 \<Rightarrow> auth_request" where
  "sample_request now = \<lparr>req_encoded = create_authorization_at sample_crypto sample_key ''a.example''
     ''/young'' 3 1000 (replicate 16 9), req_authority = ''a.example'', req_path = ''/young'', req_now = now\<rparr>"

lemma sample_ring_new: "key_ring_new sample_crypto [sample_key] = Inr sample_ring"
  by (simp add: key_ring_new_def sample_ring_def)

lemma sample_request_accepted:
  "fst (run_auth sample_crypto sample_ring 60 (with_capacity 4)
     [sample_request 1001, sample_request 1005]) ! 0 = Inr (sample_key, replicate 16 9, 3)"
  by (simp add: run_auth_nth handle_auth_def sample_request_def with_capacity_def amap_contains_def abs_diff_def
      verify_authorization_fresh [OF sample_crypto_ok sample_ring_new])


text \<open>
  C5: A token a client creates for a key of the ring is accepted by the server for the same
  authority and path, and yields the client's key, nonce and capabilities, when the clocks differ
  by at most the allowed skew and the pair of key id and nonce is not in the cache.
\<close>

theorem authorization_roundtrip:
  assumes "crypto_ok c" "key_ring_new c ks = Inr ring" "key \<in> set ks" "length nonce = 16"
    "abs_diff now ts \<le> w" "\<not> amap_contains (key_id c key @ nonce) (entries r)"
  shows "fst (verify_authorization c (create_authorization_at c key authority path caps ts nonce)
    authority path ring r now w) = Inr (key, nonce, caps)"
  using assms by (rule verify_authorization_fresh)

theorem authorization_roundtrip_witness:
  "fst (verify_authorization sample_crypto
     (create_authorization_at sample_crypto sample_key ''a.example'' ''/young'' 3 1000 (replicate 16 9))
     ''a.example'' ''/young'' sample_ring replay_default 1030 60) = Inr (sample_key, replicate 16 9, 3)"
  by (rule authorization_roundtrip [OF sample_crypto_ok sample_ring_new])
    (simp_all add: replay_default_def amap_contains_def abs_diff_def)

text \<open>
  C6: The server accepts only authentic tokens: what it accepts is the base64 spelling of the token
  that a holder of a key of the ring computes for exactly this authority and path, with a timestamp
  inside the window, and whose key id and nonce were not in the cache with a timestamp inside twice
  the window; the pair is in the cache afterwards.
\<close>

theorem authorization_authentic:
  assumes "fst (verify_authorization c encoded authority path ring r now w) = Inr (key, nonce, caps)"
  shows "\<exists>ts. b64_decode c encoded = Some (auth_token c key authority path caps ts nonce) \<and>
    key \<in> set (ring_keys ring) \<and> length nonce = 16 \<and> abs_diff now ts \<le> w \<and>
    (\<forall>t. (key_id c key @ nonce, t) \<in> set (entries r) \<longrightarrow> t < replay_cutoff now w) \<and>
    (key_id c key @ nonce, ts) \<in>
      set (entries (snd (verify_authorization c encoded authority path ring r now w)))"
proof -
  obtain r' where v: "verify_authorization c encoded authority path ring r now w = (Inr (key, nonce, caps), r')"
    using assms by (cases "verify_authorization c encoded authority path ring r now w") auto
  then obtain ts where t: "b64_decode c encoded = Some (auth_token c key authority path caps ts nonce)"
    "length nonce = 16" "key \<in> set (ring_keys ring)" "abs_diff now ts \<le> w"
    "check_and_insert r (key_id c key) nonce ts now w = (Inr (), r')"
    by (rule verify_authorization_Inr)
  have "t < replay_cutoff now w" if "(key_id c key @ nonce, t) \<in> set (entries r)" for t
    using check_and_insert_rejects [OF that, of now w ts] t(5) by (force simp: not_le [symmetric])
  then show ?thesis
    using t v check_and_insert_records [of r "key_id c key" nonce ts now w "()"] by auto
qed

lemma sample_request_verified:
  "fst (verify_authorization sample_crypto (req_encoded (sample_request 1000))
     ''a.example'' ''/young'' sample_ring replay_default 1030 60) = Inr (sample_key, replicate 16 9, 3)"
  by (simp add: sample_request_def replay_default_def amap_contains_def abs_diff_def
      verify_authorization_fresh [OF sample_crypto_ok sample_ring_new])

theorem authorization_authentic_witness:
  "\<exists>ts. b64_decode sample_crypto (req_encoded (sample_request 1000)) =
      Some (auth_token sample_crypto sample_key ''a.example'' ''/young'' 3 ts (replicate 16 9)) \<and>
    abs_diff 1030 ts \<le> 60"
  using authorization_authentic [OF sample_request_verified] by blast

text \<open>
  Whatever requests arrive, the replay cache stays a map with at most \<open>max_entries\<close> entries.
\<close>

theorem replay_cache_bounded:
  "replay_wf (snd (run_auth c ring w (with_capacity n) qs)) \<and>
     replay_len (snd (run_auth c ring w (with_capacity n) qs)) \<le> max n 1"
proof -
  let ?r = "snd (run_auth c ring w (with_capacity n) qs)"
  have "replay_wf ?r" by (intro run_auth_wf) (simp add: with_capacity_def replay_wf_def)
  moreover have "max_entries ?r = max n 1" by (simp add: with_capacity_def)
  ultimately show ?thesis by (simp add: replay_wf_def replay_len_def)
qed

text \<open>
  The client accepts the server's proof exactly when it is the tag of the shared key over the
  nonce this client sent; in particular it accepts the proof the server computes.
\<close>

theorem server_proof_correct:
  assumes "crypto_ok c"
  shows "verify_server_accept_proof c key nonce (server_accept_proof c key nonce) = Inr () \<and>
    (verify_server_accept_proof c key nonce e = Inr () \<longleftrightarrow>
      b64_decode c e = Some (hmac_tag c (key_bytes key) [as_bytes ''young/server-accept/v1'', nonce]))"
  using assms
  by (auto simp: verify_server_accept_proof_def server_accept_proof_def verify_hmac_Inr split: option.splits)

theorem server_proof_correct_witness:
  "verify_server_accept_proof sample_crypto sample_key (replicate 16 9)
     (server_accept_proof sample_crypto sample_key (replicate 16 9)) = Inr ()"
  using server_proof_correct [OF sample_crypto_ok] by blast

end
