(* ===== verification/Young_Padding.thy ===== *)
theory Young_Padding
  imports Young_Auth
begin

text \<open>
  Padding schemes of the Young protocol (\<open>core-young/src/codec.rs\<close>): per-session tables of padding
  lengths for the two directions, their validation, random generation, and the authenticated
  header in which the server sends them to the client (version 1 for old peers, version 2).

  The fields of \<open>PaddingScheme\<close> are private in the source and only \<open>new\<close> and \<open>bidirectional\<close> build
  one; \<open>scheme_wf\<close> is what they guarantee, and \<open>padding_for\<close> (which indexes modulo the table's
  length) is only used on such schemes.
\<close>

datatype padding_direction = ClientToServer | ServerToClient

fun tcp_padding_domain :: "padding_direction \<Rightarrow> bytes" where
  "tcp_padding_domain ClientToServer = as_bytes ''young/tcp-padding/c2s/v1''"
| "tcp_padding_domain ServerToClient = as_bytes ''young/tcp-padding/s2c/v1''"

fun udp_padding_domain :: "padding_direction \<Rightarrow> bytes" where
  "udp_padding_domain ClientToServer = as_bytes ''young/udp-padding/c2s/v1''"
| "udp_padding_domain ServerToClient = as_bytes ''young/udp-padding/s2c/v1''"

fun udp_hmac_domain :: "padding_direction \<Rightarrow> bytes" where
  "udp_hmac_domain ClientToServer = as_bytes ''young/udp-fragment/c2s/v2''"
| "udp_hmac_domain ServerToClient = as_bytes ''young/udp-fragment/s2c/v2''"

record padding_scheme =
  client_to_server :: "u16 list"
  server_to_client :: "u16 list option"

definition validate_padding_entries :: "u16 list \<Rightarrow> io_error + u16 list" where
  "validate_padding_entries es =
     (if es = [] \<or> MAX_PADDING_SCHEME_LENGTH < length es
      then Inl (invalid_input ''padding scheme length'')
      else if list_ex (\<lambda>l. l = 0 \<or> MAX_PADDING_BYTES < unat l) es
      then Inl (invalid_input ''padding length'')
      else Inr es)"

definition padding_scheme_new :: "u16 list \<Rightarrow> io_error + padding_scheme" where
  "padding_scheme_new es =
     and_then (validate_padding_entries es)
       (\<lambda>c2s. Inr \<lparr>client_to_server = c2s, server_to_client = None\<rparr>)"

definition bidirectional :: "u16 list \<Rightarrow> u16 list \<Rightarrow> io_error + padding_scheme" where
  "bidirectional c2s s2c =
     and_then (validate_padding_entries c2s) (\<lambda>c2s.
     and_then (validate_padding_entries s2c) (\<lambda>s2c.
       if length c2s \<noteq> length s2c then Inl (invalid_input ''padding scheme directions differ'')
       else Inr \<lparr>client_to_server = c2s, server_to_client = Some s2c\<rparr>))"

fun scheme_entries :: "padding_scheme \<Rightarrow> padding_direction \<Rightarrow> u16 list" where
  "scheme_entries s ClientToServer = client_to_server s"
| "scheme_entries s ServerToClient =
     (case server_to_client s of Some es \<Rightarrow> es | None \<Rightarrow> client_to_server s)"

definition padding_for :: "padding_scheme \<Rightarrow> padding_direction \<Rightarrow> u64 \<Rightarrow> u16" where
  "padding_for s dir frame_index =
     (let es = scheme_entries s dir in es ! (unat frame_index mod length es))"

definition scheme_len :: "padding_scheme \<Rightarrow> nat" where
  "scheme_len s = length (client_to_server s)"

definition is_bidirectional :: "padding_scheme \<Rightarrow> bool" where
  "is_bidirectional s = (server_to_client s \<noteq> None)"

text \<open>
  \<open>draw k\<close> is the \<open>k\<close>-th value \<open>rng.random_range(padding_min..=padding_max)\<close> returns; the two
  directions draw one after the other from the same generator.
\<close>

definition generate_padding_scheme ::
  "(nat \<Rightarrow> u16) \<Rightarrow> u16 \<Rightarrow> u16 \<Rightarrow> u16 \<Rightarrow> io_error + padding_scheme" where
  "generate_padding_scheme draw padding_min padding_max scheme_length =
     (if padding_min = 0 \<or> padding_max < padding_min \<or> MAX_PADDING_BYTES < unat padding_max
      then Inl (invalid_input ''padding range'')
      else if scheme_length = 0 \<or> MAX_PADDING_SCHEME_LENGTH < unat scheme_length
      then Inl (invalid_input ''padding scheme length'')
      else (let n = unat scheme_length;
                gen = (\<lambda>k. if padding_min = padding_max then padding_min else draw k)
            in bidirectional (map gen [0..<n]) (map gen [n..<2 * n])))"

definition encode_entries :: "u16 list \<Rightarrow> bytes" where
  "encode_entries es = concat (map u16_be es)"

definition encode_padding_scheme :: "crypto \<Rightarrow> young_key \<Rightarrow> bytes \<Rightarrow> padding_scheme \<Rightarrow> string" where
  "encode_padding_scheme c key client_nonce s =
    (let payload = [BIDIRECTIONAL_PADDING_SCHEME_VERSION] @ u16_be (of_nat (scheme_len s)) @
           encode_entries (scheme_entries s ClientToServer) @
           encode_entries (scheme_entries s ServerToClient);
         tag = hmac_tag c (key_bytes key) [as_bytes ''young/padding-scheme/v2'', client_nonce, payload]
     in b64_encode c (payload @ tag))"

definition encode_legacy_padding_scheme ::
  "crypto \<Rightarrow> young_key \<Rightarrow> bytes \<Rightarrow> padding_scheme \<Rightarrow> string" where
  "encode_legacy_padding_scheme c key client_nonce s =
    (let payload = [LEGACY_PADDING_SCHEME_VERSION] @ u16_be (of_nat (scheme_len s)) @
           encode_entries (scheme_entries s ClientToServer);
         tag = hmac_tag c (key_bytes key) [as_bytes ''young/padding-scheme/v1'', client_nonce, payload]
     in b64_encode c (payload @ tag))"

definition decode_entries :: "bytes \<Rightarrow> nat \<Rightarrow> nat \<Rightarrow> u16 list" where
  "decode_entries payload count start =
     map u16_from_be (chunks_exact 2 (slice start (start + count * 2) payload))"

definition decode_padding_scheme ::
  "crypto \<Rightarrow> young_key \<Rightarrow> bytes \<Rightarrow> string \<Rightarrow> io_error + padding_scheme" where
  "decode_padding_scheme c key client_nonce encoded =
    (if PADDING_SCHEME_MAX_ENCODED_BYTES < length encoded
     then Inl (permission_denied ''padding scheme encoding too long'')
     else case b64_decode c encoded of
       None \<Rightarrow> Inl (permission_denied ''padding scheme encoding'')
     | Some payload \<Rightarrow>
        if length payload < 1 + 2 + 2 + PADDING_SCHEME_TAG_BYTES
        then Inl (permission_denied ''padding scheme version or length'')
        else
          (let version = payload ! 0; count = unat (u16_from_be (slice 1 3 payload))
           in if count = 0 \<or> MAX_PADDING_SCHEME_LENGTH < count
              then Inl (permission_denied ''padding scheme count'')
              else if version \<noteq> LEGACY_PADDING_SCHEME_VERSION \<and>
                      version \<noteq> BIDIRECTIONAL_PADDING_SCHEME_VERSION
              then Inl (permission_denied ''padding scheme version'')
              else
                (let directions = (if version = LEGACY_PADDING_SCHEME_VERSION then 1 else 2);
                     authenticated_len = 1 + 2 + directions * count * 2
                 in if length payload \<noteq> authenticated_len + PADDING_SCHEME_TAG_BYTES
                    then Inl (permission_denied ''padding scheme length'')
                    else
                      (let domain = (if version = LEGACY_PADDING_SCHEME_VERSION
                                     then as_bytes ''young/padding-scheme/v1''
                                     else as_bytes ''young/padding-scheme/v2'')
                       in and_then
                            (verify_hmac c (key_bytes key)
                               [domain, client_nonce, take authenticated_len payload]
                               (drop authenticated_len payload))
                            (\<lambda>_. case (if version = LEGACY_PADDING_SCHEME_VERSION
                                      then padding_scheme_new (decode_entries payload count 3)
                                      else bidirectional (decode_entries payload count 3)
                                             (decode_entries payload count (3 + count * 2))) of
                                    Inr s \<Rightarrow> Inr s
                                  | Inl _ \<Rightarrow> Inl (permission_denied ''padding scheme entries''))))))"

subsection \<open>Well-formed schemes\<close>

definition entries_ok :: "u16 list \<Rightarrow> bool" where
  "entries_ok es \<longleftrightarrow> es \<noteq> [] \<and> length es \<le> MAX_PADDING_SCHEME_LENGTH \<and>
     (\<forall>l \<in> set es. 0 < l \<and> unat l \<le> MAX_PADDING_BYTES)"

definition scheme_wf :: "padding_scheme \<Rightarrow> bool" where
  "scheme_wf s \<longleftrightarrow> entries_ok (client_to_server s) \<and>
     (case server_to_client s of None \<Rightarrow> True
      | Some es \<Rightarrow> entries_ok es \<and> length es = scheme_len s)"

lemma validate_padding_entries_iff:
  "validate_padding_entries es = Inr es' \<longleftrightarrow> es' = es \<and> entries_ok es"
  by (auto simp: validate_padding_entries_def entries_ok_def list_ex_iff word_neq_0_conv not_le)

lemma padding_scheme_new_iff:
  "padding_scheme_new es = Inr s \<longleftrightarrow>
     scheme_wf s \<and> s = \<lparr>client_to_server = es, server_to_client = None\<rparr>"
  by (auto simp: padding_scheme_new_def and_then_Inr_iff validate_padding_entries_iff scheme_wf_def)

lemma bidirectional_iff:
  "bidirectional a b = Inr s \<longleftrightarrow>
     scheme_wf s \<and> s = \<lparr>client_to_server = a, server_to_client = Some b\<rparr>"
  by (auto simp: bidirectional_def and_then_Inr_iff validate_padding_entries_iff scheme_wf_def scheme_len_def)

lemma scheme_entries_ok: "scheme_wf s \<Longrightarrow> entries_ok (scheme_entries s dir)"
  by (cases dir) (auto simp: scheme_wf_def split: option.splits)

lemma length_scheme_entries: "scheme_wf s \<Longrightarrow> length (scheme_entries s dir) = scheme_len s"
  by (cases dir) (auto simp: scheme_wf_def scheme_len_def split: option.splits)

lemma padding_for_bounds:
  assumes "scheme_wf s"
  shows "0 < padding_for s dir i" "unat (padding_for s dir i) \<le> MAX_PADDING_BYTES"
proof -
  have "padding_for s dir i \<in> set (scheme_entries s dir)"
    using scheme_entries_ok [OF assms, of dir] by (auto simp: padding_for_def Let_def entries_ok_def)
  then show "0 < padding_for s dir i" "unat (padding_for s dir i) \<le> MAX_PADDING_BYTES"
    using scheme_entries_ok [OF assms, of dir] by (auto simp: entries_ok_def)
qed

lemma length_encode_entries [simp]: "length (encode_entries es) = 2 * length es"
  by (induction es) (auto simp: encode_entries_def)

lemma decode_encode_entries: "map u16_from_be (chunks_exact 2 (encode_entries es)) = es"
proof -
  have "chunks_exact 2 (encode_entries es) = map u16_be es"
    unfolding encode_entries_def by (rule chunks_exact_uniform) auto
  then show ?thesis by (simp add: map_idI)
qed

lemma encode_decode_entries:
  assumes "even (length bs)"
  shows "encode_entries (map u16_from_be (chunks_exact 2 bs)) = bs"
proof -
  have "map (u16_be \<circ> u16_from_be) (chunks_exact 2 bs) = chunks_exact 2 bs"
    by (rule map_idI) (auto simp: chunks_exact_def u16_be_from_be)
  then show ?thesis
    using chunks_exact_dvd(2) [of 2 bs] assms by (simp add: encode_entries_def)
qed

subsection \<open>The scheme header\<close>

text \<open>The authenticated part of a header and the domain of its tag, for a table per direction.\<close>

definition scheme_payload :: "byte \<Rightarrow> u16 list list \<Rightarrow> bytes" where
  "scheme_payload version tables =
     [version] @ u16_be (of_nat (length (hd tables))) @ concat (map encode_entries tables)"

definition scheme_domain :: "byte \<Rightarrow> bytes" where
  "scheme_domain version = (if version = LEGACY_PADDING_SCHEME_VERSION
     then as_bytes ''young/padding-scheme/v1'' else as_bytes ''young/padding-scheme/v2'')"

definition scheme_header :: "crypto \<Rightarrow> young_key \<Rightarrow> bytes \<Rightarrow> byte \<Rightarrow> u16 list list \<Rightarrow> bytes" where
  "scheme_header c key nonce version tables =
     (let payload = scheme_payload version tables
      in payload @ hmac_tag c (key_bytes key) [scheme_domain version, nonce, payload])"

definition scheme_tables :: "padding_scheme \<Rightarrow> u16 list list" where
  "scheme_tables s = client_to_server s # (case server_to_client s of None \<Rightarrow> [] | Some es \<Rightarrow> [es])"

definition scheme_version :: "padding_scheme \<Rightarrow> byte" where
  "scheme_version s = (case server_to_client s of None \<Rightarrow> LEGACY_PADDING_SCHEME_VERSION
     | Some _ \<Rightarrow> BIDIRECTIONAL_PADDING_SCHEME_VERSION)"

lemma encode_padding_scheme_eq:
  "is_bidirectional s \<Longrightarrow> encode_padding_scheme c key nonce s =
     b64_encode c (scheme_header c key nonce (scheme_version s) (scheme_tables s))"
  by (auto simp: encode_padding_scheme_def scheme_header_def scheme_payload_def scheme_domain_def
      is_bidirectional_def scheme_tables_def scheme_version_def scheme_len_def young_consts Let_def
      split: option.splits)

lemma encode_legacy_padding_scheme_eq:
  "encode_legacy_padding_scheme c key nonce s = b64_encode c (scheme_header c key nonce
     (scheme_version (s\<lparr>server_to_client := None\<rparr>)) (scheme_tables (s\<lparr>server_to_client := None\<rparr>)))"
  by (simp add: encode_legacy_padding_scheme_def scheme_header_def scheme_payload_def scheme_domain_def
      scheme_tables_def scheme_version_def scheme_len_def young_consts Let_def)

lemma length_scheme_payload:
  assumes "scheme_wf s"
  shows "length (scheme_payload (scheme_version s) (scheme_tables s)) =
    3 + length (scheme_tables s) * scheme_len s * 2"
  using assms
  by (auto simp: scheme_payload_def scheme_tables_def scheme_len_def scheme_wf_def split: option.splits)

lemma scheme_len_bounds: "scheme_wf s \<Longrightarrow> 0 < scheme_len s \<and> scheme_len s \<le> 256"
  by (auto simp: scheme_wf_def scheme_len_def entries_ok_def young_consts)

lemma unat_scheme_len: "scheme_wf s \<Longrightarrow> unat (of_nat (scheme_len s) :: u16) = scheme_len s"
  using scheme_len_bounds [of s] by (simp add: unat_of_nat)

lemma decode_scheme_fields:
  assumes "scheme_wf s" "version = scheme_version s" "tables = scheme_tables s"
    and p: "payload = scheme_payload version tables @ tag"
  shows "payload ! 0 = version" "unat (u16_from_be (slice 1 3 payload)) = scheme_len s"
    "decode_entries payload (scheme_len s) 3 = client_to_server s"
    "server_to_client s = Some es \<Longrightarrow>
       decode_entries payload (scheme_len s) (3 + scheme_len s * 2) = es"
proof -
  have p': "payload = [version] @ u16_be (of_nat (scheme_len s)) @ encode_entries (client_to_server s) @
      concat (map encode_entries (tl tables)) @ tag"
    using p assms(3) by (simp add: scheme_payload_def scheme_tables_def scheme_len_def)
  show "payload ! 0 = version" by (simp add: p')
  show "unat (u16_from_be (slice 1 3 payload)) = scheme_len s"
    using unat_scheme_len [OF assms(1)] unfolding p' by (simp add: slice_simps del: append.simps)
  show "decode_entries payload (scheme_len s) 3 = client_to_server s"
    unfolding p' by (simp add: decode_entries_def slice_simps decode_encode_entries scheme_len_def
        del: append.simps)
  show "decode_entries payload (scheme_len s) (3 + scheme_len s * 2) = es" if "server_to_client s = Some es"
  proof -
    have "length es = scheme_len s" using assms(1) that by (simp add: scheme_wf_def)
    then show ?thesis
      unfolding p' using assms(3) that
      by (simp add: decode_entries_def slice_simps decode_encode_entries scheme_len_def
          scheme_tables_def del: append.simps)
  qed
qed

lemma decode_scheme_header:
  assumes "crypto_ok c" "scheme_wf s"
  shows "decode_padding_scheme c key nonce
    (b64_encode c (scheme_header c key nonce (scheme_version s) (scheme_tables s))) = Inr s"
proof -
  let ?v = "scheme_version s" and ?ts = "scheme_tables s"
  let ?tag = "hmac_tag c (key_bytes key) [scheme_domain ?v, nonce, scheme_payload ?v ?ts]"
  define payload where "payload = scheme_payload ?v ?ts @ ?tag"
  note f = decode_scheme_fields [OF assms(2) refl refl payload_def]
  have dirs: "length ?ts = (if ?v = LEGACY_PADDING_SCHEME_VERSION then 1 else 2)"
    by (auto simp: scheme_tables_def scheme_version_def young_consts split: option.splits)
  have len: "length (scheme_payload ?v ?ts) = 3 + length ?ts * scheme_len s * 2"
    using assms(2) by (rule length_scheme_payload)
  have b: "0 < scheme_len s" "scheme_len s \<le> 256" "length ?ts \<le> 2" "1 \<le> length ?ts"
    using scheme_len_bounds [OF assms(2)] dirs by (auto simp: young_consts split: if_splits)
  have "length ?ts * scheme_len s \<le> 2 * 256" "1 * 1 \<le> length ?ts * scheme_len s"
    using mult_le_mono [OF b(3,2)] mult_le_mono [OF b(4), of 1 "scheme_len s"] b(1) by simp_all
  then have fits: "length (b64_encode c payload) \<le> PADDING_SCHEME_MAX_ENCODED_BYTES"
      "37 \<le> length payload"
    using assms(1) len by (simp_all add: payload_def young_consts)
  have s: "s = \<lparr>client_to_server = client_to_server s, server_to_client = server_to_client s\<rparr>" by simp
  have tag: "verify_hmac c (key_bytes key)
      [scheme_domain ?v, nonce, take (1 + 2 + length ?ts * scheme_len s * 2) payload]
      (drop (1 + 2 + length ?ts * scheme_len s * 2) payload) = Inr ()"
    using len by (simp add: payload_def)
  have build: "(if ?v = LEGACY_PADDING_SCHEME_VERSION
      then padding_scheme_new (decode_entries payload (scheme_len s) 3)
      else bidirectional (decode_entries payload (scheme_len s) 3)
             (decode_entries payload (scheme_len s) (3 + scheme_len s * 2))) = Inr s"
    using f(3,4) assms(2) by (cases "server_to_client s")
      (simp_all add: scheme_version_def padding_scheme_new_iff bidirectional_iff young_consts)
  have v: "?v = LEGACY_PADDING_SCHEME_VERSION \<or> ?v = BIDIRECTIONAL_PADDING_SCHEME_VERSION"
    by (simp add: scheme_version_def split: option.splits)
  have ne: "scheme_tables s \<noteq> []" by (simp add: scheme_tables_def)
  have n: "\<not> PADDING_SCHEME_MAX_ENCODED_BYTES < length (b64_encode c payload)"
      "\<not> length payload < 1 + 2 + 2 + PADDING_SCHEME_TAG_BYTES"
      "\<not> (scheme_len s = 0 \<or> MAX_PADDING_SCHEME_LENGTH < scheme_len s)"
      "length payload = 1 + 2 + length ?ts * scheme_len s * 2 + PADDING_SCHEME_TAG_BYTES"
    using fits b ne len assms(1) by (simp_all add: payload_def young_consts not_less)
  have "b64_decode c (b64_encode c payload) = Some payload" using assms(1) by simp
  then show ?thesis
    unfolding decode_padding_scheme_def scheme_header_def Let_def payload_def [symmetric]
    using n v tag build f(1,2) unfolding scheme_domain_def dirs
    by (cases "?v = LEGACY_PADDING_SCHEME_VERSION") simp_all
qed

lemma encode_entries_decode_entries:
  "start + count * 2 \<le> length payload \<Longrightarrow>
     encode_entries (decode_entries payload count start) = slice start (start + count * 2) payload"
  by (simp add: decode_entries_def encode_decode_entries)

lemma length_decode_entries:
  "start + count * 2 \<le> length payload \<Longrightarrow> length (decode_entries payload count start) = count"
  using chunks_exact_dvd(3) [of 2 "slice start (start + count * 2) payload"]
  by (simp add: decode_entries_def)

text \<open>What the decoder reads it would write again: the authenticated part is determined.\<close>

lemma scheme_payload_decoded:
  assumes "length payload = 1 + 2 + d * count * 2 + 32"
    and count: "count = unat (u16_from_be (slice 1 3 payload))"
    and tables: "d = 1 \<and> tables = [decode_entries payload count 3] \<or>
      d = 2 \<and> tables = [decode_entries payload count 3, decode_entries payload count (3 + count * 2)]"
  shows "scheme_payload (payload ! 0) tables = take (1 + 2 + d * count * 2) payload"
proof -
  have three: "1 + 2 + d * count * 2 = 3 + d * count * 2" by simp
  have len: "3 + count * 2 \<le> length payload" "d = 2 \<longrightarrow> 3 + count * 2 + count * 2 \<le> length payload"
    using assms(1) tables by auto
  have hd: "take 1 payload = [payload ! 0]" using len by (cases payload) auto
  have ct: "u16_be (of_nat count) = slice 1 3 payload"
    unfolding count using len by (simp add: u16_be_from_be)
  have split: "take (3 + k) payload = [payload ! 0] @ slice 1 3 payload @ slice 3 (3 + k) payload" for k
    using take_slice_split [of 3 "3 + k" payload] take_slice_split [of 1 3 payload] hd by simp
  have more: "take (3 + 2 * count * 2) payload =
      take (3 + count * 2) payload @ slice (3 + count * 2) (3 + count * 2 + count * 2) payload"
    using take_slice_split [of "3 + count * 2" "3 + count * 2 + count * 2" payload]
    by (simp add: algebra_simps)
  show ?thesis
    unfolding three using tables
  proof (elim disjE conjE)
    assume "d = 1" "tables = [decode_entries payload count 3]"
    then show "scheme_payload (payload ! 0) tables = take (3 + d * count * 2) payload"
      using len split [of "count * 2"]
      by (simp add: scheme_payload_def encode_entries_decode_entries length_decode_entries ct)
  next
    assume "d = 2" "tables = [decode_entries payload count 3, decode_entries payload count (3 + count * 2)]"
    then show "scheme_payload (payload ! 0) tables = take (3 + d * count * 2) payload"
      using len split [of "count * 2"] more
      by (simp add: scheme_payload_def encode_entries_decode_entries length_decode_entries ct)
  qed
qed

lemma decode_padding_scheme_Inr:
  assumes "decode_padding_scheme c key nonce encoded = Inr s"
  shows "scheme_wf s"
    "b64_decode c encoded = Some (scheme_header c key nonce (scheme_version s) (scheme_tables s))"
proof -
  obtain payload where dec: "b64_decode c encoded = Some payload"
    using assms by (auto simp: decode_padding_scheme_def split: if_splits option.splits)
  define count where "count = unat (u16_from_be (slice 1 3 payload))"
  define d :: nat where "d = (if payload ! 0 = LEGACY_PADDING_SCHEME_VERSION then 1 else 2)"
  have ver: "payload ! 0 = LEGACY_PADDING_SCHEME_VERSION \<or> payload ! 0 = BIDIRECTIONAL_PADDING_SCHEME_VERSION"
    and len: "length payload = 1 + 2 + d * count * 2 + 32"
    and tag: "verify_hmac c (key_bytes key) [scheme_domain (payload ! 0), nonce,
        take (1 + 2 + d * count * 2) payload] (drop (1 + 2 + d * count * 2) payload) = Inr ()"
    and s: "(if payload ! 0 = LEGACY_PADDING_SCHEME_VERSION
        then padding_scheme_new (decode_entries payload count 3)
        else bidirectional (decode_entries payload count 3)
               (decode_entries payload count (3 + count * 2))) = Inr s"
    using assms unfolding decode_padding_scheme_def dec Let_def count_def d_def scheme_domain_def
      PADDING_SCHEME_TAG_BYTES_def
    by (simp_all add: and_then_Inr_iff split: if_splits sum.splits)
  show "scheme_wf s" using s by (auto simp: padding_scheme_new_iff bidirectional_iff split: if_splits)
  have v: "scheme_version s = payload ! 0" and t: "d = 1 \<and> scheme_tables s = [decode_entries payload count 3] \<or>
      d = 2 \<and> scheme_tables s = [decode_entries payload count 3, decode_entries payload count (3 + count * 2)]"
    using s ver
    by (auto simp: padding_scheme_new_iff bidirectional_iff scheme_version_def scheme_tables_def d_def
        split: if_splits)
  have "scheme_payload (scheme_version s) (scheme_tables s) = take (1 + 2 + d * count * 2) payload"
    unfolding v using len count_def t by (rule scheme_payload_decoded)
  then have "payload = scheme_header c key nonce (scheme_version s) (scheme_tables s)"
    using tag by (simp add: scheme_header_def Let_def v verify_hmac_Inr) (metis append_take_drop_id)
  then show "b64_decode c encoded = Some (scheme_header c key nonce (scheme_version s) (scheme_tables s))"
    by (simp add: dec)
qed

text \<open>
  C7: The padding scheme the server puts into its response header is the one the client reads:
  decoding undoes the version 2 encoding of every valid bidirectional scheme, and the version 1
  encoding for old peers yields the client-to-server table alone.
\<close>

theorem padding_scheme_roundtrip:
  assumes "crypto_ok c" "scheme_wf s"
  shows "(is_bidirectional s \<longrightarrow>
      decode_padding_scheme c key nonce (encode_padding_scheme c key nonce s) = Inr s) \<and>
    decode_padding_scheme c key nonce (encode_legacy_padding_scheme c key nonce s) =
      Inr (s\<lparr>server_to_client := None\<rparr>)"
proof -
  have "scheme_wf (s\<lparr>server_to_client := None\<rparr>)"
    using assms(2) by (simp add: scheme_wf_def)
  then show ?thesis
    using assms
    by (simp add: encode_padding_scheme_eq encode_legacy_padding_scheme_eq decode_scheme_header)
qed

theorem padding_scheme_roundtrip_witness:
  "decode_padding_scheme sample_crypto sample_key (replicate 16 9)
     (encode_padding_scheme sample_crypto sample_key (replicate 16 9)
       \<lparr>client_to_server = [64, 512], server_to_client = Some [4096, 1]\<rparr>) =
     Inr \<lparr>client_to_server = [64, 512], server_to_client = Some [4096, 1]\<rparr>"
  using padding_scheme_roundtrip [OF sample_crypto_ok,
      of "\<lparr>client_to_server = [64, 512], server_to_client = Some [4096, 1]\<rparr>"]
  by (simp add: scheme_wf_def entries_ok_def scheme_len_def young_consts is_bidirectional_def)

text \<open>
  A padding scheme the client accepts is valid (so that no later lookup can divide by zero or
  leave a table) and was authenticated by a holder of the key for this client's nonce: the
  header is exactly the one that the encoders produce for the scheme.
\<close>

theorem padding_scheme_authentic:
  assumes "decode_padding_scheme c key nonce encoded = Inr s"
  shows "scheme_wf s \<and>
    b64_decode c encoded = Some (scheme_header c key nonce (scheme_version s) (scheme_tables s))"
  using decode_padding_scheme_Inr [OF assms] by simp

lemma sample_scheme_decoded:
  "decode_padding_scheme sample_crypto sample_key (replicate 16 9)
     (encode_legacy_padding_scheme sample_crypto sample_key (replicate 16 9)
       \<lparr>client_to_server = [64, 512], server_to_client = None\<rparr>) =
     Inr \<lparr>client_to_server = [64, 512], server_to_client = None\<rparr>"
  using decode_scheme_header [OF sample_crypto_ok, of "\<lparr>client_to_server = [64, 512], server_to_client = None\<rparr>"]
  by (simp add: encode_legacy_padding_scheme_eq scheme_wf_def entries_ok_def scheme_len_def young_consts)

theorem padding_scheme_authentic_witness:
  "scheme_wf \<lparr>client_to_server = [64, 512], server_to_client = None\<rparr>"
  using padding_scheme_authentic [OF sample_scheme_decoded] by simp

text \<open>
  With a generator that stays in the requested range, \<open>generate_padding_scheme\<close> accepts every
  valid request and yields a valid bidirectional scheme of the requested length, and the length
  it gives any frame in either direction lies between the configured bounds.
\<close>

theorem generate_padding_scheme_bounds:
  assumes "\<forall>k. lo \<le> draw k \<and> draw k \<le> hi" "0 < lo" "lo \<le> hi" "unat hi \<le> MAX_PADDING_BYTES"
    "0 < n" "unat n \<le> MAX_PADDING_SCHEME_LENGTH"
  shows "\<exists>s. generate_padding_scheme draw lo hi n = Inr s \<and> scheme_wf s \<and> is_bidirectional s \<and>
    scheme_len s = unat n \<and> (\<forall>dir i. lo \<le> padding_for s dir i \<and> padding_for s dir i \<le> hi)"
proof -
  define gen where "gen = (\<lambda>k. if lo = hi then lo else draw k)"
  define s where "s = \<lparr>client_to_server = map gen [0..<unat n],
    server_to_client = Some (map gen [unat n..<2 * unat n])\<rparr>"
  have range: "lo \<le> gen k \<and> gen k \<le> hi" for k using assms(1,3) by (simp add: gen_def)
  have ok: "0 < gen k \<and> unat (gen k) \<le> MAX_PADDING_BYTES" for k
    using range [of k] assms(2,4) by (metis le_trans less_le_trans word_le_nat_alt)
  have pos: "0 < unat n" using assms(5) by (simp add: unat_gt_0)
  have wf: "scheme_wf s"
    using ok pos assms(6) by (auto simp: s_def scheme_wf_def entries_ok_def scheme_len_def)
  have "generate_padding_scheme draw lo hi n = bidirectional (map gen [0..<unat n]) (map gen [unat n..<2 * unat n])"
    using assms by (auto simp: generate_padding_scheme_def Let_def gen_def not_less)
  then have "generate_padding_scheme draw lo hi n = Inr s"
    using wf bidirectional_iff [of _ _ s] by (simp add: s_def)
  moreover have "lo \<le> padding_for s dir i \<and> padding_for s dir i \<le> hi" for dir i
    using range pos by (cases dir) (auto simp: padding_for_def s_def Let_def)
  ultimately show ?thesis using wf by (simp add: s_def is_bidirectional_def scheme_len_def)
qed

theorem generate_padding_scheme_bounds_witness:
  "\<exists>s. generate_padding_scheme (\<lambda>k. if even k then 64 else 100) 64 512 3 = Inr s \<and> scheme_len s = 3"
proof -
  have "\<forall>k :: nat. (64 :: u16) \<le> (if even k then 64 else 100) \<and> (if even k then 64 else 100) \<le> (512 :: u16)"
    by simp
  from generate_padding_scheme_bounds [OF this, of 3] show ?thesis by (auto simp: young_consts)
qed

end
