(* ===== verification/Wire_Codec.thy ===== *)
theory Wire_Codec
  imports WC_Prelude
begin

text \<open>
  The interface between a frame codec and a reader that receives a byte stream in arbitrary
  pieces. A decoder looks at the bytes buffered so far and answers with an error, with
  \<open>Inr None\<close> (more bytes are needed), or with a message and the number of bytes it used.

  \<^item> \<open>wire_codec\<close> is the contract of a stateless codec: the decoder inverts the encoder up to
    \<open>canon\<close>, whatever follows the message, and asks for more on every strict prefix.
  \<^item> \<open>stream_codec\<close> is the same contract for a codec whose two ends advance a state (a sequence
    number, a padding cursor) with every message; a stateless codec is a stream codec.
  \<^item> \<open>drain\<close> and \<open>feed\<close> are the receive loop over one buffer and over a sequence of reads. In a
    \<open>stream_codec\<close> the messages that \<open>feed\<close> yields do not depend on how the stream was cut.
\<close>

fun drain :: "nat \<Rightarrow> ('s \<Rightarrow> bytes \<Rightarrow> 'e + ('n \<times> nat \<times> 's) option) \<Rightarrow> 's \<Rightarrow> bytes \<Rightarrow> 'e + 'n list \<times> 's \<times> bytes" where
  "drain 0 dec s buf = Inr ([], s, buf)"
| "drain (Suc f) dec s buf =
     (case dec s buf of
        Inl e \<Rightarrow> Inl e
      | Inr None \<Rightarrow> Inr ([], s, buf)
      | Inr (Some (x, k, s')) \<Rightarrow>
          and_then (drain f dec s' (drop k buf)) (\<lambda>(xs, s'', rest). Inr (x # xs, s'', rest)))"

fun feed :: "('s \<Rightarrow> bytes \<Rightarrow> 'e + ('n \<times> nat \<times> 's) option) \<Rightarrow> 's \<Rightarrow> bytes \<Rightarrow> bytes list \<Rightarrow> 'e + 'n list \<times> 's \<times> bytes" where
  "feed dec s buf [] = Inr ([], s, buf)"
| "feed dec s buf (c # cs) =
     and_then (drain (Suc (length (buf @ c))) dec s (buf @ c)) (\<lambda>(xs, s', rest).
     and_then (feed dec s' rest cs) (\<lambda>(ys, s'', rest'). Inr (xs @ ys, s'', rest')))"

fun fold_state :: "('s \<Rightarrow> 'm \<Rightarrow> 's) \<Rightarrow> 's \<Rightarrow> 'm list \<Rightarrow> 's" where
  "fold_state nxt s [] = s"
| "fold_state nxt s (m # ms) = fold_state nxt (nxt s m) ms"

fun enc_all :: "('s \<Rightarrow> 'm \<Rightarrow> bytes) \<Rightarrow> ('s \<Rightarrow> 'm \<Rightarrow> 's) \<Rightarrow> 's \<Rightarrow> 'm list \<Rightarrow> bytes" where
  "enc_all enc nxt s [] = []"
| "enc_all enc nxt s (m # ms) = enc s m @ enc_all enc nxt (nxt s m) ms"

fun ok_all :: "('s \<Rightarrow> 'm \<Rightarrow> bool) \<Rightarrow> ('s \<Rightarrow> 'm \<Rightarrow> 's) \<Rightarrow> 's \<Rightarrow> 'm list \<Rightarrow> bool" where
  "ok_all ok nxt s [] = True"
| "ok_all ok nxt s (m # ms) = (ok s m \<and> ok_all ok nxt (nxt s m) ms)"

lemma fold_state_append [simp]: "fold_state nxt s (xs @ ys) = fold_state nxt (fold_state nxt s xs) ys"
  by (induction xs arbitrary: s) auto

lemma enc_all_append [simp]:
  "enc_all enc nxt s (xs @ ys) = enc_all enc nxt s xs @ enc_all enc nxt (fold_state nxt s xs) ys"
  by (induction xs arbitrary: s) auto

lemma ok_all_append [simp]:
  "ok_all ok nxt s (xs @ ys) \<longleftrightarrow> ok_all ok nxt s xs \<and> ok_all ok nxt (fold_state nxt s xs) ys"
  by (induction xs arbitrary: s) auto

lemma prefix_shorter:
  assumes "prefix b (x @ y)" "length b < length x"
  shows "b = take (length b) x"
proof -
  obtain r where r: "x @ y = b @ r" using assms(1) by (auto simp: prefix_def)
  have "b = take (length b) (b @ r)" by simp
  also have "\<dots> = take (length b) x" unfolding r [symmetric] using assms(2) by simp
  finally show ?thesis .
qed

lemma prefix_longer:
  assumes "prefix b (x @ y)" "\<not> length b < length x"
  obtains r where "b = x @ r" "prefix r y"
proof -
  obtain t where t: "x @ y = b @ t" using assms(1) by (auto simp: prefix_def)
  have "take (length x) (b @ t) = x" unfolding t [symmetric] by simp
  then have b: "b = x @ drop (length x) b" using assms(2) by (metis append_take_drop_id not_less take_append take_eq_Nil
        append_Nil2 diff_is_0_eq)
  then have "x @ y = x @ drop (length x) b @ t" using t by (metis append.assoc)
  then show ?thesis using that [OF b] by (simp add: prefix_def)
qed

locale stream_codec =
  fixes enc :: "'s \<Rightarrow> 'm \<Rightarrow> bytes"
    and nxt :: "'s \<Rightarrow> 'm \<Rightarrow> 's"
    and canon :: "'m \<Rightarrow> 'n"
    and ok :: "'s \<Rightarrow> 'm \<Rightarrow> bool"
    and dec :: "'s \<Rightarrow> bytes \<Rightarrow> 'e + ('n \<times> nat \<times> 's) option"
  assumes dec_enc: "ok s m \<Longrightarrow> dec s (enc s m @ rest) = Inr (Some (canon m, length (enc s m), nxt s m))"
    and dec_short: "ok s m \<Longrightarrow> n < length (enc s m) \<Longrightarrow> dec s (take n (enc s m)) = Inr None"
    and dec_empty: "dec s [] = Inr None"
begin

lemma enc_nonempty: "ok s m \<Longrightarrow> enc s m \<noteq> []"
  using dec_enc [of s m "[]"] dec_empty [of s] by auto

lemma drain_prefix:
  assumes "ok_all ok nxt s ms" "prefix buf (enc_all enc nxt s ms)" "length buf < f"
  obtains ms1 ms2 rest where "ms = ms1 @ ms2"
    "drain f dec s buf = Inr (map canon ms1, fold_state nxt s ms1, rest)"
    "buf = enc_all enc nxt s ms1 @ rest"
    "prefix rest (enc_all enc nxt (fold_state nxt s ms1) ms2)"
    "rest = enc_all enc nxt (fold_state nxt s ms1) ms2 \<longrightarrow> ms2 = []"
  using assms
proof (induction f arbitrary: s ms buf thesis)
  case 0
  then show ?case by simp
next
  case (Suc f)
  show ?case
  proof (cases ms)
    case Nil
    with Suc.prems(3) have "buf = []" by simp
    with Nil show ?thesis using Suc.prems(1) [of "[]" "[]" "[]"] by (simp add: dec_empty)
  next
    case (Cons m ms')
    with Suc.prems(2) have ok: "ok s m" "ok_all ok nxt (nxt s m) ms'" by auto
    show ?thesis
    proof (cases "length buf < length (enc s m)")
      case True
      then have "buf = take (length buf) (enc s m)"
        using Suc.prems(3) Cons by (simp add: prefix_shorter)
      with dec_short [OF ok(1) True] have "dec s buf = Inr None" by metis
      moreover have "buf \<noteq> enc s m @ r" for r using True by auto
      ultimately show ?thesis using Suc.prems(1) [of "[]" ms buf] Suc.prems(3) Cons by auto
    next
      case False
      then obtain r where r: "buf = enc s m @ r" "prefix r (enc_all enc nxt (nxt s m) ms')"
        using Suc.prems(3) Cons prefix_longer [of buf "enc s m"] by auto
      have "length r < f" using Suc.prems(4) r(1) enc_nonempty [OF ok(1)] by (cases "enc s m") auto
      from Suc.IH [OF _ ok(2) r(2) this] obtain ms1 ms2 rest where ih: "ms' = ms1 @ ms2"
        "drain f dec (nxt s m) r = Inr (map canon ms1, fold_state nxt (nxt s m) ms1, rest)"
        "r = enc_all enc nxt (nxt s m) ms1 @ rest"
        "prefix rest (enc_all enc nxt (fold_state nxt (nxt s m) ms1) ms2)"
        "rest = enc_all enc nxt (fold_state nxt (nxt s m) ms1) ms2 \<longrightarrow> ms2 = []"
        by metis
      show ?thesis
        using ih r(1) Cons by (intro Suc.prems(1) [of "m # ms1" ms2 rest]) (auto simp: dec_enc [OF ok(1)])
    qed
  qed
qed

lemma feed_stream:
  assumes "ok_all ok nxt s ms" "buf @ concat cs = enc_all enc nxt s ms" "buf = enc_all enc nxt s ms \<longrightarrow> ms = []"
  shows "feed dec s buf cs = Inr (map canon ms, fold_state nxt s ms, [])"
  using assms
proof (induction cs arbitrary: s ms buf)
  case Nil
  then show ?case by simp
next
  case (Cons c cs)
  have pre: "prefix (buf @ c) (enc_all enc nxt s ms)"
    using Cons.prems(2) [symmetric] by (simp add: prefix_def)
  obtain ms1 ms2 rest where d: "ms = ms1 @ ms2"
    "drain (Suc (length (buf @ c))) dec s (buf @ c) = Inr (map canon ms1, fold_state nxt s ms1, rest)"
    "buf @ c = enc_all enc nxt s ms1 @ rest"
    "rest = enc_all enc nxt (fold_state nxt s ms1) ms2 \<longrightarrow> ms2 = []"
    using drain_prefix [OF Cons.prems(1) pre lessI] by metis
  have "rest @ concat cs = enc_all enc nxt (fold_state nxt s ms1) ms2"
    using Cons.prems(2) d(1,3) by (metis append.assoc concat.simps(2) enc_all_append same_append_eq)
  then have "feed dec (fold_state nxt s ms1) rest cs =
      Inr (map canon ms2, fold_state nxt (fold_state nxt s ms1) ms2, [])"
    using Cons.IH Cons.prems(1) d(1,4) by simp
  with d show ?case by (simp del: drain.simps)
qed

text \<open>However the stream is cut into reads, the reader gets the messages, and nothing is left over.\<close>

lemma feed_all:
  assumes "ok_all ok nxt s ms" "concat cs = enc_all enc nxt s ms"
  shows "feed dec s [] cs = Inr (map canon ms, fold_state nxt s ms, [])"
proof (rule feed_stream)
  show "[] = enc_all enc nxt s ms \<longrightarrow> ms = []"
    using assms(1) enc_nonempty by (cases ms) auto
qed (use assms in auto)

text \<open>No encoding is a prefix of a different message's encoding.\<close>

lemma enc_prefix_free:
  assumes "ok s m" "ok s m'" "prefix (enc s m) (enc s m')"
  shows "canon m = canon m' \<and> enc s m = enc s m'"
proof -
  obtain r where r: "enc s m' = enc s m @ r" using assms(3) by (auto simp: prefix_def)
  have "dec s (enc s m @ r) = Inr (Some (canon m', length (enc s m'), nxt s m'))"
    using dec_enc [OF assms(2), of "[]"] r by simp
  with dec_enc [OF assms(1), of r] r show ?thesis by auto
qed

end

locale wire_codec =
  fixes enc :: "'m \<Rightarrow> bytes"
    and canon :: "'m \<Rightarrow> 'n"
    and ok :: "'m \<Rightarrow> bool"
    and dec :: "bytes \<Rightarrow> 'e + ('n \<times> nat) option"
  assumes dec_enc: "ok m \<Longrightarrow> dec (enc m @ rest) = Inr (Some (canon m, length (enc m)))"
    and dec_short: "ok m \<Longrightarrow> n < length (enc m) \<Longrightarrow> dec (take n (enc m)) = Inr None"
    and dec_empty: "dec [] = Inr None"

definition stateless :: "(bytes \<Rightarrow> 'e + ('n \<times> nat) option) \<Rightarrow> unit \<Rightarrow> bytes \<Rightarrow> 'e + ('n \<times> nat \<times> unit) option" where
  "stateless dec u bs = and_then (dec bs) (\<lambda>r. Inr (map_option (\<lambda>(x, k). (x, k, ())) r))"

sublocale wire_codec \<subseteq> stream: stream_codec "\<lambda>_. enc" "\<lambda>s _. s" canon "\<lambda>_. ok" "stateless dec"
proof
  show "stateless dec s (enc m @ rest) = Inr (Some (canon m, length (enc m), s))" if "ok m" for s m rest
    by (simp add: stateless_def dec_enc [OF that])
  show "stateless dec s (take n (enc m)) = Inr None" if "ok m" "n < length (enc m)" for s m n
    by (simp add: stateless_def dec_short [OF that])
  show "stateless dec s [] = Inr None" for s
    by (simp add: stateless_def dec_empty)
qed

end
