(* ===== verification/Young_Flow.thy ===== *)
theory Young_Flow
  imports Young_Padding Wire_Codec
begin

text \<open>
  Opening a flow in the Young protocol (\<open>core-young/src/codec.rs\<close>): targets, the flow-open frame
  a client sends first on a stream, and the flow response of the server. The frames arrive on a
  byte stream, so a decoder answers \<open>Inr None\<close> while bytes are missing.
\<close>

record target =
  host :: string
  port :: u16

definition target_new :: "string \<Rightarrow> u16 \<Rightarrow> io_error + target" where
  "target_new h p =
     (if p = 0 then Inl (invalid_input ''target port is 0'')
      else if h = [] \<or> 253 < length h \<or> 0 \<in> set (as_bytes h)
      then Inl (invalid_input ''target host length'')
      else Inr \<lparr>host = h, port = p\<rparr>)"

definition authority :: "target \<Rightarrow> string" where
  "authority t =
     (if CHR '':'' \<in> set (host t) \<and> parse_ipv6 (host t) \<noteq> None
      then ''['' @ host t @ '']:'' @ show_nat (unat (port t))
      else host t @ '':'' @ show_nat (unat (port t)))"

datatype flow_kind = Tcp | Udp

fun flow_kind_byte :: "flow_kind \<Rightarrow> byte" where
  "flow_kind_byte Tcp = 1"
| "flow_kind_byte Udp = 2"

definition flow_kind_try_from :: "byte \<Rightarrow> io_error + flow_kind" where
  "flow_kind_try_from v =
     (if v = 1 then Inr Tcp else if v = 2 then Inr Udp else Inl (unsupported ''flow kind''))"

record flow_open =
  fo_kind :: flow_kind
  fo_flow_id :: u64
  fo_target :: target

datatype status = Ok_Status | BadRequest | Unauthorized | ConnectFailed | Unsupported_Status | ResourceLimit

fun status_byte :: "status \<Rightarrow> byte" where
  "status_byte Ok_Status = 0"
| "status_byte BadRequest = 1"
| "status_byte Unauthorized = 2"
| "status_byte ConnectFailed = 3"
| "status_byte Unsupported_Status = 4"
| "status_byte ResourceLimit = 5"

definition status_try_from :: "byte \<Rightarrow> io_error + status" where
  "status_try_from v =
     (if v = 0 then Inr Ok_Status else if v = 1 then Inr BadRequest else if v = 2 then Inr Unauthorized
      else if v = 3 then Inr ConnectFailed else if v = 4 then Inr Unsupported_Status
      else if v = 5 then Inr ResourceLimit else Inl (invalid_data ''status code''))"

record flow_response =
  fr_status :: status
  fr_flow_id :: u64

lemma enum_bytes [simp]:
  "flow_kind_try_from (flow_kind_byte k) = Inr k" "status_try_from (status_byte st) = Inr st"
  by (cases k; simp add: flow_kind_try_from_def) (cases st; simp add: status_try_from_def)

subsection \<open>Targets on the wire\<close>

text \<open>\<open>encode_target\<close> appends to its output argument; here it returns what it appends.\<close>

definition encode_target :: "target \<Rightarrow> io_error + bytes" where
  "encode_target t =
    (case parse_ipv4 (host t) of
       Some ip \<Rightarrow> Inr (u16_be (port t) @ [1] @ octets4 ip)
     | None \<Rightarrow>
        (case parse_ipv6 (host t) of
           Some ip \<Rightarrow> Inr (u16_be (port t) @ [3] @ octets6 ip)
         | None \<Rightarrow>
             if length (host t) < 256
             then Inr (u16_be (port t) @ [2] @ [of_nat (length (host t))] @ as_bytes (host t))
             else Inl (invalid_input ''target domain over 255 bytes'')))"

definition decode_target :: "bytes \<Rightarrow> io_error + (target \<times> nat) option" where
  "decode_target input =
    (if length input < 3 then Inr None
     else
       (let p = u16_from_be [input ! 0, input ! 1];
            finish = (\<lambda>(h, consumed). and_then (target_new h p) (\<lambda>t. Inr (Some (t, consumed))))
        in if input ! 2 = 1 then
             (if length input < 7 then Inr None
              else finish (show_ip (V4 (from_octets4 (slice 3 7 input))), 7))
           else if input ! 2 = 2 then
             (if length input < 4 then Inr None
              else
                (let len = unat (input ! 3)
                 in if len = 0 then Inl (invalid_data ''target domain is empty'')
                    else if length input < 4 + len then Inr None
                    else case from_utf8 (slice 4 (4 + len) input) of
                           None \<Rightarrow> Inl (invalid_data ''target domain is not UTF-8'')
                         | Some h \<Rightarrow> finish (h, 4 + len)))
           else if input ! 2 = 3 then
             (if length input < 19 then Inr None
              else finish (show_ip (V6 (from_octets6 (slice 3 19 input))), 19))
           else Inl (invalid_data ''address type'')))"

text \<open>
  A host that parses as an address comes back in the printed form of that address; the laws of
  the codec hold for targets that \<open>Target::new\<close> accepts and whose host is a Rust \<open>String\<close>.
\<close>

definition canon_target :: "target \<Rightarrow> target" where
  "canon_target t =
    (case parse_ipv4 (host t) of
       Some ip \<Rightarrow> t\<lparr>host := show_ipv4 ip\<rparr>
     | None \<Rightarrow> (case parse_ipv6 (host t) of Some ip \<Rightarrow> t\<lparr>host := show_ipv6 ip\<rparr> | None \<Rightarrow> t))"

definition target_ok :: "target \<Rightarrow> bool" where
  "target_ok t \<longleftrightarrow> target_new (host t) (port t) = Inr t \<and> utf8_valid (as_bytes (host t))"

definition target_wire :: "target \<Rightarrow> bytes" where
  "target_wire t = (case encode_target t of Inr bs \<Rightarrow> bs | Inl _ \<Rightarrow> [])"

lemma target_new_plain:
  assumes "plain_host h" "p \<noteq> 0"
  shows "target_new h p = Inr \<lparr>host = h, port = p\<rparr>"
proof -
  have "of_char ch \<noteq> (0 :: nat)" if "ch \<in> set h" for ch
  proof
    assume "of_char ch = (0 :: nat)"
    then have "char_of (of_char ch :: nat) = (char_of (0 :: nat) :: char)" by simp
    moreover have "char_of (0 :: nat) = CHR 0x00" by code_simp
    ultimately show False using assms(1) that by (simp add: plain_host_def)
  qed
  moreover have "of_char ch < (256 :: nat)" for ch by simp
  ultimately have "0 \<notin> set (as_bytes h)"
    by (auto simp: as_bytes_def word_unat_eq_iff unat_of_nat) (metis less_irrefl)
  with assms show ?thesis by (auto simp: target_new_def plain_host_def)
qed

lemma target_okD:
  assumes "target_ok t"
  shows "port t \<noteq> 0" "host t \<noteq> []" "length (host t) \<le> 253" "utf8_valid (as_bytes (host t))"
    "target_new (host t) (port t) = Inr t"
  using assms by (auto simp: target_ok_def target_new_def split: if_splits)

lemma encode_target_ok: "target_ok t \<Longrightarrow> encode_target t = Inr (target_wire t)"
  using target_okD(3) [of t] by (auto simp: target_wire_def encode_target_def split: option.splits)

lemma length_2_cases:
  assumes "length bs = 2"
  obtains a b where "bs = [a, b]"
  using assms by (cases bs; cases "tl bs") auto

lemma length_target_wire: "target_ok t \<Longrightarrow> 3 < length (target_wire t)"
  using target_okD(2,3) [of t] by (auto simp: target_wire_def encode_target_def split: option.splits)

lemma decode_target_wire:
  assumes "target_ok t"
  shows "decode_target (target_wire t @ rest) = Inr (Some (canon_target t, length (target_wire t)))"
proof -
  note t = target_okD [OF assms]
  have v4: "target_new (show_ipv4 ip) (port t) = Inr (t\<lparr>host := show_ipv4 ip\<rparr>)"
    and v6: "target_new (show_ipv6 ip') (port t) = Inr (t\<lparr>host := show_ipv6 ip'\<rparr>)" for ip ip'
    using show_ipv4_plain [of ip] show_ipv6_plain [of ip'] t(1) by (simp_all add: target_new_plain)
  have n: "unat (of_nat (length (host t)) :: byte) = length (host t)" using t(3) by (simp add: unat_of_nat)
  obtain p0 p1 where p: "u16_be (port t) = [p0, p1]"
    using length_2_cases [OF length_word_be(1)] by metis
  then have port: "u16_from_be [p0, p1] = port t" by (metis word_be_roundtrip(1))
  show ?thesis
    using t n v4 v6 port
    by (auto simp: decode_target_def target_wire_def encode_target_def canon_target_def p Let_def
        slice_def from_utf8_as_bytes numeral_3_eq_3 split: option.splits)
qed

lemma decode_target_short:
  assumes "target_ok t" "n < length (target_wire t)"
  shows "decode_target (take n (target_wire t)) = Inr None"
proof -
  note t = target_okD [OF assms(1)]
  have k: "unat (of_nat (length (host t)) :: byte) = length (host t)" using t(3) by (simp add: unat_of_nat)
  obtain p0 p1 where p: "u16_be (port t) = [p0, p1]"
    using length_2_cases [OF length_word_be(1)] by metis
  show ?thesis
  proof (cases "n < 3")
    case True
    then show ?thesis by (simp add: decode_target_def min_less_iff_disj)
  next
    case False
    then obtain m where m: "n = Suc (Suc (Suc m))"
      by (metis add_2_eq_Suc le_Suc_ex not_less numeral_3_eq_3 add_Suc plus_1_eq_Suc Suc_1 numeral_2_eq_2)
    show ?thesis
      using t k assms(2) m
      by (cases m) (auto simp: decode_target_def target_wire_def encode_target_def p Let_def min_def
          split: option.splits)
  qed
qed

lemma canon_target_ok: "target_ok t \<Longrightarrow> target_ok (canon_target t)"
  using target_new_plain show_ipv4_plain show_ipv6_plain target_okD(1) [of t]
  by (auto simp: canon_target_def target_ok_def plain_host_def is_ascii_valid split: option.splits)

subsection \<open>Flow open\<close>

definition encode_flow_open :: "crypto \<Rightarrow> bytes \<Rightarrow> flow_open \<Rightarrow> nat \<Rightarrow> io_error + bytes" where
  "encode_flow_open c session_key op padding_len =
    (if MAX_PADDING_BYTES < padding_len then Inl (invalid_input ''flow padding over the limit'')
     else
       (let frame = as_bytes ''YF'' @ [VERSION] @ [flow_kind_byte (fo_kind op)] @ u64_be (fo_flow_id op)
        in and_then (encode_target (fo_target op)) (\<lambda>tb.
             if 65536 \<le> padding_len then Inl (invalid_input ''flow padding too big'')
             else
               (let frame = extend_deterministic_padding c session_key (as_bytes ''young/flow-padding/v1'')
                      [u64_be (fo_flow_id op)] (frame @ tb @ u16_be (of_nat padding_len)) padding_len;
                    tag = hmac_tag c session_key [as_bytes ''young/flow-open/v1'', frame]
                in Inr (frame @ take FLOW_TAG_BYTES tag)))))"

definition decode_flow_open_inner ::
  "crypto \<Rightarrow> bytes \<Rightarrow> padding_scheme option \<Rightarrow> bytes \<Rightarrow> io_error + (flow_open \<times> nat) option" where
  "decode_flow_open_inner c session_key scheme input =
    (if length input < 2 + 1 + 1 + 8 then Inr None
     else if take 2 input \<noteq> as_bytes ''YF'' \<or> input ! 2 \<noteq> VERSION
     then Inl (invalid_data ''flow open magic or version'')
     else
       and_then (flow_kind_try_from (input ! 3)) (\<lambda>kind.
       (let flow_id = u64_from_be (slice 4 12 input)
        in and_then (decode_target (drop 12 input)) (\<lambda>decoded.
             case decoded of
               None \<Rightarrow> Inr None
             | Some (target, target_bytes) \<Rightarrow>
                (let padding_offset = 12 + target_bytes
                 in if length input < padding_offset + 2 then Inr None
                    else
                      (let padding_len = unat (u16_from_be (slice padding_offset (padding_offset + 2) input))
                       in if MAX_PADDING_BYTES < padding_len then Inl (invalid_data ''flow padding over the limit'')
                          else
                            (let authenticated_len = padding_offset + 2 + padding_len;
                                 total = authenticated_len + FLOW_TAG_BYTES
                             in if length input < total then Inr None
                                else
                                  and_then (verify_hmac_truncated c session_key
                                      [as_bytes ''young/flow-open/v1'', take authenticated_len input]
                                      (slice authenticated_len total input)) (\<lambda>_.
                                  and_then
                                    (case scheme of
                                       None \<Rightarrow> Inr ()
                                     | Some s \<Rightarrow>
                                         if padding_len \<noteq> unat (padding_for s ClientToServer flow_id)
                                         then Inl (invalid_data ''flow open padding differs from the scheme'')
                                         else verify_deterministic_padding c session_key
                                                (as_bytes ''young/flow-padding/v1'') [u64_be flow_id]
                                                (slice (padding_offset + 2) authenticated_len input)) (\<lambda>_.
                                  Inr (Some (\<lparr>fo_kind = kind, fo_flow_id = flow_id, fo_target = target\<rparr>,
                                    total)))))))))))"

definition decode_flow_open :: "crypto \<Rightarrow> bytes \<Rightarrow> bytes \<Rightarrow> io_error + (flow_open \<times> nat) option" where
  "decode_flow_open c session_key input = decode_flow_open_inner c session_key None input"

definition decode_flow_open_padded ::
  "crypto \<Rightarrow> bytes \<Rightarrow> padding_scheme \<Rightarrow> bytes \<Rightarrow> io_error + (flow_open \<times> nat) option" where
  "decode_flow_open_padded c session_key scheme input =
     decode_flow_open_inner c session_key (Some scheme) input"

subsection \<open>Flow response\<close>

definition encode_flow_response :: "crypto \<Rightarrow> bytes \<Rightarrow> flow_response \<Rightarrow> bytes" where
  "encode_flow_response c session_key response =
    (let output = as_bytes ''YR'' @ [VERSION] @ [status_byte (fr_status response)] @
           u64_be (fr_flow_id response);
         tag = hmac_tag c session_key [as_bytes ''young/flow-response/v1'', output]
     in output @ take FLOW_TAG_BYTES tag)"

definition decode_flow_response :: "crypto \<Rightarrow> bytes \<Rightarrow> bytes \<Rightarrow> io_error + (flow_response \<times> nat) option" where
  "decode_flow_response c session_key input =
    (if length input < FLOW_RESPONSE_BYTES then Inr None
     else if take 2 input \<noteq> as_bytes ''YR'' \<or> input ! 2 \<noteq> VERSION
     then Inl (invalid_data ''flow response magic or version'')
     else
       and_then (verify_hmac_truncated c session_key [as_bytes ''young/flow-response/v1'', take 12 input]
           (slice 12 FLOW_RESPONSE_BYTES input)) (\<lambda>_.
       and_then (status_try_from (input ! 3)) (\<lambda>st.
         Inr (Some (\<lparr>fr_status = st, fr_flow_id = u64_from_be (slice 4 12 input)\<rparr>,
           FLOW_RESPONSE_BYTES)))))"

subsection \<open>The frames are wire codecs\<close>

text \<open>
  The client pads a flow-open frame to a length from the scheme; \<open>flow_open_wire\<close> is the frame for
  a given padding length.
\<close>

definition flow_open_body :: "crypto \<Rightarrow> bytes \<Rightarrow> flow_open \<Rightarrow> nat \<Rightarrow> bytes" where
  "flow_open_body c sk op n =
     as_bytes ''YF'' @ [VERSION] @ [flow_kind_byte (fo_kind op)] @ u64_be (fo_flow_id op) @
     target_wire (fo_target op) @ u16_be (of_nat n) @
     deterministic_padding c sk (as_bytes ''young/flow-padding/v1'') [u64_be (fo_flow_id op)] n"

definition flow_open_wire :: "crypto \<Rightarrow> bytes \<Rightarrow> flow_open \<Rightarrow> nat \<Rightarrow> bytes" where
  "flow_open_wire c sk op n =
     (let body = flow_open_body c sk op n
      in body @ take FLOW_TAG_BYTES (hmac_tag c sk [as_bytes ''young/flow-open/v1'', body]))"

definition canon_open :: "flow_open \<Rightarrow> flow_open" where
  "canon_open op = op\<lparr>fo_target := canon_target (fo_target op)\<rparr>"

definition scheme_admits :: "padding_scheme option \<Rightarrow> u64 \<Rightarrow> nat \<Rightarrow> bool" where
  "scheme_admits scheme flow_id n \<longleftrightarrow>
     (case scheme of None \<Rightarrow> True | Some s \<Rightarrow> n = unat (padding_for s ClientToServer flow_id))"

lemma encode_flow_open_ok:
  assumes "target_ok (fo_target op)" "n \<le> MAX_PADDING_BYTES"
  shows "encode_flow_open c sk op n = Inr (flow_open_wire c sk op n)"
  using assms
  by (simp add: encode_flow_open_def encode_target_ok flow_open_wire_def flow_open_body_def Let_def
      extend_deterministic_padding_eq young_consts)

lemma length_flow_open_body:
  "length (flow_open_body c sk op n) = 14 + length (target_wire (fo_target op)) + n"
  by (simp add: flow_open_body_def)

lemma length_flow_open_wire:
  "crypto_ok c \<Longrightarrow> length (flow_open_wire c sk op n) = 30 + length (target_wire (fo_target op)) + n"
  by (simp add: flow_open_wire_def Let_def length_flow_open_body young_consts)

text \<open>The fixed header, as the decoder reads it from any input that starts with it.\<close>

lemma flow_header_fields:
  assumes "length magic = 2" "input = magic @ [v] @ [k] @ u64_be fid @ rest"
  shows "take 2 input = magic" "input ! 2 = v" "input ! 3 = k"
    "u64_from_be (slice 4 12 input) = fid" "drop 12 input = rest" "12 \<le> length input"
proof -
  obtain a b where m: "magic = [a, b]" using assms(1) by (rule length_2_cases)
  show "take 2 input = magic" "input ! 2 = v" "input ! 3 = k" "drop 12 input = rest" "12 \<le> length input"
    using assms(2) m by (simp_all add: numeral_3_eq_3 numeral_2_eq_2)
  have "input = (magic @ [v] @ [k]) @ u64_be fid @ rest" using assms(2) by simp
  then have "slice 4 12 input = u64_be fid" using assms(1) by (simp add: slice_simps del: append.simps)
  then show "u64_from_be (slice 4 12 input) = fid" by simp
qed

lemma decode_flow_open_wire:
  assumes "crypto_ok c" "target_ok (fo_target op)" "n \<le> MAX_PADDING_BYTES"
    "scheme_admits scheme (fo_flow_id op) n"
  shows "decode_flow_open_inner c sk scheme (flow_open_wire c sk op n @ rest) =
    Inr (Some (canon_open op, length (flow_open_wire c sk op n)))"
proof -
  let ?body = "flow_open_body c sk op n" and ?tw = "target_wire (fo_target op)"
  let ?pad = "deterministic_padding c sk (as_bytes ''young/flow-padding/v1'') [u64_be (fo_flow_id op)] n"
  let ?tag = "take FLOW_TAG_BYTES (hmac_tag c sk [as_bytes ''young/flow-open/v1'', ?body])"
  define input where "input = flow_open_wire c sk op n @ rest"
  have tagl: "length ?tag = 16" using assms(1) by (simp add: young_consts)
  have i1: "input = as_bytes ''YF'' @ [VERSION] @ [flow_kind_byte (fo_kind op)] @ u64_be (fo_flow_id op) @
      ?tw @ u16_be (of_nat n) @ ?pad @ ?tag @ rest"
    by (simp add: input_def flow_open_wire_def flow_open_body_def Let_def)
  note h = flow_header_fields [OF _ i1, simplified]
  have i2: "input = ?body @ ?tag @ rest" by (simp add: input_def flow_open_wire_def Let_def)
  have bl: "length ?body = 12 + length ?tw + 2 + n" by (simp add: length_flow_open_body)
  have auth: "take (12 + length ?tw + 2 + n) input = ?body"
      "slice (12 + length ?tw + 2 + n) (12 + length ?tw + 2 + n + FLOW_TAG_BYTES) input = ?tag"
    unfolding i2 using bl tagl by (simp_all add: slice_simps young_consts)
  have i3: "input = (as_bytes ''YF'' @ [VERSION] @ [flow_kind_byte (fo_kind op)] @ u64_be (fo_flow_id op) @ ?tw) @
      u16_be (of_nat n) @ ?pad @ ?tag @ rest" using i1 by simp
  have plen: "u16_from_be (slice (12 + length ?tw) (12 + length ?tw + 2) input) = of_nat n"
    and pad: "slice (12 + length ?tw + 2) (12 + length ?tw + 2 + n) input = ?pad"
    unfolding i3 by (simp_all add: slice_simps del: append.simps append_assoc)
  have un: "unat (of_nat n :: u16) = n" using assms(3) by (simp add: unat_of_nat young_consts)
  have len: "\<not> length input < 12 + length ?tw + 2 + n + FLOW_TAG_BYTES" "\<not> length input < 12 + length ?tw + 2"
    "\<not> length input < 2 + 1 + 1 + 8"
    unfolding i2 using bl tagl by (simp_all add: young_consts)
  have "decode_flow_open_inner c sk scheme input = Inr (Some (canon_open op, 12 + length ?tw + 2 + n + FLOW_TAG_BYTES))"
    unfolding decode_flow_open_inner_def Let_def using len assms plen pad auth un
    by (cases scheme) (simp_all add: h decode_target_wire canon_open_def scheme_admits_def)
  then show ?thesis
    using assms(1) unfolding input_def by (simp add: length_flow_open_wire young_consts)
qed

lemma flow_header_prefix:
  assumes "length magic = 2" "w = magic @ [v] @ [k] @ u64_be fid @ rest" "12 \<le> n"
  shows "take 2 (take n w) = magic" "take n w ! 2 = v" "take n w ! 3 = k"
    "drop 12 (take n w) = take (n - 12) rest"
proof -
  define pre where "pre = magic @ [v] @ [k] @ u64_be fid"
  have "w = pre @ rest" "length pre = 12" using assms by (simp_all add: pre_def)
  then have "take n w = pre @ take (n - 12) rest" using assms(3) by simp
  then have "take n w = magic @ [v] @ [k] @ u64_be fid @ take (n - 12) rest" by (simp add: pre_def)
  from flow_header_fields [OF assms(1) this]
  show "take 2 (take n w) = magic" "take n w ! 2 = v" "take n w ! 3 = k"
    "drop 12 (take n w) = take (n - 12) rest" by simp_all
qed

lemma decode_flow_open_short:
  assumes "crypto_ok c" "target_ok (fo_target op)" "n \<le> MAX_PADDING_BYTES"
    "k < length (flow_open_wire c sk op n)"
  shows "decode_flow_open_inner c sk scheme (take k (flow_open_wire c sk op n)) = Inr None"
proof (cases "k < 12")
  case True
  then show ?thesis by (simp add: decode_flow_open_inner_def min_less_iff_disj)
next
  case False
  let ?tw = "target_wire (fo_target op)"
  define tail where "tail = u16_be (of_nat n) @
      deterministic_padding c sk (as_bytes ''young/flow-padding/v1'') [u64_be (fo_flow_id op)] n @
      take FLOW_TAG_BYTES (hmac_tag c sk [as_bytes ''young/flow-open/v1'', flow_open_body c sk op n])"
  define w where "w = flow_open_wire c sk op n"
  have w: "w = as_bytes ''YF'' @ [VERSION] @ [flow_kind_byte (fo_kind op)] @ u64_be (fo_flow_id op) @ ?tw @ tail"
    by (simp add: w_def flow_open_wire_def flow_open_body_def Let_def tail_def)
  have k: "12 \<le> k" "\<not> k < 12" using False by auto
  have "length (as_bytes ''YF'') = 2" by simp
  note h = flow_header_prefix [OF this w k(1)]
  have len: "length (take k w) = k" using assms(4) by (simp add: w_def)
  show ?thesis
  proof (cases "k - 12 < length ?tw")
    case True
    then have "decode_target (take (k - 12) (?tw @ tail)) = Inr None"
      using decode_target_short [OF assms(2)] by simp
    then show ?thesis
      unfolding w_def [symmetric] using k
      by (simp add: decode_flow_open_inner_def h Let_def len del: length_take take_append take_take)
  next
    case tw: False
    then have "decode_target (take (k - 12) (?tw @ tail)) = Inr (Some (canon_target (fo_target op), length ?tw))"
      using decode_target_wire [OF assms(2)] by simp
    moreover have "unat (u16_from_be (slice (12 + length ?tw) (14 + length ?tw) (take k w))) = n"
      if "14 + length ?tw \<le> k"
    proof -
      have "slice (12 + length ?tw) (14 + length ?tw) w = u16_be (of_nat n)"
        unfolding w tail_def by (simp add: slice_simps del: append.simps)
      then show ?thesis
        using that assms(3) by (simp add: slice_prefix_stable unat_of_nat young_consts)
    qed
    moreover have "k < 14 + length ?tw + n + FLOW_TAG_BYTES"
      using assms(1,4) by (simp add: length_flow_open_wire young_consts)
    ultimately show ?thesis
      unfolding w_def [symmetric] using k assms(3)
      by (simp add: decode_flow_open_inner_def h Let_def len not_less del: length_take take_append take_take)
  qed
qed

text \<open>A client that negotiated no scheme chooses any padding length; otherwise the scheme chooses it.\<close>

definition open_ok :: "padding_scheme option \<Rightarrow> flow_open \<times> nat \<Rightarrow> bool" where
  "open_ok scheme = (\<lambda>(op, n). target_ok (fo_target op) \<and> n \<le> MAX_PADDING_BYTES \<and>
     scheme_admits scheme (fo_flow_id op) n)"

interpretation flow_open_codec: wire_codec
  "\<lambda>(op, n). flow_open_wire c sk op n" "\<lambda>(op, n). canon_open op"
  "\<lambda>m. crypto_ok c \<and> open_ok scheme m" "decode_flow_open_inner c sk scheme" for c sk scheme
proof
  show "decode_flow_open_inner c sk scheme [] = Inr None" by (simp add: decode_flow_open_inner_def)
qed (auto simp: open_ok_def decode_flow_open_wire decode_flow_open_short)

definition response_body :: "flow_response \<Rightarrow> bytes" where
  "response_body r = as_bytes ''YR'' @ [VERSION] @ [status_byte (fr_status r)] @ u64_be (fr_flow_id r)"

lemma length_response [simp]: "length (response_body r) = 12"
  "crypto_ok c \<Longrightarrow> length (encode_flow_response c sk r) = FLOW_RESPONSE_BYTES"
  by (simp_all add: response_body_def encode_flow_response_def Let_def young_consts)

interpretation flow_response_codec: wire_codec
  "encode_flow_response c sk" "\<lambda>r. r" "\<lambda>_. crypto_ok c" "decode_flow_response c sk" for c sk
proof
  show "decode_flow_response c sk [] = Inr None" by (simp add: decode_flow_response_def young_consts)
  fix r rest assume assms: "crypto_ok c"
  let ?tag = "take FLOW_TAG_BYTES (hmac_tag c sk [as_bytes ''young/flow-response/v1'', response_body r])"
  define input where "input = encode_flow_response c sk r @ rest"
  have i1: "input = as_bytes ''YR'' @ [VERSION] @ [status_byte (fr_status r)] @ u64_be (fr_flow_id r) @ ?tag @ rest"
    and i2: "input = response_body r @ ?tag @ rest"
    by (simp_all add: input_def encode_flow_response_def response_body_def Let_def)
  note h = flow_header_fields [OF _ i1, simplified]
  have "take 12 input = response_body r" "slice 12 FLOW_RESPONSE_BYTES input = ?tag"
    "FLOW_RESPONSE_BYTES \<le> length input"
    unfolding i2 using assms by (simp_all add: slice_simps young_consts)
  then show "decode_flow_response c sk (encode_flow_response c sk r @ rest) =
      Inr (Some (r, length (encode_flow_response c sk r)))"
    unfolding input_def [symmetric] using assms by (simp add: decode_flow_response_def h)
next
  fix r n assume assms: "crypto_ok c" and "n < length (encode_flow_response c sk r)"
  then show "decode_flow_response c sk (take n (encode_flow_response c sk r)) = Inr None"
    using assms by (simp add: decode_flow_response_def)
qed

subsection \<open>Properties\<close>

definition sample_open :: flow_open where
  "sample_open = \<lparr>fo_kind = Tcp, fo_flow_id = 5, fo_target = \<lparr>host = ''dns.example'', port = 443\<rparr>\<rparr>"

definition sample_scheme :: padding_scheme where
  "sample_scheme = \<lparr>client_to_server = [3, 70], server_to_client = Some [5, 1]\<rparr>"

lemma sample_target_ok: "target_ok (fo_target sample_open)"
  by (simp add: target_ok_def sample_open_def target_new_plain plain_host_def is_ascii_valid)

lemma sample_scheme_wf: "scheme_wf sample_scheme"
  by (simp add: scheme_wf_def entries_ok_def sample_scheme_def scheme_len_def young_consts)

lemma sample_padding: "unat (padding_for sample_scheme ClientToServer (fo_flow_id sample_open)) = 70"
  by code_simp

text \<open>
  C8: A flow-open frame that a client builds for a valid target, padded as the negotiated scheme
  says, is accepted by the server and opens the same flow to the same target, an address being
  normalised to its printed form; the server uses exactly the bytes of the frame and leaves what
  follows it, and on every strict prefix of the frame it waits for more bytes.
\<close>

theorem flow_open_roundtrip:
  assumes "crypto_ok c" "scheme_wf s" "target_ok (fo_target op)"
    and n: "n = unat (padding_for s ClientToServer (fo_flow_id op))"
  shows "\<exists>frame. encode_flow_open c sk op n = Inr frame \<and>
    (\<forall>rest. decode_flow_open_padded c sk s (frame @ rest) = Inr (Some (canon_open op, length frame))) \<and>
    (\<forall>k < length frame. decode_flow_open_padded c sk s (take k frame) = Inr None)"
proof -
  have le: "n \<le> MAX_PADDING_BYTES" using padding_for_bounds(2) [OF assms(2)] n by simp
  then have ok: "crypto_ok c \<and> open_ok (Some s) (op, n)"
    using assms by (simp add: open_ok_def scheme_admits_def)
  show ?thesis
    unfolding decode_flow_open_padded_def encode_flow_open_ok [OF assms(3) le]
    using flow_open_codec.dec_enc [OF ok, of sk] flow_open_codec.dec_short [OF ok, of _ sk] by auto
qed

theorem flow_open_roundtrip_witness:
  "\<exists>frame. encode_flow_open sample_crypto (replicate 32 1) sample_open 70 = Inr frame \<and>
    (\<forall>rest. decode_flow_open_padded sample_crypto (replicate 32 1) sample_scheme (frame @ rest) =
      Inr (Some (canon_open sample_open, length frame)))"
  using flow_open_roundtrip [OF sample_crypto_ok sample_scheme_wf sample_target_ok sample_padding [symmetric]]
  by blast

text \<open>
  The server opens a flow only from an authentic frame: when the decoder accepts, the frame
  lies within the input, its last sixteen bytes are the truncated tag of the session key over the
  rest, and with a negotiated scheme its padding has the scheme's length and is the keyed stream
  of this flow id.
\<close>

theorem flow_open_authentic:
  assumes "crypto_ok c" "decode_flow_open_inner c sk scheme input = Inr (Some (op, used))"
  shows "\<exists>body pad. take used input = body @ take FLOW_TAG_BYTES (hmac_tag c sk [as_bytes ''young/flow-open/v1'', body])
    \<and> used \<le> length input \<and> length body + FLOW_TAG_BYTES = used \<and>
    suffix pad body \<and> length pad \<le> MAX_PADDING_BYTES \<and>
    (\<forall>s. scheme = Some s \<longrightarrow> length pad = unat (padding_for s ClientToServer (fo_flow_id op)) \<and>
       pad = deterministic_padding c sk (as_bytes ''young/flow-padding/v1'') [u64_be (fo_flow_id op)] (length pad))"
proof -
  have "decode_target (drop 12 input) \<noteq> Inl e" "decode_target (drop 12 input) \<noteq> Inr None" for e
    using assms(2) by (auto simp: decode_flow_open_inner_def Let_def and_then_Inr_iff split: if_splits)
  then obtain t tb where t: "decode_target (drop 12 input) = Inr (Some (t, tb))"
    by (metis not_Some_eq sumE surj_pair)
  have pl: "unat (u16_from_be (slice (12 + tb) (12 + tb + 2) input)) \<le> MAX_PADDING_BYTES"
    and tot: "used = 12 + tb + 2 + unat (u16_from_be (slice (12 + tb) (12 + tb + 2) input)) + FLOW_TAG_BYTES"
    and len: "used \<le> length input"
    and fid: "fo_flow_id op = u64_from_be (slice 4 12 input)"
    using assms(2) t
    by (auto simp: decode_flow_open_inner_def Let_def and_then_Inr_iff not_less split: if_splits)
  have tag: "verify_hmac_truncated c sk [as_bytes ''young/flow-open/v1'', take (used - FLOW_TAG_BYTES) input]
      (slice (used - FLOW_TAG_BYTES) used input) = Inr ()"
    unfolding tot using assms(2) t
    by (auto simp: decode_flow_open_inner_def Let_def and_then_Inr_iff not_less split: if_splits)
  have pad: "unat (u16_from_be (slice (12 + tb) (12 + tb + 2) input)) = unat (padding_for s ClientToServer (fo_flow_id op)) \<and>
      verify_deterministic_padding c sk (as_bytes ''young/flow-padding/v1'') [u64_be (fo_flow_id op)]
        (slice (12 + tb + 2) (used - FLOW_TAG_BYTES) input) = Inr ()" if "scheme = Some s" for s
    unfolding tot fid using assms(2) t that
    by (auto simp: decode_flow_open_inner_def Let_def and_then_Inr_iff not_less split: if_splits)
  define n where "n = unat (u16_from_be (slice (12 + tb) (12 + tb + 2) input))"
  define body where "body = take (used - FLOW_TAG_BYTES) input"
  define p where "p = slice (12 + tb + 2) (used - FLOW_TAG_BYTES) input"
  have lp: "length p = n" using len tot by (simp add: p_def n_def)
  have "body = take (12 + tb + 2) input @ p"
    unfolding body_def p_def by (rule take_slice_split) (use tot in simp)
  then have suf: "suffix p body" by (simp add: suffix_def)
  have "take used input = body @ slice (used - FLOW_TAG_BYTES) used input"
    unfolding body_def by (rule take_slice_split) simp
  moreover have "slice (used - FLOW_TAG_BYTES) used input =
      take FLOW_TAG_BYTES (hmac_tag c sk [as_bytes ''young/flow-open/v1'', body])"
    using tag assms(1) by (simp add: verify_hmac_truncated_Inr body_def)
  moreover have "length body + FLOW_TAG_BYTES = used" using len tot by (simp add: body_def)
  ultimately show ?thesis
    using len suf pad pl lp
    by (intro exI [of _ body] exI [of _ p]) (auto simp: n_def p_def verify_padding_iff)
qed

lemma sample_open_decoded:
  "decode_flow_open_inner sample_crypto [1] (Some sample_scheme) (flow_open_wire sample_crypto [1] sample_open 70) =
     Inr (Some (canon_open sample_open, length (flow_open_wire sample_crypto [1] sample_open 70)))"
  using flow_open_codec.dec_enc [of sample_crypto "Some sample_scheme" "(sample_open, 70)" "[1]" "[]"]
    sample_crypto_ok sample_target_ok sample_padding
  by (simp add: open_ok_def scheme_admits_def young_consts)

theorem flow_open_authentic_witness:
  "\<exists>body. take (length (flow_open_wire sample_crypto [1] sample_open 70))
       (flow_open_wire sample_crypto [1] sample_open 70) =
     body @ take FLOW_TAG_BYTES (hmac_tag sample_crypto [1] [as_bytes ''young/flow-open/v1'', body])"
  using flow_open_authentic [OF sample_crypto_ok sample_open_decoded] by blast

text \<open>
  A client reads back every flow response the server writes, whatever follows it on the stream,
  and waits on every strict prefix; and it accepts a response only with the status and the flow id
  the server put there: two responses with the same bytes are the same response.
\<close>

theorem flow_response_roundtrip:
  assumes "crypto_ok c"
  shows "decode_flow_response c sk (encode_flow_response c sk r @ rest) =
      Inr (Some (r, length (encode_flow_response c sk r))) \<and>
    (\<forall>k < length (encode_flow_response c sk r).
      decode_flow_response c sk (take k (encode_flow_response c sk r)) = Inr None) \<and>
    (encode_flow_response c sk r = encode_flow_response c sk r' \<longleftrightarrow> r = r')"
  using flow_response_codec.dec_enc [OF assms] flow_response_codec.dec_short [OF assms]
    flow_response_codec.stream.enc_prefix_free [OF assms assms, of sk r r'] by auto

theorem flow_response_roundtrip_witness:
  "decode_flow_response sample_crypto [1] (encode_flow_response sample_crypto [1]
      \<lparr>fr_status = ConnectFailed, fr_flow_id = 7\<rparr> @ [1, 2]) =
     Inr (Some (\<lparr>fr_status = ConnectFailed, fr_flow_id = 7\<rparr>, FLOW_RESPONSE_BYTES))"
  using flow_response_roundtrip [OF sample_crypto_ok] sample_crypto_ok by simp

end
