(* ===== verification/Young_Data.thy ===== *)
theory Young_Data
  imports Young_Flow
begin

text \<open>
  Data frames of a padded Young TCP flow (\<open>core-young/src/codec.rs\<close>) and the receive loops of the
  two ends (\<open>deliver_client_tcp_data\<close> in \<open>server.rs\<close>, \<open>deliver_tcp_data\<close> in \<open>client.rs\<close>).

  Sender and receiver each keep a sequence number and a cursor into the padding table; the
  functions that take \<open>&mut\<close> state return the new state with their result. Indexing a table with a
  cursor out of range is \<open>Panic\<close>. Frames go to the application through a bounded channel.
\<close>

record data_frame =
  df_sequence :: u64
  df_payload :: bytes

definition padding_cursor_for_flow :: "padding_scheme \<Rightarrow> padding_direction \<Rightarrow> u64 \<Rightarrow> nat" where
  "padding_cursor_for_flow s dir flow_id =
     (let frame_seed = (case dir of ClientToServer \<Rightarrow> flow_id + 1 | ServerToClient \<Rightarrow> flow_id)
      in unat frame_seed mod length (scheme_entries s dir))"

definition advance_cursor :: "u16 list \<Rightarrow> nat \<Rightarrow> nat" where
  "advance_cursor es cur = (if cur + 1 = length es then 0 else cur + 1)"

definition data_frame_header :: "u64 \<Rightarrow> u16 \<Rightarrow> u16 \<Rightarrow> bytes" where
  "data_frame_header seq payload_len padding_len =
     as_bytes ''YP'' @ [VERSION] @ [0] @ u64_be seq @ u16_be payload_len @ u16_be padding_len"

text \<open>The closure that \<open>encode_data_frames\<close> maps over the chunks of the payload.\<close>

fun encode_chunks ::
  "crypto \<Rightarrow> bytes \<Rightarrow> u16 list \<Rightarrow> padding_direction \<Rightarrow> u64 \<Rightarrow> u64 \<Rightarrow> nat \<Rightarrow> bytes list \<Rightarrow>
     io_error + bytes list \<times> u64 \<times> nat" where
  "encode_chunks c sk es dir flow_id seq cur [] = Inr ([], seq, cur)"
| "encode_chunks c sk es dir flow_id seq cur (chunk # rest) =
    (if length es \<le> cur then Inl Panic
     else
       (let padding_len = unat (es ! cur)
        in if 65536 \<le> length chunk then Inl (invalid_input ''data frame payload over u16'')
           else if 65536 \<le> padding_len then Inl (invalid_input ''data frame padding over u16'')
           else
             (let frame = extend_deterministic_padding c sk (tcp_padding_domain dir)
                    [u64_be flow_id, u64_be seq]
                    (data_frame_header seq (of_nat (length chunk)) (of_nat padding_len) @ chunk) padding_len
              in case checked_add seq 1 of
                   None \<Rightarrow> Inl (invalid_input ''data frame sequence exhausted'')
                 | Some seq' \<Rightarrow>
                     and_then (encode_chunks c sk es dir flow_id seq' (advance_cursor es cur) rest)
                       (\<lambda>(frames, seq'', cur'). Inr (frame # frames, seq'', cur')))))"

definition encode_data_frames ::
  "crypto \<Rightarrow> bytes \<Rightarrow> padding_scheme \<Rightarrow> padding_direction \<Rightarrow> u64 \<Rightarrow> u64 \<Rightarrow> nat \<Rightarrow> bytes \<Rightarrow>
     io_error + bytes list \<times> u64 \<times> nat" where
  "encode_data_frames c sk scheme dir flow_id seq cur payload =
    (if payload = [] then Inr ([], seq, cur)
     else encode_chunks c sk (scheme_entries scheme dir) dir flow_id seq cur
            (chunks MAX_DATA_PAYLOAD_BYTES payload))"

text \<open>
  The result carries the frame, the bytes used and the receiver's new sequence and cursor. The
  \<open>checked_add\<close> on \<open>usize\<close> for the frame length cannot overflow: both lengths are 16-bit numbers.
\<close>

definition decode_data_frame ::
  "crypto \<Rightarrow> bytes \<Rightarrow> padding_scheme \<Rightarrow> padding_direction \<Rightarrow> u64 \<Rightarrow> u64 \<times> nat \<Rightarrow> bytes \<Rightarrow>
     io_error + (data_frame \<times> nat \<times> u64 \<times> nat) option" where
  "decode_data_frame c sk scheme dir flow_id = (\<lambda>(expected, cur) input.
    (if length input < DATA_FRAME_HEADER_BYTES then Inr None
     else if take 2 input \<noteq> as_bytes ''YP'' \<or> input ! 2 \<noteq> VERSION \<or> input ! 3 \<noteq> 0
     then Inl (invalid_data ''data frame header'')
     else
       (let seq = u64_from_be (slice 4 12 input);
            payload_len = unat (u16_from_be (slice 12 14 input));
            padding_len = unat (u16_from_be (slice 14 16 input));
            es = scheme_entries scheme dir
        in if seq \<noteq> expected then Inl (invalid_data ''data frame sequence'')
           else if payload_len = 0 \<or> MAX_DATA_PAYLOAD_BYTES < payload_len
           then Inl (invalid_data ''data frame payload length'')
           else if length es \<le> cur then Inl Panic
           else if padding_len \<noteq> unat (es ! cur)
           then Inl (invalid_data ''data frame padding differs from the scheme'')
           else
             (let frame_len = DATA_FRAME_HEADER_BYTES + payload_len + padding_len
              in if length input < frame_len then Inr None
                 else
                   and_then (verify_deterministic_padding c sk (tcp_padding_domain dir)
                       [u64_be flow_id, u64_be seq]
                       (slice (DATA_FRAME_HEADER_BYTES + payload_len) frame_len input)) (\<lambda>_.
                   (let payload = slice DATA_FRAME_HEADER_BYTES (DATA_FRAME_HEADER_BYTES + payload_len) input
                    in case checked_add expected 1 of
                         None \<Rightarrow> Inl (invalid_data ''data frame sequence exhausted'')
                       | Some expected' \<Rightarrow>
                           Inr (Some (\<lparr>df_sequence = seq, df_payload = payload\<rparr>, frame_len,
                             expected', advance_cursor es cur))))))))"

subsection \<open>The frames are a stream codec\<close>

text \<open>
  The state of either end is the sequence number and the cursor; a message is a frame with the
  sequence number of the state.
\<close>

definition data_wire :: "crypto \<Rightarrow> bytes \<Rightarrow> padding_scheme \<Rightarrow> padding_direction \<Rightarrow> u64 \<Rightarrow> u64 \<times> nat \<Rightarrow> data_frame \<Rightarrow> bytes" where
  "data_wire c sk s dir fid = (\<lambda>(seq, cur) m.
     (let pad = scheme_entries s dir ! cur
      in data_frame_header seq (of_nat (length (df_payload m))) pad @ df_payload m @
         deterministic_padding c sk (tcp_padding_domain dir) [u64_be fid, u64_be seq] (unat pad)))"

definition data_next :: "padding_scheme \<Rightarrow> padding_direction \<Rightarrow> u64 \<times> nat \<Rightarrow> data_frame \<Rightarrow> u64 \<times> nat" where
  "data_next s dir = (\<lambda>(seq, cur) m. (seq + 1, advance_cursor (scheme_entries s dir) cur))"

definition data_ok :: "padding_scheme \<Rightarrow> padding_direction \<Rightarrow> u64 \<times> nat \<Rightarrow> data_frame \<Rightarrow> bool" where
  "data_ok s dir = (\<lambda>(seq, cur) m.
     cur < length (scheme_entries s dir) \<and> df_sequence m = seq \<and> checked_add seq 1 = Some (seq + 1) \<and>
     df_payload m \<noteq> [] \<and> length (df_payload m) \<le> MAX_DATA_PAYLOAD_BYTES)"

lemma length_data_frame_header [simp]: "length (data_frame_header seq a b) = DATA_FRAME_HEADER_BYTES"
  by (simp add: data_frame_header_def young_consts)

lemma data_header_fields:
  assumes "input = data_frame_header seq a b @ rest"
  shows "take 2 input = as_bytes ''YP''" "input ! 2 = VERSION" "input ! 3 = 0"
    "u64_from_be (slice 4 12 input) = seq" "u16_from_be (slice 12 14 input) = a"
    "u16_from_be (slice 14 16 input) = b"
proof -
  have i: "input = as_bytes ''YP'' @ [VERSION] @ [0] @ u64_be seq @ u16_be a @ u16_be b @ rest"
    using assms by (simp add: data_frame_header_def)
  have "length (as_bytes ''YP'') = 2" by simp
  from flow_header_fields [OF this i] show "take 2 input = as_bytes ''YP''" "input ! 2 = VERSION"
    "input ! 3 = 0" "u64_from_be (slice 4 12 input) = seq" by auto
  show "u16_from_be (slice 12 14 input) = a" "u16_from_be (slice 14 16 input) = b"
    unfolding i by (simp_all add: slice_simps del: append.simps)
qed

lemma decode_data_wire:
  assumes "data_ok s dir st m"
  shows "decode_data_frame c sk s dir fid st (data_wire c sk s dir fid st m @ rest) =
    Inr (Some (m, length (data_wire c sk s dir fid st m), data_next s dir st m))"
proof -
  obtain seq cur where st: "st = (seq, cur)" by (cases st)
  define pad where "pad = scheme_entries s dir ! cur"
  let ?p = "df_payload m" and ?H = DATA_FRAME_HEADER_BYTES
  let ?padding = "deterministic_padding c sk (tcp_padding_domain dir) [u64_be fid, u64_be seq] (unat pad)"
  define input where "input = data_wire c sk s dir fid st m @ rest"
  have i: "input = data_frame_header seq (of_nat (length ?p)) pad @ ?p @ ?padding @ rest"
    by (simp add: input_def data_wire_def st Let_def pad_def)
  have ok: "cur < length (scheme_entries s dir)" "df_sequence m = seq" "checked_add seq 1 = Some (seq + 1)"
    "?p \<noteq> []" "length ?p \<le> MAX_DATA_PAYLOAD_BYTES"
    using assms by (simp_all add: data_ok_def st)
  have un: "unat (of_nat (length ?p) :: u16) = length ?p"
    using ok(5) by (simp add: unat_of_nat young_consts)
  note h = data_header_fields [OF i]
  have sl: "slice ?H (?H + length ?p) input = ?p"
    "slice (?H + length ?p) (?H + length ?p + unat pad) input = ?padding"
    "\<not> length input < ?H + length ?p + unat pad" "\<not> length input < ?H"
    unfolding i by (simp_all add: slice_simps)
  have "decode_data_frame c sk s dir fid st input =
      Inr (Some (m, ?H + length ?p + unat pad, data_next s dir st m))"
    unfolding decode_data_frame_def st Let_def using ok un sl
    by (simp add: h pad_def [symmetric] data_next_def)
  then show ?thesis by (simp add: input_def data_wire_def st Let_def pad_def)
qed

lemma decode_data_short:
  assumes "data_ok s dir st m" "k < length (data_wire c sk s dir fid st m)"
  shows "decode_data_frame c sk s dir fid st (take k (data_wire c sk s dir fid st m)) = Inr None"
proof -
  obtain seq cur where st: "st = (seq, cur)" by (cases st)
  define pad where "pad = scheme_entries s dir ! cur"
  let ?p = "df_payload m" and ?H = DATA_FRAME_HEADER_BYTES
  define w where "w = data_wire c sk s dir fid st m"
  define tail where "tail = ?p @ deterministic_padding c sk (tcp_padding_domain dir)
    [u64_be fid, u64_be seq] (unat pad)"
  have w: "w = data_frame_header seq (of_nat (length ?p)) pad @ tail"
    by (simp add: w_def data_wire_def st Let_def pad_def tail_def)
  have len: "length (take k w) = k" using assms(2) by (simp add: w_def)
  show ?thesis
  proof (cases "k < ?H")
    case True
    then show ?thesis unfolding w_def [symmetric] by (simp add: decode_data_frame_def st min_less_iff_disj)
  next
    case False
    then have "take k w = data_frame_header seq (of_nat (length ?p)) pad @ take (k - ?H) tail"
      by (simp add: w)
    note h = data_header_fields [OF this]
    have ok: "cur < length (scheme_entries s dir)" "?p \<noteq> []" "length ?p \<le> MAX_DATA_PAYLOAD_BYTES"
      using assms by (simp_all add: data_ok_def st)
    have un: "unat (of_nat (length ?p) :: u16) = length ?p"
      using ok(3) by (simp add: unat_of_nat young_consts)
    have "k < ?H + length ?p + unat pad" using assms(2) by (simp add: w_def [symmetric] w tail_def)
    then have "decode_data_frame c sk s dir fid st (take k w) = Inr None"
      unfolding decode_data_frame_def st Let_def using ok un False
      by (simp add: h pad_def [symmetric] len del: length_take take_take)
    then show ?thesis by (simp add: w_def)
  qed
qed

interpretation data_codec: stream_codec
  "data_wire c sk s dir fid" "data_next s dir" "\<lambda>m. m" "data_ok s dir" "decode_data_frame c sk s dir fid"
  for c sk s dir fid
  by unfold_locales
    (auto simp: decode_data_wire decode_data_short, simp add: decode_data_frame_def young_consts split_beta)

subsection \<open>What the encoder puts on the stream\<close>

text \<open>The frames of a payload, as messages with consecutive sequence numbers.\<close>

fun number_frames :: "u64 \<Rightarrow> bytes list \<Rightarrow> data_frame list" where
  "number_frames seq [] = []"
| "number_frames seq (p # ps) = \<lparr>df_sequence = seq, df_payload = p\<rparr> # number_frames (seq + 1) ps"

lemma payloads_number_frames [simp]: "map df_payload (number_frames seq ps) = ps"
  by (induction ps arbitrary: seq) auto

lemma advance_cursor_less: "cur < length es \<Longrightarrow> advance_cursor es cur < length es"
  by (auto simp: advance_cursor_def)

lemma unat_table_entry: "(of_nat (unat (w :: u16)) :: u16) = w" "unat (w :: u16) < 65536"
  using unat_bound [of w] by simp_all

lemma encode_chunks_stream:
  assumes "cur < length (scheme_entries s dir)"
    "\<forall>p \<in> set ps. p \<noteq> [] \<and> length p \<le> MAX_DATA_PAYLOAD_BYTES"
    "encode_chunks c sk (scheme_entries s dir) dir fid seq cur ps = Inr (frames, seq', cur')"
  shows "concat frames = enc_all (data_wire c sk s dir fid) (data_next s dir) (seq, cur) (number_frames seq ps) \<and>
    ok_all (data_ok s dir) (data_next s dir) (seq, cur) (number_frames seq ps) \<and>
    (seq', cur') = fold_state (data_next s dir) (seq, cur) (number_frames seq ps) \<and>
    cur' < length (scheme_entries s dir)"
  using assms
proof (induction ps arbitrary: seq cur frames)
  case Nil
  then show ?case by simp
next
  case (Cons p ps)
  let ?es = "scheme_entries s dir"
  have bound: "length p < 65536" "unat (?es ! cur) < 65536"
    using Cons.prems(2) unat_table_entry by (auto simp: young_consts)
  have chk: "checked_add seq 1 = Some (seq + 1)"
    using Cons.prems(1,3) bound
    by (cases "checked_add seq 1") (auto simp: Let_def checked_add_def split: if_splits)
  obtain fs where fs: "encode_chunks c sk ?es dir fid (seq + 1) (advance_cursor ?es cur) ps = Inr (fs, seq', cur')"
    and frames: "frames = data_wire c sk s dir fid (seq, cur) \<lparr>df_sequence = seq, df_payload = p\<rparr> # fs"
    using Cons.prems(1,3) bound chk
    by (auto simp: Let_def and_then_Inr_iff data_wire_def unat_table_entry extend_deterministic_padding_eq)
  show ?case
    using Cons.IH [OF advance_cursor_less _ fs] Cons.prems(1,2) chk
    by (simp add: frames data_ok_def data_next_def)
qed

lemma encode_data_frames_stream:
  assumes "cur < length (scheme_entries s dir)"
    "encode_data_frames c sk s dir fid seq cur payload = Inr (frames, seq', cur')"
  shows "\<exists>ms. concat frames = enc_all (data_wire c sk s dir fid) (data_next s dir) (seq, cur) ms \<and>
    ok_all (data_ok s dir) (data_next s dir) (seq, cur) ms \<and>
    (seq', cur') = fold_state (data_next s dir) (seq, cur) ms \<and> cur' < length (scheme_entries s dir) \<and>
    concat (map df_payload ms) = payload"
proof (cases "payload = []")
  case True
  with assms show ?thesis by (intro exI [of _ "[]"]) (simp add: encode_data_frames_def)
next
  case False
  let ?ps = "chunks MAX_DATA_PAYLOAD_BYTES payload"
  have "\<forall>p \<in> set ?ps. p \<noteq> [] \<and> length p \<le> MAX_DATA_PAYLOAD_BYTES" using chunks_bounds by blast
  moreover have "concat ?ps = payload" by (rule concat_chunks) (simp add: young_consts)
  ultimately show ?thesis
    using encode_chunks_stream [OF assms(1), of ?ps c sk fid seq frames seq' cur'] assms(2) False
    by (intro exI [of _ "number_frames seq ?ps"]) (simp add: encode_data_frames_def)
qed

text \<open>A sender makes any number of writes; the wire carries the frames of all of them in order.\<close>

fun send_writes ::
  "crypto \<Rightarrow> bytes \<Rightarrow> padding_scheme \<Rightarrow> padding_direction \<Rightarrow> u64 \<Rightarrow> u64 \<times> nat \<Rightarrow> bytes list \<Rightarrow> io_error + bytes" where
  "send_writes c sk s dir fid st [] = Inr []"
| "send_writes c sk s dir fid st (payload # rest) =
     and_then (encode_data_frames c sk s dir fid (fst st) (snd st) payload) (\<lambda>(frames, st').
     and_then (send_writes c sk s dir fid st' rest) (\<lambda>wire. Inr (concat frames @ wire)))"

lemma send_writes_stream:
  assumes "snd st < length (scheme_entries s dir)" "send_writes c sk s dir fid st payloads = Inr wire"
  shows "\<exists>ms. wire = enc_all (data_wire c sk s dir fid) (data_next s dir) st ms \<and>
    ok_all (data_ok s dir) (data_next s dir) st ms \<and> concat (map df_payload ms) = concat payloads"
  using assms
proof (induction payloads arbitrary: st wire)
  case Nil
  then show ?case by (intro exI [of _ "[]"]) simp
next
  case (Cons p ps)
  obtain frames seq' cur' w where e: "encode_data_frames c sk s dir fid (fst st) (snd st) p = Inr (frames, seq', cur')"
    and w: "send_writes c sk s dir fid (seq', cur') ps = Inr w" "wire = concat frames @ w"
    using Cons.prems(2) by (auto simp: and_then_Inr_iff)
  obtain ms where ms: "concat frames = enc_all (data_wire c sk s dir fid) (data_next s dir) st ms"
    "ok_all (data_ok s dir) (data_next s dir) st ms" "(seq', cur') = fold_state (data_next s dir) st ms"
    "cur' < length (scheme_entries s dir)" "concat (map df_payload ms) = p"
    using encode_data_frames_stream [OF Cons.prems(1) e] by auto
  obtain ms' where "w = enc_all (data_wire c sk s dir fid) (data_next s dir) (seq', cur') ms'"
    "ok_all (data_ok s dir) (data_next s dir) (seq', cur') ms'" "concat (map df_payload ms') = concat ps"
    using Cons.IH [of "(seq', cur')" w] ms(4) w(1) by auto
  then show ?case using ms w(2) by (intro exI [of _ "ms @ ms'"]) simp
qed

text \<open>Both ends of a flow derive the same first cursor from the flow id, inside the table.\<close>

lemma padding_cursor_less: "scheme_wf s \<Longrightarrow> padding_cursor_for_flow s dir fid < length (scheme_entries s dir)"
  using scheme_entries_ok [of s dir] by (simp add: padding_cursor_for_flow_def Let_def entries_ok_def)

subsection \<open>Delivery to the application\<close>

record channel =
  ch_queue :: "bytes list"
  ch_capacity :: nat
  ch_closed :: bool

definition try_send :: "channel \<Rightarrow> bytes \<Rightarrow> channel option" where
  "try_send ch x =
     (if ch_closed ch \<or> ch_capacity ch \<le> length (ch_queue ch) then None
      else Some (ch\<lparr>ch_queue := ch_queue ch @ [x]\<rparr>))"

lemma decode_data_frame_progress:
  assumes "decode_data_frame c sk s dir fid st buf = Inr (Some (m, k, st'))"
  shows "0 < k \<and> k \<le> length buf"
  using assms
  by (cases st) (auto simp: decode_data_frame_def Let_def and_then_Inr_iff young_consts
      split: if_splits option.splits)

text \<open>
  The loop shared by the two receive functions: decode, drop the bytes used, hand the payload to
  the channel; \<open>Inr True\<close> asks the caller to reset the stream. The new sequence, cursor,
  buffer and channel are returned in every case.
\<close>

record rx_state =
  rx_buffer :: bytes
  rx_pos :: "u64 \<times> nat"
  rx_channel :: channel

function deliver_loop ::
  "crypto \<Rightarrow> bytes \<Rightarrow> padding_scheme \<Rightarrow> padding_direction \<Rightarrow> u64 \<Rightarrow> rx_state \<Rightarrow> (io_error + bool) \<times> rx_state" where
  "deliver_loop c sk s dir fid rx =
    (case decode_data_frame c sk s dir fid (rx_pos rx) (rx_buffer rx) of
       Inl e \<Rightarrow> (Inl e, rx)
     | Inr None \<Rightarrow> (Inr False, rx)
     | Inr (Some (frame, consumed, pos')) \<Rightarrow>
         (let rx' = rx\<lparr>rx_pos := pos', rx_buffer := drop consumed (rx_buffer rx)\<rparr>
          in case try_send (rx_channel rx') (df_payload frame) of
               None \<Rightarrow> (Inr True, rx')
             | Some ch' \<Rightarrow> deliver_loop c sk s dir fid (rx'\<lparr>rx_channel := ch'\<rparr>)))"
  by pat_completeness auto
termination
  by (relation "measure (\<lambda>(c, sk, s, dir, fid, rx). length (rx_buffer rx))")
    (auto dest: decode_data_frame_progress)

declare deliver_loop.simps [simp del]

lemma deliver_loop_stream:
  assumes "ok_all (data_ok s dir) (data_next s dir) (rx_pos rx) ms"
    "prefix (rx_buffer rx) (enc_all (data_wire c sk s dir fid) (data_next s dir) (rx_pos rx) ms)"
  obtains ms1 ms2 b rx' where "ms = ms1 @ ms2" "deliver_loop c sk s dir fid rx = (Inr b, rx')"
    "ch_queue (rx_channel rx') = ch_queue (rx_channel rx) @ map df_payload ms1"
    "\<not> b \<longrightarrow> rx_pos rx' = fold_state (data_next s dir) (rx_pos rx) ms1 \<and>
       rx_buffer rx = enc_all (data_wire c sk s dir fid) (data_next s dir) (rx_pos rx) ms1 @ rx_buffer rx' \<and>
       (rx_buffer rx' = enc_all (data_wire c sk s dir fid) (data_next s dir) (rx_pos rx') ms2 \<longrightarrow> ms2 = [])"
  using assms
proof (induction ms arbitrary: rx thesis)
  case Nil
  then have "rx_buffer rx = []" by simp
  then have "deliver_loop c sk s dir fid rx = (Inr False, rx)"
    by (subst deliver_loop.simps) (simp add: data_codec.dec_empty)
  then show ?case by (intro Nil.prems(1) [of "[]" "[]" False rx]) simp_all
next
  case (Cons m ms)
  let ?enc = "data_wire c sk s dir fid (rx_pos rx) m"
  have ok: "data_ok s dir (rx_pos rx) m" using Cons.prems(2) by simp
  show ?case
  proof (cases "length (rx_buffer rx) < length ?enc")
    case True
    then have "rx_buffer rx = take (length (rx_buffer rx)) ?enc"
      using Cons.prems(3) by (simp add: prefix_shorter)
    with data_codec.dec_short [OF ok True]
    have "decode_data_frame c sk s dir fid (rx_pos rx) (rx_buffer rx) = Inr None" by metis
    then have "deliver_loop c sk s dir fid rx = (Inr False, rx)"
      by (subst deliver_loop.simps) simp
    moreover have "rx_buffer rx \<noteq> ?enc @ r" for r using True by auto
    ultimately show ?thesis using Cons.prems(1) [of "[]" "m # ms" False rx] by auto
  next
    case False
    then obtain r where r: "rx_buffer rx = ?enc @ r"
      "prefix r (enc_all (data_wire c sk s dir fid) (data_next s dir) (data_next s dir (rx_pos rx) m) ms)"
      using Cons.prems(3) prefix_longer [of "rx_buffer rx" ?enc] by auto
    define rx1 where "rx1 = rx\<lparr>rx_pos := data_next s dir (rx_pos rx) m, rx_buffer := r\<rparr>"
    have step: "deliver_loop c sk s dir fid rx = (case try_send (rx_channel rx) (df_payload m) of
        None \<Rightarrow> (Inr True, rx1) | Some ch \<Rightarrow> deliver_loop c sk s dir fid (rx1\<lparr>rx_channel := ch\<rparr>))"
      by (subst deliver_loop.simps) (auto simp: r(1) data_codec.dec_enc [OF ok] rx1_def Let_def split: option.split)
    show ?thesis
    proof (cases "try_send (rx_channel rx) (df_payload m)")
      case None
      then show ?thesis using Cons.prems(1) [of "[]" "m # ms" True rx1] step by (simp add: rx1_def)
    next
      case (Some ch)
      define rx2 where "rx2 = rx1\<lparr>rx_channel := ch\<rparr>"
      have q: "ch_queue ch = ch_queue (rx_channel rx) @ [df_payload m]"
        using Some by (auto simp: try_send_def split: if_splits)
      have pre: "ok_all (data_ok s dir) (data_next s dir) (rx_pos rx2) ms"
        "prefix (rx_buffer rx2) (enc_all (data_wire c sk s dir fid) (data_next s dir) (rx_pos rx2) ms)"
        using Cons.prems(2) r(2) by (simp_all add: rx2_def rx1_def)
      obtain ms1 ms2 b rx' where ih: "ms = ms1 @ ms2" "deliver_loop c sk s dir fid rx2 = (Inr b, rx')"
        "ch_queue (rx_channel rx') = ch_queue (rx_channel rx2) @ map df_payload ms1"
        "\<not> b \<longrightarrow> rx_pos rx' = fold_state (data_next s dir) (rx_pos rx2) ms1 \<and>
          rx_buffer rx2 = enc_all (data_wire c sk s dir fid) (data_next s dir) (rx_pos rx2) ms1 @ rx_buffer rx' \<and>
          (rx_buffer rx' = enc_all (data_wire c sk s dir fid) (data_next s dir) (rx_pos rx') ms2 \<longrightarrow> ms2 = [])"
        using Cons.IH [OF _ pre] by metis
      then show ?thesis
        using Cons.prems(1) [of "m # ms1" ms2 b rx'] step Some q r(1) by (simp add: rx2_def rx1_def)
    qed
  qed
qed

subsection \<open>A receiver under any interleaving\<close>

text \<open>
  Bytes arrive in pieces of any size; the application takes any number of payloads whenever it
  likes, or goes away. After a reset or an error the stream is gone and later bytes are dropped.
\<close>

datatype rx_event = Arrive bytes | Consume nat | CloseRx

datatype rx_status = Running | Reset | Failed io_error

record rx_run =
  run_rx :: rx_state
  run_taken :: "bytes list"
  run_status :: rx_status

fun rx_step :: "crypto \<Rightarrow> bytes \<Rightarrow> padding_scheme \<Rightarrow> padding_direction \<Rightarrow> u64 \<Rightarrow> rx_run \<Rightarrow> rx_event \<Rightarrow> rx_run" where
  "rx_step c sk s dir fid r (Arrive d) =
    (if run_status r \<noteq> Running then r
     else case deliver_loop c sk s dir fid ((run_rx r)\<lparr>rx_buffer := rx_buffer (run_rx r) @ d\<rparr>) of
            (Inl e, rx') \<Rightarrow> r\<lparr>run_rx := rx', run_status := Failed e\<rparr>
          | (Inr b, rx') \<Rightarrow> r\<lparr>run_rx := rx', run_status := (if b then Reset else Running)\<rparr>)"
| "rx_step c sk s dir fid r (Consume n) =
    (let q = ch_queue (rx_channel (run_rx r))
     in r\<lparr>run_taken := run_taken r @ take n q,
          run_rx := (run_rx r)\<lparr>rx_channel := (rx_channel (run_rx r))\<lparr>ch_queue := drop n q\<rparr>\<rparr>\<rparr>)"
| "rx_step c sk s dir fid r CloseRx =
    r\<lparr>run_rx := (run_rx r)\<lparr>rx_channel := (rx_channel (run_rx r))\<lparr>ch_closed := True\<rparr>\<rparr>\<rparr>"

fun arrivals :: "rx_event list \<Rightarrow> bytes" where
  "arrivals [] = []"
| "arrivals (Arrive d # es) = d @ arrivals es"
| "arrivals (Consume n # es) = arrivals es"
| "arrivals (CloseRx # es) = arrivals es"

definition rx_delivered :: "rx_run \<Rightarrow> bytes list" where
  "rx_delivered r = run_taken r @ ch_queue (rx_channel (run_rx r))"

definition rx_init :: "padding_scheme \<Rightarrow> padding_direction \<Rightarrow> u64 \<Rightarrow> nat \<Rightarrow> rx_run" where
  "rx_init s dir fid capacity =
     \<lparr>run_rx = \<lparr>rx_buffer = [], rx_pos = (0, padding_cursor_for_flow s dir fid),
         rx_channel = \<lparr>ch_queue = [], ch_capacity = capacity, ch_closed = False\<rparr>\<rparr>,
      run_taken = [], run_status = Running\<rparr>"

text \<open>
  The invariant: the messages split into those delivered and those to come; while the stream
  runs, the buffer and the bytes still to arrive (\<open>future\<close>) are the encoding of the latter.
\<close>

definition rx_inv ::
  "crypto \<Rightarrow> bytes \<Rightarrow> padding_scheme \<Rightarrow> padding_direction \<Rightarrow> u64 \<Rightarrow> data_frame list \<Rightarrow> bytes \<Rightarrow> rx_run \<Rightarrow> bool" where
  "rx_inv c sk s dir fid ms future r \<longleftrightarrow> (\<exists>sent todo. ms = sent @ todo \<and>
     rx_delivered r = map df_payload sent \<and> (\<forall>e. run_status r \<noteq> Failed e) \<and>
     (run_status r = Running \<longrightarrow>
        ok_all (data_ok s dir) (data_next s dir) (rx_pos (run_rx r)) todo \<and>
        rx_buffer (run_rx r) @ future =
          enc_all (data_wire c sk s dir fid) (data_next s dir) (rx_pos (run_rx r)) todo \<and>
        (rx_buffer (run_rx r) = enc_all (data_wire c sk s dir fid) (data_next s dir) (rx_pos (run_rx r)) todo \<longrightarrow>
           todo = [])))"

lemma rx_delivered_step_Consume [simp]: "rx_delivered (rx_step c sk s dir fid r (Consume n)) = rx_delivered r"
  by (simp add: rx_delivered_def Let_def)

lemma rx_inv_arrive:
  assumes "rx_inv c sk s dir fid ms (d @ future) r"
  shows "rx_inv c sk s dir fid ms future (rx_step c sk s dir fid r (Arrive d))"
proof (cases "run_status r = Running")
  case False
  with assms show ?thesis by (auto simp: rx_inv_def)
next
  case True
  define rx where "rx = (run_rx r)\<lparr>rx_buffer := rx_buffer (run_rx r) @ d\<rparr>"
  let ?enc = "enc_all (data_wire c sk s dir fid) (data_next s dir)"
  obtain sent todo where inv: "ms = sent @ todo" "rx_delivered r = map df_payload sent"
    "ok_all (data_ok s dir) (data_next s dir) (rx_pos rx) todo"
    "rx_buffer rx @ future = ?enc (rx_pos rx) todo"
    using assms True by (auto simp: rx_inv_def rx_def)
  from inv(4) have "prefix (rx_buffer rx) (?enc (rx_pos rx) todo)" by (metis prefixI)
  with inv(3) obtain ms1 ms2 b rx' where d: "todo = ms1 @ ms2" "deliver_loop c sk s dir fid rx = (Inr b, rx')"
    "ch_queue (rx_channel rx') = ch_queue (rx_channel rx) @ map df_payload ms1"
    "\<not> b \<longrightarrow> rx_pos rx' = fold_state (data_next s dir) (rx_pos rx) ms1 \<and>
       rx_buffer rx = ?enc (rx_pos rx) ms1 @ rx_buffer rx' \<and>
       (rx_buffer rx' = ?enc (rx_pos rx') ms2 \<longrightarrow> ms2 = [])"
    by (rule deliver_loop_stream)
  have step: "rx_step c sk s dir fid r (Arrive d) =
      r\<lparr>run_rx := rx', run_status := (if b then Reset else Running)\<rparr>"
    using True d(2) by (simp add: rx_def)
  have "rx_buffer rx' @ future = ?enc (rx_pos rx') ms2" if "\<not> b"
    using inv(4) d(1,4) that by simp
  then show ?thesis
    unfolding rx_inv_def step
    using inv d by (intro exI [of _ "sent @ ms1"] exI [of _ ms2]) (auto simp: rx_delivered_def rx_def)
qed

lemma rx_inv_run:
  assumes "rx_inv c sk s dir fid ms (arrivals evs @ future) r"
  shows "rx_inv c sk s dir fid ms future (foldl (rx_step c sk s dir fid) r evs)"
  using assms
proof (induction evs arbitrary: r)
  case Nil
  then show ?case by simp
next
  case (Cons ev evs)
  have "rx_inv c sk s dir fid ms (arrivals evs @ future) (rx_step c sk s dir fid r ev)"
    using Cons.prems
  proof (cases ev)
    case (Arrive d)
    then show ?thesis using Cons.prems rx_inv_arrive by simp
  qed (auto simp: rx_inv_def rx_delivered_def Let_def)
  then show ?case using Cons.IH by simp
qed

lemma encode_data_frames_result:
  assumes "cur < length (scheme_entries s dir)"
  shows "case encode_data_frames c sk s dir fid seq cur payload of
      Inr (frames, seq', cur') \<Rightarrow>
        length frames = (length payload + MAX_DATA_PAYLOAD_BYTES - 1) div MAX_DATA_PAYLOAD_BYTES \<and>
        unat seq' = unat seq + length frames \<and> cur' < length (scheme_entries s dir)
    | Inl e \<Rightarrow> e = invalid_input ''data frame sequence exhausted'' \<and>
        2 ^ 64 \<le> unat seq + (length payload + MAX_DATA_PAYLOAD_BYTES - 1) div MAX_DATA_PAYLOAD_BYTES"
proof -
  let ?es = "scheme_entries s dir"
  have loop: "case encode_chunks c sk ?es dir fid seq cur ps of
      Inr (frames, seq', cur') \<Rightarrow> length frames = length ps \<and> unat seq' = unat seq + length ps \<and> cur' < length ?es
    | Inl e \<Rightarrow> e = invalid_input ''data frame sequence exhausted'' \<and> 2 ^ 64 \<le> unat seq + length ps"
    if "cur < length ?es" "\<forall>p \<in> set ps. length p < 65536" for ps seq cur
    using that
  proof (induction ps arbitrary: seq cur)
    case (Cons p ps)
    have b: "unat (?es ! cur) < 65536" using unat_table_entry by simp
    show ?case
    proof (cases "checked_add seq 1")
      case None
      then have "2 ^ 64 \<le> unat seq + 1" by (simp add: checked_add_None_iff)
      with Cons.prems b None show ?thesis by (simp add: Let_def)
    next
      case (Some seq')
      with Cons.IH [OF advance_cursor_less [OF Cons.prems(1)], of seq'] Cons.prems b checked_add_Some [OF Some]
      show ?thesis by (auto simp: Let_def split: sum.splits prod.splits)
    qed
  qed simp
  have "\<forall>p \<in> set (chunks MAX_DATA_PAYLOAD_BYTES payload). length p < 65536"
    using chunks_bounds by (fastforce simp: young_consts)
  from loop [OF assms this, of seq] show ?thesis
    using assms length_chunks [of MAX_DATA_PAYLOAD_BYTES payload]
    by (auto simp: encode_data_frames_def young_consts split: sum.splits prod.splits)
qed

lemma send_writes_total:
  assumes "snd st < length (scheme_entries s dir)"
    "unat (fst st) + sum_list (map (\<lambda>p. (length p + MAX_DATA_PAYLOAD_BYTES - 1) div MAX_DATA_PAYLOAD_BYTES) payloads) < 2 ^ 64"
  shows "\<exists>w. send_writes c sk s dir fid st payloads = Inr w"
  using assms
proof (induction payloads arbitrary: st)
  case (Cons p ps)
  from encode_data_frames_result [OF Cons.prems(1), where c = c and sk = sk and fid = fid and
      seq = "fst st" and payload = p] Cons.prems(2)
  obtain frames seq' cur' where e: "encode_data_frames c sk s dir fid (fst st) (snd st) p = Inr (frames, seq', cur')"
    "unat seq' = unat (fst st) + (length p + MAX_DATA_PAYLOAD_BYTES - 1) div MAX_DATA_PAYLOAD_BYTES"
    "cur' < length (scheme_entries s dir)"
    by (auto split: sum.splits)
  then show ?case using Cons.IH [of "(seq', cur')"] Cons.prems(2) by auto
qed simp

subsection \<open>Properties\<close>


text \<open>A concrete flow: two writes, cut in the middle of a header and of the padding.\<close>

definition sample_wire :: bytes where
  "sample_wire = (case send_writes sample_crypto [1] sample_scheme ClientToServer 5
     (0, padding_cursor_for_flow sample_scheme ClientToServer 5) [[10, 11], [12]] of Inr w \<Rightarrow> w | Inl _ \<Rightarrow> [])"

lemma sample_writes_ok:
  "send_writes sample_crypto [1] sample_scheme ClientToServer 5
     (0, padding_cursor_for_flow sample_scheme ClientToServer 5) [[10, 11], [12]] = Inr sample_wire"
proof -
  have "\<exists>w. send_writes sample_crypto [1] sample_scheme ClientToServer 5
     (0, padding_cursor_for_flow sample_scheme ClientToServer 5) [[10, 11], [12]] = Inr w"
    using padding_cursor_less [OF sample_scheme_wf, of ClientToServer 5]
    by (intro send_writes_total) (simp_all add: young_consts)
  then show ?thesis by (auto simp: sample_wire_def simp del: send_writes.simps)
qed


text \<open>
  C10: The encoder refuses nothing but the end of the sequence space: with a cursor inside the table
  it never panics, it fails exactly when the 64-bit sequence number would overflow, and on success
  it makes one frame per 32 KiB of payload and advances the sequence number by their count.
\<close>

theorem encode_data_frames_total:
  assumes "cur < length (scheme_entries s dir)"
  shows "case encode_data_frames c sk s dir fid seq cur payload of
      Inr (frames, seq', cur') \<Rightarrow>
        length frames = (length payload + MAX_DATA_PAYLOAD_BYTES - 1) div MAX_DATA_PAYLOAD_BYTES \<and>
        unat seq' = unat seq + length frames \<and> cur' < length (scheme_entries s dir)
    | Inl e \<Rightarrow> e = invalid_input ''data frame sequence exhausted'' \<and>
        2 ^ 64 \<le> unat seq + (length payload + MAX_DATA_PAYLOAD_BYTES - 1) div MAX_DATA_PAYLOAD_BYTES"
  using assms by (rule encode_data_frames_result)

theorem encode_data_frames_total_witness:
  "case encode_data_frames sample_crypto [1] sample_scheme ClientToServer 5 7 1 [1, 2, 3] of
     Inr (frames, seq', cur') \<Rightarrow> unat seq' = 7 + length frames | Inl e \<Rightarrow> False"
  using encode_data_frames_total [where cur = 1 and s = sample_scheme and dir = ClientToServer and
      c = sample_crypto and sk = "[1]" and fid = 5 and seq = 7 and payload = "[1, 2, 3]"]
  by (auto simp: sample_scheme_def young_consts split: sum.splits prod.splits)

end
