(* ===== verification/Young_Udp.thy ===== *)
theory Young_Udp
  imports Young_Flow
begin

text \<open>
  UDP over the Young protocol (\<open>core-young/src/codec.rs\<close>): a packet is cut into datagrams that fit
  the transport, each authenticated on its own, with optional padding (version 2), and put together
  again by \<open>UdpReassembler\<close>, which tolerates reordering, duplicates, loss and interleaved packets.

  An \<open>Instant\<close> is a \<open>nat\<close> of nanoseconds; \<open>duration_since\<close> saturates at zero, as subtraction on
  \<open>nat\<close> does. \<open>push\<close> returns its result together with the reassembler it leaves behind.
\<close>

record udp_fragment =
  uf_association_id :: u64
  uf_packet_id :: u32
  uf_index :: u16
  uf_count :: u16
  uf_total_len :: u16
  uf_padding_len :: u16
  uf_payload :: bytes

definition udp_padding_index :: "u64 \<Rightarrow> u32 \<Rightarrow> u16 \<Rightarrow> u64" where
  "udp_padding_index association_id packet_id fragment_index =
     association_id + ucast packet_id + ucast fragment_index"

definition div_ceil :: "nat \<Rightarrow> nat \<Rightarrow> nat" where
  "div_ceil a b = (a + b - 1) div b"

definition udp_header :: "byte \<Rightarrow> u64 \<Rightarrow> u32 \<Rightarrow> u16 \<Rightarrow> u16 \<Rightarrow> u16 \<Rightarrow> bytes" where
  "udp_header flag association_id packet_id index count total_len =
     as_bytes ''YD'' @ [VERSION] @ [flag] @ u64_be association_id @ u32_be packet_id @
     u16_be index @ u16_be count @ u16_be total_len"

definition encode_udp_fragments ::
  "crypto \<Rightarrow> bytes \<Rightarrow> u64 \<Rightarrow> u32 \<Rightarrow> bytes \<Rightarrow> nat \<Rightarrow> io_error + bytes list" where
  "encode_udp_fragments c sk association_id packet_id payload max_datagram_size =
    (if payload = [] \<or> MAX_UDP_PAYLOAD_BYTES < length payload
     then Inl (invalid_input ''UDP payload length'')
     else
       (let overhead = UDP_HEADER_BYTES + UDP_TAG_BYTES
        in if max_datagram_size \<le> overhead then Inl (invalid_input ''datagram limit below header'')
           else
             (let chunk_size = max_datagram_size - overhead;
                  count = div_ceil (length payload) chunk_size
              in if MAX_UDP_FRAGMENTS < count then Inl (invalid_input ''UDP fragment count over the limit'')
                 else if 65536 \<le> count then Inl (invalid_input ''UDP fragment count over u16'')
                 else if 65536 \<le> length payload then Inl (invalid_input ''UDP payload over u16'')
                 else collect_results (map (\<lambda>(index, chunk).
                        if 65536 \<le> index then Inl (invalid_input ''UDP fragment index too big'')
                        else
                          (let frame = udp_header 0 association_id packet_id (of_nat index) (of_nat count)
                                 (of_nat (length payload)) @ chunk;
                               tag = hmac_tag c sk [as_bytes ''young/udp-fragment/v1'', frame]
                           in Inr (frame @ take UDP_TAG_BYTES tag)))
                      (enumerate 0 (chunks chunk_size payload))))))"

text \<open>The loop that plans the padded fragments: offset, payload length and padding length of each.\<close>

function udp_plan ::
  "padding_scheme \<Rightarrow> padding_direction \<Rightarrow> u64 \<Rightarrow> u32 \<Rightarrow> nat \<Rightarrow> nat \<Rightarrow> nat \<Rightarrow> nat \<Rightarrow> io_error + (nat \<times> nat \<times> nat) list" where
  "udp_plan s dir aid pid budget total_bytes fragment_index offset =
    (if total_bytes \<le> offset then Inr []
     else if MAX_UDP_FRAGMENTS \<le> fragment_index then Inl (invalid_input ''UDP fragment count over the limit'')
     else
       (let requested = unat (padding_for s dir (udp_padding_index aid pid (of_nat fragment_index)));
            padding_len = min requested (budget - 1);
            payload_len = min (budget - padding_len) (total_bytes - offset)
        in if payload_len = 0 then Inl (invalid_input ''padded UDP fragment has no room for payload'')
           else and_then (udp_plan s dir aid pid budget total_bytes (fragment_index + 1) (offset + payload_len))
                  (\<lambda>parts. Inr ((offset, payload_len, padding_len) # parts))))"
  by pat_completeness auto
termination
  by (relation "measure (\<lambda>(s, dir, aid, pid, budget, total_bytes, i, offset). total_bytes - offset)") auto

declare udp_plan.simps [simp del]

text \<open>The closure that builds one datagram from its entry of the plan.\<close>

definition encode_padded_part ::
  "crypto \<Rightarrow> bytes \<Rightarrow> padding_direction \<Rightarrow> u64 \<Rightarrow> u32 \<Rightarrow> bytes \<Rightarrow> nat \<Rightarrow> nat \<times> nat \<times> nat \<times> nat \<Rightarrow> io_error + bytes" where
  "encode_padded_part c sk dir aid pid payload count = (\<lambda>(index, offset, payload_len, padding_len).
     if 65536 \<le> index then Inl (invalid_input ''UDP fragment index too big'')
     else if 65536 \<le> payload_len then Inl (invalid_input ''UDP fragment payload over u16'')
     else if 65536 \<le> padding_len then Inl (invalid_input ''UDP fragment padding over u16'')
     else
       (let frame = extend_deterministic_padding c sk (udp_padding_domain dir)
              [u64_be aid, u32_be pid, u16_be (of_nat index)]
              (udp_header 1 aid pid (of_nat index) (of_nat count) (of_nat (length payload)) @
               u16_be (of_nat payload_len) @ u16_be (of_nat padding_len) @
               slice offset (offset + payload_len) payload) padding_len;
            tag = hmac_tag c sk [udp_hmac_domain dir, frame]
        in Inr (frame @ take UDP_TAG_BYTES tag)))"

definition encode_udp_fragments_padded ::
  "crypto \<Rightarrow> bytes \<Rightarrow> padding_scheme \<Rightarrow> padding_direction \<Rightarrow> u64 \<Rightarrow> u32 \<Rightarrow> bytes \<Rightarrow> nat \<Rightarrow> io_error + bytes list" where
  "encode_udp_fragments_padded c sk s dir aid pid payload max_datagram_size =
    (if payload = [] \<or> MAX_UDP_PAYLOAD_BYTES < length payload
     then Inl (invalid_input ''UDP payload length'')
     else
       (let overhead = PADDED_UDP_HEADER_BYTES + UDP_TAG_BYTES
        in if max_datagram_size < overhead + 2 then Inl (invalid_input ''datagram limit below padded header'')
           else
             and_then (udp_plan s dir aid pid (max_datagram_size - overhead) (length payload) 0 0) (\<lambda>parts.
             if 65536 \<le> length parts then Inl (invalid_input ''UDP fragment count over u16'')
             else if 65536 \<le> length payload then Inl (invalid_input ''UDP payload over u16'')
             else collect_results (map (encode_padded_part c sk dir aid pid payload (length parts))
                    (enumerate 0 parts)))))"

definition decode_udp_fragment :: "crypto \<Rightarrow> bytes \<Rightarrow> bytes \<Rightarrow> io_error + udp_fragment" where
  "decode_udp_fragment c sk input =
    (if length input < UDP_HEADER_BYTES + UDP_TAG_BYTES \<or> take 2 input \<noteq> as_bytes ''YD'' \<or>
        input ! 2 \<noteq> VERSION \<or> input ! 3 \<noteq> 0
     then Inl (invalid_data ''UDP fragment header'')
     else
       (let authenticated_len = length input - UDP_TAG_BYTES
        in and_then (verify_hmac_truncated c sk
             [as_bytes ''young/udp-fragment/v1'', take authenticated_len input] (drop authenticated_len input)) (\<lambda>_.
           (let association_id = u64_from_be (slice 4 12 input);
                packet_id = u32_from_be (slice 12 16 input);
                index = u16_from_be (slice 16 18 input);
                count = u16_from_be (slice 18 20 input);
                total_len = u16_from_be (slice 20 22 input);
                payload_len = authenticated_len - UDP_HEADER_BYTES
            in if count = 0 \<or> MAX_UDP_FRAGMENTS < unat count \<or> total_len < count \<or> count \<le> index \<or>
                  total_len = 0 \<or> MAX_UDP_PAYLOAD_BYTES < unat total_len \<or> payload_len = 0 \<or>
                  unat total_len < payload_len
               then Inl (invalid_data ''UDP fragment metadata'')
               else Inr \<lparr>uf_association_id = association_id, uf_packet_id = packet_id, uf_index = index,
                      uf_count = count, uf_total_len = total_len, uf_padding_len = 0,
                      uf_payload = slice UDP_HEADER_BYTES authenticated_len input\<rparr>))))"

definition decode_udp_fragment_padded ::
  "crypto \<Rightarrow> bytes \<Rightarrow> padding_scheme \<Rightarrow> padding_direction \<Rightarrow> bytes \<Rightarrow> io_error + udp_fragment" where
  "decode_udp_fragment_padded c sk s dir input =
    (if length input < PADDED_UDP_HEADER_BYTES + UDP_TAG_BYTES \<or> take 2 input \<noteq> as_bytes ''YD'' \<or>
        input ! 2 \<noteq> VERSION \<or> input ! 3 \<noteq> 1
     then Inl (invalid_data ''padded UDP fragment header'')
     else
       (let authenticated_len = length input - UDP_TAG_BYTES
        in and_then (verify_hmac_truncated c sk
             [udp_hmac_domain dir, take authenticated_len input] (drop authenticated_len input)) (\<lambda>_.
           (let association_id = u64_from_be (slice 4 12 input);
                packet_id = u32_from_be (slice 12 16 input);
                index = u16_from_be (slice 16 18 input);
                count = u16_from_be (slice 18 20 input);
                total_len = u16_from_be (slice 20 22 input);
                payload_len = unat (u16_from_be (slice 22 24 input));
                padding_len = u16_from_be (slice 24 26 input);
                expected_len = PADDED_UDP_HEADER_BYTES + payload_len + unat padding_len + UDP_TAG_BYTES;
                requested_padding = padding_for s dir (udp_padding_index association_id packet_id index)
            in if count = 0 \<or> MAX_UDP_FRAGMENTS < unat count \<or> total_len < count \<or> count \<le> index \<or>
                  total_len = 0 \<or> MAX_UDP_PAYLOAD_BYTES < unat total_len \<or> payload_len = 0 \<or>
                  unat total_len < payload_len \<or> padding_len = 0 \<or> requested_padding < padding_len \<or>
                  length input \<noteq> expected_len
               then Inl (invalid_data ''padded UDP fragment metadata'')
               else
                 and_then (verify_deterministic_padding c sk (udp_padding_domain dir)
                     [u64_be association_id, u32_be packet_id, u16_be index]
                     (slice (PADDED_UDP_HEADER_BYTES + payload_len)
                        (PADDED_UDP_HEADER_BYTES + payload_len + unat padding_len) input)) (\<lambda>_.
                 Inr \<lparr>uf_association_id = association_id, uf_packet_id = packet_id, uf_index = index,
                      uf_count = count, uf_total_len = total_len, uf_padding_len = padding_len,
                      uf_payload = slice PADDED_UDP_HEADER_BYTES (PADDED_UDP_HEADER_BYTES + payload_len) input\<rparr>)))))"

subsection \<open>The reassembler\<close>

record partial_packet =
  pp_created :: nat
  pp_total_len :: nat
  pp_fragments :: "bytes option list"
  pp_received_len :: nat

record udp_reassembler =
  ur_entries :: "((u64 \<times> u32) \<times> partial_packet) list"
  ur_max_packets :: nat
  ur_timeout :: nat

definition reassembler_default :: udp_reassembler where
  "reassembler_default = \<lparr>ur_entries = [], ur_max_packets = 256, ur_timeout = 10 * 10 ^ 9\<rparr>"

definition store_fragment :: "partial_packet \<Rightarrow> nat \<Rightarrow> bytes \<Rightarrow> partial_packet" where
  "store_fragment p i payload =
     (if pp_fragments p ! i = None
      then p\<lparr>pp_received_len := pp_received_len p + length payload,
             pp_fragments := (pp_fragments p)[i := Some payload]\<rparr>
      else p)"

definition make_room :: "udp_reassembler \<Rightarrow> (u64 \<times> u32) \<Rightarrow> nat \<Rightarrow> ((u64 \<times> u32) \<times> partial_packet) list" where
  "make_room r key now =
    (let kept = amap_retain (\<lambda>_ packet. now - pp_created packet \<le> ur_timeout r) (ur_entries r)
     in if ur_max_packets r \<le> length kept \<and> \<not> amap_contains key kept
        then (case min_by_key pp_created kept of Some oldest \<Rightarrow> amap_remove oldest kept | None \<Rightarrow> kept)
        else kept)"

definition push :: "udp_reassembler \<Rightarrow> udp_fragment \<Rightarrow> nat \<Rightarrow> (io_error + bytes option) \<times> udp_reassembler" where
  "push r fragment now =
    (let key = (uf_association_id fragment, uf_packet_id fragment);
         room = make_room r key now;
         packet = (case map_of room key of
             Some p \<Rightarrow> p
           | None \<Rightarrow> \<lparr>pp_created = now, pp_total_len = unat (uf_total_len fragment),
               pp_fragments = replicate (unat (uf_count fragment)) None, pp_received_len = 0\<rparr>)
     in if pp_total_len packet \<noteq> unat (uf_total_len fragment) \<or>
           length (pp_fragments packet) \<noteq> unat (uf_count fragment)
        then (Inl (invalid_data ''UDP fragment metadata differs within a packet''),
              r\<lparr>ur_entries := amap_remove key room\<rparr>)
        else if length (pp_fragments packet) \<le> unat (uf_index fragment)
        then (Inl Panic, r\<lparr>ur_entries := amap_insert key packet room\<rparr>)
        else
          (let packet' = store_fragment packet (unat (uf_index fragment)) (uf_payload fragment)
           in if None \<in> set (pp_fragments packet')
              then (Inr None, r\<lparr>ur_entries := amap_insert key packet' room\<rparr>)
              else if pp_received_len packet' \<noteq> pp_total_len packet'
              then (Inl (invalid_data ''UDP reassembled length''), r\<lparr>ur_entries := amap_remove key room\<rparr>)
              else (Inr (Some (concat (map the (pp_fragments packet')))),
                    r\<lparr>ur_entries := amap_remove key room\<rparr>)))"

subsection \<open>Reassembly in any order\<close>

definition fragment_key :: "udp_fragment \<Rightarrow> u64 \<times> u32" where
  "fragment_key f = (uf_association_id f, uf_packet_id f)"

text \<open>\<open>f\<close> is the fragment with index \<open>i\<close> of the packet whose pieces are \<open>ps\<close>.\<close>

definition fragment_of :: "(u64 \<times> u32) \<Rightarrow> bytes list \<Rightarrow> nat \<Rightarrow> udp_fragment \<Rightarrow> bool" where
  "fragment_of key ps i f \<longleftrightarrow> fragment_key f = key \<and> i < length ps \<and> unat (uf_index f) = i \<and>
     unat (uf_count f) = length ps \<and> unat (uf_total_len f) = length (concat ps) \<and> uf_payload f = ps ! i"

fun run_push :: "udp_reassembler \<Rightarrow> (udp_fragment \<times> nat) list \<Rightarrow> udp_reassembler" where
  "run_push r [] = r"
| "run_push r ((f, t) # evs) = run_push (snd (push r f t)) evs"

definition seen_indices :: "(u64 \<times> u32) \<Rightarrow> (udp_fragment \<times> nat) list \<Rightarrow> nat set" where
  "seen_indices key evs = {unat (uf_index f) | f t. (f, t) \<in> set evs \<and> fragment_key f = key}"

definition packet_state :: "bytes list \<Rightarrow> nat set \<Rightarrow> partial_packet \<Rightarrow> bool" where
  "packet_state ps seen p \<longleftrightarrow> pp_total_len p = length (concat ps) \<and>
     pp_fragments p = map (\<lambda>i. if i \<in> seen then Some (ps ! i) else None) [0..<length ps] \<and>
     pp_received_len p = (\<Sum>i\<in>seen. length (ps ! i))"

definition reassembly_inv :: "(u64 \<times> u32) \<Rightarrow> bytes list \<Rightarrow> nat \<Rightarrow> nat set \<Rightarrow> udp_reassembler \<Rightarrow> bool" where
  "reassembly_inv key ps t0 seen r \<longleftrightarrow> amap_wf (ur_entries r) \<and> seen \<subseteq> {..<length ps} \<and>
     (if seen = {} then map_of (ur_entries r) key = None
      else \<exists>p. map_of (ur_entries r) key = Some p \<and> t0 \<le> pp_created p \<and> packet_state ps seen p)"

lemma ur_fields_push [simp]:
  "ur_max_packets (snd (push r f t)) = ur_max_packets r" "ur_timeout (snd (push r f t)) = ur_timeout r"
  by (simp_all add: push_def Let_def)

lemma make_room_few:
  assumes "length (ur_entries r) < ur_max_packets r"
  shows "make_room r key now = amap_retain (\<lambda>_ packet. now - pp_created packet \<le> ur_timeout r) (ur_entries r)"
proof -
  have "length (amap_retain (\<lambda>_ packet. now - pp_created packet \<le> ur_timeout r) (ur_entries r)) < ur_max_packets r"
    by (rule le_less_trans [OF length_amap_retain_le assms])
  then show ?thesis by (simp add: make_room_def Let_def)
qed

lemma make_room_wf: "amap_wf (ur_entries r) \<Longrightarrow> amap_wf (make_room r key now)"
  by (auto simp: make_room_def Let_def split: option.splits)

lemma push_wf: "amap_wf (ur_entries r) \<Longrightarrow> amap_wf (ur_entries (snd (push r f t)))"
  by (simp add: push_def Let_def make_room_wf)

lemma length_push:
  "length (ur_entries r) < ur_max_packets r \<Longrightarrow> length (ur_entries (snd (push r f t))) \<le> Suc (length (ur_entries r))"
proof -
  assume "length (ur_entries r) < ur_max_packets r"
  then have "length (make_room r key t) \<le> length (ur_entries r)" for key by (simp add: make_room_few)
  then have "length (amap_remove k (make_room r key t)) \<le> Suc (length (ur_entries r))"
    "length (amap_insert k p (make_room r key t)) \<le> Suc (length (ur_entries r))" for k p key
    using length_amap_remove_le [of k "make_room r key t"] length_amap_insert_le [of k p "make_room r key t"]
    by (meson Suc_le_mono le_SucI le_trans)+
  then show ?thesis by (simp add: push_def Let_def)
qed

text \<open>Fragments of other packets leave a young entry alone.\<close>

lemma push_other:
  assumes "amap_wf (ur_entries r)" "length (ur_entries r) < ur_max_packets r" "fragment_key f \<noteq> key"
  shows "map_of (ur_entries (snd (push r f t))) key =
    (case map_of (ur_entries r) key of
       Some p \<Rightarrow> if t - pp_created p \<le> ur_timeout r then Some p else None | None \<Rightarrow> None)"
proof -
  have "(uf_association_id f, uf_packet_id f) \<noteq> key" using assms(3) by (simp add: fragment_key_def)
  then have "map_of (ur_entries (snd (push r f t))) key = map_of (make_room r (fragment_key f) t) key"
    unfolding push_def Let_def fragment_key_def
    by (simp add: map_of_amap_remove map_of_amap_insert)
  then show ?thesis using assms(1,2) by (simp add: make_room_few map_of_amap_retain)
qed

lemma packet_state_store:
  assumes "packet_state ps seen p" "seen \<subseteq> {..<length ps}" "j < length ps"
  shows "packet_state ps (insert j seen) (store_fragment p j (ps ! j))"
proof -
  have fin: "finite seen" using assms(2) by (rule finite_subset) simp
  show ?thesis
  proof (cases "j \<in> seen")
    case True
    then show ?thesis using assms by (simp add: packet_state_def store_fragment_def insert_absorb)
  next
    case False
    let ?m = "\<lambda>seen. map (\<lambda>i. if i \<in> seen then Some (ps ! i) else None) [0..<length ps]"
    have "(?m seen)[j := Some (ps ! j)] = ?m (insert j seen)"
      using assms(3) by (intro nth_equalityI) (simp_all add: nth_list_update)
    then show ?thesis
      using assms False fin by (simp add: packet_state_def store_fragment_def)
  qed
qed

lemma packet_state_new:
  "packet_state ps {} \<lparr>pp_created = t, pp_total_len = length (concat ps),
     pp_fragments = replicate (length ps) None, pp_received_len = 0\<rparr>"
  by (simp add: packet_state_def map_replicate_const)

lemma packet_state_missing:
  assumes "packet_state ps seen p" "seen \<subseteq> {..<length ps}"
  shows "None \<in> set (pp_fragments p) \<longleftrightarrow> seen \<noteq> {..<length ps}"
  using assms by (auto simp: packet_state_def image_iff split: if_splits)

lemma sum_pieces: "(\<Sum>i<length ps. length (ps ! i)) = length (concat ps)"
  by (simp add: length_concat sum_list_sum_nth atLeast0LessThan)

lemma packet_state_complete:
  assumes "packet_state ps {..<length ps} p"
  shows "pp_received_len p = pp_total_len p" "concat (map the (pp_fragments p)) = concat ps"
proof -
  show "pp_received_len p = pp_total_len p" using assms by (simp add: packet_state_def sum_pieces)
  have "map the (pp_fragments p) = map ((!) ps) [0..<length ps]"
    using assms by (simp add: packet_state_def)
  then have "map the (pp_fragments p) = ps" by (simp only: map_nth)
  then show "concat (map the (pp_fragments p)) = concat ps" by simp
qed

lemma push_mine:
  assumes inv: "reassembly_inv key ps t0 seen r" and few: "length (ur_entries r) < ur_max_packets r"
    and time: "t0 \<le> t" "t \<le> t0 + ur_timeout r" and f: "fragment_of key ps j f"
  shows "if insert j seen = {..<length ps}
    then fst (push r f t) = Inr (Some (concat ps))
    else fst (push r f t) = Inr None \<and> reassembly_inv key ps t0 (insert j seen) (snd (push r f t))"
proof -
  let ?room = "make_room r key t"
  define p where "p = (case map_of ?room key of Some p \<Rightarrow> p
    | None \<Rightarrow> \<lparr>pp_created = t, pp_total_len = length (concat ps),
         pp_fragments = replicate (length ps) None, pp_received_len = 0\<rparr>)"
  have sub: "seen \<subseteq> {..<length ps}" and wf: "amap_wf (ur_entries r)"
    using inv by (simp_all add: reassembly_inv_def)
  have p: "packet_state ps seen p \<and> t0 \<le> pp_created p"
    using inv time wf few packet_state_new [of ps t]
    by (auto simp: p_def reassembly_inv_def make_room_few map_of_amap_retain split: if_splits)
  define p' where "p' = store_fragment p j (ps ! j)"
  have p': "packet_state ps (insert j seen) p'" "insert j seen \<subseteq> {..<length ps}" "t0 \<le> pp_created p'"
    using packet_state_store [OF _ sub] p f sub by (auto simp: p'_def fragment_of_def store_fragment_def)
  have step: "push r f t =
    (if None \<in> set (pp_fragments p') then (Inr None, r\<lparr>ur_entries := amap_insert key p' ?room\<rparr>)
     else if pp_received_len p' \<noteq> pp_total_len p'
     then (Inl (invalid_data ''UDP reassembled length''), r\<lparr>ur_entries := amap_remove key ?room\<rparr>)
     else (Inr (Some (concat (map the (pp_fragments p')))), r\<lparr>ur_entries := amap_remove key ?room\<rparr>))"
  proof -
    have k: "(uf_association_id f, uf_packet_id f) = key" and i: "unat (uf_index f) = j"
      and n: "unat (uf_count f) = length ps" "unat (uf_total_len f) = length (concat ps)"
        "uf_payload f = ps ! j" "j < length ps"
      using f by (auto simp: fragment_of_def fragment_key_def)
    have "pp_total_len p = length (concat ps)" "length (pp_fragments p) = length ps"
      using p by (simp_all add: packet_state_def)
    then show ?thesis
      unfolding push_def k i n Let_def p_def [symmetric] p'_def [symmetric] using n(4) by simp
  qed
  show ?thesis
  proof (cases "insert j seen = {..<length ps}")
    case True
    then show ?thesis
      using packet_state_missing [OF p'(1,2)] packet_state_complete [of ps p'] p'(1) step by simp
  next
    case False
    then show ?thesis
      using packet_state_missing [OF p'(1,2)] step p' wf
      by (auto simp: reassembly_inv_def map_of_amap_insert make_room_wf)
  qed
qed

lemma push_keeps_inv:
  assumes inv: "reassembly_inv key ps t0 seen r" and few: "length (ur_entries r) < ur_max_packets r"
    and time: "t0 \<le> t" "t \<le> t0 + ur_timeout r" and k: "fragment_key f \<noteq> key"
  shows "reassembly_inv key ps t0 seen (snd (push r f t))"
proof -
  have wf: "amap_wf (ur_entries r)" using inv by (simp add: reassembly_inv_def)
  show ?thesis
    using inv push_other [OF wf few k, of t] push_wf [OF wf, of f t] time
    by (cases "seen = {}") (auto simp: reassembly_inv_def)
qed

lemma run_push_inv:
  assumes "reassembly_inv key ps t0 seen r"
    "length (ur_entries r) + length evs \<le> ur_max_packets r"
    "\<forall>(f, t) \<in> set evs. t0 \<le> t \<and> t \<le> t0 + ur_timeout r \<and> (fragment_key f = key \<longrightarrow> (\<exists>i. fragment_of key ps i f))"
    "seen \<union> seen_indices key evs \<noteq> {..<length ps}" "seen \<union> seen_indices key evs \<subseteq> {..<length ps}"
  shows "reassembly_inv key ps t0 (seen \<union> seen_indices key evs) (run_push r evs) \<and>
    length (ur_entries (run_push r evs)) \<le> length (ur_entries r) + length evs \<and>
    ur_max_packets (run_push r evs) = ur_max_packets r \<and> ur_timeout (run_push r evs) = ur_timeout r"
  using assms
proof (induction evs arbitrary: r seen)
  case Nil
  then show ?case by (simp add: seen_indices_def)
next
  case (Cons ev evs)
  obtain f t where ev: "ev = (f, t)" by (cases ev)
  have few: "length (ur_entries r) < ur_max_packets r" using Cons.prems(2) by simp
  have time: "t0 \<le> t" "t \<le> t0 + ur_timeout r" using Cons.prems(3) ev by auto
  define seen' where "seen' = (if fragment_key f = key then insert (unat (uf_index f)) seen else seen)"
  have un: "seen \<union> seen_indices key (ev # evs) = seen' \<union> seen_indices key evs"
    by (auto simp: seen'_def seen_indices_def ev)
  have inv: "reassembly_inv key ps t0 seen' (snd (push r f t))"
  proof (cases "fragment_key f = key")
    case False
    then show ?thesis using push_keeps_inv [OF Cons.prems(1) few time] by (simp add: seen'_def)
  next
    case True
    then obtain i where i: "fragment_of key ps i f" using Cons.prems(3) ev by auto
    then have "unat (uf_index f) = i" by (simp add: fragment_of_def)
    moreover have "insert i seen \<noteq> {..<length ps}"
      using Cons.prems(4,5) un calculation True by (auto simp: seen'_def)
    ultimately show ?thesis
      using push_mine [OF Cons.prems(1) few time i] True by (simp add: seen'_def)
  qed
  have len: "length (ur_entries (snd (push r f t))) \<le> Suc (length (ur_entries r))"
    using few by (rule length_push)
  have "reassembly_inv key ps t0 (seen' \<union> seen_indices key evs) (run_push (snd (push r f t)) evs) \<and>
    length (ur_entries (run_push (snd (push r f t)) evs)) \<le> length (ur_entries (snd (push r f t))) + length evs \<and>
    ur_max_packets (run_push (snd (push r f t)) evs) = ur_max_packets (snd (push r f t)) \<and>
    ur_timeout (run_push (snd (push r f t)) evs) = ur_timeout (snd (push r f t))"
    using Cons.prems(2-5) len un by (intro Cons.IH [OF inv]) auto
  then show ?case using len un ev by auto
qed

subsection \<open>Fragments on the wire\<close>

lemma length_udp_header [simp]: "length (udp_header flag aid pid i n t) = UDP_HEADER_BYTES"
  by (simp add: udp_header_def young_consts)

lemma udp_header_fields:
  assumes "input = udp_header flag aid pid i n t @ rest"
  shows "take 2 input = as_bytes ''YD''" "input ! 2 = VERSION" "input ! 3 = flag"
    "u64_from_be (slice 4 12 input) = aid" "u32_from_be (slice 12 16 input) = pid"
    "u16_from_be (slice 16 18 input) = i" "u16_from_be (slice 18 20 input) = n"
    "u16_from_be (slice 20 22 input) = t"
proof -
  have j: "input = as_bytes ''YD'' @ [VERSION] @ [flag] @ u64_be aid @ u32_be pid @ u16_be i @ u16_be n @
      u16_be t @ rest"
    using assms by (simp add: udp_header_def)
  have "length (as_bytes ''YD'') = 2" by simp
  from flow_header_fields [OF this j] show "take 2 input = as_bytes ''YD''" "input ! 2 = VERSION"
    "input ! 3 = flag" "u64_from_be (slice 4 12 input) = aid" by auto
  show "u32_from_be (slice 12 16 input) = pid" "u16_from_be (slice 16 18 input) = i"
    "u16_from_be (slice 18 20 input) = n" "u16_from_be (slice 20 22 input) = t"
    unfolding j by (simp_all add: slice_simps del: append.simps)
qed

text \<open>The numbers of a fragment that every decoder checks.\<close>

definition fragment_numbers_ok :: "nat \<Rightarrow> nat \<Rightarrow> nat \<Rightarrow> bytes \<Rightarrow> bool" where
  "fragment_numbers_ok i n t chunk \<longleftrightarrow> i < n \<and> n \<le> MAX_UDP_FRAGMENTS \<and> n \<le> t \<and> t \<le> MAX_UDP_PAYLOAD_BYTES \<and>
     chunk \<noteq> [] \<and> length chunk \<le> t"

lemma fragment_numbers_unat:
  assumes "fragment_numbers_ok i n t chunk"
  shows "unat (of_nat i :: u16) = i" "unat (of_nat n :: u16) = n" "unat (of_nat t :: u16) = t"
    "unat (of_nat (length chunk) :: u16) = length chunk" "(of_nat n :: u16) \<noteq> 0" "(of_nat t :: u16) \<noteq> 0"
    "\<not> (of_nat t :: u16) < of_nat n" "\<not> (of_nat n :: u16) \<le> of_nat i"
proof -
  have b: "i < 65536" "n < 65536" "t < 65536" "length chunk < 65536" "0 < n" "0 < t" "i < n" "n \<le> t"
    using assms by (auto simp: fragment_numbers_ok_def young_consts)
  then show u: "unat (of_nat i :: u16) = i" "unat (of_nat n :: u16) = n" "unat (of_nat t :: u16) = t"
    "unat (of_nat (length chunk) :: u16) = length chunk"
    by (simp_all add: unat_of_nat)
  show "(of_nat n :: u16) \<noteq> 0" "(of_nat t :: u16) \<noteq> 0"
    using u b by (metis less_irrefl unat_0)+
  show "\<not> (of_nat t :: u16) < of_nat n" "\<not> (of_nat n :: u16) \<le> of_nat i"
    using u b by (simp_all add: word_less_nat_alt word_le_nat_alt)
qed

definition udp_frame :: "crypto \<Rightarrow> bytes \<Rightarrow> u64 \<Rightarrow> u32 \<Rightarrow> nat \<Rightarrow> nat \<Rightarrow> nat \<Rightarrow> bytes \<Rightarrow> bytes" where
  "udp_frame c sk aid pid n t i chunk =
     (let frame = udp_header 0 aid pid (of_nat i) (of_nat n) (of_nat t) @ chunk
      in frame @ take UDP_TAG_BYTES (hmac_tag c sk [as_bytes ''young/udp-fragment/v1'', frame]))"

definition padded_udp_frame ::
  "crypto \<Rightarrow> bytes \<Rightarrow> padding_direction \<Rightarrow> u64 \<Rightarrow> u32 \<Rightarrow> nat \<Rightarrow> nat \<Rightarrow> nat \<Rightarrow> bytes \<Rightarrow> nat \<Rightarrow> bytes" where
  "padded_udp_frame c sk dir aid pid n t i chunk pad =
     (let frame = udp_header 1 aid pid (of_nat i) (of_nat n) (of_nat t) @
            u16_be (of_nat (length chunk)) @ u16_be (of_nat pad) @ chunk @
            deterministic_padding c sk (udp_padding_domain dir) [u64_be aid, u32_be pid, u16_be (of_nat i)] pad
      in frame @ take UDP_TAG_BYTES (hmac_tag c sk [udp_hmac_domain dir, frame]))"

lemma decode_udp_frame:
  assumes "crypto_ok c" and num: "fragment_numbers_ok i n t chunk"
  shows "decode_udp_fragment c sk (udp_frame c sk aid pid n t i chunk) =
    Inr \<lparr>uf_association_id = aid, uf_packet_id = pid, uf_index = of_nat i, uf_count = of_nat n,
      uf_total_len = of_nat t, uf_padding_len = 0, uf_payload = chunk\<rparr>"
proof -
  define frame where "frame = udp_header 0 aid pid (of_nat i) (of_nat n) (of_nat t) @ chunk"
  define tag where "tag = take UDP_TAG_BYTES (hmac_tag c sk [as_bytes ''young/udp-fragment/v1'', frame])"
  define input where "input = udp_frame c sk aid pid n t i chunk"
  have i1: "input = udp_header 0 aid pid (of_nat i) (of_nat n) (of_nat t) @ chunk @ tag"
    and i2: "input = frame @ tag"
    by (simp_all add: input_def udp_frame_def Let_def frame_def tag_def)
  have tl: "length tag = UDP_TAG_BYTES" using assms(1) by (simp add: tag_def young_consts)
  note h = udp_header_fields [OF i1] and u = fragment_numbers_unat [OF num]
  have len: "length input - UDP_TAG_BYTES = UDP_HEADER_BYTES + length chunk"
    "\<not> length input < UDP_HEADER_BYTES + UDP_TAG_BYTES"
    using tl by (simp_all add: i1)
  have auth: "take (UDP_HEADER_BYTES + length chunk) input = frame"
    "drop (UDP_HEADER_BYTES + length chunk) input = tag"
    "slice UDP_HEADER_BYTES (UDP_HEADER_BYTES + length chunk) input = chunk"
    by (simp_all add: i1 frame_def slice_simps)
  have "verify_hmac_truncated c sk [as_bytes ''young/udp-fragment/v1'', frame] tag = Inr ()"
    using assms(1) by (simp add: tag_def UDP_TAG_BYTES_def FLOW_TAG_BYTES_def [symmetric])
  then have "decode_udp_fragment c sk input = Inr \<lparr>uf_association_id = aid, uf_packet_id = pid,
      uf_index = of_nat i, uf_count = of_nat n, uf_total_len = of_nat t, uf_padding_len = 0, uf_payload = chunk\<rparr>"
    unfolding decode_udp_fragment_def Let_def len auth h using num u len(2)
    by (simp add: fragment_numbers_ok_def)
  then show ?thesis by (simp add: input_def)
qed

lemma decode_padded_udp_frame:
  assumes "crypto_ok c" and num: "fragment_numbers_ok i n t chunk"
    and pad: "0 < pad" "pad \<le> unat (padding_for s dir (udp_padding_index aid pid (of_nat i)))" 
  shows "decode_udp_fragment_padded c sk s dir (padded_udp_frame c sk dir aid pid n t i chunk pad) =
    Inr \<lparr>uf_association_id = aid, uf_packet_id = pid, uf_index = of_nat i, uf_count = of_nat n,
      uf_total_len = of_nat t, uf_padding_len = of_nat pad, uf_payload = chunk\<rparr>"
proof -
  let ?P = PADDED_UDP_HEADER_BYTES
  let ?padding = "deterministic_padding c sk (udp_padding_domain dir) [u64_be aid, u32_be pid, u16_be (of_nat i)] pad"
  define hd where "hd = udp_header 1 aid pid (of_nat i) (of_nat n) (of_nat t) @
    u16_be (of_nat (length chunk)) @ u16_be (of_nat pad)"
  define frame where "frame = hd @ chunk @ ?padding"
  define tag where "tag = take UDP_TAG_BYTES (hmac_tag c sk [udp_hmac_domain dir, frame])"
  define input where "input = padded_udp_frame c sk dir aid pid n t i chunk pad"
  have i1: "input = udp_header 1 aid pid (of_nat i) (of_nat n) (of_nat t) @
      u16_be (of_nat (length chunk)) @ u16_be (of_nat pad) @ chunk @ ?padding @ tag"
    and i2: "input = hd @ chunk @ ?padding @ tag"
    by (simp_all add: input_def padded_udp_frame_def Let_def frame_def tag_def hd_def)
  have hl: "length hd = ?P" by (simp add: hd_def young_consts)
  have tl: "length tag = UDP_TAG_BYTES" using assms(1) by (simp add: tag_def young_consts)
  have up: "unat (of_nat pad :: u16) = pad"
    using pad(2) unat_bound [of "padding_for s dir (udp_padding_index aid pid (of_nat i))"]
    by (simp add: unat_of_nat)
  have p: "(of_nat pad :: u16) \<noteq> 0" "\<not> padding_for s dir (udp_padding_index aid pid (of_nat i)) < of_nat pad"
    using up pad by (metis less_irrefl unat_0) (use up pad in \<open>simp add: word_less_nat_alt\<close>)
  note h = udp_header_fields [OF i1] and u = fragment_numbers_unat [OF num]
  have pl: "u16_from_be (slice 22 24 input) = of_nat (length chunk)" "u16_from_be (slice 24 26 input) = of_nat pad"
    unfolding i1 by (simp_all add: slice_simps young_consts)
  have len: "length input - UDP_TAG_BYTES = ?P + length chunk + pad"
    "\<not> length input < ?P + UDP_TAG_BYTES" "length input = ?P + length chunk + pad + UDP_TAG_BYTES"
    using tl hl by (simp_all add: i2)
  have auth: "take (?P + length chunk + pad) input = frame" "drop (?P + length chunk + pad) input = tag"
    "slice ?P (?P + length chunk) input = chunk" "slice (?P + length chunk) (?P + length chunk + pad) input = ?padding"
    using hl by (simp_all add: i2 frame_def slice_simps)
  have "verify_hmac_truncated c sk [udp_hmac_domain dir, frame] tag = Inr ()"
    using assms(1) by (simp add: tag_def UDP_TAG_BYTES_def FLOW_TAG_BYTES_def [symmetric])
  then have "decode_udp_fragment_padded c sk s dir input = Inr \<lparr>uf_association_id = aid, uf_packet_id = pid,
      uf_index = of_nat i, uf_count = of_nat n, uf_total_len = of_nat t, uf_padding_len = of_nat pad, uf_payload = chunk\<rparr>"
    unfolding decode_udp_fragment_padded_def Let_def len(1) auth h pl u(4) up using num u len(2,3) p
    by (simp add: fragment_numbers_ok_def auth)
  then show ?thesis by (simp add: input_def)
qed

lemma encode_udp_fragments_Inr:
  assumes "crypto_ok c" "encode_udp_fragments c sk aid pid payload max_size = Inr frames"
  defines "cs \<equiv> chunks (max_size - (UDP_HEADER_BYTES + UDP_TAG_BYTES)) payload"
  shows "concat cs = payload" "length frames = length cs"
    "i < length cs \<Longrightarrow> fragment_numbers_ok i (length cs) (length payload) (cs ! i) \<and>
       frames ! i = udp_frame c sk aid pid (length cs) (length payload) i (cs ! i) \<and>
       length (frames ! i) \<le> max_size"
proof -
  let ?size = "max_size - (UDP_HEADER_BYTES + UDP_TAG_BYTES)"
  let ?fs = "map (\<lambda>(i, chunk). udp_frame c sk aid pid (length cs) (length payload) i chunk) (enumerate 0 cs)"
  have g: "payload \<noteq> []" "length payload \<le> MAX_UDP_PAYLOAD_BYTES" "0 < ?size"
    "div_ceil (length payload) ?size \<le> MAX_UDP_FRAGMENTS"
    using assms(2) by (auto simp: encode_udp_fragments_def Let_def split: if_splits)
  have n: "div_ceil (length payload) ?size = length cs"
    using g(3) by (simp add: cs_def length_chunks div_ceil_def)
  have b: "length cs \<le> 256" "length payload < 65536" using g n by (simp_all add: young_consts)
  show c1: "concat cs = payload" unfolding cs_def using g(3) by (rule concat_chunks)
  have bounds: "\<forall>x \<in> set cs. x \<noteq> [] \<and> length x \<le> ?size" unfolding cs_def using chunks_bounds by blast
  have "encode_udp_fragments c sk aid pid payload max_size = Inr ?fs"
    unfolding encode_udp_fragments_def Let_def cs_def [symmetric] n using g b n
    by (auto simp: young_consts udp_frame_def Let_def in_set_enumerate_eq intro!: collect_results_ok)
  then have frames: "frames = ?fs" using assms(2) by simp
  then show "length frames = length cs" by simp
  show "fragment_numbers_ok i (length cs) (length payload) (cs ! i) \<and>
       frames ! i = udp_frame c sk aid pid (length cs) (length payload) i (cs ! i) \<and>
       length (frames ! i) \<le> max_size" if i: "i < length cs"
  proof -
    have "cs ! i \<noteq> []" "length (cs ! i) \<le> ?size" using bounds i by auto
    moreover have "length (cs ! i) \<le> length payload"
      unfolding c1 [symmetric] length_concat using i by (intro member_le_sum_list) auto
    moreover have "length cs \<le> length payload" using length_le_concat [of cs] bounds c1 by auto
    ultimately show ?thesis
      using i g b assms(1) by (simp add: frames nth_enumerate_eq fragment_numbers_ok_def udp_frame_def Let_def young_consts)
  qed
qed

lemma udp_plan_spec:
  assumes "udp_plan s dir aid pid budget (length payload) k offset = Inr parts" "2 \<le> budget"
    "offset \<le> length payload" "scheme_wf s"
  shows "concat (map (\<lambda>(o', l, p). slice o' (o' + l) payload) parts) = drop offset payload \<and>
    (\<forall>i < length parts. case parts ! i of (o', l, p) \<Rightarrow> 0 < l \<and> o' + l \<le> length payload \<and> 0 < p \<and>
       p \<le> unat (padding_for s dir (udp_padding_index aid pid (of_nat (k + i)))) \<and> l + p \<le> budget) \<and>
    (parts \<noteq> [] \<longrightarrow> k + length parts \<le> MAX_UDP_FRAGMENTS)"
  using assms
proof (induction s dir aid pid budget "length payload" k offset arbitrary: parts rule: udp_plan.induct)
  case (1 s dir aid pid budget k offset)
  show ?case
  proof (cases "length payload \<le> offset")
    case True
    then show ?thesis using 1(2) by (simp add: udp_plan.simps)
  next
    case False
    define pad where "pad = min (unat (padding_for s dir (udp_padding_index aid pid (of_nat k)))) (budget - 1)"
    define len where "len = min (budget - pad) (length payload - offset)"
    have pad: "0 < pad" "pad \<le> unat (padding_for s dir (udp_padding_index aid pid (of_nat k)))" "pad < budget"
      using padding_for_bounds(1) [OF 1(5), of dir "udp_padding_index aid pid (of_nat k)"] 1(3)
      by (auto simp: pad_def unat_gt_0)
    have len: "0 < len" "offset + len \<le> length payload" "len + pad \<le> budget"
      using False pad(3) by (auto simp: len_def)
    have k: "k < MAX_UDP_FRAGMENTS"
      using 1(2) False by (subst (asm) udp_plan.simps) (auto split: if_splits)
    have step: "udp_plan s dir aid pid budget (length payload) k offset =
        and_then (udp_plan s dir aid pid budget (length payload) (k + 1) (offset + len))
          (\<lambda>parts. Inr ((offset, len, pad) # parts))"
      using False k len(1)
      unfolding udp_plan.simps [of s dir aid pid budget _ k] Let_def pad_def [symmetric] len_def [symmetric]
      by simp
    obtain ps where ps: "udp_plan s dir aid pid budget (length payload) (k + 1) (offset + len) = Inr ps"
      and parts: "parts = (offset, len, pad) # ps"
      using 1(2) unfolding step by (auto simp: and_then_Inr_iff)
    have ih: "concat (map (\<lambda>(o', l, p). slice o' (o' + l) payload) ps) = drop (offset + len) payload"
      "\<forall>i < length ps. case ps ! i of (o', l, p) \<Rightarrow> 0 < l \<and> o' + l \<le> length payload \<and> 0 < p \<and>
         p \<le> unat (padding_for s dir (udp_padding_index aid pid (of_nat (k + 1 + i)))) \<and> l + p \<le> budget"
      "ps \<noteq> [] \<longrightarrow> k + 1 + length ps \<le> MAX_UDP_FRAGMENTS"
      using 1(1) [OF _ _ refl refl refl, of ps] False k len 1(3,5) ps
      unfolding pad_def [symmetric] len_def [symmetric] by auto
    have "slice offset (offset + len) payload @ drop (offset + len) payload = drop offset payload"
      by (metis add_diff_cancel_left' append_take_drop_id drop_drop add.commute slice_def)
    then show ?thesis
      using ih k pad len by (auto simp: parts nth_Cons ac_simps split: nat.splits)
  qed
qed

lemma encode_udp_fragments_padded_Inr:
  assumes "crypto_ok c" "scheme_wf s" "encode_udp_fragments_padded c sk s dir aid pid payload max_size = Inr frames"
  obtains ps where "concat ps = payload" "length frames = length ps"
    "\<forall>i < length ps. fragment_numbers_ok i (length ps) (length payload) (ps ! i) \<and>
       length (frames ! i) \<le> max_size \<and>
       (\<exists>pad. 0 < pad \<and> pad \<le> unat (padding_for s dir (udp_padding_index aid pid (of_nat i))) \<and>
          frames ! i = padded_udp_frame c sk dir aid pid (length ps) (length payload) i (ps ! i) pad)"
proof -
  define budget where "budget = max_size - (PADDED_UDP_HEADER_BYTES + UDP_TAG_BYTES)"
  have g: "payload \<noteq> []" "length payload \<le> MAX_UDP_PAYLOAD_BYTES"
    "PADDED_UDP_HEADER_BYTES + UDP_TAG_BYTES + 2 \<le> max_size"
    using assms(3) by (auto simp: encode_udp_fragments_padded_def Let_def split: if_splits)
  obtain parts where plan: "udp_plan s dir aid pid budget (length payload) 0 0 = Inr parts"
    using assms(3) g by (auto simp: encode_udp_fragments_padded_def Let_def budget_def and_then_Inr_iff)
  have two: "2 \<le> budget" using g(3) by (simp add: budget_def)
  note spec = udp_plan_spec [OF plan two _ assms(2), simplified]
  define ps where "ps = map (\<lambda>(o', l, p). slice o' (o' + l) payload) parts"
  have c1: "concat ps = payload" using spec by (simp add: ps_def)
  then have ne: "parts \<noteq> []" using g(1) by (auto simp: ps_def)
  have cnt: "length parts \<le> 256" using spec ne by (simp add: young_consts)
  have part: "0 < l \<and> o' + l \<le> length payload \<and> 0 < p \<and>
      p \<le> unat (padding_for s dir (udp_padding_index aid pid (of_nat i))) \<and> l + p \<le> budget"
    if "i < length parts" "parts ! i = (o', l, p)" for i o' l p
    using spec that by (metis (no_types, lifting) case_prod_conv)
  have "ps ! i \<noteq> []" if i: "i < length ps" for i
  proof -
    obtain o' l p where "parts ! i = (o', l, p)" by (cases "parts ! i")
    then have "length (ps ! i) = l" "0 < l" using part [of i o' l p] i by (auto simp: ps_def)
    then show ?thesis by auto
  qed
  then have "\<forall>x \<in> set ps. x \<noteq> []" by (metis in_set_conv_nth)
  then have few: "length ps \<le> length payload" using length_le_concat [of ps] c1 by simp
  let ?f = "\<lambda>(i, o', l, p). padded_udp_frame c sk dir aid pid (length parts) (length payload) i
     (slice o' (o' + l) payload) p"
  have "encode_udp_fragments_padded c sk s dir aid pid payload max_size = Inr (map ?f (enumerate 0 parts))"
  proof -
    have "\<forall>x \<in> set (enumerate 0 parts). encode_padded_part c sk dir aid pid payload (length parts) x = Inr (?f x)"
    proof
      fix x assume "x \<in> set (enumerate 0 parts)"
      then have "fst x < length parts" "parts ! fst x = snd x" by (simp_all add: in_set_enumerate_eq)
      then obtain i o' l p where x: "x = (i, o', l, p)" "i < length parts" "parts ! i = (o', l, p)"
        using prod_cases4 [of x] by (metis fst_conv snd_conv)
      have "i < 65536" "l < 65536" "p < 65536" "length (slice o' (o' + l) payload) = l"
        using part [OF x(2,3)] cnt x(2) g(2)
          unat_bound [of "padding_for s dir (udp_padding_index aid pid (of_nat i))"]
        by (auto simp: young_consts)
      then show "encode_padded_part c sk dir aid pid payload (length parts) x = Inr (?f x)"
        by (simp add: x(1) encode_padded_part_def extend_deterministic_padding_eq padded_udp_frame_def Let_def)
    qed
    from collect_results_ok [OF this] show ?thesis
      unfolding encode_udp_fragments_padded_def Let_def budget_def [symmetric] using g plan cnt
      by (simp add: young_consts)
  qed
  then have frames: "frames = map ?f (enumerate 0 parts)" using assms(3) by simp
  show thesis
  proof (rule that [OF c1])
    show "length frames = length ps" by (simp add: frames ps_def)
    show "\<forall>i < length ps. fragment_numbers_ok i (length ps) (length payload) (ps ! i) \<and>
       length (frames ! i) \<le> max_size \<and>
       (\<exists>pad. 0 < pad \<and> pad \<le> unat (padding_for s dir (udp_padding_index aid pid (of_nat i))) \<and>
          frames ! i = padded_udp_frame c sk dir aid pid (length ps) (length payload) i (ps ! i) pad)"
    proof (intro allI impI)
      fix i assume i: "i < length ps"
      obtain o' l p where pi: "parts ! i = (o', l, p)" by (cases "parts ! i")
      have pt: "0 < l \<and> o' + l \<le> length payload \<and> 0 < p \<and>
          p \<le> unat (padding_for s dir (udp_padding_index aid pid (of_nat i))) \<and> l + p \<le> budget"
        using i pi by (intro part) (simp_all add: ps_def)
      have psi: "ps ! i = slice o' (o' + l) payload" "length (ps ! i) = l" using i pi pt by (simp_all add: ps_def)
      have ne: "ps ! i \<noteq> []" using psi(2) pt by (metis less_irrefl list.size(3))
      have lps: "length ps = length parts" by (simp add: ps_def)
      have fi: "frames ! i = padded_udp_frame c sk dir aid pid (length ps) (length payload) i (ps ! i) p"
        using i pi psi by (simp add: frames nth_enumerate_eq ps_def)
      have "fragment_numbers_ok i (length ps) (length payload) (ps ! i)"
        unfolding fragment_numbers_ok_def using i ne psi(2) pt cnt few g(2) by (simp add: lps young_consts)
      moreover have "length (frames ! i) \<le> max_size"
        using fi psi(2) conjunct2 [OF conjunct2 [OF conjunct2 [OF conjunct2 [OF pt]]]] g(3) assms(1)
        by (simp add: padded_udp_frame_def Let_def young_consts budget_def)
      ultimately show "fragment_numbers_ok i (length ps) (length payload) (ps ! i) \<and>
         length (frames ! i) \<le> max_size \<and>
         (\<exists>pad. 0 < pad \<and> pad \<le> unat (padding_for s dir (udp_padding_index aid pid (of_nat i))) \<and>
            frames ! i = padded_udp_frame c sk dir aid pid (length ps) (length payload) i (ps ! i) pad)"
        using pt fi by blast
    qed
  qed
qed

lemma decoded_fragment_of:
  assumes "fragment_numbers_ok i (length ps) (length payload) (ps ! i)" "concat ps = payload" "i < length ps"
  shows "fragment_of (aid, pid) ps i \<lparr>uf_association_id = aid, uf_packet_id = pid, uf_index = of_nat i,
    uf_count = of_nat (length ps), uf_total_len = of_nat (length payload), uf_padding_len = pad, uf_payload = ps ! i\<rparr>"
  using fragment_numbers_unat [OF assms(1)] assms(2,3) by (simp add: fragment_of_def fragment_key_def)

lemma padded_datagrams:
  assumes "crypto_ok c" "scheme_wf s" "encode_udp_fragments_padded c sk s dir aid pid payload max_size = Inr frames"
  obtains ps where "concat ps = payload" "length frames = length ps"
    "\<forall>i < length ps. length (frames ! i) \<le> max_size \<and>
       (\<exists>f. decode_udp_fragment_padded c sk s dir (frames ! i) = Inr f \<and> fragment_of (aid, pid) ps i f)"
proof -
  from assms obtain ps where ps: "concat ps = payload" "length frames = length ps"
    "\<forall>i < length ps. fragment_numbers_ok i (length ps) (length payload) (ps ! i) \<and>
       length (frames ! i) \<le> max_size \<and>
       (\<exists>pad. 0 < pad \<and> pad \<le> unat (padding_for s dir (udp_padding_index aid pid (of_nat i))) \<and>
          frames ! i = padded_udp_frame c sk dir aid pid (length ps) (length payload) i (ps ! i) pad)"
    by (rule encode_udp_fragments_padded_Inr)
  show thesis
  proof (rule that [OF ps(1,2)], intro allI impI conjI)
    fix i assume i: "i < length ps"
    with ps(3) show "length (frames ! i) \<le> max_size" by blast
    from ps(3) i obtain pad where "fragment_numbers_ok i (length ps) (length payload) (ps ! i)" "0 < pad"
      "pad \<le> unat (padding_for s dir (udp_padding_index aid pid (of_nat i)))"
      "frames ! i = padded_udp_frame c sk dir aid pid (length ps) (length payload) i (ps ! i) pad" by blast
    then show "\<exists>f. decode_udp_fragment_padded c sk s dir (frames ! i) = Inr f \<and> fragment_of (aid, pid) ps i f"
      using decode_padded_udp_frame [OF assms(1)] decoded_fragment_of [OF _ ps(1) i] by metis
  qed
qed

lemma legacy_datagrams:
  assumes "crypto_ok c" "encode_udp_fragments c sk aid pid payload max_size = Inr frames"
  obtains ps where "concat ps = payload" "length frames = length ps"
    "\<forall>i < length ps. length (frames ! i) \<le> max_size \<and>
       (\<exists>f. decode_udp_fragment c sk (frames ! i) = Inr f \<and> fragment_of (aid, pid) ps i f)"
proof -
  note e = encode_udp_fragments_Inr [OF assms]
  show thesis
  proof (rule that [OF e(1,2)], intro allI impI)
    fix i assume i: "i < length (chunks (max_size - (UDP_HEADER_BYTES + UDP_TAG_BYTES)) payload)"
    from e(3) [OF i] show "length (frames ! i) \<le> max_size \<and>
       (\<exists>f. decode_udp_fragment c sk (frames ! i) = Inr f \<and>
          fragment_of (aid, pid) (chunks (max_size - (UDP_HEADER_BYTES + UDP_TAG_BYTES)) payload) i f)"
      using decode_udp_frame [OF assms(1)] decoded_fragment_of [OF _ e(1) i] by metis
  qed
qed

subsection \<open>The receiver of datagrams\<close>

text \<open>
  Both ends decode every datagram, drop those that do not authenticate, and push the rest; the
  decoder is the padded or the plain one.
\<close>

definition receive_datagram ::
  "(bytes \<Rightarrow> io_error + udp_fragment) \<Rightarrow> udp_reassembler \<Rightarrow> bytes \<Rightarrow> nat \<Rightarrow> (io_error + bytes option) \<times> udp_reassembler" where
  "receive_datagram decode r d now =
     (case decode d of Inl e \<Rightarrow> (Inr None, r) | Inr f \<Rightarrow> push r f now)"

fun run_receive ::
  "(bytes \<Rightarrow> io_error + udp_fragment) \<Rightarrow> udp_reassembler \<Rightarrow> (bytes \<times> nat) list \<Rightarrow> udp_reassembler" where
  "run_receive decode r [] = r"
| "run_receive decode r ((d, t) # ds) = run_receive decode (snd (receive_datagram decode r d t)) ds"

fun decoded_events :: "(bytes \<Rightarrow> io_error + udp_fragment) \<Rightarrow> (bytes \<times> nat) list \<Rightarrow> (udp_fragment \<times> nat) list" where
  "decoded_events decode [] = []"
| "decoded_events decode ((d, t) # ds) =
     (case decode d of Inl _ \<Rightarrow> decoded_events decode ds | Inr f \<Rightarrow> (f, t) # decoded_events decode ds)"

lemma run_receive_push: "run_receive decode r ds = run_push r (decoded_events decode ds)"
  by (induction decode ds arbitrary: r rule: decoded_events.induct)
    (auto simp: receive_datagram_def split: sum.splits)

lemma decoded_events_set: "(f, t) \<in> set (decoded_events decode ds) \<longleftrightarrow> (\<exists>d. (d, t) \<in> set ds \<and> decode d = Inr f)"
  by (induction decode ds rule: decoded_events.induct) (auto split: sum.splits)

lemma length_decoded_events: "length (decoded_events decode ds) \<le> length ds"
  by (induction decode ds rule: decoded_events.induct) (auto split: sum.splits)

text \<open>
  The datagrams of one packet, whichever decoder reads them: the last missing one yields the packet.
\<close>

lemma datagrams_reassemble:
  assumes frames: "length frames = length ps"
      "\<forall>i < length ps. \<exists>f. decode (frames ! i) = Inr f \<and> fragment_of key ps i f"
    and wf: "amap_wf (ur_entries r)" and new: "\<not> amap_contains key (ur_entries r)"
    and room: "length (ur_entries r) + length ds < ur_max_packets r"
    and time: "\<forall>(d, t) \<in> set ds. t0 \<le> t \<and> t \<le> t0 + ur_timeout r" "t0 \<le> now" "now \<le> t0 + ur_timeout r"
    and own: "\<forall>(d, t) \<in> set ds. \<forall>f. decode d = Inr f \<and> fragment_key f = key \<longrightarrow> d \<in> set frames"
    and miss: "\<not> set frames \<subseteq> fst ` set ds" and last: "d \<in> set frames" "set frames \<subseteq> insert d (fst ` set ds)"
  shows "fst (receive_datagram decode (run_receive decode r ds) d now) = Inr (Some (concat ps))"
proof -
  define evs where "evs = decoded_events decode ds"
  define seen where "seen = {i. i < length ps \<and> frames ! i \<in> fst ` set ds}"
  have idx: "unat (uf_index f) = i" if "decode (frames ! i) = Inr f" "i < length ps" for i f
    using frames(2) that by (auto simp: fragment_of_def)
  have si: "seen_indices key evs = seen"
  proof (intro set_eqI iffI)
    fix i assume "i \<in> seen_indices key evs"
    then obtain f t e where f: "(e, t) \<in> set ds" "decode e = Inr f" "fragment_key f = key" "i = unat (uf_index f)"
      by (auto simp: seen_indices_def evs_def decoded_events_set)
    then have "e \<in> set frames" using own by auto
    then obtain j where "j < length ps" "e = frames ! j" using frames(1) by (metis in_set_conv_nth)
    then show "i \<in> seen" using idx [of j f] f by (force simp: seen_def)
  next
    fix i assume "i \<in> seen"
    then obtain t where i: "i < length ps" "(frames ! i, t) \<in> set ds" by (auto simp: seen_def)
    then obtain f where "decode (frames ! i) = Inr f" "fragment_of key ps i f" using frames(2) by blast
    then show "i \<in> seen_indices key evs"
      using i by (auto simp: seen_indices_def evs_def decoded_events_set fragment_of_def intro!: exI)
  qed
  have sub: "seen \<subseteq> {..<length ps}" by (auto simp: seen_def)
  have part: "seen \<noteq> {..<length ps}"
    using miss frames(1) by (auto simp: seen_def subset_iff in_set_conv_nth)
  obtain j f where j: "j < length ps" "d = frames ! j" "decode d = Inr f" "fragment_of key ps j f"
    using last(1) frames by (metis in_set_conv_nth)
  have full: "insert j seen = {..<length ps}"
  proof -
    have "i = j \<or> i \<in> seen" if "i < length ps" for i
    proof -
      have "frames ! i \<in> insert d (fst ` set ds)" using last(2) that frames(1) by (metis nth_mem subsetD)
      moreover have "i = j" if "frames ! i = d" using idx [of i f] idx [of j f] j that \<open>i < length ps\<close> by simp
      ultimately show ?thesis using that by (auto simp: seen_def)
    qed
    then show ?thesis using j(1) sub by auto
  qed
  have frag: "\<exists>i. fragment_of key ps i f" if "(f, t) \<in> set evs" "fragment_key f = key" for f t
  proof -
    from that(1) obtain e where e: "(e, t) \<in> set ds" "decode e = Inr f"
      by (auto simp: evs_def decoded_events_set)
    with own that(2) have "e \<in> set frames" by auto
    then obtain i where "i < length ps" "e = frames ! i" using frames(1) by (metis in_set_conv_nth)
    then show ?thesis using frames(2) e(2) by force
  qed
  have times: "t0 \<le> t \<and> t \<le> t0 + ur_timeout r" if "(f, t) \<in> set evs" for f t
    using that time(1) by (auto simp: evs_def decoded_events_set)
  have "reassembly_inv key ps t0 {} r"
    using wf new by (simp add: reassembly_inv_def amap_contains_map_of)
  moreover have "length evs \<le> length ds" by (simp add: evs_def length_decoded_events)
  ultimately have inv: "reassembly_inv key ps t0 seen (run_push r evs) \<and>
      length (ur_entries (run_push r evs)) \<le> length (ur_entries r) + length evs \<and>
      ur_max_packets (run_push r evs) = ur_max_packets r \<and> ur_timeout (run_push r evs) = ur_timeout r"
    using run_push_inv [of key ps t0 "{}" r evs] room frag times si part sub by auto
  then have "length (ur_entries (run_push r evs)) < ur_max_packets (run_push r evs)"
    using room \<open>length evs \<le> length ds\<close> by auto
  then have "fst (push (run_push r evs) f now) = Inr (Some (concat ps))"
    using push_mine [of key ps t0 seen "run_push r evs" now j f] inv time(2,3) j(4) full by auto
  then show ?thesis by (simp add: receive_datagram_def j(3) run_receive_push evs_def)
qed

subsection \<open>Properties\<close>


definition sample_datagrams :: "bytes list" where
  "sample_datagrams =
     [padded_udp_frame sample_crypto [1] ServerToClient 0 0 2 6 0 [1, 2, 3, 4, 5] 5,
      padded_udp_frame sample_crypto [1] ServerToClient 0 0 2 6 1 [6] 1]"

lemma sample_datagrams_encoded:
  "encode_udp_fragments_padded sample_crypto [1] sample_scheme ServerToClient 0 0 [1, 2, 3, 4, 5, 6] 52 =
     Inr sample_datagrams"
proof -
  have "udp_plan sample_scheme ServerToClient 0 0 10 (length [1, 2, 3, 4, 5, 6 :: byte]) 0 0 = Inr [(0, 5, 5), (5, 1, 1)]"
    by code_simp
  then show ?thesis
    by (simp add: encode_udp_fragments_padded_def encode_padded_part_def sample_datagrams_def young_consts
        Let_def extend_deterministic_padding_eq padded_udp_frame_def slice_def)
qed

lemma sample_datagrams_lengths:
  "length (sample_datagrams ! 0) = 52" "length (sample_datagrams ! 1) = 44"
  using sample_crypto_ok by (simp_all add: sample_datagrams_def padded_udp_frame_def Let_def young_consts)


text \<open>
  The same for peers without padding: a packet sent with the plain encoder is reassembled by the
  plain decoder under the same conditions.
\<close>

theorem plain_udp_delivery:
  assumes "crypto_ok c"
    and enc: "encode_udp_fragments c sk aid pid payload max_size = Inr frames"
    and wf: "amap_wf (ur_entries r)" and new: "\<not> amap_contains (aid, pid) (ur_entries r)"
    and room: "length (ur_entries r) + length ds < ur_max_packets r"
    and time: "\<forall>(d, t) \<in> set ds. t0 \<le> t \<and> t \<le> t0 + ur_timeout r" "t0 \<le> now" "now \<le> t0 + ur_timeout r"
    and own: "\<forall>(d, t) \<in> set ds. \<forall>f. decode_udp_fragment c sk d = Inr f \<and>
      fragment_key f = (aid, pid) \<longrightarrow> d \<in> set frames"
    and miss: "\<not> set frames \<subseteq> fst ` set ds" and last: "d \<in> set frames" "set frames \<subseteq> insert d (fst ` set ds)"
  shows "fst (receive_datagram (decode_udp_fragment c sk) (run_receive (decode_udp_fragment c sk) r ds) d now) =
      Inr (Some payload) \<and> (\<forall>x \<in> set frames. length x \<le> max_size)"
proof -
  obtain ps where ps: "concat ps = payload" "length frames = length ps"
    "\<forall>i < length ps. length (frames ! i) \<le> max_size \<and>
       (\<exists>f. decode_udp_fragment c sk (frames ! i) = Inr f \<and> fragment_of (aid, pid) ps i f)"
    using assms(1) enc by (rule legacy_datagrams)
  have "\<forall>x \<in> set frames. length x \<le> max_size" using ps(2,3) by (metis in_set_conv_nth)
  moreover have "fst (receive_datagram (decode_udp_fragment c sk)
      (run_receive (decode_udp_fragment c sk) r ds) d now) = Inr (Some (concat ps))"
    by (rule datagrams_reassemble [OF ps(2) _ wf new room time own miss last]) (use ps(3) in blast)
  ultimately show ?thesis using ps(1) by simp
qed

definition sample_plain_datagrams :: "bytes list" where
  "sample_plain_datagrams =
     [udp_frame sample_crypto [1] 4 2 2 3 0 [1, 2], udp_frame sample_crypto [1] 4 2 2 3 1 [3]]"

lemma sample_plain_encoded:
  "encode_udp_fragments sample_crypto [1] 4 2 [1, 2, 3] 40 = Inr sample_plain_datagrams"
  by (simp add: encode_udp_fragments_def sample_plain_datagrams_def udp_frame_def Let_def young_consts div_ceil_def
      chunks_step)

theorem plain_udp_delivery_witness:
  "fst (receive_datagram (decode_udp_fragment sample_crypto [1])
      (run_receive (decode_udp_fragment sample_crypto [1]) reassembler_default [(sample_plain_datagrams ! 1, 7)])
      (sample_plain_datagrams ! 0) 9) = Inr (Some [1, 2, 3])"
proof -
  have set: "set sample_plain_datagrams = {sample_plain_datagrams ! 0, sample_plain_datagrams ! 1}"
    by (simp add: sample_plain_datagrams_def)
  have "length (sample_plain_datagrams ! 0) \<noteq> length (sample_plain_datagrams ! 1)"
    using sample_crypto_ok by (simp add: sample_plain_datagrams_def udp_frame_def Let_def)
  then have ne: "sample_plain_datagrams ! 0 \<noteq> sample_plain_datagrams ! 1" by metis
  show ?thesis
    using plain_udp_delivery [OF sample_crypto_ok sample_plain_encoded,
        of reassembler_default "[(sample_plain_datagrams ! 1, 7)]" 5 9 "sample_plain_datagrams ! 0"]
    using ne by (simp add: reassembler_default_def amap_contains_def set)
qed

text \<open>
  A fragment that the padded decoder accepts was authenticated for this direction, and its
  numbers are consistent: the index lies below the count (so that the reassembler never indexes out
  of range), the payload is non-empty and within the packet, and the padding is non-empty and no
  longer than the scheme allows for this fragment.
\<close>

theorem padded_fragment_sound:
  assumes "crypto_ok c" "decode_udp_fragment_padded c sk s dir input = Inr f"
  shows "(\<exists>frame. input = frame @ take UDP_TAG_BYTES (hmac_tag c sk [udp_hmac_domain dir, frame])) \<and>
    uf_index f < uf_count f \<and> unat (uf_count f) \<le> MAX_UDP_FRAGMENTS \<and> uf_payload f \<noteq> [] \<and>
    length (uf_payload f) \<le> unat (uf_total_len f) \<and> 0 < uf_padding_len f \<and>
    uf_padding_len f \<le> padding_for s dir (udp_padding_index (uf_association_id f) (uf_packet_id f) (uf_index f))"
proof -
  let ?n = "length input - UDP_TAG_BYTES"
  let ?pl = "unat (u16_from_be (slice 22 24 input))"
  have tag: "drop ?n input = take FLOW_TAG_BYTES (hmac_tag c sk [udp_hmac_domain dir, take ?n input])"
    and len: "length input = PADDED_UDP_HEADER_BYTES + ?pl + unat (u16_from_be (slice 24 26 input)) + UDP_TAG_BYTES"
    and pl: "0 < ?pl"
    and f: "uf_payload f = slice PADDED_UDP_HEADER_BYTES (PADDED_UDP_HEADER_BYTES + ?pl) input"
    and num: "uf_index f < uf_count f" "unat (uf_count f) \<le> MAX_UDP_FRAGMENTS" "?pl \<le> unat (uf_total_len f)"
      "uf_padding_len f \<noteq> 0"
      "uf_padding_len f \<le> padding_for s dir (udp_padding_index (uf_association_id f) (uf_packet_id f) (uf_index f))"
    using assms(2) verify_hmac_truncated_Inr [OF assms(1)]
    by (auto simp: decode_udp_fragment_padded_def Let_def and_then_Inr_iff not_less not_le split: if_splits)
  have "length (uf_payload f) = ?pl" using len by (simp add: f)
  moreover have "input = take ?n input @ take UDP_TAG_BYTES (hmac_tag c sk [udp_hmac_domain dir, take ?n input])"
    using tag by (metis append_take_drop_id FLOW_TAG_BYTES_def UDP_TAG_BYTES_def)
  ultimately show ?thesis using num pl by (auto simp: word_neq_0_conv)
qed

theorem padded_fragment_sound_witness:
  "\<exists>frame. sample_datagrams ! 0 = frame @ take UDP_TAG_BYTES (hmac_tag sample_crypto [1] [udp_hmac_domain ServerToClient, frame])"
proof -
  have "unat (padding_for sample_scheme ServerToClient (udp_padding_index 0 0 (of_nat 0))) = 5" by code_simp
  then have "decode_udp_fragment_padded sample_crypto [1] sample_scheme ServerToClient (sample_datagrams ! 0) =
    Inr \<lparr>uf_association_id = 0, uf_packet_id = 0, uf_index = of_nat 0, uf_count = of_nat 2,
      uf_total_len = of_nat 6, uf_padding_len = of_nat 5, uf_payload = [1, 2, 3, 4, 5]\<rparr>"
    unfolding sample_datagrams_def nth_Cons_0
    by (intro decode_padded_udp_frame [OF sample_crypto_ok]) (simp_all add: fragment_numbers_ok_def young_consts)
  from padded_fragment_sound [OF sample_crypto_ok this] show ?thesis by blast
qed

end
