(* ===== verification/Std_Str.thy ===== *)
theory Std_Str
  imports Std_Net
begin

text \<open>
  The parts of Rust's \<open>str\<close> that the routing crates use. Strings are lists of UTF-8 bytes.
  Separators in the sources are ASCII characters, which never occur inside a multi-byte sequence, so
  that splitting and trimming them works on bytes.

  \<open>to_lowercase\<close> and \<open>is_alphanumeric\<close> consult the Unicode tables for characters outside ASCII. The record
  \<open>unicode\<close> stands for these tables: its fields are consulted only for what is not ASCII. The white space
  that \<open>trim\<close> removes is the Unicode property \<open>White_Space\<close>, a short list.
\<close>

record unicode =
  uc_lowercase :: "string \<Rightarrow> string"
  uc_alphanumeric :: "string \<Rightarrow> bool"

definition ascii_lower :: "char \<Rightarrow> char" where
  "ascii_lower c = (let n = of_char c :: nat in if 65 \<le> n \<and> n \<le> 90 then char_of (n + 32) else c)"

definition to_ascii_lowercase :: "string \<Rightarrow> string" where
  "to_ascii_lowercase s = map ascii_lower s"

definition eq_ignore_ascii_case :: "string \<Rightarrow> string \<Rightarrow> bool" where
  "eq_ignore_ascii_case a b \<longleftrightarrow> to_ascii_lowercase a = to_ascii_lowercase b"

definition to_lowercase :: "unicode \<Rightarrow> string \<Rightarrow> string" where
  "to_lowercase u s = (if is_ascii s then to_ascii_lowercase s else uc_lowercase u s)"

text \<open>The white space of \<open>char::is_whitespace\<close> within ASCII.\<close>

definition ascii_space :: "char \<Rightarrow> bool" where
  "ascii_space c \<longleftrightarrow> (let n = of_char c :: nat in (9 \<le> n \<and> n \<le> 13) \<or> n = 32)"

definition trim_end_while :: "(char \<Rightarrow> bool) \<Rightarrow> string \<Rightarrow> string" where
  "trim_end_while p s = rev (dropWhile p (rev s))"

text \<open>The characters of a string, each as its bytes.\<close>

definition is_continuation :: "char \<Rightarrow> bool" where
  "is_continuation c \<longleftrightarrow> (let n = of_char c :: nat in 128 \<le> n \<and> n < 192)"

function utf8_chars :: "string \<Rightarrow> string list" where
  "utf8_chars [] = []"
| "utf8_chars (c # cs) = (c # takeWhile is_continuation cs) # utf8_chars (dropWhile is_continuation cs)"
  by pat_completeness auto
termination
  by (relation "measure length") (auto simp: le_imp_less_Suc length_dropWhile_le)

definition is_whitespace :: "string \<Rightarrow> bool" where
  "is_whitespace ch \<longleftrightarrow>
     (map of_char ch :: nat list) \<in> set ([[9], [10], [11], [12], [13], [32], [0xC2, 0x85], [0xC2, 0xA0], [0xE1, 0x9A, 0x80],
       [0xE2, 0x80, 0xA8], [0xE2, 0x80, 0xA9], [0xE2, 0x80, 0xAF], [0xE2, 0x81, 0x9F], [0xE3, 0x80, 0x80]] @
       map (\<lambda>n. [0xE2, 0x80, n]) [0x80..<0x8B])"

definition trim :: "unicode \<Rightarrow> string \<Rightarrow> string" where
  "trim u s =
    (if is_ascii s then trim_end_while ascii_space (dropWhile ascii_space s)
     else concat (rev (dropWhile is_whitespace (rev (dropWhile is_whitespace (utf8_chars s))))))"

definition trim_start_matches :: "char \<Rightarrow> string \<Rightarrow> string" where
  "trim_start_matches c s = dropWhile (\<lambda>x. x = c) s"

definition trim_end_matches :: "char \<Rightarrow> string \<Rightarrow> string" where
  "trim_end_matches c s = trim_end_while (\<lambda>x. x = c) s"

text \<open>\<open>str::split\<close> on a character: always at least one piece.\<close>

fun split_on :: "char \<Rightarrow> string \<Rightarrow> string list" where
  "split_on c [] = [[]]"
| "split_on c (x # xs) =
    (if x = c then [] # split_on c xs
     else case split_on c xs of p # ps \<Rightarrow> (x # p) # ps | [] \<Rightarrow> [[x]])"

text \<open>\<open>str::lines\<close>: a line ends with a line feed, with a carriage return before it removed; a last line need not end.\<close>

definition strip_cr :: "string \<Rightarrow> string" where
  "strip_cr s = (if s \<noteq> [] \<and> last s = CHR 0x0D then butlast s else s)"

definition str_lines :: "string \<Rightarrow> string list" where
  "str_lines s =
    (let ps = split_on CHR 0x0A s
     in map strip_cr (butlast ps) @ (if last ps = [] then [] else [last ps]))"

definition split_once :: "char \<Rightarrow> string \<Rightarrow> (string \<times> string) option" where
  "split_once c s =
     (if c \<in> set s then Some (takeWhile (\<lambda>x. x \<noteq> c) s, tl (dropWhile (\<lambda>x. x \<noteq> c) s)) else None)"

definition rsplit_once :: "char \<Rightarrow> string \<Rightarrow> (string \<times> string) option" where
  "rsplit_once c s =
     (case split_once c (rev s) of Some (b, a) \<Rightarrow> Some (rev a, rev b) | None \<Rightarrow> None)"

definition starts_with :: "string \<Rightarrow> string \<Rightarrow> bool" where
  "starts_with p s \<longleftrightarrow> take (length p) s = p"

definition ends_with :: "string \<Rightarrow> string \<Rightarrow> bool" where
  "ends_with p s \<longleftrightarrow> length p \<le> length s \<and> drop (length s - length p) s = p"

definition strip_suffix :: "string \<Rightarrow> string \<Rightarrow> string option" where
  "strip_suffix p s = (if ends_with p s then Some (take (length s - length p) s) else None)"

fun contains_str :: "string \<Rightarrow> string \<Rightarrow> bool" where
  "contains_str p [] \<longleftrightarrow> p = []"
| "contains_str p (x # xs) \<longleftrightarrow> starts_with p (x # xs) \<or> contains_str p xs"

text \<open>
  \<open>parse\<close> of an unsigned integer below a bound: an optional plus sign, then decimal digits.
\<close>

definition parse_unsigned :: "nat \<Rightarrow> string \<Rightarrow> nat option" where
  "parse_unsigned bound s =
    (let ds = (case s of c # r \<Rightarrow> if c = CHR ''+'' then r else s | [] \<Rightarrow> [])
     in if ds \<noteq> [] \<and> list_all (\<lambda>c. to_digit 10 c \<noteq> None) ds \<and> digits_val 10 ds < bound
        then Some (digits_val 10 ds) else None)"

subsection \<open>Facts\<close>

lemma concat_utf8_chars [simp]: "concat (utf8_chars s) = s"
  by (induction s rule: utf8_chars.induct) auto

lemma length_concat_dropWhile: "length (concat (dropWhile p xs)) \<le> length (concat xs)"
  by (induction xs) auto

lemma length_trim: "length (trim u s) \<le> length s"
proof (cases "is_ascii s")
  case True
  have "length (dropWhile ascii_space (rev (dropWhile ascii_space s))) \<le> length (rev (dropWhile ascii_space s))"
    by (rule length_dropWhile_le)
  also have "\<dots> \<le> length s" by (simp add: length_dropWhile_le)
  finally show ?thesis using True by (simp add: trim_def trim_end_while_def)
next
  case False
  let ?cs = "dropWhile is_whitespace (utf8_chars s)"
  have flip: "length (concat (rev xs)) = length (concat xs)" for xs :: "string list"
    by (induction xs) auto
  have "length (concat (rev (dropWhile is_whitespace (rev ?cs)))) \<le> length (concat ?cs)"
    unfolding flip using length_concat_dropWhile [of is_whitespace "rev ?cs"] unfolding flip .
  also have "\<dots> \<le> length s" using length_concat_dropWhile [of is_whitespace "utf8_chars s"] by simp
  finally show ?thesis using False by (simp add: trim_def)
qed

lemma ascii_lower_idem [simp]: "ascii_lower (ascii_lower c) = ascii_lower c"
  by (auto simp: ascii_lower_def Let_def of_char_of)

lemma to_ascii_lowercase_idem [simp]: "to_ascii_lowercase (to_ascii_lowercase s) = to_ascii_lowercase s"
  by (simp add: to_ascii_lowercase_def)

lemma length_to_ascii_lowercase [simp]: "length (to_ascii_lowercase s) = length s"
  by (simp add: to_ascii_lowercase_def)

lemma eq_ignore_ascii_case_refl [simp]: "eq_ignore_ascii_case s s"
  by (simp add: eq_ignore_ascii_case_def)

lemma starts_with_iff: "starts_with p s \<longleftrightarrow> (\<exists>r. s = p @ r)"
  by (auto simp: starts_with_def) (metis append_take_drop_id)

lemma ends_with_iff: "ends_with p s \<longleftrightarrow> (\<exists>r. s = r @ p)"
  by (auto simp: ends_with_def) (metis append_take_drop_id)

lemma strip_suffix_Some: "strip_suffix p s = Some r \<longleftrightarrow> s = r @ p"
  by (auto simp: strip_suffix_def ends_with_iff)

lemma contains_str_iff: "contains_str p s \<longleftrightarrow> (\<exists>a b. s = a @ p @ b)"
proof (induction s)
  case (Cons x xs)
  note IH = Cons.IH
  show ?case (is "?l \<longleftrightarrow> ?r")
  proof
    assume ?l
    then consider r where "x # xs = p @ r" | a b where "xs = a @ p @ b"
      using Cons by (auto simp: starts_with_iff)
    then show ?r by (cases) (metis append_Nil, metis append_Cons)
  next
    assume ?r
    then obtain a b where ab: "x # xs = a @ p @ b" by blast
    show ?l
    proof (cases a)
      case Nil
      then have "starts_with p (x # xs)" using ab by (metis starts_with_iff append_Nil)
      then show ?thesis by simp
    next
      case (Cons y ys)
      then show ?thesis using ab IH by auto
    qed
  qed
qed auto

end
