(* ===== verification/Tri_State.thy ===== *)
theory Tri_State
  imports WC_Prelude
begin

text \<open>
  Lazy logic. The routing engine and the rule sets evaluate conditions while the process and the
  destination address of a connection may be unknown; both use a type of results with a positive
  value, a negative value and values that ask for missing metadata, and both combine them with the
  same loops. The loops are defined here over such a type; the locale states what the type must
  offer, and shows that the combinations depend only on which values occur, and that answers that do
  not ask for a kind of metadata stay the same once it is known.
\<close>

fun any_loop :: "'o \<Rightarrow> 'o \<Rightarrow> (bool \<Rightarrow> bool \<Rightarrow> 'o) \<Rightarrow> ('o \<Rightarrow> bool \<times> bool) \<Rightarrow> bool \<Rightarrow> bool \<Rightarrow> 'o list \<Rightarrow> 'o" where
  "any_loop yes no postpone req needs_process needs_destination_ip [] = postpone needs_process needs_destination_ip"
| "any_loop yes no postpone req needs_process needs_destination_ip (s # ss) =
    (if s = yes then yes
     else if s = no then any_loop yes no postpone req needs_process needs_destination_ip ss
     else any_loop yes no postpone req (needs_process \<or> fst (req s)) (needs_destination_ip \<or> snd (req s)) ss)"

fun all_loop :: "'o \<Rightarrow> 'o \<Rightarrow> (bool \<Rightarrow> bool \<Rightarrow> 'o) \<Rightarrow> ('o \<Rightarrow> bool \<times> bool) \<Rightarrow> bool \<Rightarrow> bool \<Rightarrow> 'o list \<Rightarrow> 'o" where
  "all_loop yes no postpone req needs_process needs_destination_ip [] =
    (if needs_process \<or> needs_destination_ip then postpone needs_process needs_destination_ip else yes)"
| "all_loop yes no postpone req needs_process needs_destination_ip (s # ss) =
    (if s = no then no
     else if s = yes then all_loop yes no postpone req needs_process needs_destination_ip ss
     else all_loop yes no postpone req (needs_process \<or> fst (req s)) (needs_destination_ip \<or> snd (req s)) ss)"

definition not_state :: "'o \<Rightarrow> 'o \<Rightarrow> 'o \<Rightarrow> 'o" where
  "not_state yes no s = (if s = yes then no else if s = no then yes else s)"

text \<open>\<open>s'\<close> is what \<open>s\<close> may become when the metadata selected by \<open>need\<close> becomes known.\<close>

definition settles :: "('o \<Rightarrow> bool \<times> bool) \<Rightarrow> (bool \<times> bool \<Rightarrow> bool) \<Rightarrow> 'o \<Rightarrow> 'o \<Rightarrow> bool" where
  "settles req need s s' \<longleftrightarrow> need (req s) \<or> s' = s"

lemma settles_refl [simp, intro]: "settles req need s s"
  by (simp add: settles_def)

lemma settles_map:
  "(\<And>c. c \<in> set cs \<Longrightarrow> settles req need (f c) (g c)) \<Longrightarrow> list_all2 (settles req need) (map f cs) (map g cs)"
  by (simp add: list_all2_conv_all_nth)

locale lazy_logic =
  fixes yes no :: 'o and postpone :: "bool \<Rightarrow> bool \<Rightarrow> 'o" and req :: "'o \<Rightarrow> bool \<times> bool"
  assumes yes_no: "yes \<noteq> no"
    and req_definite: "req yes = (False, False)" "req no = (False, False)"
    and postpone_none: "postpone False False = no"
    and req_postpone: "req (postpone p d) = (p, d)"
begin

lemma any_loop_acc:
  "any_loop yes no postpone req p d ss =
    (if yes \<in> set ss then yes
     else postpone (p \<or> (\<exists>s \<in> set ss. fst (req s))) (d \<or> (\<exists>s \<in> set ss. snd (req s))))"
  by (induction ss arbitrary: p d) (auto simp: req_definite)

lemma all_loop_acc:
  "all_loop yes no postpone req p d ss =
    (if no \<in> set ss then no
     else if p \<or> d \<or> (\<exists>s \<in> set ss. fst (req s) \<or> snd (req s))
     then postpone (p \<or> (\<exists>s \<in> set ss. fst (req s))) (d \<or> (\<exists>s \<in> set ss. snd (req s)))
     else yes)"
  using yes_no by (induction ss arbitrary: p d) (auto simp: req_definite)

lemmas any_loop_eq = any_loop_acc [of False False, simplified]
lemmas all_loop_eq = all_loop_acc [of False False, simplified]

lemma settles_same:
  "list_all2 (settles req need) ss ss' \<Longrightarrow> \<forall>s \<in> set ss. \<not> need (req s) \<Longrightarrow> ss' = ss"
  by (induction rule: list_all2_induct) (auto simp: settles_def)

lemma settles_keeps:
  "list_all2 (settles req need) ss ss' \<Longrightarrow> v \<in> set ss \<Longrightarrow> \<not> need (req v) \<Longrightarrow> v \<in> set ss'"
  by (induction rule: list_all2_induct) (auto simp: settles_def)

lemma any_settles:
  assumes "list_all2 (settles req need) ss ss'" "need = fst \<or> need = snd"
  shows "settles req need (any_loop yes no postpone req False False ss) (any_loop yes no postpone req False False ss')"
proof (cases "yes \<in> set ss")
  case True
  then have "yes \<in> set ss'" using settles_keeps [OF assms(1), of yes] assms(2) by (auto simp: req_definite)
  then show ?thesis using True by (simp add: any_loop_eq)
next
  case False
  show ?thesis
  proof (cases "\<exists>s \<in> set ss. need (req s)")
    case True
    then show ?thesis using False assms(2) by (auto simp: any_loop_eq settles_def req_postpone)
  next
    case False
    then show ?thesis using settles_same [OF assms(1)] by auto
  qed
qed

lemma all_settles:
  assumes "list_all2 (settles req need) ss ss'" "need = fst \<or> need = snd"
  shows "settles req need (all_loop yes no postpone req False False ss) (all_loop yes no postpone req False False ss')"
proof (cases "no \<in> set ss")
  case True
  then have "no \<in> set ss'" using settles_keeps [OF assms(1), of no] assms(2) by (auto simp: req_definite)
  then show ?thesis using True by (simp add: all_loop_eq)
next
  case False
  show ?thesis
  proof (cases "\<exists>s \<in> set ss. need (req s)")
    case True
    then show ?thesis using True False assms(2) by (auto simp: all_loop_eq settles_def req_postpone)
  next
    case False
    then show ?thesis using settles_same [OF assms(1)] by auto
  qed
qed

lemma not_settles: "settles req need s s' \<Longrightarrow> settles req need (not_state yes no s) (not_state yes no s')"
  if "need = fst \<or> need = snd"
  using that yes_no by (auto simp: settles_def not_state_def req_definite)

text \<open>With everything known, the loops are the boolean connectives.\<close>

lemma definite_any:
  assumes "\<forall>s \<in> set ss. s = yes \<or> s = no"
  shows "any_loop yes no postpone req False False ss = (if yes \<in> set ss then yes else no)"
proof -
  have "(\<exists>s \<in> set ss. fst (req s)) = False" "(\<exists>s \<in> set ss. snd (req s)) = False"
    using assms by (auto simp: req_definite)
  then show ?thesis by (simp add: any_loop_eq postpone_none)
qed

lemma definite_all:
  assumes "\<forall>s \<in> set ss. s = yes \<or> s = no"
  shows "all_loop yes no postpone req False False ss = (if no \<in> set ss then no else yes)"
  using assms by (auto simp: all_loop_eq req_definite)

text \<open>A kind of metadata that no operand asks for is not asked for by the combination.\<close>

lemma any_asks_not:
  "need = fst \<or> need = snd \<Longrightarrow> \<forall>s \<in> set ss. \<not> need (req s) \<Longrightarrow>
     \<not> need (req (any_loop yes no postpone req False False ss))"
  by (auto simp: any_loop_eq req_definite req_postpone)

lemma all_asks_not:
  "need = fst \<or> need = snd \<Longrightarrow> \<forall>s \<in> set ss. \<not> need (req s) \<Longrightarrow>
     \<not> need (req (all_loop yes no postpone req False False ss))"
  by (auto simp: all_loop_eq req_definite req_postpone)

lemma not_asks_not:
  "need = fst \<or> need = snd \<Longrightarrow> \<not> need (req s) \<Longrightarrow> \<not> need (req (not_state yes no s))"
  by (auto simp: not_state_def req_definite)

end

end
