(* ===== verification/Ruleset_IR.thy ===== *)
theory Ruleset_IR
  imports Std_Str Tri_State
begin

text \<open>
  The semantic rule sets of \<open>core-ruleset/src/ir.rs\<close>: a boolean expression tree over predicates on a
  connection, evaluated either with all metadata at hand (\<open>matches\<close>) or lazily, while the process
  and the destination address may still be unknown (\<open>matches_lazy\<close>).

  The record \<open>ext_env\<close> holds the third-party code the routing crates call (\<open>idna\<close>, \<open>regex\<close>,
  \<open>fancy_regex\<close>, \<open>globset\<close>, \<open>aho-corasick\<close>, \<open>ipnet\<close>), the Unicode tables and the target platform.
  An \<open>IpNet\<close> is its address family, address and prefix length; what it contains is decided by the
  library. A \<open>RegexSet\<close> is the list of its patterns.
\<close>

unbundle bit_operations_syntax

datatype ip_net = V4_Net u32 nat | V6_Net u128 nat

datatype regex_set = Regex_Set (rs_patterns: "string list")

record ext_env =
  x_unicode :: unicode
  x_android :: bool
  x_domain_to_ascii :: "string \<Rightarrow> string option"
  x_regex :: "string \<Rightarrow> (string \<Rightarrow> bool) option"
  x_regex_ci :: "string \<Rightarrow> (string \<Rightarrow> bool) option"
  x_fancy :: "string \<Rightarrow> (string \<Rightarrow> bool option) option"
  x_regex_set :: "regex_set \<Rightarrow> string \<Rightarrow> bool"
  x_glob :: "string \<Rightarrow> (string \<Rightarrow> bool) option"
  x_aho :: "string list \<Rightarrow> (string \<Rightarrow> nat list) option"
  x_parse_net :: "string \<Rightarrow> ip_net option"
  x_contains :: "ip_net \<Rightarrow> ip_addr \<Rightarrow> bool"
  x_network :: "ip_net \<Rightarrow> ip_addr"

section \<open>The connection a rule set is matched against\<close>

record interface_address =
  ia_interface_type :: u8
  ia_address :: ip_net
  ia_is_own :: bool

record rs_context =
  c_dst_host :: string
  c_dst_ip :: "ip_addr option"
  c_dst_port :: "u16 option"
  c_src_ip :: "ip_addr option"
  c_src_port :: "u16 option"
  c_network :: "string option"
  c_process_name :: "string option"
  c_query_type :: "u16 option"
  c_process_path :: "string option"
  c_inbound_port :: "u16 option"
  c_inbound_type :: "string option"
  c_inbound_user :: "string option"
  c_inbound_name :: "string option"
  c_uid :: "u32 option"
  c_dscp :: "u8 option"
  c_destination_geoip :: "string list"
  c_source_geoip :: "string list"
  c_destination_geosite :: "string list"
  c_destination_asn :: "u32 option"
  c_source_asn :: "u32 option"
  c_rematch_names :: "string list"
  c_package_names :: "string list"
  c_wifi_ssid :: "string option"
  c_wifi_bssid :: "string option"
  c_network_type :: "u8 option"
  c_network_is_expensive :: "bool option"
  c_network_is_constrained :: "bool option"
  c_network_interface_addresses :: "interface_address list"
  c_default_interface_addresses :: "ip_net list"

record port_range =
  pr_start :: u16
  pr_end :: u16

definition port_range_new :: "u16 \<Rightarrow> u16 \<Rightarrow> port_range option" where
  "port_range_new start stop = (if start \<le> stop then Some \<lparr>pr_start = start, pr_end = stop\<rparr> else None)"

definition port_range_contains :: "port_range \<Rightarrow> u16 \<Rightarrow> bool" where
  "port_range_contains r port \<longleftrightarrow> pr_start r \<le> port \<and> port \<le> pr_end r"

section \<open>Names and addresses\<close>

definition normalize_domain :: "ext_env \<Rightarrow> string \<Rightarrow> string" where
  "normalize_domain x value =
    (let trimmed = trim_end_matches CHR ''.'' (trim (x_unicode x) value)
     in to_lowercase (x_unicode x)
          (case x_domain_to_ascii x trimmed of Some a \<Rightarrow> a | None \<Rightarrow> to_lowercase (x_unicode x) trimmed))"

definition singbox_domain :: "ext_env \<Rightarrow> string \<Rightarrow> string" where
  "singbox_domain x value = to_lowercase (x_unicode x) value"

text \<open>\<open>chars().rev()\<close> reverses the characters and keeps the bytes of each in order.\<close>

definition reverse_domain :: "string \<Rightarrow> string" where
  "reverse_domain value = concat (rev (utf8_chars value))"

definition is_ascii_hexdigit :: "char \<Rightarrow> bool" where
  "is_ascii_hexdigit c \<longleftrightarrow> to_digit 16 c \<noteq> None"

definition normalize_wifi_bssid :: "ext_env \<Rightarrow> string \<Rightarrow> string" where
  "normalize_wifi_bssid x value =
    (let trimmed = trim (x_unicode x) value;
         compact = filter (\<lambda>c. c \<notin> {CHR '':'', CHR ''-'', CHR ''.''}) trimmed
     in if length compact = 12 \<and> list_all is_ascii_hexdigit compact
        then to_ascii_lowercase (join_with '':'' (chunks_exact 2 compact))
        else trimmed)"

fun ip_networks_overlap :: "ext_env \<Rightarrow> ip_net \<Rightarrow> ip_net \<Rightarrow> bool" where
  "ip_networks_overlap x (V4_Net a p) (V4_Net b q) \<longleftrightarrow>
     x_contains x (V4_Net a p) (x_network x (V4_Net b q)) \<or> x_contains x (V4_Net b q) (x_network x (V4_Net a p))"
| "ip_networks_overlap x (V6_Net a p) (V6_Net b q) \<longleftrightarrow>
     x_contains x (V6_Net a p) (x_network x (V6_Net b q)) \<or> x_contains x (V6_Net b q) (x_network x (V6_Net a p))"
| "ip_networks_overlap x _ _ \<longleftrightarrow> False"

definition domain_has_suffix :: "string \<Rightarrow> string \<Rightarrow> bool" where
  "domain_has_suffix host sfx =
    (if starts_with ''.'' sfx
     then 1 < length sfx \<and> length sfx < length host \<and> ends_with sfx host
     else host = sfx \<or>
       (length sfx < length host \<and> ends_with sfx host \<and>
        host ! (length host - length sfx - 1) = CHR ''.''))"

definition destination_ip :: "rs_context \<Rightarrow> ip_addr option" where
  "destination_ip ctx = (case c_dst_ip ctx of Some ip \<Rightarrow> Some ip | None \<Rightarrow> parse_ip (c_dst_host ctx))"

section \<open>Compact domain sets\<close>

text \<open>
  A trie whose edges are numbered: edge \<open>i\<close> leads to node \<open>i + 1\<close>. Reading a vector out of range
  panics, which is the value \<open>None\<close>.
\<close>

record compact_domain_set =
  cd_leaves :: "u64 list"
  cd_child_offsets :: "u32 list"
  cd_labels :: bytes
  cd_terminal_count :: nat

definition compact_new :: "u64 list \<Rightarrow> u32 list \<Rightarrow> bytes \<Rightarrow> nat \<Rightarrow> compact_domain_set" where
  "compact_new leaves child_offsets labels terminal_count =
     \<lparr>cd_leaves = leaves, cd_child_offsets = child_offsets, cd_labels = labels, cd_terminal_count = terminal_count\<rparr>"

definition is_leaf :: "compact_domain_set \<Rightarrow> nat \<Rightarrow> bool" where
  "is_leaf s node \<longleftrightarrow> node div 64 < length (cd_leaves s) \<and>
     cd_leaves s ! (node div 64) AND push_bit (node mod 64) 1 \<noteq> 0"

definition children :: "compact_domain_set \<Rightarrow> nat \<Rightarrow> nat list option" where
  "children s node =
     (if node + 1 < length (cd_child_offsets s)
      then Some [unat (cd_child_offsets s ! node)..<unat (cd_child_offsets s ! (node + 1))] else None)"

definition label :: "compact_domain_set \<Rightarrow> nat \<Rightarrow> byte option" where
  "label s edge = (if edge < length (cd_labels s) then Some (cd_labels s ! edge) else None)"

datatype edge_step = Hit | Go nat | Stuck

fun domain_edge :: "compact_domain_set \<Rightarrow> byte \<Rightarrow> nat list \<Rightarrow> edge_step option" where
  "domain_edge s current [] = Some Stuck"
| "domain_edge s current (edge # edges) =
    (case label s edge of None \<Rightarrow> None
     | Some l \<Rightarrow>
         if l = 13 then Some Hit
         else if l = 10 \<and> current = 46 \<and> is_leaf s (edge + 1) then Some Hit
         else if l = current then Some (Go (edge + 1))
         else domain_edge s current edges)"

fun any_label :: "compact_domain_set \<Rightarrow> byte list \<Rightarrow> nat list \<Rightarrow> bool option" where
  "any_label s ls [] = Some False"
| "any_label s ls (edge # edges) =
    (case label s edge of None \<Rightarrow> None | Some l \<Rightarrow> if l \<in> set ls then Some True else any_label s ls edges)"

fun domain_walk :: "compact_domain_set \<Rightarrow> bytes \<Rightarrow> nat \<Rightarrow> bool option" where
  "domain_walk s [] node =
    (if is_leaf s node then Some True
     else case children s node of None \<Rightarrow> None | Some edges \<Rightarrow> any_label s [13, 10] edges)"
| "domain_walk s (current # key) node =
    (case children s node of None \<Rightarrow> None
     | Some edges \<Rightarrow>
         (case domain_edge s current edges of
            None \<Rightarrow> None
          | Some Hit \<Rightarrow> Some True
          | Some Stuck \<Rightarrow> Some False
          | Some (Go n) \<Rightarrow> domain_walk s key n))"

definition matches_domain :: "compact_domain_set \<Rightarrow> string \<Rightarrow> bool option" where
  "matches_domain s domain = domain_walk s (as_bytes (reverse_domain domain)) 0"

text \<open>
  The AdGuard matcher backtracks, with a bound of 100 on the recursion depth and a budget of calls
  shared by the whole query. The first argument after the set is the depth that is left,
  \<open>MAX_DEPTH + 1 - depth\<close>; the budget is returned with the answer.
\<close>

definition MAX_DEPTH :: nat where "MAX_DEPTH = 100"

fun key_suffixes :: "bytes \<Rightarrow> bytes list" where
  "key_suffixes [] = [[]]"
| "key_suffixes (k # ks) = (k # ks) # key_suffixes ks"

function (sequential) adguard_has :: "compact_domain_set \<Rightarrow> nat \<Rightarrow> bytes \<Rightarrow> nat \<Rightarrow> nat \<Rightarrow> (bool \<times> nat) option"
  and adguard_walk :: "compact_domain_set \<Rightarrow> nat \<Rightarrow> bytes \<Rightarrow> nat \<Rightarrow> nat \<Rightarrow> (bool \<times> nat) option"
  and adguard_edges :: "compact_domain_set \<Rightarrow> nat \<Rightarrow> byte \<Rightarrow> bytes \<Rightarrow> nat list \<Rightarrow> nat \<Rightarrow> (bool \<times> nat) option"
  and adguard_jumps :: "compact_domain_set \<Rightarrow> nat \<Rightarrow> bytes list \<Rightarrow> nat \<Rightarrow> nat \<Rightarrow> (bool \<times> nat) option"
  and adguard_end :: "compact_domain_set \<Rightarrow> nat \<Rightarrow> nat list \<Rightarrow> nat \<Rightarrow> (bool \<times> nat) option"
where
  "adguard_has s 0 key node budget = Some (False, budget)"
| "adguard_has s (Suc left) key node budget =
    (if budget = 0 then Some (False, 0) else adguard_walk s left key node (budget - 1))"
| "adguard_walk s left [] node budget =
    (if is_leaf s node then Some (True, budget)
     else case children s node of None \<Rightarrow> None | Some edges \<Rightarrow> adguard_end s left edges budget)"
| "adguard_walk s left (current # key) node budget =
    (case children s node of None \<Rightarrow> None | Some edges \<Rightarrow> adguard_edges s left current key edges budget)"
| "adguard_edges s left current key [] budget = Some (False, budget)"
| "adguard_edges s left current key (edge # edges) budget =
    (case label s edge of None \<Rightarrow> None
     | Some l \<Rightarrow>
         if l = 13 then Some (True, budget)
         else if l = 10 \<and> current = 46 \<and> is_leaf s (edge + 1) then Some (True, budget)
         else if l = current then adguard_walk s left key (edge + 1) budget
         else if l = 42 \<or> l = 8
         then (case adguard_jumps s left (key_suffixes (current # key)) (edge + 1) budget of
                 None \<Rightarrow> None
               | Some (True, budget') \<Rightarrow> Some (True, budget')
               | Some (False, budget') \<Rightarrow> adguard_edges s left current key edges budget')
         else adguard_edges s left current key edges budget)"
| "adguard_jumps s left [] child budget = Some (False, budget)"
| "adguard_jumps s left (key # keys) child budget =
    (case adguard_has s left key child budget of
       None \<Rightarrow> None
     | Some (True, budget') \<Rightarrow> Some (True, budget')
     | Some (False, budget') \<Rightarrow> adguard_jumps s left keys child budget')"
| "adguard_end s left [] budget = Some (False, budget)"
| "adguard_end s left (edge # edges) budget =
    (case label s edge of None \<Rightarrow> None
     | Some l \<Rightarrow>
         if l = 13 \<or> l = 10 \<or> l = 8 then Some (True, budget)
         else if l = 42
         then (case adguard_has s left [] (edge + 1) budget of
                 None \<Rightarrow> None
               | Some (True, budget') \<Rightarrow> Some (True, budget')
               | Some (False, budget') \<Rightarrow> adguard_end s left edges budget')
         else adguard_end s left edges budget)"
  by pat_completeness auto
termination
  by (relation "measures [
      case_sum (case_sum (\<lambda>(s, left, r). left) (\<lambda>(s, left, r). left))
        (case_sum (\<lambda>(s, left, r). left) (case_sum (\<lambda>(s, left, r). left) (\<lambda>(s, left, r). left))),
      case_sum (case_sum (\<lambda>_. 0) (\<lambda>(s, left, key, r). 2 * length key + 1))
        (case_sum (\<lambda>(s, left, c, key, r). 2 * length key + 2) (case_sum (\<lambda>_. 1) (\<lambda>_. 0))),
      case_sum (case_sum (\<lambda>_. 0) (\<lambda>_. 0))
        (case_sum (\<lambda>(s, left, c, key, es, r). length es)
          (case_sum (\<lambda>(s, left, ks, r). length ks) (\<lambda>(s, left, es, r). Suc (length es))))]") auto

lemma shorter_after_label: "x \<in> set key \<Longrightarrow> length (tl (dropWhile (\<lambda>b. b \<noteq> x) key)) < length key"
  using length_dropWhile_le [of "\<lambda>b. b \<noteq> x" key] by (cases "dropWhile (\<lambda>b. b \<noteq> x) key") auto

text \<open>The loop that retries with the leading labels of the key dropped.\<close>

function adguard_suffixes :: "compact_domain_set \<Rightarrow> bytes \<Rightarrow> nat \<Rightarrow> bool option" where
  "adguard_suffixes s key budget =
    (case adguard_has s (MAX_DEPTH + 1) (8 # key) 0 budget of
       None \<Rightarrow> None
     | Some (True, budget') \<Rightarrow> Some True
     | Some (False, budget') \<Rightarrow>
         if 46 \<in> set key then adguard_suffixes s (tl (dropWhile (\<lambda>b. b \<noteq> 46) key)) budget'
         else Some False)"
  by pat_completeness auto
termination
  by (relation "measure (\<lambda>(s, key, budget). length key)") (auto dest: shorter_after_label)

definition matches_adguard :: "compact_domain_set \<Rightarrow> string \<Rightarrow> bool option" where
  "matches_adguard s domain =
    (let key = as_bytes (reverse_domain domain)
     in case adguard_has s (MAX_DEPTH + 1) key 0 1000000 of
          None \<Rightarrow> None
        | Some (True, budget) \<Rightarrow> Some True
        | Some (False, budget) \<Rightarrow> adguard_suffixes s key budget)"

declare adguard_suffixes.simps [simp del]

section \<open>Predicates\<close>

datatype ruleset_predicate =
    P_Domain "string list"
  | P_DomainSuffix "string list"
  | P_DomainKeyword "string list"
  | P_DomainRegex regex_set
  | P_DstIpCidr "ip_net list"
  | P_SrcIpCidr "ip_net list"
  | P_DstPort "port_range list"
  | P_SrcPort "port_range list"
  | P_ProcessName "string list"
  | P_Network "string list"
  | P_SingboxDomainMatcher compact_domain_set
  | P_SingboxDomainKeyword "string list"
  | P_SingboxDomainRegex regex_set
  | P_SingboxNetwork "string list"
  | P_QueryType "u16 list"
  | P_ProcessPath "string list"
  | P_ProcessPathRegex regex_set
  | P_PackageName "string list"
  | P_PackageNameRegex regex_set
  | P_WifiSsid "string list"
  | P_WifiBssid "string list"
  | P_NetworkType "u8 list"
  | P_NetworkIsExpensive
  | P_NetworkIsConstrained
  | P_NetworkInterfaceAddress "(u8 \<times> ip_net list) list"
  | P_DefaultInterfaceAddress "ip_net list"
  | P_AdGuardDomainMatcher compact_domain_set

definition on_some :: "'a option \<Rightarrow> ('a \<Rightarrow> bool) \<Rightarrow> bool" where
  "on_some v p = (case v of None \<Rightarrow> False | Some a \<Rightarrow> p a)"

text \<open>
  The two compact matchers panic on a set whose vectors do not fit together; the decoder of the
  binary format builds none (see \<open>cd_wf\<close> below), so that their answer is the value inside.
\<close>

fun predicate_matches :: "ext_env \<Rightarrow> rs_context \<Rightarrow> ruleset_predicate \<Rightarrow> bool" where
  "predicate_matches x ctx (P_Domain domains) =
    (let host = normalize_domain x (c_dst_host ctx) in host \<noteq> [] \<and> list_ex (\<lambda>d. host = d) domains)"
| "predicate_matches x ctx (P_DomainSuffix sfxs) =
    (let host = normalize_domain x (c_dst_host ctx) in host \<noteq> [] \<and> list_ex (domain_has_suffix host) sfxs)"
| "predicate_matches x ctx (P_DomainKeyword keywords) =
    (let host = normalize_domain x (c_dst_host ctx) in host \<noteq> [] \<and> list_ex (\<lambda>k. contains_str k host) keywords)"
| "predicate_matches x ctx (P_DomainRegex regex) =
    (let host = normalize_domain x (c_dst_host ctx) in host \<noteq> [] \<and> x_regex_set x regex host)"
| "predicate_matches x ctx (P_DstIpCidr networks) =
    on_some (destination_ip ctx) (\<lambda>ip. list_ex (\<lambda>n. x_contains x n ip) networks)"
| "predicate_matches x ctx (P_SrcIpCidr networks) =
    on_some (c_src_ip ctx) (\<lambda>ip. list_ex (\<lambda>n. x_contains x n ip) networks)"
| "predicate_matches x ctx (P_DstPort ranges) =
    on_some (c_dst_port ctx) (\<lambda>port. list_ex (\<lambda>r. port_range_contains r port) ranges)"
| "predicate_matches x ctx (P_SrcPort ranges) =
    on_some (c_src_port ctx) (\<lambda>port. list_ex (\<lambda>r. port_range_contains r port) ranges)"
| "predicate_matches x ctx (P_ProcessName names) =
    on_some (c_process_name ctx) (\<lambda>name. list_ex (\<lambda>c. c = name) names)"
| "predicate_matches x ctx (P_Network networks) =
    on_some (c_network ctx) (\<lambda>network. list_ex (\<lambda>c. eq_ignore_ascii_case c network) networks)"
| "predicate_matches x ctx (P_SingboxDomainMatcher matcher) =
    (let host = singbox_domain x (c_dst_host ctx) in host \<noteq> [] \<and> matches_domain matcher host = Some True)"
| "predicate_matches x ctx (P_SingboxDomainKeyword keywords) =
    (let host = singbox_domain x (c_dst_host ctx) in host \<noteq> [] \<and> list_ex (\<lambda>k. contains_str k host) keywords)"
| "predicate_matches x ctx (P_SingboxDomainRegex regex) =
    (let host = singbox_domain x (c_dst_host ctx) in host \<noteq> [] \<and> x_regex_set x regex host)"
| "predicate_matches x ctx (P_SingboxNetwork networks) =
    on_some (c_network ctx) (\<lambda>network. list_ex (\<lambda>c. c = network) networks)"
| "predicate_matches x ctx (P_QueryType types) =
    on_some (c_query_type ctx) (\<lambda>t. t \<noteq> 0 \<and> t \<in> set types)"
| "predicate_matches x ctx (P_ProcessPath paths) =
    (on_some (c_process_path ctx) (\<lambda>path. path \<noteq> [] \<and> list_ex (\<lambda>c. c = path) paths) \<or>
     x_android x \<and> list_ex (\<lambda>package. package \<in> set paths) (c_package_names ctx))"
| "predicate_matches x ctx (P_ProcessPathRegex regex) =
    on_some (c_process_path ctx) (\<lambda>path. path \<noteq> [] \<and> x_regex_set x regex path)"
| "predicate_matches x ctx (P_PackageName packages) =
    list_ex (\<lambda>package. package \<in> set packages) (c_package_names ctx)"
| "predicate_matches x ctx (P_PackageNameRegex regex) = list_ex (x_regex_set x regex) (c_package_names ctx)"
| "predicate_matches x ctx (P_WifiSsid values) =
    on_some (c_wifi_ssid ctx) (\<lambda>ssid. list_ex (\<lambda>c. c = ssid) values)"
| "predicate_matches x ctx (P_WifiBssid values) =
    on_some (c_wifi_bssid ctx) (\<lambda>b. let bssid = normalize_wifi_bssid x b in list_ex (\<lambda>c. c = bssid) values)"
| "predicate_matches x ctx (P_NetworkType types) = on_some (c_network_type ctx) (\<lambda>t. t \<in> set types)"
| "predicate_matches x ctx P_NetworkIsExpensive = (c_network_is_expensive ctx = Some True)"
| "predicate_matches x ctx P_NetworkIsConstrained = (c_network_is_constrained ctx = Some True)"
| "predicate_matches x ctx (P_NetworkInterfaceAddress requirements) =
    (c_network_interface_addresses ctx \<noteq> [] \<and>
     list_all (\<lambda>(interface_type, nets).
       list_ex (\<lambda>i. \<not> ia_is_own i \<and> ia_interface_type i = interface_type \<and>
           list_ex (\<lambda>p. ip_networks_overlap x p (ia_address i)) nets)
         (c_network_interface_addresses ctx)) requirements)"
| "predicate_matches x ctx (P_DefaultInterfaceAddress nets) =
    (c_default_interface_addresses ctx \<noteq> [] \<and>
     list_all (\<lambda>p. list_ex (ip_networks_overlap x p) (c_default_interface_addresses ctx)) nets)"
| "predicate_matches x ctx (P_AdGuardDomainMatcher matcher) =
    (let host = singbox_domain x (c_dst_host ctx) in host \<noteq> [] \<and> matches_adguard matcher host = Some True)"

fun requires_process_metadata :: "ruleset_predicate \<Rightarrow> bool" where
  "requires_process_metadata (P_ProcessName _) = True"
| "requires_process_metadata (P_ProcessPath _) = True"
| "requires_process_metadata (P_ProcessPathRegex _) = True"
| "requires_process_metadata (P_PackageName _) = True"
| "requires_process_metadata (P_PackageNameRegex _) = True"
| "requires_process_metadata _ = False"

fun requires_destination_ip :: "ruleset_predicate \<Rightarrow> bool" where
  "requires_destination_ip (P_DstIpCidr _) = True"
| "requires_destination_ip _ = False"

fun predicate_item_count :: "ruleset_predicate \<Rightarrow> nat" where
  "predicate_item_count (P_Domain items) = length items"
| "predicate_item_count (P_DomainSuffix items) = length items"
| "predicate_item_count (P_DomainKeyword items) = length items"
| "predicate_item_count (P_ProcessName items) = length items"
| "predicate_item_count (P_Network items) = length items"
| "predicate_item_count (P_SingboxDomainKeyword items) = length items"
| "predicate_item_count (P_SingboxNetwork items) = length items"
| "predicate_item_count (P_ProcessPath items) = length items"
| "predicate_item_count (P_PackageName items) = length items"
| "predicate_item_count (P_WifiSsid items) = length items"
| "predicate_item_count (P_WifiBssid items) = length items"
| "predicate_item_count (P_DomainRegex items) = length (rs_patterns items)"
| "predicate_item_count (P_SingboxDomainRegex items) = length (rs_patterns items)"
| "predicate_item_count (P_ProcessPathRegex items) = length (rs_patterns items)"
| "predicate_item_count (P_PackageNameRegex items) = length (rs_patterns items)"
| "predicate_item_count (P_DstIpCidr items) = length items"
| "predicate_item_count (P_SrcIpCidr items) = length items"
| "predicate_item_count (P_DstPort items) = length items"
| "predicate_item_count (P_SrcPort items) = length items"
| "predicate_item_count (P_SingboxDomainMatcher items) = cd_terminal_count items"
| "predicate_item_count (P_AdGuardDomainMatcher items) = cd_terminal_count items"
| "predicate_item_count (P_QueryType items) = length items"
| "predicate_item_count (P_NetworkType items) = length items"
| "predicate_item_count P_NetworkIsExpensive = 1"
| "predicate_item_count P_NetworkIsConstrained = 1"
| "predicate_item_count (P_NetworkInterfaceAddress items) = sum_list (map (\<lambda>(_, nets). length nets) items)"
| "predicate_item_count (P_DefaultInterfaceAddress items) = length items"

section \<open>Expressions\<close>

datatype ruleset_expr =
    E_Any "ruleset_expr list"
  | E_All "ruleset_expr list"
  | E_Not ruleset_expr
  | E_Predicate ruleset_predicate

datatype match_outcome =
  O_Matched | O_NotMatched | O_NeedsProcess | O_NeedsDestinationIp | O_NeedsProcessAndDestinationIp

fun outcome_deferred :: "bool \<Rightarrow> bool \<Rightarrow> match_outcome" where
  "outcome_deferred False False = O_NotMatched"
| "outcome_deferred True False = O_NeedsProcess"
| "outcome_deferred False True = O_NeedsDestinationIp"
| "outcome_deferred True True = O_NeedsProcessAndDestinationIp"

fun outcome_requirements :: "match_outcome \<Rightarrow> bool \<times> bool" where
  "outcome_requirements O_NeedsProcess = (True, False)"
| "outcome_requirements O_NeedsDestinationIp = (False, True)"
| "outcome_requirements O_NeedsProcessAndDestinationIp = (True, True)"
| "outcome_requirements O_Matched = (False, False)"
| "outcome_requirements O_NotMatched = (False, False)"

fun expr_matches :: "ext_env \<Rightarrow> rs_context \<Rightarrow> ruleset_expr \<Rightarrow> bool" where
  "expr_matches x ctx (E_Any parts) = list_ex (expr_matches x ctx) parts"
| "expr_matches x ctx (E_All parts) = list_all (expr_matches x ctx) parts"
| "expr_matches x ctx (E_Not child) = (\<not> expr_matches x ctx child)"
| "expr_matches x ctx (E_Predicate p) = predicate_matches x ctx p"

fun expr_item_count :: "ruleset_expr \<Rightarrow> nat" where
  "expr_item_count (E_Any parts) = sum_list (map expr_item_count parts)"
| "expr_item_count (E_All parts) = sum_list (map expr_item_count parts)"
| "expr_item_count (E_Not child) = expr_item_count child"
| "expr_item_count (E_Predicate p) = predicate_item_count p"

fun matches_lazy :: "ext_env \<Rightarrow> rs_context \<Rightarrow> bool \<Rightarrow> bool \<Rightarrow> ruleset_expr \<Rightarrow> match_outcome" where
  "matches_lazy x ctx process_resolved destination_ip_resolved (E_Any parts) =
    any_loop O_Matched O_NotMatched outcome_deferred outcome_requirements False False
      (map (matches_lazy x ctx process_resolved destination_ip_resolved) parts)"
| "matches_lazy x ctx process_resolved destination_ip_resolved (E_All parts) =
    all_loop O_Matched O_NotMatched outcome_deferred outcome_requirements False False
      (map (matches_lazy x ctx process_resolved destination_ip_resolved) parts)"
| "matches_lazy x ctx process_resolved destination_ip_resolved (E_Not child) =
    not_state O_Matched O_NotMatched (matches_lazy x ctx process_resolved destination_ip_resolved child)"
| "matches_lazy x ctx process_resolved destination_ip_resolved (E_Predicate p) =
    (let needs_process = \<not> process_resolved \<and> requires_process_metadata p;
         needs_destination_ip = \<not> destination_ip_resolved \<and> requires_destination_ip p
     in if needs_process \<or> needs_destination_ip then outcome_deferred needs_process needs_destination_ip
        else if predicate_matches x ctx p then O_Matched else O_NotMatched)"

text \<open>
  The traversal calls a visitor on every destination network and stops when it answers \<open>False\<close>; the
  visitor's state is threaded through.
\<close>

fun visit_all :: "('a \<Rightarrow> 's \<Rightarrow> bool \<times> 's) \<Rightarrow> 'a list \<Rightarrow> 's \<Rightarrow> bool \<times> 's" where
  "visit_all f [] st = (True, st)"
| "visit_all f (a # as) st = (case f a st of (True, st') \<Rightarrow> visit_all f as st' | (False, st') \<Rightarrow> (False, st'))"

lemma visit_all_cong [fundef_cong]:
  "as = bs \<Longrightarrow> st = st' \<Longrightarrow> (\<And>a s. a \<in> set bs \<Longrightarrow> f a s = g a s) \<Longrightarrow> visit_all f as st = visit_all g bs st'"
proof (induction as arbitrary: bs st st')
  case (Cons a as)
  have *: "visit_all f as s = visit_all g as s" for s using Cons.IH [of as s s] Cons.prems by auto
  show ?case using Cons.prems by (auto simp: * split: prod.split bool.split)
qed simp

fun visit_destination_ip_cidrs :: "(ip_net \<Rightarrow> 's \<Rightarrow> bool \<times> 's) \<Rightarrow> ruleset_expr \<Rightarrow> 's \<Rightarrow> bool \<times> 's" where
  "visit_destination_ip_cidrs v (E_Any parts) st = visit_all (visit_destination_ip_cidrs v) parts st"
| "visit_destination_ip_cidrs v (E_All parts) st = visit_all (visit_destination_ip_cidrs v) parts st"
| "visit_destination_ip_cidrs v (E_Not child) st = visit_destination_ip_cidrs v child st"
| "visit_destination_ip_cidrs v (E_Predicate (P_DstIpCidr nets)) st = visit_all v nets st"
| "visit_destination_ip_cidrs v (E_Predicate p) st = (True, st)"

fun is_destination_ip_union :: "ruleset_expr \<Rightarrow> bool" where
  "is_destination_ip_union (E_Predicate (P_DstIpCidr _)) = True"
| "is_destination_ip_union (E_Any parts) = list_all is_destination_ip_union parts"
| "is_destination_ip_union (E_All [child]) = is_destination_ip_union child"
| "is_destination_ip_union _ = False"

record ruleset_program =
  rp_version :: u8
  rp_rule_count :: nat
  rp_root :: ruleset_expr

definition program_matches :: "ext_env \<Rightarrow> rs_context \<Rightarrow> ruleset_program \<Rightarrow> bool" where
  "program_matches x ctx p = expr_matches x ctx (rp_root p)"

definition program_item_count :: "ruleset_program \<Rightarrow> nat" where
  "program_item_count p = expr_item_count (rp_root p)"

definition program_matches_lazy :: "ext_env \<Rightarrow> rs_context \<Rightarrow> bool \<Rightarrow> ruleset_program \<Rightarrow> match_outcome" where
  "program_matches_lazy x ctx process_resolved p = matches_lazy x ctx process_resolved True (rp_root p)"

definition matches_deferred :: "ext_env \<Rightarrow> rs_context \<Rightarrow> bool \<Rightarrow> bool \<Rightarrow> ruleset_program \<Rightarrow> match_outcome" where
  "matches_deferred x ctx process_resolved destination_ip_resolved p =
     matches_lazy x ctx process_resolved destination_ip_resolved (rp_root p)"

definition destination_ip_cidrs :: "ruleset_program \<Rightarrow> ip_net list" where
  "destination_ip_cidrs p = snd (visit_destination_ip_cidrs (\<lambda>n ns. (True, ns @ [n])) (rp_root p) [])"

definition is_exact_destination_ip_set :: "ruleset_program \<Rightarrow> bool" where
  "is_exact_destination_ip_set p = is_destination_ip_union (rp_root p)"

section \<open>Lazy evaluation\<close>

interpretation outcome: lazy_logic O_Matched O_NotMatched outcome_deferred outcome_requirements
proof
  fix p d
  show "outcome_requirements (outcome_deferred p d) = (p, d)" by (cases p; cases d) simp_all
qed simp_all

definition with_process :: "rs_context \<Rightarrow> string option \<Rightarrow> string option \<Rightarrow> string list \<Rightarrow> rs_context" where
  "with_process ctx name path packages =
     ctx\<lparr>c_process_name := name, c_process_path := path, c_package_names := packages\<rparr>"

definition with_destination :: "rs_context \<Rightarrow> ip_addr option \<Rightarrow> rs_context" where
  "with_destination ctx ip = ctx\<lparr>c_dst_ip := ip\<rparr>"

lemma predicate_without_process:
  "\<not> requires_process_metadata p \<Longrightarrow>
     predicate_matches x (with_process ctx name path packages) p = predicate_matches x ctx p"
  by (cases p) (simp_all add: with_process_def destination_ip_def cong: option.case_cong)

lemma predicate_without_destination:
  "\<not> requires_destination_ip p \<Longrightarrow>
     predicate_matches x (with_destination ctx ip) p = predicate_matches x ctx p"
  by (cases p) (simp_all add: with_destination_def)

lemma matches_lazy_process:
  "settles outcome_requirements fst (matches_lazy x ctx False d e)
     (matches_lazy x (with_process ctx name path packages) True d e)"
proof (induction e)
  case (E_Any es)
  then show ?case by (simp add: outcome.any_settles settles_map)
next
  case (E_All es)
  then show ?case by (simp add: outcome.all_settles settles_map)
next
  case (E_Not e)
  then show ?case by (simp add: outcome.not_settles)
next
  case (E_Predicate p)
  then show ?case
    by (cases "requires_process_metadata p")
      (simp_all add: settles_def predicate_without_process Let_def outcome.req_postpone)
qed

lemma matches_lazy_destination:
  "settles outcome_requirements snd (matches_lazy x ctx r False e)
     (matches_lazy x (with_destination ctx ip) r True e)"
proof (induction e)
  case (E_Any es)
  then show ?case by (simp add: outcome.any_settles settles_map)
next
  case (E_All es)
  then show ?case by (simp add: outcome.all_settles settles_map)
next
  case (E_Not e)
  then show ?case by (simp add: outcome.not_settles)
next
  case (E_Predicate p)
  then show ?case
    by (cases "requires_destination_ip p")
      (simp_all add: settles_def predicate_without_destination Let_def outcome.req_postpone)
qed

lemma matches_lazy_asks_process: "\<not> fst (outcome_requirements (matches_lazy x ctx True d e))"
  by (induction e)
    (simp_all add: outcome.any_asks_not outcome.all_asks_not outcome.not_asks_not Let_def outcome.req_postpone)

lemma matches_lazy_asks_destination: "\<not> snd (outcome_requirements (matches_lazy x ctx r True e))"
  by (induction e)
    (simp_all add: outcome.any_asks_not outcome.all_asks_not outcome.not_asks_not Let_def outcome.req_postpone)

lemma matches_lazy_resolved:
  "matches_lazy x ctx True True e = (if expr_matches x ctx e then O_Matched else O_NotMatched)"
proof (induction e)
  case (E_Any es)
  then have "\<forall>s \<in> set (map (matches_lazy x ctx True True) es). s = O_Matched \<or> s = O_NotMatched" by auto
  from outcome.definite_any [OF this] E_Any show ?case by (auto simp: list_ex_iff image_iff)
next
  case (E_All es)
  then have "\<forall>s \<in> set (map (matches_lazy x ctx True True) es). s = O_Matched \<or> s = O_NotMatched" by auto
  from outcome.definite_all [OF this] E_All show ?case by (auto simp: list_all_iff image_iff)
qed (simp_all add: not_state_def Let_def)

section \<open>Destination networks\<close>

fun dst_nets :: "ruleset_expr \<Rightarrow> ip_net list" where
  "dst_nets (E_Any es) = concat (map dst_nets es)"
| "dst_nets (E_All es) = concat (map dst_nets es)"
| "dst_nets (E_Not e) = dst_nets e"
| "dst_nets (E_Predicate p) = (case p of P_DstIpCidr ns \<Rightarrow> ns | _ \<Rightarrow> [])"

lemma visit_all_collect:
  "(\<And>a st. a \<in> set as \<Longrightarrow> f a st = (True, st @ g a)) \<Longrightarrow> visit_all f as st = (True, st @ concat (map g as))"
  by (induction as arbitrary: st) auto

lemma visit_collect:
  "visit_destination_ip_cidrs (\<lambda>n ns. (True, ns @ [n])) e st = (True, st @ dst_nets e)"
proof (induction e arbitrary: st)
  case (E_Predicate p)
  then show ?case
    using visit_all_collect [of "case p of P_DstIpCidr ns \<Rightarrow> ns | _ \<Rightarrow> []" "\<lambda>n ns. (True, ns @ [n])" "\<lambda>n. [n]"]
    by (cases p) simp_all
qed (simp_all add: visit_all_collect)

lemma destination_ip_cidrs_eq: "destination_ip_cidrs p = dst_nets (rp_root p)"
  by (simp add: destination_ip_cidrs_def visit_collect)

lemma union_matches:
  "is_destination_ip_union e \<Longrightarrow>
     expr_matches x ctx e \<longleftrightarrow> on_some (destination_ip ctx) (\<lambda>ip. \<exists>n \<in> set (dst_nets e). x_contains x n ip)"
  by (induction e rule: is_destination_ip_union.induct)
    (auto simp: on_some_def list_ex_iff list_all_iff split: option.splits)

section \<open>Well-formed compact sets\<close>

text \<open>
  What the decoder of the binary format (\<open>read_compact_domain_set\<close>) checks: one range of edges per
  node, within the labels.
\<close>

definition cd_wf :: "compact_domain_set \<Rightarrow> bool" where
  "cd_wf s \<longleftrightarrow> length (cd_child_offsets s) = length (cd_labels s) + 2 \<and>
     (\<forall>k \<in> set (cd_child_offsets s). unat k \<le> length (cd_labels s))"

lemma children_wf:
  assumes "cd_wf s" "node \<le> length (cd_labels s)"
  obtains edges where "children s node = Some edges" "\<forall>e \<in> set edges. e < length (cd_labels s)"
proof -
  have "unat (cd_child_offsets s ! (node + 1)) \<le> length (cd_labels s)"
    using assms by (auto simp: cd_wf_def)
  then show ?thesis using assms that by (auto simp: children_def cd_wf_def)
qed

lemma label_wf [simp]: "e < length (cd_labels s) \<Longrightarrow> label s e = Some (cd_labels s ! e)"
  by (simp add: label_def)

lemma domain_edge_wf:
  assumes "\<forall>e \<in> set es. e < length (cd_labels s)"
  shows "\<exists>r. domain_edge s c es = Some r \<and> (\<forall>n. r = Go n \<longrightarrow> n \<le> length (cd_labels s))"
  using assms by (induction es) auto

lemma any_label_wf: "\<forall>e \<in> set es. e < length (cd_labels s) \<Longrightarrow> any_label s ls es \<noteq> None"
  by (induction es) auto

lemma domain_walk_wf: "cd_wf s \<Longrightarrow> node \<le> length (cd_labels s) \<Longrightarrow> domain_walk s key node \<noteq> None"
proof (induction key arbitrary: node)
  case Nil
  then show ?case by (elim children_wf) (use any_label_wf [of _ s "[13, 10]"] in auto)
next
  case (Cons c key)
  from Cons.prems obtain es where es: "children s node = Some es" "\<forall>e \<in> set es. e < length (cd_labels s)"
    by (elim children_wf)
  obtain r where "domain_edge s c es = Some r" "\<forall>n. r = Go n \<longrightarrow> n \<le> length (cd_labels s)"
    using domain_edge_wf [OF es(2)] by blast
  then show ?case using Cons.IH [OF Cons.prems(1)] es(1) by (cases r) auto
qed

lemma adguard_wf:
  assumes "cd_wf s"
  shows "node \<le> length (cd_labels s) \<Longrightarrow> adguard_has s left key node budget \<noteq> None"
    and "node \<le> length (cd_labels s) \<Longrightarrow> adguard_walk s left key node budget \<noteq> None"
    and "\<forall>e \<in> set es. e < length (cd_labels s) \<Longrightarrow> adguard_edges s left c key es budget \<noteq> None"
    and "node \<le> length (cd_labels s) \<Longrightarrow> adguard_jumps s left keys node budget \<noteq> None"
    and "\<forall>e \<in> set es. e < length (cd_labels s) \<Longrightarrow> adguard_end s left es budget \<noteq> None"
  using assms
proof (induction s left key node budget and s left key node budget and s left c key es budget
    and s left keys node budget and s left es budget
    rule: adguard_has_adguard_walk_adguard_edges_adguard_jumps_adguard_end.induct)
  case (3 s left node budget)
  obtain es where "children s node = Some es" "\<forall>e \<in> set es. e < length (cd_labels s)"
    using children_wf 3(2,3) by blast
  then show ?case using 3(1) [of es] 3(3) by (cases "is_leaf s node") simp_all
next
  case (4 s left c key node budget)
  obtain es where "children s node = Some es" "\<forall>e \<in> set es. e < length (cd_labels s)"
    using children_wf 4(2,3) by blast
  then show ?case using 4(1) [of es] 4(3) by simp
next
  case (6 s left c key edge es budget)
  have l: "label s edge = Some (cd_labels s ! edge)" and le: "edge + 1 \<le> length (cd_labels s)"
    using 6(5) by auto
  have rest: "\<forall>e \<in> set es. e < length (cd_labels s)" using 6(5) by simp
  let ?l = "cd_labels s ! edge" and ?jumps = "adguard_jumps s left (key_suffixes (c # key)) (edge + 1) budget"
  consider (hit) "?l = 13 \<or> ?l = 10 \<and> c = 46 \<and> is_leaf s (edge + 1)"
    | (go) "?l \<noteq> 13" "\<not> (?l = 10 \<and> c = 46 \<and> is_leaf s (edge + 1))" "?l = c"
    | (jump) "?l \<noteq> 13" "\<not> (?l = 10 \<and> c = 46 \<and> is_leaf s (edge + 1))" "?l \<noteq> c" "?l = 42 \<or> ?l = 8"
    | (skip) "?l \<noteq> 13" "\<not> (?l = 10 \<and> c = 46 \<and> is_leaf s (edge + 1))" "?l \<noteq> c" "\<not> (?l = 42 \<or> ?l = 8)"
    by blast
  then show ?case
  proof cases
    case hit
    then show ?thesis by (auto simp: l)
  next
    case go
    then show ?thesis using 6(1) [OF l go le 6(6)] by (simp only: adguard_edges.simps l option.case if_False if_True) simp
  next
    case jump
    obtain b budget' where r: "?jumps = Some (b, budget')" using 6(2) [OF l jump le 6(6)] by (cases ?jumps) auto
    show ?thesis using 6(3) [OF l jump r refl _ rest 6(6)] jump r by (cases b) (auto simp: l)
  next
    case skip
    then show ?thesis using 6(4) [OF l skip rest 6(6)] by (auto simp: l)
  qed
next
  case (8 s left key keys child budget)
  obtain b budget' where "adguard_has s left key child budget = Some (b, budget')" using 8(1,3,4) by auto
  then show ?case using 8(2) [of "(b, budget')" b budget'] 8(3,4) by (cases b) auto
next
  case (10 s left edge es budget)
  have l: "label s edge = Some (cd_labels s ! edge)" and le: "edge + 1 \<le> length (cd_labels s)"
    using 10(4) by auto
  have rest: "\<forall>e \<in> set es. e < length (cd_labels s)" using 10(4) by simp
  show ?case
  proof (cases "adguard_has s left [] (edge + 1) budget")
    case None
    then show ?thesis using 10(1) [OF l] 10(3) [OF l] le rest 10(5) by (auto simp: l)
  next
    case (Some r)
    obtain b budget' where r: "r = (b, budget')" by (cases r)
    show ?thesis using 10(3) [OF l] 10(2) [OF l, of r b budget'] Some r rest 10(5)
      by (cases b) (auto simp: l)
  qed
qed auto

declare adguard_has.simps [simp del]

lemma adguard_suffixes_wf: "cd_wf s \<Longrightarrow> adguard_suffixes s key budget \<noteq> None"
proof (induction s key budget rule: adguard_suffixes.induct)
  case (1 s key budget)
  obtain b budget' where *: "adguard_has s (MAX_DEPTH + 1) (8 # key) 0 budget = Some (b, budget')"
    using adguard_wf(1) [OF 1(2), of 0 "MAX_DEPTH + 1" "8 # key" budget] by (auto simp del: adguard_has.simps)
  have eq: "adguard_suffixes s key budget =
      (if b then Some True
       else if 46 \<in> set key then adguard_suffixes s (tl (dropWhile (\<lambda>b. b \<noteq> 46) key)) budget' else Some False)"
    by (subst adguard_suffixes.simps) (simp only: * option.case prod.case, simp split: bool.split)
  have "\<not> b \<Longrightarrow> 46 \<in> set key \<Longrightarrow> adguard_suffixes s (tl (dropWhile (\<lambda>b. b \<noteq> 46) key)) budget' \<noteq> None"
    by (rule 1(1) [OF * refl _ _ 1(2)]) simp_all
  then show ?case unfolding eq by auto
qed

lemma matches_adguard_wf: "cd_wf s \<Longrightarrow> matches_adguard s domain \<noteq> None"
  using adguard_wf(1) [of s 0 "MAX_DEPTH + 1" "as_bytes (reverse_domain domain)" 1000000] adguard_suffixes_wf [of s]
  by (auto simp: matches_adguard_def Let_def split: bool.split)

section \<open>Properties\<close>

text \<open>A concrete environment, for the examples: prefix comparison, no regular expressions.\<close>

fun sample_contains :: "ip_net \<Rightarrow> ip_addr \<Rightarrow> bool" where
  "sample_contains (V4_Net a n) (V4 b) \<longleftrightarrow> drop_bit (32 - n) a = drop_bit (32 - n) b"
| "sample_contains (V6_Net a n) (V6 b) \<longleftrightarrow> drop_bit (128 - n) a = drop_bit (128 - n) b"
| "sample_contains _ _ \<longleftrightarrow> False"

fun sample_network :: "ip_net \<Rightarrow> ip_addr" where
  "sample_network (V4_Net a n) = V4 (push_bit (32 - n) (drop_bit (32 - n) a))"
| "sample_network (V6_Net a n) = V6 (push_bit (128 - n) (drop_bit (128 - n) a))"

definition sample_unicode :: unicode where
  "sample_unicode = \<lparr>uc_lowercase = (\<lambda>s. s), uc_alphanumeric = (\<lambda>_. False)\<rparr>"

definition sample_env :: ext_env where
  "sample_env = \<lparr>x_unicode = sample_unicode, x_android = False, x_domain_to_ascii = Some,
     x_regex = (\<lambda>p. Some (\<lambda>s. s = p)), x_regex_ci = (\<lambda>p. Some (\<lambda>s. s = p)), x_fancy = (\<lambda>p. None),
     x_regex_set = (\<lambda>r s. s \<in> set (rs_patterns r)), x_glob = (\<lambda>p. Some (\<lambda>s. s = p)),
     x_aho = (\<lambda>ps. Some (\<lambda>s. filter (\<lambda>i. contains_str (ps ! i) (to_ascii_lowercase s)) [0..<length ps])),
     x_parse_net = (\<lambda>s. case parse_ip s of Some (V4 a) \<Rightarrow> Some (V4_Net a 32) | Some (V6 a) \<Rightarrow> Some (V6_Net a 128) | None \<Rightarrow> None),
     x_contains = sample_contains, x_network = sample_network\<rparr>"

definition sample_context :: rs_context where
  "sample_context = \<lparr>c_dst_host = ''example.com'', c_dst_ip = None, c_dst_port = Some 443, c_src_ip = None,
     c_src_port = None, c_network = Some ''tcp'', c_process_name = None, c_query_type = None,
     c_process_path = None, c_inbound_port = None, c_inbound_type = None, c_inbound_user = None,
     c_inbound_name = None, c_uid = None, c_dscp = None, c_destination_geoip = [], c_source_geoip = [],
     c_destination_geosite = [], c_destination_asn = None, c_source_asn = None, c_rematch_names = [],
     c_package_names = [], c_wifi_ssid = None, c_wifi_bssid = None, c_network_type = None,
     c_network_is_expensive = None, c_network_is_constrained = None, c_network_interface_addresses = [],
     c_default_interface_addresses = []\<rparr>"

definition sample_program :: ruleset_program where
  "sample_program = \<lparr>rp_version = 2, rp_rule_count = 1, rp_root =
     E_Any [E_Predicate (P_DstPort [\<lparr>pr_start = 440, pr_end = 450\<rparr>]), E_Predicate (P_ProcessName [''curl'']),
            E_Not (E_Predicate (P_DstIpCidr [V4_Net 0x0A000000 8]))]\<rparr>"

text \<open>
  C12: Lazy evaluation of a rule set agrees with full evaluation. With everything resolved it is
  \<open>matches\<close>; an answer that does not ask for the process is the answer for every process, and an
  answer that does not ask for the destination address is the answer for every address.
\<close>

theorem lazy_evaluation_sound:
  "matches_deferred x ctx True True p = (if program_matches x ctx p then O_Matched else O_NotMatched) \<and>
   (\<not> fst (outcome_requirements (matches_deferred x ctx False d p)) \<longrightarrow>
      matches_deferred x (with_process ctx name path packages) True d p = matches_deferred x ctx False d p) \<and>
   (\<not> snd (outcome_requirements (matches_deferred x ctx r False p)) \<longrightarrow>
      matches_deferred x (with_destination ctx ip) r True p = matches_deferred x ctx r False p)"
  using matches_lazy_process [of x ctx d "rp_root p" name path packages]
    matches_lazy_destination [of x ctx r "rp_root p" ip]
  by (auto simp: matches_deferred_def program_matches_def matches_lazy_resolved settles_def)

theorem lazy_evaluation_sound_witness:
  "matches_deferred sample_env (with_process sample_context (Some ''ssh'') None []) True False sample_program = O_Matched"
proof -
  have *: "matches_deferred sample_env sample_context False False sample_program = O_Matched"
    by (simp add: matches_deferred_def sample_program_def sample_context_def on_some_def port_range_contains_def Let_def)
  show ?thesis
    using lazy_evaluation_sound [of sample_env sample_context sample_program False "Some ''ssh''" None "[]"]
    by (simp add: *)
qed

text \<open>
  A program that claims to be an exact set of destination networks is one: it matches a connection
  exactly when the destination address, given or written as the host name, lies in one of the
  networks extracted from it.
\<close>

theorem exact_destination_ip_set:
  assumes "is_exact_destination_ip_set p"
  shows "program_matches x ctx p \<longleftrightarrow>
    (\<exists>ip. destination_ip ctx = Some ip \<and> (\<exists>n \<in> set (destination_ip_cidrs p). x_contains x n ip))"
  using union_matches [of "rp_root p" x ctx] assms
  by (auto simp: is_exact_destination_ip_set_def program_matches_def destination_ip_cidrs_eq on_some_def
      split: option.splits)

theorem exact_destination_ip_set_witness:
  "program_matches sample_env (sample_context\<lparr>c_dst_ip := Some (V4 0x0A010203)\<rparr>)
     \<lparr>rp_version = 1, rp_rule_count = 1, rp_root = E_All [E_Any [E_Predicate (P_DstIpCidr [V4_Net 0x0A000000 8])]]\<rparr>"
  by (subst exact_destination_ip_set)
    (simp_all add: is_exact_destination_ip_set_def destination_ip_cidrs_def destination_ip_def sample_env_def)

text \<open>
  Lookups in a compact domain set built by the decoder never read outside its vectors: the plain
  and the AdGuard matcher return an answer for every host.
\<close>

theorem compact_domain_set_safe:
  assumes "cd_wf s"
  shows "matches_domain s domain \<noteq> None \<and> matches_adguard s domain \<noteq> None"
  using assms domain_walk_wf [of s 0] matches_adguard_wf by (simp add: matches_domain_def)

theorem compact_domain_set_safe_witness:
  "matches_adguard (compact_new [2] [0, 1, 1] [13] 1) ''a.example'' \<noteq> None"
  using compact_domain_set_safe [of "compact_new [2] [0, 1, 1] [13] 1"]
  by (simp add: cd_wf_def compact_new_def)

end
