(* ===== verification/Sniff.thy ===== *)
theory Sniff
  imports Std_Str
begin

text \<open>
  Protocol sniffing on the first packet of a flow (\<open>core-route/src/sniff.rs\<close>): STUN, DTLS, QUIC, TLS
  with its server name, and HTTP. Reading a byte out of range panics, which the model makes
  explicit, so that the absence of panics on arbitrary packets is a theorem.
\<close>

unbundle bit_operations_syntax

datatype l7_proto = L7_Stun | L7_Dtls | L7_Quic | L7_Tls | is_Sni: L7_Sni (sni_host: string) | L7_Http | L7_Other

fun is_webrtc :: "l7_proto \<Rightarrow> bool" where
  "is_webrtc L7_Stun = True"
| "is_webrtc L7_Dtls = True"
| "is_webrtc L7_Quic = True"
| "is_webrtc _ = False"

fun l7_name :: "l7_proto \<Rightarrow> string" where
  "l7_name L7_Stun = ''stun''"
| "l7_name L7_Dtls = ''dtls''"
| "l7_name L7_Quic = ''quic''"
| "l7_name L7_Tls = ''tls''"
| "l7_name (L7_Sni _) = ''sni''"
| "l7_name L7_Http = ''http''"
| "l7_name L7_Other = ''other''"

section \<open>Reading a packet\<close>

definition byte_at :: "bytes \<Rightarrow> nat \<Rightarrow> io_error + byte" where
  "byte_at buf i = (if i < length buf then Inr (buf ! i) else Inl Panic)"

definition u16_at :: "bytes \<Rightarrow> nat \<Rightarrow> io_error + nat" where
  "u16_at buf i =
     and_then (byte_at buf i) (\<lambda>a. and_then (byte_at buf (i + 1)) (\<lambda>b. Inr (unat (u16_from_be [a, b]))))"

definition range_at :: "bytes \<Rightarrow> nat \<Rightarrow> nat \<Rightarrow> io_error + bytes" where
  "range_at buf a b = (if a \<le> b \<and> b \<le> length buf then Inr (slice a b buf) else Inl Panic)"

section \<open>UDP\<close>

definition sniff_udp :: "bytes \<Rightarrow> l7_proto" where
  "sniff_udp buf =
    (if length buf < 8 then L7_Other
     else if slice 4 8 buf = [0x21, 0x12, 0xA4, 0x42] \<and> buf ! 0 AND 0xc0 = 0 then L7_Stun
     else if (0x14 \<le> buf ! 0 \<and> buf ! 0 \<le> 0x19) \<and> buf ! 1 = 0xfe \<and>
       (buf ! 2 = 0xff \<or> buf ! 2 = 0xfd \<or> buf ! 2 = 0xfc) then L7_Dtls
     else if buf ! 0 AND 0x80 \<noteq> 0 \<and> 5 \<le> length buf
     then (let version = u32_from_be [buf ! 1, buf ! 2, buf ! 3, buf ! 4]
           in if version \<noteq> 0 then L7_Quic else L7_Other)
     else L7_Other)"

section \<open>TLS server names\<close>

text \<open>The loop over the extensions of a ClientHello, from position \<open>i\<close>.\<close>

function sni_extensions :: "bytes \<Rightarrow> nat \<Rightarrow> nat \<Rightarrow> io_error + string option" where
  "sni_extensions buf ext_end i =
    (if i + 4 \<le> length buf \<and> i + 4 \<le> ext_end
     then and_then (u16_at buf i) (\<lambda>ext_type.
          and_then (u16_at buf (i + 2)) (\<lambda>ext_len.
          if length buf < (i + 4) + ext_len then Inr None
          else if ext_type = 0
          then (if ext_len < 5 then Inr None
                else and_then (u16_at buf (i + 4)) (\<lambda>list_len.
                     and_then (byte_at buf (i + 4 + 2)) (\<lambda>name_type.
                     if name_type \<noteq> 0 then Inr None
                     else and_then (u16_at buf (i + 4 + 3)) (\<lambda>name_len.
                          if length buf < (i + 4) + 5 + name_len then Inr None
                          else and_then (range_at buf (i + 4 + 5) (i + 4 + 5 + name_len)) (\<lambda>name.
                               Inr (from_utf8 name))))))
          else sni_extensions buf ext_end (i + 4 + ext_len)))
     else Inr None)"
  by pat_completeness auto
termination
  by (relation "measure (\<lambda>(buf, ext_end, i). length buf - i)") auto

declare sni_extensions.simps [simp del]

definition parse_tls_sni :: "bytes \<Rightarrow> io_error + string option" where
  "parse_tls_sni buf =
    (if length buf < 43 then Inr None
     else and_then (byte_at buf 0) (\<lambda>b0. and_then (byte_at buf 5) (\<lambda>b5.
       if b0 \<noteq> 0x16 \<or> b5 \<noteq> 1 then Inr None
       else let i = 5 + 4 + 2 + 32 in
         if length buf \<le> i then Inr None
         else and_then (byte_at buf i) (\<lambda>sid_len. let i = i + (1 + unat sid_len) in
           if length buf < i + 2 then Inr None
           else and_then (u16_at buf i) (\<lambda>cs_len. let i = i + (2 + cs_len) in
             if length buf < i + 1 then Inr None
             else and_then (byte_at buf i) (\<lambda>cm_len. let i = i + (1 + unat cm_len) in
               if length buf < i + 2 then Inr None
               else and_then (u16_at buf i) (\<lambda>ext_total. let i = i + 2 in
                 sni_extensions buf (i + ext_total) i)))))))"

definition http_methods :: "bytes list" where
  "http_methods = map as_bytes [''GET '', ''POST '', ''HEAD '', ''PUT '', ''DELETE '', ''CONNECT '',
     ''OPTIONS '', ''PATCH '', ''TRACE '']"

definition sniff_tcp :: "bytes \<Rightarrow> io_error + l7_proto" where
  "sniff_tcp buf =
    (if length buf < 5 then Inr L7_Other
     else if buf ! 0 = 0x16 \<and> buf ! 1 = 0x03 \<and> buf ! 2 \<le> 0x04
     then and_then (parse_tls_sni buf) (\<lambda>sni.
            case sni of Some name \<Rightarrow> Inr (L7_Sni name) | None \<Rightarrow> Inr L7_Tls)
     else if list_ex (\<lambda>p. take (length p) buf = p) http_methods then Inr L7_Http
     else Inr L7_Other)"

section \<open>Host names\<close>

fun split_crlf :: "string \<Rightarrow> string list" where
  "split_crlf [] = [[]]"
| "split_crlf (x # xs) =
    (case xs of
       y # ys \<Rightarrow>
         if x = CHR 0x0D \<and> y = CHR 0x0A then [] # split_crlf ys
         else (case split_crlf xs of p # ps \<Rightarrow> (x # p) # ps | [] \<Rightarrow> [[x]])
     | [] \<Rightarrow> [[x]])"

text \<open>The white space of \<open>u8::is_ascii_whitespace\<close>, which leaves out the vertical tab.\<close>

definition is_ascii_whitespace :: "char \<Rightarrow> bool" where
  "is_ascii_whitespace c \<longleftrightarrow> c \<in> {CHR '' '', CHR 0x09, CHR 0x0A, CHR 0x0C, CHR 0x0D}"

definition split_ascii_whitespace :: "string \<Rightarrow> string list" where
  "split_ascii_whitespace s =
     filter (\<lambda>p. p \<noteq> []) (split_on CHR '' '' (map (\<lambda>c. if is_ascii_whitespace c then CHR '' '' else c) s))"

fun find_header_end :: "bytes \<Rightarrow> nat option" where
  "find_header_end [] = None"
| "find_header_end (b # bs) =
    (if take 4 (b # bs) = [13, 10, 13, 10] then Some 0 else map_option Suc (find_header_end bs))"

fun split_once_str :: "string \<Rightarrow> string \<Rightarrow> (string \<times> string) option" where
  "split_once_str p [] = None"
| "split_once_str p (x # xs) =
    (if starts_with p (x # xs) then Some ([], drop (length p) (x # xs))
     else map_option (\<lambda>(a, b). (x # a, b)) (split_once_str p xs))"

definition http_absolute_form_authority :: "string \<Rightarrow> string option" where
  "http_absolute_form_authority target =
     map_option (\<lambda>(_, remainder). hd (split_on CHR ''/'' remainder)) (split_once_str ''://'' target)"

definition host_byte_ok :: "char \<Rightarrow> bool" where
  "host_byte_ok c \<longleftrightarrow> (let n = of_char c :: nat in
     (48 \<le> n \<and> n \<le> 57) \<or> (65 \<le> n \<and> n \<le> 90) \<or> (97 \<le> n \<and> n \<le> 122)) \<or> c \<in> {CHR ''.'', CHR ''-'', CHR ''_''}"

definition is_ascii_control :: "char \<Rightarrow> bool" where
  "is_ascii_control c \<longleftrightarrow> (let n = of_char c :: nat in n < 32 \<or> n = 127)"

definition normalize_sniffed_host :: "unicode \<Rightarrow> string \<Rightarrow> string option" where
  "normalize_sniffed_host u raw =
    (let v = trim u raw;
         host = (case v of
             c # r \<Rightarrow>
               if c = CHR ''['' then (case split_once CHR '']'' r of Some (h, _) \<Rightarrow> Some h | None \<Rightarrow> None)
               else (case rsplit_once CHR '':'' v of
                       Some (candidate, port) \<Rightarrow>
                         if parse_unsigned 65536 port \<noteq> None then Some candidate else Some v
                     | None \<Rightarrow> Some v)
           | [] \<Rightarrow> Some [])
     in case host of None \<Rightarrow> None
        | Some h \<Rightarrow>
            (let host = to_ascii_lowercase (trim_end_matches CHR ''.'' (trim u h))
             in if host = [] \<or> 253 < length host \<or> parse_ip host \<noteq> None \<or>
                   list_ex (\<lambda>b. is_ascii_control b \<or> is_ascii_whitespace b \<or> \<not> host_byte_ok b) host
                then None else Some host))"

fun find_host_header :: "unicode \<Rightarrow> string list \<Rightarrow> string option" where
  "find_host_header u [] = None"
| "find_host_header u (line # lines) =
    (case split_once CHR '':'' line of
       None \<Rightarrow> find_host_header u lines
     | Some (name, v) \<Rightarrow>
         if eq_ignore_ascii_case name ''host'' then normalize_sniffed_host u (trim u v)
         else find_host_header u lines)"

definition sniff_tcp_host :: "unicode \<Rightarrow> bytes \<Rightarrow> io_error + string option" where
  "sniff_tcp_host u buf =
    (if 6 \<le> length buf \<and> buf ! 0 = 0x16 \<and> buf ! 1 = 0x03 \<and> buf ! 2 \<le> 0x04
     then and_then (parse_tls_sni buf) (\<lambda>sni.
            Inr (case sni of None \<Rightarrow> None | Some name \<Rightarrow> normalize_sniffed_host u name))
     else
       (let header_end = (case find_header_end buf of Some p \<Rightarrow> p + 4 | None \<Rightarrow> min (length buf) (16 * 1024))
        in case from_utf8 (take header_end buf) of
             None \<Rightarrow> Inr None
           | Some headers \<Rightarrow>
               (let lines = split_crlf headers;
                    request_parts = split_ascii_whitespace (hd lines)
                in case request_parts of
                     [] \<Rightarrow> Inr None
                   | method # others \<Rightarrow>
                       (let target = (case others of t # _ \<Rightarrow> t | [] \<Rightarrow> []);
                            direct = (if eq_ignore_ascii_case method ''CONNECT'' then normalize_sniffed_host u target
                                      else case http_absolute_form_authority target of
                                             Some authority \<Rightarrow> normalize_sniffed_host u authority
                                           | None \<Rightarrow> None)
                        in case direct of
                             Some host \<Rightarrow> Inr (Some host)
                           | None \<Rightarrow> Inr (find_host_header u (tl lines))))))"

definition proto_name_matches :: "string \<Rightarrow> l7_proto \<Rightarrow> bool" where
  "proto_name_matches name p =
    (let n = to_ascii_lowercase name in
     if n = ''stun'' then p = L7_Stun
     else if n = ''dtls'' then p = L7_Dtls
     else if n = ''quic'' then p = L7_Quic
     else if n = ''tls'' \<or> n = ''ssl'' then p = L7_Tls \<or> is_Sni p
     else if n = ''http'' then p = L7_Http
     else if n = ''sni'' then is_Sni p
     else if n = ''webrtc'' \<or> n = ''rtc'' then is_webrtc p
     else if n = ''any'' then p \<noteq> L7_Other
     else False)"

section \<open>No packet makes the parser panic\<close>

lemma byte_at_ok [simp]: "i < length buf \<Longrightarrow> byte_at buf i = Inr (buf ! i)"
  by (simp add: byte_at_def)

lemma u16_at_ok [simp]: "i + 2 \<le> length buf \<Longrightarrow> u16_at buf i = Inr (unat (u16_from_be [buf ! i, buf ! (i + 1)]))"
  by (simp add: u16_at_def)

lemma range_at_ok [simp]: "a \<le> b \<Longrightarrow> b \<le> length buf \<Longrightarrow> range_at buf a b = Inr (slice a b buf)"
  by (simp add: range_at_def)

lemma sni_extensions_no_panic: "\<exists>r. sni_extensions buf ext_end i = Inr r"
proof (induction buf ext_end i rule: sni_extensions.induct)
  case (1 buf ext_end i)
  show ?case
  proof (cases "i + 4 \<le> length buf \<and> i + 4 \<le> ext_end")
    case True
    let ?len = "unat (u16_from_be [buf ! (i + 2), buf ! (i + 2 + 1)])"
    have "\<exists>r. sni_extensions buf ext_end (i + 4 + ?len) = Inr r"
      if "\<not> length buf < i + 4 + ?len" "unat (u16_from_be [buf ! i, buf ! (i + 1)]) \<noteq> 0"
      using 1 [OF True that] by simp
    then show ?thesis using True by (subst sni_extensions.simps) (simp add: Suc_le_eq)
  next
    case False
    then show ?thesis by (subst sni_extensions.simps) auto
  qed
qed

lemma parse_tls_sni_no_panic: "\<exists>r. parse_tls_sni buf = Inr r"
proof (cases "length buf < 43")
  case False
  then have "buf \<noteq> []" by auto
  with False show ?thesis
    by (simp add: parse_tls_sni_def Let_def sni_extensions_no_panic)
qed (simp add: parse_tls_sni_def)

lemma sniff_tcp_no_panic: "\<exists>p. sniff_tcp buf = Inr p"
  using parse_tls_sni_no_panic [of buf] by (auto simp: sniff_tcp_def split: option.split)

lemma sniff_tcp_host_no_panic: "\<exists>h. sniff_tcp_host u buf = Inr h"
  using parse_tls_sni_no_panic [of buf]
  by (auto simp: sniff_tcp_host_def Let_def split: option.split list.split)

section \<open>The server name of a ClientHello\<close>

text \<open>A ClientHello as RFC 8446 lays it out, with the server name after any other extensions.\<close>

record client_hello =
  ch_record_header :: bytes
  ch_handshake_length :: bytes
  ch_version_random :: bytes
  ch_session_id :: bytes
  ch_cipher_suites :: bytes
  ch_compression :: bytes
  ch_extensions_before :: "(u16 \<times> bytes) list"
  ch_extensions_after :: "(u16 \<times> bytes) list"

definition ext_wire :: "u16 \<times> bytes \<Rightarrow> bytes" where
  "ext_wire = (\<lambda>(ty, d). u16_be ty @ u16_be (of_nat (length d)) @ d)"

definition server_name_data :: "string \<Rightarrow> bytes" where
  "server_name_data host =
     u16_be (of_nat (length host + 3)) @ [0] @ u16_be (of_nat (length host)) @ as_bytes host"

definition hello_extensions :: "client_hello \<Rightarrow> string \<Rightarrow> bytes" where
  "hello_extensions ch host = concat (map ext_wire (ch_extensions_before ch)) @
     ext_wire (0, server_name_data host) @ concat (map ext_wire (ch_extensions_after ch))"

definition hello_wire :: "client_hello \<Rightarrow> string \<Rightarrow> bytes" where
  "hello_wire ch host = 0x16 # ch_record_header ch @ [1] @ ch_handshake_length ch @ ch_version_random ch @
     [of_nat (length (ch_session_id ch))] @ ch_session_id ch @
     u16_be (of_nat (length (ch_cipher_suites ch))) @ ch_cipher_suites ch @
     [of_nat (length (ch_compression ch))] @ ch_compression ch @
     u16_be (of_nat (length (hello_extensions ch host))) @ hello_extensions ch host"

definition hello_ok :: "client_hello \<Rightarrow> string \<Rightarrow> bool" where
  "hello_ok ch host \<longleftrightarrow> length (ch_record_header ch) = 4 \<and> take 1 (ch_record_header ch) = [3] \<and>
     ch_record_header ch ! 1 \<le> 4 \<and> length (ch_handshake_length ch) = 3 \<and>
     length (ch_version_random ch) = 34 \<and> length (ch_session_id ch) < 256 \<and>
     length (ch_cipher_suites ch) < 65536 \<and> length (ch_compression ch) < 256 \<and>
     length (hello_extensions ch host) < 65536 \<and>
     (\<forall>(ty, d) \<in> set (ch_extensions_before ch). ty \<noteq> 0 \<and> length d < 65536) \<and> utf8_valid (as_bytes host)"

lemma drop_at:
  assumes "drop i buf = a @ r"
  shows "drop (i + length a) buf = r"
  using assms by (metis add.commute append_eq_conv_conj drop_drop)

lemma byte_at_drop:
  assumes "drop i buf = b # r"
  shows "byte_at buf i = Inr b"
proof -
  have "i < length buf" using assms by (cases "i < length buf") auto
  then show ?thesis using nth_via_drop [OF assms] by simp
qed

lemma u16_be_pair: obtains a b where "u16_be w = [a, b]"
proof -
  have "\<exists>a b. xs = [a, b]" if "length xs = Suc (Suc 0)" for xs :: bytes
    using that by (auto simp: length_Suc_conv)
  then show ?thesis using that by (metis length_word_be(1) numeral_2_eq_2)
qed

lemma u16_at_drop:
  assumes "drop i buf = u16_be w @ r"
  shows "u16_at buf i = Inr (unat w)"
proof -
  obtain a b where ab: "u16_be w = [a, b]"
    using u16_be_pair .
  then have "u16_from_be [a, b] = w" using word_be_roundtrip(1) [of w] by simp
  moreover have "drop (i + 1) buf = b # r" using drop_at [of i buf "[a]"] assms ab by simp
  ultimately show ?thesis
    using byte_at_drop [of i buf a "b # r"] byte_at_drop [of "i + 1" buf b r] assms ab by (simp add: u16_at_def)
qed

lemma range_at_drop:
  assumes "drop i buf = a @ r" "i \<le> length buf"
  shows "range_at buf i (i + length a) = Inr a"
proof -
  have "length (drop i buf) = length a + length r" using assms(1) by simp
  then have "i + length a \<le> length buf" using assms(2) by simp
  then show ?thesis using assms(1) by (simp add: range_at_def slice_def)
qed

lemma drop_length_le: "drop i buf = a @ r \<Longrightarrow> i \<le> length buf \<Longrightarrow> i + length a + length r = length buf"
  by (metis add.assoc le_add_diff_inverse length_append length_drop)

lemma length_ext_wire [simp]: "length (ext_wire (ty, d)) = 4 + length d"
  by (simp add: ext_wire_def)

text \<open>One turn of the extension loop.\<close>

lemma sni_skip:
  assumes "drop i buf = ext_wire (ty, d) @ r" "i \<le> length buf" "ty \<noteq> 0" "length d < 65536" "i + 4 \<le> ext_end"
  shows "sni_extensions buf ext_end i = sni_extensions buf ext_end (i + 4 + length d)"
proof -
  have dr: "drop i buf = u16_be ty @ u16_be (of_nat (length d)) @ d @ r"
    using assms(1) by (simp add: ext_wire_def)
  have len: "i + 4 + length d + length r = length buf"
    using drop_length_le [OF assms(1,2)] by (simp add: ext_wire_def)
  have "u16_at buf (i + 2) = Inr (length d)"
    using u16_at_drop [OF drop_at [OF dr, simplified]] assms(4) by (simp add: unat_u16)
  moreover have "unat ty \<noteq> 0" using assms(3) by (simp add: unat_eq_zero)
  ultimately show ?thesis
    using u16_at_drop [OF dr] len assms(5) by (subst sni_extensions.simps) simp
qed

lemma sni_found:
  assumes "drop i buf = ext_wire (0, server_name_data host) @ r" "i \<le> length buf" "length host + 5 < 65536"
    "i + 4 \<le> ext_end" "utf8_valid (as_bytes host)"
  shows "sni_extensions buf ext_end i = Inr (Some host)"
proof -
  let ?n = "length host"
  have dr: "drop i buf = u16_be 0 @ u16_be (of_nat (?n + 5)) @ u16_be (of_nat (?n + 3)) @ [0] @
      u16_be (of_nat ?n) @ as_bytes host @ r"
    using assms(1) by (simp add: ext_wire_def server_name_data_def add.commute)
  have len: "i + 4 + 5 + ?n + length r = length buf"
    using drop_length_le [OF assms(1,2)] by (simp add: ext_wire_def server_name_data_def)
  note step = drop_at [OF dr] drop_at [OF drop_at [OF dr]] drop_at [OF drop_at [OF drop_at [OF dr]]]
    drop_at [OF drop_at [OF drop_at [OF drop_at [OF dr]]]]
    drop_at [OF drop_at [OF drop_at [OF drop_at [OF drop_at [OF dr]]]]]
  have d2: "drop (i + 2) buf = u16_be (of_nat (?n + 5)) @ u16_be (of_nat (?n + 3)) @ [0] @ u16_be (of_nat ?n) @ as_bytes host @ r"
    and d4: "drop (i + 4) buf = u16_be (of_nat (?n + 3)) @ [0] @ u16_be (of_nat ?n) @ as_bytes host @ r"
    and d6: "drop (i + 6) buf = [0] @ u16_be (of_nat ?n) @ as_bytes host @ r"
    and d7: "drop (i + 7) buf = u16_be (of_nat ?n) @ as_bytes host @ r"
    and d9: "drop (i + 9) buf = as_bytes host @ r"
    using step by (simp_all add: ac_simps del: add_2_eq_Suc' add_2_eq_Suc of_nat_add)
  have t: "u16_at buf i = Inr 0" using u16_at_drop [OF dr] by simp
  have l: "u16_at buf (i + 2) = Inr (?n + 5)"
    using u16_at_drop [OF d2] unat_u16 [of "?n + 5"] assms(3) by simp
  have "u16_at buf (i + 4) = Inr (unat (of_nat (?n + 3) :: u16))"
    by (rule u16_at_drop [OF d4])
  moreover have "byte_at buf (i + 4 + 2) = Inr 0" using byte_at_drop [OF d6 [simplified]] by (simp add: ac_simps)
  moreover have "u16_at buf (i + 4 + 3) = Inr ?n"
    using u16_at_drop [OF d7] assms(3) by (simp add: unat_u16 add.assoc)
  moreover have "range_at buf (i + 4 + 5) (i + 4 + 5 + ?n) = Inr (as_bytes host)"
    using range_at_drop [OF d9] len by (simp add: add.assoc)
  ultimately show ?thesis
    using t l len assms(4) by (subst sni_extensions.simps) (simp add: from_utf8_as_bytes assms(5))
qed

lemma sni_scan:
  assumes "drop i buf = concat (map ext_wire exts) @ ext_wire (0, server_name_data host) @ r" "i \<le> length buf"
    "\<forall>(ty, d) \<in> set exts. ty \<noteq> 0 \<and> length d < 65536" "length host + 5 < 65536"
    "i + length (concat (map ext_wire exts)) + 4 \<le> ext_end" "utf8_valid (as_bytes host)"
  shows "sni_extensions buf ext_end i = Inr (Some host)"
  using assms
proof (induction exts arbitrary: i)
  case Nil
  then show ?case using sni_found [of i buf host r ext_end] by simp
next
  case (Cons e exts)
  obtain ty d where e: "e = (ty, d)" by (cases e)
  have dr: "drop i buf = ext_wire (ty, d) @ concat (map ext_wire exts) @ ext_wire (0, server_name_data host) @ r"
    using Cons.prems(1) e by simp
  have "sni_extensions buf ext_end (i + 4 + length d) = Inr (Some host)"
    using Cons.IH [of "i + 4 + length d"] drop_at [OF dr] drop_length_le [OF dr] Cons.prems e
    by (simp add: add.assoc)
  then show ?case using sni_skip [OF dr] Cons.prems e by simp
qed

lemma parse_tls_sni_hello:
  assumes "hello_ok ch host"
  shows "parse_tls_sni (hello_wire ch host @ rest) = Inr (Some host)"
proof -
  define buf where "buf = hello_wire ch host @ rest"
  define cs where "cs = ch_cipher_suites ch"
  define exts where "exts = hello_extensions ch host"
  let ?sid = "ch_session_id ch" and ?cm = "ch_compression ch"
  define tail3 where "tail3 = u16_be (of_nat (length exts)) @ exts @ rest"
  define tail2 where "tail2 = [of_nat (length ?cm)] @ ?cm @ tail3"
  define tail1 where "tail1 = u16_be (of_nat (length cs)) @ cs @ tail2"
  have ok: "length (ch_record_header ch) = 4" "length (ch_handshake_length ch) = 3"
    "length (ch_version_random ch) = 34" "length ?sid < 256" "length cs < 65536" "length ?cm < 256"
    "length exts < 65536"
    using assms by (simp_all add: hello_ok_def cs_def exts_def)
  have buf: "buf = (0x16 # ch_record_header ch) @ [1] @ (ch_handshake_length ch @ ch_version_random ch) @
      [of_nat (length ?sid)] @ ?sid @ tail1"
    by (simp add: buf_def hello_wire_def tail1_def tail2_def tail3_def cs_def exts_def)
  have d0: "drop 0 buf = (0x16 # ch_record_header ch) @ [1] @ (ch_handshake_length ch @ ch_version_random ch) @
      [of_nat (length ?sid)] @ ?sid @ tail1" using buf by simp
  have d5: "drop 5 buf = [1] @ (ch_handshake_length ch @ ch_version_random ch) @
      [of_nat (length ?sid)] @ ?sid @ tail1" using drop_at [OF d0] ok by simp
  have d43: "drop 43 buf = [of_nat (length ?sid)] @ ?sid @ tail1"
    using drop_at [OF drop_at [OF d5]] ok by simp
  let ?i1 = "44 + length ?sid"
  have d1: "drop ?i1 buf = tail1" using drop_at [OF drop_at [OF d43]] by simp
  let ?i2 = "?i1 + 2 + length cs"
  have d2: "drop ?i2 buf = tail2" using drop_at [OF drop_at [OF d1 [unfolded tail1_def]]] by (simp add: ac_simps)
  let ?i3 = "?i2 + 1 + length ?cm"
  have d3: "drop ?i3 buf = tail3" using drop_at [OF drop_at [OF d2 [unfolded tail2_def]]] by (simp add: ac_simps)
  let ?i4 = "?i3 + 2"
  have d4: "drop ?i4 buf = exts @ rest" using drop_at [OF d3 [unfolded tail3_def]] by simp
  have len: "length buf = ?i4 + length exts + length rest"
    using ok by (simp add: buf tail1_def tail2_def tail3_def)
  have "length host + 5 < 65536"
    using ok(7) by (simp add: exts_def hello_extensions_def ext_wire_def server_name_data_def)
  then have "sni_extensions buf (?i4 + length exts) ?i4 = Inr (Some host)"
    using sni_scan [of ?i4 buf "ch_extensions_before ch" host "concat (map ext_wire (ch_extensions_after ch)) @ rest"]
      d4 len assms
    by (simp add: exts_def hello_extensions_def hello_ok_def)
  moreover have "byte_at buf 0 = Inr 0x16" "byte_at buf 5 = Inr 1"
    "byte_at buf 43 = Inr (of_nat (length ?sid))" "byte_at buf ?i2 = Inr (of_nat (length ?cm))"
    using byte_at_drop d0 d5 d43 d2 by (simp_all add: tail2_def)
  moreover have "u16_at buf ?i1 = Inr (length cs)" "u16_at buf ?i3 = Inr (length exts)"
    using u16_at_drop d1 d3 ok by (simp_all add: tail1_def tail3_def unat_u16)
  moreover have "unat (of_nat (length ?sid) :: byte) = length ?sid" "unat (of_nat (length ?cm) :: byte) = length ?cm"
    using ok by (simp_all add: unat_of_nat)
  ultimately show ?thesis
    using len unfolding buf_def [symmetric] by (simp add: parse_tls_sni_def Let_def add.assoc)
qed

section \<open>Sniffed host names\<close>

definition valid_host :: "string \<Rightarrow> bool" where
  "valid_host h \<longleftrightarrow> h \<noteq> [] \<and> length h \<le> 253 \<and> last h \<noteq> CHR ''.'' \<and> parse_ip h = None \<and>
     to_ascii_lowercase h = h \<and> (\<forall>c \<in> set h. host_byte_ok c)"

lemma last_trim_end: "trim_end_matches c s \<noteq> [] \<Longrightarrow> last (trim_end_matches c s) \<noteq> c"
  unfolding trim_end_matches_def trim_end_while_def
  by (metis (mono_tags, lifting) hd_dropWhile last_rev rev_is_Nil_conv)

lemma ascii_lower_dot: "ascii_lower c = CHR ''.'' \<longleftrightarrow> c = CHR ''.''"
  by (auto simp: ascii_lower_def Let_def of_char_of split: if_splits
      dest!: arg_cong [where f = "of_char :: char \<Rightarrow> nat"])

lemma normalize_sniffed_host_valid: "normalize_sniffed_host u raw = Some h \<Longrightarrow> valid_host h"
  using last_trim_end
  by (auto simp: normalize_sniffed_host_def valid_host_def Let_def list_ex_iff to_ascii_lowercase_def last_map
      ascii_lower_dot split: option.splits list.splits if_splits)

lemma find_host_header_valid: "find_host_header u ls = Some h \<Longrightarrow> valid_host h"
  by (induction ls) (auto dest: normalize_sniffed_host_valid split: option.splits prod.splits if_splits)

lemma sniff_tcp_host_valid: "sniff_tcp_host u buf = Inr (Some h) \<Longrightarrow> valid_host h"
  by (auto simp: sniff_tcp_host_def Let_def and_then_Inr_iff
      dest: normalize_sniffed_host_valid find_host_header_valid split: option.splits list.splits if_splits)

section \<open>Properties\<close>



definition sample_hello :: client_hello where
  "sample_hello = \<lparr>ch_record_header = [3, 1, 0, 80], ch_handshake_length = [0, 0, 76],
     ch_version_random = [3, 3] @ replicate 32 7, ch_session_id = [9, 9], ch_cipher_suites = [0x13, 1],
     ch_compression = [0], ch_extensions_before = [(0x2b, [2, 3, 4])], ch_extensions_after = [(0x10, [0])]\<rparr>"

text \<open>
  C14: The server name of a ClientHello is found: for every well-formed hello whose server-name
  extension comes after any other extensions, whatever follows on the wire, the sniffer reports
  exactly that name.
\<close>

theorem sni_found_in_hello:
  assumes "hello_ok ch host"
  shows "sniff_tcp (hello_wire ch host @ rest) = Inr (L7_Sni host)"
proof -
  have "\<exists>a b c d. xs = [a, b, c, d]" if "length xs = 4" for xs :: bytes
    using that by (auto simp: length_Suc_conv numeral_eq_Suc)
  then obtain a b c d where "ch_record_header ch = [a, b, c, d]" using assms by (metis hello_ok_def)
  then have h: "ch_record_header ch = [3, b, c, d]" "b \<le> 4" using assms by (simp_all add: hello_ok_def)
  then have "5 \<le> length (hello_wire ch host @ rest)"
    using assms by (simp add: hello_wire_def hello_ok_def)
  then show ?thesis
    using parse_tls_sni_hello [OF assms, of rest] h by (simp add: sniff_tcp_def hello_wire_def)
qed

theorem sni_found_in_hello_witness:
  "sniff_tcp (hello_wire sample_hello ''example.com'' @ [1, 2, 3]) = Inr (L7_Sni ''example.com'')"
  by (rule sni_found_in_hello)
    (simp add: hello_ok_def sample_hello_def hello_extensions_def ext_wire_def server_name_data_def is_ascii_valid)

end
