(* ===== verification/Route_Plan.thy ===== *)
theory Route_Plan
  imports Ruleset_IR Sniff
begin

text \<open>
  The data of the routing engine: the compiled plan (\<open>core-config/src/runtime_plan.rs\<close>), the flow it is
  applied to, decisions and their descriptions (\<open>core-route/src/engine.rs\<close>), and the built-in lists
  (\<open>core-route/src/builtin.rs\<close>). The rule-set declarations of a plan are read by another crate
  only and are left out. Sub-rules are a list in key order, as the source's ordered map iterates.
\<close>

section \<open>Plans\<close>

datatype route_matcher =
    M_Any
  | M_Home
  | M_Cn
  | M_Ads
  | M_Service string
  | M_Domain string
  | M_Suffix string
  | M_Keyword string
  | M_DomainRegex string
  | M_DomainWildcard string
  | M_GeoSite string
  | M_Cidr string
  | M_SrcCidr string
  | M_IpSuffix string
  | M_SrcIpSuffix string
  | M_GeoIp string
  | M_SrcGeoIp string
  | M_IpAsn u32
  | M_SrcIpAsn u32
  | M_Port u16
  | M_PortRange u16 u16
  | M_SrcPort u16
  | M_SrcPortRange u16 u16
  | M_InPort u16
  | M_InPortRange u16 u16
  | M_Network string
  | M_Dscp u8
  | M_InUser string
  | M_InName string
  | M_InType string
  | M_Uid u32
  | M_RematchName string
  | M_Process string
  | M_ProcessPath string
  | M_ProcessRegex string
  | M_ProcessPathRegex string
  | M_ProcessWildcard string
  | M_ProcessPathWildcard string
  | M_Set string
  | M_SrcSet string
  | M_Proto string
  | M_And "route_matcher list"
  | M_Or "route_matcher list"
  | M_Not route_matcher
  | M_NoResolve route_matcher

datatype route_action = A_Direct | A_Block | A_Group string | A_Pass | A_PassRule | A_SubRule string

record rule_options =
  ro_no_resolve :: bool
  ro_no_log :: bool
  ro_no_track :: bool

record route_step =
  rs_matcher :: route_matcher
  rs_action :: route_action
  rs_source :: string
  rs_options :: rule_options

record route_plan =
  pl_preset :: string
  pl_final :: string
  pl_steps :: "route_step list"
  pl_sub_rules :: "(string \<times> route_step list) list"

section \<open>Flows\<close>

datatype network_kind = Net_Tcp | Net_Udp

fun network_str :: "network_kind \<Rightarrow> string" where
  "network_str Net_Tcp = ''tcp''"
| "network_str Net_Udp = ''udp''"

record flow_metadata =
  fm_source_ip :: "ip_addr option"
  fm_source_port :: "u16 option"
  fm_inbound_port :: "u16 option"
  fm_inbound_type :: "string option"
  fm_inbound_user :: "string option"
  fm_inbound_name :: "string option"
  fm_uid :: "u32 option"
  fm_dscp :: "u8 option"
  fm_source_geoip :: "string list"
  fm_destination_geoip :: "string list"
  fm_destination_geosite :: "string list"
  fm_source_asn :: "u32 option"
  fm_destination_asn :: "u32 option"
  fm_rematch_names :: "string list"
  fm_query_type :: "u16 option"
  fm_process_path :: "string option"
  fm_package_names :: "string list"
  fm_wifi_ssid :: "string option"
  fm_wifi_bssid :: "string option"
  fm_network_type :: "u8 option"
  fm_network_is_expensive :: "bool option"
  fm_network_is_constrained :: "bool option"
  fm_network_interface_addresses :: "interface_address list"
  fm_default_interface_addresses :: "ip_net list"

definition flow_metadata_default :: flow_metadata where
  "flow_metadata_default = \<lparr>fm_source_ip = None, fm_source_port = None, fm_inbound_port = None,
     fm_inbound_type = None, fm_inbound_user = None, fm_inbound_name = None, fm_uid = None, fm_dscp = None,
     fm_source_geoip = [], fm_destination_geoip = [], fm_destination_geosite = [], fm_source_asn = None,
     fm_destination_asn = None, fm_rematch_names = [], fm_query_type = None, fm_process_path = None,
     fm_package_names = [], fm_wifi_ssid = None, fm_wifi_bssid = None, fm_network_type = None,
     fm_network_is_expensive = None, fm_network_is_constrained = None,
     fm_network_interface_addresses = [], fm_default_interface_addresses = []\<rparr>"

record flow_context =
  fc_host :: string
  fc_ip :: "ip_addr option"
  fc_port :: u16
  fc_network :: network_kind
  fc_process :: "string option"
  fc_ruleset :: flow_metadata
  fc_protocol :: "l7_proto option"

definition for_domain :: "string \<Rightarrow> u16 \<Rightarrow> network_kind \<Rightarrow> flow_context" where
  "for_domain host port network = \<lparr>fc_host = host, fc_ip = None, fc_port = port, fc_network = network,
     fc_process = None, fc_ruleset = flow_metadata_default, fc_protocol = None\<rparr>"

definition for_ip :: "ip_addr \<Rightarrow> u16 \<Rightarrow> network_kind \<Rightarrow> flow_context" where
  "for_ip ip port network = \<lparr>fc_host = show_ip ip, fc_ip = Some ip, fc_port = port, fc_network = network,
     fc_process = None, fc_ruleset = flow_metadata_default, fc_protocol = None\<rparr>"

definition ruleset_match_context :: "flow_context \<Rightarrow> rs_context" where
  "ruleset_match_context f = (let m = fc_ruleset f in
     \<lparr>c_dst_host = fc_host f, c_dst_ip = fc_ip f, c_dst_port = Some (fc_port f), c_src_ip = fm_source_ip m,
      c_src_port = fm_source_port m, c_network = Some (network_str (fc_network f)),
      c_process_name = fc_process f, c_query_type = fm_query_type m, c_process_path = fm_process_path m,
      c_inbound_port = fm_inbound_port m, c_inbound_type = fm_inbound_type m,
      c_inbound_user = fm_inbound_user m, c_inbound_name = fm_inbound_name m, c_uid = fm_uid m,
      c_dscp = fm_dscp m, c_destination_geoip = fm_destination_geoip m, c_source_geoip = fm_source_geoip m,
      c_destination_geosite = fm_destination_geosite m, c_destination_asn = fm_destination_asn m,
      c_source_asn = fm_source_asn m, c_rematch_names = fm_rematch_names m,
      c_package_names = fm_package_names m, c_wifi_ssid = fm_wifi_ssid m, c_wifi_bssid = fm_wifi_bssid m,
      c_network_type = fm_network_type m, c_network_is_expensive = fm_network_is_expensive m,
      c_network_is_constrained = fm_network_is_constrained m,
      c_network_interface_addresses = fm_network_interface_addresses m,
      c_default_interface_addresses = fm_default_interface_addresses m\<rparr>)"

definition source_ruleset_context :: "flow_context \<Rightarrow> rs_context" where
  "source_ruleset_context f = (let base = ruleset_match_context f in
     base\<lparr>c_dst_host := [], c_dst_ip := c_src_ip base, c_dst_port := c_src_port base\<rparr>)"

definition with_protocol :: "flow_context \<Rightarrow> l7_proto \<Rightarrow> flow_context" where
  "with_protocol f p =
    (let host = (case p of
           L7_Sni sni \<Rightarrow> if sni \<noteq> [] \<and> parse_ip (fc_host f) \<noteq> None then sni else fc_host f
         | _ \<Rightarrow> fc_host f)
     in f\<lparr>fc_host := host, fc_protocol := Some p\<rparr>)"

section \<open>Decisions\<close>

datatype route_decision = D_Direct | D_Block | D_Group string

text \<open>A control-flow action never produces a decision; a debug build would assert.\<close>

fun from_action :: "route_action \<Rightarrow> route_decision" where
  "from_action A_Direct = D_Direct"
| "from_action A_Block = D_Block"
| "from_action (A_Group g) = D_Group g"
| "from_action A_Pass = D_Direct"
| "from_action A_PassRule = D_Direct"
| "from_action (A_SubRule _) = D_Direct"

record rule_hit =
  rh_index :: "nat option"
  rh_rule :: string
  rh_payload :: string
  rh_source :: string
  rh_action :: string
  rh_no_resolve :: bool
  rh_no_log :: bool
  rh_no_track :: bool

definition hit_fallback :: rule_hit where
  "hit_fallback = \<lparr>rh_index = None, rh_rule = ''MATCH'', rh_payload = [], rh_source = ''implicit-direct'',
     rh_action = ''DIRECT'', rh_no_resolve = False, rh_no_log = False, rh_no_track = False\<rparr>"

record detailed_decision =
  dd_decision :: route_decision
  dd_matcher :: string
  dd_hit :: rule_hit

fun describe_action :: "route_action \<Rightarrow> string" where
  "describe_action A_Direct = ''DIRECT''"
| "describe_action A_Block = ''REJECT''"
| "describe_action (A_Group g) = g"
| "describe_action A_Pass = ''PASS''"
| "describe_action A_PassRule = ''PASS-RULE''"
| "describe_action (A_SubRule name) = name"

definition show_word :: "'a::len word \<Rightarrow> string" where
  "show_word w = show_nat (unat w)"

definition describe_parts :: "(string \<times> string) list \<Rightarrow> string" where
  "describe_parts ds = join_with '',''
     (map (\<lambda>(rule, payload). ''('' @ rule @ (if payload = [] then [] else '','' @ payload) @ '')'') ds)"

fun describe_matcher :: "route_matcher \<Rightarrow> string \<times> string" where
  "describe_matcher M_Any = (''MATCH'', [])"
| "describe_matcher M_Home = (''HOME'', [])"
| "describe_matcher M_Cn = (''GEOIP'', ''CN'')"
| "describe_matcher M_Ads = (''ADS'', [])"
| "describe_matcher (M_Service v) = (''SERVICE'', v)"
| "describe_matcher (M_Domain v) = (''DOMAIN'', v)"
| "describe_matcher (M_Suffix v) = (''DOMAIN-SUFFIX'', v)"
| "describe_matcher (M_Keyword v) = (''DOMAIN-KEYWORD'', v)"
| "describe_matcher (M_DomainRegex v) = (''DOMAIN-REGEX'', v)"
| "describe_matcher (M_DomainWildcard v) = (''DOMAIN-WILDCARD'', v)"
| "describe_matcher (M_GeoSite v) = (''GEOSITE'', v)"
| "describe_matcher (M_Cidr v) = (''IP-CIDR'', v)"
| "describe_matcher (M_SrcCidr v) = (''SRC-IP-CIDR'', v)"
| "describe_matcher (M_IpSuffix v) = (''IP-SUFFIX'', v)"
| "describe_matcher (M_SrcIpSuffix v) = (''SRC-IP-SUFFIX'', v)"
| "describe_matcher (M_GeoIp v) = (''GEOIP'', v)"
| "describe_matcher (M_SrcGeoIp v) = (''SRC-GEOIP'', v)"
| "describe_matcher (M_IpAsn n) = (''IP-ASN'', show_word n)"
| "describe_matcher (M_SrcIpAsn n) = (''SRC-IP-ASN'', show_word n)"
| "describe_matcher (M_Port p) = (''DST-PORT'', show_word p)"
| "describe_matcher (M_PortRange low high) = (''DST-PORT'', show_word low @ ''-'' @ show_word high)"
| "describe_matcher (M_SrcPort p) = (''SRC-PORT'', show_word p)"
| "describe_matcher (M_SrcPortRange low high) = (''SRC-PORT'', show_word low @ ''-'' @ show_word high)"
| "describe_matcher (M_InPort p) = (''IN-PORT'', show_word p)"
| "describe_matcher (M_InPortRange low high) = (''IN-PORT'', show_word low @ ''-'' @ show_word high)"
| "describe_matcher (M_Network v) = (''NETWORK'', v)"
| "describe_matcher (M_Dscp d) = (''DSCP'', show_word d)"
| "describe_matcher (M_InUser v) = (''IN-USER'', v)"
| "describe_matcher (M_InName v) = (''IN-NAME'', v)"
| "describe_matcher (M_InType v) = (''IN-TYPE'', v)"
| "describe_matcher (M_Uid n) = (''UID'', show_word n)"
| "describe_matcher (M_RematchName v) = (''REMATCH-NAME'', v)"
| "describe_matcher (M_Process v) = (''PROCESS-NAME'', v)"
| "describe_matcher (M_ProcessPath v) = (''PROCESS-PATH'', v)"
| "describe_matcher (M_ProcessRegex v) = (''PROCESS-NAME-REGEX'', v)"
| "describe_matcher (M_ProcessPathRegex v) = (''PROCESS-PATH-REGEX'', v)"
| "describe_matcher (M_ProcessWildcard v) = (''PROCESS-NAME-WILDCARD'', v)"
| "describe_matcher (M_ProcessPathWildcard v) = (''PROCESS-PATH-WILDCARD'', v)"
| "describe_matcher (M_Set v) = (''RULE-SET'', v)"
| "describe_matcher (M_SrcSet v) = (''RULE-SET'', v @ '',src'')"
| "describe_matcher (M_Proto v) = (''PROTOCOL'', v)"
| "describe_matcher (M_And parts) = (''AND'', describe_parts (map describe_matcher parts))"
| "describe_matcher (M_Or parts) = (''OR'', describe_parts (map describe_matcher parts))"
| "describe_matcher (M_Not part) =
    (let (rule, payload) = describe_matcher part
     in (''NOT'', if payload = [] then ''('' @ rule @ '')'' else ''('' @ rule @ '','' @ payload @ '')''))"
| "describe_matcher (M_NoResolve part) =
    (let (rule, payload) = describe_matcher part
     in (rule, (if payload = [] then [] else payload @ '','') @ ''no-resolve''))"

definition describe_compound :: "route_matcher list \<Rightarrow> string" where
  "describe_compound parts = describe_parts (map describe_matcher parts)"

definition matcher_expression :: "route_matcher \<Rightarrow> string" where
  "matcher_expression m =
    (let (rule, payload) = describe_matcher m in if payload = [] then rule else rule @ '','' @ payload)"

definition describe_route_step :: "nat option \<Rightarrow> route_step \<Rightarrow> rule_hit" where
  "describe_route_step index step =
    (let (rule, payload) = (case rs_action step of
           A_SubRule _ \<Rightarrow> (''SUB-RULE'', ''('' @ matcher_expression (rs_matcher step) @ '')'')
         | _ \<Rightarrow> describe_matcher (rs_matcher step))
     in \<lparr>rh_index = index, rh_rule = rule, rh_payload = payload, rh_source = rs_source step,
         rh_action = describe_action (rs_action step), rh_no_resolve = ro_no_resolve (rs_options step),
         rh_no_log = ro_no_log (rs_options step), rh_no_track = ro_no_track (rs_options step)\<rparr>)"

end
