(* ===== verification/Route_Match.thy ===== *)
theory Route_Match
  imports Route_Plan
begin

text \<open>
  Matching one rule against one flow (\<open>core-route/src/engine.rs\<close>, \<open>builtin.rs\<close>): the tables prepared
  from a plan, the normalised view of a flow, and \<open>step_match_state\<close>, which evaluates a matcher to
  matched, not matched, or deferred until the process or the destination address is known.

  The named rule sets are an index with a membership test and an evaluator. The cache of keyword
  hits is filled once per flow from the prepared automaton and the host, which do not change during
  an evaluation; the model computes it where the code reads it.
\<close>

section \<open>Built-in lists\<close>

definition HOME_CIDRS :: "ext_env \<Rightarrow> ip_net list" where
  "HOME_CIDRS x = List.map_filter (x_parse_net x)
     [''127.0.0.0/8'', ''10.0.0.0/8'', ''172.16.0.0/12'', ''192.168.0.0/16'', ''169.254.0.0/16'',
      ''100.64.0.0/10'', ''::1/128'', ''fc00::/7'', ''fe80::/10'', ''fd7a:115c:a1e0::/48'']"

definition HOME_SUFFIXES :: "string list" where
  "HOME_SUFFIXES = [''local'', ''lan'', ''home'', ''internal'']"

definition CN_SUFFIXES :: "string list" where
  "CN_SUFFIXES = [''cn'', ''com.cn'', ''org.cn'', ''net.cn'', ''edu.cn'', ''gov.cn'', ''qq.com'', ''baidu.com'',
     ''alipay.com'', ''taobao.com'', ''tmall.com'', ''jd.com'', ''weibo.com'', ''bilibili.com'', ''163.com'',
     ''126.com'', ''iqiyi.com'', ''youku.com'', ''douyin.com'', ''tencent.com'', ''aliyun.com'', ''alicdn.com'',
     ''tencentcs.com'', ''wechat.com'']"

definition CN_CIDRS :: "ext_env \<Rightarrow> ip_net list" where
  "CN_CIDRS x = List.map_filter (x_parse_net x)
     [''1.0.1.0/24'', ''1.0.32.0/19'', ''1.1.0.0/24'', ''14.16.0.0/12'', ''27.0.128.0/18'', ''36.0.0.0/14'',
      ''39.64.0.0/11'', ''42.48.0.0/12'', ''58.16.0.0/13'', ''60.0.0.0/13'', ''61.128.0.0/10'', ''101.0.0.0/12'',
      ''106.0.0.0/13'', ''110.16.0.0/12'', ''112.0.0.0/9'', ''115.24.0.0/13'', ''116.0.0.0/8'', ''119.176.0.0/12'',
      ''120.192.0.0/10'', ''121.16.0.0/12'', ''180.96.0.0/11'', ''203.79.0.0/16'', ''210.16.0.0/13'',
      ''218.0.0.0/10'', ''219.128.0.0/11'', ''220.96.0.0/11'', ''221.128.0.0/9'', ''222.0.0.0/8'', ''223.0.0.0/12'']"

definition ADS_SUFFIXES :: "string list" where
  "ADS_SUFFIXES = [''doubleclick.net'', ''googlesyndication.com'', ''googletagservices.com'',
     ''googletagmanager.com'', ''google-analytics.com'', ''adservice.google.com'', ''scorecardresearch.com'',
     ''adsrvr.org'', ''adnxs.com'', ''adsymptotic.com'', ''adcolony.com'']"

definition service_suffixes :: "string \<Rightarrow> string list" where
  "service_suffixes name =
    (if name = ''telegram'' then [''telegram.org'', ''t.me'', ''tdesktop.com'', ''telegra.ph'']
     else if name = ''youtube'' then [''youtube.com'', ''youtu.be'', ''ytimg.com'', ''googlevideo.com'']
     else if name = ''netflix''
     then [''netflix.com'', ''nflxvideo.net'', ''nflxext.com'', ''nflximg.net'', ''nflxso.net'']
     else if name = ''github''
     then [''github.com'', ''githubusercontent.com'', ''githubassets.com'', ''ghcr.io'']
     else if name = ''apple'' then [''apple.com'', ''icloud.com'', ''mzstatic.com'', ''cdn-apple.com'']
     else if name = ''google''
     then [''google.com'', ''gstatic.com'', ''googleapis.com'', ''googleusercontent.com'', ''withgoogle.com'']
     else [])"

section \<open>Normalisation and small matchers\<close>

definition normalize_route_domain :: "ext_env \<Rightarrow> string \<Rightarrow> string" where
  "normalize_route_domain x v =
    (let trimmed = trim_end_matches CHR ''.'' (trim (x_unicode x) v)
     in to_ascii_lowercase
          (case x_domain_to_ascii x trimmed of Some a \<Rightarrow> a | None \<Rightarrow> to_ascii_lowercase trimmed))"

definition normalize_route_domain_pattern :: "ext_env \<Rightarrow> string \<Rightarrow> string" where
  "normalize_route_domain_pattern x pattern =
     join_with ''.'' (map (\<lambda>lab.
         if CHR ''*'' \<in> set lab \<or> CHR ''?'' \<in> set lab then to_lowercase (x_unicode x) lab
         else to_lowercase (x_unicode x)
                (case x_domain_to_ascii x lab of Some a \<Rightarrow> a | None \<Rightarrow> to_lowercase (x_unicode x) lab))
       (split_on CHR ''.'' (trim_end_matches CHR ''.'' (trim (x_unicode x) pattern))))"

record ip_suffix =
  is_address :: ip_addr
  is_bits :: u8

definition parse_ip_suffix :: "string \<Rightarrow> ip_suffix option" where
  "parse_ip_suffix v =
    (case split_once CHR ''/'' v of
       None \<Rightarrow> None
     | Some (address, bits) \<Rightarrow>
         (case parse_ip address of
            None \<Rightarrow> None
          | Some a \<Rightarrow>
              (case parse_unsigned 256 bits of
                 None \<Rightarrow> None
               | Some b \<Rightarrow>
                   if b \<le> (case a of V4 _ \<Rightarrow> 32 | V6 _ \<Rightarrow> 128)
                   then Some \<lparr>is_address = a, is_bits = of_nat b\<rparr> else None)))"

text \<open>Indexing in front of the first byte panics; the value \<open>None\<close>.\<close>

definition suffix_bits_match :: "bytes \<Rightarrow> bytes \<Rightarrow> u8 \<Rightarrow> bool option" where
  "suffix_bits_match candidate expected bits =
    (if length candidate \<noteq> length expected then Some False
     else
       (let full_bytes = unat (bits div 8); remaining_bits = unat (bits mod 8); n = length candidate
        in if n < full_bytes then None
           else if 0 < full_bytes \<and> drop (n - full_bytes) candidate \<noteq> drop (n - full_bytes) expected
           then Some False
           else if remaining_bits = 0 then Some True
           else if n < full_bytes + 1 then None
           else
             (let index = n - full_bytes - 1; mask = push_bit remaining_bits (1::u8) - 1
              in Some (candidate ! index AND mask = expected ! index AND mask))))"

definition ip_suffix_matches :: "ip_addr \<Rightarrow> ip_suffix \<Rightarrow> bool" where
  "ip_suffix_matches candidate sfx =
    (case (candidate, is_address sfx) of
       (V4 a, V4 b) \<Rightarrow> suffix_bits_match (octets4 a) (octets4 b) (is_bits sfx) = Some True
     | (V6 a, V6 b) \<Rightarrow> suffix_bits_match (octets6 a) (octets6 b) (is_bits sfx) = Some True
     | _ \<Rightarrow> False)"

definition metadata_code_matches :: "string list \<Rightarrow> string \<Rightarrow> bool" where
  "metadata_code_matches values expected = list_ex (\<lambda>v. eq_ignore_ascii_case v expected) values"

definition value_matches_list :: "ext_env \<Rightarrow> string \<Rightarrow> string \<Rightarrow> bool" where
  "value_matches_list x actual expected =
     list_ex (\<lambda>c. eq_ignore_ascii_case actual (trim (x_unicode x) c)) (split_on CHR ''/'' expected)"

definition option_matches_list :: "ext_env \<Rightarrow> string option \<Rightarrow> string \<Rightarrow> bool" where
  "option_matches_list x actual expected = on_some actual (\<lambda>a. value_matches_list x a expected)"

definition push_candidate :: "string \<Rightarrow> string list \<Rightarrow> string list" where
  "push_candidate c cs = (if c \<noteq> [] \<and> c \<notin> set cs then cs @ [c] else cs)"

definition ruleset_name_candidates :: "ext_env \<Rightarrow> string \<Rightarrow> string \<Rightarrow> string list" where
  "ruleset_name_candidates x kind name =
    (let raw = to_ascii_lowercase (trim_start_matches CHR '':'' (trim (x_unicode x) name));
         cs = push_candidate (kind @ ''-'' @ raw) (push_candidate raw [])
     in if kind = ''geosite'' \<and> raw = ''cn'' then push_candidate ''cn-domain'' cs
        else if kind = ''geoip'' \<and> raw = ''cn'' then push_candidate ''geoip-cn'' cs
        else if kind = ''geoip'' \<and> raw = ''private'' then push_candidate ''geoip-private'' cs
        else cs)"

definition host_suffix_normalized :: "string \<Rightarrow> string \<Rightarrow> bool" where
  "host_suffix_normalized host sfx =
    (let s = trim_start_matches CHR ''.'' sfx
     in host = s \<or> on_some (strip_suffix s host) (\<lambda>p. ends_with ''.'' p))"

definition text_eq_ignore_case :: "ext_env \<Rightarrow> string \<Rightarrow> string \<Rightarrow> bool" where
  "text_eq_ignore_case x l r \<longleftrightarrow>
     eq_ignore_ascii_case l r \<or> to_lowercase (x_unicode x) l = to_lowercase (x_unicode x) r"

definition match_suffix_list :: "string \<Rightarrow> string list \<Rightarrow> bool" where
  "match_suffix_list host ls = list_ex (host_suffix_normalized host) ls"

section \<open>Prepared matchers\<close>

datatype prepared_domain_regex = Fast "string \<Rightarrow> bool" | Fancy "string \<Rightarrow> bool option"

record prepared_matchers =
  pm_normalized_values :: "(string \<times> string) list"
  pm_destination_cidrs :: "(string \<times> ip_net) list"
  pm_source_cidrs :: "(string \<times> ip_net) list"
  pm_domain_regexes :: "(string \<times> prepared_domain_regex) list"
  pm_domain_wildcards :: "(string \<times> (string \<Rightarrow> bool)) list"
  pm_process_regexes :: "(string \<times> (string \<Rightarrow> bool)) list"
  pm_process_wildcards :: "(string \<times> (string \<Rightarrow> bool)) list"
  pm_destination_ip_suffixes :: "(string \<times> ip_suffix) list"
  pm_source_ip_suffixes :: "(string \<times> ip_suffix) list"
  pm_geosite_aliases :: "(string \<times> string list) list"
  pm_geoip_aliases :: "(string \<times> string list) list"
  pm_asn_aliases :: "(u32 \<times> string list) list"
  pm_keyword_ids :: "(string \<times> nat) list"
  pm_keyword_unique_ids :: "(string \<times> nat) list"
  pm_keyword_patterns :: "string list"
  pm_keyword_automaton :: "(string \<Rightarrow> nat list) option"

definition prepared_default :: prepared_matchers where
  "prepared_default = \<lparr>pm_normalized_values = [], pm_destination_cidrs = [], pm_source_cidrs = [],
     pm_domain_regexes = [], pm_domain_wildcards = [], pm_process_regexes = [], pm_process_wildcards = [],
     pm_destination_ip_suffixes = [], pm_source_ip_suffixes = [], pm_geosite_aliases = [],
     pm_geoip_aliases = [], pm_asn_aliases = [], pm_keyword_ids = [], pm_keyword_unique_ids = [],
     pm_keyword_patterns = [], pm_keyword_automaton = None\<rparr>"

text \<open>\<open>entry(k).or_insert_with(f)\<close>: the closure runs only for a new key, and may panic.\<close>

definition or_insert_with :: "'k \<Rightarrow> io_error + 'v \<Rightarrow> ('k \<times> 'v) list \<Rightarrow> io_error + ('k \<times> 'v) list" where
  "or_insert_with k f m =
     (if amap_contains k m then Inr m else and_then f (\<lambda>v. Inr (amap_insert k v m)))"

definition expect :: "'a option \<Rightarrow> io_error + 'a" where
  "expect v = (case v of Some a \<Rightarrow> Inr a | None \<Rightarrow> Inl Panic)"

definition compile_domain_regex :: "ext_env \<Rightarrow> string \<Rightarrow> io_error + prepared_domain_regex" where
  "compile_domain_regex x pattern =
     (case x_regex_ci x pattern of
        Some f \<Rightarrow> Inr (Fast f)
      | None \<Rightarrow> and_then (expect (x_fancy x pattern)) (\<lambda>f. Inr (Fancy f)))"

definition compile_glob :: "ext_env \<Rightarrow> string \<Rightarrow> io_error + (string \<Rightarrow> bool)" where
  "compile_glob x pattern = expect (x_glob x pattern)"

definition collect_keyword :: "string \<Rightarrow> prepared_matchers \<Rightarrow> prepared_matchers" where
  "collect_keyword v p =
    (let normalized = to_ascii_lowercase v
     in case map_of (pm_keyword_unique_ids p) normalized of
          Some i \<Rightarrow> p\<lparr>pm_keyword_ids := amap_insert v i (pm_keyword_ids p)\<rparr>
        | None \<Rightarrow>
            (let i = length (pm_keyword_patterns p)
             in p\<lparr>pm_keyword_patterns := pm_keyword_patterns p @ [normalized],
                  pm_keyword_unique_ids := amap_insert normalized i (pm_keyword_unique_ids p),
                  pm_keyword_ids := amap_insert v i (pm_keyword_ids p)\<rparr>))"

fun fold_result :: "('a \<Rightarrow> 's \<Rightarrow> 'e + 's) \<Rightarrow> 'a list \<Rightarrow> 's \<Rightarrow> 'e + 's" where
  "fold_result f [] s = Inr s"
| "fold_result f (a # as) s = and_then (f a s) (fold_result f as)"

lemma fold_result_cong [fundef_cong]:
  "as = bs \<Longrightarrow> s = t \<Longrightarrow> (\<And>a u. a \<in> set bs \<Longrightarrow> f a u = g a u) \<Longrightarrow> fold_result f as s = fold_result g bs t"
proof (induction as arbitrary: bs s t)
  case (Cons a as)
  have "fold_result f as = fold_result g as" using Cons.IH [of as] Cons.prems by (intro ext) auto
  then show ?case using Cons.prems by auto
qed simp

fun collect :: "ext_env \<Rightarrow> route_matcher \<Rightarrow> prepared_matchers \<Rightarrow> io_error + prepared_matchers" where
  "collect x (M_Domain v) p =
    and_then (or_insert_with v (Inr (normalize_route_domain x v)) (pm_normalized_values p))
      (\<lambda>m. Inr (p\<lparr>pm_normalized_values := m\<rparr>))"
| "collect x (M_Suffix v) p =
    and_then (or_insert_with v (Inr (normalize_route_domain x v)) (pm_normalized_values p))
      (\<lambda>m. Inr (p\<lparr>pm_normalized_values := m\<rparr>))"
| "collect x (M_Process v) p =
    and_then (or_insert_with v (Inr (to_lowercase (x_unicode x) v)) (pm_normalized_values p))
      (\<lambda>m. Inr (p\<lparr>pm_normalized_values := m\<rparr>))"
| "collect x (M_ProcessPath v) p =
    and_then (or_insert_with v (Inr (to_lowercase (x_unicode x) v)) (pm_normalized_values p))
      (\<lambda>m. Inr (p\<lparr>pm_normalized_values := m\<rparr>))"
| "collect x (M_InUser v) p =
    and_then (or_insert_with v (Inr (to_lowercase (x_unicode x) v)) (pm_normalized_values p))
      (\<lambda>m. Inr (p\<lparr>pm_normalized_values := m\<rparr>))"
| "collect x (M_InName v) p =
    and_then (or_insert_with v (Inr (to_lowercase (x_unicode x) v)) (pm_normalized_values p))
      (\<lambda>m. Inr (p\<lparr>pm_normalized_values := m\<rparr>))"
| "collect x (M_InType v) p =
    and_then (or_insert_with v (Inr (to_lowercase (x_unicode x) v)) (pm_normalized_values p))
      (\<lambda>m. Inr (p\<lparr>pm_normalized_values := m\<rparr>))"
| "collect x (M_RematchName v) p =
    and_then (or_insert_with v (Inr (to_lowercase (x_unicode x) v)) (pm_normalized_values p))
      (\<lambda>m. Inr (p\<lparr>pm_normalized_values := m\<rparr>))"
| "collect x (M_Keyword v) p = Inr (collect_keyword v p)"
| "collect x (M_DomainRegex v) p =
    and_then (or_insert_with v (compile_domain_regex x v) (pm_domain_regexes p))
      (\<lambda>m. Inr (p\<lparr>pm_domain_regexes := m\<rparr>))"
| "collect x (M_DomainWildcard v) p =
    and_then (or_insert_with v (compile_glob x (normalize_route_domain_pattern x v)) (pm_domain_wildcards p))
      (\<lambda>m. Inr (p\<lparr>pm_domain_wildcards := m\<rparr>))"
| "collect x (M_ProcessRegex v) p =
    and_then (or_insert_with v (expect (x_regex x v)) (pm_process_regexes p))
      (\<lambda>m. Inr (p\<lparr>pm_process_regexes := m\<rparr>))"
| "collect x (M_ProcessPathRegex v) p =
    and_then (or_insert_with v (expect (x_regex x v)) (pm_process_regexes p))
      (\<lambda>m. Inr (p\<lparr>pm_process_regexes := m\<rparr>))"
| "collect x (M_ProcessWildcard v) p =
    and_then (or_insert_with v (compile_glob x v) (pm_process_wildcards p))
      (\<lambda>m. Inr (p\<lparr>pm_process_wildcards := m\<rparr>))"
| "collect x (M_ProcessPathWildcard v) p =
    and_then (or_insert_with v (compile_glob x v) (pm_process_wildcards p))
      (\<lambda>m. Inr (p\<lparr>pm_process_wildcards := m\<rparr>))"
| "collect x (M_Cidr v) p =
    Inr (case x_parse_net x v of
           Some n \<Rightarrow> p\<lparr>pm_destination_cidrs := amap_insert v n (pm_destination_cidrs p)\<rparr> | None \<Rightarrow> p)"
| "collect x (M_SrcCidr v) p =
    Inr (case x_parse_net x v of
           Some n \<Rightarrow> p\<lparr>pm_source_cidrs := amap_insert v n (pm_source_cidrs p)\<rparr> | None \<Rightarrow> p)"
| "collect x (M_IpSuffix v) p =
    Inr (case parse_ip_suffix v of
           Some s \<Rightarrow> p\<lparr>pm_destination_ip_suffixes := amap_insert v s (pm_destination_ip_suffixes p)\<rparr> | None \<Rightarrow> p)"
| "collect x (M_SrcIpSuffix v) p =
    Inr (case parse_ip_suffix v of
           Some s \<Rightarrow> p\<lparr>pm_source_ip_suffixes := amap_insert v s (pm_source_ip_suffixes p)\<rparr> | None \<Rightarrow> p)"
| "collect x (M_GeoSite v) p =
    Inr (p\<lparr>pm_geosite_aliases := amap_insert v (ruleset_name_candidates x ''geosite'' v) (pm_geosite_aliases p)\<rparr>)"
| "collect x (M_GeoIp v) p =
    Inr (p\<lparr>pm_geoip_aliases := amap_insert v (ruleset_name_candidates x ''geoip'' v) (pm_geoip_aliases p)\<rparr>)"
| "collect x (M_SrcGeoIp v) p =
    Inr (p\<lparr>pm_geoip_aliases := amap_insert v (ruleset_name_candidates x ''geoip'' v) (pm_geoip_aliases p)\<rparr>)"
| "collect x (M_IpAsn n) p =
    Inr (p\<lparr>pm_asn_aliases := amap_insert n (ruleset_name_candidates x ''asn'' (show_word n)) (pm_asn_aliases p)\<rparr>)"
| "collect x (M_SrcIpAsn n) p =
    Inr (p\<lparr>pm_asn_aliases := amap_insert n (ruleset_name_candidates x ''asn'' (show_word n)) (pm_asn_aliases p)\<rparr>)"
| "collect x (M_And parts) p = fold_result (collect x) parts p"
| "collect x (M_Or parts) p = fold_result (collect x) parts p"
| "collect x (M_Not part) p = collect x part p"
| "collect x (M_NoResolve part) p = collect x part p"
| "collect x _ p = Inr p"

definition collect_steps :: "ext_env \<Rightarrow> route_step list \<Rightarrow> prepared_matchers \<Rightarrow> io_error + prepared_matchers" where
  "collect_steps x steps p = fold_result (\<lambda>s. collect x (rs_matcher s)) steps p"

definition compile_prepared :: "ext_env \<Rightarrow> route_plan \<Rightarrow> io_error + prepared_matchers" where
  "compile_prepared x plan =
    and_then (collect_steps x (pl_steps plan) prepared_default) (\<lambda>p.
    and_then (fold_result (\<lambda>(_, steps). collect_steps x steps) (pl_sub_rules plan) p) (\<lambda>p.
    Inr (if pm_keyword_patterns p \<noteq> []
         then p\<lparr>pm_keyword_automaton := x_aho x (pm_keyword_patterns p)\<rparr> else p)))"

section \<open>A flow as the matchers see it\<close>

record match_input =
  mi_context :: flow_context
  mi_normalized_host :: string
  mi_unicode_host :: string
  mi_resolved_ip :: "ip_addr option"

definition match_input_new :: "ext_env \<Rightarrow> flow_context \<Rightarrow> match_input" where
  "match_input_new x ctx =
    (let unicode_host = to_lowercase (x_unicode x)
           (trim_end_matches CHR ''.'' (trim (x_unicode x) (fc_host ctx)))
     in \<lparr>mi_context = ctx, mi_normalized_host = normalize_route_domain x unicode_host,
         mi_unicode_host = unicode_host,
         mi_resolved_ip = (case fc_ip ctx of Some ip \<Rightarrow> Some ip | None \<Rightarrow> parse_ip (fc_host ctx))\<rparr>)"

definition keyword_matches :: "match_input \<Rightarrow> prepared_matchers \<Rightarrow> nat \<Rightarrow> bool" where
  "keyword_matches i p pattern_id =
    (let hits = (case pm_keyword_automaton p of
           None \<Rightarrow> []
         | Some search \<Rightarrow> search (mi_normalized_host i) @
             (if mi_unicode_host i \<noteq> mi_normalized_host i then search (mi_unicode_host i) else []))
     in pattern_id < length (pm_keyword_patterns p) \<and> pattern_id \<in> set hits)"

definition match_home_domain :: "match_input \<Rightarrow> bool" where
  "match_home_domain i = match_suffix_list (mi_normalized_host i) HOME_SUFFIXES"

definition match_home :: "ext_env \<Rightarrow> match_input \<Rightarrow> bool" where
  "match_home x i = (match_home_domain i \<or>
     on_some (mi_resolved_ip i) (\<lambda>ip. list_ex (\<lambda>n. x_contains x n ip) (HOME_CIDRS x)))"

definition match_cn_domain :: "match_input \<Rightarrow> bool" where
  "match_cn_domain i = match_suffix_list (mi_normalized_host i) CN_SUFFIXES"

definition match_cn :: "ext_env \<Rightarrow> match_input \<Rightarrow> bool" where
  "match_cn x i = (match_cn_domain i \<or>
     on_some (mi_resolved_ip i) (\<lambda>ip. list_ex (\<lambda>n. x_contains x n ip) (CN_CIDRS x)))"

definition match_cidr :: "ext_env \<Rightarrow> match_input \<Rightarrow> ip_net option \<Rightarrow> ip_net list \<Rightarrow> bool" where
  "match_cidr x i network extra =
     on_some network (\<lambda>n. on_some (mi_resolved_ip i) (\<lambda>ip.
       x_contains x n ip \<or> list_ex (\<lambda>e. x_contains x e ip) extra))"

definition match_source_cidr :: "ext_env \<Rightarrow> flow_context \<Rightarrow> ip_net option \<Rightarrow> bool" where
  "match_source_cidr x ctx network =
     on_some network (\<lambda>n. on_some (fm_source_ip (fc_ruleset ctx)) (\<lambda>ip. x_contains x n ip))"

section \<open>Matching a rule\<close>

datatype match_state = Matched | NotMatched | Deferred bool bool

definition state_deferred :: "bool \<Rightarrow> bool \<Rightarrow> match_state" where
  "state_deferred needs_process needs_ip =
     (if needs_process \<or> needs_ip then Deferred needs_process needs_ip else NotMatched)"

fun state_requirements :: "match_state \<Rightarrow> bool \<times> bool" where
  "state_requirements (Deferred needs_process needs_ip) = (needs_process, needs_ip)"
| "state_requirements Matched = (False, False)"
| "state_requirements NotMatched = (False, False)"

definition bool_state :: "bool \<Rightarrow> match_state" where
  "bool_state b = (if b then Matched else NotMatched)"

fun ruleset_outcome_to_state :: "match_outcome \<Rightarrow> match_state" where
  "ruleset_outcome_to_state O_Matched = Matched"
| "ruleset_outcome_to_state O_NotMatched = NotMatched"
| "ruleset_outcome_to_state O_NeedsProcess = state_deferred True False"
| "ruleset_outcome_to_state O_NeedsDestinationIp = state_deferred False True"
| "ruleset_outcome_to_state O_NeedsProcessAndDestinationIp = state_deferred True True"

record ruleset_index =
  ri_contains :: "string \<Rightarrow> bool"
  ri_matches :: "string \<Rightarrow> rs_context \<Rightarrow> bool \<Rightarrow> bool \<Rightarrow> match_outcome"

definition match_ruleset_alias ::
  "ruleset_index option \<Rightarrow> string list option \<Rightarrow> match_input \<Rightarrow> bool \<Rightarrow> bool \<Rightarrow> bool \<Rightarrow> match_state" where
  "match_ruleset_alias rulesets candidates i process_resolved destination_ip_resolved source =
    (case rulesets of None \<Rightarrow> NotMatched
     | Some index \<Rightarrow>
         (case candidates of None \<Rightarrow> NotMatched
          | Some cs \<Rightarrow>
              (let context = (if source then source_ruleset_context (mi_context i)
                              else ruleset_match_context (mi_context i))
               in any_loop Matched NotMatched state_deferred state_requirements False False
                    (map (\<lambda>c. ruleset_outcome_to_state
                        (ri_matches index c context process_resolved (destination_ip_resolved \<or> source)))
                      (filter (ri_contains index) cs)))))"

definition on_both_hosts :: "match_input \<Rightarrow> (string \<Rightarrow> bool) \<Rightarrow> bool" where
  "on_both_hosts i f = (f (mi_normalized_host i) \<or>
     (mi_unicode_host i \<noteq> mi_normalized_host i \<and> f (mi_unicode_host i)))"

text \<open>What stays the same while the matchers of an engine are evaluated.\<close>

record matching =
  mt_env :: ext_env
  mt_extra_cidrs :: "ip_net list"
  mt_rulesets :: "ruleset_index option"
  mt_prepared :: prepared_matchers

definition normalized_value :: "prepared_matchers \<Rightarrow> string \<Rightarrow> string" where
  "normalized_value p v = (case map_of (pm_normalized_values p) v of Some n \<Rightarrow> n | None \<Rightarrow> v)"

definition match_keyword :: "prepared_matchers \<Rightarrow> match_input \<Rightarrow> string \<Rightarrow> bool" where
  "match_keyword p i keyword =
     (case map_of (pm_keyword_ids p) keyword of
        Some pattern_id \<Rightarrow> keyword_matches i p pattern_id
      | None \<Rightarrow> contains_str (to_ascii_lowercase keyword) (mi_normalized_host i))"

definition match_domain_regex :: "prepared_matchers \<Rightarrow> match_input \<Rightarrow> string \<Rightarrow> bool" where
  "match_domain_regex p i pattern =
     (case map_of (pm_domain_regexes p) pattern of
        Some (Fast f) \<Rightarrow> on_both_hosts i f
      | Some (Fancy f) \<Rightarrow> on_both_hosts i (\<lambda>h. f h = Some True)
      | None \<Rightarrow> False)"

definition on_process_names :: "flow_context \<Rightarrow> (string \<Rightarrow> bool) \<Rightarrow> bool" where
  "on_process_names ctx f = (on_some (fc_process ctx) f \<or> list_ex f (fm_package_names (fc_ruleset ctx)))"

fun step_match_state :: "matching \<Rightarrow> match_input \<Rightarrow> bool \<Rightarrow> bool \<Rightarrow> route_matcher \<Rightarrow> match_state" where
  "step_match_state t i pr dr M_Any = Matched"
| "step_match_state t i pr dr M_Home =
    (if \<not> dr \<and> \<not> match_home_domain i then state_deferred False True else bool_state (match_home (mt_env t) i))"
| "step_match_state t i pr dr M_Cn =
    (if \<not> dr \<and> \<not> match_cn_domain i then state_deferred False True else bool_state (match_cn (mt_env t) i))"
| "step_match_state t i pr dr M_Ads = bool_state (match_suffix_list (mi_normalized_host i) ADS_SUFFIXES)"
| "step_match_state t i pr dr (M_Service name) =
    bool_state (match_suffix_list (mi_normalized_host i) (service_suffixes name))"
| "step_match_state t i pr dr (M_Domain v) =
    bool_state (mi_normalized_host i = normalized_value (mt_prepared t) v)"
| "step_match_state t i pr dr (M_Suffix v) =
    bool_state (host_suffix_normalized (mi_normalized_host i) (normalized_value (mt_prepared t) v))"
| "step_match_state t i pr dr (M_Keyword v) = bool_state (match_keyword (mt_prepared t) i v)"
| "step_match_state t i pr dr (M_DomainRegex v) = bool_state (match_domain_regex (mt_prepared t) i v)"
| "step_match_state t i pr dr (M_DomainWildcard v) =
    bool_state (on_some (map_of (pm_domain_wildcards (mt_prepared t)) v) (on_both_hosts i))"
| "step_match_state t i pr dr (M_GeoSite code) =
    match_ruleset_alias (mt_rulesets t) (map_of (pm_geosite_aliases (mt_prepared t)) code) i pr dr False"
| "step_match_state t i pr dr (M_Cidr v) =
    (if \<not> dr then state_deferred False True
     else bool_state (match_cidr (mt_env t) i (map_of (pm_destination_cidrs (mt_prepared t)) v) (mt_extra_cidrs t)))"
| "step_match_state t i pr dr (M_SrcCidr v) =
    bool_state (match_source_cidr (mt_env t) (mi_context i) (map_of (pm_source_cidrs (mt_prepared t)) v))"
| "step_match_state t i pr dr (M_IpSuffix v) =
    (if \<not> dr then state_deferred False True
     else bool_state (on_some (map_of (pm_destination_ip_suffixes (mt_prepared t)) v) (\<lambda>s.
       on_some (mi_resolved_ip i) (\<lambda>ip. ip_suffix_matches ip s))))"
| "step_match_state t i pr dr (M_SrcIpSuffix v) =
    bool_state (on_some (map_of (pm_source_ip_suffixes (mt_prepared t)) v) (\<lambda>s.
      on_some (fm_source_ip (fc_ruleset (mi_context i))) (\<lambda>ip. ip_suffix_matches ip s)))"
| "step_match_state t i pr dr (M_GeoIp code) =
    (let known = metadata_code_matches (fm_destination_geoip (fc_ruleset (mi_context i))) code
     in if \<not> dr \<and> \<not> known then state_deferred False True
        else if known then Matched
        else match_ruleset_alias (mt_rulesets t) (map_of (pm_geoip_aliases (mt_prepared t)) code) i pr dr False)"
| "step_match_state t i pr dr (M_SrcGeoIp code) =
    (if metadata_code_matches (fm_source_geoip (fc_ruleset (mi_context i))) code then Matched
     else match_ruleset_alias (mt_rulesets t) (map_of (pm_geoip_aliases (mt_prepared t)) code) i pr True True)"
| "step_match_state t i pr dr (M_IpAsn asn) =
    (let known = (fm_destination_asn (fc_ruleset (mi_context i)) = Some asn)
     in if \<not> dr \<and> \<not> known then state_deferred False True
        else if known then Matched
        else match_ruleset_alias (mt_rulesets t) (map_of (pm_asn_aliases (mt_prepared t)) asn) i pr dr False)"
| "step_match_state t i pr dr (M_SrcIpAsn asn) =
    (if fm_source_asn (fc_ruleset (mi_context i)) = Some asn then Matched
     else match_ruleset_alias (mt_rulesets t) (map_of (pm_asn_aliases (mt_prepared t)) asn) i pr True True)"
| "step_match_state t i pr dr (M_Port p) = bool_state (fc_port (mi_context i) = p)"
| "step_match_state t i pr dr (M_PortRange lo hi) =
    bool_state (lo \<le> fc_port (mi_context i) \<and> fc_port (mi_context i) \<le> hi)"
| "step_match_state t i pr dr (M_SrcPort p) =
    bool_state (fm_source_port (fc_ruleset (mi_context i)) = Some p)"
| "step_match_state t i pr dr (M_SrcPortRange lo hi) =
    bool_state (on_some (fm_source_port (fc_ruleset (mi_context i))) (\<lambda>p. lo \<le> p \<and> p \<le> hi))"
| "step_match_state t i pr dr (M_InPort p) =
    bool_state (fm_inbound_port (fc_ruleset (mi_context i)) = Some p)"
| "step_match_state t i pr dr (M_InPortRange lo hi) =
    bool_state (on_some (fm_inbound_port (fc_ruleset (mi_context i))) (\<lambda>p. lo \<le> p \<and> p \<le> hi))"
| "step_match_state t i pr dr (M_Network n) =
    bool_state (eq_ignore_ascii_case n (network_str (fc_network (mi_context i))))"
| "step_match_state t i pr dr (M_Dscp d) = bool_state (fm_dscp (fc_ruleset (mi_context i)) = Some d)"
| "step_match_state t i pr dr (M_InUser v) =
    bool_state (option_matches_list (mt_env t) (fm_inbound_user (fc_ruleset (mi_context i))) v)"
| "step_match_state t i pr dr (M_InName v) =
    bool_state (option_matches_list (mt_env t) (fm_inbound_name (fc_ruleset (mi_context i))) v)"
| "step_match_state t i pr dr (M_InType v) =
    bool_state (option_matches_list (mt_env t) (fm_inbound_type (fc_ruleset (mi_context i))) v)"
| "step_match_state t i pr dr (M_Uid u) = bool_state (fm_uid (fc_ruleset (mi_context i)) = Some u)"
| "step_match_state t i pr dr (M_RematchName v) =
    bool_state (list_ex (\<lambda>a. value_matches_list (mt_env t) a v) (fm_rematch_names (fc_ruleset (mi_context i))))"
| "step_match_state t i pr dr (M_Process v) =
    (if \<not> pr then state_deferred True False
     else bool_state (on_process_names (mi_context i) (\<lambda>n. text_eq_ignore_case (mt_env t) n v)))"
| "step_match_state t i pr dr (M_ProcessPath v) =
    (if \<not> pr then state_deferred True False
     else bool_state (on_some (fm_process_path (fc_ruleset (mi_context i))) (\<lambda>a. text_eq_ignore_case (mt_env t) a v)))"
| "step_match_state t i pr dr (M_ProcessRegex v) =
    (if \<not> pr then state_deferred True False
     else bool_state (on_some (map_of (pm_process_regexes (mt_prepared t)) v) (on_process_names (mi_context i))))"
| "step_match_state t i pr dr (M_ProcessPathRegex v) =
    (if \<not> pr then state_deferred True False
     else bool_state (on_some (map_of (pm_process_regexes (mt_prepared t)) v)
       (on_some (fm_process_path (fc_ruleset (mi_context i))))))"
| "step_match_state t i pr dr (M_ProcessWildcard v) =
    (if \<not> pr then state_deferred True False
     else bool_state (on_some (map_of (pm_process_wildcards (mt_prepared t)) v) (on_process_names (mi_context i))))"
| "step_match_state t i pr dr (M_ProcessPathWildcard v) =
    (if \<not> pr then state_deferred True False
     else bool_state (on_some (map_of (pm_process_wildcards (mt_prepared t)) v)
       (on_some (fm_process_path (fc_ruleset (mi_context i))))))"
| "step_match_state t i pr dr (M_Set name) =
    (case mt_rulesets t of None \<Rightarrow> NotMatched
     | Some index \<Rightarrow> ruleset_outcome_to_state (ri_matches index name (ruleset_match_context (mi_context i)) pr dr))"
| "step_match_state t i pr dr (M_SrcSet name) =
    (case mt_rulesets t of None \<Rightarrow> NotMatched
     | Some index \<Rightarrow> ruleset_outcome_to_state (ri_matches index name (source_ruleset_context (mi_context i)) pr True))"
| "step_match_state t i pr dr (M_Proto name) =
    bool_state (on_some (fc_protocol (mi_context i)) (proto_name_matches name))"
| "step_match_state t i pr dr (M_And parts) =
    all_loop Matched NotMatched state_deferred state_requirements False False
      (map (step_match_state t i pr dr) parts)"
| "step_match_state t i pr dr (M_Or parts) =
    any_loop Matched NotMatched state_deferred state_requirements False False
      (map (step_match_state t i pr dr) parts)"
| "step_match_state t i pr dr (M_Not part) =
    not_state Matched NotMatched (step_match_state t i pr dr part)"
| "step_match_state t i pr dr (M_NoResolve part) = step_match_state t i pr True part"

definition step_matches :: "matching \<Rightarrow> match_input \<Rightarrow> bool \<Rightarrow> bool \<Rightarrow> route_matcher \<Rightarrow> bool" where
  "step_matches t i pr dr m \<longleftrightarrow> step_match_state t i pr dr m = Matched"

fun matcher_kind :: "route_matcher \<Rightarrow> string" where
  "matcher_kind M_Any = ''any''"
| "matcher_kind M_Home = ''home''"
| "matcher_kind M_Cn = ''cn''"
| "matcher_kind M_Ads = ''ads''"
| "matcher_kind (M_Service _) = ''service''"
| "matcher_kind (M_Domain _) = ''domain''"
| "matcher_kind (M_Suffix _) = ''suffix''"
| "matcher_kind (M_Keyword _) = ''keyword''"
| "matcher_kind (M_DomainRegex _) = ''domain_regex''"
| "matcher_kind (M_DomainWildcard _) = ''domain_wildcard''"
| "matcher_kind (M_GeoSite _) = ''geosite''"
| "matcher_kind (M_Cidr _) = ''ip''"
| "matcher_kind (M_SrcCidr _) = ''src_ip''"
| "matcher_kind (M_IpSuffix _) = ''ip_suffix''"
| "matcher_kind (M_SrcIpSuffix _) = ''src_ip_suffix''"
| "matcher_kind (M_GeoIp _) = ''geoip''"
| "matcher_kind (M_SrcGeoIp _) = ''src_geoip''"
| "matcher_kind (M_IpAsn _) = ''ip_asn''"
| "matcher_kind (M_SrcIpAsn _) = ''src_ip_asn''"
| "matcher_kind (M_Port _) = ''port''"
| "matcher_kind (M_PortRange _ _) = ''port_range''"
| "matcher_kind (M_SrcPort _) = ''src_port''"
| "matcher_kind (M_SrcPortRange _ _) = ''src_port_range''"
| "matcher_kind (M_InPort _) = ''in_port''"
| "matcher_kind (M_InPortRange _ _) = ''in_port_range''"
| "matcher_kind (M_And _) = ''and''"
| "matcher_kind (M_Or _) = ''or''"
| "matcher_kind (M_Not _) = ''not''"
| "matcher_kind (M_NoResolve part) = matcher_kind part"
| "matcher_kind (M_Network _) = ''network''"
| "matcher_kind (M_Dscp _) = ''dscp''"
| "matcher_kind (M_InUser _) = ''in_user''"
| "matcher_kind (M_InName _) = ''in_name''"
| "matcher_kind (M_InType _) = ''in_type''"
| "matcher_kind (M_Uid _) = ''uid''"
| "matcher_kind (M_RematchName _) = ''rematch_name''"
| "matcher_kind (M_Process _) = ''process''"
| "matcher_kind (M_ProcessPath _) = ''process_path''"
| "matcher_kind (M_ProcessRegex _) = ''process_regex''"
| "matcher_kind (M_ProcessPathRegex _) = ''process_path_regex''"
| "matcher_kind (M_ProcessWildcard _) = ''process_wildcard''"
| "matcher_kind (M_ProcessPathWildcard _) = ''process_path_wildcard''"
| "matcher_kind (M_Set _) = ''set''"
| "matcher_kind (M_SrcSet _) = ''src_set''"
| "matcher_kind (M_Proto _) = ''proto''"

section \<open>Lazy evaluation of a rule\<close>

interpretation state: lazy_logic Matched NotMatched state_deferred state_requirements
  by unfold_locales (simp_all add: state_deferred_def)

text \<open>
  What the engine needs of a rule-set index: an answer that does not ask for the process (the
  destination address) holds for every process (address), and known metadata is not asked for.
\<close>

locale lazy_index =
  fixes index :: ruleset_index
  assumes process_settles: "settles outcome_requirements fst (ri_matches index n ctx False d)
      (ri_matches index n (with_process ctx name path packages) True d)"
    and destination_settles: "settles outcome_requirements snd (ri_matches index n ctx r False)
      (ri_matches index n (with_destination ctx ip) r True)"
    and process_known: "\<not> fst (outcome_requirements (ri_matches index n ctx True d))"
    and destination_known: "\<not> snd (outcome_requirements (ri_matches index n ctx r True))"

text \<open>An index of semantic rule sets; a name that is not there does not match.\<close>

definition semantic_index :: "ext_env \<Rightarrow> (string \<times> ruleset_program) list \<Rightarrow> ruleset_index" where
  "semantic_index x programs =
     \<lparr>ri_contains = (\<lambda>n. map_of programs n \<noteq> None),
      ri_matches = (\<lambda>n ctx pr dr. case map_of programs n of
          None \<Rightarrow> O_NotMatched | Some p \<Rightarrow> matches_deferred x ctx pr dr p)\<rparr>"

interpretation semantic: lazy_index "semantic_index x programs" for x programs
  by unfold_locales
    (simp_all add: semantic_index_def matches_deferred_def matches_lazy_process matches_lazy_destination
      matches_lazy_asks_process matches_lazy_asks_destination split: option.split)

definition flow_process :: "string option \<Rightarrow> string option \<Rightarrow> string list \<Rightarrow> flow_context \<Rightarrow> flow_context" where
  "flow_process name path packages f = f\<lparr>fc_process := name,
     fc_ruleset := (fc_ruleset f)\<lparr>fm_process_path := path, fm_package_names := packages\<rparr>\<rparr>"

definition flow_destination :: "ip_addr \<Rightarrow> flow_context \<Rightarrow> flow_context" where
  "flow_destination ip f = f\<lparr>fc_ip := Some ip\<rparr>"

definition input_process :: "string option \<Rightarrow> string option \<Rightarrow> string list \<Rightarrow> match_input \<Rightarrow> match_input" where
  "input_process name path packages i = i\<lparr>mi_context := flow_process name path packages (mi_context i)\<rparr>"

definition input_destination :: "ip_addr \<Rightarrow> match_input \<Rightarrow> match_input" where
  "input_destination ip i = i\<lparr>mi_context := flow_destination ip (mi_context i), mi_resolved_ip := Some ip\<rparr>"

lemma match_input_process:
  "match_input_new x (flow_process name path packages f) = input_process name path packages (match_input_new x f)"
  by (simp add: match_input_new_def flow_process_def input_process_def Let_def cong: option.case_cong)

lemma match_input_destination:
  "match_input_new x (flow_destination ip f) = input_destination ip (match_input_new x f)"
  by (simp add: match_input_new_def flow_destination_def input_destination_def Let_def)

fun no_resolve_free :: "route_matcher \<Rightarrow> bool" where
  "no_resolve_free (M_And parts) = list_all no_resolve_free parts"
| "no_resolve_free (M_Or parts) = list_all no_resolve_free parts"
| "no_resolve_free (M_Not part) = no_resolve_free part"
| "no_resolve_free (M_NoResolve part) = False"
| "no_resolve_free m = True"

lemma context_process:
  "ruleset_match_context (flow_process name path packages f) = with_process (ruleset_match_context f) name path packages"
  "source_ruleset_context (flow_process name path packages f) = with_process (source_ruleset_context f) name path packages"
  by (simp_all add: ruleset_match_context_def source_ruleset_context_def flow_process_def with_process_def Let_def)

lemma context_destination:
  "ruleset_match_context (flow_destination ip f) = with_destination (ruleset_match_context f) (Some ip)"
  "source_ruleset_context (flow_destination ip f) = source_ruleset_context f"
  by (simp_all add: ruleset_match_context_def source_ruleset_context_def flow_destination_def with_destination_def Let_def)

lemma outcome_state_requirements [simp]: "state_requirements (ruleset_outcome_to_state v) = outcome_requirements v"
  by (cases v) (simp_all add: state_deferred_def)

lemma settles_outcome_state:
  "settles outcome_requirements need v v' \<Longrightarrow>
     settles state_requirements need (ruleset_outcome_to_state v) (ruleset_outcome_to_state v')"
  by (auto simp: settles_def)

lemma requirements_bool_state [simp]: "state_requirements (bool_state b) = (False, False)"
  by (simp add: bool_state_def)

lemma settles_deferred [simp]:
  "settles state_requirements fst (state_deferred True b) s"
  "settles state_requirements snd (state_deferred b True) s"
  by (simp_all add: settles_def state_deferred_def)

lemmas input_defs = input_process_def flow_process_def input_destination_def flow_destination_def

lemma input_process_keeps [simp]:
  "mi_normalized_host (input_process n p k i) = mi_normalized_host i"
  "mi_unicode_host (input_process n p k i) = mi_unicode_host i"
  "mi_resolved_ip (input_process n p k i) = mi_resolved_ip i"
  "match_home_domain (input_process n p k i) = match_home_domain i"
  "match_cn_domain (input_process n p k i) = match_cn_domain i"
  "match_home x (input_process n p k i) = match_home x i"
  "match_cn x (input_process n p k i) = match_cn x i"
  "match_cidr x (input_process n p k i) v e = match_cidr x i v e"
  "match_source_cidr x (mi_context (input_process n p k i)) v = match_source_cidr x (mi_context i) v"
  "match_keyword pm (input_process n p k i) kw = match_keyword pm i kw"
  "match_domain_regex pm (input_process n p k i) kw = match_domain_regex pm i kw"
  "on_both_hosts (input_process n p k i) = on_both_hosts i"
  "mi_context (input_process n p k i) = flow_process n p k (mi_context i)"
  by (auto simp: input_defs match_home_domain_def match_cn_domain_def match_home_def match_cn_def match_cidr_def
      match_source_cidr_def match_keyword_def keyword_matches_def match_domain_regex_def on_both_hosts_def Let_def
      fun_eq_iff split: option.split prepared_domain_regex.split)

lemma input_destination_keeps [simp]:
  "mi_normalized_host (input_destination ip i) = mi_normalized_host i"
  "mi_unicode_host (input_destination ip i) = mi_unicode_host i"
  "match_home_domain (input_destination ip i) = match_home_domain i"
  "match_cn_domain (input_destination ip i) = match_cn_domain i"
  "match_source_cidr x (mi_context (input_destination ip i)) v = match_source_cidr x (mi_context i) v"
  "match_keyword pm (input_destination ip i) kw = match_keyword pm i kw"
  "match_domain_regex pm (input_destination ip i) kw = match_domain_regex pm i kw"
  "on_both_hosts (input_destination ip i) = on_both_hosts i"
  "mi_context (input_destination ip i) = flow_destination ip (mi_context i)"
  by (auto simp: input_defs match_home_domain_def match_cn_domain_def match_source_cidr_def match_keyword_def
      keyword_matches_def match_domain_regex_def on_both_hosts_def Let_def
      fun_eq_iff split: option.split prepared_domain_regex.split)

lemma flow_process_keeps [simp]:
  "fc_host (flow_process n p k f) = fc_host f" "fc_ip (flow_process n p k f) = fc_ip f"
  "fc_port (flow_process n p k f) = fc_port f" "fc_network (flow_process n p k f) = fc_network f"
  "fc_protocol (flow_process n p k f) = fc_protocol f"
  "fc_ruleset (flow_process n p k f) = (fc_ruleset f)\<lparr>fm_process_path := p, fm_package_names := k\<rparr>"
  by (simp_all add: flow_process_def)

lemma flow_destination_keeps [simp]:
  "fc_host (flow_destination ip f) = fc_host f" "fc_port (flow_destination ip f) = fc_port f"
  "fc_network (flow_destination ip f) = fc_network f" "fc_protocol (flow_destination ip f) = fc_protocol f"
  "fc_process (flow_destination ip f) = fc_process f" "fc_ruleset (flow_destination ip f) = fc_ruleset f"
  by (simp_all add: flow_destination_def)

lemma match_source_cidr_flow [simp]:
  "match_source_cidr x (flow_process n p k f) v = match_source_cidr x f v"
  "match_source_cidr x (flow_destination ip f) v = match_source_cidr x f v"
  by (simp_all add: match_source_cidr_def)

lemma on_process_names_destination [simp]: "on_process_names (flow_destination ip f) = on_process_names f"
  by (simp add: on_process_names_def fun_eq_iff)

context lazy_index
begin

lemma alias_process:
  "settles state_requirements fst (match_ruleset_alias (Some index) cs i False d s)
     (match_ruleset_alias (Some index) cs (input_process n p k i) True d s)"
  by (cases cs) (auto simp: match_ruleset_alias_def Let_def context_process
      intro!: state.any_settles settles_map settles_outcome_state process_settles)

lemma alias_destination:
  "settles state_requirements snd (match_ruleset_alias (Some index) cs i r False False)
     (match_ruleset_alias (Some index) cs (input_destination ip i) r True False)"
  "match_ruleset_alias rs cs (input_destination ip i) r True True = match_ruleset_alias rs cs i r True True"
  by (cases cs) (auto simp: match_ruleset_alias_def Let_def context_destination split: option.split
      intro!: state.any_settles settles_map settles_outcome_state destination_settles)

lemma alias_known:
  "\<not> fst (state_requirements (match_ruleset_alias (Some index) cs i True d s))"
  "\<not> snd (state_requirements (match_ruleset_alias (Some index) cs i r True s))"
  by (cases cs, simp add: match_ruleset_alias_def,
      simp add: match_ruleset_alias_def Let_def state.any_asks_not process_known destination_known)+

lemma alias_none [simp]: "match_ruleset_alias None cs i r d s = NotMatched"
  by (simp add: match_ruleset_alias_def)

lemma step_state_process:
  assumes "mt_rulesets t = None \<or> mt_rulesets t = Some index"
  shows "settles state_requirements fst (step_match_state t i False d m)
    (step_match_state t (input_process n p k i) True d m)"
proof (induction m arbitrary: d)
  case (M_And ms)
  then show ?case by (simp add: state.all_settles settles_map)
next
  case (M_Or ms)
  then show ?case by (simp add: state.any_settles settles_map)
next
  case (M_Not m)
  then show ?case by (simp add: state.not_settles)
qed (use assms in \<open>auto simp: alias_process Let_def context_process
      intro!: settles_outcome_state process_settles split: option.split\<close>)

lemma step_state_destination:
  assumes "mt_rulesets t = None \<or> mt_rulesets t = Some index" "no_resolve_free m"
  shows "settles state_requirements snd (step_match_state t i r False m)
    (step_match_state t (input_destination ip i) r True m)"
  using assms(2)
proof (induction m)
  case (M_And ms)
  then show ?case by (simp add: state.all_settles settles_map list_all_iff)
next
  case (M_Or ms)
  then show ?case by (simp add: state.any_settles settles_map list_all_iff)
next
  case (M_Not m)
  then show ?case by (simp add: state.not_settles)
qed (use assms(1) in \<open>auto simp: alias_destination Let_def context_destination match_home_def match_cn_def
      intro!: settles_outcome_state destination_settles split: option.split\<close>)

lemma step_state_known:
  assumes "mt_rulesets t = None \<or> mt_rulesets t = Some index"
  shows "\<not> fst (state_requirements (step_match_state t i True d m))"
    and "\<not> snd (state_requirements (step_match_state t i r True m))"
proof -
  show "\<not> fst (state_requirements (step_match_state t i True d m))"
  proof (induction m arbitrary: d)
    case (M_And ms)
    then show ?case by (simp add: state.all_asks_not)
  next
    case (M_Or ms)
    then show ?case by (simp add: state.any_asks_not)
  next
    case (M_Not m)
    then show ?case by (simp add: state.not_asks_not)
  qed (use assms in \<open>auto simp: alias_known process_known Let_def state_deferred_def split: option.split\<close>)
  show "\<not> snd (state_requirements (step_match_state t i r True m))"
  proof (induction m)
    case (M_And ms)
    then show ?case by (simp add: state.all_asks_not)
  next
    case (M_Or ms)
    then show ?case by (simp add: state.any_asks_not)
  next
    case (M_Not m)
    then show ?case by (simp add: state.not_asks_not)
  qed (use assms in \<open>auto simp: alias_known destination_known Let_def state_deferred_def split: option.split\<close>)
qed

end

end
