(* ===== verification/Config_Graph.thy ===== *)
theory Config_Graph
  imports Route_Plan "HOL-Library.Char_ord" "HOL-Library.List_Lexorder"
begin

text \<open>
  The cycle checks that the configuration compiler (\<open>core-config/src/runtime_plan.rs\<close>) runs on
  references between sub-rules and between outbound nodes: a depth-first search with the sets of the
  names being visited and the names visited. The search accepts exactly the acyclic graphs.

  The two copies of the search in the source differ in the type of the table only. \<open>visit_all\<close> is the
  recursive function \<open>visit\<close> together with the loop over the successors that calls it; a graph is the
  list of the names with the names they refer to.
\<close>

section \<open>Depth-first search\<close>

type_synonym name_graph = "(string \<times> string list) list"

definition successors :: "name_graph \<Rightarrow> string \<Rightarrow> string list" where
  "successors g name = (case map_of g name of Some targets \<Rightarrow> targets | None \<Rightarrow> [])"

lemma successors_iff: "t \<in> set (successors g name) \<longleftrightarrow> (\<exists>ts. map_of g name = Some ts \<and> t \<in> set ts)"
  by (cases "map_of g name") (simp_all add: successors_def)

lemma successors_key: "t \<in> set (successors g name) \<Longrightarrow> name \<in> fst ` set g"
  by (auto simp: successors_iff dest!: map_of_SomeD intro: rev_image_eqI)

function visit_all :: "name_graph \<Rightarrow> string list \<Rightarrow> string set \<Rightarrow> string set \<Rightarrow> string + string set \<times> string set" where
  "visit_all g [] visiting visited = Inr (visiting, visited)"
| "visit_all g (name # names) visiting visited =
    (if name \<in> visited then visit_all g names visiting visited
     else if name \<in> visiting then Inl name
     else case visit_all g (successors g name) (insert name visiting) visited of
            Inl e \<Rightarrow> Inl e
          | Inr (visiting', visited') \<Rightarrow> visit_all g names (visiting' - {name}) (insert name visited'))"
  by pat_completeness auto

termination
proof (relation "measures [\<lambda>(g, names, visiting, visited). card (fst ` set g - visiting), \<lambda>(g, names, visiting, visited). length names]")
  fix g :: name_graph and name :: string and names :: "string list" and visiting visited :: "string set"
  assume new: "name \<notin> visiting"
  show "((g, successors g name, insert name visiting, visited), (g, name # names, visiting, visited))
      \<in> measures [\<lambda>(g, names, visiting, visited). card (fst ` set g - visiting), \<lambda>(g, names, visiting, visited). length names]"
  proof (cases "name \<in> fst ` set g")
    case True
    then have "fst ` set g - insert name visiting \<subset> fst ` set g - visiting" using new by auto
    then show ?thesis by (simp add: psubset_card_mono)
  next
    case False
    then have "successors g name = []" using successors_key [of _ g name] by (cases "successors g name") auto
    moreover have "fst ` set g - insert name visiting = fst ` set g - visiting" using False by auto
    ultimately show ?thesis by simp
  qed
next
  fix g :: name_graph and name :: string and names :: "string list" and visiting visited :: "string set" and r p visiting' visited'
  assume "name \<notin> visiting" "visit_all g (successors g name) (insert name visiting) visited = Inr p" "(visiting', visited') = p"
    "visit_all_dom (g, successors g name, insert name visiting, visited)"
  moreover have "vg' = vg" if "visit_all_dom (h, ns, vg, vd)" "visit_all h ns vg vd = Inr (vg', vd')" for h ns vg vd vg' vd'
    using that
    by (induction arbitrary: vg' vd' rule: visit_all.pinduct)
      (simp add: visit_all.psimps, fastforce simp: visit_all.psimps split: if_splits sum.splits prod.splits)
  ultimately have "visiting' = insert name visiting" by blast
  then show "((g, names, visiting' - {name}, insert name visited'), (g, name # names, visiting, visited))
      \<in> measures [\<lambda>(g, names, visiting, visited). card (fst ` set g - visiting), \<lambda>(g, names, visiting, visited). length names]"
    using \<open>name \<notin> visiting\<close> by simp
qed simp_all

section \<open>The two checks\<close>

fun sub_targets :: "route_step list \<Rightarrow> string list" where
  "sub_targets [] = []"
| "sub_targets (step # steps) =
    (case rs_action step of A_SubRule target \<Rightarrow> target # sub_targets steps | _ \<Rightarrow> sub_targets steps)"

definition sub_graph :: "(string \<times> route_step list) list \<Rightarrow> name_graph" where
  "sub_graph subs = map (\<lambda>(name, steps). (name, sub_targets steps)) subs"

definition validate_sub_rule_graph :: "(string \<times> route_step list) list \<Rightarrow> string + unit" where
  "validate_sub_rule_graph subs =
    (case visit_all (sub_graph subs) (map fst subs) {} {} of Inl name \<Rightarrow> Inl name | Inr _ \<Rightarrow> Inr ())"

text \<open>
  A node with the trimmed-to-be \<open>dialer_proxy\<close> of its \<open>stream_settings.sockopt\<close>, where it has one. A
  later node of the same name replaces an earlier one in the table; the keys are in the order of a
  \<open>BTreeMap\<close>.
\<close>

record dialer_node =
  dn_name :: string
  dn_dialer_proxy :: "string option"

datatype dialer_error = UnknownOutbound string string | DialerCycle string

definition by_name :: "dialer_node list \<Rightarrow> string \<Rightarrow> dialer_node option" where
  "by_name nodes = map_of (rev (map (\<lambda>n. (dn_name n, n)) nodes))"

definition dialer_known :: "unicode \<Rightarrow> dialer_node list \<Rightarrow> dialer_node \<Rightarrow> bool" where
  "dialer_known u nodes node =
    (case map_option (trim u) (dn_dialer_proxy node) of
       None \<Rightarrow> True
     | Some proxy \<Rightarrow>
         proxy = [] \<or> by_name nodes proxy \<noteq> None \<or> eq_ignore_ascii_case proxy ''DIRECT''
           \<or> eq_ignore_ascii_case proxy ''BLOCK'')"

definition dialer_targets :: "unicode \<Rightarrow> dialer_node list \<Rightarrow> string \<Rightarrow> string list" where
  "dialer_targets u nodes name =
    (case by_name nodes name of
       None \<Rightarrow> []
     | Some node \<Rightarrow>
         (case map_option (trim u) (dn_dialer_proxy node) of
            None \<Rightarrow> []
          | Some next \<Rightarrow> if by_name nodes next \<noteq> None then [next] else []))"

definition dialer_graph :: "unicode \<Rightarrow> dialer_node list \<Rightarrow> name_graph" where
  "dialer_graph u nodes = map (\<lambda>name. (name, dialer_targets u nodes name)) (sort (remdups (map dn_name nodes)))"

definition validate_dialer_proxy_graph :: "unicode \<Rightarrow> dialer_node list \<Rightarrow> dialer_error + unit" where
  "validate_dialer_proxy_graph u nodes =
    (case filter (\<lambda>node. \<not> dialer_known u nodes node) nodes of
       node # _ \<Rightarrow> Inl (UnknownOutbound (dn_name node) (trim u (the (dn_dialer_proxy node))))
     | [] \<Rightarrow>
         (case visit_all (dialer_graph u nodes) (map fst (dialer_graph u nodes)) {} {} of
            Inl name \<Rightarrow> Inl (DialerCycle name)
          | Inr _ \<Rightarrow> Inr ()))"

section \<open>The search accepts the acyclic graphs\<close>

definition refers :: "name_graph \<Rightarrow> (string \<times> string) set" where
  "refers g = {(a, b). b \<in> set (successors g a)}"

lemma refers_iff [simp]: "(a, b) \<in> refers g \<longleftrightarrow> b \<in> set (successors g a)"
  by (simp add: refers_def)

lemma visit_restores:
  "visit_all g names visiting visited = Inr (visiting', visited') \<Longrightarrow> visiting' = visiting"
  by (induction g names visiting visited arbitrary: visiting' visited' rule: visit_all.induct)
    (simp, fastforce split: if_splits sum.splits prod.splits)

text \<open>A set of visited names closed under references, on which the references have no cycle.\<close>

definition explored :: "name_graph \<Rightarrow> string set \<Rightarrow> bool" where
  "explored g visited \<longleftrightarrow> (\<forall>a \<in> visited. set (successors g a) \<subseteq> visited) \<and> acyclic (Restr (refers g) visited)"

lemma explored_empty [simp]: "explored g {}"
  by (simp add: explored_def acyclic_def)

lemma explored_insert:
  assumes "explored g visited" "set (successors g name) \<subseteq> visited" "name \<notin> visited"
  shows "explored g (insert name visited)"
proof -
  let ?r = "Restr (refers g) visited" and ?s = "Restr (refers g) (insert name visited)"
  have stay: "b \<in> visited \<and> (a \<in> visited \<longrightarrow> (a, b) \<in> ?r\<^sup>+)" if "(a, b) \<in> ?s\<^sup>+" for a b
    using that
  proof (induction rule: trancl_induct)
    case (base b)
    then show ?case using assms by (auto simp: explored_def)
  next
    case (step b c)
    then have "(b, c) \<in> ?r" using assms by (auto simp: explored_def)
    then show ?case using step by (auto intro: trancl_into_trancl)
  qed
  have "acyclic ?s" unfolding acyclic_def
  proof (intro allI notI)
    fix a assume "(a, a) \<in> ?s\<^sup>+"
    then show False using stay [of a a] assms(1) by (auto simp: explored_def acyclic_def)
  qed
  then show ?thesis using assms by (auto simp: explored_def)
qed

lemma visit_all_explores:
  assumes "visit_all g names visiting visited = Inr (visiting', visited')" "explored g visited" "visiting \<inter> visited = {}"
  shows "explored g visited' \<and> visited \<union> set names \<subseteq> visited' \<and> visiting \<inter> visited' = {}"
  using assms
proof (induction g names visiting visited arbitrary: visiting' visited' rule: visit_all.induct)
  case (2 g name names visiting visited)
  show ?case
  proof (cases "name \<in> visited")
    case True
    then show ?thesis using 2 by auto
  next
    case False
    then obtain vg vd where v: "visit_all g (successors g name) (insert name visiting) visited = Inr (vg, vd)"
        "name \<notin> visiting" "visit_all g names (vg - {name}) (insert name vd) = Inr (visiting', visited')"
      using "2.prems"(1) by (auto split: if_splits sum.splits prod.splits)
    then have vg: "vg = insert name visiting" using visit_restores by blast
    have "explored g vd \<and> visited \<union> set (successors g name) \<subseteq> vd \<and> insert name visiting \<inter> vd = {}"
      using "2.IH"(2) [OF False v(2) v(1)] "2.prems" False by auto
    then have "explored g (insert name vd)" "visited \<subseteq> vd" "visiting \<inter> insert name vd = {}"
      using explored_insert v(2) by auto
    then show ?thesis using "2.IH"(3) [OF False v(2) v(1) refl v(3)] vg v(2) by auto
  qed
qed simp

lemma visit_all_cycle:
  assumes "visit_all g names visiting visited = Inl c"
    "\<forall>v \<in> visiting. \<forall>n \<in> set names. (v, n) \<in> (refers g)\<^sup>+"
  shows "(c, c) \<in> (refers g)\<^sup>+"
  using assms
proof (induction g names visiting visited rule: visit_all.induct)
  case (2 g name names visiting visited)
  show ?case
  proof (cases "name \<in> visited \<or> name \<in> visiting")
    case True
    then show ?thesis using 2 by (auto split: if_splits)
  next
    case False
    let ?v = "visit_all g (successors g name) (insert name visiting) visited"
    show ?thesis
    proof (cases ?v)
      case (Inl e)
      have "\<forall>v \<in> insert name visiting. \<forall>n \<in> set (successors g name). (v, n) \<in> (refers g)\<^sup>+"
        using "2.prems"(2) by (auto intro: trancl_into_trancl)
      then show ?thesis using "2.IH"(2) False Inl "2.prems"(1) by simp
    next
      case (Inr p)
      then obtain vg vd where p: "?v = Inr (vg, vd)" by (cases p) auto
      then have "vg - {name} = visiting" using visit_restores [OF p] False by auto
      then show ?thesis using "2.IH"(3) [OF _ _ p refl] False p "2.prems" by auto
    qed
  qed
qed simp

text \<open>The search from all keys of the table accepts exactly the graphs without a cycle.\<close>

lemma visit_all_keys:
  "(\<exists>r. visit_all g (map fst g) {} {} = Inr r) \<longleftrightarrow> acyclic (refers g)"
proof
  assume "\<exists>r. visit_all g (map fst g) {} {} = Inr r"
  then obtain vg vd where "visit_all g (map fst g) {} {} = Inr (vg, vd)" by auto
  from visit_all_explores [OF this] have e: "explored g vd" "set (map fst g) \<subseteq> vd" by auto
  then have "Restr (refers g) vd = refers g"
    using successors_key [of _ g] by (fastforce simp: explored_def)
  then show "acyclic (refers g)" using e(1) by (simp add: explored_def)
next
  assume a: "acyclic (refers g)"
  show "\<exists>r. visit_all g (map fst g) {} {} = Inr r"
  proof (cases "visit_all g (map fst g) {} {}")
    case (Inl c)
    then show ?thesis using visit_all_cycle [OF Inl] a by (simp add: acyclic_def)
  qed simp
qed

definition calls :: "(string \<times> route_step list) list \<Rightarrow> (string \<times> string) set" where
  "calls subs = refers (sub_graph subs)"

lemma fst_sub_graph [simp]: "map fst (sub_graph subs) = map fst subs"
  by (simp add: sub_graph_def split_def comp_def)

lemma map_of_sub_graph: "map_of (sub_graph subs) name = map_option sub_targets (map_of subs name)"
  by (induction subs) (auto simp: sub_graph_def)

lemma sub_targets_set: "set (sub_targets steps) = {t. \<exists>step \<in> set steps. rs_action step = A_SubRule t}"
  by (induction steps) (auto split: route_action.splits)

lemma calls_iff:
  "(a, b) \<in> calls subs \<longleftrightarrow> (\<exists>steps. map_of subs a = Some steps \<and> (\<exists>step \<in> set steps. rs_action step = A_SubRule b))"
  by (auto simp: calls_def successors_iff map_of_sub_graph sub_targets_set)

lemma sub_rules_accepted: "validate_sub_rule_graph subs = Inr () \<longleftrightarrow> acyclic (calls subs)"
proof -
  have "(validate_sub_rule_graph subs = Inr ()) = (\<exists>r. visit_all (sub_graph subs) (map fst (sub_graph subs)) {} {} = Inr r)"
    by (auto simp: validate_sub_rule_graph_def split: sum.splits)
  then show ?thesis by (simp only: visit_all_keys calls_def)
qed

text \<open>
  C15: The check of the sub-rules accepts exactly the tables in which no sub-rule calls itself,
  directly or through others; a name it reports lies on such a cycle.
\<close>

theorem sub_rule_check_exact:
  "(validate_sub_rule_graph subs = Inr () \<longleftrightarrow> acyclic (calls subs))
    \<and> (\<forall>name. validate_sub_rule_graph subs = Inl name \<longrightarrow> (name, name) \<in> (calls subs)\<^sup>+)"
proof -
  have "(name, name) \<in> (calls subs)\<^sup>+" if "validate_sub_rule_graph subs = Inl name" for name
  proof -
    have "visit_all (sub_graph subs) (map fst subs) {} {} = Inl name"
      using that by (simp add: validate_sub_rule_graph_def split: sum.splits)
    then show ?thesis unfolding calls_def by (rule visit_all_cycle) simp
  qed
  then show ?thesis by (simp add: sub_rules_accepted)
qed

lemma by_name_known: "by_name nodes a \<noteq> None \<longleftrightarrow> a \<in> dn_name ` set nodes"
  by (auto simp: by_name_def map_of_eq_None_iff image_comp)

lemma dialer_refers: "refers (dialer_graph u nodes) = {(a, b). b \<in> set (dialer_targets u nodes a)}"
proof -
  have "map_of (dialer_graph u nodes) a = (if a \<in> dn_name ` set nodes then Some (dialer_targets u nodes a) else None)" for a
    by (simp add: dialer_graph_def map_of_map_restrict restrict_map_def)
  moreover have "a \<in> dn_name ` set nodes" if "b \<in> set (dialer_targets u nodes a)" for a b
    using that by (cases "by_name nodes a") (auto simp: dialer_targets_def by_name_known [symmetric])
  ultimately show ?thesis by (auto simp: successors_iff split: if_splits)
qed

text \<open>
  The nodes of a configuration are accepted exactly when every node that names a dialer proxy
  names a node, \<open>DIRECT\<close> or \<open>BLOCK\<close>, and no node dials through itself, directly or through others.
\<close>

theorem dialer_check_exact:
  "validate_dialer_proxy_graph u nodes = Inr () \<longleftrightarrow>
    list_all (dialer_known u nodes) nodes \<and> acyclic {(a, b). b \<in> set (dialer_targets u nodes a)}"
proof (cases "filter (\<lambda>node. \<not> dialer_known u nodes node) nodes")
  case Nil
  then have "list_all (dialer_known u nodes) nodes" by (simp add: filter_empty_conv list_all_iff)
  moreover have "validate_dialer_proxy_graph u nodes = Inr () \<longleftrightarrow>
      (\<exists>r. visit_all (dialer_graph u nodes) (map fst (dialer_graph u nodes)) {} {} = Inr r)"
    using Nil by (auto simp: validate_dialer_proxy_graph_def split: sum.splits)
  ultimately show ?thesis by (simp only: visit_all_keys dialer_refers simp_thms)
next
  case (Cons node rest)
  then have "node \<in> set (filter (\<lambda>node. \<not> dialer_known u nodes node) nodes)" by simp
  then show ?thesis using Cons by (auto simp: validate_dialer_proxy_graph_def list_all_iff)
qed

definition sample_call :: "string \<Rightarrow> route_step" where
  "sample_call target = \<lparr>rs_matcher = M_Any, rs_action = A_SubRule target, rs_source = [],
     rs_options = \<lparr>ro_no_resolve = False, ro_no_log = False, ro_no_track = False\<rparr>\<rparr>"

theorem sub_rule_check_exact_witness:
  "validate_sub_rule_graph [(''a'', [sample_call ''b'']), (''b'', [sample_call ''a''])] = Inl ''a''
    \<and> (''a'', ''a'') \<in> (calls [(''a'', [sample_call ''b'']), (''b'', [sample_call ''a''])])\<^sup>+"
proof -
  have "validate_sub_rule_graph [(''a'', [sample_call ''b'']), (''b'', [sample_call ''a''])] = Inl ''a''"
    by (simp add: validate_sub_rule_graph_def sub_graph_def successors_def sample_call_def)
  then show ?thesis using sub_rule_check_exact by blast
qed

end
