(* ===== verification/Route_Engine.thy ===== *)
theory Route_Engine
  imports Route_Match Config_Graph
begin

unbundle bit_operations_syntax

text \<open>
  The routing engine (\<open>core-route/src/engine.rs\<close>): ordered evaluation of the rules of a plan with
  sub-rules, the switch that disables rules at run time, and the queries that say whether the
  process or the destination address has to be looked up first.

  A sub-rule call is cut off when the depth exceeds the number of sub-rules. The check at the entry
  of \<open>evaluate_steps\<close> is unfolded where the loop calls itself, so that the recursion visibly ends.
  \<open>runs\<close> is the evaluation without the bound; the two agree on the tables of sub-rules that the
  configuration compiler accepts.
\<close>

section \<open>The engine\<close>

record route_engine =
  en_plan :: route_plan
  en_extra_cidrs :: "ip_net list"
  en_rulesets :: "ruleset_index option"
  en_prepared :: prepared_matchers
  en_disabled :: "bool list"

definition engine_new :: "ext_env \<Rightarrow> route_plan \<Rightarrow> io_error + route_engine" where
  "engine_new x plan =
    and_then (compile_prepared x plan) (\<lambda>p.
      Inr \<lparr>en_plan = plan, en_extra_cidrs = [], en_rulesets = None, en_prepared = p,
           en_disabled = replicate (length (pl_steps plan)) False\<rparr>)"

definition with_rulesets :: "ext_env \<Rightarrow> route_plan \<Rightarrow> ruleset_index \<Rightarrow> io_error + route_engine" where
  "with_rulesets x plan rulesets =
    and_then (compile_prepared x plan) (\<lambda>p.
      Inr \<lparr>en_plan = plan, en_extra_cidrs = [], en_rulesets = Some rulesets, en_prepared = p,
           en_disabled = replicate (length (pl_steps plan)) False\<rparr>)"

text \<open>Indexing the flags out of range panics.\<close>

definition set_rule_disabled :: "nat \<Rightarrow> bool \<Rightarrow> route_engine \<Rightarrow> io_error + bool \<times> route_engine" where
  "set_rule_disabled index disabled e =
    (if length (pl_steps (en_plan e)) \<le> index then Inr (False, e)
     else if length (en_disabled e) \<le> index then Inl Panic
     else Inr (True, e\<lparr>en_disabled := (en_disabled e)[index := disabled]\<rparr>))"

definition flag_set :: "bool list \<Rightarrow> nat \<Rightarrow> bool" where
  "flag_set flags index \<longleftrightarrow> index < length flags \<and> flags ! index"

definition rule_disabled :: "route_engine \<Rightarrow> nat \<Rightarrow> bool" where
  "rule_disabled e index = flag_set (en_disabled e) index"

definition rule_descriptions :: "route_engine \<Rightarrow> (rule_hit \<times> bool) list" where
  "rule_descriptions e =
     map (\<lambda>(index, step). (describe_route_step (Some index) step, rule_disabled e index))
       (enumerate 0 (pl_steps (en_plan e)))"

definition engine_matching :: "ext_env \<Rightarrow> route_engine \<Rightarrow> matching" where
  "engine_matching x e = \<lparr>mt_env = x, mt_extra_cidrs = en_extra_cidrs e, mt_rulesets = en_rulesets e,
     mt_prepared = en_prepared e\<rparr>"

section \<open>Evaluation\<close>

datatype 'a step_flow = Result 'a | ContinueMain | Exhausted

text \<open>
  The loop over the steps from \<open>index\<close> on; \<open>continue\<close> is the rest of the loop. \<open>disabled\<close> is given for the main list only. The table of
  sub-rules and the data for matching are the engine's.
\<close>

type_synonym sub_rules = "(string \<times> route_step list) list"

function evaluate_loop ::
  "matching \<Rightarrow> sub_rules \<Rightarrow> match_input \<Rightarrow> bool \<Rightarrow> bool \<Rightarrow> bool list option \<Rightarrow> nat \<Rightarrow> nat \<Rightarrow> route_step list \<Rightarrow>
     detailed_decision step_flow" where
  "evaluate_loop t subs i pr dr disabled depth index [] = Exhausted"
| "evaluate_loop t subs i pr dr disabled depth index (step # steps) =
    (let continue = evaluate_loop t subs i pr dr disabled depth (index + 1) steps in
     if on_some disabled (\<lambda>flags. flag_set flags index)
     then continue
     else if \<not> step_matches t i pr (dr \<or> ro_no_resolve (rs_options step)) (rs_matcher step)
     then continue
     else case rs_action step of
       A_SubRule name \<Rightarrow>
         (case map_of subs name of
            None \<Rightarrow> continue
          | Some branch \<Rightarrow>
              (case (if length subs < depth + 1 then Exhausted
                     else evaluate_loop t subs i pr dr None (depth + 1) 0 branch) of
                 Result decision \<Rightarrow> Result decision
               | ContinueMain \<Rightarrow>
                   if depth = 0 then continue
                   else ContinueMain
               | Exhausted \<Rightarrow> continue))
     | A_Pass \<Rightarrow>
         if 0 < depth then ContinueMain
         else continue
     | A_PassRule \<Rightarrow> continue
     | _ \<Rightarrow> Result \<lparr>dd_decision = from_action (rs_action step), dd_matcher = matcher_kind (rs_matcher step),
              dd_hit = describe_route_step (map_option (\<lambda>_. index) disabled) step\<rparr>)"
  by pat_completeness auto
termination
  by (relation "measures [\<lambda>(t, subs, i, pr, dr, dis, depth, index, steps). length subs - depth,
      \<lambda>(t, subs, i, pr, dr, dis, depth, index, steps). length steps]") auto

definition evaluate_steps ::
  "matching \<Rightarrow> sub_rules \<Rightarrow> match_input \<Rightarrow> bool \<Rightarrow> bool \<Rightarrow> bool list option \<Rightarrow> nat \<Rightarrow> route_step list \<Rightarrow>
     detailed_decision step_flow" where
  "evaluate_steps t subs i pr dr disabled depth steps =
     (if length subs < depth then Exhausted else evaluate_loop t subs i pr dr disabled depth 0 steps)"

function requirement_loop ::
  "matching \<Rightarrow> sub_rules \<Rightarrow> match_input \<Rightarrow> bool \<Rightarrow> bool \<Rightarrow> bool list option \<Rightarrow> nat \<Rightarrow> nat \<Rightarrow> route_step list \<Rightarrow>
     match_state step_flow" where
  "requirement_loop t subs i pr dr disabled depth index [] = Exhausted"
| "requirement_loop t subs i pr dr disabled depth index (step # steps) =
    (let continue = requirement_loop t subs i pr dr disabled depth (index + 1) steps in
     if on_some disabled (\<lambda>flags. flag_set flags index)
     then continue
     else case step_match_state t i pr (dr \<or> ro_no_resolve (rs_options step)) (rs_matcher step) of
       NotMatched \<Rightarrow> continue
     | Matched \<Rightarrow>
         (case rs_action step of
            A_SubRule name \<Rightarrow>
              (case map_of subs name of
                 None \<Rightarrow> continue
               | Some branch \<Rightarrow>
                   (case (if length subs < depth + 1 then Exhausted
                          else requirement_loop t subs i pr dr None (depth + 1) 0 branch) of
                      Result r \<Rightarrow> Result r
                    | ContinueMain \<Rightarrow>
                        if depth = 0 then continue
                        else ContinueMain
                    | Exhausted \<Rightarrow> continue))
          | A_Pass \<Rightarrow>
              if 0 < depth then ContinueMain
              else continue
          | A_PassRule \<Rightarrow> continue
          | _ \<Rightarrow> Result Matched)
     | Deferred needs_process needs_ip \<Rightarrow> Result (Deferred needs_process needs_ip))"
  by pat_completeness auto
termination
  by (relation "measures [\<lambda>(t, subs, i, pr, dr, dis, depth, index, steps). length subs - depth,
      \<lambda>(t, subs, i, pr, dr, dis, depth, index, steps). length steps]") auto

definition first_requirement ::
  "matching \<Rightarrow> sub_rules \<Rightarrow> match_input \<Rightarrow> bool \<Rightarrow> bool \<Rightarrow> bool list option \<Rightarrow> nat \<Rightarrow> route_step list \<Rightarrow>
     match_state step_flow" where
  "first_requirement t subs i pr dr disabled depth steps =
     (if length subs < depth then Exhausted else requirement_loop t subs i pr dr disabled depth 0 steps)"

definition decide_detailed :: "ext_env \<Rightarrow> route_engine \<Rightarrow> flow_context \<Rightarrow> detailed_decision" where
  "decide_detailed x e ctx =
    (let i = match_input_new x ctx
     in case evaluate_steps (engine_matching x e) (pl_sub_rules (en_plan e)) i True (mi_resolved_ip i \<noteq> None)
            (Some (en_disabled e)) 0 (pl_steps (en_plan e)) of
          Result d \<Rightarrow> d
        | _ \<Rightarrow> \<lparr>dd_decision = D_Direct, dd_matcher = ''fallback'', dd_hit = hit_fallback\<rparr>)"

definition decide :: "ext_env \<Rightarrow> route_engine \<Rightarrow> flow_context \<Rightarrow> route_decision \<times> string \<times> string" where
  "decide x e ctx = (let d = decide_detailed x e ctx in (dd_decision d, dd_matcher d, rh_source (dd_hit d)))"

definition needs_process :: "ext_env \<Rightarrow> route_engine \<Rightarrow> flow_context \<Rightarrow> bool" where
  "needs_process x e ctx =
    (let i = match_input_new x ctx
     in case first_requirement (engine_matching x e) (pl_sub_rules (en_plan e)) i False (mi_resolved_ip i \<noteq> None)
            (Some (en_disabled e)) 0 (pl_steps (en_plan e)) of
          Result (Deferred True _) \<Rightarrow> True
        | _ \<Rightarrow> False)"

definition needs_destination_ip :: "ext_env \<Rightarrow> route_engine \<Rightarrow> flow_context \<Rightarrow> bool" where
  "needs_destination_ip x e ctx =
    (if fc_ip ctx \<noteq> None \<or> parse_ip (fc_host ctx) \<noteq> None then False
     else
       (case first_requirement (engine_matching x e) (pl_sub_rules (en_plan e)) (match_input_new x ctx) True False
            (Some (en_disabled e)) 0 (pl_steps (en_plan e)) of
          Result (Deferred _ True) \<Rightarrow> True
        | _ \<Rightarrow> False))"

section \<open>A requirement not found is not needed\<close>

fun same_shape :: "'a step_flow \<Rightarrow> 'b step_flow \<Rightarrow> bool" where
  "same_shape (Result _) (Result _) = True"
| "same_shape ContinueMain ContinueMain = True"
| "same_shape Exhausted Exhausted = True"
| "same_shape _ _ = False"

lemma same_shape_cases:
  "same_shape a b \<longleftrightarrow> (case a of Result _ \<Rightarrow> (\<exists>d. b = Result d) | ContinueMain \<Rightarrow> b = ContinueMain | Exhausted \<Rightarrow> b = Exhausted)"
  by (cases a; cases b) simp_all

definition step_state :: "matching \<Rightarrow> match_input \<Rightarrow> bool \<Rightarrow> bool \<Rightarrow> route_step \<Rightarrow> match_state" where
  "step_state t i pr dr step = step_match_state t i pr (dr \<or> ro_no_resolve (rs_options step)) (rs_matcher step)"

definition asks :: "(bool \<times> bool \<Rightarrow> bool) \<Rightarrow> match_state step_flow \<Rightarrow> bool" where
  "asks need r \<longleftrightarrow> (\<exists>s. r = Result s \<and> need (state_requirements s))"

text \<open>The state \<open>a\<close> seen without some metadata, and the states \<open>b\<close> and \<open>c\<close> seen with it.\<close>

definition decided :: "(bool \<times> bool \<Rightarrow> bool) \<Rightarrow> match_state \<Rightarrow> match_state \<Rightarrow> match_state \<Rightarrow> bool" where
  "decided need a b c \<longleftrightarrow> need (state_requirements a) \<or> (a = Matched \<or> a = NotMatched) \<and> b = a \<and> c = a"

text \<open>Evaluation with two inputs agrees unless the requirement \<open>r\<close> found before asks for the metadata.\<close>

definition agree :: "(bool \<times> bool \<Rightarrow> bool) \<Rightarrow> match_state step_flow \<Rightarrow> 'a step_flow \<Rightarrow> 'a step_flow \<Rightarrow> bool" where
  "agree need r b c \<longleftrightarrow> asks need r \<or> b = c \<and> same_shape r b"

lemma agree_refl [simp]: "agree need Exhausted Exhausted Exhausted" "agree need ContinueMain ContinueMain ContinueMain"
  "agree need (Result s) (Result d) (Result d)"
  by (simp_all add: agree_def)

lemma agree_asks: "need (state_requirements s) \<Longrightarrow> agree need (Result s) b c"
  by (simp add: agree_def asks_def)

lemma agree_call:
  assumes "agree need r b c" "agree need r' b' c'"
  shows "agree need (case r of Result v \<Rightarrow> Result v | ContinueMain \<Rightarrow> if is_top then r' else ContinueMain | Exhausted \<Rightarrow> r')
    (case b of Result v \<Rightarrow> Result v | ContinueMain \<Rightarrow> if is_top then b' else ContinueMain | Exhausted \<Rightarrow> b')
    (case c of Result v \<Rightarrow> Result v | ContinueMain \<Rightarrow> if is_top then c' else ContinueMain | Exhausted \<Rightarrow> c')"
  using assms by (cases r; cases b) (auto simp: agree_def asks_def)

lemma requirement_decides:
  assumes "\<forall>step \<in> S. decided need (step_state t i pr dr step) (step_state t j pr' dr' step) (step_state t k pr'' dr'' step)"
    and "\<forall>(n, branch) \<in> set subs. set branch \<subseteq> S" and "set steps \<subseteq> S"
    and need: "\<not> need (False, False)"
  shows "agree need (requirement_loop t subs i pr dr disabled depth index steps)
    (evaluate_loop t subs j pr' dr' disabled depth index steps)
    (evaluate_loop t subs k pr'' dr'' disabled depth index steps)"
  using assms(3)
proof (induction "length subs - depth" arbitrary: depth disabled index steps rule: less_induct)
  case less
  show ?case using less.prems
  proof (induction steps arbitrary: index)
    case (Cons step steps)
    have call: "agree need
        (if length subs < depth + 1 then Exhausted else requirement_loop t subs i pr dr None (depth + 1) 0 branch)
        (if length subs < depth + 1 then Exhausted else evaluate_loop t subs j pr' dr' None (depth + 1) 0 branch)
        (if length subs < depth + 1 then Exhausted else evaluate_loop t subs k pr'' dr'' None (depth + 1) 0 branch)"
      if "map_of subs name = Some branch" for name branch
    proof (cases "length subs < depth + 1")
      case False
      have "set branch \<subseteq> S" using assms(2) map_of_SomeD [OF that] by fastforce
      then show ?thesis using less.hyps [of "depth + 1" branch None 0] False by simp
    qed simp
    have rest: "agree need (requirement_loop t subs i pr dr disabled depth (index + 1) steps)
        (evaluate_loop t subs j pr' dr' disabled depth (index + 1) steps)
        (evaluate_loop t subs k pr'' dr'' disabled depth (index + 1) steps)"
      using Cons by simp
    have d: "decided need (step_state t i pr dr step) (step_state t j pr' dr' step) (step_state t k pr'' dr'' step)"
      using assms(1) Cons.prems by simp
    show ?case
    proof (cases "need (state_requirements (step_state t i pr dr step))")
      case True
      then show ?thesis using rest d need
        by (auto simp: step_state_def Let_def agree_asks split: match_state.split)
    next
      case False
      then have same: "(step_state t i pr dr step = Matched \<or> step_state t i pr dr step = NotMatched)"
        "step_state t j pr' dr' step = step_state t i pr dr step" "step_state t k pr'' dr'' step = step_state t i pr dr step"
        using d by (auto simp: decided_def)
      note body = requirement_loop.simps(2) evaluate_loop.simps(2) Let_def
        step_matches_def step_state_def [symmetric] same(2,3)
      show ?thesis
      proof (cases "on_some disabled (\<lambda>flags. flag_set flags index) \<or> step_state t i pr dr step = NotMatched")
        case True
        then show ?thesis using rest unfolding body by auto
      next
        case False
        then have m: "\<not> on_some disabled (\<lambda>flags. flag_set flags index)" "step_state t i pr dr step = Matched"
          using same(1) by auto
        show ?thesis
        proof (cases "\<exists>name branch. rs_action step = A_SubRule name \<and> map_of subs name = Some branch")
          case True
          then obtain name branch where b: "rs_action step = A_SubRule name" "map_of subs name = Some branch" by blast
          show ?thesis unfolding body m b
            using agree_call [OF call [OF b(2)] rest, of "depth = 0"] m(1)
            by (simp only: b match_state.case route_action.case option.case if_False not_True_eq_False simp_thms)
        next
          case False
          then show ?thesis using rest m unfolding body by (auto split: route_action.split option.split)
        qed
      qed
    qed
  qed simp
qed

definition plan_steps :: "route_plan \<Rightarrow> route_step set" where
  "plan_steps plan = set (pl_steps plan) \<union> (\<Union>(n, branch) \<in> set (pl_sub_rules plan). set branch)"

lemma branch_in_plan: "\<forall>(n, branch) \<in> set (pl_sub_rules plan). set branch \<subseteq> plan_steps plan"
  by (auto simp: plan_steps_def)

lemma steps_in_plan: "set (pl_steps plan) \<subseteq> plan_steps plan"
  by (simp add: plan_steps_def)

lemma outcome_state_proper: "ruleset_outcome_to_state v \<noteq> Deferred False False"
  by (cases v) (simp_all add: state_deferred_def)

lemma loops_proper:
  "any_loop Matched NotMatched state_deferred state_requirements p d ss \<noteq> Deferred False False"
  "all_loop Matched NotMatched state_deferred state_requirements p d ss \<noteq> Deferred False False"
  by (simp_all only: state.any_loop_acc state.all_loop_acc state_deferred_def) auto

lemma alias_proper: "match_ruleset_alias rs cs i pr dr source \<noteq> Deferred False False"
  by (simp add: match_ruleset_alias_def Let_def loops_proper split: option.split)

lemma deferred_something: "step_match_state t i pr dr m \<noteq> Deferred False False"
proof (induction m arbitrary: dr)
  case (M_Not m)
  then show ?case by (simp add: not_state_def)
qed (simp_all add: loops_proper alias_proper bool_state_def state_deferred_def Let_def outcome_state_proper
    split: option.split)

lemma input_process_same:
  "input_process (fc_process (mi_context i)) (fm_process_path (fc_ruleset (mi_context i)))
     (fm_package_names (fc_ruleset (mi_context i))) i = i"
  by (simp add: input_process_def flow_process_def)

context lazy_index
begin

lemma decided_process:
  assumes "mt_rulesets t = None \<or> mt_rulesets t = Some index"
  shows "decided fst (step_state t i False True step) (step_state t (input_process n p k i) True True step)
    (step_state t i True True step)"
proof -
  have same: "settles state_requirements fst (step_match_state t i False True (rs_matcher step))
      (step_match_state t i True True (rs_matcher step))"
    using step_state_process [OF assms, of i True "rs_matcher step" "fc_process (mi_context i)"
        "fm_process_path (fc_ruleset (mi_context i))" "fm_package_names (fc_ruleset (mi_context i))"]
    by (simp only: input_process_same)
  show ?thesis
    using step_state_known(2) [OF assms, of i False "rs_matcher step"]
      deferred_something [of t i False True "rs_matcher step"] same
      step_state_process [OF assms, of i True "rs_matcher step" n p k]
    by (cases "step_state t i False True step") (auto simp: decided_def step_state_def settles_def)
qed

lemma decided_destination:
  assumes "mt_rulesets t = None \<or> mt_rulesets t = Some index"
    "no_resolve_free (rs_matcher step)" "\<not> ro_no_resolve (rs_options step)"
  shows "decided snd (step_state t i True False step) (step_state t (input_destination ip i) True True step)
    (step_state t i True False step)"
proof (cases "step_state t i True False step")
  case (Deferred a b)
  then show ?thesis using step_state_known(1) [OF assms(1), of i False "rs_matcher step"] assms(3)
    deferred_something [of t i True False "rs_matcher step"]
    step_state_destination [OF assms(1,2), of i True]
    by (auto simp: decided_def step_state_def settles_def)
qed (use step_state_destination [OF assms(1,2), of i True] assms(3) in
    \<open>simp_all add: decided_def step_state_def settles_def\<close>)

lemma needs_process_decision:
  assumes "en_rulesets e = None \<or> en_rulesets e = Some index"
    and "mi_resolved_ip (match_input_new x f) \<noteq> None" and "\<not> needs_process x e f"
  shows "decide_detailed x e (flow_process n p k f) = decide_detailed x e f"
proof -
  let ?t = "engine_matching x e" and ?i = "match_input_new x f" and ?subs = "pl_sub_rules (en_plan e)"
  have t: "mt_rulesets ?t = None \<or> mt_rulesets ?t = Some index" using assms(1) by (simp add: engine_matching_def)
  have "agree fst (requirement_loop ?t ?subs ?i False True (Some (en_disabled e)) 0 0 (pl_steps (en_plan e)))
    (evaluate_loop ?t ?subs (input_process n p k ?i) True True (Some (en_disabled e)) 0 0 (pl_steps (en_plan e)))
    (evaluate_loop ?t ?subs ?i True True (Some (en_disabled e)) 0 0 (pl_steps (en_plan e)))"
    by (rule requirement_decides [OF _ branch_in_plan steps_in_plan]) (auto intro: decided_process [OF t])
  moreover have "\<not> asks fst (requirement_loop ?t ?subs ?i False True (Some (en_disabled e)) 0 0 (pl_steps (en_plan e)))"
    using assms(2,3) by (auto simp: needs_process_def first_requirement_def asks_def Let_def
        split: step_flow.splits match_state.splits)
  ultimately show ?thesis using assms(2)
    by (simp add: agree_def decide_detailed_def evaluate_steps_def match_input_process Let_def)
qed

lemma needs_destination_decision:
  assumes "en_rulesets e = None \<or> en_rulesets e = Some index"
    and "\<forall>step \<in> plan_steps (en_plan e). no_resolve_free (rs_matcher step) \<and> \<not> ro_no_resolve (rs_options step)"
    and "fc_ip f = None" "parse_ip (fc_host f) = None" "\<not> needs_destination_ip x e f"
  shows "decide_detailed x e (flow_destination ip f) = decide_detailed x e f"
proof -
  let ?t = "engine_matching x e" and ?i = "match_input_new x f" and ?subs = "pl_sub_rules (en_plan e)"
  have t: "mt_rulesets ?t = None \<or> mt_rulesets ?t = Some index" using assms(1) by (simp add: engine_matching_def)
  have "agree snd (requirement_loop ?t ?subs ?i True False (Some (en_disabled e)) 0 0 (pl_steps (en_plan e)))
    (evaluate_loop ?t ?subs (input_destination ip ?i) True True (Some (en_disabled e)) 0 0 (pl_steps (en_plan e)))
    (evaluate_loop ?t ?subs ?i True False (Some (en_disabled e)) 0 0 (pl_steps (en_plan e)))"
    by (rule requirement_decides [OF _ branch_in_plan steps_in_plan])
      (use assms(2) in \<open>auto intro: decided_destination [OF t]\<close>)
  moreover have "\<not> asks snd (requirement_loop ?t ?subs ?i True False (Some (en_disabled e)) 0 0 (pl_steps (en_plan e)))"
    using assms(3-5) by (auto simp: needs_destination_ip_def first_requirement_def asks_def Let_def
        split: step_flow.splits match_state.splits)
  moreover have "mi_resolved_ip (input_destination ip ?i) = Some ip" "mi_resolved_ip ?i = None"
    using assms(3,4) by (simp_all add: input_destination_def match_input_new_def Let_def)
  ultimately show ?thesis
    by (simp add: agree_def decide_detailed_def evaluate_steps_def match_input_destination Let_def)
qed

end

section \<open>Ordered evaluation without a bound on the depth\<close>

text \<open>
  The specification of a rule list: \<open>flags\<close> is given for the main list and absent in a sub-rule.
  A rule that is disabled or does not match is passed over; a rule with an outbound decides; the
  rules for control flow continue as their names say.
\<close>

definition considered :: "matching \<Rightarrow> match_input \<Rightarrow> bool \<Rightarrow> bool \<Rightarrow> bool list option \<Rightarrow> nat \<Rightarrow> route_step \<Rightarrow> bool" where
  "considered t i pr dr flags index step \<longleftrightarrow>
     \<not> on_some flags (\<lambda>fs. flag_set fs index) \<and> step_state t i pr dr step = Matched"

definition is_outbound :: "route_action \<Rightarrow> bool" where
  "is_outbound a \<longleftrightarrow> a = A_Direct \<or> a = A_Block \<or> (\<exists>g. a = A_Group g)"

definition decision_of :: "bool list option \<Rightarrow> nat \<Rightarrow> route_step \<Rightarrow> detailed_decision" where
  "decision_of flags index step = \<lparr>dd_decision = from_action (rs_action step), dd_matcher = matcher_kind (rs_matcher step),
     dd_hit = describe_route_step (map_option (\<lambda>_. index) flags) step\<rparr>"

inductive runs ::
  "matching \<Rightarrow> sub_rules \<Rightarrow> match_input \<Rightarrow> bool \<Rightarrow> bool \<Rightarrow> bool list option \<Rightarrow> nat \<Rightarrow> route_step list \<Rightarrow>
     detailed_decision step_flow \<Rightarrow> bool"
  for t subs i pr dr where
  runs_end: "runs t subs i pr dr flags index [] Exhausted"
| runs_skip: "\<not> considered t i pr dr flags index step \<Longrightarrow> runs t subs i pr dr flags (index + 1) steps r
    \<Longrightarrow> runs t subs i pr dr flags index (step # steps) r"
| runs_outbound: "considered t i pr dr flags index step \<Longrightarrow> is_outbound (rs_action step)
    \<Longrightarrow> runs t subs i pr dr flags index (step # steps) (Result (decision_of flags index step))"
| runs_pass_rule: "considered t i pr dr flags index step \<Longrightarrow> rs_action step = A_PassRule
    \<Longrightarrow> runs t subs i pr dr flags (index + 1) steps r \<Longrightarrow> runs t subs i pr dr flags index (step # steps) r"
| runs_pass_main: "considered t i pr dr (Some fs) index step \<Longrightarrow> rs_action step = A_Pass
    \<Longrightarrow> runs t subs i pr dr (Some fs) (index + 1) steps r \<Longrightarrow> runs t subs i pr dr (Some fs) index (step # steps) r"
| runs_pass_sub: "considered t i pr dr None index step \<Longrightarrow> rs_action step = A_Pass
    \<Longrightarrow> runs t subs i pr dr None index (step # steps) ContinueMain"
| runs_call_unknown: "considered t i pr dr flags index step \<Longrightarrow> rs_action step = A_SubRule name
    \<Longrightarrow> map_of subs name = None \<Longrightarrow> runs t subs i pr dr flags (index + 1) steps r
    \<Longrightarrow> runs t subs i pr dr flags index (step # steps) r"
| runs_call_result: "considered t i pr dr flags index step \<Longrightarrow> rs_action step = A_SubRule name
    \<Longrightarrow> map_of subs name = Some branch \<Longrightarrow> runs t subs i pr dr None 0 branch (Result d)
    \<Longrightarrow> runs t subs i pr dr flags index (step # steps) (Result d)"
| runs_call_exhausted: "considered t i pr dr flags index step \<Longrightarrow> rs_action step = A_SubRule name
    \<Longrightarrow> map_of subs name = Some branch \<Longrightarrow> runs t subs i pr dr None 0 branch Exhausted
    \<Longrightarrow> runs t subs i pr dr flags (index + 1) steps r \<Longrightarrow> runs t subs i pr dr flags index (step # steps) r"
| runs_call_main: "considered t i pr dr (Some fs) index step \<Longrightarrow> rs_action step = A_SubRule name
    \<Longrightarrow> map_of subs name = Some branch \<Longrightarrow> runs t subs i pr dr None 0 branch ContinueMain
    \<Longrightarrow> runs t subs i pr dr (Some fs) (index + 1) steps r \<Longrightarrow> runs t subs i pr dr (Some fs) index (step # steps) r"
| runs_call_sub: "considered t i pr dr None index step \<Longrightarrow> rs_action step = A_SubRule name
    \<Longrightarrow> map_of subs name = Some branch \<Longrightarrow> runs t subs i pr dr None 0 branch ContinueMain
    \<Longrightarrow> runs t subs i pr dr None index (step # steps) ContinueMain"

inductive_simps runs_Nil [simp]: "runs t subs i pr dr flags index [] r"
inductive_cases runs_ConsE: "runs t subs i pr dr flags index (step # steps) r"

text \<open>What one step of the list leads to, by its action.\<close>

lemma runs_skipped:
  "\<not> considered t i pr dr flags index step \<Longrightarrow>
    runs t subs i pr dr flags index (step # steps) r \<longleftrightarrow> runs t subs i pr dr flags (index + 1) steps r"
  by (auto elim: runs_ConsE intro: runs_skip)

lemma runs_decides:
  assumes "considered t i pr dr flags index step" "is_outbound (rs_action step)"
  shows "runs t subs i pr dr flags index (step # steps) r \<longleftrightarrow> r = Result (decision_of flags index step)"
proof
  assume "runs t subs i pr dr flags index (step # steps) r"
  then show "r = Result (decision_of flags index step)"
    by cases (use assms in \<open>auto simp: is_outbound_def\<close>)
qed (simp add: assms runs_outbound)

lemma runs_passes:
  assumes "considered t i pr dr flags index step" "rs_action step = A_Pass"
  shows "runs t subs i pr dr flags index (step # steps) r \<longleftrightarrow>
    (if flags = None then r = ContinueMain else runs t subs i pr dr flags (index + 1) steps r)"
proof
  assume "runs t subs i pr dr flags index (step # steps) r"
  then show "if flags = None then r = ContinueMain else runs t subs i pr dr flags (index + 1) steps r"
    by cases (use assms in \<open>auto simp: is_outbound_def\<close>)
qed (use assms in \<open>auto intro: runs_pass_main runs_pass_sub split: if_splits\<close>)

lemma runs_passes_rule:
  assumes "considered t i pr dr flags index step" "rs_action step = A_PassRule"
  shows "runs t subs i pr dr flags index (step # steps) r \<longleftrightarrow> runs t subs i pr dr flags (index + 1) steps r"
proof
  assume "runs t subs i pr dr flags index (step # steps) r"
  then show "runs t subs i pr dr flags (index + 1) steps r"
    by cases (use assms in \<open>auto simp: is_outbound_def\<close>)
qed (use assms in \<open>auto intro: runs_pass_rule\<close>)

lemma runs_calls:
  assumes "considered t i pr dr flags index step" "rs_action step = A_SubRule name"
  shows "runs t subs i pr dr flags index (step # steps) r \<longleftrightarrow>
    (case map_of subs name of
       None \<Rightarrow> runs t subs i pr dr flags (index + 1) steps r
     | Some branch \<Rightarrow> (\<exists>q. runs t subs i pr dr None 0 branch q \<and>
         (case q of Result d \<Rightarrow> r = Result d
          | ContinueMain \<Rightarrow> if flags = None then r = ContinueMain else runs t subs i pr dr flags (index + 1) steps r
          | Exhausted \<Rightarrow> runs t subs i pr dr flags (index + 1) steps r)))" (is "?l \<longleftrightarrow> ?r")
proof
  assume ?l
  then show ?r by cases (use assms in \<open>auto simp: is_outbound_def intro: exI\<close>)
next
  assume r: ?r
  show ?l
  proof (cases "map_of subs name")
    case (Some branch)
    with r obtain q where "runs t subs i pr dr None 0 branch q"
      "case q of Result d \<Rightarrow> r = Result d
       | ContinueMain \<Rightarrow> if flags = None then r = ContinueMain else runs t subs i pr dr flags (index + 1) steps r
       | Exhausted \<Rightarrow> runs t subs i pr dr flags (index + 1) steps r" by auto
    then show ?thesis using assms Some
      by (cases q) (auto intro: runs_call_result runs_call_main runs_call_sub runs_call_exhausted split: if_splits)
  qed (use r assms in \<open>auto intro: runs_call_unknown\<close>)
qed

lemmas runs_step = runs_skipped runs_decides runs_passes runs_passes_rule runs_calls

text \<open>
  The sub-rules that are being evaluated: all different, as many as the depth, each calling the
  targets of the steps, through others or not.
\<close>

definition call_chain :: "sub_rules \<Rightarrow> nat \<Rightarrow> route_step list \<Rightarrow> bool" where
  "call_chain subs depth steps \<longleftrightarrow>
    (\<exists>P \<subseteq> fst ` set subs. card P = depth
       \<and> (\<forall>p \<in> P. \<forall>step \<in> set steps. \<forall>n. rs_action step = A_SubRule n \<longrightarrow> (p, n) \<in> (calls subs)\<^sup>+))"

lemma call_chain_main: "call_chain subs 0 steps"
  unfolding call_chain_def by (rule exI [of _ "{}"]) simp

lemma call_chain_rest: "call_chain subs depth (step # steps) \<Longrightarrow> call_chain subs depth steps"
  unfolding call_chain_def by auto

lemma call_chain_enter:
  assumes "call_chain subs depth (step # steps)" "acyclic (calls subs)"
    "rs_action step = A_SubRule name" "map_of subs name = Some branch"
  shows "depth < length subs \<and> call_chain subs (depth + 1) branch"
proof -
  obtain P where P: "P \<subseteq> fst ` set subs" "card P = depth" "\<forall>p \<in> P. (p, name) \<in> (calls subs)\<^sup>+"
    using assms(1,3) by (auto simp: call_chain_def)
  have new: "name \<notin> P" using P(3) assms(2) by (auto simp: acyclic_def)
  have key: "name \<in> fst ` set subs" using map_of_SomeD [OF assms(4)] by force
  have fin: "finite P" using P(1) finite_subset by blast
  have "card (insert name P) \<le> card (fst ` set subs)" using key P(1) by (simp add: card_mono)
  also have "\<dots> \<le> length subs" using card_image_le [of "set subs" fst] card_length [of subs] by simp
  finally have "depth < length subs" using new fin P(2) by simp
  moreover have "(p, n) \<in> (calls subs)\<^sup>+"
    if "p \<in> insert name P" "s \<in> set branch" "rs_action s = A_SubRule n" for p s n
  proof -
    have "(name, n) \<in> calls subs" using that assms(4) by (auto simp: calls_iff)
    then show ?thesis using that(1) P(3) by (auto intro: trancl_into_trancl)
  qed
  ultimately show ?thesis
    unfolding call_chain_def using new fin P(1,2) key
    by (intro conjI exI [of _ "insert name P"]) auto
qed

lemma runs_evaluate_loop:
  assumes "acyclic (calls subs)" "call_chain subs depth steps" "flags = None \<longleftrightarrow> 0 < depth"
  shows "runs t subs i pr dr flags index steps r \<longleftrightarrow> r = evaluate_loop t subs i pr dr flags depth index steps"
  using assms(2,3)
proof (induction "length subs - depth" arbitrary: depth flags index steps r rule: less_induct)
  case less
  show ?case using less.prems
  proof (induction steps arbitrary: index r)
    case (Cons step steps)
    note chain = Cons.prems(1) and level = Cons.prems(2)
    have rest: "runs t subs i pr dr flags (index + 1) steps q \<longleftrightarrow>
        q = evaluate_loop t subs i pr dr flags depth (index + 1) steps" for q
      using Cons.IH [OF call_chain_rest [OF chain] level] .
    show ?case
    proof (cases "considered t i pr dr flags index step")
      case False
      then have "evaluate_loop t subs i pr dr flags depth index (step # steps) =
          evaluate_loop t subs i pr dr flags depth (index + 1) steps"
        by (auto simp: considered_def step_state_def step_matches_def Let_def)
      then show ?thesis using runs_skipped [OF False] rest by simp
    next
      case True
      then have body: "\<not> on_some flags (\<lambda>fs. flag_set fs index)"
        "step_matches t i pr (dr \<or> ro_no_resolve (rs_options step)) (rs_matcher step)"
        by (auto simp: considered_def step_state_def step_matches_def)
      show ?thesis
      proof (cases "rs_action step")
        case (A_SubRule name)
        show ?thesis
        proof (cases "map_of subs name")
          case None
          then show ?thesis using body A_SubRule runs_calls [OF True A_SubRule] rest by simp
        next
          case (Some branch)
          have enter: "depth < length subs" "call_chain subs (depth + 1) branch"
            using call_chain_enter [OF chain assms(1) A_SubRule Some] by auto
          then have "runs t subs i pr dr None 0 branch q \<longleftrightarrow>
              q = evaluate_loop t subs i pr dr None (depth + 1) 0 branch" for q
            using less.hyps [of "depth + 1" branch None 0 q] by simp
          then show ?thesis
            using body A_SubRule Some enter(1) runs_calls [OF True A_SubRule] rest level
            by (simp split: step_flow.split)
        qed
      qed (use body level rest runs_passes [OF True] runs_passes_rule [OF True] runs_decides [OF True] in
          \<open>simp_all add: is_outbound_def decision_of_def\<close>)
    qed
  qed simp
qed

section \<open>Suffixes of addresses\<close>

lemma be_val_append: "be_val (a @ b) = be_val a * 256 ^ length b + be_val b"
proof (induction b rule: rev_induct)
  case (snoc y b)
  have "be_val (a @ b @ [y]) = be_val (a @ b) * 256 + unat y" using be_val_snoc [of "a @ b" y] by simp
  then show ?case using snoc by (simp add: be_val_snoc algebra_simps)
qed simp

lemma be_val_inj: "length a = length b \<Longrightarrow> be_val a = be_val b \<longleftrightarrow> a = b"
  using be_bytes_be_val [of a] be_bytes_be_val [of b] by metis

lemma mod_mult_split:
  fixes a s M r :: nat
  assumes "s < M"
  shows "(a * M + s) mod (M * r) = (a mod r) * M + s"
  using assms by (simp add: mod_mult2_eq)

lemma mod_scaled_eq_iff:
  fixes a b s t M r :: nat
  assumes "s < M" "t < M"
  shows "(a * M + s) mod (M * r) = (b * M + t) mod (M * r) \<longleftrightarrow> a mod r = b mod r \<and> s = t"
proof
  assume "(a * M + s) mod (M * r) = (b * M + t) mod (M * r)"
  then have e: "(a mod r) * M + s = (b mod r) * M + t" using assms by (simp add: mod_mult_split)
  then have "((a mod r) * M + s) mod M = ((b mod r) * M + t) mod M" by simp
  then have "s = t" using assms by simp
  then show "a mod r = b mod r \<and> s = t" using e assms by auto
next
  assume "a mod r = b mod r \<and> s = t"
  then show "(a * M + s) mod (M * r) = (b * M + t) mod (M * r)" using assms by (simp add: mod_mult_split)
qed

lemma unat_take_bit: "unat (take_bit n (a :: 'a::len word)) = unat a mod 2 ^ n"
  by (simp only: unsigned_take_bit_eq take_bit_nat_def)

lemma take_bit_eq_unat:
  "take_bit n (a :: 'a::len word) = take_bit n b \<longleftrightarrow> unat a mod 2 ^ n = unat b mod 2 ^ n"
  by (simp only: word_unat_eq_iff unat_take_bit)

lemma low_bits_eq_iff:
  fixes a b :: u8
  assumes "r < 8"
  shows "a AND (push_bit r 1 - 1) = b AND (push_bit r 1 - 1) \<longleftrightarrow> unat a mod 2 ^ r = unat b mod 2 ^ r"
proof -
  have "(push_bit r 1 - 1 :: u8) = mask r" by (simp add: mask_eq_decr_exp push_bit_eq_mult)
  then have "a AND (push_bit r 1 - 1) = take_bit r a" "b AND (push_bit r 1 - 1) = take_bit r b"
    by (simp_all add: take_bit_eq_mask)
  then show ?thesis by (simp only: take_bit_eq_unat)
qed

lemma suffix_bits_match_numeric:
  assumes "length c = n" "length e = n" "unat bits \<le> 8 * n"
  shows "suffix_bits_match c e bits = Some (be_val c mod 2 ^ unat bits = be_val e mod 2 ^ unat bits)"
proof -
  let ?f = "unat (bits div 8)" and ?r = "unat (bits mod 8)"
  have fr: "?f = unat bits div 8" "?r = unat bits mod 8" by (simp_all add: unat_div_distrib unat_mod)
  have bits: "unat bits = 8 * ?f + ?r" by (simp add: fr)
  have r8: "?r < 8" by (simp add: fr)
  have fn: "?f \<le> n" using assms(3) fr(1) by linarith
  have pow: "2 ^ unat bits = (256 ^ ?f * 2 ^ ?r :: nat)"
    unfolding bits by (simp add: power_add power_mult)
  define c1 where "c1 = take (n - ?f) c" define c2 where "c2 = drop (n - ?f) c"
  define e1 where "e1 = take (n - ?f) e" define e2 where "e2 = drop (n - ?f) e"
  have c: "c = c1 @ c2" "length c2 = ?f" and e: "e = e1 @ e2" "length e2 = ?f"
    using assms(1,2) fn by (simp_all add: c1_def c2_def e1_def e2_def)
  have suf: "drop (n - ?f) c = c2" "drop (n - ?f) e = e2" by (simp_all add: c2_def e2_def)
  have main: "be_val c mod 2 ^ unat bits = be_val e mod 2 ^ unat bits \<longleftrightarrow>
      be_val c1 mod 2 ^ ?r = be_val e1 mod 2 ^ ?r \<and> c2 = e2"
    unfolding pow c(1) e(1) be_val_append c(2) e(2)
    using mod_scaled_eq_iff [of "be_val c2" "256 ^ ?f" "be_val e2" "be_val c1" "2 ^ ?r" "be_val e1"]
      be_val_bound [of c2] be_val_bound [of e2] be_val_inj [of c2 e2] c(2) e(2) by simp
  show ?thesis
  proof (cases "?r = 0")
    case True
    then have "suffix_bits_match c e bits = Some (c2 = e2)"
      using fn c(2) e(2) by (auto simp: suffix_bits_match_def Let_def assms(1,2) suf)
    then show ?thesis using main True by simp
  next
    case False
    then have room: "?f < n" using assms(3) bits by linarith
    have lastb: "be_val xs mod 2 ^ ?r = unat (last xs) mod 2 ^ ?r" if "xs \<noteq> []" for xs :: bytes
    proof -
      have v: "be_val xs = be_val (butlast xs) * 256 + unat (last xs)"
        using be_val_snoc [of "butlast xs" "last xs"] that by simp
      have "2 ^ ?r dvd (256 :: nat)" using r8 le_imp_power_dvd [of ?r 8 "2 :: nat"] by simp
      then obtain k where "(256 :: nat) = 2 ^ ?r * k" ..
      then have k: "be_val (butlast xs) * 256 = 2 ^ ?r * (k * be_val (butlast xs))" by simp
      show ?thesis unfolding v k by (rule mod_mult_self4)
    qed
    have ne: "c1 \<noteq> []" "e1 \<noteq> []" using room assms(1,2) by (auto simp: c1_def e1_def)
    then have at: "c ! (n - ?f - 1) = last c1" "e ! (n - ?f - 1) = last e1"
      using room assms(1,2) by (simp_all add: c1_def e1_def last_conv_nth)
    have "suffix_bits_match c e bits =
        Some (c2 = e2 \<and> last c1 AND (push_bit ?r 1 - 1) = last e1 AND (push_bit ?r 1 - 1))"
      using fn room False c(2) e(2)
      by (auto simp: suffix_bits_match_def Let_def assms(1,2) suf at [simplified])
    then show ?thesis
      using main low_bits_eq_iff [OF r8, of "last c1" "last e1"] lastb [OF ne(1)] lastb [OF ne(2)] by auto
  qed
qed

lemma be_val_octets: "be_val (octets4 a) = unat a" "be_val (octets6 b) = unat b"
  using unat_bound [of a] unat_bound [of b] by (simp_all add: octets4_def octets6_def be_val_be_bytes)

definition address_bits :: "ip_addr \<Rightarrow> nat" where
  "address_bits a = (case a of V4 _ \<Rightarrow> 32 | V6 _ \<Rightarrow> 128)"

fun low_bits_agree :: "nat \<Rightarrow> ip_addr \<Rightarrow> ip_addr \<Rightarrow> bool" where
  "low_bits_agree n (V4 a) (V4 b) = (take_bit n a = take_bit n b)"
| "low_bits_agree n (V6 a) (V6 b) = (take_bit n a = take_bit n b)"
| "low_bits_agree n _ _ = False"

lemma parse_ip_suffix_bits:
  assumes "parse_ip_suffix v = Some s"
  shows "unat (is_bits s) \<le> address_bits (is_address s)"
proof -
  obtain b :: nat where "is_bits s = of_nat b" "b \<le> address_bits (is_address s)"
    using assms by (auto simp: parse_ip_suffix_def address_bits_def split: option.splits prod.splits if_splits ip_addr.splits)
  then show ?thesis by (metis le_trans mod_less_eq_dividend of_nat_inverse unat_of_nat)
qed

lemma suffix_bits_match_lengths: "length c \<noteq> length e \<Longrightarrow> suffix_bits_match c e bits = Some False"
  by (simp add: suffix_bits_match_def)

section \<open>Switching rules off\<close>

definition engine_wf :: "route_engine \<Rightarrow> bool" where
  "engine_wf e \<longleftrightarrow> length (en_disabled e) = length (pl_steps (en_plan e))"

fun switch_all :: "(nat \<times> bool) list \<Rightarrow> route_engine \<Rightarrow> io_error + route_engine" where
  "switch_all [] e = Inr e"
| "switch_all ((index, disabled) # rest) e =
    and_then (set_rule_disabled index disabled e) (\<lambda>(_, e'). switch_all rest e')"

lemma engine_new_wf:
  "engine_new x plan = Inr e \<Longrightarrow> engine_wf e \<and> en_plan e = plan \<and> (\<forall>k. \<not> rule_disabled e k)"
  "with_rulesets x plan rulesets = Inr e \<Longrightarrow> engine_wf e \<and> en_plan e = plan \<and> (\<forall>k. \<not> rule_disabled e k)"
  by (auto simp: engine_new_def with_rulesets_def engine_wf_def rule_disabled_def flag_set_def and_then_def
      split: sum.splits)

lemma set_rule_disabled_wf:
  assumes "engine_wf e"
  obtains e' where "set_rule_disabled index disabled e = Inr (index < length (pl_steps (en_plan e)), e')"
    "engine_wf e'" "en_plan e' = en_plan e" "\<And>k. rule_disabled e' k \<longleftrightarrow>
      (if k = index \<and> index < length (pl_steps (en_plan e)) then disabled else rule_disabled e k)"
proof (cases "index < length (pl_steps (en_plan e))")
  case True
  then show ?thesis using assms
    by (intro that [of "e\<lparr>en_disabled := (en_disabled e)[index := disabled]\<rparr>"])
      (auto simp: set_rule_disabled_def engine_wf_def rule_disabled_def flag_set_def nth_list_update)
next
  case False
  then show ?thesis using assms by (intro that [of e]) (auto simp: set_rule_disabled_def)
qed

lemma switch_all_history:
  "engine_wf e \<Longrightarrow> \<exists>e'. switch_all ss e = Inr e' \<and> engine_wf e' \<and> en_plan e' = en_plan e \<and>
    (\<forall>k < length (pl_steps (en_plan e)). rule_disabled e' k =
       (case map_of (rev ss) k of Some d \<Rightarrow> d | None \<Rightarrow> rule_disabled e k))"
proof (induction ss arbitrary: e)
  case (Cons s ss)
  obtain index disabled where s: "s = (index, disabled)" by (cases s)
  obtain e1 where e1: "set_rule_disabled index disabled e = Inr (index < length (pl_steps (en_plan e)), e1)"
    "engine_wf e1" "en_plan e1 = en_plan e" "\<And>k. rule_disabled e1 k \<longleftrightarrow>
      (if k = index \<and> index < length (pl_steps (en_plan e)) then disabled else rule_disabled e k)"
    using set_rule_disabled_wf [OF Cons.prems] by blast
  obtain e' where e': "switch_all ss e1 = Inr e'" "engine_wf e'" "en_plan e' = en_plan e"
    "\<forall>k < length (pl_steps (en_plan e)). rule_disabled e' k =
       (case map_of (rev ss) k of Some d \<Rightarrow> d | None \<Rightarrow> rule_disabled e1 k)"
    using Cons.IH [OF e1(2)] e1(3) by auto
  then show ?case using e1(1,4) by (auto simp: s map_add_Some_iff split: option.split)
qed auto

text \<open>The steps that are not switched off, and what \<open>decide\<close> reports of a result.\<close>

definition enabled_from :: "bool list \<Rightarrow> nat \<Rightarrow> route_step list \<Rightarrow> route_step list" where
  "enabled_from flags index steps = map snd (filter (\<lambda>(k, _). \<not> flag_set flags k) (enumerate index steps))"

lemma enabled_from_simps [simp]:
  "enabled_from flags index [] = []"
  "enabled_from flags index (step # steps) =
    (if flag_set flags index then enabled_from flags (index + 1) steps
     else step # enabled_from flags (index + 1) steps)"
  by (simp_all add: enabled_from_def)

fun reported :: "detailed_decision step_flow \<Rightarrow> (route_decision \<times> string \<times> string) step_flow" where
  "reported (Result d) = Result (dd_decision d, dd_matcher d, rh_source (dd_hit d))"
| "reported ContinueMain = ContinueMain"
| "reported Exhausted = Exhausted"

lemma rh_source_describe [simp]: "rh_source (describe_route_step k step) = rs_source step"
  by (simp add: describe_route_step_def split_def Let_def)

lemma evaluate_enabled:
  assumes "\<And>k. \<not> flag_set none k"
  shows "reported (evaluate_loop t subs i pr dr (Some none) 0 j (enabled_from flags index steps)) =
    reported (evaluate_loop t subs i pr dr (Some flags) 0 index steps)"
proof (induction steps arbitrary: index j)
  case (Cons step steps)
  show ?case
  proof (cases "flag_set flags index")
    case True
    then show ?thesis using Cons by (simp add: on_some_def)
  next
    case False
    then show ?thesis using Cons [of "j + 1" "index + 1"] assms
      by (auto simp: on_some_def Let_def split: route_action.split option.split step_flow.split)
  qed
qed simp

lemma decide_reported:
  "decide x e f =
    (case reported (evaluate_steps (engine_matching x e) (pl_sub_rules (en_plan e)) (match_input_new x f) True
        (mi_resolved_ip (match_input_new x f) \<noteq> None) (Some (en_disabled e)) 0 (pl_steps (en_plan e))) of
       Result r \<Rightarrow> r | _ \<Rightarrow> (D_Direct, ''fallback'', rh_source hit_fallback))"
  by (simp add: decide_def decide_detailed_def Let_def split: step_flow.split)

section \<open>Properties\<close>



text \<open>
  An engine built from a plan takes any sequence of rule switches without a panic; the plan
  stays, and each rule is in the state of its last switch, enabled when there was none.
\<close>

theorem rule_switch_history:
  assumes "with_rulesets x plan rulesets = Inr e"
  shows "\<exists>e'. switch_all ss e = Inr e' \<and> en_plan e' = plan \<and>
    (\<forall>k < length (pl_steps plan). rule_disabled e' k \<longleftrightarrow> map_of (rev ss) k = Some True)"
proof -
  have e: "engine_wf e" "en_plan e = plan" "\<And>k. \<not> rule_disabled e k"
    using engine_new_wf(2) [OF assms] by auto
  show ?thesis using switch_all_history [OF e(1), of ss] e(2,3) by (auto split: option.splits)
qed

text \<open>
  A disabled rule has no effect: the decision, its kind and its source line are those of the plan
  without the disabled rules.
\<close>

theorem disabled_rules_are_removed:
  "decide x e f = decide x (e\<lparr>en_plan := (en_plan e)\<lparr>pl_steps := enabled_from (en_disabled e) 0 (pl_steps (en_plan e))\<rparr>,
     en_disabled := []\<rparr>) f"
proof -
  have "engine_matching x (e\<lparr>en_plan := plan, en_disabled := []\<rparr>) = engine_matching x e" for plan
    by (simp add: engine_matching_def)
  then show ?thesis
    by (simp add: decide_reported evaluate_steps_def evaluate_enabled flag_set_def)
qed

text \<open>
  C1: With sub-rules that the configuration compiler accepts, the evaluation of a plan is the
  ordered evaluation without a bound: the bound on the depth cuts no call off, and the result is the
  only one that the rules allow.
\<close>

theorem accepted_plan_refines_ordered_evaluation:
  assumes "validate_sub_rule_graph (pl_sub_rules plan) = Inr ()"
  shows "runs t (pl_sub_rules plan) i pr dr (Some flags) 0 (pl_steps plan) r \<longleftrightarrow>
    r = evaluate_steps t (pl_sub_rules plan) i pr dr (Some flags) 0 (pl_steps plan)"
proof -
  have "acyclic (calls (pl_sub_rules plan))"
    using assms by (simp add: sub_rules_accepted)
  then show ?thesis using runs_evaluate_loop [OF _ call_chain_main, of _ "Some flags"] by (simp add: evaluate_steps_def)
qed

text \<open>
  A parsed IP suffix compares exactly the low bits it names of two addresses of one family, and
  the comparison never indexes out of an address.
\<close>

theorem ip_suffix_compares_low_bits:
  assumes "parse_ip_suffix v = Some s"
  shows "(ip_suffix_matches c s \<longleftrightarrow> low_bits_agree (unat (is_bits s)) c (is_address s)) \<and>
    suffix_bits_match (octets c) (octets (is_address s)) (is_bits s) \<noteq> None"
proof -
  have "unat (is_bits s) \<le> address_bits (is_address s)" using parse_ip_suffix_bits [OF assms] .
  then show ?thesis
    by (cases c; cases "is_address s")
      (simp_all add: ip_suffix_matches_def suffix_bits_match_numeric be_val_octets take_bit_eq_unat
        address_bits_def suffix_bits_match_lengths)
qed

section \<open>Witnesses\<close>

definition sample_step :: "route_matcher \<Rightarrow> route_action \<Rightarrow> route_step" where
  "sample_step m a = \<lparr>rs_matcher = m, rs_action = a, rs_source = [],
     rs_options = \<lparr>ro_no_resolve = False, ro_no_log = False, ro_no_track = False\<rparr>\<rparr>"

definition sample_plan :: "route_step list \<Rightarrow> route_plan" where
  "sample_plan steps = \<lparr>pl_preset = [], pl_final = ''direct'', pl_steps = steps, pl_sub_rules = []\<rparr>"

definition sample_engine :: "route_step list \<Rightarrow> route_engine" where
  "sample_engine steps = \<lparr>en_plan = sample_plan steps, en_extra_cidrs = [],
     en_rulesets = Some (semantic_index sample_env [(''s'', sample_program)]), en_prepared = prepared_default,
     en_disabled = replicate (length steps) False\<rparr>"

lemmas sample_defs = sample_engine_def sample_plan_def sample_step_def engine_matching_def



theorem rule_switch_history_witness:
  "\<exists>e e'. with_rulesets sample_env (sample_plan [sample_step M_Any A_Block]) (semantic_index sample_env []) = Inr e \<and>
     switch_all [(0, True), (7, True)] e = Inr e' \<and> rule_disabled e' 0"
proof -
  have "with_rulesets sample_env (sample_plan [sample_step M_Any A_Block]) (semantic_index sample_env []) =
      Inr \<lparr>en_plan = sample_plan [sample_step M_Any A_Block], en_extra_cidrs = [],
           en_rulesets = Some (semantic_index sample_env []), en_prepared = prepared_default, en_disabled = [False]\<rparr>"
    by (simp add: with_rulesets_def sample_plan_def sample_step_def compile_prepared_def collect_steps_def
        and_then_def prepared_default_def)
  from rule_switch_history [OF this, of "[(0, True), (7, True)]"] this show ?thesis by (auto simp: sample_plan_def)
qed

definition sample_sub_plan :: route_plan where
  "sample_sub_plan = \<lparr>pl_preset = [], pl_final = ''direct'',
     pl_steps = [sample_step M_Any (A_SubRule ''s''), sample_step (M_Port 443) (A_Group ''web'')],
     pl_sub_rules = [(''s'', [sample_step (M_Port 80) A_Block, sample_step M_Any A_Pass, sample_step M_Any A_Block])]\<rparr>"

theorem accepted_plan_refines_ordered_evaluation_witness:
  "runs (engine_matching sample_env (sample_engine [])) (pl_sub_rules sample_sub_plan)
     (match_input_new sample_env (for_ip (V4 1) 443 Net_Tcp)) True True (Some [False, False]) 0 (pl_steps sample_sub_plan)
     (Result (decision_of (Some [False, False]) 1 (sample_step (M_Port 443) (A_Group ''web''))))"
proof -
  have "validate_sub_rule_graph (pl_sub_rules sample_sub_plan) = Inr ()"
    by (simp add: sample_sub_plan_def sample_step_def validate_sub_rule_graph_def sub_graph_def successors_def)
  then show ?thesis
    by (simp add: accepted_plan_refines_ordered_evaluation)
      (simp add: sample_sub_plan_def sample_step_def evaluate_steps_def decision_of_def Let_def flag_set_def on_some_def
        step_matches_def bool_state_def match_input_new_def for_ip_def)
qed

text \<open>
  With a destination that is not resolved, a rule on the address in front of a rule on the process
  hides the latter from \<open>needs_process\<close>, while the decision passes over the former and depends on
  the process.
\<close>

theorem needs_process_misses_unresolved:
  "\<not> needs_process sample_env (sample_engine [sample_step (M_IpSuffix ''0.0.0.1/8'') A_Direct, sample_step (M_Process ''curl'') A_Block])
       (for_domain ''example.com'' 443 Net_Tcp) \<and>
   dd_decision (decide_detailed sample_env
       (sample_engine [sample_step (M_IpSuffix ''0.0.0.1/8'') A_Direct, sample_step (M_Process ''curl'') A_Block])
       (for_domain ''example.com'' 443 Net_Tcp)) = D_Direct \<and>
   dd_decision (decide_detailed sample_env
       (sample_engine [sample_step (M_IpSuffix ''0.0.0.1/8'') A_Direct, sample_step (M_Process ''curl'') A_Block])
       (flow_process (Some ''curl'') None [] (for_domain ''example.com'' 443 Net_Tcp))) = D_Block"
proof -
  have host: "parse_ip ''example.com'' = None" by code_simp
  show ?thesis
    by (simp add: sample_defs needs_process_def first_requirement_def decide_detailed_def evaluate_steps_def for_domain_def
        flow_process_def match_input_new_def Let_def flag_set_def on_some_def bool_state_def state_deferred_def host
        step_matches_def on_process_names_def text_eq_ignore_case_def flow_metadata_default_def)
qed

theorem ip_suffix_compares_low_bits_witness:
  "parse_ip_suffix ''0.0.0.7/12'' = Some \<lparr>is_address = V4 7, is_bits = 12\<rparr> \<and>
   ip_suffix_matches (V4 0x0A005007) \<lparr>is_address = V4 7, is_bits = 12\<rparr>"
proof -
  have *: "parse_ip_suffix ''0.0.0.7/12'' = Some \<lparr>is_address = V4 7, is_bits = 12\<rparr>" by code_simp
  show ?thesis using ip_suffix_compares_low_bits [OF *, of "V4 0x0A005007"] * by simp
qed

end
