(* ===== verification/Upload_Queue.thy ===== *)
theory Upload_Queue
  imports WC_Prelude
begin

text \<open>
  Ordered upload reassembly for XHTTP \<open>packet-up\<close>
  (\<open>core-outbound/src/proto/xhttp/upload_queue.rs\<close>): POST bodies arrive with sequence numbers in any
  order and are turned into one byte stream, read in pieces by an asynchronous reader.

  The state is the locked \<open>Inner\<close> with the window size. \<open>read_section\<close> is the first locked section of
  \<open>poll_read_slice\<close>. Two views of a run are given: sequences of whole calls, for what is delivered,
  and a step relation in which the locked sections and the notifications of a producer and of the
  reader interleave, for the wake-up of a suspended reader.
\<close>

section \<open>State and operations\<close>

record upload_queue =
  uq_packets :: "(u64 \<times> bytes) list"
  uq_next_seq :: u64
  uq_current :: bytes
  uq_current_offset :: nat
  uq_closed :: bool
  uq_error :: "io_error option"
  uq_max_packets :: nat

datatype sequence_position = Past | Next | Future

definition uq_new :: "nat \<Rightarrow> upload_queue" where
  "uq_new max_packets = \<lparr>uq_packets = [], uq_next_seq = 0, uq_current = [], uq_current_offset = 0,
     uq_closed = False, uq_error = None, uq_max_packets = max max_packets 1\<rparr>"

definition clear_payloads :: "upload_queue \<Rightarrow> upload_queue" where
  "clear_payloads q = q\<lparr>uq_packets := [], uq_current := [], uq_current_offset := 0\<rparr>"

definition window_exceeded :: io_error where
  "window_exceeded = Io_Error OutOfMemory ''XHTTP upload reassembly exceeded its buffered POSTs''"

definition uq_push :: "u64 \<Rightarrow> bytes \<Rightarrow> upload_queue \<Rightarrow> (io_error + unit) \<times> upload_queue" where
  "uq_push seq payload q =
    (case uq_error q of
       Some e \<Rightarrow> (Inl e, q)
     | None \<Rightarrow>
         if uq_closed q then (Inl (Io_Error BrokenPipe ''XHTTP upload queue is closed''), q)
         else if seq < uq_next_seq q \<or> amap_contains seq (uq_packets q)
         then (Inl (Io_Error AlreadyExists ''duplicate XHTTP upload sequence''), q)
         else if uq_max_packets q \<le> length (uq_packets q) \<and> seq \<noteq> uq_next_seq q
         then (Inl window_exceeded, clear_payloads (q\<lparr>uq_error := Some window_exceeded\<rparr>))
         else (Inr (), q\<lparr>uq_packets := amap_insert seq payload (uq_packets q)\<rparr>))"

definition uq_close :: "upload_queue \<Rightarrow> upload_queue" where
  "uq_close q = q\<lparr>uq_closed := True\<rparr>"

definition uq_fail :: "io_error \<Rightarrow> upload_queue \<Rightarrow> upload_queue" where
  "uq_fail e q = clear_payloads (q\<lparr>uq_error := (case uq_error q of None \<Rightarrow> Some e | Some old \<Rightarrow> Some old),
     uq_closed := True\<rparr>)"

definition pending_packets :: "upload_queue \<Rightarrow> nat" where
  "pending_packets q = length (uq_packets q)"

definition sequence_position_of :: "u64 \<Rightarrow> upload_queue \<Rightarrow> sequence_position" where
  "sequence_position_of seq q =
     (if seq < uq_next_seq q then Past else if seq = uq_next_seq q then Next else Future)"

datatype read_outcome = Finish "io_error + bytes" | Again | Nothing

definition read_section :: "nat \<Rightarrow> upload_queue \<Rightarrow> read_outcome \<times> upload_queue" where
  "read_section n q =
    (case uq_error q of
       Some e \<Rightarrow> (Finish (Inl e), q)
     | None \<Rightarrow>
         if uq_current_offset q < length (uq_current q)
         then
           (let remaining = drop (uq_current_offset q) (uq_current q);
                len = min (length remaining) n;
                offset = uq_current_offset q + len
            in (Finish (Inr (take len remaining)),
                if offset = length (uq_current q) then q\<lparr>uq_current := [], uq_current_offset := 0\<rparr>
                else q\<lparr>uq_current_offset := offset\<rparr>))
         else
           (case map_of (uq_packets q) (uq_next_seq q) of
              Some payload \<Rightarrow>
                (Again, q\<lparr>uq_packets := amap_remove (uq_next_seq q) (uq_packets q),
                           uq_next_seq := saturating_add (uq_next_seq q) 1, uq_current := payload,
                           uq_current_offset := 0\<rparr>)
            | None \<Rightarrow> if uq_closed q then (Finish (Inr []), clear_payloads q) else (Nothing, q)))"

definition uq_ready :: "upload_queue \<Rightarrow> bool" where
  "uq_ready q \<longleftrightarrow> uq_error q \<noteq> None \<or> uq_closed q \<or> amap_contains (uq_next_seq q) (uq_packets q)"

datatype poll = Ready "io_error + bytes" | Pending

lemma read_section_nothing: "read_section n q = (Nothing, q') \<Longrightarrow> q' = q \<and> \<not> uq_ready q"
  by (auto simp: read_section_def uq_ready_def amap_contains_map_of Let_def split: option.splits if_splits)

lemma read_section_again:
  assumes "read_section n q = (Again, q')"
  shows "\<exists>payload. map_of (uq_packets q) (uq_next_seq q) = Some payload \<and> uq_error q = None \<and>
    length (uq_current q) \<le> uq_current_offset q \<and>
    q' = q\<lparr>uq_packets := amap_remove (uq_next_seq q) (uq_packets q),
           uq_next_seq := saturating_add (uq_next_seq q) 1, uq_current := payload, uq_current_offset := 0\<rparr>"
  using assms by (auto simp: read_section_def Let_def split: option.splits if_splits)

lemma read_section_again_less:
  assumes "read_section n q = (Again, q')"
  shows "length (uq_packets q') < length (uq_packets q)"
proof -
  obtain payload where "map_of (uq_packets q) (uq_next_seq q) = Some payload"
      "uq_packets q' = amap_remove (uq_next_seq q) (uq_packets q)"
    using read_section_again [OF assms] by auto
  then show ?thesis
    using length_filter_less [of "(uq_next_seq q, payload)" "uq_packets q" "\<lambda>(k, _). k \<noteq> uq_next_seq q"]
    by (auto simp: amap_remove_def dest: map_of_SomeD)
qed

function poll_read_slice :: "nat \<Rightarrow> upload_queue \<Rightarrow> poll \<times> upload_queue" where
  "poll_read_slice n q =
    (if n = 0 then (Ready (Inr []), q)
     else case read_section n q of
       (Finish r, q') \<Rightarrow> (Ready r, q')
     | (Again, q') \<Rightarrow> poll_read_slice n q'
     | (Nothing, q') \<Rightarrow> if uq_ready q' then poll_read_slice n q' else (Pending, q'))"
  by pat_completeness auto
termination
  by (relation "measure (\<lambda>(n, q). length (uq_packets q))")
    (auto dest: read_section_again_less read_section_nothing simp: eq_commute [of "(_, _)"])

declare poll_read_slice.simps [simp del]

section \<open>What is delivered\<close>

datatype uq_event = Push u64 bytes | Close | Fail io_error | Read nat

text \<open>A run with its history: the uploads that were accepted, in order, and the bytes handed out.\<close>

type_synonym uq_run = "upload_queue \<times> (u64 \<times> bytes) list \<times> bytes"

fun uq_apply :: "uq_run \<Rightarrow> uq_event \<Rightarrow> uq_run" where
  "uq_apply (q, acc, out) (Push seq payload) =
    (case uq_push seq payload q of (Inr _, q') \<Rightarrow> (q', acc @ [(seq, payload)], out) | (Inl _, q') \<Rightarrow> (q', acc, out))"
| "uq_apply (q, acc, out) Close = (uq_close q, acc, out)"
| "uq_apply (q, acc, out) (Fail e) = (uq_fail e q, acc, out)"
| "uq_apply (q, acc, out) (Read n) =
    (case poll_read_slice n q of (Ready (Inr bs), q') \<Rightarrow> (q', acc, out @ bs) | (_, q') \<Rightarrow> (q', acc, out))"

definition uq_start :: "nat \<Rightarrow> uq_run" where
  "uq_start max_packets = (uq_new max_packets, [], [])"

text \<open>The payloads of the first sequence numbers, in order.\<close>

definition upload_stream :: "(u64 \<times> bytes) list \<Rightarrow> u64 \<Rightarrow> bytes" where
  "upload_stream acc next = concat (map (\<lambda>k. the (map_of acc (of_nat k))) [0..<unat next])"

definition accepted_below :: "(u64 \<times> bytes) list \<Rightarrow> u64 \<Rightarrow> bool" where
  "accepted_below acc next \<longleftrightarrow> (\<forall>s < next. s \<in> fst ` set acc)"

definition stream_inv :: "upload_queue \<Rightarrow> (u64 \<times> bytes) list \<Rightarrow> bytes \<Rightarrow> bool" where
  "stream_inv q acc out \<longleftrightarrow>
     distinct (map fst acc) \<and> accepted_below acc (uq_next_seq q)
     \<and> (\<forall>s p. map_of (uq_packets q) s = Some p \<longrightarrow> uq_next_seq q \<le> s \<and> map_of acc s = Some p)
     \<and> (\<not> uq_closed q \<and> uq_error q = None \<longrightarrow>
          (\<forall>s \<in> fst ` set acc. s < uq_next_seq q \<or> amap_contains s (uq_packets q)))
     \<and> prefix out (upload_stream acc (uq_next_seq q))
     \<and> (uq_error q = None \<longrightarrow>
          out @ drop (uq_current_offset q) (uq_current q) = upload_stream acc (uq_next_seq q))"

lemma stream_inv_start: "stream_inv (uq_new m) [] []"
  by (simp add: stream_inv_def uq_new_def accepted_below_def upload_stream_def amap_contains_def word_less_nat_alt)

lemma unat_u64_of_nat: "k \<le> unat (b :: u64) \<Longrightarrow> unat (of_nat k :: u64) = k"
  using unat_bound [of b] by (simp add: unat_of_nat)

lemma map_of_key: "map_of m k = Some v \<Longrightarrow> k \<in> fst ` set m"
  by (metis fst_conv image_eqI map_of_SomeD)

lemma map_of_snoc: "s \<notin> fst ` set acc \<Longrightarrow> map_of (acc @ [(s, p)]) k = (if k = s then Some p else map_of acc k)"
  by (induction acc) auto

lemma stream_snoc:
  assumes "accepted_below acc next" "s \<notin> fst ` set acc"
  shows "upload_stream (acc @ [(s, p)]) next = upload_stream acc next"
proof -
  have "(of_nat k :: u64) \<noteq> s" if "k < unat next" for k
  proof -
    have "unat (of_nat k :: u64) = k" using that unat_u64_of_nat [of k "next"] by simp
    then have "(of_nat k :: u64) < next" using that by (simp add: word_less_nat_alt)
    then show ?thesis using assms by (auto simp: accepted_below_def)
  qed
  then show ?thesis unfolding upload_stream_def using assms(2)
    by (intro arg_cong [of _ _ concat] map_cong) (auto simp: map_of_snoc simp del: map_of_append)
qed

lemma below_count:
  assumes "accepted_below acc next" "next \<in> fst ` set acc"
  shows "unat next < length acc"
proof -
  have "of_nat ` {0..unat next} \<subseteq> fst ` set acc"
  proof (clarify)
    fix k assume k: "k \<in> {0..unat next}"
    then have u: "unat (of_nat k :: u64) = k" using unat_u64_of_nat [of k "next"] by simp
    show "(of_nat k :: u64) \<in> fst ` set acc"
    proof (cases "k = unat next")
      case False
      then have "(of_nat k :: u64) < next" using k u by (simp add: word_less_nat_alt)
      then show ?thesis using assms(1) by (simp add: accepted_below_def)
    qed (simp add: assms(2))
  qed
  then have "card (of_nat ` {0..unat next} :: u64 set) \<le> card (fst ` set acc)" by (rule card_mono [rotated]) simp
  moreover have "inj_on (of_nat :: nat \<Rightarrow> u64) {0..unat next}"
    by (intro inj_onI) (metis atLeastAtMost_iff unat_u64_of_nat)
  ultimately have "Suc (unat next) \<le> card (fst ` set acc)" by (simp add: card_image)
  also have "\<dots> \<le> length acc" using card_image_le [of "set acc" fst] card_length [of acc] by simp
  finally show ?thesis by simp
qed

lemma stream_next:
  assumes "map_of acc next = Some p" "unat next < 2 ^ 64 - 1"
  shows "upload_stream acc (saturating_add next 1) = upload_stream acc next @ p"
proof -
  have "unat (saturating_add next 1) = Suc (unat next)" using assms(2) by (simp add: unat_saturating_add)
  then show ?thesis using assms(1) by (simp add: upload_stream_def)
qed

lemma stream_inv_take:
  assumes "stream_inv q acc out" "uq_error q = None" "uq_packets q' = uq_packets q" "uq_next_seq q' = uq_next_seq q"
    "uq_closed q' = uq_closed q" "uq_error q' = None"
    "drop (uq_current_offset q) (uq_current q) = bs @ drop (uq_current_offset q') (uq_current q')"
  shows "stream_inv q' acc (out @ bs)"
proof -
  have "upload_stream acc (uq_next_seq q) = out @ bs @ drop (uq_current_offset q') (uq_current q')"
    using assms by (simp add: stream_inv_def)
  then show ?thesis using assms(1-6) by (simp add: stream_inv_def)
qed

text \<open>A reader that takes the next payload, or finds the queue closed, keeps the invariant.\<close>

lemma read_section_inv:
  assumes inv: "stream_inv q acc out" and len: "length acc < 2 ^ 64" and n: "0 < n"
    and r: "read_section n q = (r, q')"
  shows "case r of Finish (Inr bs) \<Rightarrow> stream_inv q' acc (out @ bs) \<and> (bs = [] \<longrightarrow> uq_closed q \<and> out = upload_stream acc (uq_next_seq q'))
       | _ \<Rightarrow> stream_inv q' acc out"
proof (cases r)
  case Again
  obtain p where p: "map_of (uq_packets q) (uq_next_seq q) = Some p" "uq_error q = None"
      "length (uq_current q) \<le> uq_current_offset q"
      "q' = q\<lparr>uq_packets := amap_remove (uq_next_seq q) (uq_packets q),
           uq_next_seq := saturating_add (uq_next_seq q) 1, uq_current := p, uq_current_offset := 0\<rparr>"
    using read_section_again r Again by blast
  have acc: "map_of acc (uq_next_seq q) = Some p" using inv p(1) by (simp add: stream_inv_def)
  then have small: "unat (uq_next_seq q) < 2 ^ 64 - 1"
    using below_count [OF _ map_of_key [OF acc]] inv len by (fastforce simp: stream_inv_def)
  then have succ: "unat (saturating_add (uq_next_seq q) 1) = Suc (unat (uq_next_seq q))"
    by (simp add: unat_saturating_add)
  then have less: "s < saturating_add (uq_next_seq q) 1 \<longleftrightarrow> s < uq_next_seq q \<or> s = uq_next_seq q" for s
    by (auto simp: word_less_nat_alt word_unat_eq_iff)
  have "saturating_add (uq_next_seq q) 1 \<le> s" if "uq_next_seq q \<le> s" "s \<noteq> uq_next_seq q" for s
    using that less [of s] by (simp flip: not_less)
  then have "stream_inv q' acc out" using inv acc p stream_next [OF acc small] map_of_key [OF acc]
    by (auto simp: stream_inv_def accepted_below_def less map_of_amap_remove intro: rev_image_eqI dest: map_of_SomeD split: if_splits)
  then show ?thesis using Again by simp
next
  case Nothing
  then show ?thesis using read_section_nothing r inv by auto
next
  case (Finish v)
  let ?rest = "drop (uq_current_offset q) (uq_current q)"
  consider (error) e where "uq_error q = Some e" "v = Inl e" "q' = q"
    | (data) "uq_error q = None" "?rest \<noteq> []" "v = Inr (take (min (length ?rest) n) ?rest)"
        "uq_packets q' = uq_packets q" "uq_next_seq q' = uq_next_seq q" "uq_closed q' = uq_closed q" "uq_error q' = None"
        "drop (uq_current_offset q') (uq_current q') = drop (min (length ?rest) n) ?rest"
    | (closed) "uq_error q = None" "?rest = []" "uq_closed q" "v = Inr []" "q' = clear_payloads q"
    using r Finish by (auto simp: read_section_def Let_def add.commute split: option.splits if_splits)
  then show ?thesis
  proof cases
    case error
    then show ?thesis using Finish inv by simp
  next
    case data
    have "stream_inv q' acc (out @ take (min (length ?rest) n) ?rest)"
      by (rule stream_inv_take [OF inv data(1,4-7)]) (simp only: data(8) append_take_drop_id)
    then show ?thesis using Finish data(2,3) n by auto
  next
    case closed
    then show ?thesis using Finish inv by (auto simp: stream_inv_def clear_payloads_def amap_contains_def)
  qed
qed

lemma poll_read_inv:
  assumes "stream_inv q acc out" "length acc < 2 ^ 64" "0 < n" "poll_read_slice n q = (r, q')"
  shows "case r of
      Ready (Inr bs) \<Rightarrow> stream_inv q' acc (out @ bs) \<and> (bs = [] \<longrightarrow> uq_closed q' \<and> out = upload_stream acc (uq_next_seq q'))
    | Ready (Inl e) \<Rightarrow> stream_inv q' acc out \<and> uq_error q' = Some e
    | Pending \<Rightarrow> stream_inv q' acc out \<and> \<not> uq_ready q' \<and> out = upload_stream acc (uq_next_seq q')"
  using assms
proof (induction n q arbitrary: rule: poll_read_slice.induct)
  case (1 n q)
  obtain v q1 where v: "read_section n q = (v, q1)" by (cases "read_section n q")
  note inv1 = read_section_inv [OF "1.prems"(1,2,3) v]
  show ?case
  proof (cases v)
    case Again
    then show ?thesis using "1.IH"(1) [of v q1] v inv1 "1.prems"
      by (simp add: poll_read_slice.simps [of n q])
  next
    case Nothing
    then have q1: "q1 = q" "\<not> uq_ready q" using read_section_nothing v by auto
    then have "r = Pending" "q' = q" using "1.prems"(3,4) v Nothing by (simp_all add: poll_read_slice.simps [of n q])
    moreover have "length (uq_current q) \<le> uq_current_offset q" "uq_error q = None"
      using v Nothing by (auto simp: read_section_def Let_def split: option.splits if_splits)
    ultimately show ?thesis using q1 "1.prems"(1) by (simp add: stream_inv_def)
  next
    case (Finish w)
    then have rq: "r = Ready w" "q' = q1" using "1.prems"(3,4) v by (simp_all add: poll_read_slice.simps [of n q])
    have "uq_closed q1 = uq_closed q" "\<And>e. w = Inl e \<Longrightarrow> uq_error q1 = Some e \<and> q1 = q"
      using v Finish by (auto simp: read_section_def Let_def clear_payloads_def split: option.splits if_splits)
    then show ?thesis using rq inv1 Finish "1.prems"(1) by (auto split: sum.split)
  qed
qed

lemma uq_push_inv:
  assumes inv: "stream_inv q acc out" and p: "uq_push seq payload q = (r, q')"
  shows "stream_inv q' (if r = Inr () then acc @ [(seq, payload)] else acc) out"
proof (cases r)
  case (Inl e)
  then show ?thesis using assms
    by (auto simp: uq_push_def stream_inv_def clear_payloads_def amap_contains_def split: option.splits if_splits)
next
  case (Inr u)
  then have open_: "uq_error q = None" "\<not> uq_closed q" "\<not> seq < uq_next_seq q" "\<not> amap_contains seq (uq_packets q)"
    "q' = q\<lparr>uq_packets := amap_insert seq payload (uq_packets q)\<rparr>"
    using p by (auto simp: uq_push_def split: option.splits if_splits)
  then have new: "seq \<notin> fst ` set acc" using inv by (auto simp: stream_inv_def)
  show ?thesis using inv open_ new Inr stream_snoc [OF _ new, of "uq_next_seq q" payload]
    by (auto simp: stream_inv_def accepted_below_def map_of_amap_insert map_of_snoc simp del: map_of_append split: if_splits)
qed

lemma uq_apply_inv:
  assumes "stream_inv q acc out" "length acc < 2 ^ 64" "uq_apply (q, acc, out) ev = (q', acc', out')"
  shows "stream_inv q' acc' out' \<and> length acc' \<le> Suc (length acc)"
proof (cases ev)
  case (Push seq payload)
  obtain r q1 where "uq_push seq payload q = (r, q1)" by (cases "uq_push seq payload q")
  with uq_push_inv [OF assms(1) this] show ?thesis using assms(3) Push by (cases r) auto
next
  case (Read n)
  obtain r q1 where r: "poll_read_slice n q = (r, q1)" by (cases "poll_read_slice n q")
  show ?thesis
  proof (cases "n = 0")
    case True
    then have "r = Ready (Inr [])" "q1 = q" using r by (simp_all add: poll_read_slice.simps [of 0 q])
    then show ?thesis using assms r Read by simp
  next
    case False
    then show ?thesis using poll_read_inv [OF assms(1,2) _ r] assms(3) r Read
      by (auto split: poll.splits sum.splits)
  qed
qed (use assms in \<open>auto simp: stream_inv_def uq_close_def uq_fail_def clear_payloads_def split: option.splits\<close>)

lemma uq_run_inv:
  assumes "stream_inv q acc out" "length acc + length evs < 2 ^ 64"
    "foldl uq_apply (q, acc, out) evs = (q', acc', out')"
  shows "stream_inv q' acc' out' \<and> length acc' \<le> length acc + length evs"
  using assms
proof (induction evs arbitrary: q acc out)
  case (Cons ev evs)
  obtain q1 acc1 out1 where s: "uq_apply (q, acc, out) ev = (q1, acc1, out1)" by (cases "uq_apply (q, acc, out) ev")
  have "stream_inv q1 acc1 out1" "length acc1 \<le> Suc (length acc)"
    using uq_apply_inv [OF Cons.prems(1) _ s] Cons.prems(2) by auto
  then show ?case using Cons.IH [of q1 acc1 out1] Cons.prems s by auto
qed simp

section \<open>Wake-up of the reader\<close>

text \<open>
  The waker is the \<open>AtomicWaker\<close> of the crate \<open>futures\<close>: \<open>wake\<close> returns the new state and whether a task was
  woken. What the queue relies on: after \<open>register\<close> the waker is armed, and waking an armed waker wakes
  the task.
\<close>

record 'w waker_ops =
  wk_register :: "'w \<Rightarrow> 'w"
  wk_wake :: "'w \<Rightarrow> 'w \<times> bool"
  wk_armed :: "'w \<Rightarrow> bool"

definition waker_laws :: "'w waker_ops \<Rightarrow> bool" where
  "waker_laws k \<longleftrightarrow> (\<forall>w. wk_armed k (wk_register k w)) \<and> (\<forall>w. wk_armed k w \<longrightarrow> snd (wk_wake k w))"

text \<open>
  Where the reader is: about to take the lock, about to register, about to observe again, suspended
  (\<open>Poll::Pending\<close> was returned). \<open>w_unnotified\<close> counts the producers that have released the lock and not
  yet called \<open>wake\<close>; \<open>w_woken\<close> says that the executor has been told to poll the task.
\<close>

datatype reader_pc = R_Section | R_Register | R_Recheck | R_Suspended

record 'w uq_world =
  w_queue :: upload_queue
  w_waker :: 'w
  w_unnotified :: nat
  w_woken :: bool
  w_reader :: reader_pc

definition push_notifies :: "u64 \<Rightarrow> upload_queue \<Rightarrow> bool" where
  "push_notifies seq q \<longleftrightarrow>
     uq_error q = None \<and> \<not> uq_closed q \<and> \<not> (seq < uq_next_seq q \<or> amap_contains seq (uq_packets q))"

inductive uq_steps :: "'w waker_ops \<Rightarrow> 'w uq_world \<Rightarrow> 'w uq_world \<Rightarrow> bool" for k where
  step_push: "uq_steps k s (s\<lparr>w_queue := snd (uq_push seq payload (w_queue s)),
      w_unnotified := w_unnotified s + (if push_notifies seq (w_queue s) then 1 else 0)\<rparr>)"
| step_close: "uq_steps k s (s\<lparr>w_queue := uq_close (w_queue s), w_unnotified := w_unnotified s + 1\<rparr>)"
| step_fail: "uq_steps k s (s\<lparr>w_queue := uq_fail e (w_queue s), w_unnotified := w_unnotified s + 1\<rparr>)"
| step_notify: "0 < w_unnotified s \<Longrightarrow>
    uq_steps k s (s\<lparr>w_waker := fst (wk_wake k (w_waker s)), w_woken := w_woken s \<or> snd (wk_wake k (w_waker s)),
      w_unnotified := w_unnotified s - 1\<rparr>)"
| step_section: "w_reader s = R_Section \<Longrightarrow> read_section n (w_queue s) = (r, q) \<Longrightarrow>
    uq_steps k s (s\<lparr>w_queue := q, w_reader := (if r = Nothing then R_Register else R_Section)\<rparr>)"
| step_register: "w_reader s = R_Register \<Longrightarrow>
    uq_steps k s (s\<lparr>w_waker := wk_register k (w_waker s), w_reader := R_Recheck\<rparr>)"
| step_recheck: "w_reader s = R_Recheck \<Longrightarrow>
    uq_steps k s (s\<lparr>w_reader := (if uq_ready (w_queue s) then R_Section else R_Suspended)\<rparr>)"
| step_resume: "w_reader s = R_Suspended \<Longrightarrow> w_woken s \<Longrightarrow>
    uq_steps k s (s\<lparr>w_reader := R_Section, w_woken := False\<rparr>)"

definition uq_world_start :: "nat \<Rightarrow> 'w \<Rightarrow> 'w uq_world" where
  "uq_world_start max_packets w =
     \<lparr>w_queue = uq_new max_packets, w_waker = w, w_unnotified = 0, w_woken = False, w_reader = R_Section\<rparr>"

definition wake_inv :: "'w waker_ops \<Rightarrow> 'w uq_world \<Rightarrow> bool" where
  "wake_inv k s \<longleftrightarrow>
     (w_reader s \<in> {R_Recheck, R_Suspended} \<longrightarrow> wk_armed k (w_waker s) \<or> w_woken s)
     \<and> (w_reader s = R_Suspended \<and> uq_ready (w_queue s) \<longrightarrow> w_woken s \<or> 0 < w_unnotified s)"

text \<open>A push that does not notify leaves the queue as it is.\<close>

lemma push_silent: "\<not> push_notifies seq q \<Longrightarrow> snd (uq_push seq payload q) = q"
  by (auto simp: push_notifies_def uq_push_def split: option.split)

lemma wake_inv_step:
  assumes "waker_laws k" "uq_steps k s s'" "wake_inv k s"
  shows "wake_inv k s'"
  using assms(2,3,1)
  by (cases rule: uq_steps.cases) (auto simp: wake_inv_def waker_laws_def push_silent)

lemma wake_inv_reachable:
  assumes "waker_laws k" "(uq_steps k)\<^sup>*\<^sup>* (uq_world_start m w) s"
  shows "wake_inv k s"
  using assms(2)
proof (induction rule: rtranclp_induct)
  case base
  then show ?case by (simp add: wake_inv_def uq_world_start_def)
next
  case (step s s')
  then show ?case using wake_inv_step [OF assms(1)] by blast
qed

section \<open>Properties\<close>

text \<open>
  C16: Uploads arriving in any order, duplicated, rejected or interleaved with reads of any sizes, with
  a close or a failure at any point, are delivered as one stream: what was handed out is a prefix of
  the accepted payloads in the order of their sequence numbers, with no number missing and none
  twice. A reader that is told to wait has received every payload up to the first number that has
  not arrived, and a read that returns no bytes ends a closed stream.
\<close>

theorem uploads_delivered_in_order:
  assumes "foldl uq_apply (uq_start m) evs = (q, acc, out)" "length evs < 2 ^ 64"
  shows "distinct (map fst acc) \<and> accepted_below acc (uq_next_seq q) \<and> prefix out (upload_stream acc (uq_next_seq q)) \<and>
    (\<forall>n q'. 0 < n \<and> poll_read_slice n q = (Pending, q') \<longrightarrow>
       uq_next_seq q' \<notin> fst ` set acc \<and> out = upload_stream acc (uq_next_seq q')) \<and>
    (\<forall>n q'. 0 < n \<and> poll_read_slice n q = (Ready (Inr []), q') \<longrightarrow>
       uq_closed q' \<and> out = upload_stream acc (uq_next_seq q'))"
proof -
  have inv: "stream_inv q acc out" "length acc < 2 ^ 64"
    using uq_run_inv [OF stream_inv_start, of evs m q acc out] assms by (auto simp: uq_start_def)
  moreover have "uq_next_seq q' \<notin> fst ` set acc \<and> out = upload_stream acc (uq_next_seq q')"
    if "0 < n" "poll_read_slice n q = (Pending, q')" for n q'
    using poll_read_inv [OF inv that] by (auto simp: stream_inv_def uq_ready_def)
  moreover have "uq_closed q' \<and> out = upload_stream acc (uq_next_seq q')"
    if "0 < n" "poll_read_slice n q = (Ready (Inr []), q')" for n q'
    using poll_read_inv [OF inv that] by simp
  ultimately show ?thesis unfolding stream_inv_def by blast
qed

theorem uploads_delivered_in_order_witness:
  "\<exists>q acc. foldl uq_apply (uq_start 4) [Push 1 [3], Push 0 [1, 2], Push 1 [9], Read 8, Read 8] = (q, acc, [1, 2, 3]) \<and>
    prefix [1, 2, 3] (upload_stream acc (uq_next_seq q))"
proof -
  let ?evs = "[Push 1 [3], Push 0 [1, 2], Push 1 [9], Read 8, Read 8]"
  obtain q acc where r: "foldl uq_apply (uq_start 4) ?evs = (q, acc, [1, 2, 3])"
    by (simp add: uq_start_def uq_new_def uq_push_def amap_contains_def amap_insert_def amap_remove_def
        poll_read_slice.simps read_section_def Let_def saturating_add_def)
  then show ?thesis using uploads_delivered_in_order [OF r] by auto
qed

text \<open>
  C17: No wake-up is lost. Whatever the interleaving of producers and reader, a suspended reader for
  which the queue has something, an error or the end of the stream included, is woken or about to be
  woken by a producer that has not notified yet.
\<close>

theorem upload_reader_is_woken:
  assumes "waker_laws k" "(uq_steps k)\<^sup>*\<^sup>* (uq_world_start m w) s"
    and "w_reader s = R_Suspended" "uq_ready (w_queue s)" "w_unnotified s = 0"
  shows "w_woken s"
  using wake_inv_reachable [OF assms(1,2)] assms(3-5) by (simp add: wake_inv_def)

definition sample_waker :: "bool waker_ops" where
  "sample_waker = \<lparr>wk_register = (\<lambda>_. True), wk_wake = (\<lambda>w. (False, w)), wk_armed = (\<lambda>w. w)\<rparr>"

theorem upload_reader_is_woken_witness:
  "\<exists>s. (uq_steps sample_waker)\<^sup>*\<^sup>* (uq_world_start 1 False) s \<and> w_reader s = R_Suspended \<and> uq_ready (w_queue s) \<and> w_woken s"
proof -
  let ?q = "uq_new 1" and ?q' = "snd (uq_push 0 [1] (uq_new 1))"
  let ?s = "\<lambda>q w u k r. \<lparr>w_queue = q, w_waker = w, w_unnotified = u, w_woken = k, w_reader = r\<rparr> :: bool uq_world"
  have r: "uq_steps sample_waker (?s ?q False 0 False R_Section) (?s ?q False 0 False R_Register)"
    "uq_steps sample_waker (?s ?q False 0 False R_Register) (?s ?q True 0 False R_Recheck)"
    "uq_steps sample_waker (?s ?q True 0 False R_Recheck) (?s ?q True 0 False R_Suspended)"
    "uq_steps sample_waker (?s ?q True 0 False R_Suspended) (?s ?q' True 1 False R_Suspended)"
    "uq_steps sample_waker (?s ?q' True 1 False R_Suspended) (?s ?q' False 0 True R_Suspended)"
    using step_section [of "?s ?q False 0 False R_Section" 1 Nothing ?q sample_waker]
      step_register [of "?s ?q False 0 False R_Register" sample_waker]
      step_recheck [of "?s ?q True 0 False R_Recheck" sample_waker]
      step_push [of sample_waker "?s ?q True 0 False R_Suspended" 0 "[1]"]
      step_notify [of "?s ?q' True 1 False R_Suspended" sample_waker]
    by (simp_all add: sample_waker_def read_section_def uq_new_def uq_ready_def push_notifies_def amap_contains_def)
  have "(uq_steps sample_waker)\<^sup>*\<^sup>* (uq_world_start 1 False) (?s ?q' False 0 True R_Suspended)"
    unfolding uq_world_start_def 
    by (rule converse_rtranclp_into_rtranclp [OF r(1) converse_rtranclp_into_rtranclp [OF r(2)
          converse_rtranclp_into_rtranclp [OF r(3) converse_rtranclp_into_rtranclp [OF r(4) r_into_rtranclp [of "uq_steps sample_waker", OF r(5)]]]]])
  moreover from this have "w_woken (?s ?q' False 0 True R_Suspended)"
    by (rule upload_reader_is_woken [rotated])
      (simp_all add: waker_laws_def sample_waker_def uq_ready_def uq_push_def uq_new_def amap_contains_def amap_insert_def amap_remove_def)
  ultimately show ?thesis
    by (intro exI [of _ "?s ?q' False 0 True R_Suspended"])
      (simp add: uq_ready_def uq_push_def uq_new_def amap_contains_def amap_insert_def amap_remove_def)
qed

end
