(* ===== verification/Tcp_Nat.thy ===== *)
theory Tcp_Nat
  imports Std_Net
begin

text \<open>
  The TCP port table of the system stack (\<open>core-capture/src/tcp_nat.rs\<close>): each flow from a client to a
  destination gets a port under which the operating system accepts the rewritten connection, and
  the port leads back to the flow.

  Calls are taken one at a time. An \<open>Instant\<close> is a natural number that does not decrease, passed to
  the operations that read the clock. The table of sessions by port holds the session with its time
  of last use.
\<close>

section \<open>State and operations\<close>

definition PORT_RANGE_START :: u16 where "PORT_RANGE_START = 30000"
definition PORT_RANGE_END :: u16 where "PORT_RANGE_END = 65535"
definition PORT_RANGE_SPAN :: u32 where "PORT_RANGE_SPAN = ucast (PORT_RANGE_END - PORT_RANGE_START) + 1"

type_synonym socket_addr = "ip_addr \<times> u16"

record nat_key =
  nk_source :: socket_addr
  nk_destination :: socket_addr

record nat_session = nat_key +
  ns_last_seen :: nat

record tcp_nat =
  tn_timeout :: nat
  tn_next_port :: u16
  tn_by_port :: "(u16 \<times> nat_session) list"
  tn_by_5tuple :: "(nat_key \<times> u16) list"

definition tn_new :: "nat \<Rightarrow> tcp_nat" where
  "tn_new timeout = \<lparr>tn_timeout = timeout, tn_next_port = PORT_RANGE_START, tn_by_port = [], tn_by_5tuple = []\<rparr>"

definition port_in_range :: "u16 \<Rightarrow> u16" where
  "port_in_range raw = PORT_RANGE_START + ucast ((ucast (raw - PORT_RANGE_START) :: u32) mod PORT_RANGE_SPAN)"

definition session_new :: "nat_key \<Rightarrow> nat \<Rightarrow> nat_session" where
  "session_new key now = nat_key.extend key (nat_session.fields now)"

definition session_key :: "nat_session \<Rightarrow> nat_key" where
  "session_key s = nat_key.truncate s"

definition touch :: "u16 \<Rightarrow> nat \<Rightarrow> tcp_nat \<Rightarrow> tcp_nat" where
  "touch port now t = t\<lparr>tn_by_port :=
     (case map_of (tn_by_port t) port of
        Some s \<Rightarrow> amap_insert port (s\<lparr>ns_last_seen := now\<rparr>) (tn_by_port t)
      | None \<Rightarrow> tn_by_port t)\<rparr>"

text \<open>The search for a free port, with the number of ports still to try.\<close>

fun allocate_port :: "nat \<Rightarrow> nat_key \<Rightarrow> nat \<Rightarrow> tcp_nat \<Rightarrow> u16 option \<times> tcp_nat" where
  "allocate_port 0 key now t = (None, t)"
| "allocate_port (Suc tries) key now t =
    (let port = port_in_range (tn_next_port t);
         t' = t\<lparr>tn_next_port := tn_next_port t + 1\<rparr>
     in if amap_contains port (tn_by_port t) then allocate_port tries key now t'
        else (Some port, t'\<lparr>tn_by_port := amap_insert port (session_new key now) (tn_by_port t),
                            tn_by_5tuple := amap_insert key port (tn_by_5tuple t)\<rparr>))"

definition tn_lookup :: "socket_addr \<Rightarrow> socket_addr \<Rightarrow> nat \<Rightarrow> tcp_nat \<Rightarrow> u16 option \<times> tcp_nat" where
  "tn_lookup source destination now t =
    (let key = \<lparr>nk_source = source, nk_destination = destination\<rparr>
     in case map_of (tn_by_5tuple t) key of
          Some port \<Rightarrow>
            if amap_contains port (tn_by_port t) then (Some port, touch port now t)
            else allocate_port (unat PORT_RANGE_SPAN) key now (t\<lparr>tn_by_5tuple := amap_remove key (tn_by_5tuple t)\<rparr>)
        | None \<Rightarrow> allocate_port (unat PORT_RANGE_SPAN) key now t)"

definition tn_lookup_back :: "u16 \<Rightarrow> nat \<Rightarrow> tcp_nat \<Rightarrow> nat_session option \<times> tcp_nat" where
  "tn_lookup_back port now t =
    (case map_of (tn_by_port t) port of
       Some s \<Rightarrow> (Some (s\<lparr>ns_last_seen := now\<rparr>), touch port now t)
     | None \<Rightarrow> (None, t))"

definition tn_remove :: "u16 \<Rightarrow> nat_key \<Rightarrow> tcp_nat \<Rightarrow> tcp_nat" where
  "tn_remove port key t = t\<lparr>tn_by_port := amap_remove port (tn_by_port t),
     tn_by_5tuple := amap_remove key (tn_by_5tuple t)\<rparr>"

definition tn_purge_expired :: "nat \<Rightarrow> tcp_nat \<Rightarrow> nat \<times> tcp_nat" where
  "tn_purge_expired now t =
    (let victims = filter (\<lambda>(_, s). tn_timeout t < now - ns_last_seen s) (tn_by_port t)
     in (length victims, fold (\<lambda>(port, s). tn_remove port (session_key s)) victims t))"

definition tn_remove_by_port :: "u16 \<Rightarrow> tcp_nat \<Rightarrow> tcp_nat" where
  "tn_remove_by_port port t =
    (case map_of (tn_by_port t) port of Some s \<Rightarrow> tn_remove port (session_key s) t | None \<Rightarrow> t)"

definition tn_len :: "tcp_nat \<Rightarrow> nat" where
  "tn_len t = length (tn_by_port t)"

section \<open>The two tables\<close>

text \<open>The tables are inverse to each other, and the ports lie in the range.\<close>

definition nat_wf :: "tcp_nat \<Rightarrow> bool" where
  "nat_wf t \<longleftrightarrow> amap_wf (tn_by_port t) \<and> amap_wf (tn_by_5tuple t)
     \<and> (\<forall>port s. map_of (tn_by_port t) port = Some s \<longrightarrow> PORT_RANGE_START \<le> port)
     \<and> (\<forall>key port. map_of (tn_by_5tuple t) key = Some port \<longleftrightarrow>
          (\<exists>s. map_of (tn_by_port t) port = Some s \<and> session_key s = key))"

lemma session_key_simps [simp]:
  "session_key (session_new key now) = key" "session_key (s\<lparr>ns_last_seen := now\<rparr>) = session_key s"
  "ns_last_seen (session_new key now) = now"
  by (simp_all add: session_key_def session_new_def nat_key.defs nat_session.defs)

lemma nat_wf_port: "nat_wf t \<Longrightarrow> map_of (tn_by_port t) port = Some s \<Longrightarrow> map_of (tn_by_5tuple t) (session_key s) = Some port"
  by (auto simp: nat_wf_def)

lemma nat_wf_range: "nat_wf t \<Longrightarrow> map_of (tn_by_port t) port = Some s \<Longrightarrow> PORT_RANGE_START \<le> port"
  unfolding nat_wf_def by blast

lemma nat_wf_unique:
  assumes "nat_wf t" "map_of (tn_by_port t) port = Some s" "map_of (tn_by_port t) port' = Some s'"
    "session_key s' = session_key s"
  shows "port' = port"
  using nat_wf_port [OF assms(1,2)] nat_wf_port [OF assms(1,3)] assms(4) by simp

lemma nat_wf_new: "nat_wf (tn_new timeout)"
  by (simp add: nat_wf_def tn_new_def)

lemma nat_wf_touch: "nat_wf t \<Longrightarrow> nat_wf (touch port now t)"
  by (auto simp: nat_wf_def touch_def map_of_amap_insert split: option.split if_splits)

lemma nat_wf_remove:
  assumes "nat_wf t" "map_of (tn_by_port t) port = Some s"
  shows "nat_wf (tn_remove port (session_key s) t)"
proof -
  have pairs: "map_of (tn_by_5tuple t) key = Some q \<longleftrightarrow> (\<exists>u. map_of (tn_by_port t) q = Some u \<and> session_key u = key)" for key q
    using assms(1) by (simp add: nat_wf_def)
  have "map_of (tn_by_5tuple (tn_remove port (session_key s) t)) key = Some q \<longleftrightarrow>
      (\<exists>u. map_of (tn_by_port (tn_remove port (session_key s) t)) q = Some u \<and> session_key u = key)" for key q
  proof -
    have "q = port \<longleftrightarrow> key = session_key s" if "map_of (tn_by_port t) q = Some u" "session_key u = key" for u
      using nat_wf_unique [OF assms that(1)] that assms(2) by auto
    then show ?thesis unfolding tn_remove_def by (simp add: map_of_amap_remove pairs) blast
  qed
  moreover have "PORT_RANGE_START \<le> q" if "map_of (tn_by_port (tn_remove port (session_key s) t)) q = Some u" for q u
    using nat_wf_range [OF assms(1), of q u] that by (simp add: tn_remove_def map_of_amap_remove split: if_splits)
  moreover have "amap_wf (tn_by_port (tn_remove port (session_key s) t))" "amap_wf (tn_by_5tuple (tn_remove port (session_key s) t))"
    using assms(1) by (simp_all add: nat_wf_def tn_remove_def)
  ultimately show ?thesis unfolding nat_wf_def by blast
qed

lemma nat_wf_add:
  assumes "nat_wf t" "map_of (tn_by_5tuple t) key = None" "map_of (tn_by_port t) port = None" "PORT_RANGE_START \<le> port"
  shows "nat_wf (t\<lparr>tn_next_port := next_port, tn_by_port := amap_insert port (session_new key now) (tn_by_port t),
    tn_by_5tuple := amap_insert key port (tn_by_5tuple t)\<rparr>)"
proof -
  have "session_key s \<noteq> key" if "map_of (tn_by_port t) p = Some s" for p s
    using nat_wf_port [OF assms(1) that] assms(2) by auto
  then show ?thesis using assms by (auto simp: nat_wf_def map_of_amap_insert split: if_splits)
qed

section \<open>The search for a port\<close>

text \<open>The offset in the range of the port for a counter value.\<close>

lemma unat_port_in_range: "unat (port_in_range raw) = 30000 + unat (raw - 30000) mod 35536"
proof -
  let ?o = "unat (raw - 30000)"
  have o: "?o < 65536" using unat_bound [of "raw - 30000"] by simp
  have span: "PORT_RANGE_SPAN = 35536" by (simp add: PORT_RANGE_SPAN_def PORT_RANGE_START_def PORT_RANGE_END_def)
  have "unat ((ucast (raw - 30000) :: u32) mod 35536) = ?o mod 35536"
    using o by (simp add: unat_mod unsigned_ucast_eq take_bit_nat_def)
  then have "unat (ucast ((ucast (raw - 30000) :: u32) mod 35536) :: u16) = ?o mod 35536"
    by (simp add: unsigned_ucast_eq take_bit_nat_def)
  moreover have "30000 + ?o mod 35536 < 65536" using mod_less_divisor [of 35536 ?o] by linarith
  ultimately show ?thesis
    unfolding port_in_range_def span PORT_RANGE_START_def by (simp add: unat_word_ariths)
qed

lemma port_in_range_start: "PORT_RANGE_START \<le> port_in_range raw"
  by (simp add: word_le_nat_alt unat_port_in_range PORT_RANGE_START_def)

lemma allocate_port_None:
  "allocate_port n key now t = (None, t') \<Longrightarrow> j < n \<Longrightarrow>
    amap_contains (port_in_range (tn_next_port t + of_nat j)) (tn_by_port t)"
proof (induction n arbitrary: t j)
  case (Suc n)
  then have "amap_contains (port_in_range (tn_next_port t)) (tn_by_port t)"
      "allocate_port n key now (t\<lparr>tn_next_port := tn_next_port t + 1\<rparr>) = (None, t')"
    by (auto simp: Let_def split: if_splits)
  then show ?case using Suc.IH [of "t\<lparr>tn_next_port := tn_next_port t + 1\<rparr>" "j - 1"] Suc.prems(2)
    by (cases j) (auto simp: algebra_simps)
qed simp

lemma allocate_port_full:
  "(\<And>j. j < n \<Longrightarrow> amap_contains (port_in_range (tn_next_port t + of_nat j)) (tn_by_port t)) \<Longrightarrow>
    fst (allocate_port n key now t) = None"
proof (induction n arbitrary: t)
  case (Suc n)
  have "amap_contains (port_in_range (tn_next_port t + 1 + of_nat j)) (tn_by_port t)" if "j < n" for j
    using Suc.prems [of "Suc j"] that by (simp add: algebra_simps)
  then show ?case using Suc.IH [of "t\<lparr>tn_next_port := tn_next_port t + 1\<rparr>"] Suc.prems [of 0] by (simp add: Let_def)
qed simp

lemma allocate_port_Some:
  assumes "allocate_port n key now t = (Some port, t')"
  obtains next_port where "PORT_RANGE_START \<le> port" "map_of (tn_by_port t) port = None"
    "t' = t\<lparr>tn_next_port := next_port, tn_by_port := amap_insert port (session_new key now) (tn_by_port t),
      tn_by_5tuple := amap_insert key port (tn_by_5tuple t)\<rparr>"
  using assms
proof (induction n arbitrary: t thesis)
  case (Suc n)
  show ?case
  proof (cases "amap_contains (port_in_range (tn_next_port t)) (tn_by_port t)")
    case True
    then have a: "allocate_port n key now (t\<lparr>tn_next_port := tn_next_port t + 1\<rparr>) = (Some port, t')"
      using Suc.prems(2) by (simp add: Let_def)
    show ?thesis by (rule Suc.IH [OF _ a]) (auto intro: Suc.prems(1))
  next
    case False
    then show ?thesis using Suc.prems port_in_range_start by (auto simp: Let_def amap_contains_map_of)
  qed
qed simp

lemma allocate_port_tables:
  "allocate_port n key now t = (None, t') \<Longrightarrow> \<exists>next_port. t' = t\<lparr>tn_next_port := next_port\<rparr>"
proof (induction n arbitrary: t)
  case (Suc n)
  then show ?case using Suc.IH [of "t\<lparr>tn_next_port := tn_next_port t + 1\<rparr>"] by (auto simp: Let_def split: if_splits)
qed (auto intro: exI [of _ "tn_next_port t'"])

text \<open>A round of the search covers the first 30000 ports of the range, wherever the counter stands.\<close>

lemma round_covers:
  assumes "m < 30000"
  shows "\<exists>j < 35536. unat (port_in_range (raw + of_nat j)) = 30000 + m"
proof -
  let ?a = "unat (raw - 30000)"
  have a: "?a < 65536" using unat_bound [of "raw - 30000"] by simp
  have off: "unat (port_in_range (raw + of_nat j)) = 30000 + (?a + j) mod 65536 mod 35536" for j
  proof -
    have "unat (raw - 30000 + of_nat j) = (?a + j) mod 65536"
      using unat_word_ariths(1) [of "raw - 30000" "of_nat j"] by (simp add: unat_of_nat mod_simps)
    moreover have "raw + of_nat j - 30000 = raw - 30000 + of_nat j" by simp
    ultimately show ?thesis by (simp only: unat_port_in_range)
  qed
  consider "?a \<le> m" | "m < ?a" "?a \<le> m + 35536" | "m + 35536 < ?a" by linarith
  then show ?thesis
  proof cases
    case 1
    then have "m - ?a < 35536" "(?a + (m - ?a)) mod 65536 mod 35536 = m" using assms a by simp_all
    then show ?thesis by (intro exI [of _ "m - ?a"]) (simp only: off simp_thms)
  next
    case 2
    then have "m + 35536 - ?a < 35536" "(?a + (m + 35536 - ?a)) mod 65536 mod 35536 = m" using assms a by simp_all
    then show ?thesis by (intro exI [of _ "m + 35536 - ?a"]) (simp only: off simp_thms)
  next
    case 3
    then have "m + 65536 - ?a < 35536" "(?a + (m + 65536 - ?a)) mod 65536 mod 35536 = m" using assms a by simp_all
    then show ?thesis by (intro exI [of _ "m + 65536 - ?a"]) (simp only: off simp_thms)
  qed
qed

section \<open>Operations on well-formed tables\<close>

lemma nat_wf_next_port [simp]: "nat_wf (t\<lparr>tn_next_port := n\<rparr>) \<longleftrightarrow> nat_wf t"
  by (simp add: nat_wf_def)

text \<open>A well-formed table has the session of every flow it knows, so a lookup reuses it or adds one.\<close>

lemma tn_lookup_cases:
  assumes wf: "nat_wf t" and r: "tn_lookup source destination now t = (r, t')"
  defines "key \<equiv> \<lparr>nk_source = source, nk_destination = destination\<rparr>"
  obtains (reuse) port s where "r = Some port" "t' = touch port now t" "map_of (tn_by_port t) port = Some s" "session_key s = key"
  | (add) port next_port where "r = Some port" "PORT_RANGE_START \<le> port" "map_of (tn_by_port t) port = None"
      "map_of (tn_by_5tuple t) key = None"
      "t' = t\<lparr>tn_next_port := next_port, tn_by_port := amap_insert port (session_new key now) (tn_by_port t),
        tn_by_5tuple := amap_insert key port (tn_by_5tuple t)\<rparr>"
  | (full) next_port where "r = None" "t' = t\<lparr>tn_next_port := next_port\<rparr>"
      "allocate_port (unat PORT_RANGE_SPAN) key now t = (None, t')"
proof (cases "map_of (tn_by_5tuple t) key")
  case (Some port)
  then obtain s where "map_of (tn_by_port t) port = Some s" "session_key s = key"
    using wf unfolding nat_wf_def by blast
  moreover from this have "r = Some port" "t' = touch port now t"
    using r Some by (simp_all add: tn_lookup_def key_def amap_contains_map_of)
  ultimately show ?thesis using reuse by blast
next
  case None
  then have a: "allocate_port (unat PORT_RANGE_SPAN) key now t = (r, t')" using r by (simp add: tn_lookup_def key_def)
  show ?thesis
  proof (cases r)
    case r: None
    then show ?thesis using allocate_port_tables a full by blast
  next
    case (Some port)
    then show ?thesis using allocate_port_Some [of "unat PORT_RANGE_SPAN" key now t port t'] a add None by metis
  qed
qed

lemma nat_wf_lookup:
  assumes "nat_wf t" "tn_lookup source destination now t = (r, t')"
  shows "nat_wf t'"
  using assms(1) by (cases rule: tn_lookup_cases [OF assms]) (simp_all add: nat_wf_touch nat_wf_add)

lemma tn_by_port_remove: "tn_by_port (tn_remove port key t) = amap_remove port (tn_by_port t)"
  by (simp add: tn_remove_def)

lemma purge_fold:
  assumes "nat_wf t" "distinct (map fst vs)" "set vs \<subseteq> set (tn_by_port t)"
  shows "nat_wf (fold (\<lambda>(port, s). tn_remove port (session_key s)) vs t) \<and>
    map_of (tn_by_port (fold (\<lambda>(port, s). tn_remove port (session_key s)) vs t)) =
      (\<lambda>p. if p \<in> fst ` set vs then None else map_of (tn_by_port t) p)"
  using assms
proof (induction vs arbitrary: t)
  case (Cons v vs)
  obtain port s where v: "v = (port, s)" by (cases v)
  have here: "map_of (tn_by_port t) port = Some s"
    using Cons.prems(1,3) v by (simp add: nat_wf_def amap_wf_def)
  have "set vs \<subseteq> set (tn_by_port (tn_remove port (session_key s) t))"
    using Cons.prems(2,3) v by (auto simp: tn_remove_def amap_remove_def image_iff)
  then have "nat_wf (fold (\<lambda>(port, s). tn_remove port (session_key s)) vs (tn_remove port (session_key s) t)) \<and>
    map_of (tn_by_port (fold (\<lambda>(port, s). tn_remove port (session_key s)) vs (tn_remove port (session_key s) t))) =
      (\<lambda>p. if p \<in> fst ` set vs then None else map_of (tn_by_port (tn_remove port (session_key s) t)) p)"
    using Cons.IH [OF nat_wf_remove [OF Cons.prems(1) here]] Cons.prems(2) by simp
  then show ?case by (auto simp: v tn_by_port_remove map_of_amap_remove)
qed simp

lemma purge_expired:
  assumes "nat_wf t"
  shows "nat_wf (snd (tn_purge_expired now t))"
    "map_of (tn_by_port t) port = Some s \<Longrightarrow> now - ns_last_seen s \<le> tn_timeout t \<Longrightarrow>
      map_of (tn_by_port (snd (tn_purge_expired now t))) port = Some s"
proof -
  let ?vs = "filter (\<lambda>(_, s). tn_timeout t < now - ns_last_seen s) (tn_by_port t)"
  have "amap_wf ?vs" using assms amap_wf_filter [of "tn_by_port t"] by (auto simp: nat_wf_def)
  then have d: "distinct (map fst ?vs)" by (simp add: amap_wf_def)
  have "set ?vs \<subseteq> set (tn_by_port t)" by auto
  note f = purge_fold [OF assms d this]
  then show "nat_wf (snd (tn_purge_expired now t))" by (simp add: tn_purge_expired_def Let_def)
  assume s: "map_of (tn_by_port t) port = Some s" "now - ns_last_seen s \<le> tn_timeout t"
  have "port \<notin> fst ` set ?vs"
  proof
    assume "port \<in> fst ` set ?vs"
    then obtain u where u: "(port, u) \<in> set (tn_by_port t)" "tn_timeout t < now - ns_last_seen u" by auto
    then have "map_of (tn_by_port t) port = Some u" using assms by (simp add: nat_wf_def amap_wf_def)
    then show False using s u by simp
  qed
  then show "map_of (tn_by_port (snd (tn_purge_expired now t))) port = Some s"
    using f s by (simp add: tn_purge_expired_def Let_def)
qed

section \<open>Runs\<close>

datatype nat_event = Ev_Lookup socket_addr socket_addr | Ev_Back u16 | Ev_Purge | Ev_Remove u16

fun nat_apply :: "tcp_nat \<Rightarrow> nat_event \<times> nat \<Rightarrow> tcp_nat" where
  "nat_apply t (Ev_Lookup source destination, now) = snd (tn_lookup source destination now t)"
| "nat_apply t (Ev_Back port, now) = snd (tn_lookup_back port now t)"
| "nat_apply t (Ev_Purge, now) = snd (tn_purge_expired now t)"
| "nat_apply t (Ev_Remove port, now) = tn_remove_by_port port t"

lemma nat_wf_apply: "nat_wf t \<Longrightarrow> nat_wf (nat_apply t ev)"
  by (cases "(t, ev)" rule: nat_apply.cases)
    (auto simp: nat_wf_touch nat_wf_remove purge_expired(1) tn_lookup_back_def tn_remove_by_port_def
      intro: nat_wf_lookup [OF _ prod.collapse [symmetric]] split: option.split)

lemma nat_wf_run: "nat_wf (foldl nat_apply (tn_new timeout) evs)"
  by (induction evs rule: rev_induct) (simp_all add: nat_wf_new nat_wf_apply)

lemma tn_lookup_result:
  assumes "nat_wf t" "tn_lookup source destination now t = (Some port, t')"
  shows "\<exists>s. map_of (tn_by_port t') port = Some s \<and> ns_last_seen s = now \<and>
      session_key s = \<lparr>nk_source = source, nk_destination = destination\<rparr>"
  using assms(1)
  by (cases rule: tn_lookup_cases [OF assms])
    (auto simp: touch_def map_of_amap_insert)

lemma tn_lookup_keeps:
  assumes "nat_wf t" "tn_lookup source destination now t = (r, t')" "map_of (tn_by_port t) port = Some s"
  shows "\<exists>s'. map_of (tn_by_port t') port = Some s' \<and> session_key s' = session_key s"
  using assms(1) by (cases rule: tn_lookup_cases [OF assms(1,2)])
    (use assms(3) in \<open>auto simp: touch_def map_of_amap_insert split: option.split\<close>)

lemma tn_timeout_lookup:
  assumes "nat_wf t" "tn_lookup source destination now t = (r, t')"
  shows "tn_timeout t' = tn_timeout t"
  using assms(1) by (cases rule: tn_lookup_cases [OF assms]) (simp_all add: touch_def)

lemma tn_lookup_back_session:
  assumes "map_of (tn_by_port t) port = Some s"
  shows "\<exists>s'. fst (tn_lookup_back port later t) = Some s' \<and> session_key s' = session_key s"
  using assms by (simp add: tn_lookup_back_def)

lemma session_key_parts: "nk_source s = nk_source (session_key s)" "nk_destination s = nk_destination (session_key s)"
  by (simp_all add: session_key_def nat_key.truncate_def)

lemma port_span: "unat PORT_RANGE_SPAN = 35536"
  by (simp add: PORT_RANGE_SPAN_def PORT_RANGE_START_def PORT_RANGE_END_def)

lemma first_try:
  "\<not> amap_contains (port_in_range (tn_next_port t)) (tn_by_port t) \<Longrightarrow>
    allocate_port 35536 key now t = (Some (port_in_range (tn_next_port t)),
      t\<lparr>tn_next_port := tn_next_port t + 1,
        tn_by_port := amap_insert (port_in_range (tn_next_port t)) (session_new key now) (tn_by_port t),
        tn_by_5tuple := amap_insert key (port_in_range (tn_next_port t)) (tn_by_5tuple t)\<rparr>)"
  using allocate_port.simps(2) [of 35535 key now t] by (simp add: Let_def)

section \<open>Properties\<close>

text \<open>
  C18: After any sequence of calls, a port given to a flow lies in the range, leads back to exactly
  that flow, is not the port of any other flow, and still leads back after a purge that comes within
  the time-out.
\<close>

theorem nat_port_leads_back:
  assumes "t = foldl nat_apply (tn_new timeout) evs" "tn_lookup source destination now t = (Some port, t')"
  shows "PORT_RANGE_START \<le> port \<and>
    (\<exists>s. fst (tn_lookup_back port later t') = Some s \<and> nk_source s = source \<and> nk_destination s = destination) \<and>
    (\<forall>source' destination' now' t''. (source', destination') \<noteq> (source, destination) \<longrightarrow>
       tn_lookup source' destination' now' t' \<noteq> (Some port, t'')) \<and>
    (later - now \<le> tn_timeout t \<longrightarrow> fst (tn_lookup_back port later (snd (tn_purge_expired later t'))) \<noteq> None)"
proof -
  have wf: "nat_wf t" using assms(1) nat_wf_run by simp
  then have wf': "nat_wf t'" using nat_wf_lookup assms(2) by blast
  obtain s where s: "map_of (tn_by_port t') port = Some s" "ns_last_seen s = now"
    "session_key s = \<lparr>nk_source = source, nk_destination = destination\<rparr>"
    using tn_lookup_result [OF wf assms(2)] by blast
  have "\<exists>s'. fst (tn_lookup_back port later t') = Some s' \<and> nk_source s' = source \<and> nk_destination s' = destination"
    using tn_lookup_back_session [OF s(1), of later] s(3) session_key_parts by fastforce
  moreover have "tn_lookup source' destination' now' t' \<noteq> (Some port, t'')"
    if "(source', destination') \<noteq> (source, destination)" for source' destination' now' t''
  proof
    assume l: "tn_lookup source' destination' now' t' = (Some port, t'')"
    obtain u where "map_of (tn_by_port t'') port = Some u"
      "session_key u = \<lparr>nk_source = source', nk_destination = destination'\<rparr>"
      using tn_lookup_result [OF wf' l] by blast
    then show False using tn_lookup_keeps [OF wf' l s(1)] s(3) that by simp
  qed
  moreover have "fst (tn_lookup_back port later (snd (tn_purge_expired later t'))) \<noteq> None" if "later - now \<le> tn_timeout t"
    using purge_expired(2) [OF wf' s(1)] s(2) that tn_timeout_lookup [OF wf assms(2)] by (simp add: tn_lookup_back_def)
  ultimately show ?thesis using nat_wf_range [OF wf' s(1)] by blast
qed

theorem nat_port_leads_back_witness:
  "\<exists>s. fst (tn_lookup_back 30000 7 (snd (tn_lookup (V4 1, 5) (V4 2, 443) 3 (foldl nat_apply (tn_new 60) [])))) = Some s \<and>
     nk_source s = (V4 1, 5) \<and> nk_destination s = (V4 2, 443)"
proof -
  have port: "port_in_range 30000 = 30000" using unat_port_in_range [of 30000] by (simp add: word_unat_eq_iff)
  obtain t' where "tn_lookup (V4 1, 5) (V4 2, 443) 3 (foldl nat_apply (tn_new 60) []) = (Some 30000, t')"
    by (simp add: tn_lookup_def tn_new_def Let_def PORT_RANGE_START_def amap_contains_def port port_span first_try)
  from nat_port_leads_back [OF refl this, of 7] this show ?thesis by simp
qed

text \<open>
  A flow is refused a port only when the 30000 ports from 30000 to 59999 are all in use.
\<close>

theorem nat_exhausted_only_when_used:
  assumes "t = foldl nat_apply (tn_new timeout) evs" "fst (tn_lookup source destination now t) = None"
  shows "(\<forall>port \<in> {30000..59999}. amap_contains port (tn_by_port t)) \<and> 30000 \<le> tn_len t"
proof -
  obtain t' where "tn_lookup source destination now t = (None, t')"
    using assms(2) by (cases "tn_lookup source destination now t") simp
  moreover have "nat_wf t" using assms(1) nat_wf_run by simp
  ultimately obtain key where
    "allocate_port (unat PORT_RANGE_SPAN) key now t = (None, t')"
    by (cases rule: tn_lookup_cases [rotated]) auto
  then have all: "amap_contains (port_in_range (tn_next_port t + of_nat j)) (tn_by_port t)" if "j < 35536" for j
    using allocate_port_None that by (simp add: port_span)
  have used: "amap_contains port (tn_by_port t)" if "port \<in> {30000..59999}" for port :: u16
  proof -
    have p: "30000 \<le> unat port" "unat port \<le> 59999" using that by (simp_all add: word_le_nat_alt)
    then have "unat port - 30000 < 30000" by linarith
    with p obtain j where "j < 35536" "unat (port_in_range (tn_next_port t + of_nat j)) = unat port"
      using round_covers [of "unat port - 30000" "tn_next_port t"] by auto
    moreover from this have "port_in_range (tn_next_port t + of_nat j) = port" by (simp add: word_unat_eq_iff)
    ultimately show ?thesis using all [of j] by simp
  qed
  have "of_nat ` {30000..59999} \<subseteq> fst ` set (tn_by_port t)"
    using used by (auto simp: amap_contains_def word_le_nat_alt unat_of_nat)
  then have "card ((of_nat :: nat \<Rightarrow> u16) ` {30000..59999}) \<le> card (fst ` set (tn_by_port t))"
    by (rule card_mono [rotated]) simp
  moreover have "inj_on (of_nat :: nat \<Rightarrow> u16) {30000..59999}"
    by (intro inj_onI) (simp add: word_of_nat_eq_iff take_bit_nat_def)
  ultimately have "30000 \<le> card (fst ` set (tn_by_port t))" by (simp add: card_image)
  also have "\<dots> \<le> tn_len t"
    using card_image_le [of "set (tn_by_port t)" fst] card_length [of "tn_by_port t"] by (simp add: tn_len_def)
  finally show ?thesis using used by blast
qed

text \<open>A table filled by flows from different addresses.\<close>

definition fill_key :: "nat \<Rightarrow> nat_key" where
  "fill_key i = \<lparr>nk_source = (V4 (of_nat i), 0), nk_destination = (V4 0, 443)\<rparr>"

definition fill_events :: "nat \<Rightarrow> (nat_event \<times> nat) list" where
  "fill_events n = map (\<lambda>i. (Ev_Lookup (V4 (of_nat i), 0) (V4 0, 443), 0)) [0..<n]"

lemma port_in_range_fill: "i < 35536 \<Longrightarrow> port_in_range (30000 + of_nat i) = 30000 + of_nat i"
  by (simp add: word_unat_eq_iff unat_port_in_range unat_word_ariths unat_of_nat)

lemma of_nat_port_inj: "i < 35536 \<Longrightarrow> j < 35536 \<Longrightarrow> (of_nat i :: u16) = of_nat j \<longleftrightarrow> i = j"
  by (simp add: word_of_nat_eq_iff take_bit_nat_def)

lemma fill_key_inj: "i < 35536 \<Longrightarrow> j < 35536 \<Longrightarrow> fill_key i = fill_key j \<longleftrightarrow> i = j"
  by (simp add: fill_key_def word_of_nat_eq_iff take_bit_nat_def)

lemma fill_port: "m < n \<Longrightarrow> amap_contains (30000 + of_nat m) (map (\<lambda>i. (30000 + of_nat i, session_new (fill_key i) 0)) [0..<n])"
  unfolding amap_contains_def set_map image_image fst_conv by (rule rev_image_eqI [of m]) simp_all

lemma amap_insert_new: "\<not> amap_contains k m \<Longrightarrow> amap_insert k v m = m @ [(k, v)]"
  by (force simp: amap_insert_def amap_remove_def amap_contains_def intro!: filter_True)

lemma fill_run:
  "n \<le> 35536 \<Longrightarrow> foldl nat_apply (tn_new 60) (fill_events n) =
    \<lparr>tn_timeout = 60, tn_next_port = 30000 + of_nat n,
     tn_by_port = map (\<lambda>i. (30000 + of_nat i, session_new (fill_key i) 0)) [0..<n],
     tn_by_5tuple = map (\<lambda>i. (fill_key i, 30000 + of_nat i)) [0..<n]\<rparr>"
proof (induction n)
  case 0
  then show ?case by (simp add: fill_events_def tn_new_def PORT_RANGE_START_def)
next
  case (Suc n)
  let ?t = "\<lparr>tn_timeout = 60, tn_next_port = 30000 + of_nat n,
     tn_by_port = map (\<lambda>i. (30000 + of_nat i, session_new (fill_key i) 0)) [0..<n],
     tn_by_5tuple = map (\<lambda>i. (fill_key i, 30000 + of_nat i)) [0..<n]\<rparr>"
  have new: "\<not> amap_contains (30000 + of_nat n) (tn_by_port ?t)" "\<not> amap_contains (fill_key n) (tn_by_5tuple ?t)"
    using Suc.prems by (auto simp: amap_contains_def of_nat_port_inj fill_key_inj)
  have "foldl nat_apply (tn_new 60) (fill_events (Suc n)) = nat_apply ?t (Ev_Lookup (V4 (of_nat n), 0) (V4 0, 443), 0)"
    using Suc by (simp add: fill_events_def)
  also have "\<dots> = snd (allocate_port 35536 (fill_key n) 0 ?t)"
    using new(2) by (simp add: tn_lookup_def fill_key_def port_span amap_contains_map_of del: map_of_eq_None_iff)
  also have "\<dots> = ?t\<lparr>tn_next_port := 30000 + of_nat (Suc n),
      tn_by_port := amap_insert (30000 + of_nat n) (session_new (fill_key n) 0) (tn_by_port ?t),
      tn_by_5tuple := amap_insert (fill_key n) (30000 + of_nat n) (tn_by_5tuple ?t)\<rparr>"
    using new(1) Suc.prems by (simp add: first_try port_in_range_fill)
  finally show ?case using new by (simp add: amap_insert_new)
qed

theorem nat_exhausted_only_when_used_witness:
  "fst (tn_lookup (V6 0, 0) (V4 0, 443) 0 (foldl nat_apply (tn_new 60) (fill_events 35536))) = None \<and>
   30000 \<le> tn_len (foldl nat_apply (tn_new 60) (fill_events 35536))"
proof -
  let ?t = "foldl nat_apply (tn_new 60) (fill_events 35536)"
  have "amap_contains (port_in_range raw) (tn_by_port ?t)" for raw
  proof -
    have "port_in_range raw = 30000 + of_nat (unat (raw - 30000) mod 35536)"
      by (simp add: word_unat_eq_iff unat_port_in_range unat_word_ariths unat_of_nat)
    then show ?thesis unfolding fill_run [OF order_refl] by (simp add: fill_port)
  qed
  then have "fst (allocate_port 35536 key 0 ?t) = None" for key by (intro allocate_port_full)
  moreover have "map_of (tn_by_5tuple ?t) \<lparr>nk_source = (V6 0, 0), nk_destination = (V4 0, 443)\<rparr> = None"
    unfolding fill_run [OF order_refl] by (auto simp: map_of_eq_None_iff fill_key_def)
  ultimately have full: "fst (tn_lookup (V6 0, 0) (V4 0, 443) 0 ?t) = None"
    by (simp add: tn_lookup_def port_span)
  then show ?thesis using nat_exhausted_only_when_used [OF refl full] by simp
qed

text \<open>
  The counter wraps at \<open>2\<^sup>1\<^sup>6\<close> while the range has fewer ports, so one round of the search can miss
  the upper part of the range: after all ports were used once and port 65535 was released, a new
  flow is refused although that port is free.
\<close>

theorem nat_refuses_with_free_port:
  "let t = foldl nat_apply (tn_new 60) (fill_events 35536 @ [(Ev_Remove 65535, 0)])
   in \<not> amap_contains 65535 (tn_by_port t) \<and> fst (tn_lookup (V6 0, 0) (V4 0, 443) 0 t) = None"
proof -
  let ?s = "foldl nat_apply (tn_new 60) (fill_events 35536)" and ?k = "fill_key 35535"
  let ?t = "tn_remove 65535 ?k ?s"
  have last: "map_of (tn_by_port ?s) 65535 = Some (session_new ?k 0)"
  proof -
    have "(65535, session_new ?k 0) \<in> set (tn_by_port ?s)"
      unfolding fill_run [OF order_refl] by (auto intro!: image_eqI [of _ _ 35535])
    moreover have "distinct (map fst (tn_by_port ?s))" using nat_wf_run [of 60] by (simp add: nat_wf_def amap_wf_def)
    ultimately show ?thesis by simp
  qed
  have t: "foldl nat_apply (tn_new 60) (fill_events 35536 @ [(Ev_Remove 65535, 0)]) = ?t"
    using last by (simp add: tn_remove_by_port_def)
  have next_port: "tn_next_port ?t = 0" unfolding fill_run [OF order_refl] by (simp add: tn_remove_def)
  have "amap_contains (port_in_range (0 + of_nat j)) (tn_by_port ?t)" if "j < 35536" for j
  proof -
    let ?o = "unat (of_nat j - 30000 :: u16) mod 35536"
    have "unat (of_nat j - 30000 :: u16) = (35536 + j) mod 65536"
      using that by (auto simp: unat_word_ariths unat_of_nat unat_sub_if' mod_if)
    then have "?o < 30000" using that by (auto simp: mod_if)
    moreover have "port_in_range (of_nat j) = 30000 + of_nat ?o"
      by (simp add: word_unat_eq_iff unat_port_in_range unat_word_ariths unat_of_nat)
    moreover have "amap_contains (30000 + of_nat ?o) (tn_by_port ?s)"
      unfolding fill_run [OF order_refl] by (simp add: fill_port)
    moreover have "(30000 + of_nat ?o :: u16) \<noteq> 65535"
      using \<open>?o < 30000\<close> by (simp add: word_unat_eq_iff unat_word_ariths unat_of_nat)
    ultimately show ?thesis by (simp add: tn_by_port_remove)
  qed
  then have "fst (allocate_port 35536 key 0 ?t) = None" for key using next_port by (intro allocate_port_full) simp
  moreover have "map_of (tn_by_5tuple ?t) \<lparr>nk_source = (V6 0, 0), nk_destination = (V4 0, 443)\<rparr> = None"
    unfolding fill_run [OF order_refl] by (auto simp: tn_remove_def amap_remove_def map_of_eq_None_iff fill_key_def)
  moreover have "\<not> amap_contains 65535 (tn_by_port ?t)" by (simp add: tn_by_port_remove)
  ultimately show ?thesis unfolding t by (simp add: tn_lookup_def port_span)
qed

end
