(* ===== verification/Classical_Parse.thy ===== *)
theory Classical_Parse
  imports Route_Match
begin

text \<open>
  The strict parser of line-based rule sets (\<open>core-ruleset/src/parser/txt.rs\<close>) and its data
  (\<open>ClassicalKind\<close>, \<open>ClassicalEntry\<close> of \<open>matcher.rs\<close>).

  The record \<open>class_env\<close> adds to \<open>ext_env\<close> what only these files call: printing of an \<open>IpNet\<close>, \<open>regex::escape\<close>,
  pattern sets (\<open>RegexSet\<close> with and without case, \<open>GlobSet\<close>), and the table of the crates \<open>ip_network\<close> and
  \<open>ip_network_table\<close>. Error texts are shortened and carry no quotation of the input.
\<close>

record class_env =
  cx :: ext_env
  cx_show_net :: "ip_net \<Rightarrow> string"
  cx_escape :: "string \<Rightarrow> string"
  cx_regex_set_ci :: "string list \<Rightarrow> (string \<Rightarrow> bool) option"
  cx_regex_set :: "string list \<Rightarrow> (string \<Rightarrow> bool) option"
  cx_glob_set :: "string list \<Rightarrow> (string \<Rightarrow> bool) option"
  cx_network_parse :: "string \<Rightarrow> ip_net option"
  cx_table_contains :: "ip_net list \<Rightarrow> ip_addr \<Rightarrow> bool"

abbreviation (input) cx_u :: "class_env \<Rightarrow> unicode" where
  "cx_u x \<equiv> x_unicode (cx x)"

datatype classical_kind =
    K_Domain | K_DomainSuffix | K_DomainKeyword | K_DomainRegex | K_DomainWildcard
  | K_GeoSite | K_GeoIp | K_SrcGeoIp | K_IpCidr | K_SrcIpCidr | K_IpSuffix | K_SrcIpSuffix | K_IpAsn | K_SrcIpAsn
  | K_DstPort | K_SrcPort | K_InPort | K_InType | K_InUser | K_InName | K_Dscp | K_Uid
  | K_ProcessName | K_ProcessPath | K_ProcessNameRegex | K_ProcessPathRegex
  | K_ProcessNameWildcard | K_ProcessPathWildcard | K_RematchName | K_Network | K_And | K_Or | K_Not | K_Match

record classical_entry =
  ce_kind :: classical_kind
  ce_value :: string
  ce_policy :: "string option"

definition ascii_upper :: "char \<Rightarrow> char" where
  "ascii_upper c = (let n = of_char c :: nat in if 97 \<le> n \<and> n \<le> 122 then char_of (n - 32) else c)"

definition kind_table :: "(string \<times> classical_kind) list" where
  "kind_table =
    [(''DOMAIN'', K_Domain), (''DOMAIN-SUFFIX'', K_DomainSuffix), (''DOMAIN-KEYWORD'', K_DomainKeyword),
     (''DOMAIN-REGEX'', K_DomainRegex), (''DOMAIN-WILDCARD'', K_DomainWildcard), (''GEOSITE'', K_GeoSite),
     (''GEOIP'', K_GeoIp), (''SRC-GEOIP'', K_SrcGeoIp), (''IP-CIDR'', K_IpCidr), (''IP-CIDR6'', K_IpCidr),
     (''SRC-IP-CIDR'', K_SrcIpCidr), (''IP-SUFFIX'', K_IpSuffix), (''SRC-IP-SUFFIX'', K_SrcIpSuffix),
     (''IP-ASN'', K_IpAsn), (''SRC-IP-ASN'', K_SrcIpAsn), (''DST-PORT'', K_DstPort), (''SRC-PORT'', K_SrcPort),
     (''IN-PORT'', K_InPort), (''IN-TYPE'', K_InType), (''IN-USER'', K_InUser), (''IN-NAME'', K_InName),
     (''DSCP'', K_Dscp), (''UID'', K_Uid), (''PROCESS-NAME'', K_ProcessName), (''PROCESS-PATH'', K_ProcessPath),
     (''PROCESS-NAME-REGEX'', K_ProcessNameRegex), (''PROCESS-PATH-REGEX'', K_ProcessPathRegex),
     (''PROCESS-NAME-WILDCARD'', K_ProcessNameWildcard), (''PROCESS-PATH-WILDCARD'', K_ProcessPathWildcard),
     (''REMATCH-NAME'', K_RematchName), (''NETWORK'', K_Network), (''AND'', K_And), (''OR'', K_Or), (''NOT'', K_Not),
     (''MATCH'', K_Match)]"

definition kind_parse :: "string \<Rightarrow> classical_kind option" where
  "kind_parse s = map_of kind_table (map ascii_upper s)"

section \<open>Values\<close>

definition is_alphanumeric :: "unicode \<Rightarrow> string \<Rightarrow> bool" where
  "is_alphanumeric u ch \<longleftrightarrow>
    (case ch of
       [c] \<Rightarrow> (let n = of_char c :: nat in (48 \<le> n \<and> n \<le> 57) \<or> (65 \<le> n \<and> n \<le> 90) \<or> (97 \<le> n \<and> n \<le> 122))
     | _ \<Rightarrow> uc_alphanumeric u ch)"

definition validate_literal_label :: "class_env \<Rightarrow> string \<Rightarrow> string + unit" where
  "validate_literal_label x lab =
    (if lab = [] then Inl ''domain contains an empty label''
     else if list_all (\<lambda>ch. is_alphanumeric (cx_u x) ch \<or> ch = ''-'' \<or> ch = ''_'') (utf8_chars lab) then Inr ()
     else Inl ''domain label contains unsupported characters'')"

definition validate_literal_domain :: "class_env \<Rightarrow> string \<Rightarrow> string + unit" where
  "validate_literal_domain x value =
    (let value = trim_end_matches CHR ''.'' value
     in if value = [] then Inl ''domain is empty''
        else and_then (collect_results (map (validate_literal_label x) (split_on CHR ''.'' value))) (\<lambda>_. Inr ()))"

definition normalize_literal_domain :: "class_env \<Rightarrow> string \<Rightarrow> string + string" where
  "normalize_literal_domain x value =
    (case x_domain_to_ascii (cx x) (trim_end_matches CHR ''.'' value) of
       None \<Rightarrow> Inl ''invalid internationalized domain''
     | Some a \<Rightarrow> (let normalized = to_lowercase (cx_u x) a
         in and_then (validate_literal_domain x normalized) (\<lambda>_. Inr normalized)))"

definition normalize_literal_label :: "class_env \<Rightarrow> string \<Rightarrow> string + string" where
  "normalize_literal_label x lab =
    (case x_domain_to_ascii (cx x) lab of
       None \<Rightarrow> Inl ''invalid internationalized domain label''
     | Some a \<Rightarrow> (let normalized = to_lowercase (cx_u x) a
         in and_then (validate_literal_label x normalized) (\<lambda>_. Inr normalized)))"

definition validate_mihomo_wildcard :: "class_env \<Rightarrow> string \<Rightarrow> string + unit" where
  "validate_mihomo_wildcard x pattern =
    (if pattern = [] then Inl ''DOMAIN-WILDCARD value cannot be empty''
     else if \<exists>c \<in> set pattern. c \<in> {CHR ''['', CHR '']'', CHR ''{'', CHR ''}''}
     then Inl ''DOMAIN-WILDCARD only supports * and ? wildcards''
     else case x_glob (cx x) pattern of None \<Rightarrow> Inl ''invalid DOMAIN-WILDCARD'' | Some _ \<Rightarrow> Inr ())"

definition normalize_wildcard_domain :: "class_env \<Rightarrow> string \<Rightarrow> string + string" where
  "normalize_wildcard_domain x pattern =
    and_then (collect_results (map (\<lambda>lab.
        if CHR ''*'' \<in> set lab \<or> CHR ''?'' \<in> set lab then Inr (to_lowercase (cx_u x) lab)
        else normalize_literal_label x lab) (split_on CHR ''.'' pattern)))
      (\<lambda>labels. Inr (join_with ''.'' labels))"

definition normalize_ip_or_cidr :: "class_env \<Rightarrow> string \<Rightarrow> string + string" where
  "normalize_ip_or_cidr x value =
    (case x_parse_net (cx x) value of
       Some net \<Rightarrow> Inr (cx_show_net x net)
     | None \<Rightarrow>
         (case parse_ip value of
            Some (V4 a) \<Rightarrow> Inr (show_ipv4 a @ ''/32'')
          | Some (V6 a) \<Rightarrow> Inr (show_ipv6 a @ ''/128'')
          | None \<Rightarrow> Inl ''not a valid IP address or CIDR prefix''))"

definition normalize_ip_suffix :: "string \<Rightarrow> string + string" where
  "normalize_ip_suffix value =
    (case split_once CHR ''/'' value of
       None \<Rightarrow> Inl ''IP-SUFFIX is missing its bit count''
     | Some (address, bits) \<Rightarrow>
         (case parse_ip address of
            None \<Rightarrow> Inl ''invalid IP-SUFFIX address''
          | Some a \<Rightarrow>
              (case parse_unsigned 256 bits of
                 None \<Rightarrow> Inl ''invalid IP-SUFFIX bit count''
               | Some b \<Rightarrow>
                   if (case a of V4 _ \<Rightarrow> 32 | V6 _ \<Rightarrow> 128) < b then Inl ''IP-SUFFIX bit count exceeds width''
                   else Inr (show_ip a @ ''/'' @ show_nat b))))"

definition parse_asn :: "class_env \<Rightarrow> string \<Rightarrow> u32 option" where
  "parse_asn x value =
    map_option of_nat (parse_unsigned (2 ^ 32)
      (dropWhile (\<lambda>c. c \<in> {CHR ''A'', CHR ''a'', CHR ''S'', CHR ''s''}) (trim (cx_u x) value)))"

definition validate_port_range :: "string \<Rightarrow> string + unit" where
  "validate_port_range value =
    (case split_once CHR ''-'' value of
       Some (start, stop) \<Rightarrow>
         if CHR ''-'' \<in> set stop then Inl ''invalid port range''
         else (case parse_unsigned (2 ^ 16) start of
                 None \<Rightarrow> Inl ''invalid port''
               | Some a \<Rightarrow>
                   (case parse_unsigned (2 ^ 16) stop of
                      None \<Rightarrow> Inl ''invalid port''
                    | Some b \<Rightarrow> if b < a then Inl ''port range start exceeds end'' else Inr ()))
     | None \<Rightarrow> (case parse_unsigned (2 ^ 16) value of None \<Rightarrow> Inl ''invalid port'' | Some _ \<Rightarrow> Inr ()))"

section \<open>Commas and parentheses\<close>

fun extend_first :: "char \<Rightarrow> string list \<Rightarrow> string list" where
  "extend_first c (p # ps) = (c # p) # ps"
| "extend_first c [] = [[c]]"

fun split_depth :: "nat \<Rightarrow> string \<Rightarrow> string list" where
  "split_depth depth [] = [[]]"
| "split_depth depth (c # cs) =
    (if c = CHR ''('' then extend_first c (split_depth (depth + 1) cs)
     else if c = CHR '')'' then extend_first c (split_depth (depth - 1) cs)
     else if c = CHR '','' \<and> depth = 0 then [] # split_depth depth cs
     else extend_first c (split_depth depth cs))"

definition split_top_level_commas :: "unicode \<Rightarrow> string \<Rightarrow> string list" where
  "split_top_level_commas u value = map (trim u) (split_depth 0 value)"

fun closes_at_end :: "nat \<Rightarrow> string \<Rightarrow> bool" where
  "closes_at_end depth [] \<longleftrightarrow> depth = 0"
| "closes_at_end depth (c # cs) \<longleftrightarrow>
    (if c = CHR ''('' then closes_at_end (depth + 1) cs
     else if c = CHR '')'' then depth \<noteq> 0 \<and> \<not> (depth - 1 = 0 \<and> cs \<noteq> []) \<and> closes_at_end (depth - 1) cs
     else closes_at_end depth cs)"

definition strip_parentheses :: "unicode \<Rightarrow> string \<Rightarrow> string option" where
  "strip_parentheses u value =
    (let value = trim u value
     in if \<not> starts_with ''('' value \<or> \<not> ends_with '')'' value then None
        else if closes_at_end 0 value then Some (slice 1 (length value - 1) value) else None)"

section \<open>One classical line\<close>

text \<open>The trailing options, from the last part back; \<open>end\<close> is the number of parts before them.\<close>

definition takes_options :: "classical_kind \<Rightarrow> bool" where
  "takes_options kind \<longleftrightarrow> kind \<in> {K_IpCidr, K_IpSuffix, K_GeoIp, K_IpAsn}"

fun trailing_options :: "classical_kind \<Rightarrow> string list \<Rightarrow> nat \<Rightarrow> bool \<Rightarrow> bool \<Rightarrow> string + nat \<times> bool \<times> bool" where
  "trailing_options kind parts value_end source_modifier no_resolve =
    (if value_end \<le> 2 then Inr (value_end, source_modifier, no_resolve)
     else let option = parts ! (value_end - 1)
          in if \<not> eq_ignore_ascii_case option ''no-resolve'' \<and> \<not> eq_ignore_ascii_case option ''src''
             then Inr (value_end, source_modifier, no_resolve)
             else if option = [] then Inl ''classical rule contains an empty trailing field''
             else if eq_ignore_ascii_case option ''no-resolve''
             then if \<not> takes_options kind then Inl ''no-resolve is not valid here''
                  else if no_resolve then Inl ''duplicate no-resolve options''
                  else trailing_options kind parts (value_end - 1) source_modifier True
             else if \<not> takes_options kind then Inl ''src is not valid here''
             else if source_modifier then Inl ''duplicate src options''
             else trailing_options kind parts (value_end - 1) True no_resolve)"

declare trailing_options.simps [simp del]

definition is_logical :: "classical_kind \<Rightarrow> bool" where
  "is_logical kind \<longleftrightarrow> kind \<in> {K_And, K_Or, K_Not}"

text \<open>The value of every kind but the logical ones and \<open>MATCH\<close>.\<close>

definition normalize_value :: "class_env \<Rightarrow> classical_kind \<Rightarrow> string \<Rightarrow> string + string" where
  "normalize_value x kind raw =
    (case kind of
       K_Domain \<Rightarrow> normalize_literal_domain x raw
     | K_DomainSuffix \<Rightarrow> normalize_literal_domain x (trim_end_matches CHR ''.'' (trim_start_matches CHR ''.'' raw))
     | K_DomainKeyword \<Rightarrow> if raw = [] then Inl ''DOMAIN-KEYWORD value cannot be empty'' else Inr (to_ascii_lowercase raw)
     | K_DomainRegex \<Rightarrow> (case x_fancy (cx x) raw of None \<Rightarrow> Inl ''invalid DOMAIN-REGEX'' | Some _ \<Rightarrow> Inr raw)
     | K_DomainWildcard \<Rightarrow> and_then (validate_mihomo_wildcard x raw) (\<lambda>_. normalize_wildcard_domain x raw)
     | K_IpCidr \<Rightarrow> normalize_ip_or_cidr x raw
     | K_SrcIpCidr \<Rightarrow> normalize_ip_or_cidr x raw
     | K_IpSuffix \<Rightarrow> normalize_ip_suffix raw
     | K_SrcIpSuffix \<Rightarrow> normalize_ip_suffix raw
     | K_IpAsn \<Rightarrow> (case parse_asn x raw of None \<Rightarrow> Inl ''invalid ASN'' | Some n \<Rightarrow> Inr (show_nat (unat n)))
     | K_SrcIpAsn \<Rightarrow> (case parse_asn x raw of None \<Rightarrow> Inl ''invalid ASN'' | Some n \<Rightarrow> Inr (show_nat (unat n)))
     | K_DstPort \<Rightarrow> and_then (validate_port_range raw) (\<lambda>_. Inr raw)
     | K_SrcPort \<Rightarrow> and_then (validate_port_range raw) (\<lambda>_. Inr raw)
     | K_InPort \<Rightarrow> and_then (validate_port_range raw) (\<lambda>_. Inr raw)
     | K_ProcessName \<Rightarrow> Inr raw
     | K_ProcessPath \<Rightarrow> Inr raw
     | K_ProcessNameRegex \<Rightarrow> (case x_regex (cx x) raw of None \<Rightarrow> Inl ''invalid regex'' | Some _ \<Rightarrow> Inr raw)
     | K_ProcessPathRegex \<Rightarrow> (case x_regex (cx x) raw of None \<Rightarrow> Inl ''invalid regex'' | Some _ \<Rightarrow> Inr raw)
     | K_ProcessNameWildcard \<Rightarrow> and_then (validate_mihomo_wildcard x raw) (\<lambda>_. Inr raw)
     | K_ProcessPathWildcard \<Rightarrow> and_then (validate_mihomo_wildcard x raw) (\<lambda>_. Inr raw)
     | K_Network \<Rightarrow> (let v = to_ascii_lowercase raw
         in if v = ''tcp'' \<or> v = ''udp'' then Inr v else Inl ''NETWORK must be tcp or udp'')
     | K_Dscp \<Rightarrow> (case parse_unsigned 256 raw of None \<Rightarrow> Inl ''invalid DSCP'' | Some n \<Rightarrow> Inr (show_nat n))
     | K_Uid \<Rightarrow> (case parse_unsigned (2 ^ 32) raw of None \<Rightarrow> Inl ''invalid UID'' | Some n \<Rightarrow> Inr (show_nat n))
     | _ \<Rightarrow> if raw = [] then Inl ''value cannot be empty'' else Inr (to_ascii_lowercase raw))"

definition normalized_kind :: "classical_kind \<Rightarrow> bool \<Rightarrow> classical_kind" where
  "normalized_kind kind source_modifier =
    (if source_modifier
     then (case kind of K_IpCidr \<Rightarrow> K_SrcIpCidr | K_IpSuffix \<Rightarrow> K_SrcIpSuffix | K_GeoIp \<Rightarrow> K_SrcGeoIp | K_IpAsn \<Rightarrow> K_SrcIpAsn | k \<Rightarrow> k)
     else kind)"

text \<open>The kind of a line, its raw value and its options.\<close>

definition classical_fields :: "class_env \<Rightarrow> string \<Rightarrow> string + classical_kind \<times> string \<times> bool \<times> bool" where
  "classical_fields x value =
    (let parts = split_top_level_commas (cx_u x) value
     in case parts of
          [] \<Rightarrow> Inl ''classical rule is missing its kind''
        | kind_name # _ \<Rightarrow>
            if kind_name = [] then Inl ''classical rule is missing its kind''
            else (case kind_parse kind_name of
                    None \<Rightarrow> Inl ''unsupported classical rule kind''
                  | Some kind \<Rightarrow>
                      if kind = K_Match
                      then if length parts \<noteq> 1 then Inl ''MATCH does not accept a payload'' else Inr (kind, [], False, False)
                      else if length parts < 2 then Inl ''classical rule is missing its value''
                      else and_then (trailing_options kind parts (length parts) False False)
                        (\<lambda>(value_end, source_modifier, no_resolve).
                          let raw = trim (cx_u x) (join_with '','' (slice 1 value_end parts))
                          in if raw = [] then Inl ''classical rule is missing its value''
                             else Inr (kind, raw, source_modifier, no_resolve))))"

text \<open>\<open>parse_logical_payload\<close> with the parser of the children as an argument.\<close>

definition check_children :: "classical_kind \<Rightarrow> classical_entry list \<Rightarrow> string + classical_entry list" where
  "check_children kind kids =
    (if (kind = K_And \<or> kind = K_Or) \<and> 2 \<le> length kids then Inr kids
     else if kind = K_Not \<and> length kids = 1 then Inr kids
     else if kind = K_Not then Inl ''NOT requires exactly one child''
     else if kind = K_And \<or> kind = K_Or then Inl ''AND/OR require at least two children''
     else Inl ''not a logical rule'')"

definition logical_payload :: "(string \<Rightarrow> string + classical_entry) \<Rightarrow> class_env \<Rightarrow> classical_kind \<Rightarrow> string \<Rightarrow> string + classical_entry list" where
  "logical_payload f x kind payload =
    (case strip_parentheses (cx_u x) payload of
       None \<Rightarrow> Inl ''payload requires outer parentheses''
     | Some inner \<Rightarrow>
         and_then (collect_results (map (\<lambda>child.
             case strip_parentheses (cx_u x) child of
               None \<Rightarrow> Inl ''logical child requires parentheses''
             | Some line \<Rightarrow> f line) (split_top_level_commas (cx_u x) inner)))
           (check_children kind))"

lemma length_extend_first: "ps \<noteq> [] \<Longrightarrow> p \<in> set (extend_first c ps) \<Longrightarrow> \<forall>q \<in> set ps. length q \<le> n \<Longrightarrow> length p \<le> Suc n"
  by (cases ps) fastforce+

lemma split_depth_nonempty [simp]: "split_depth d s \<noteq> []"
proof -
  have "extend_first c ps \<noteq> []" for c ps by (cases ps) auto
  then show ?thesis by (cases s) auto
qed

lemma split_depth_length: "p \<in> set (split_depth d s) \<Longrightarrow> length p \<le> length s"
proof (induction s arbitrary: d p)
  case (Cons c cs)
  have IH: "\<forall>q \<in> set (split_depth d' cs). length q \<le> length cs" for d' using Cons.IH by blast
  show ?case using Cons.prems
    by (auto split: if_splits intro: length_extend_first [OF split_depth_nonempty _ IH, simplified] dest: Cons.IH simp: le_SucI)
qed simp

lemma strip_parentheses_length: "strip_parentheses u s = Some t \<Longrightarrow> length t < length s"
proof -
  assume t: "strip_parentheses u s = Some t"
  then have "t = slice 1 (length (trim u s) - 1) (trim u s)" "trim u s \<noteq> []"
    by (auto simp: strip_parentheses_def Let_def starts_with_def split: if_splits)
  then have "length t < length (trim u s)" by (cases "trim u s") (auto simp: slice_def)
  then show ?thesis using length_trim [of u s] by linarith
qed

lemma logical_payload_cong [fundef_cong]:
  assumes "x = x'" "kind = kind'" "payload = payload'" "\<And>line. length line < length payload' \<Longrightarrow> f line = g line"
  shows "logical_payload f x kind payload = logical_payload g x' kind' payload'"
proof -
  have "f line = g line" if outer: "strip_parentheses (cx_u x) payload = Some inner"
    and child: "child \<in> set (split_top_level_commas (cx_u x) inner)" and strip: "strip_parentheses (cx_u x) child = Some line"
    for inner child line
  proof -
    obtain piece where "piece \<in> set (split_depth 0 inner)" "child = trim (cx_u x) piece"
      using child by (auto simp: split_top_level_commas_def)
    then have "length child \<le> length inner" using split_depth_length length_trim order_trans by blast
    then show ?thesis
      using strip_parentheses_length [OF outer] strip_parentheses_length [OF strip] assms(3) by (intro assms(4)) simp
  qed
  then show ?thesis using assms(1-3) unfolding logical_payload_def
    by (auto split: option.split intro!: arg_cong [where f = "\<lambda>r. and_then (collect_results r) _"])
qed

lemma length_joined: "ps \<noteq> [] \<Longrightarrow> Suc (length (join_with [c] ps)) = sum_list (map (\<lambda>p. Suc (length p)) ps)"
  by (induction ps rule: induct_list012) auto

lemma split_depth_total: "sum_list (map (\<lambda>p. Suc (length p)) (split_depth d s)) = Suc (length s)"
proof (induction s arbitrary: d)
  case (Cons c cs)
  have "sum_list (map (\<lambda>p. Suc (length p)) (extend_first a ps)) = Suc (sum_list (map (\<lambda>p. Suc (length p)) ps))" if "ps \<noteq> []" for a ps
    using that by (cases ps) auto
  then show ?case using Cons by simp
qed simp

lemma classical_fields_length:
  assumes "classical_fields x value = Inr (kind, raw, src, nr)"
  shows "length raw \<le> length value"
proof -
  define ps where "ps = split_top_level_commas (cx_u x) value"
  have total_ps: "sum_list (map (\<lambda>p. Suc (length p)) ps) \<le> Suc (length value)"
  proof -
    have "sum_list (map (\<lambda>p. Suc (length p)) ps) = sum_list (map (\<lambda>p. Suc (length (trim (cx_u x) p))) (split_depth 0 value))"
      by (simp add: ps_def split_top_level_commas_def o_def)
    also have "\<dots> \<le> sum_list (map (\<lambda>p. Suc (length p)) (split_depth 0 value))"
      by (rule sum_list_mono) (simp add: length_trim)
    finally show ?thesis by (simp add: split_depth_total)
  qed
  have part: "length (join_with '','' (slice 1 n ps)) \<le> length value" for n
  proof (cases "slice 1 n ps = []")
    case False
    have "ps = take 1 ps @ slice 1 n ps @ drop (n - 1) (drop 1 ps)" by (metis append_take_drop_id slice_def)
    then have "sum_list (map (\<lambda>p. Suc (length p)) (slice 1 n ps)) \<le> sum_list (map (\<lambda>p. Suc (length p)) ps)"
      by (metis (no_types, lifting) le_add1 le_add2 map_append order_trans sum_list_append)
    then show ?thesis using length_joined [OF False, of "CHR '',''"] total_ps by simp
  qed simp
  show ?thesis using assms part order_trans [OF length_trim]
    by (auto simp: classical_fields_def Let_def ps_def [symmetric] and_then_Inr_iff split: list.splits if_splits option.splits prod.splits)
qed

function parse_classical_line_strict :: "class_env \<Rightarrow> string \<Rightarrow> string + classical_entry" where
  "parse_classical_line_strict x value =
    (case classical_fields x value of
       Inl e \<Rightarrow> Inl e
     | Inr (kind, raw, source_modifier, no_resolve) \<Rightarrow>
         if kind = K_Match then Inr \<lparr>ce_kind = kind, ce_value = [], ce_policy = None\<rparr>
         else and_then
           (if is_logical kind
            then and_then (logical_payload (parse_classical_line_strict x) x kind raw) (\<lambda>_. Inr raw)
            else normalize_value x kind raw)
           (\<lambda>v. Inr \<lparr>ce_kind = normalized_kind kind source_modifier, ce_value = v,
              ce_policy = (if no_resolve then Some ''no-resolve'' else None)\<rparr>))"
  by pat_completeness auto
termination
  by (relation "measure (\<lambda>(x, value). length value)") (auto dest!: classical_fields_length)

declare parse_classical_line_strict.simps [simp del]

definition parse_logical_payload :: "class_env \<Rightarrow> classical_kind \<Rightarrow> string \<Rightarrow> string + classical_entry list" where
  "parse_logical_payload x kind payload = logical_payload (parse_classical_line_strict x) x kind payload"

section \<open>The other kinds of line\<close>

definition entry_of :: "classical_kind \<Rightarrow> string \<Rightarrow> classical_entry" where
  "entry_of kind value = \<lparr>ce_kind = kind, ce_value = value, ce_policy = None\<rparr>"

definition strip_prefix :: "string \<Rightarrow> string \<Rightarrow> string option" where
  "strip_prefix p s = (if starts_with p s then Some (drop (length p) s) else None)"

definition wildcard_label :: "class_env \<Rightarrow> string \<Rightarrow> string + string" where
  "wildcard_label x lab =
    (if lab = ''*'' then Inr ''[^.]+''
     else if CHR ''*'' \<in> set lab then Inl ''* wildcard must occupy a complete domain label''
     else and_then (normalize_literal_label x lab) (\<lambda>l. Inr (cx_escape x l)))"

definition parse_domain_pattern :: "class_env \<Rightarrow> string \<Rightarrow> string + classical_entry" where
  "parse_domain_pattern x value =
    (if CHR '','' \<in> set value then Inl ''domain behavior does not accept classical rules''
     else if parse_ip value \<noteq> None \<or> x_parse_net (cx x) value \<noteq> None
     then Inl ''domain behavior does not accept IP addresses or CIDR prefixes''
     else
       (let value = trim_end_matches CHR ''.'' value
        in if value = [] then Inl ''domain pattern is empty''
           else
             (let normalized = to_lowercase (cx_u x) value
              in case strip_prefix ''+.'' normalized of
                   Some sfx \<Rightarrow> and_then (normalize_literal_domain x sfx) (\<lambda>d. Inr (entry_of K_DomainSuffix d))
                 | None \<Rightarrow>
                     (case strip_prefix ''.'' normalized of
                        Some sfx \<Rightarrow> and_then (normalize_literal_domain x sfx)
                          (\<lambda>d. Inr (entry_of K_DomainRegex (''^(?:[^.]+'' @ [CHR 0x5C] @ ''.)+'' @ cx_escape x d @ ''$'')))
                      | None \<Rightarrow>
                          if CHR ''+'' \<in> set normalized then Inl ''+ wildcard is only valid as the leading prefix''
                          else
                            (let labels = split_on CHR ''.'' normalized
                             in if list_ex (\<lambda>l. CHR ''*'' \<in> set l) labels
                                then and_then (collect_results (map (wildcard_label x) labels))
                                  (\<lambda>ls. Inr (entry_of K_DomainRegex (''^'' @ join_with ([CHR 0x5C] @ ''.'') ls @ ''$'')))
                                else and_then (normalize_literal_domain x normalized) (\<lambda>d. Inr (entry_of K_Domain d)))))))"

definition parse_ipcidr_value :: "class_env \<Rightarrow> string \<Rightarrow> string + classical_entry" where
  "parse_ipcidr_value x value =
    (if CHR '','' \<in> set value then Inl ''ipcidr behavior does not accept classical rules''
     else and_then (normalize_ip_or_cidr x value) (\<lambda>v. Inr (entry_of K_IpCidr v)))"

definition parse_mixed_line_strict :: "class_env \<Rightarrow> string \<Rightarrow> string + classical_entry" where
  "parse_mixed_line_strict x value =
    (if CHR '','' \<in> set value then parse_classical_line_strict x value
     else if parse_ip value \<noteq> None \<or> x_parse_net (cx x) value \<noteq> None then parse_ipcidr_value x value
     else parse_domain_pattern x value)"

datatype ruleset_type = T_Domain | T_Ipcidr | T_Classical | T_Mixed

datatype parse_error = Utf8_Error | BadLine string

definition is_ignorable :: "string \<Rightarrow> bool" where
  "is_ignorable value \<longleftrightarrow> value = [] \<or> starts_with ''#'' value \<or> starts_with ''//'' value \<or> starts_with '';'' value"

definition parse_typed_line :: "class_env \<Rightarrow> ruleset_type \<Rightarrow> string \<Rightarrow> string + classical_entry" where
  "parse_typed_line x ty line =
    (case ty of
       T_Domain \<Rightarrow> parse_domain_pattern x line
     | T_Ipcidr \<Rightarrow> parse_ipcidr_value x line
     | T_Classical \<Rightarrow> parse_classical_line_strict x line
     | T_Mixed \<Rightarrow> parse_mixed_line_strict x line)"

fun parse_lines :: "class_env \<Rightarrow> ruleset_type \<Rightarrow> nat \<Rightarrow> string list \<Rightarrow> parse_error + classical_entry list" where
  "parse_lines x ty n [] = Inr []"
| "parse_lines x ty n (line # rest) =
    (let trimmed = trim (cx_u x) line
     in if is_ignorable trimmed then parse_lines x ty (n + 1) rest
        else case parse_typed_line x ty trimmed of
            Inl e \<Rightarrow> Inl (BadLine (''line '' @ show_nat (n + 1) @ '': '' @ e))
          | Inr entry \<Rightarrow> and_then (parse_lines x ty (n + 1) rest) (\<lambda>es. Inr (entry # es)))"

definition parse_lines_for_type :: "class_env \<Rightarrow> string list \<Rightarrow> ruleset_type \<Rightarrow> parse_error + classical_entry list" where
  "parse_lines_for_type x text_lines ty =
    and_then (parse_lines x ty 0 text_lines)
      (\<lambda>entries. if list_ex (\<lambda>e. ce_kind e = K_DomainRegex \<and> x_fancy (cx x) (ce_value e) = None) entries
         then Inl (BadLine ''DOMAIN-REGEX cannot be compiled'') else Inr entries)"

definition parse_for_type :: "class_env \<Rightarrow> bytes \<Rightarrow> ruleset_type \<Rightarrow> parse_error + classical_entry list" where
  "parse_for_type x body ty =
    (case from_utf8 body of
       None \<Rightarrow> Inl Utf8_Error
     | Some txt \<Rightarrow> parse_lines_for_type x (str_lines txt) ty)"

section \<open>What the parser guarantees\<close>

text \<open>Patterns on processes that compile: every accepted line has this, and every child of a logical line.\<close>

definition patterns_ok :: "class_env \<Rightarrow> classical_entry \<Rightarrow> bool" where
  "patterns_ok x e \<longleftrightarrow>
    (ce_kind e \<in> {K_ProcessNameRegex, K_ProcessPathRegex} \<longrightarrow> x_regex (cx x) (ce_value e) \<noteq> None) \<and>
    (ce_kind e \<in> {K_ProcessNameWildcard, K_ProcessPathWildcard} \<longrightarrow> x_glob (cx x) (ce_value e) \<noteq> None)"

lemma normalized_kind_process:
  "normalized_kind kind src \<in> {K_ProcessNameRegex, K_ProcessPathRegex, K_ProcessNameWildcard, K_ProcessPathWildcard, K_And, K_Or, K_Not} \<Longrightarrow>
     normalized_kind kind src = kind"
  by (cases kind) (auto simp: normalized_kind_def split: if_splits)

lemma classical_line_patterns: "parse_classical_line_strict x value = Inr e \<Longrightarrow> patterns_ok x e"
proof -
  assume "parse_classical_line_strict x value = Inr e"
  then obtain kind raw src nr where f: "classical_fields x value = Inr (kind, raw, src, nr)"
    and e: "e = \<lparr>ce_kind = K_Match, ce_value = [], ce_policy = None\<rparr> \<or>
      (ce_kind e = normalized_kind kind src \<and>
       ((is_logical kind \<and> ce_value e = raw) \<or> (\<not> is_logical kind \<and> normalize_value x kind raw = Inr (ce_value e))))"
    by (subst (asm) parse_classical_line_strict.simps)
      (auto simp: and_then_Inr_iff split: sum.splits prod.splits if_splits)
  show ?thesis
  proof (cases "ce_kind e \<in> {K_ProcessNameRegex, K_ProcessPathRegex, K_ProcessNameWildcard, K_ProcessPathWildcard}")
    case True
    then have "ce_kind e = kind" "\<not> is_logical kind" "normalize_value x kind raw = Inr (ce_value e)"
      using e normalized_kind_process [of kind src] by (auto simp: is_logical_def)
    then show ?thesis
      by (cases kind) (auto simp: patterns_ok_def normalize_value_def and_then_Inr_iff validate_mihomo_wildcard_def split: option.splits if_splits)
  qed (auto simp: patterns_ok_def)
qed

lemma entry_of_patterns [simp]: "k \<in> {K_Domain, K_DomainSuffix, K_DomainRegex, K_IpCidr} \<Longrightarrow> patterns_ok x (entry_of k v)"
  by (auto simp: patterns_ok_def entry_of_def)

lemma typed_line_patterns: "parse_typed_line x ty line = Inr e \<Longrightarrow> patterns_ok x e"
  by (cases ty)
    (auto simp: parse_typed_line_def parse_mixed_line_strict_def parse_domain_pattern_def parse_ipcidr_value_def and_then_Inr_iff
      Let_def intro: classical_line_patterns split: if_splits option.splits)

lemma parse_lines_patterns: "parse_lines x ty n ls = Inr es \<Longrightarrow> \<forall>e \<in> set es. patterns_ok x e"
proof (induction ls arbitrary: n es)
  case (Cons line ls)
  then show ?case
    by (auto simp: Let_def and_then_Inr_iff dest: typed_line_patterns split: if_splits sum.splits)
qed simp

lemma parse_for_type_patterns: "parse_for_type x body ty = Inr es \<Longrightarrow> \<forall>e \<in> set es. patterns_ok x e"
  by (auto simp: parse_for_type_def parse_lines_for_type_def and_then_Inr_iff dest: parse_lines_patterns split: option.splits if_splits)

end
