(* ===== verification/Suffix_Trie.thy ===== *)
theory Suffix_Trie
  imports Ruleset_IR "HOL-Library.AList"
begin

text \<open>
  The trie of domain suffixes of a classical rule set (\<open>core-ruleset/src/matcher.rs\<close>, \<open>SuffixTrie\<close>): names
  are cut at the dots and stored from the last label on. The children of a node are an association list
  in place of the hash map.
\<close>

datatype trie_node = Trie_Node (trie_children: "(string \<times> trie_node) list") (trie_terminal: bool)

record suffix_trie =
  st_root :: trie_node
  st_count :: nat

definition trie_default :: suffix_trie where
  "trie_default = \<lparr>st_root = Trie_Node [] False, st_count = 0\<rparr>"

fun node_insert :: "string list \<Rightarrow> trie_node \<Rightarrow> trie_node" where
  "node_insert [] node = Trie_Node (trie_children node) True"
| "node_insert (seg # segs) node =
    Trie_Node (AList.update seg
        (node_insert segs (case map_of (trie_children node) seg of Some child \<Rightarrow> child | None \<Rightarrow> Trie_Node [] False))
        (trie_children node))
      (trie_terminal node)"

definition trim_matches :: "char \<Rightarrow> string \<Rightarrow> string" where
  "trim_matches c s = trim_end_matches c (trim_start_matches c s)"

definition rsplit :: "char \<Rightarrow> string \<Rightarrow> string list" where
  "rsplit c s = rev (split_on c s)"

definition trie_insert :: "ext_env \<Rightarrow> string \<Rightarrow> suffix_trie \<Rightarrow> suffix_trie" where
  "trie_insert x value t =
    (let sfx = normalize_domain x (trim_matches CHR ''.'' value)
     in if sfx = [] then t
        else t\<lparr>st_root := node_insert (rsplit CHR ''.'' sfx) (st_root t), st_count := st_count t + 1\<rparr>)"

fun node_matches :: "string list \<Rightarrow> trie_node \<Rightarrow> bool" where
  "node_matches [] node \<longleftrightarrow> trie_terminal node"
| "node_matches (seg # segs) node \<longleftrightarrow>
    (case map_of (trie_children node) seg of
       Some child \<Rightarrow> if trie_terminal child then True else node_matches segs child
     | None \<Rightarrow> False)"

definition trie_matches :: "string \<Rightarrow> suffix_trie \<Rightarrow> bool" where
  "trie_matches host t \<longleftrightarrow>
    (let host = trim_end_matches CHR ''.'' host
     in if host = [] then False else node_matches (rsplit CHR ''.'' host) (st_root t))"

section \<open>What the trie contains\<close>

fun on_path :: "string list \<Rightarrow> trie_node \<Rightarrow> bool" where
  "on_path [] node \<longleftrightarrow> trie_terminal node"
| "on_path (seg # segs) node \<longleftrightarrow> (case map_of (trie_children node) seg of Some child \<Rightarrow> on_path segs child | None \<Rightarrow> False)"

lemma on_path_empty [simp]: "\<not> on_path p (Trie_Node [] False)"
  by (cases p) auto

lemma on_path_insert: "on_path p (node_insert q node) \<longleftrightarrow> p = q \<or> on_path p node"
proof (induction q arbitrary: p node)
  case Nil
  then show ?case by (cases p) auto
next
  case (Cons seg segs)
  show ?case
  proof (cases p)
    case (Cons seg' segs')
    then show ?thesis using Cons.IH by (auto simp: update_conv' split: option.splits)
  qed simp
qed

lemma node_matches_iff:
  "node_matches segs node \<longleftrightarrow> (segs = [] \<and> trie_terminal node) \<or> (\<exists>p. p \<noteq> [] \<and> prefix p segs \<and> on_path p node)"
proof (induction segs arbitrary: node)
  case (Cons seg segs)
  have "(\<exists>p. p \<noteq> [] \<and> prefix p (seg # segs) \<and> on_path p node) \<longleftrightarrow> (\<exists>p. prefix p segs \<and> on_path (seg # p) node)"
    by (metis list.distinct(1) prefix_Cons prefix_Cons [of "seg # _"])
  also have "\<dots> \<longleftrightarrow> (case map_of (trie_children node) seg of None \<Rightarrow> False
      | Some child \<Rightarrow> trie_terminal child \<or> (\<exists>p. p \<noteq> [] \<and> prefix p segs \<and> on_path p child))"
  proof (cases "map_of (trie_children node) seg")
    case (Some child)
    have "(\<exists>p. prefix p segs \<and> on_path p child) \<longleftrightarrow> on_path [] child \<or> (\<exists>p. p \<noteq> [] \<and> prefix p segs \<and> on_path p child)"
      by (metis Nil_prefix)
    then show ?thesis using Some by simp
  qed simp
  finally show ?case using Cons.IH by (auto split: option.splits)
qed auto

section \<open>Labels and suffixes\<close>

lemma split_on_nonempty [simp]: "split_on c s \<noteq> []"
  by (cases s) (auto split: list.split)

lemma split_on_append: "split_on c (a @ c # b) = split_on c a @ split_on c b"
  by (induction a) (auto split: list.split)

lemma split_on_join: "concat (map (\<lambda>p. c # p) (split_on c s)) = c # s"
proof (induction s)
  case (Cons x s)
  then show ?case by (auto split: list.split)
qed simp

lemma rsplit_prefix_iff: "prefix (rsplit c s) (rsplit c host) \<longleftrightarrow> host = s \<or> (\<exists>r. host = r @ c # s)"
proof
  assume "prefix (rsplit c s) (rsplit c host)"
  then obtain ls where ls: "split_on c host = ls @ split_on c s"
    unfolding rsplit_def prefix_def by (metis rev_append rev_rev_ident)
  have "c # host = concat (map (\<lambda>p. c # p) ls) @ c # s"
    using split_on_join [of c host] split_on_join [of c s] ls by simp
  then show "host = s \<or> (\<exists>r. host = r @ c # s)" by (cases "concat (map (\<lambda>p. c # p) ls)") auto
next
  assume "host = s \<or> (\<exists>r. host = r @ c # s)"
  then show "prefix (rsplit c s) (rsplit c host)" by (auto simp: rsplit_def split_on_append)
qed

text \<open>A name lies below a suffix when it is the suffix or ends with a dot and the suffix.\<close>

definition below :: "string \<Rightarrow> string \<Rightarrow> bool" where
  "below host sfx \<longleftrightarrow> host = sfx \<or> ends_with (CHR ''.'' # sfx) host"

definition trie_value :: "ext_env \<Rightarrow> string \<Rightarrow> string" where
  "trie_value x value = normalize_domain x (trim_matches CHR ''.'' value)"

definition trie_has :: "suffix_trie \<Rightarrow> string \<Rightarrow> bool" where
  "trie_has t sfx \<longleftrightarrow> sfx \<noteq> [] \<and> on_path (rsplit CHR ''.'' sfx) (st_root t)"

lemma trie_has_default [simp]: "\<not> trie_has trie_default sfx"
  by (simp add: trie_has_def trie_default_def)

lemma rsplit_inj [simp]: "rsplit c s = rsplit c s' \<longleftrightarrow> s = s'"
  unfolding rsplit_def by (metis list.inject rev_rev_ident split_on_join)

lemma trie_has_insert [simp]:
  "trie_has (trie_insert x value t) sfx \<longleftrightarrow> (sfx \<noteq> [] \<and> sfx = trie_value x value) \<or> trie_has t sfx"
  by (auto simp: trie_has_def trie_insert_def trie_value_def on_path_insert Let_def)

text \<open>Every path of the trie is the label list of a name.\<close>

definition trie_wf :: "suffix_trie \<Rightarrow> bool" where
  "trie_wf t \<longleftrightarrow> (\<forall>p. on_path p (st_root t) \<longrightarrow> (\<exists>sfx. sfx \<noteq> [] \<and> p = rsplit CHR ''.'' sfx))"

lemma trie_wf_default [simp]: "trie_wf trie_default"
  by (simp add: trie_wf_def trie_default_def)

lemma trie_wf_insert [simp]: "trie_wf t \<Longrightarrow> trie_wf (trie_insert x value t)"
  by (auto simp: trie_wf_def trie_insert_def on_path_insert Let_def)

lemma trie_matches_iff:
  assumes "trie_wf t"
  shows "trie_matches host t \<longleftrightarrow> (let h = trim_end_matches CHR ''.'' host in h \<noteq> [] \<and> (\<exists>sfx. trie_has t sfx \<and> below h sfx))"
proof -
  define h where "h = trim_end_matches CHR ''.'' host"
  have "(\<exists>p. p \<noteq> [] \<and> prefix p (rsplit CHR ''.'' h) \<and> on_path p (st_root t)) \<longleftrightarrow> (\<exists>sfx. trie_has t sfx \<and> below h sfx)"
    (is "?l \<longleftrightarrow> ?r")
  proof
    assume ?l
    then obtain p where p: "prefix p (rsplit CHR ''.'' h)" "on_path p (st_root t)" by blast
    then obtain sfx where "sfx \<noteq> []" "p = rsplit CHR ''.'' sfx" using assms by (auto simp: trie_wf_def)
    then have "trie_has t sfx \<and> below h sfx" using p by (simp add: trie_has_def below_def rsplit_prefix_iff ends_with_iff)
    then show ?r ..
  next
    assume ?r
    then obtain sfx where "trie_has t sfx" "below h sfx" by blast
    then have "rsplit CHR ''.'' sfx \<noteq> [] \<and> prefix (rsplit CHR ''.'' sfx) (rsplit CHR ''.'' h) \<and> on_path (rsplit CHR ''.'' sfx) (st_root t)"
      by (simp add: trie_has_def below_def rsplit_prefix_iff ends_with_iff) (simp add: rsplit_def)
    then show ?l by blast
  qed
  then show ?thesis by (simp add: trie_matches_def node_matches_iff h_def [symmetric] Let_def rsplit_def)
qed

end
