(* ===== verification/Std_Bits.thy ===== *)
theory Std_Bits
  imports WC_Prelude
begin

text \<open>
  Bit counting on machine words, as the integer types of Rust have it: \<open>trailing_zeros\<close> and \<open>count_ones\<close>,
  with the positions of the set bits in ascending order as the reference.
\<close>

fun low_zeros :: "nat \<Rightarrow> 'a::len word \<Rightarrow> nat" where
  "low_zeros 0 w = 0"
| "low_zeros (Suc n) w = (if bit w 0 then 0 else Suc (low_zeros n (drop_bit 1 w)))"

definition trailing_zeros :: "'a::len word \<Rightarrow> nat" where
  "trailing_zeros w = low_zeros (LENGTH('a)) w"

lemma drop_bit_unat: "unat (drop_bit k w) = drop_bit k (unat w)"
  by (rule bit_eqI) (simp add: bit_unsigned_iff bit_drop_bit_eq)

lemma unat_power_two: "k < LENGTH('a) \<Longrightarrow> unat (push_bit k 1 :: 'a::len word) = 2 ^ k"
  by (rule bit_eqI) (auto simp: bit_unsigned_iff bit_exp_iff)

lemma low_zeros_dvd: "low_zeros n w \<le> n \<and> 2 ^ low_zeros n w dvd unat w"
proof (induction n arbitrary: w)
  case (Suc n)
  show ?case
  proof (cases "bit w 0")
    case False
    then have "\<not> bit (unat w) 0" by (simp add: bit_unsigned_iff)
    then have "even (unat w)" by (simp only: bit_0 not_not)
    moreover have "unat (drop_bit 1 w) = unat w div 2" 
      by (subst drop_bit_unat) (simp add: drop_bit_eq_div)
    ultimately have "unat w = 2 * unat (drop_bit 1 w)" by simp
    then show ?thesis using Suc.IH [of "drop_bit 1 w"] False by simp
  qed simp
qed simp

lemma low_zeros_exact: "low_zeros n w < n \<Longrightarrow> \<not> 2 ^ Suc (low_zeros n w) dvd unat w"
proof (induction n arbitrary: w)
  case (Suc n)
  have half: "unat (drop_bit 1 w) = unat w div 2" by (subst drop_bit_unat) (simp add: drop_bit_eq_div)
  have low: "bit w 0 \<longleftrightarrow> odd (unat w)"
  proof -
    have "bit (unat w) 0 \<longleftrightarrow> bit w 0" by (simp add: bit_unsigned_iff)
    then show ?thesis by (simp only: bit_0)
  qed
  show ?case
  proof (cases "bit w 0")
    case False
    then have "unat w = 2 * unat (drop_bit 1 w)" using low half by simp
    then show ?thesis using Suc False by simp
  qed (simp add: low)
qed simp

lemma bit_unat_le: "bit w k \<Longrightarrow> 2 ^ k \<le> unat (w :: 'a::len word)"
proof -
  assume "bit w k"
  then have "bit (unat w) k" by (simp add: bit_unsigned_iff)
  then have "odd (unat w div 2 ^ k)" by (simp add: bit_iff_odd)
  then have "unat w div 2 ^ k \<noteq> 0" by (cases "unat w div 2 ^ k") auto
  then show ?thesis by (simp add: div_eq_0_iff not_less)
qed

section \<open>Set bits\<close>

text \<open>The positions of the set bits below \<open>k\<close>, in ascending order.\<close>

definition bits_below :: "nat \<Rightarrow> nat \<Rightarrow> nat list" where
  "bits_below k n = filter (bit n) [0..<k]"

definition ones :: "'a::len word \<Rightarrow> nat list" where
  "ones w = filter (bit w) [0..<LENGTH('a)]"

definition count_ones :: "'a::len word \<Rightarrow> nat" where
  "count_ones w = length (filter (bit w) [0..<LENGTH('a)])"

lemma length_ones: "length (ones w) = count_ones w"
  by (simp add: ones_def count_ones_def)

lemma ones_unat: "ones w = bits_below LENGTH('a) (unat w)" for w :: "'a::len word"
  unfolding ones_def bits_below_def by (rule filter_cong) (simp_all add: bit_unsigned_iff)

lemma bits_below_Suc: "bits_below (Suc k) n = (if odd n then [0] else []) @ map Suc (bits_below k (n div 2))"
proof -
  have "[0..<Suc k] = 0 # map Suc [0..<k]" by (simp only: upt_conv_Cons map_Suc_upt zero_less_Suc)
  then show ?thesis by (simp only: bits_below_def) (simp add: filter_map o_def bit_Suc bit_0)
qed

lemma bits_below_0 [simp]: "bits_below 0 n = []" "bits_below k 0 = []"
  by (simp_all add: bits_below_def)

lemma and_pred_odd: "odd n \<Longrightarrow> n AND (n - 1) = n - 1" for n :: nat
  by (subst and_rec) (auto elim!: oddE)

lemma and_pred_even: "even n \<Longrightarrow> n \<noteq> 0 \<Longrightarrow> n AND (n - 1) = 2 * ((n div 2) AND (n div 2 - 1))" for n :: nat
proof -
  assume "even n" "n \<noteq> 0"
  then obtain c where c: "n = 2 * c" "c \<noteq> 0" by (auto elim!: evenE)
  then have "(n - 1) div 2 = c - 1" by simp
  then show ?thesis using c and_rec [of n "n - 1"] by simp
qed

lemma bits_below_clear: "n \<noteq> 0 \<Longrightarrow> n < 2 ^ k \<Longrightarrow> bits_below k (n AND (n - 1)) = tl (bits_below k n)"
proof (induction k arbitrary: n)
  case (Suc k)
  show ?case
  proof (cases "odd n")
    case True
    then obtain b where b: "n = Suc (2 * b)" by (auto elim!: oddE)
    then have "n AND (n - 1) = 2 * b" using and_pred_odd [OF True] by simp
    then show ?thesis using b by (simp add: bits_below_Suc)
  next
    case False
    then have "n div 2 \<noteq> 0" "n div 2 < 2 ^ k" using Suc.prems by auto
    moreover have "n AND (n - 1) = 2 * ((n div 2) AND (n div 2 - 1))" using False Suc.prems(1) and_pred_even by blast
    ultimately show ?thesis using Suc.IH [of "n div 2"] False by (simp add: bits_below_Suc map_tl)
  qed
qed simp

lemma bits_below_Nil: "n < 2 ^ k \<Longrightarrow> bits_below k n = [] \<longleftrightarrow> n = 0"
proof (induction k arbitrary: n)
  case (Suc k)
  have "n div 2 < 2 ^ k" using Suc.prems by auto
  then show ?case using Suc.IH [of "n div 2"] by (auto simp: bits_below_Suc elim!: oddE)
qed simp

lemma ones_clear: "w \<noteq> 0 \<Longrightarrow> ones (w AND (w - 1)) = tl (ones w)" for w :: "'a::len word"
proof -
  assume "w \<noteq> 0"
  then have "unat w \<noteq> 0" by (simp add: unat_eq_zero)
  moreover have "unat (w - 1) = unat w - 1" using \<open>w \<noteq> 0\<close> by (simp add: unat_minus_one)
  ultimately show ?thesis
    using bits_below_clear [of "unat w" "LENGTH('a)"] unat_bound [of w] by (simp add: ones_unat unsigned_and_eq)
qed

lemma ones_Nil_iff: "ones w = [] \<longleftrightarrow> w = 0" for w :: "'a::len word"
  using bits_below_Nil [of "unat w" "LENGTH('a)"] unat_bound [of w] by (simp add: ones_unat unat_eq_zero)

lemma low_zeros_hd: "n \<noteq> 0 \<Longrightarrow> w \<noteq> 0 \<Longrightarrow> unat w < 2 ^ n \<Longrightarrow> low_zeros n w = hd (bits_below n (unat w))"
proof (induction n arbitrary: w)
  case (Suc n)
  have low: "bit w 0 \<longleftrightarrow> odd (unat w)"
  proof -
    have "bit (unat w) 0 \<longleftrightarrow> bit w 0" by (simp add: bit_unsigned_iff)
    then show ?thesis by (simp only: bit_0)
  qed
  have half: "unat (drop_bit 1 w) = unat w div 2" by (subst drop_bit_unat) (simp add: drop_bit_eq_div)
  show ?case
  proof (cases "odd (unat w)")
    case False
    have "unat w \<noteq> 0" using Suc.prems(2) by (simp add: unat_eq_zero)
    then have pos: "unat w div 2 \<noteq> 0" "unat w div 2 < 2 ^ n" using False Suc.prems by (auto elim!: evenE)
    then have "drop_bit 1 w \<noteq> 0" "n \<noteq> 0" using half by (auto simp: unat_eq_zero intro: ccontr)
    moreover have "bits_below n (unat w div 2) \<noteq> []" using bits_below_Nil [OF pos(2)] pos(1) by simp
    ultimately show ?thesis using False low Suc.IH [of "drop_bit 1 w"] half pos by (simp add: bits_below_Suc hd_map)
  qed (simp add: bits_below_Suc low)
qed simp

lemma trailing_zeros_hd: "w \<noteq> 0 \<Longrightarrow> trailing_zeros w = hd (ones w)" for w :: "'a::len word"
  using low_zeros_hd [of "LENGTH('a)" w] unat_bound [of w] by (simp add: trailing_zeros_def ones_unat)

end
