(* ===== verification/Ip_Prefix.thy ===== *)
theory Ip_Prefix
  imports Std_Bits "HOL-Library.Product_Lexorder"
begin

text \<open>
  Destination prefixes of a rule set (\<open>core-ruleset/src/matcher.rs\<close>): closed address ranges cut into
  prefixes, prefixes aggregated in place, and the binary search in sorted ranges. The source has each
  function once for \<open>u32\<close> and once for \<open>u128\<close>; here they are functions on words of any length.

  A prefix of the crate \<open>ipnet\<close> is a value of a type variable with the operations \<open>net_ops\<close>; \<open>new_law\<close>,
  \<open>network_law\<close>, \<open>contains_law\<close> and \<open>supernet_law\<close> state what they are documented to do. \<open>Vec\<close> reservations that
  fail for want of memory are not modelled.
\<close>

section \<open>Ranges cut into prefixes\<close>

definition MAX_IP_PREFIX_SNAPSHOT_ITEMS :: nat where
  "MAX_IP_PREFIX_SNAPSHOT_ITEMS = 4 * 1024 * 1024"

datatype prefix_error = TooManyPrefixes nat | AllocationFailed | InvalidRange string

definition prefix_limit_error :: prefix_error where
  "prefix_limit_error = TooManyPrefixes MAX_IP_PREFIX_SNAPSHOT_ITEMS"

definition checked_prefix_total :: "nat \<Rightarrow> nat \<Rightarrow> prefix_error + nat" where
  "checked_prefix_total v4 v6 =
    (if MAX_IP_PREFIX_SNAPSHOT_ITEMS < v4 + v6 then Inl prefix_limit_error else Inr (v4 + v6))"

text \<open>The position of the highest bit, \<open>BITS - leading_zeros - 1\<close>.\<close>

fun high_bit :: "nat \<Rightarrow> 'a::len word \<Rightarrow> nat" where
  "high_bit 0 w = 0"
| "high_bit (Suc n) w = (if bit w (Suc n) then Suc n else high_bit n w)"

definition range_bits :: "'a::len word \<Rightarrow> nat" where
  "range_bits difference =
    (if difference = - 1 then LENGTH('a) else high_bit (LENGTH('a) - 1) (difference + 1))"

definition reserve_prefix :: "nat \<Rightarrow> prefix_error + nat" where
  "reserve_prefix total_count =
    (if MAX_IP_PREFIX_SNAPSHOT_ITEMS \<le> total_count then Inl prefix_limit_error else Inr (total_count + 1))"

definition host_bits :: "'a::len word \<Rightarrow> 'a word \<Rightarrow> nat" where
  "host_bits start stop = min (trailing_zeros start) (range_bits (stop - start))"

lemma high_bit_le: "high_bit n w \<le> n"
  by (induction n) auto

lemma high_bit_size: "w \<noteq> 0 \<Longrightarrow> 2 ^ high_bit n w \<le> unat w"
proof (induction n)
  case (Suc n)
  then show ?case using bit_unat_le [of w "Suc n"] by simp
qed (simp add: unat_gt_0 Suc_le_eq)

lemma unat_Suc: "d \<noteq> - 1 \<Longrightarrow> unat (d + 1) = unat d + 1" for d :: "'a::len word"
proof -
  assume "d \<noteq> - 1"
  then have "unat d \<noteq> 2 ^ LENGTH('a) - 1"
    by (metis mask_eq_exp_minus_1 unsigned_minus_1_eq_mask word_unat_eq_iff)
  moreover have "unat d < 2 ^ LENGTH('a)" by (rule unat_bound)
  ultimately have "unat d + 1 < 2 ^ LENGTH('a)" by linarith
  then show ?thesis by (simp add: unat_word_ariths)
qed

lemma range_bits_size:
  fixes d :: "'a::len word"
  shows "range_bits d \<le> LENGTH('a) \<and> 2 ^ range_bits d \<le> unat d + 1"
proof (cases "d = - 1")
  case True
  then have "unat d = 2 ^ LENGTH('a) - 1" by (simp add: unsigned_minus_1_eq_mask mask_eq_exp_minus_1)
  then show ?thesis using True by (simp add: range_bits_def)
next
  case False
  have "d + 1 \<noteq> 0" "unat (d + 1) = unat d + 1" using unat_Suc [OF False] by auto
  then show ?thesis using high_bit_size [of "d + 1" "LENGTH('a) - 1"] high_bit_le [of "LENGTH('a) - 1" "d + 1"] False
    by (simp add: range_bits_def)
qed

lemma host_bits_block:
  fixes start :: "'a::len word"
  assumes "start \<le> stop"
  shows "host_bits start stop \<le> LENGTH('a)" "2 ^ host_bits start stop dvd unat start"
    "unat start + 2 ^ host_bits start stop \<le> unat stop + 1"
proof -
  have z: "trailing_zeros start \<le> LENGTH('a)" "2 ^ trailing_zeros start dvd unat start"
    using low_zeros_dvd [of "LENGTH('a)" start] by (simp_all add: trailing_zeros_def)
  have d: "unat (stop - start) = unat stop - unat start" using assms by (simp add: unat_sub)
  show "host_bits start stop \<le> LENGTH('a)" using z(1) by (simp add: host_bits_def)
  show "2 ^ host_bits start stop dvd unat start"
    using z(2) by (simp add: host_bits_def) (meson dvd_trans le_imp_power_dvd min.cobounded1)
  have "(2 :: nat) ^ host_bits start stop \<le> 2 ^ range_bits (stop - start)" by (simp add: host_bits_def)
  also have "\<dots> \<le> unat stop - unat start + 1" using range_bits_size [of "stop - start"] d by simp
  finally show "unat start + 2 ^ host_bits start stop \<le> unat stop + 1" using assms by (simp add: word_le_nat_alt)
qed

text \<open>The operations of a prefix type of the crate \<open>ipnet\<close> that the code calls.\<close>

record ('w, 'n) net_ops =
  net_new :: "'w \<Rightarrow> nat \<Rightarrow> 'n"
  network :: "'n \<Rightarrow> 'w"
  prefix_len :: "'n \<Rightarrow> nat"
  net_trunc :: "'n \<Rightarrow> 'n"
  net_contains :: "'n \<Rightarrow> 'n \<Rightarrow> bool"
  supernet :: "'n \<Rightarrow> 'n option"

text \<open>The addresses of a prefix are the numbers from \<open>net_lo\<close> up to, and not including, \<open>net_hi\<close>.\<close>

definition net_lo :: "('a::len word, 'n) net_ops \<Rightarrow> 'n \<Rightarrow> nat" where
  "net_lo N p = unat (network N p)"

definition net_hi :: "('a::len word, 'n) net_ops \<Rightarrow> 'n \<Rightarrow> nat" where
  "net_hi N p = net_lo N p + 2 ^ (LENGTH('a) - prefix_len N p)"

definition net_addrs :: "('a::len word, 'n) net_ops \<Rightarrow> 'n \<Rightarrow> nat set" where
  "net_addrs N p = {net_lo N p ..< net_hi N p}"

definition new_law :: "('a::len word, 'n) net_ops \<Rightarrow> bool" where
  "new_law N \<longleftrightarrow> (\<forall>a l. l \<le> LENGTH('a) \<longrightarrow> 2 ^ (LENGTH('a) - l) dvd unat a \<longrightarrow>
     prefix_len N (net_new N a l) = l \<and> network N (net_new N a l) = a)"

definition network_law :: "('a::len word, 'n) net_ops \<Rightarrow> bool" where
  "network_law N \<longleftrightarrow> (\<forall>p. prefix_len N p \<le> LENGTH('a) \<and>
     2 ^ (LENGTH('a) - prefix_len N p) dvd net_lo N p \<and>
     network N (net_trunc N p) = network N p \<and> prefix_len N (net_trunc N p) = prefix_len N p)"

definition contains_law :: "('a::len word, 'n) net_ops \<Rightarrow> bool" where
  "contains_law N \<longleftrightarrow> (\<forall>p q. net_contains N p q \<longleftrightarrow> net_lo N p \<le> net_lo N q \<and> net_hi N q \<le> net_hi N p)"

definition supernet_law :: "('a::len word, 'n) net_ops \<Rightarrow> bool" where
  "supernet_law N \<longleftrightarrow> (\<forall>p. case supernet N p of
     None \<Rightarrow> prefix_len N p = 0
   | Some q \<Rightarrow> prefix_len N p = Suc (prefix_len N q) \<and>
       net_lo N q = net_lo N p - net_lo N p mod 2 ^ (LENGTH('a) - prefix_len N q))"

function append_loop ::
  "('a::len word, 'n) net_ops \<Rightarrow> 'a word \<Rightarrow> 'a word \<Rightarrow> 'n list \<Rightarrow> nat \<Rightarrow> prefix_error + 'n list \<times> nat" where
  "append_loop N start stop output total_count =
    (let hb = host_bits start stop
     in case reserve_prefix total_count of
          Inl e \<Rightarrow> Inl e
        | Inr count \<Rightarrow>
            (let output' = output @ [net_new N start (LENGTH('a) - hb)]
             in if hb = LENGTH('a) then Inr (output', count)
                else let block_size = push_bit hb 1
                     in if 2 ^ LENGTH('a) \<le> unat start + unat block_size then Inr (output', count)
                        else if stop < start + block_size then Inr (output', count)
                        else append_loop N (start + block_size) stop output' count))"
  by pat_completeness auto
termination
proof (relation "measure (\<lambda>(N, start, stop, out, count). unat stop - unat start)")
  fix N :: "('a word, 'n) net_ops" and start stop :: "'a word" and out :: "'n list" and count hb c out' b
  assume hb: "hb = host_bits start stop" "hb \<noteq> LENGTH('a)" and b: "b = push_bit hb (1 :: 'a word)"
    and fits: "\<not> 2 ^ LENGTH('a) \<le> unat start + unat b" and le: "\<not> stop < start + b"
  have "trailing_zeros start \<le> LENGTH('a)"
    using low_zeros_dvd [of "LENGTH('a)" start] by (simp add: trailing_zeros_def)
  then have "hb < LENGTH('a)" using hb by (simp add: host_bits_def)
  then have "unat b = 2 ^ hb" using b unat_power_two by simp
  moreover have "unat (start + b) = unat start + unat b" using fits by (simp add: unat_word_ariths)
  ultimately have "unat start < unat (start + b)" "unat (start + b) \<le> unat stop"
    using le by (simp_all add: word_less_nat_alt)
  then show "((N, start + b, stop, out', c), (N, start, stop, out, count))
      \<in> measure (\<lambda>(N, start, stop, out, count). unat stop - unat start)" by simp
qed simp

lemma high_bit_exact: "unat w < 2 ^ Suc n \<Longrightarrow> unat w < 2 ^ Suc (high_bit n w)" for w :: "'a::len word"
proof (induction n)
  case (Suc n)
  show ?case
  proof (cases "bit w (Suc n)")
    case False
    then have "\<not> bit (unat w) (Suc n)" by (simp add: bit_unsigned_iff)
    then have "even (unat w div 2 ^ Suc n)" by (simp add: bit_iff_odd)
    moreover have "unat w div 2 ^ Suc n < 2" using Suc.prems by (simp add: less_mult_imp_div_less mult.commute)
    ultimately have "unat w div 2 ^ Suc n = 0" by (cases "unat w div 2 ^ Suc n") auto
    then have "unat w < 2 ^ Suc n" by (simp add: div_eq_0_iff)
    then show ?thesis using Suc.IH False by simp
  qed (use Suc.prems in simp)
qed simp

lemma range_bits_exact: "unat d + 1 < 2 ^ Suc (range_bits d)" for d :: "'a::len word"
proof (cases "d = - 1")
  case True
  have "unat d < 2 ^ LENGTH('a)" "(2 :: nat) \<le> 2 ^ LENGTH('a)" by (rule unat_bound) (simp add: self_le_power)
  then have "unat d + 1 < 2 * 2 ^ LENGTH('a)" by linarith
  then show ?thesis using True by (simp add: range_bits_def)
next
  case False
  have "Suc (LENGTH('a) - 1) = LENGTH('a)" by simp
  then have "unat (d + 1) < 2 ^ Suc (LENGTH('a) - 1)" using unat_bound [of "d + 1"] by metis
  from high_bit_exact [OF this] show ?thesis using unat_Suc [OF False] False by (simp add: range_bits_def)
qed

lemma host_bits_next:
  fixes start :: "'a::len word"
  assumes "start \<le> stop" "unat start + 2 ^ host_bits start stop \<noteq> unat stop + 1"
  defines "start' \<equiv> start + push_bit (host_bits start stop) 1"
  shows "host_bits start stop < LENGTH('a)" "unat start' = unat start + 2 ^ host_bits start stop" "start' \<le> stop"
    "unat start + 2 ^ host_bits start stop < 2 ^ LENGTH('a)"
proof -
  note block = host_bits_block [OF assms(1)]
  have lt: "unat start + 2 ^ host_bits start stop \<le> unat stop" using block(3) assms(2) by linarith
  then show small: "unat start + 2 ^ host_bits start stop < 2 ^ LENGTH('a)"
    using unat_bound [of stop] by (rule le_less_trans)
  then have "(2 :: nat) ^ host_bits start stop < 2 ^ LENGTH('a)" by linarith
  then show hb: "host_bits start stop < LENGTH('a)" by simp
  show "unat start' = unat start + 2 ^ host_bits start stop"
    using small hb by (simp add: start'_def unat_word_ariths unat_power_two del: push_bit_of_1)
  then show "start' \<le> stop" using lt by (simp add: word_le_nat_alt)
qed

declare append_loop.simps [simp del]

lemma append_loop_step:
  fixes start :: "'a::len word"
  assumes "start \<le> stop" "count < MAX_IP_PREFIX_SNAPSHOT_ITEMS"
  shows "append_loop N start stop out count =
    (let out' = out @ [net_new N start (LENGTH('a) - host_bits start stop)]
     in if unat start + 2 ^ host_bits start stop = unat stop + 1 then Inr (out', count + 1)
        else append_loop N (start + push_bit (host_bits start stop) 1) stop out' (count + 1))"
proof (cases "unat start + 2 ^ host_bits start stop = unat stop + 1")
  case True
  define hb where "hb = host_bits start stop"
  have "hb \<le> LENGTH('a)" using host_bits_block(1) [OF assms(1)] by (simp add: hb_def)
  then consider "hb = LENGTH('a)" | "hb < LENGTH('a)" "unat (push_bit hb 1 :: 'a word) = 2 ^ hb"
    using unat_power_two le_eq_less_or_eq by blast
  then show ?thesis
  proof cases
    case 1
    then show ?thesis using True assms(2)
      unfolding append_loop.simps [of N start stop] Let_def hb_def [symmetric] by (simp add: reserve_prefix_def)
  next
    case 2
    then have "stop < start + push_bit hb 1" if "\<not> 2 ^ LENGTH('a) \<le> unat start + 2 ^ hb"
      using that True by (simp add: word_less_nat_alt unat_word_ariths hb_def [symmetric] del: push_bit_of_1)
    then show ?thesis using True 2 assms(2)
      unfolding append_loop.simps [of N start stop] Let_def hb_def [symmetric]
      by (simp add: reserve_prefix_def del: push_bit_of_1)
  qed
next
  case False
  note step = host_bits_next [OF assms(1) False]
  have "\<not> stop < start + push_bit (host_bits start stop) 1" using step(3) by (rule leD)
  then show ?thesis using False assms(2) step unat_power_two [OF step(1)]
    unfolding append_loop.simps [of N start stop] Let_def
    by (simp add: reserve_prefix_def del: push_bit_of_1)
qed

text \<open>Prefixes that follow each other without gap and without overlap, from \<open>a\<close> to just before \<open>b\<close>.\<close>

fun chain :: "('a::len word, 'n) net_ops \<Rightarrow> nat \<Rightarrow> 'n list \<Rightarrow> nat \<Rightarrow> bool" where
  "chain N a [] b \<longleftrightarrow> a = b"
| "chain N a (p # ps) b \<longleftrightarrow> net_lo N p = a \<and> chain N (net_hi N p) ps b"

lemma net_new_block:
  fixes N :: "('a::len word, 'n) net_ops"
  assumes "new_law N" "k \<le> LENGTH('a)" "2 ^ k dvd unat a"
  shows "net_lo N (net_new N a (LENGTH('a) - k)) = unat a" "net_hi N (net_new N a (LENGTH('a) - k)) = unat a + 2 ^ k"
proof -
  have "prefix_len N (net_new N a (LENGTH('a) - k)) = LENGTH('a) - k \<and> network N (net_new N a (LENGTH('a) - k)) = a"
    using assms by (simp add: new_law_def)
  then show "net_lo N (net_new N a (LENGTH('a) - k)) = unat a" "net_hi N (net_new N a (LENGTH('a) - k)) = unat a + 2 ^ k"
    using assms(2) by (simp_all add: net_lo_def net_hi_def)
qed

text \<open>What is left of a range once its start is aligned to more than its length takes at most one prefix for
  each bit of its length.\<close>

definition cuts :: "('a::len word, 'n) net_ops \<Rightarrow> 'a word \<Rightarrow> 'a word \<Rightarrow> nat \<Rightarrow> bool" where
  "cuts N start stop n \<longleftrightarrow> (\<forall>out count. count + n \<le> MAX_IP_PREFIX_SNAPSHOT_ITEMS \<longrightarrow>
     (\<exists>ps. append_loop N start stop out count = Inr (out @ ps, count + length ps) \<and>
        chain N (unat start) ps (unat stop + 1) \<and> length ps \<le> n))"

lemma cuts_mono: "cuts N start stop m \<Longrightarrow> m \<le> n \<Longrightarrow> cuts N start stop n"
  unfolding cuts_def by (meson add_left_mono order_trans)

lemma cuts_step:
  fixes N :: "('a::len word, 'n) net_ops"
  assumes law: "new_law N" and le: "start \<le> stop"
    and rest: "unat start + 2 ^ host_bits start stop \<noteq> unat stop + 1 \<Longrightarrow>
      cuts N (start + push_bit (host_bits start stop) 1) stop n"
  shows "cuts N start stop (Suc n)"
  unfolding cuts_def
proof (intro allI impI)
  fix out count
  assume room: "count + Suc n \<le> MAX_IP_PREFIX_SNAPSHOT_ITEMS"
  define p where "p = net_new N start (LENGTH('a) - host_bits start stop)"
  have p: "net_lo N p = unat start" "net_hi N p = unat start + 2 ^ host_bits start stop"
    using net_new_block [OF law host_bits_block(1,2) [OF le]] by (simp_all add: p_def)
  have step: "append_loop N start stop out count =
    (if unat start + 2 ^ host_bits start stop = unat stop + 1 then Inr (out @ [p], count + 1)
     else append_loop N (start + push_bit (host_bits start stop) 1) stop (out @ [p]) (count + 1))"
    using append_loop_step [OF le, of count N out] room by (simp add: Let_def p_def del: push_bit_of_1)
  show "\<exists>ps. append_loop N start stop out count = Inr (out @ ps, count + length ps) \<and>
      chain N (unat start) ps (unat stop + 1) \<and> length ps \<le> Suc n"
  proof (cases "unat start + 2 ^ host_bits start stop = unat stop + 1")
    case True
    then show ?thesis using step p by (intro exI [of _ "[p]"]) simp
  next
    case False
    obtain ps where "append_loop N (start + push_bit (host_bits start stop) 1) stop (out @ [p]) (count + 1) =
        Inr ((out @ [p]) @ ps, count + 1 + length ps)"
      "chain N (unat (start + push_bit (host_bits start stop) 1)) ps (unat stop + 1)" "length ps \<le> n"
      using rest [OF False, unfolded cuts_def, rule_format, of "count + 1" "out @ [p]"] room by auto
    then show ?thesis using step False p host_bits_next(2) [OF le False]
      by (intro exI [of _ "p # ps"]) (simp del: push_bit_of_1)
  qed
qed

lemma aligned_zeros:
  fixes start :: "'a::len word"
  assumes "2 ^ k dvd unat start" "k \<le> LENGTH('a)"
  shows "k \<le> trailing_zeros start"
proof (rule ccontr)
  assume "\<not> k \<le> trailing_zeros start"
  then have "trailing_zeros start < LENGTH('a)" "Suc (trailing_zeros start) \<le> k" using assms(2) by simp_all
  then have "\<not> 2 ^ Suc (trailing_zeros start) dvd unat start"
    using low_zeros_exact [of "LENGTH('a)" start] by (simp add: trailing_zeros_def)
  moreover have "(2 :: nat) ^ Suc (trailing_zeros start) dvd 2 ^ k"
    using \<open>Suc (trailing_zeros start) \<le> k\<close> by (rule le_imp_power_dvd)
  ultimately show False using assms(1) dvd_trans by blast
qed

lemma range_bits_bounds:
  assumes "start \<le> stop"
  defines "r \<equiv> range_bits (stop - start)"
  shows "unat start + 2 ^ r \<le> unat stop + 1" "unat stop + 1 < unat start + 2 ^ Suc r"
proof -
  have d: "unat (stop - start) = unat stop - unat start" "unat start \<le> unat stop"
    using assms(1) by (simp_all add: unat_sub word_le_nat_alt)
  have "2 ^ r \<le> unat (stop - start) + 1" "unat (stop - start) + 1 < 2 ^ Suc r"
    unfolding r_def by (rule range_bits_size [THEN conjunct2]) (rule range_bits_exact)
  then show "unat start + 2 ^ r \<le> unat stop + 1" "unat stop + 1 < unat start + 2 ^ Suc r"
    using d by simp_all
qed

lemma cuts_tail:
  fixes N :: "('a::len word, 'n) net_ops"
  assumes "new_law N" "start \<le> stop" "2 ^ k dvd unat start" "k \<le> LENGTH('a)" "unat stop + 1 < unat start + 2 ^ k"
  shows "cuts N start stop k"
  using assms(2-)
proof (induction k arbitrary: start rule: less_induct)
  case (less k)
  define r where "r = range_bits (stop - start)"
  note range = range_bits_bounds [OF less.prems(1), folded r_def]
  have "(2 :: nat) ^ r < 2 ^ k" using range(1) less.prems(4) by linarith
  then have r: "r < k" by simp
  then have hb: "host_bits start stop = r" using aligned_zeros [OF less.prems(2,3)] by (simp add: host_bits_def r_def)
  have "cuts N (start + push_bit r 1) stop r" if "unat start + 2 ^ r \<noteq> unat stop + 1"
  proof (rule less.IH [OF r])
    note step = host_bits_next [OF less.prems(1), unfolded hb, OF that]
    show "start + push_bit r 1 \<le> stop" by (rule step(3))
    show "2 ^ r dvd unat (start + push_bit r 1)"
      unfolding step(2) using host_bits_block(2) [OF less.prems(1)] by (simp add: hb)
    show "r \<le> LENGTH('a)" using step(1) by simp
    show "unat stop + 1 < unat (start + push_bit r 1) + 2 ^ r" unfolding step(2) using range(2) by simp
  qed
  then have "cuts N start stop (Suc r)" using cuts_step [OF assms(1) less.prems(1)] by (simp add: hb del: push_bit_of_1)
  then show ?case using r by (rule cuts_mono [OF _ Suc_leI])
qed

lemma odd_multiple:
  assumes "2 ^ k dvd (n :: nat)" "\<not> 2 ^ Suc k dvd n"
  shows "2 ^ Suc k dvd n + 2 ^ k"
proof -
  obtain m where m: "n = 2 ^ k * m" using assms(1) by auto
  then have "odd m" using assms(2) by (auto elim!: evenE)
  then show ?thesis by (auto simp: m elim!: oddE)
qed

lemma cuts_bound:
  fixes N :: "('a::len word, 'n) net_ops"
  assumes "new_law N" "start \<le> stop" "2 ^ t dvd unat start" "t \<le> LENGTH('a)"
  shows "cuts N start stop (Suc (LENGTH('a) - t + LENGTH('a)))"
  using assms(2-)
proof (induction "LENGTH('a) - t" arbitrary: start t rule: less_induct)
  case less
  define r where "r = range_bits (stop - start)"
  define z where "z = trailing_zeros start"
  have t: "t \<le> z" unfolding z_def by (rule aligned_zeros) (fact less.prems)+
  have r: "r \<le> LENGTH('a)" using range_bits_size [of "stop - start"] by (simp add: r_def)
  note range = range_bits_bounds [OF less.prems(1), folded r_def]
  show ?case
  proof (cases "r \<le> z")
    case True
    then have hb: "host_bits start stop = r" by (simp add: host_bits_def r_def z_def)
    have "cuts N (start + push_bit r 1) stop r" if "unat start + 2 ^ r \<noteq> unat stop + 1"
    proof -
      note step = host_bits_next [OF less.prems(1), unfolded hb, OF that]
      show ?thesis using host_bits_block(2) [OF less.prems(1)] range(2) r
        by (intro cuts_tail [OF assms(1) step(3)]) (simp_all only: step(2) hb, simp_all)
    qed
    then have "cuts N start stop (Suc r)" using cuts_step [OF assms(1) less.prems(1)] by (simp add: hb del: push_bit_of_1)
    then show ?thesis by (rule cuts_mono) (use r in simp)
  next
    case False
    then have hb: "host_bits start stop = z" by (simp add: host_bits_def r_def z_def)
    have z: "z < LENGTH('a)" using False r by simp
    have dvd: "2 ^ Suc z dvd unat start + 2 ^ z"
      using host_bits_block(2) [OF less.prems(1)] low_zeros_exact [of "LENGTH('a)" start] z
      by (intro odd_multiple) (simp_all add: hb z_def trailing_zeros_def)
    have "cuts N (start + push_bit z 1) stop (Suc (LENGTH('a) - Suc z + LENGTH('a)))"
      if "unat start + 2 ^ z \<noteq> unat stop + 1"
    proof -
      note step = host_bits_next [OF less.prems(1), unfolded hb, OF that]
      show ?thesis
      proof (rule less.hyps)
        show "2 ^ Suc z dvd unat (start + push_bit z 1)" unfolding step(2) by (rule dvd)
      qed (use z t step(3) in simp_all)
    qed
    then have "cuts N start stop (Suc (Suc (LENGTH('a) - Suc z + LENGTH('a))))"
      using cuts_step [OF assms(1) less.prems(1)] by (simp add: hb del: push_bit_of_1)
    then show ?thesis by (rule cuts_mono) (use z t in simp)
  qed
qed

definition append_range ::
  "string \<Rightarrow> ('a::len word, 'n) net_ops \<Rightarrow> 'a word \<Rightarrow> 'a word \<Rightarrow> 'n list \<Rightarrow> nat \<Rightarrow> prefix_error + 'n list \<times> nat" where
  "append_range family N start stop output total_count =
    (if stop < start then Inl (InvalidRange family) else append_loop N start stop output total_count)"

fun append_ranges ::
  "string \<Rightarrow> ('a::len word, 'n) net_ops \<Rightarrow> ('a word \<times> 'a word) list \<Rightarrow> 'n list \<Rightarrow> nat \<Rightarrow> prefix_error + 'n list \<times> nat" where
  "append_ranges family N [] output total_count = Inr (output, total_count)"
| "append_ranges family N ((start, stop) # ranges) output total_count =
    (case append_range family N start stop output total_count of
       Inl e \<Rightarrow> Inl e
     | Inr (output', count) \<Rightarrow> append_ranges family N ranges output' count)"

definition ranges_to_prefixes ::
  "('a::len word, 'n) net_ops \<Rightarrow> ('b::len word, 'm) net_ops \<Rightarrow> ('a word \<times> 'a word) list \<Rightarrow> ('b word \<times> 'b word) list \<Rightarrow>
    prefix_error + 'n list \<times> 'm list" where
  "ranges_to_prefixes N4 N6 v4_ranges v6_ranges =
    (case append_ranges ''IPv4'' N4 v4_ranges [] 0 of
       Inl e \<Rightarrow> Inl e
     | Inr (ipv4, count) \<Rightarrow>
         (case append_ranges ''IPv6'' N6 v6_ranges [] count of
            Inl e \<Rightarrow> Inl e
          | Inr (ipv6, count') \<Rightarrow> Inr (ipv4, ipv6)))"
text \<open>The prefixes of a list of ranges, range by range.\<close>

definition cut_into :: "('a::len word, 'n) net_ops \<Rightarrow> ('a word \<times> 'a word) list \<Rightarrow> 'n list \<Rightarrow> bool" where
  "cut_into N ranges ps \<longleftrightarrow> (\<exists>parts. ps = concat parts \<and>
     list_all2 (\<lambda>(a, b) part. chain N (unat a) part (unat b + 1) \<and> length part \<le> 2 * LENGTH('a) + 1) ranges parts)"

lemma append_range_cut:
  fixes N :: "('a::len word, 'n) net_ops"
  assumes "new_law N" "start \<le> stop" "count + (2 * LENGTH('a) + 1) \<le> MAX_IP_PREFIX_SNAPSHOT_ITEMS"
  shows "\<exists>ps. append_range family N start stop out count = Inr (out @ ps, count + length ps) \<and>
     chain N (unat start) ps (unat stop + 1) \<and> length ps \<le> 2 * LENGTH('a) + 1"
  using cuts_bound [OF assms(1,2), of 0] assms(2,3) by (simp add: cuts_def append_range_def mult_2 not_less)

lemma cut_into_Cons:
  fixes N :: "('a::len word, 'n) net_ops"
  assumes "chain N (unat a) part (unat b + 1)" "length part \<le> 2 * LENGTH('a) + 1" "cut_into N ranges ps"
  shows "cut_into N ((a, b) # ranges) (part @ ps)"
proof -
  obtain parts where "ps = concat parts"
    "list_all2 (\<lambda>(a, b) part. chain N (unat a) part (unat b + 1) \<and> length part \<le> 2 * LENGTH('a) + 1) ranges parts"
    using assms(3) by (auto simp: cut_into_def)
  then show ?thesis unfolding cut_into_def using assms(1,2) by (intro exI [of _ "part # parts"]) simp
qed

lemma append_ranges_cut:
  fixes N :: "('a::len word, 'n) net_ops"
  assumes "new_law N" "\<forall>(a, b) \<in> set ranges. a \<le> b"
    "count + (2 * LENGTH('a) + 1) * length ranges \<le> MAX_IP_PREFIX_SNAPSHOT_ITEMS"
  shows "\<exists>ps. append_ranges family N ranges out count = Inr (out @ ps, count + length ps) \<and> cut_into N ranges ps \<and>
     length ps \<le> (2 * LENGTH('a) + 1) * length ranges"
  using assms(2-)
proof (induction ranges arbitrary: out count)
  case Nil
  then show ?case by (simp add: cut_into_def)
next
  case (Cons r ranges)
  obtain a b where r: "r = (a, b)" by (cases r)
  have le: "a \<le> b" and room: "count + (2 * LENGTH('a) + 1) \<le> MAX_IP_PREFIX_SNAPSHOT_ITEMS" using Cons.prems r by simp_all
  obtain part where part: "append_range family N a b out count = Inr (out @ part, count + length part)"
    "chain N (unat a) part (unat b + 1)" "length part \<le> 2 * LENGTH('a) + 1"
    using append_range_cut [OF assms(1) le room] by blast
  have "count + length part + (2 * LENGTH('a) + 1) * length ranges \<le> MAX_IP_PREFIX_SNAPSHOT_ITEMS"
    using Cons.prems(2) part(3) by simp
  then obtain ps where ps: "append_ranges family N ranges (out @ part) (count + length part) =
      Inr ((out @ part) @ ps, count + length part + length ps)" "cut_into N ranges ps"
      "length ps \<le> (2 * LENGTH('a) + 1) * length ranges"
    using Cons.IH [of "count + length part" "out @ part"] Cons.prems(1) by auto
  have "cut_into N (r # ranges) (part @ ps)" unfolding r by (rule cut_into_Cons [OF part(2,3) ps(2)])
  then show ?case using part ps r by (intro exI [of _ "part @ ps"]) simp
qed

lemma append_ranges_invalid:
  "(a, b) \<in> set ranges \<Longrightarrow> b < a \<Longrightarrow> \<exists>e. append_ranges family N ranges out count = Inl e"
  by (induction ranges arbitrary: out count)
    (auto simp: append_range_def split: sum.splits prod.splits if_splits, blast?)

lemma ranges_to_prefixes_cut:
  fixes N4 :: "(u32, 'n) net_ops" and N6 :: "(u128, 'm) net_ops"
  assumes "new_law N4" "new_law N6" "65 * length v4 + 257 * length v6 \<le> MAX_IP_PREFIX_SNAPSHOT_ITEMS"
    and "\<forall>(a, b) \<in> set v4. a \<le> b" "\<forall>(a, b) \<in> set v6. a \<le> b"
  shows "\<exists>p4 p6. ranges_to_prefixes N4 N6 v4 v6 = Inr (p4, p6) \<and> cut_into N4 v4 p4 \<and> cut_into N6 v6 p6 \<and>
    length p4 + length p6 \<le> MAX_IP_PREFIX_SNAPSHOT_ITEMS"
proof -
  obtain p4 where p4: "append_ranges ''IPv4'' N4 v4 [] 0 = Inr (p4, length p4)" "cut_into N4 v4 p4"
    "length p4 \<le> 65 * length v4"
    using append_ranges_cut [OF assms(1,4), of 0 "''IPv4''" "[]"] assms(3) by auto
  obtain p6 where "append_ranges ''IPv6'' N6 v6 [] (length p4) = Inr (p6, length p4 + length p6)" "cut_into N6 v6 p6"
    "length p6 \<le> 257 * length v6"
    using append_ranges_cut [OF assms(2,5), of "length p4" "''IPv6''" "[]"] assms(3) p4(3) by auto
  then show ?thesis using p4 assms(3) by (simp add: ranges_to_prefixes_def)
qed

text \<open>A conversion that stays below the limit takes the same steps as one that starts from nothing.\<close>

lemma append_loop_same:
  fixes N :: "('a::len word, 'n) net_ops"
  shows "append_loop N start stop out count = Inr r \<Longrightarrow> append_loop N start stop out0 count0 = Inr r0 \<Longrightarrow>
   \<exists>ps. fst r = out @ ps \<and> snd r = count + length ps \<and> fst r0 = out0 @ ps"
proof (induction N start stop out count arbitrary: out0 count0 rule: append_loop.induct)
  case (1 N start stop out count)
  define hb where "hb = host_bits start stop"
  define p where "p = net_new N start (LENGTH('a) - hb)"
  define stops where "stops \<longleftrightarrow> hb = LENGTH('a) \<or> 2 ^ LENGTH('a) \<le> unat start + unat (push_bit hb 1 :: 'a word) \<or> stop < start + push_bit hb 1"
  have step: "reserve_prefix n = Inr (n + 1) \<and>
      (if stops then z = (o1 @ [p], n + 1) else append_loop N (start + push_bit hb 1) stop (o1 @ [p]) (n + 1) = Inr z)"
    if "append_loop N start stop o1 n = Inr z" for o1 n z
    using that by (subst (asm) append_loop.simps)
      (auto simp: Let_def hb_def [symmetric] p_def stops_def reserve_prefix_def simp del: push_bit_of_1 split: if_splits)
  show ?case
  proof (cases stops)
    case True
    then show ?thesis using step [OF "1.prems"(1)] step [OF "1.prems"(2)] by auto
  next
    case False
    have "\<exists>ps. fst r = (out @ [p]) @ ps \<and> snd r = count + 1 + length ps \<and> fst r0 = (out0 @ [p]) @ ps"
      using False step [OF "1.prems"(1)] step [OF "1.prems"(2)]
      by (intro "1.IH" [of hb "count + 1" _ "push_bit hb 1" "out0 @ [p]" "count0 + 1"])
        (auto simp: hb_def p_def stops_def simp del: push_bit_of_1)
    then show ?thesis by auto
  qed
qed

lemma append_range_fits:
  fixes N :: "('a::len word, 'n) net_ops"
  assumes "new_law N" "2 * LENGTH('a) + 1 \<le> MAX_IP_PREFIX_SNAPSHOT_ITEMS"
    and "append_range family N start stop out count = Inr (out', count')"
  shows "\<exists>ps. out' = out @ ps \<and> chain N (unat start) ps (unat stop + 1) \<and> length ps \<le> 2 * LENGTH('a) + 1"
proof -
  have le: "start \<le> stop" and run: "append_loop N start stop out count = Inr (out', count')"
    using assms(3) by (simp_all add: append_range_def not_less split: if_splits)
  obtain ps where ps: "append_range family N start stop [] 0 = Inr ([] @ ps, 0 + length ps)"
    "chain N (unat start) ps (unat stop + 1)" "length ps \<le> 2 * LENGTH('a) + 1"
    using append_range_cut [OF assms(1) le, of 0 family "[]"] assms(2) by auto
  then have "append_loop N start stop [] 0 = Inr (ps, length ps)" using le leD [OF le] by (simp add: append_range_def)
  from append_loop_same [OF run this] show ?thesis using ps by auto
qed

lemma append_ranges_fits:
  fixes N :: "('a::len word, 'n) net_ops"
  assumes "new_law N" "2 * LENGTH('a) + 1 \<le> MAX_IP_PREFIX_SNAPSHOT_ITEMS"
  shows "append_ranges family N ranges out count = Inr (out', count') \<Longrightarrow> \<exists>ps. out' = out @ ps \<and> cut_into N ranges ps"
proof (induction ranges arbitrary: out count)
  case Nil
  then show ?case by (simp add: cut_into_def)
next
  case (Cons r ranges)
  obtain a b where r: "r = (a, b)" by (cases r)
  obtain out1 c1 where run: "append_range family N a b out count = Inr (out1, c1)" "append_ranges family N ranges out1 c1 = Inr (out', count')"
    using Cons.prems by (auto simp: r split: sum.splits)
  obtain part where part: "out1 = out @ part" "chain N (unat a) part (unat b + 1)" "length part \<le> 2 * LENGTH('a) + 1"
    using append_range_fits [OF assms run(1)] by blast
  obtain ps where ps: "out' = out1 @ ps" "cut_into N ranges ps" using Cons.IH [OF run(2)] by blast
  then show ?case using cut_into_Cons [OF part(2,3)] part(1) r by (intro exI [of _ "part @ ps"]) simp
qed

lemma ranges_to_prefixes_fits:
  fixes N4 :: "(u32, 'n) net_ops" and N6 :: "(u128, 'm) net_ops"
  assumes "new_law N4" "new_law N6" "ranges_to_prefixes N4 N6 v4 v6 = Inr (p4, p6)"
  shows "cut_into N4 v4 p4 \<and> cut_into N6 v6 p6"
proof -
  obtain c c' where "append_ranges ''IPv4'' N4 v4 [] 0 = Inr (p4, c)" "append_ranges ''IPv6'' N6 v6 [] c = Inr (p6, c')"
    using assms(3) by (auto simp: ranges_to_prefixes_def split: sum.splits)
  from append_ranges_fits [OF assms(1) _ this(1)] append_ranges_fits [OF assms(2) _ this(2)]
  show ?thesis by (simp add: MAX_IP_PREFIX_SNAPSHOT_ITEMS_def)
qed

text \<open>
  The prefixes of decoded address ranges cover exactly the ranges. For valid ranges whose number leaves
  room below the limit of 4 Mi prefixes, \<open>ranges_to_prefixes\<close> returns, for each range, prefixes that follow
  each other without gap or overlap from its first to its last address, at most 65 for an IPv4 and 257 for
  an IPv6 range; a range that ends before it starts makes the whole conversion fail. The loop ends for every
  range, the ones up to the last address included.
\<close>

theorem ranges_cut_exactly:
  fixes N4 :: "(u32, 'n) net_ops" and N6 :: "(u128, 'm) net_ops"
  assumes "new_law N4" "new_law N6" "65 * length v4 + 257 * length v6 \<le> MAX_IP_PREFIX_SNAPSHOT_ITEMS"
  shows "if (\<forall>(a, b) \<in> set v4. a \<le> b) \<and> (\<forall>(a, b) \<in> set v6. a \<le> b)
    then \<exists>p4 p6. ranges_to_prefixes N4 N6 v4 v6 = Inr (p4, p6) \<and> cut_into N4 v4 p4 \<and> cut_into N6 v6 p6
    else \<exists>e. ranges_to_prefixes N4 N6 v4 v6 = Inl e"
proof (cases "(\<forall>(a, b) \<in> set v4. a \<le> b) \<and> (\<forall>(a, b) \<in> set v6. a \<le> b)")
  case True
  then have "\<exists>p4 p6. ranges_to_prefixes N4 N6 v4 v6 = Inr (p4, p6) \<and> cut_into N4 v4 p4 \<and> cut_into N6 v6 p6"
    using ranges_to_prefixes_cut [OF assms] by blast
  then show ?thesis unfolding if_P [OF True] .
next
  case False
  then consider (v4) a b where "(a, b) \<in> set v4" "b < a" | (v6) a b where "(a, b) \<in> set v6" "b < a"
    by (auto simp: not_le)
  then have "\<exists>e. ranges_to_prefixes N4 N6 v4 v6 = Inl e"
  proof cases
    case v4
    then show ?thesis using append_ranges_invalid [OF v4, of "''IPv4''" N4 "[]" 0] by (auto simp: ranges_to_prefixes_def)
  next
    case v6
    then show ?thesis using append_ranges_invalid [OF v6, of "''IPv6''" N6 "[]"]
      by (auto simp: ranges_to_prefixes_def split: sum.split) (metis Inl_Inr_False)
  qed
  then show ?thesis by (simp only: False if_False)
qed

definition pair_network :: "'a::len word \<times> nat \<Rightarrow> nat" where
  "pair_network p = 2 ^ (LENGTH('a) - snd p) * (unat (fst p) div 2 ^ (LENGTH('a) - snd p))"

text \<open>Prefixes as pairs of an address and a length, the operations following their documentation.\<close>

definition pair_net :: "('a::len word, 'a word \<times> nat) net_ops" where
  "pair_net = \<lparr>net_new = Pair, network = (\<lambda>p. of_nat (pair_network p)), prefix_len = (\<lambda>(a, l). min l LENGTH('a)),
     net_trunc = (\<lambda>p. (of_nat (pair_network p), snd p)),
     net_contains = (\<lambda>p q. pair_network p \<le> pair_network q \<and>
       pair_network q + 2 ^ (LENGTH('a) - snd q) \<le> pair_network p + 2 ^ (LENGTH('a) - snd p)),
     supernet = (\<lambda>(a, l). if min l LENGTH('a) = 0 then None
       else Some (of_nat (pair_network (a, min l LENGTH('a) - 1)), min l LENGTH('a) - 1))\<rparr>"

lemma unat_pair_network: "unat (of_nat (pair_network p) :: 'a word) = pair_network p"
  for p :: "'a::len word \<times> nat"
proof -
  have "pair_network p \<le> unat (fst p)" by (simp add: pair_network_def mult.commute)
  then have "pair_network p < 2 ^ LENGTH('a)" using unat_bound [of "fst p"] by (rule le_less_trans)
  then show ?thesis by (simp add: unsigned_of_nat take_bit_nat_eq_self)
qed

lemma pair_net_new: "new_law (pair_net :: ('a::len word, 'a word \<times> nat) net_ops)"
proof -
  have "of_nat (pair_network (a, l)) = a" if "2 ^ (LENGTH('a) - l) dvd unat a" for a :: "'a word" and l
    using that by (simp add: pair_network_def)
  then show ?thesis by (simp add: new_law_def pair_net_def)
qed

theorem ranges_cut_exactly_witness:
  "\<exists>p4 p6. ranges_to_prefixes pair_net pair_net [(3, 9 :: 32 word)] [(0, - 1 :: 128 word)] = Inr (p4, p6) \<and>
     cut_into pair_net [(3, 9 :: 32 word)] p4 \<and> cut_into pair_net [(0, - 1 :: 128 word)] p6"
  using ranges_cut_exactly [OF pair_net_new pair_net_new, of "[(3, 9)]" "[(0, - 1)]"]
  by (simp add: MAX_IP_PREFIX_SNAPSHOT_ITEMS_def)

section \<open>Aggregation\<close>

text \<open>
  \<open>aggregate_ipv4_in_place\<close> and \<open>aggregate_ipv6_in_place\<close>: the inner loop, the pass over the read index and
  the whole function on the vector itself. The sort is unstable in the source; prefixes with equal network
  and length are equal once their host bits are cleared, so the order between them does not show.
\<close>

fun agg_insert :: "('a::len word, 'n) net_ops \<Rightarrow> 'n list \<Rightarrow> nat \<Rightarrow> 'n \<Rightarrow> 'n list \<times> nat" where
  "agg_insert N nets 0 candidate = (nets[0 := candidate], 1)"
| "agg_insert N nets (Suc write) candidate =
    (let previous = nets ! write
     in if net_contains N previous candidate then (nets, Suc write)
        else if net_contains N candidate previous then agg_insert N nets write candidate
        else case supernet N previous of
            None \<Rightarrow> (nets[Suc write := candidate], Suc write + 1)
          | Some parent \<Rightarrow>
              if prefix_len N previous = prefix_len N candidate \<and> net_contains N parent candidate
              then agg_insert N nets write parent
              else (nets[Suc write := candidate], Suc write + 1))"

definition aggregate_in_place :: "('a::len word, 'n) net_ops \<Rightarrow> 'n list \<Rightarrow> 'n list" where
  "aggregate_in_place N nets =
    (let ordered = sort_key (\<lambda>p. (network N p, prefix_len N p)) nets;
         (out, write) = fold (\<lambda>read (ps, write). agg_insert N ps write (ps ! read)) [0..<length ordered] (ordered, 0)
     in take write out)"

definition normalize_destination_prefixes ::
  "('a::len word, 'n) net_ops \<Rightarrow> ('b::len word, 'm) net_ops \<Rightarrow> 'n list \<Rightarrow> 'm list \<Rightarrow> prefix_error + 'n list \<times> 'm list" where
  "normalize_destination_prefixes N4 N6 ipv4 ipv6 =
    (case checked_prefix_total (length ipv4) (length ipv6) of
       Inl e \<Rightarrow> Inl e
     | Inr _ \<Rightarrow> Inr (aggregate_in_place N4 (map (net_trunc N4) ipv4), aggregate_in_place N6 (map (net_trunc N6) ipv6)))"

text \<open>The vector up to the write index is a stack; \<open>agg_push\<close> is the inner loop on it, its top first.\<close>

fun agg_push :: "('a::len word, 'n) net_ops \<Rightarrow> 'n list \<Rightarrow> 'n \<Rightarrow> 'n list" where
  "agg_push N [] c = [c]"
| "agg_push N (p # st) c =
    (if net_contains N p c then p # st
     else if net_contains N c p then agg_push N st c
     else case supernet N p of
         None \<Rightarrow> c # p # st
       | Some q \<Rightarrow> if prefix_len N p = prefix_len N c \<and> net_contains N q c then agg_push N st q else c # p # st)"

lemma agg_insert_stack:
  assumes "write < length ps" "agg_insert N ps write c = (ps', write')"
  shows "length ps' = length ps \<and> write' \<le> Suc write \<and> drop (Suc write) ps' = drop (Suc write) ps \<and>
    take write' ps' = rev (agg_push N (rev (take write ps)) c)"
  using assms
proof (induction N ps "write" c rule: agg_insert.induct)
  case (1 N ps c)
  then show ?case by (cases ps) auto
next
  case (2 N ps w c)
  define p where "p = ps ! w"
  have w: "w < length ps" and top: "rev (take (Suc w) ps) = p # rev (take w ps)"
    using 2(3) by (simp_all add: p_def take_Suc_conv_app_nth)
  have dropped: "drop (Suc w) ps' = drop (Suc w) ps \<Longrightarrow> drop (Suc (Suc w)) ps' = drop (Suc (Suc w)) ps"
    by (metis drop_drop plus_1_eq_Suc)
  have pushed: "take (Suc (Suc w)) (ps[Suc w := c]) = rev (c # p # rev (take w ps))"
    using 2(3) w by (simp add: take_Suc_conv_app_nth p_def take_update_swap list_update_append)
  note IH = "2.IH" [OF p_def]
  show ?case
  proof (cases "net_contains N p c")
    case True
    then show ?thesis using "2.prems" top by (auto simp: p_def [symmetric])
  next
    case np: False
    show ?thesis
    proof (cases "net_contains N c p")
      case True
      then show ?thesis using "2.prems" np w IH(1) [OF np True] dropped top by (auto simp: p_def [symmetric])
    next
      case nc: False
      show ?thesis
      proof (cases "supernet N p")
        case None
        then show ?thesis using "2.prems" np nc top pushed by (auto simp: p_def [symmetric])
      next
        case (Some q)
        show ?thesis
        proof (cases "prefix_len N p = prefix_len N c \<and> net_contains N q c")
          case True
          then show ?thesis using "2.prems" np nc Some w IH(2) [OF np nc Some True] dropped top
            by (auto simp: p_def [symmetric])
        next
          case False
          then show ?thesis using "2.prems" np nc Some top pushed by (auto simp: p_def [symmetric])
        qed
      qed
    qed
  qed
qed

lemma agg_pass_stack:
  assumes "k \<le> length ps"
  shows "case fold (\<lambda>read (ps, write). agg_insert N ps write (ps ! read)) [0..<k] (ps, 0) of (out, write) \<Rightarrow>
    length out = length ps \<and> write \<le> k \<and> drop k out = drop k ps \<and>
    take write out = rev (fold (\<lambda>c st. agg_push N st c) (take k ps) [])"
  using assms
proof (induction k)
  case (Suc k)
  obtain out w where F: "fold (\<lambda>read (ps, write). agg_insert N ps write (ps ! read)) [0..<k] (ps, 0) = (out, w)"
    by (cases "fold (\<lambda>read (ps, write). agg_insert N ps write (ps ! read)) [0..<k] (ps, 0)")
  obtain out' w' where I: "agg_insert N out w (out ! k) = (out', w')"
    by (cases "agg_insert N out w (out ! k)")
  have IH: "length out = length ps" "w \<le> k" "drop k out = drop k ps"
    "take w out = rev (fold (\<lambda>c st. agg_push N st c) (take k ps) [])"
    using Suc F by auto
  have k: "k < length ps" using Suc.prems by simp
  have item: "out ! k = ps ! k" using IH(1,3) k by (metis Cons_nth_drop_Suc nth_via_drop)
  have R: "length out' = length out" "w' \<le> Suc w" "drop (Suc w) out' = drop (Suc w) out"
    "take w' out' = rev (agg_push N (rev (take w out)) (out ! k))"
    using agg_insert_stack [OF _ I] IH(1,2) k by auto
  have "drop (Suc k) out' = drop (Suc k) ps"
  proof -
    have "drop (Suc k) out' = drop (k - w) (drop (Suc w) out')" using IH(2) by simp
    also have "\<dots> = drop 1 (drop k out)" using IH(2) by (simp add: R(3))
    finally show ?thesis by (simp add: IH(3))
  qed
  then show ?case using F I R IH item k by (simp add: take_Suc_conv_app_nth)
qed simp

lemma aggregate_is_stack:
  "aggregate_in_place N ps =
    rev (fold (\<lambda>c st. agg_push N st c) (sort_key (\<lambda>p. (network N p, prefix_len N p)) ps) [])"
  using agg_pass_stack [of "length ps" "sort_key (\<lambda>p. (network N p, prefix_len N p)) ps" N]
  by (simp add: aggregate_in_place_def split: prod.splits)

text \<open>Two prefixes that together are their common parent.\<close>

definition mergeable :: "('a::len word, 'n) net_ops \<Rightarrow> 'n \<Rightarrow> 'n \<Rightarrow> bool" where
  "mergeable N p q \<longleftrightarrow> (case supernet N p of
     None \<Rightarrow> False | Some r \<Rightarrow> prefix_len N p = prefix_len N q \<and> net_contains N r q)"

definition net_laws :: "('a::len word, 'n) net_ops \<Rightarrow> bool" where
  "net_laws N \<longleftrightarrow> network_law N \<and> contains_law N \<and> supernet_law N"

lemma blocks_nested_or_apart:
  fixes a b :: nat
  assumes "2 ^ i dvd a" "2 ^ j dvd b" "a \<le> b" "\<not> b + 2 ^ j \<le> a + 2 ^ i" "\<not> (b \<le> a \<and> a + 2 ^ i \<le> b + 2 ^ j)"
  shows "a + 2 ^ i \<le> b"
proof (rule ccontr)
  assume lt: "\<not> a + 2 ^ i \<le> b"
  show False
  proof (cases "j \<le> i")
    case True
    then have "2 ^ j dvd a + 2 ^ i" using assms(1) by (meson dvd_add dvd_trans le_imp_power_dvd)
    then have "2 ^ j dvd a + 2 ^ i - b" using assms(2) by (rule dvd_diff_nat)
    then have "2 ^ j \<le> a + 2 ^ i - b" using lt by (intro dvd_imp_le) simp_all
    then show False using assms(4) lt by linarith
  next
    case False
    then have "2 ^ i dvd b" using assms(2) by (meson dvd_trans le_imp_power_dvd nat_le_linear)
    then have "2 ^ i dvd b - a" using assms(1) by (rule dvd_diff_nat)
    then have "b = a" using lt assms(3) by (cases "b = a") (auto dest!: dvd_imp_le)
    moreover have "(2 :: nat) ^ i \<le> 2 ^ j" using False by simp
    ultimately show False using assms(5) by simp
  qed
qed

lemma nets_nested_or_apart:
  assumes "net_laws N" "net_lo N p \<le> net_lo N c" "\<not> net_contains N p c" "\<not> net_contains N c p"
  shows "net_hi N p \<le> net_lo N c"
  using blocks_nested_or_apart [of _ "net_lo N p" _ "net_lo N c"] assms
  unfolding net_laws_def network_law_def contains_law_def net_hi_def by blast

lemma merged_block:
  fixes N :: "('a::len word, 'n) net_ops"
  assumes "net_laws N" "net_hi N p \<le> net_lo N c" "supernet N p = Some q" "prefix_len N p = prefix_len N c"
    "net_contains N q c"
  shows "net_lo N q = net_lo N p" "net_hi N q = net_hi N c" "net_lo N c = net_hi N p"
proof -
  have len: "prefix_len N p = Suc (prefix_len N q)" and lo: "net_lo N q \<le> net_lo N p"
    using assms(1,3) by (auto simp: net_laws_def supernet_law_def split: option.splits)
  have "prefix_len N p \<le> LENGTH('a)" using assms(1) by (simp add: net_laws_def network_law_def)
  then have "LENGTH('a) - prefix_len N q = Suc (LENGTH('a) - prefix_len N p)" using len by simp
  then have hi: "net_hi N q = net_lo N q + 2 * 2 ^ (LENGTH('a) - prefix_len N p)" by (simp add: net_hi_def)
  have in_q: "net_hi N c \<le> net_hi N q" using assms(1,5) by (auto simp: net_laws_def contains_law_def)
  show "net_lo N q = net_lo N p" "net_hi N q = net_hi N c" "net_lo N c = net_hi N p"
    using hi lo in_q assms(2,4) by (simp_all add: net_hi_def)
qed

definition stack_ok :: "('a::len word, 'n) net_ops \<Rightarrow> 'n list \<Rightarrow> bool" where
  "stack_ok N st \<longleftrightarrow> sorted_wrt (\<lambda>q p. net_hi N p \<le> net_lo N q) st \<and> successively (\<lambda>q p. \<not> mergeable N p q) st"

lemma lo_less_hi: "net_lo N p < net_hi N p"
  by (simp add: net_hi_def)

lemma contains_addrs: "net_laws N \<Longrightarrow> net_contains N p c \<Longrightarrow> net_addrs N c \<subseteq> net_addrs N p"
  by (auto simp: net_laws_def contains_law_def net_addrs_def)

lemma stack_ok_Cons:
  assumes "stack_ok N (p # st)" "net_hi N p \<le> net_lo N c" "\<not> mergeable N p c"
  shows "stack_ok N (c # p # st)"
  using assms lo_less_hi [of N p] by (fastforce simp: stack_ok_def)

lemma stack_ok_tl: "stack_ok N (p # st) \<Longrightarrow> stack_ok N st"
  by (cases st) (auto simp: stack_ok_def)

lemma agg_push_ok:
  assumes "net_laws N" "stack_ok N st" "\<forall>p \<in> set st. net_lo N p \<le> net_lo N c"
  shows "stack_ok N (agg_push N st c) \<and> (\<forall>p \<in> set (agg_push N st c). net_lo N p \<le> net_lo N c) \<and>
    (\<Union>p \<in> set (agg_push N st c). net_addrs N p) = (\<Union>p \<in> set st. net_addrs N p) \<union> net_addrs N c"
  using assms(2,3)
proof (induction st arbitrary: c)
  case Nil
  then show ?case by (simp add: stack_ok_def)
next
  case (Cons p st)
  note tl = stack_ok_tl [OF Cons.prems(1)]
  have below: "\<forall>x \<in> set st. net_lo N x \<le> net_lo N p"
    using Cons.prems(1) by (simp add: stack_ok_def) (meson lo_less_hi less_imp_le_nat order_trans)
  show ?case
  proof (cases "net_contains N p c \<or> net_contains N c p")
    case True
    then show ?thesis
    proof (cases "net_contains N p c")
      case True
      then show ?thesis using Cons.prems contains_addrs [OF assms(1) True] by auto
    next
      case False
      then have "net_contains N c p" using True by blast
      then show ?thesis using False Cons.IH [OF tl, of c] Cons.prems(2) contains_addrs [OF assms(1), of c p] by auto
    qed
  next
    case False
    then have apart: "net_hi N p \<le> net_lo N c" using nets_nested_or_apart [OF assms(1)] Cons.prems(2) by auto
    show ?thesis
    proof (cases "mergeable N p c")
      case True
      then obtain q where q: "supernet N p = Some q" "prefix_len N p = prefix_len N c" "net_contains N q c"
        by (auto simp: mergeable_def split: option.splits)
      note block = merged_block [OF assms(1) apart q]
      have "net_addrs N q = net_addrs N p \<union> net_addrs N c"
        using block lo_less_hi [of N p] lo_less_hi [of N c] by (auto simp: net_addrs_def)
      moreover have "net_lo N q \<le> net_lo N c" using Cons.prems(2) block(1) by simp
      ultimately show ?thesis using False q Cons.IH [OF tl, of q] below block(1) by fastforce
    next
      case no: False
      have "agg_push N (p # st) c = c # p # st"
        using False no by (auto simp: mergeable_def split: option.splits)
      then show ?thesis using stack_ok_Cons [OF Cons.prems(1) apart no] Cons.prems(2) by auto
    qed
  qed
qed

lemma agg_fold_ok:
  assumes "net_laws N" "sorted (map (net_lo N) ps)" "stack_ok N st" "\<forall>p \<in> set st. \<forall>c \<in> set ps. net_lo N p \<le> net_lo N c"
  shows "stack_ok N (fold (\<lambda>c st. agg_push N st c) ps st) \<and>
    (\<Union>p \<in> set (fold (\<lambda>c st. agg_push N st c) ps st). net_addrs N p) = (\<Union>p \<in> set st \<union> set ps. net_addrs N p)"
  using assms(2-)
proof (induction ps arbitrary: st)
  case (Cons c ps)
  note push = agg_push_ok [OF assms(1) Cons.prems(2), of c]
  have "\<forall>p \<in> set (agg_push N st c). \<forall>c \<in> set ps. net_lo N p \<le> net_lo N c"
    using push Cons.prems by (auto intro: order_trans)
  then show ?case using Cons.IH [of "agg_push N st c"] push Cons.prems by auto
qed simp

text \<open>A canonical list of prefixes with the addresses of \<open>ps\<close>: in ascending order, disjoint, and with no two
  neighbours that make up their common parent.\<close>

definition canonical :: "('a::len word, 'n) net_ops \<Rightarrow> 'n list \<Rightarrow> 'n list \<Rightarrow> bool" where
  "canonical N ps ps' \<longleftrightarrow> (\<Union>p \<in> set ps'. net_addrs N p) = (\<Union>p \<in> set ps. net_addrs N p) \<and>
     sorted_wrt (\<lambda>p q. net_hi N p \<le> net_lo N q) ps' \<and> successively (\<lambda>p q. \<not> mergeable N p q) ps'"

lemma sorted_by_key_lo: "sorted (map (net_lo N) (sort_key (\<lambda>p. (network N p, prefix_len N p)) ps))"
proof -
  have "sorted (map (\<lambda>p. (network N p, prefix_len N p)) (sort_key (\<lambda>p. (network N p, prefix_len N p)) ps))" by simp
  then show ?thesis
    unfolding sorted_map by (rule sorted_wrt_mono_rel [rotated]) (auto simp: net_lo_def word_le_nat_alt less_eq_prod_def word_less_nat_alt)
qed

lemma aggregate_canonical:
  assumes "net_laws N"
  shows "canonical N ps (aggregate_in_place N ps)"
  using agg_fold_ok [OF assms sorted_by_key_lo, of "[]" ps]
  by (simp add: canonical_def aggregate_is_stack stack_ok_def sorted_wrt_rev)

lemma trunc_addrs:
  "net_laws N \<Longrightarrow> (\<Union>p \<in> set (map (net_trunc N) ps). net_addrs N p) = (\<Union>p \<in> set ps. net_addrs N p)"
  by (simp add: net_laws_def network_law_def net_addrs_def net_hi_def net_lo_def)

lemma normalize_canonical:
  assumes "net_laws N4" "net_laws N6" "length ipv4 + length ipv6 \<le> MAX_IP_PREFIX_SNAPSHOT_ITEMS"
  shows "\<exists>ps4 ps6. normalize_destination_prefixes N4 N6 ipv4 ipv6 = Inr (ps4, ps6) \<and>
    canonical N4 ipv4 ps4 \<and> canonical N6 ipv6 ps6"
  using aggregate_canonical [OF assms(1), of "map (net_trunc N4) ipv4"] trunc_addrs [OF assms(1), of ipv4]
    aggregate_canonical [OF assms(2), of "map (net_trunc N6) ipv6"] trunc_addrs [OF assms(2), of ipv6] assms(3)
  by (simp add: normalize_destination_prefixes_def checked_prefix_total_def canonical_def)

text \<open>
  C22: Normalising destination prefixes changes no address. When there are at most 4 Mi of them, the result
  for each family covers the same addresses as the input, is in ascending order without overlap, and has no
  two neighbours left that could be one prefix; above the limit the call fails with the limit error.
\<close>

theorem normalized_prefixes_canonical:
  assumes "net_laws N4" "net_laws N6"
  shows "case normalize_destination_prefixes N4 N6 ipv4 ipv6 of
      Inl e \<Rightarrow> e = TooManyPrefixes MAX_IP_PREFIX_SNAPSHOT_ITEMS \<and> MAX_IP_PREFIX_SNAPSHOT_ITEMS < length ipv4 + length ipv6
    | Inr (ps4, ps6) \<Rightarrow> length ipv4 + length ipv6 \<le> MAX_IP_PREFIX_SNAPSHOT_ITEMS \<and>
        canonical N4 ipv4 ps4 \<and> canonical N6 ipv6 ps6"
proof (cases "length ipv4 + length ipv6 \<le> MAX_IP_PREFIX_SNAPSHOT_ITEMS")
  case True
  then show ?thesis using normalize_canonical [OF assms True] by auto
next
  case False
  then show ?thesis by (simp add: normalize_destination_prefixes_def checked_prefix_total_def prefix_limit_error_def)
qed

lemma pair_network_parent:
  fixes p :: "'a::len word \<times> nat"
  defines "m \<equiv> min (snd p) LENGTH('a)"
  assumes "m \<noteq> 0"
  shows "pair_network (fst p, m - 1) = pair_network p - pair_network p mod 2 ^ (LENGTH('a) - (m - 1))"
proof -
  define k where "k = LENGTH('a) - snd p"
  define n where "n = unat (fst p)"
  have k: "LENGTH('a) - (m - 1) = Suc k" using assms(2) len_gt_0 [where 'a = 'a] by (auto simp: k_def m_def min_def)
  have "2 ^ k * (n div 2 ^ k) div 2 ^ Suc k = n div 2 ^ Suc k"
    by (simp add: div_mult2_eq mult.commute [of 2] del: mult.commute)
  then have "2 ^ Suc k * (n div 2 ^ Suc k) = 2 ^ k * (n div 2 ^ k) - 2 ^ k * (n div 2 ^ k) mod 2 ^ Suc k"
    by (metis minus_mod_eq_mult_div)
  then show ?thesis unfolding pair_network_def k fst_conv snd_conv by (simp only: k_def n_def)
qed

lemma pair_net_laws: "net_laws (pair_net :: ('a::len word, 'a word \<times> nat) net_ops)"
proof -
  let ?N = "pair_net :: ('a word, 'a word \<times> nat) net_ops"
  have lo: "net_lo ?N p = pair_network p" for p by (simp add: net_lo_def pair_net_def unat_pair_network)
  have hi: "net_hi ?N p = pair_network p + 2 ^ (LENGTH('a) - snd p)" for p
    unfolding net_hi_def lo by (cases p) (simp add: pair_net_def min_def)
  have again: "pair_network (of_nat (pair_network p) :: 'a word, snd p) = pair_network p" for p :: "'a word \<times> nat"
    using unat_pair_network [of p] by (simp add: pair_network_def)
  have "network_law ?N"
    unfolding network_law_def lo
    by (auto simp: pair_net_def again) (auto simp: pair_network_def min_def)
  moreover have "contains_law ?N" unfolding contains_law_def lo hi by (simp add: pair_net_def)
  moreover have "supernet_law ?N"
    unfolding supernet_law_def lo
  proof
    fix p :: "'a word \<times> nat"
    define m where "m = min (snd p) LENGTH('a)"
    have parent: "pair_network (of_nat (pair_network (fst p, m - 1)) :: 'a word, m - 1) =
        pair_network p - pair_network p mod 2 ^ (LENGTH('a) - (m - 1))" if "m \<noteq> 0"
      using again [of "(fst p, m - 1)"] pair_network_parent [of p, folded m_def] that by simp
    then show "case supernet ?N p of None \<Rightarrow> prefix_len ?N p = 0
      | Some q \<Rightarrow> prefix_len ?N p = Suc (prefix_len ?N q) \<and>
          pair_network q = pair_network p - pair_network p mod 2 ^ (LENGTH('a) - prefix_len ?N q)"
      by (cases p) (auto simp: pair_net_def m_def)
  qed
  ultimately show ?thesis by (simp add: net_laws_def)
qed

theorem normalized_prefixes_canonical_witness:
  "case normalize_destination_prefixes pair_net pair_net [(0x0A000000 :: 32 word, 9), (0x0A800001, 9), (0x0A010000, 16)]
      [(0 :: 128 word, 0)] of
     Inl e \<Rightarrow> False
   | Inr (ps4, ps6) \<Rightarrow> canonical pair_net [(0x0A000000 :: 32 word, 9), (0x0A800001, 9), (0x0A010000, 16)] ps4 \<and>
       canonical pair_net [(0 :: 128 word, 0)] ps6"
  using normalized_prefixes_canonical [OF pair_net_laws pair_net_laws,
    of "[(0x0A000000 :: 32 word, 9), (0x0A800001, 9), (0x0A010000, 16)]" "[(0 :: 128 word, 0)]"]
  by (auto simp: MAX_IP_PREFIX_SNAPSHOT_ITEMS_def split: sum.splits)

section \<open>Binary search in sorted ranges\<close>

text \<open>
  \<open>slice::binary_search_by\<close>: the window \<open>[base, base + size)\<close> is halved while it has more than one element,
  then one comparison decides. The comparison is that of \<open>contains_range_v4\<close> and \<open>contains_range_v6\<close>.
\<close>

datatype cmp_ordering = Less | Equal | Greater

definition range_cmp :: "'a::len word \<Rightarrow> 'a word \<times> 'a word \<Rightarrow> cmp_ordering" where
  "range_cmp ip r = (if ip < fst r then Greater else if snd r < ip then Less else Equal)"

function bsearch_base :: "('x \<Rightarrow> cmp_ordering) \<Rightarrow> 'x list \<Rightarrow> nat \<Rightarrow> nat \<Rightarrow> nat" where
  "bsearch_base f xs base sz =
    (if sz \<le> 1 then base
     else let half = sz div 2; mid = base + half
          in bsearch_base f xs (if f (xs ! mid) = Greater then base else mid) (sz - half))"
  by pat_completeness auto
termination by (relation "measure (\<lambda>(f, xs, base, sz). sz)") auto

declare bsearch_base.simps [simp del]

definition binary_search_by :: "('x \<Rightarrow> cmp_ordering) \<Rightarrow> 'x list \<Rightarrow> nat option" where
  "binary_search_by f xs =
    (if xs = [] then None
     else let base = bsearch_base f xs 0 (length xs)
          in if f (xs ! base) = Equal then Some base else None)"

definition contains_range :: "('a::len word \<times> 'a word) list \<Rightarrow> 'a word \<Rightarrow> bool" where
  "contains_range ranges ip \<longleftrightarrow> binary_search_by (range_cmp ip) ranges \<noteq> None"

text \<open>The element compared last is the last one the search does not find greater, if there is one.\<close>

lemma bsearch_base_last:
  assumes "sorted_wrt (\<lambda>x y. f x = Greater \<longrightarrow> f y = Greater) xs" "0 < sz" "base + sz \<le> length xs"
    "0 < base \<longrightarrow> f (xs ! base) \<noteq> Greater" "\<forall>j. base + sz \<le> j \<and> j < length xs \<longrightarrow> f (xs ! j) = Greater"
  shows "bsearch_base f xs base sz < length xs \<and>
    (\<forall>j. bsearch_base f xs base sz < j \<and> j < length xs \<longrightarrow> f (xs ! j) = Greater) \<and>
    (0 < bsearch_base f xs base sz \<longrightarrow> f (xs ! bsearch_base f xs base sz) \<noteq> Greater)"
  using assms
proof (induction f xs base sz rule: bsearch_base.induct)
  case (1 f xs base sz)
  show ?case
  proof (cases "sz \<le> 1")
    case True
    then show ?thesis using "1.prems" by (simp add: bsearch_base.simps [of f xs base sz])
  next
    case False
    define mid where "mid = base + sz div 2"
    define base' where "base' = (if f (xs ! mid) = Greater then base else mid)"
    have mid: "base < mid" "mid < base + sz" "mid < length xs" using False "1.prems" by (auto simp: mid_def)
    have later: "f (xs ! j) = Greater" if "f (xs ! mid) = Greater" "mid \<le> j" "j < length xs" for j
      using sorted_wrt_nth_less [OF "1.prems"(1), of mid j] that by (cases "j = mid") auto
    have "bsearch_base f xs base sz = bsearch_base f xs base' (sz - sz div 2)"
      using False by (simp add: bsearch_base.simps [of f xs base sz] Let_def mid_def base'_def)
    moreover have "0 < sz - sz div 2" "base' + (sz - sz div 2) \<le> length xs" "0 < base' \<longrightarrow> f (xs ! base') \<noteq> Greater"
      using False "1.prems"(2-4) by (auto simp: base'_def mid_def)
    moreover have "\<forall>j. base' + (sz - sz div 2) \<le> j \<and> j < length xs \<longrightarrow> f (xs ! j) = Greater"
    proof (cases "f (xs ! mid) = Greater")
      case True
      have "mid \<le> base + (sz - sz div 2)" by (simp add: mid_def)
      then show ?thesis using later [OF True] True by (auto simp: base'_def)
    next
      case False
      have "mid + (sz - sz div 2) = base + sz" by (simp add: mid_def)
      then show ?thesis using "1.prems"(5) False by (simp add: base'_def)
    qed
    ultimately show ?thesis using "1.IH" [OF False refl mid_def, folded base'_def] "1.prems"(1) by presburger
  qed
qed

lemma contains_range_iff:
  assumes "sorted_wrt (\<lambda>r s. snd r < fst s) ranges" "\<forall>r \<in> set ranges. fst r \<le> snd r"
  shows "contains_range ranges ip \<longleftrightarrow> (\<exists>r \<in> set ranges. fst r \<le> ip \<and> ip \<le> snd r)"
proof (cases "ranges = []")
  case True
  then show ?thesis by (simp add: contains_range_def binary_search_by_def)
next
  case False
  define b where "b = bsearch_base (range_cmp ip) ranges 0 (length ranges)"
  have mono: "sorted_wrt (\<lambda>x y. range_cmp ip x = Greater \<longrightarrow> range_cmp ip y = Greater) ranges"
    by (rule sorted_wrt_mono_rel [OF _ assms(1)]) (use assms(2) in \<open>force simp: range_cmp_def split: if_splits\<close>)
  have "b < length ranges \<and> (\<forall>j. b < j \<and> j < length ranges \<longrightarrow> range_cmp ip (ranges ! j) = Greater) \<and>
      (0 < b \<longrightarrow> range_cmp ip (ranges ! b) \<noteq> Greater)"
    unfolding b_def by (rule bsearch_base_last [OF mono]) (use False in auto)
  then have b: "b < length ranges" "\<forall>j. b < j \<and> j < length ranges \<longrightarrow> range_cmp ip (ranges ! j) = Greater"
    "0 < b \<longrightarrow> range_cmp ip (ranges ! b) \<noteq> Greater"
    by blast+
  have eq: "range_cmp ip r = Equal \<longleftrightarrow> fst r \<le> ip \<and> ip \<le> snd r" for r
    by (auto simp: range_cmp_def not_less)
  have only: "i = b" if "i < length ranges" "range_cmp ip (ranges ! i) = Equal" for i
  proof (rule ccontr)
    assume "i \<noteq> b"
    then consider "b < i" | "i < b" by linarith
    then show False
    proof cases
      case 2
      then have "fst (ranges ! b) \<le> ip" using b(3) by (auto simp: range_cmp_def split: if_splits)
      moreover have "snd (ranges ! i) < fst (ranges ! b)" using assms(1) 2 b(1) by (simp add: sorted_wrt_iff_nth_less)
      moreover have "ip \<le> snd (ranges ! i)" using that(2) unfolding eq by blast
      ultimately show False by order
    qed (use b(2) that in force)
  qed
  have "contains_range ranges ip \<longleftrightarrow> range_cmp ip (ranges ! b) = Equal"
    using False by (simp add: contains_range_def binary_search_by_def b_def Let_def)
  also have "\<dots> \<longleftrightarrow> (\<exists>i < length ranges. range_cmp ip (ranges ! i) = Equal)" using only b(1) by blast
  also have "\<dots> \<longleftrightarrow> (\<exists>r \<in> set ranges. fst r \<le> ip \<and> ip \<le> snd r)" unfolding eq by (metis in_set_conv_nth)
  finally show ?thesis .
qed

end
