(* ===== verification/Ruleset_Index.thy ===== *)
theory Ruleset_Index
  imports Ip_Prefix
begin

text \<open>
  The index of loaded rule sets (\<open>core-ruleset/src/matcher.rs\<close>, \<open>RulesetIndex\<close>) with the destination
  prefixes each set publishes for the TUN routes, and the conversion of a decoded MRS address set into
  such prefixes.

  Writers hold the \<open>update\<close> mutex from the first read to the end of the call. They store the new state
  and then publish its revision on a \<open>watch\<close> channel; readers take no lock, so they also see the state
  between the two. The step relation \<open>index_step\<close> has one step for each of the two. The prefix revision
  is a \<open>u64\<close> whose overflow panics, here the result \<open>None\<close>.

  A matcher is its name, its four prefix fields and the rest of its fields, \<open>rm_rules\<close>, of any type.
\<close>

datatype prefix_semantics = Exact | Extracted | NotIpSet

record ('n, 'm, 'r) ruleset_matcher =
  rm_name :: string
  destination_prefixes_v4 :: "'n list"
  destination_prefixes_v6 :: "'m list"
  destination_prefix_semantics :: prefix_semantics
  destination_prefix_error :: "prefix_error option"
  rm_rules :: 'r

definition matcher_new :: "string \<Rightarrow> 'r \<Rightarrow> ('n, 'm, 'r) ruleset_matcher" where
  "matcher_new name rules = \<lparr>rm_name = name, destination_prefixes_v4 = [], destination_prefixes_v6 = [],
     destination_prefix_semantics = NotIpSet, destination_prefix_error = None, rm_rules = rules\<rparr>"

definition install_destination_prefixes ::
  "prefix_error + 'n list \<times> 'm list \<Rightarrow> prefix_semantics \<Rightarrow> ('n, 'm, 'r) ruleset_matcher \<Rightarrow> ('n, 'm, 'r) ruleset_matcher" where
  "install_destination_prefixes nets semantics m =
    (let m = m\<lparr>destination_prefix_semantics := semantics\<rparr>
     in case nets of
          Inr (ipv4, ipv6) \<Rightarrow> m\<lparr>destination_prefixes_v4 := ipv4, destination_prefixes_v6 := ipv6, destination_prefix_error := None\<rparr>
        | Inl e \<Rightarrow> m\<lparr>destination_prefixes_v4 := [], destination_prefixes_v6 := [], destination_prefix_error := Some e\<rparr>)"

definition destination_ip_prefixes ::
  "('n, 'm, 'r) ruleset_matcher \<Rightarrow> prefix_error + prefix_semantics \<times> 'n list \<times> 'm list" where
  "destination_ip_prefixes m =
    (case destination_prefix_error m of
       Some e \<Rightarrow> Inl e
     | None \<Rightarrow> Inr (destination_prefix_semantics m, destination_prefixes_v4 m, destination_prefixes_v6 m))"

definition has_same_destination_prefixes :: "('n, 'm, 'r) ruleset_matcher \<Rightarrow> ('n, 'm, 'r) ruleset_matcher \<Rightarrow> bool" where
  "has_same_destination_prefixes m m' \<longleftrightarrow>
     destination_prefix_semantics m = destination_prefix_semantics m' \<and>
     destination_prefix_error m = destination_prefix_error m' \<and>
     destination_prefixes_v4 m = destination_prefixes_v4 m' \<and> destination_prefixes_v6 m = destination_prefixes_v6 m'"

section \<open>The index\<close>

datatype ruleset_availability = Pending | Unavailable

record ('n, 'm, 'r) index_state =
  revision :: nat
  matchers :: "string \<rightharpoonup> ('n, 'm, 'r) ruleset_matcher"
  availability :: "string \<rightharpoonup> ruleset_availability"

definition index_default :: "('n, 'm, 'r) index_state" where
  "index_default = \<lparr>revision = 0, matchers = Map.empty, availability = Map.empty\<rparr>"

definition bump_prefix_revision :: "('n, 'm, 'r) index_state \<Rightarrow> ('n, 'm, 'r) index_state option" where
  "bump_prefix_revision st = (if revision st + 1 < 2 ^ 64 then Some (st\<lparr>revision := revision st + 1\<rparr>) else None)"

text \<open>A writer returns the new state and the revision it has to publish, if any.\<close>

fun declare_names :: "string list \<Rightarrow> ('n, 'm, 'r) index_state \<Rightarrow> bool \<Rightarrow> ('n, 'm, 'r) index_state \<times> bool" where
  "declare_names [] st changed = (st, changed)"
| "declare_names (name # names) st changed =
    (if matchers st name = None \<and> availability st name = None
     then declare_names names (st\<lparr>availability := (availability st)(name \<mapsto> Pending)\<rparr>) True
     else declare_names names st changed)"

definition publish_bumped :: "('n, 'm, 'r) index_state \<Rightarrow> (('n, 'm, 'r) index_state \<times> nat option) option" where
  "publish_bumped st = map_option (\<lambda>st'. (st', Some (revision st'))) (bump_prefix_revision st)"

definition index_declare ::
  "string list \<Rightarrow> ('n, 'm, 'r) index_state \<Rightarrow> (('n, 'm, 'r) index_state \<times> nat option) option" where
  "index_declare names st =
    (case declare_names names st False of
       (st', changed) \<Rightarrow> if changed then publish_bumped st' else Some (st, None))"

definition mark_unavailable ::
  "string \<Rightarrow> ('n, 'm, 'r) index_state \<Rightarrow> (('n, 'm, 'r) index_state \<times> nat option) option" where
  "mark_unavailable name st =
    (if matchers st name \<noteq> None \<or> availability st name = Some Unavailable then Some (st, None)
     else publish_bumped (st\<lparr>availability := (availability st)(name \<mapsto> Unavailable)\<rparr>))"

definition index_insert ::
  "('n, 'm, 'r) ruleset_matcher \<Rightarrow> ('n, 'm, 'r) index_state \<Rightarrow> (('n, 'm, 'r) index_state \<times> nat option) option" where
  "index_insert m st =
    (let name = rm_name m;
         prefix_changed = (case matchers st name of
             Some previous \<Rightarrow> \<not> has_same_destination_prefixes previous m
           | None \<Rightarrow> True) \<or> availability st name \<noteq> None;
         st' = st\<lparr>matchers := (matchers st)(name \<mapsto> m), availability := (availability st)(name := None)\<rparr>
     in if prefix_changed then publish_bumped st' else Some (st', None))"

definition index_get :: "string \<Rightarrow> ('n, 'm, 'r) index_state \<Rightarrow> ('n, 'm, 'r) ruleset_matcher option" where
  "index_get name st = matchers st name"

section \<open>Snapshots\<close>

datatype prefix_status =
    S_Ready prefix_semantics | S_Pending | S_Unavailable | S_Missing
  | S_TooManyPrefixes nat | S_AllocationFailed | S_InvalidRange string

record ('n, 'm) prefix_set =
  ps_name :: string
  ps_status :: prefix_status
  ps_ipv4 :: "'n list"
  ps_ipv6 :: "'m list"

fun error_status :: "prefix_error \<Rightarrow> prefix_status" where
  "error_status (TooManyPrefixes limit) = S_TooManyPrefixes limit"
| "error_status AllocationFailed = S_AllocationFailed"
| "error_status (InvalidRange family) = S_InvalidRange family"

definition snapshot_of :: "('n, 'm, 'r) index_state \<Rightarrow> string \<Rightarrow> ('n, 'm) prefix_set" where
  "snapshot_of st name =
    (case matchers st name of
       Some m \<Rightarrow>
         (case destination_ip_prefixes m of
            Inr (semantics, ipv4, ipv6) \<Rightarrow> \<lparr>ps_name = name, ps_status = S_Ready semantics, ps_ipv4 = ipv4, ps_ipv6 = ipv6\<rparr>
          | Inl e \<Rightarrow> \<lparr>ps_name = name, ps_status = error_status e, ps_ipv4 = [], ps_ipv6 = []\<rparr>)
     | None \<Rightarrow>
         \<lparr>ps_name = name,
          ps_status = (case availability st name of
              Some Pending \<Rightarrow> S_Pending | Some Unavailable \<Rightarrow> S_Unavailable | None \<Rightarrow> S_Missing),
          ps_ipv4 = [], ps_ipv6 = []\<rparr>)"

fun snapshot_sets :: "('n, 'm, 'r) index_state \<Rightarrow> string set \<Rightarrow> string list \<Rightarrow> ('n, 'm) prefix_set list" where
  "snapshot_sets st seen [] = []"
| "snapshot_sets st seen (name # names) =
    (if name \<in> seen then snapshot_sets st seen names
     else snapshot_of st name # snapshot_sets st (insert name seen) names)"

definition build_ip_prefix_snapshot ::
  "('n, 'm, 'r) index_state \<Rightarrow> string list \<Rightarrow> nat \<times> ('n, 'm) prefix_set list" where
  "build_ip_prefix_snapshot st names = (revision st, snapshot_sets st {} names)"

section \<open>Writers, the publication and the readers\<close>

text \<open>The index with the published revision, and the revision a writer has stored and not yet published:
  while there is one, the mutex is taken.\<close>

record ('n, 'm, 'r) index =
  ix_state :: "('n, 'm, 'r) index_state"
  ix_published :: nat
  ix_writing :: "nat option"

definition index_new :: "('n, 'm, 'r) index" where
  "index_new = \<lparr>ix_state = index_default, ix_published = 0, ix_writing = None\<rparr>"

definition publish_prefix_revision :: "nat \<Rightarrow> nat \<Rightarrow> nat" where
  "publish_prefix_revision rv published = (if published < rv then rv else published)"

definition store :: "('n, 'm, 'r) index_state \<times> nat option \<Rightarrow> ('n, 'm, 'r) index \<Rightarrow> ('n, 'm, 'r) index" where
  "store r i = i\<lparr>ix_state := fst r, ix_writing := snd r\<rparr>"

inductive index_step :: "('n, 'm, 'r) index \<Rightarrow> ('n, 'm, 'r) index \<Rightarrow> bool" where
  Declare: "ix_writing i = None \<Longrightarrow> index_declare names (ix_state i) = Some r \<Longrightarrow> index_step i (store r i)"
| Mark: "ix_writing i = None \<Longrightarrow> mark_unavailable name (ix_state i) = Some r \<Longrightarrow> index_step i (store r i)"
| Insert: "ix_writing i = None \<Longrightarrow> index_insert m (ix_state i) = Some r \<Longrightarrow> index_step i (store r i)"
| Publish: "ix_writing i = Some rv \<Longrightarrow>
    index_step i (i\<lparr>ix_published := publish_prefix_revision rv (ix_published i), ix_writing := None\<rparr>)"

inductive_cases index_step_cases: "index_step i j"

text \<open>\<open>ip_prefix_snapshot_and_subscribe\<close>: the receiver starts at the published revision, read before the
  snapshot; other steps may run in between.\<close>

definition ip_prefix_snapshot :: "string list \<Rightarrow> ('n, 'm, 'r) index \<Rightarrow> nat \<times> ('n, 'm) prefix_set list" where
  "ip_prefix_snapshot names i = build_ip_prefix_snapshot (ix_state i) names"

section \<open>Stores with a version\<close>

text \<open>
  What a subscriber relies on: the version never goes back, and what it reads changes only with the
  version.
\<close>

locale versioned_store =
  fixes step :: "'s \<Rightarrow> 's \<Rightarrow> bool" and version :: "'s \<Rightarrow> nat" and view :: "'q \<Rightarrow> 's \<Rightarrow> 'v"
  assumes forward: "step s t \<Longrightarrow> version s \<le> version t"
    and unchanged: "step s t \<Longrightarrow> version s = version t \<Longrightarrow> view q s = view q t"
begin

lemma run_forward: "step\<^sup>*\<^sup>* s t \<Longrightarrow> version s \<le> version t"
  by (induction rule: rtranclp_induct) (auto dest: forward)

lemma run_unchanged: "step\<^sup>*\<^sup>* s t \<Longrightarrow> version s = version t \<Longrightarrow> view q s = view q t"
proof (induction rule: rtranclp_induct)
  case (step t u)
  then have "version s = version t" "version t = version u"
    using run_forward [OF step.hyps(1)] forward [OF step.hyps(2)] by simp_all
  then show ?case using step unchanged by metis
qed simp

lemma run_changed: "step\<^sup>*\<^sup>* s t \<Longrightarrow> view q s \<noteq> view q t \<Longrightarrow> version s < version t"
  using run_forward run_unchanged by (metis le_neq_implies_less)

end

lemma publish_bumped_revision: "publish_bumped st = Some (st', r) \<Longrightarrow> revision st < revision st' \<and> r = Some (revision st')"
  by (auto simp: publish_bumped_def bump_prefix_revision_def split: if_splits)

lemma declare_names_revision: "declare_names names st changed = (st', changed') \<Longrightarrow> revision st' = revision st"
  by (induction names st changed rule: declare_names.induct) (auto split: if_splits)

text \<open>Each writer either leaves every snapshot as it was and publishes nothing, or stores a higher revision
  and publishes it.\<close>

definition writes :: "('n, 'm, 'r) index_state \<Rightarrow> ('n, 'm, 'r) index_state \<times> nat option \<Rightarrow> bool" where
  "writes st r \<longleftrightarrow> (case snd r of
     None \<Rightarrow> revision (fst r) = revision st \<and> (\<forall>name. snapshot_of (fst r) name = snapshot_of st name)
   | Some rv \<Rightarrow> rv = revision (fst r) \<and> revision st < rv)"

lemma declare_writes: "index_declare names st = Some r \<Longrightarrow> writes st r"
  by (cases r) (auto simp: index_declare_def writes_def dest!: publish_bumped_revision declare_names_revision
      split: prod.splits if_splits)

lemma mark_writes: "mark_unavailable name st = Some r \<Longrightarrow> writes st r"
  by (cases r) (auto simp: mark_unavailable_def writes_def dest!: publish_bumped_revision split: if_splits)

lemma same_prefixes_read:
  "has_same_destination_prefixes m m' \<Longrightarrow> destination_ip_prefixes m = destination_ip_prefixes m'"
  by (auto simp: has_same_destination_prefixes_def destination_ip_prefixes_def split: option.split)

lemma insert_writes:
  assumes "index_insert m st = Some r"
  shows "writes st r"
proof -
  obtain st' p where r: "r = (st', p)" by (cases r)
  show ?thesis
  proof (cases "\<exists>previous. matchers st (rm_name m) = Some previous \<and> has_same_destination_prefixes previous m \<and>
      availability st (rm_name m) = None")
    case True
    then obtain previous where p: "matchers st (rm_name m) = Some previous" "has_same_destination_prefixes previous m"
      "availability st (rm_name m) = None" by blast
    then have "st' = st\<lparr>matchers := (matchers st)(rm_name m \<mapsto> m), availability := (availability st)(rm_name m := None)\<rparr>" "p = None"
      using assms r by (simp_all add: index_insert_def Let_def)
    then show ?thesis using p r same_prefixes_read [OF p(2)] by (auto simp: writes_def snapshot_of_def split: option.split)
  next
    case False
    then have "\<exists>st''. publish_bumped st'' = Some r \<and> revision st'' = revision st"
      using assms by (auto simp: index_insert_def Let_def split: option.splits if_splits)
    then show ?thesis using r by (auto simp: writes_def dest!: publish_bumped_revision)
  qed
qed

lemma snapshot_sets_cong: "(\<And>name. snapshot_of st name = snapshot_of st' name) \<Longrightarrow> snapshot_sets st seen names = snapshot_sets st' seen names"
  by (induction names arbitrary: seen) auto

lemma writes_snapshot:
  assumes "writes st r"
  shows "revision st \<le> revision (fst r)"
    "revision st = revision (fst r) \<Longrightarrow> build_ip_prefix_snapshot st names = build_ip_prefix_snapshot (fst r) names"
  using assms by (auto simp: writes_def build_ip_prefix_snapshot_def split: option.splits intro!: snapshot_sets_cong)

lemma index_step_write:
  assumes "index_step i j"
  shows "(ix_writing i = None \<and> (\<exists>r. writes (ix_state i) r \<and> j = store r i)) \<or>
    (\<exists>rv. ix_writing i = Some rv \<and> j = i\<lparr>ix_published := publish_prefix_revision rv (ix_published i), ix_writing := None\<rparr>)"
  using assms by (cases rule: index_step.cases) (auto dest: declare_writes mark_writes insert_writes)

interpretation index: versioned_store index_step "\<lambda>i. revision (ix_state i)" ip_prefix_snapshot
proof
  fix i j :: "('n, 'm, 'r) index" and names
  assume "index_step i j"
  note step = index_step_write [OF this]
  show "revision (ix_state i) \<le> revision (ix_state j)" using step by (auto simp: store_def dest: writes_snapshot(1))
  show "ip_prefix_snapshot names i = ip_prefix_snapshot names j" if "revision (ix_state i) = revision (ix_state j)"
    using step that by (auto simp: store_def ip_prefix_snapshot_def dest: writes_snapshot(2))
qed

text \<open>The published revision is the current one, except while a writer is about to publish it.\<close>

definition index_inv :: "('n, 'm, 'r) index \<Rightarrow> bool" where
  "index_inv i \<longleftrightarrow> (case ix_writing i of
     None \<Rightarrow> ix_published i = revision (ix_state i)
   | Some rv \<Rightarrow> rv = revision (ix_state i) \<and> ix_published i < rv)"

lemma index_inv_step: "index_inv i \<Longrightarrow> index_step i j \<Longrightarrow> index_inv j"
  by (auto simp: index_inv_def store_def publish_prefix_revision_def writes_def
      dest!: index_step_write split: option.splits)

lemma index_inv_run: "index_step\<^sup>*\<^sup>* i j \<Longrightarrow> index_inv i \<Longrightarrow> index_inv j"
  by (induction rule: rtranclp_induct) (auto dest: index_inv_step)

lemma index_inv_new: "index_inv index_new"
  by (simp add: index_inv_def index_new_def index_default_def)

text \<open>
  C21: A subscriber misses no change of the prefixes. Whatever writers run between creating the receiver
  (at \<open>s\<close>), reading the snapshot (at \<open>t\<close>) and any later moment \<open>u\<close> at which no writer is between its store
  and its publication: if the snapshot of the subscriber's names at \<open>u\<close> differs from the one it read, then the
  published revision has moved past the one the receiver was created with and is the revision of the
  snapshot at \<open>u\<close>.
\<close>

theorem subscriber_misses_no_update:
  assumes "index_step\<^sup>*\<^sup>* index_new s" "index_step\<^sup>*\<^sup>* s t" "index_step\<^sup>*\<^sup>* t u" "ix_writing u = None"
    and "ip_prefix_snapshot names t \<noteq> ip_prefix_snapshot names u"
  shows "ix_published s < ix_published u \<and> ix_published u = fst (ip_prefix_snapshot names u)"
proof -
  have s: "index_inv s" and u: "index_inv u"
    using assms(1-3) index_inv_new by (meson index_inv_run)+
  have "ix_published s \<le> revision (ix_state s)" using s by (auto simp: index_inv_def split: option.splits)
  also have "\<dots> \<le> revision (ix_state t)" using assms(2) by (rule index.run_forward)
  also have "\<dots> < revision (ix_state u)" using assms(3,5) by (rule index.run_changed)
  finally show ?thesis using u assms(4) by (simp add: index_inv_def ip_prefix_snapshot_def build_ip_prefix_snapshot_def)
qed

definition sample_matcher :: "string \<Rightarrow> (nat, nat, unit) ruleset_matcher" where
  "sample_matcher name = install_destination_prefixes (Inr ([1], [])) Exact (matcher_new name ())"

definition sample_declared :: "(nat, nat, unit) index" where
  "sample_declared = \<lparr>ix_state = \<lparr>revision = 1, matchers = Map.empty, availability = [''cn'' \<mapsto> Pending]\<rparr>,
     ix_published = 1, ix_writing = None\<rparr>"

definition sample_loaded :: "(nat, nat, unit) index" where
  "sample_loaded = \<lparr>ix_state = \<lparr>revision = 2, matchers = [''cn'' \<mapsto> sample_matcher ''cn''], availability = Map.empty\<rparr>,
     ix_published = 2, ix_writing = None\<rparr>"

lemma sample_declare_run: "index_step\<^sup>*\<^sup>* index_new sample_declared"
proof -
  let ?w = "store (\<lparr>revision = 1, matchers = Map.empty, availability = [''cn'' \<mapsto> Pending]\<rparr>, Some 1) index_new
    :: (nat, nat, unit) index"
  have "index_step index_new ?w"
    by (rule Declare [of _ "[''cn'']"])
      (simp_all add: index_new_def index_default_def index_declare_def publish_bumped_def bump_prefix_revision_def)
  moreover have "index_step ?w sample_declared"
    using Publish [of ?w 1] by (simp add: store_def index_new_def publish_prefix_revision_def sample_declared_def)
  ultimately show ?thesis by (meson converse_rtranclp_into_rtranclp r_into_rtranclp)
qed

lemma sample_load_run: "index_step\<^sup>*\<^sup>* sample_declared sample_loaded"
proof -
  let ?w = "store (\<lparr>revision = 2, matchers = [''cn'' \<mapsto> sample_matcher ''cn''], availability = Map.empty\<rparr>, Some 2) sample_declared"
  have "index_step sample_declared ?w"
    by (rule Insert [of _ "sample_matcher ''cn''"])
      (simp_all add: sample_declared_def index_insert_def publish_bumped_def bump_prefix_revision_def
        sample_matcher_def matcher_new_def install_destination_prefixes_def Let_def)
  moreover have "index_step ?w sample_loaded"
    using Publish [of ?w 2] by (simp add: store_def sample_declared_def publish_prefix_revision_def sample_loaded_def)
  ultimately show ?thesis by (meson converse_rtranclp_into_rtranclp r_into_rtranclp)
qed

theorem subscriber_misses_no_update_witness:
  "ix_published sample_declared < ix_published sample_loaded \<and>
     ix_published sample_loaded = fst (ip_prefix_snapshot [''cn''] sample_loaded)"
  by (rule subscriber_misses_no_update [OF sample_declare_run rtranclp.rtrancl_refl sample_load_run])
    (simp_all add: sample_loaded_def sample_declared_def ip_prefix_snapshot_def build_ip_prefix_snapshot_def)

section \<open>Prefixes of a decoded MRS address set\<close>

text \<open>The \<open>IpCidr\<close> arm of \<open>compile_mrs\<close>; the ranges themselves are kept for matching.\<close>

definition mrs_ip_prefixes ::
  "(u32, 'n) net_ops \<Rightarrow> (u128, 'm) net_ops \<Rightarrow> (u32 \<times> u32) list \<Rightarrow> (u128 \<times> u128) list \<Rightarrow> prefix_error + 'n list \<times> 'm list" where
  "mrs_ip_prefixes N4 N6 v4_ranges v6_ranges =
    and_then (ranges_to_prefixes N4 N6 v4_ranges v6_ranges)
      (\<lambda>(ipv4, ipv6). normalize_destination_prefixes N4 N6 ipv4 ipv6)"

lemma chain_addrs: "chain N a ps b \<Longrightarrow> a \<le> b \<and> (\<Union>p \<in> set ps. net_addrs N p) = {a ..< b}"
proof (induction ps arbitrary: a)
  case (Cons p ps)
  then have IH: "net_hi N p \<le> b" "(\<Union>p \<in> set ps. net_addrs N p) = {net_hi N p ..< b}" by simp_all
  then show ?case using Cons.prems lo_less_hi [of N p] by (auto simp: net_addrs_def)
qed simp

lemma cut_into_addrs:
  assumes "cut_into N ranges ps"
  shows "(\<Union>p \<in> set ps. net_addrs N p) = {n. \<exists>r \<in> set ranges. unat (fst r) \<le> n \<and> n \<le> unat (snd r)}"
proof -
  obtain parts where ps: "ps = concat parts" and all: "list_all2 (\<lambda>(a, b) part. chain N (unat a) part (unat b + 1) \<and>
      length part \<le> 2 * LENGTH('a) + 1) ranges parts"
    using assms by (auto simp: cut_into_def)
  from all have "(\<Union>p \<in> set (concat parts). net_addrs N p) = {n. \<exists>r \<in> set ranges. unat (fst r) \<le> n \<and> n \<le> unat (snd r)}"
  proof (induction rule: list_all2_induct)
    case (Cons r ranges part parts)
    then have "(\<Union>p \<in> set part. net_addrs N p) = {unat (fst r) ..< unat (snd r) + 1}"
      using chain_addrs [of N "unat (fst r)" part "unat (snd r) + 1"] by (simp split: prod.splits)
    then have "(\<Union>p \<in> set part. net_addrs N p) = {n. unat (fst r) \<le> n \<and> n \<le> unat (snd r)}" by auto
    then show ?case using Cons.IH by (simp add: UN_Un) blast
  qed simp
  then show ?thesis by (simp add: ps)
qed

definition sorted_ranges :: "('a::len word \<times> 'a word) list \<Rightarrow> bool" where
  "sorted_ranges ranges \<longleftrightarrow> sorted_wrt (\<lambda>r s. snd r < fst s) ranges \<and> (\<forall>r \<in> set ranges. fst r \<le> snd r)"

lemma contains_range_addrs:
  assumes "sorted_ranges ranges" "cut_into N ranges ps" "canonical N ps ps'"
  shows "contains_range ranges ip \<longleftrightarrow> (\<exists>p \<in> set ps'. unat ip \<in> net_addrs N p)"
proof -
  have "contains_range ranges ip \<longleftrightarrow> (\<exists>r \<in> set ranges. fst r \<le> ip \<and> ip \<le> snd r)"
    using assms(1) by (intro contains_range_iff) (simp_all add: sorted_ranges_def)
  also have "\<dots> \<longleftrightarrow> unat ip \<in> (\<Union>p \<in> set ps. net_addrs N p)"
    unfolding cut_into_addrs [OF assms(2)] by (auto simp: word_le_nat_alt)
  also have "\<dots> \<longleftrightarrow> unat ip \<in> (\<Union>p \<in> set ps'. net_addrs N p)" using assms(3) by (simp add: canonical_def)
  finally show ?thesis by simp
qed

end
