(* ===== verification/Classical_Match.thy ===== *)
theory Classical_Match
  imports Classical_Parse Suffix_Trie Ruleset_Index
begin

text \<open>
  Line-based rule sets compiled into one matcher (\<open>core-ruleset/src/matcher.rs\<close>): \<open>compile\<close> with its
  logical rules, \<open>matches_context\<close> and the evaluation while metadata is pending.

  The fields of \<open>RulesetMatcher\<close> other than its name and its published prefixes are \<open>matcher_base\<close> with the
  logical rules beside it, since these contain matchers again. A hash set is a list without repetition.
  \<open>IpNetworkTable\<close> is the list of its networks. A compiled pattern set is the predicate it decides. The lookup
  in an MRS domain set is the field \<open>b_mrs_domain_set\<close>. The functions on IP suffixes, alias names and domain patterns
  have the same text in \<open>core-route\<close> and are those of \<open>Route_Match\<close>.
\<close>

record matcher_base =
  b_domains :: "string list"
  b_suffix_trie :: suffix_trie
  b_keywords :: "string list"
  b_keyword_automaton :: "(string \<Rightarrow> nat list) option"
  b_wildcard_set :: "(string \<Rightarrow> bool) option"
  b_regex_set :: "(string \<Rightarrow> bool) option"
  b_fancy_regexes :: "(string \<Rightarrow> bool option) list"
  b_cidr_v4 :: "ip_net list"
  b_cidr_v6 :: "ip_net list"
  b_destination_prefix_table :: "ip_net list"
  b_src_cidr_v4 :: "ip_net list"
  b_src_cidr_v6 :: "ip_net list"
  b_source_prefix_table :: "ip_net list"
  b_destination_ip_suffixes :: "ip_suffix list"
  b_source_ip_suffixes :: "ip_suffix list"
  b_destination_geoip :: "string list"
  b_source_geoip :: "string list"
  b_destination_geosite :: "string list"
  b_destination_asn :: "u32 list"
  b_source_asn :: "u32 list"
  b_destination_geoip_aliases :: "string list list"
  b_source_geoip_aliases :: "string list list"
  b_destination_geosite_aliases :: "string list list"
  b_destination_asn_aliases :: "string list list"
  b_source_asn_aliases :: "string list list"
  b_destination_ip_requires_resolution :: bool
  b_processes :: "string list"
  b_process_paths :: "string list"
  b_process_regex_set :: "(string \<Rightarrow> bool) option"
  b_process_path_regex_set :: "(string \<Rightarrow> bool) option"
  b_process_wildcard_set :: "(string \<Rightarrow> bool) option"
  b_process_path_wildcard_set :: "(string \<Rightarrow> bool) option"
  b_rematch_names :: "string list"
  b_networks :: "string list"
  b_ports :: "(u16 \<times> u16) list"
  b_src_ports :: "(u16 \<times> u16) list"
  b_inbound_ports :: "(u16 \<times> u16) list"
  b_inbound_types :: "string list"
  b_inbound_users :: "string list"
  b_inbound_names :: "string list"
  b_dscp_values :: "u8 list"
  b_uid_values :: "u32 list"
  b_match_all :: bool
  b_classical_count :: nat
  b_mrs_domain_set :: "(string \<Rightarrow> bool) option"
  b_mrs_v4_ranges :: "(u32 \<times> u32) list"
  b_mrs_v6_ranges :: "(u128 \<times> u128) list"
  b_mrs_count :: nat
  b_semantic_program :: "ruleset_program option"

definition base_default :: matcher_base where
  "base_default = \<lparr>b_domains = [], b_suffix_trie = trie_default, b_keywords = [], b_keyword_automaton = None,
     b_wildcard_set = None, b_regex_set = None, b_fancy_regexes = [], b_cidr_v4 = [], b_cidr_v6 = [],
     b_destination_prefix_table = [], b_src_cidr_v4 = [], b_src_cidr_v6 = [], b_source_prefix_table = [],
     b_destination_ip_suffixes = [], b_source_ip_suffixes = [], b_destination_geoip = [], b_source_geoip = [],
     b_destination_geosite = [], b_destination_asn = [], b_source_asn = [], b_destination_geoip_aliases = [],
     b_source_geoip_aliases = [], b_destination_geosite_aliases = [], b_destination_asn_aliases = [],
     b_source_asn_aliases = [], b_destination_ip_requires_resolution = False, b_processes = [], b_process_paths = [],
     b_process_regex_set = None, b_process_path_regex_set = None, b_process_wildcard_set = None,
     b_process_path_wildcard_set = None, b_rematch_names = [], b_networks = [], b_ports = [], b_src_ports = [],
     b_inbound_ports = [], b_inbound_types = [], b_inbound_users = [], b_inbound_names = [], b_dscp_values = [],
     b_uid_values = [], b_match_all = False, b_classical_count = 0, b_mrs_domain_set = None, b_mrs_v4_ranges = [],
     b_mrs_v6_ranges = [], b_mrs_count = 0, b_semantic_program = None\<rparr>"

datatype matcher_rules = Rules (mr_base: matcher_base) (mr_logical: "logical_rule list")
and logical_rule = L_Leaf string matcher_rules | L_And "logical_rule list" | L_Or "logical_rule list" | L_Not logical_rule

section \<open>Compiling the entries\<close>

definition parse_port_range :: "string \<Rightarrow> (u16 \<times> u16) option" where
  "parse_port_range s =
    (case split_once CHR ''-'' s of
       Some (a, b) \<Rightarrow>
         (case parse_unsigned (2 ^ 16) a of
            None \<Rightarrow> None
          | Some l \<Rightarrow> map_option (\<lambda>h. (of_nat l, of_nat h)) (parse_unsigned (2 ^ 16) b))
     | None \<Rightarrow> map_option (\<lambda>p. (of_nat p, of_nat p)) (parse_unsigned (2 ^ 16) s))"

definition insert_slash_values :: "class_env \<Rightarrow> string \<Rightarrow> string list \<Rightarrow> string list" where
  "insert_slash_values x value target =
    fold List.insert (map (to_lowercase (cx_u x)) (filter (\<lambda>v. v \<noteq> []) (map (trim (cx_u x)) (split_on CHR ''/'' value)))) target"

definition compile_regex_set :: "class_env \<Rightarrow> string list \<Rightarrow> (string \<Rightarrow> bool) option" where
  "compile_regex_set x patterns = (if patterns = [] then None else cx_regex_set x patterns)"

definition compile_glob_set :: "class_env \<Rightarrow> string list \<Rightarrow> (string \<Rightarrow> bool) option" where
  "compile_glob_set x patterns =
    (if patterns = [] then None
     else if list_ex (\<lambda>p. x_glob (cx x) p = None) patterns then None else cx_glob_set x patterns)"

text \<open>The matcher under construction and the local variables of \<open>compile\<close>.\<close>

record compile_state =
  cs_base :: matcher_base
  cs_logical :: "logical_rule list"
  cs_regex_pats :: "string list"
  cs_wildcard_pats :: "string list"
  cs_process_regex_pats :: "string list"
  cs_process_path_regex_pats :: "string list"
  cs_process_wildcard_pats :: "string list"
  cs_process_path_wildcard_pats :: "string list"
  cs_saw_destination_prefix :: bool
  cs_saw_non_destination_rule :: bool

definition compile_start :: "nat \<Rightarrow> compile_state" where
  "compile_start n = \<lparr>cs_base = base_default\<lparr>b_classical_count := n\<rparr>, cs_logical = [], cs_regex_pats = [], cs_wildcard_pats = [],
     cs_process_regex_pats = [], cs_process_path_regex_pats = [], cs_process_wildcard_pats = [],
     cs_process_path_wildcard_pats = [], cs_saw_destination_prefix = False, cs_saw_non_destination_rule = False\<rparr>"

definition on_base :: "(matcher_base \<Rightarrow> matcher_base) \<Rightarrow> compile_state \<Rightarrow> compile_state" where
  "on_base f cs = cs\<lparr>cs_base := f (cs_base cs)\<rparr>"

definition saw_other :: "compile_state \<Rightarrow> compile_state" where
  "saw_other cs = cs\<lparr>cs_saw_non_destination_rule := True\<rparr>"

text \<open>The aliases are pushed when the insertion into the hash set was new.\<close>

definition push_new :: "'a \<Rightarrow> 'a list \<Rightarrow> 'b \<Rightarrow> 'b list \<Rightarrow> 'b list" where
  "push_new c known v vs = (if c \<in> set known then vs else vs @ [v])"

text \<open>One iteration of the loop over the entries. The argument \<open>logical\<close> is \<open>compile_logical_rule\<close>.\<close>

definition compile_entry ::
  "(classical_kind \<Rightarrow> string \<Rightarrow> logical_rule option) \<Rightarrow> class_env \<Rightarrow> classical_entry \<Rightarrow> compile_state \<Rightarrow> compile_state" where
  "compile_entry logical x e cs =
    (let v = ce_value e;
         no_resolve = (case ce_policy e of Some p \<Rightarrow> eq_ignore_ascii_case p ''no-resolve'' | None \<Rightarrow> False);
         resolve = (\<lambda>b. b\<lparr>b_destination_ip_requires_resolution := b_destination_ip_requires_resolution b \<or> \<not> no_resolve\<rparr>)
     in case ce_kind e of
       K_Domain \<Rightarrow> on_base (\<lambda>b. b\<lparr>b_domains := List.insert (normalize_domain (cx x) v) (b_domains b)\<rparr>) (saw_other cs)
     | K_DomainSuffix \<Rightarrow> on_base (\<lambda>b. b\<lparr>b_suffix_trie := trie_insert (cx x) v (b_suffix_trie b)\<rparr>) (saw_other cs)
     | K_DomainKeyword \<Rightarrow> on_base (\<lambda>b. b\<lparr>b_keywords := b_keywords b @ [to_lowercase (cx_u x) v]\<rparr>) (saw_other cs)
     | K_DomainRegex \<Rightarrow> (saw_other cs)\<lparr>cs_regex_pats := cs_regex_pats cs @ [v]\<rparr>
     | K_DomainWildcard \<Rightarrow> (saw_other cs)\<lparr>cs_wildcard_pats := cs_wildcard_pats cs @ [normalize_route_domain_pattern (cx x) v]\<rparr>
     | K_GeoSite \<Rightarrow>
         (let c = to_ascii_lowercase v
          in on_base (\<lambda>b. b\<lparr>b_destination_geosite := List.insert c (b_destination_geosite b),
                    b_destination_geosite_aliases := push_new c (b_destination_geosite b) (ruleset_name_candidates (cx x) ''geosite'' c) (b_destination_geosite_aliases b)\<rparr>)
             (saw_other cs))
     | K_GeoIp \<Rightarrow>
         (let c = to_ascii_lowercase v
          in on_base (\<lambda>b. let b = resolve b in b\<lparr>b_destination_geoip := List.insert c (b_destination_geoip b),
                    b_destination_geoip_aliases := push_new c (b_destination_geoip b) (ruleset_name_candidates (cx x) ''geoip'' c) (b_destination_geoip_aliases b)\<rparr>)
             (saw_other cs))
     | K_SrcGeoIp \<Rightarrow>
         (let c = to_ascii_lowercase v
          in on_base (\<lambda>b. b\<lparr>b_source_geoip := List.insert c (b_source_geoip b),
                    b_source_geoip_aliases := push_new c (b_source_geoip b) (ruleset_name_candidates (cx x) ''geoip'' c) (b_source_geoip_aliases b)\<rparr>)
             (saw_other cs))
     | K_IpCidr \<Rightarrow>
         (case x_parse_net (cx x) v of
            Some net \<Rightarrow> (on_base (\<lambda>b. let b = resolve b in case net of
                V4_Net _ _ \<Rightarrow> b\<lparr>b_cidr_v4 := b_cidr_v4 b @ [net]\<rparr> | V6_Net _ _ \<Rightarrow> b\<lparr>b_cidr_v6 := b_cidr_v6 b @ [net]\<rparr>) cs)
              \<lparr>cs_saw_destination_prefix := True\<rparr>
          | None \<Rightarrow> saw_other cs)
     | K_SrcIpCidr \<Rightarrow>
         (case x_parse_net (cx x) v of
            Some net \<Rightarrow> on_base (\<lambda>b. case net of
                V4_Net _ _ \<Rightarrow> b\<lparr>b_src_cidr_v4 := b_src_cidr_v4 b @ [net]\<rparr> | V6_Net _ _ \<Rightarrow> b\<lparr>b_src_cidr_v6 := b_src_cidr_v6 b @ [net]\<rparr>)
              (saw_other cs)
          | None \<Rightarrow> saw_other cs)
     | K_IpSuffix \<Rightarrow>
         (case parse_ip_suffix v of
            Some sfx \<Rightarrow> on_base (\<lambda>b. let b = resolve b in b\<lparr>b_destination_ip_suffixes := b_destination_ip_suffixes b @ [sfx]\<rparr>) (saw_other cs)
          | None \<Rightarrow> saw_other cs)
     | K_SrcIpSuffix \<Rightarrow>
         (case parse_ip_suffix v of
            Some sfx \<Rightarrow> on_base (\<lambda>b. b\<lparr>b_source_ip_suffixes := b_source_ip_suffixes b @ [sfx]\<rparr>) (saw_other cs)
          | None \<Rightarrow> saw_other cs)
     | K_IpAsn \<Rightarrow>
         (case parse_asn x v of
            Some asn \<Rightarrow> on_base (\<lambda>b. let b = resolve b in b\<lparr>b_destination_asn := List.insert asn (b_destination_asn b),
                    b_destination_asn_aliases := push_new asn (b_destination_asn b) (ruleset_name_candidates (cx x) ''asn'' (show_nat (unat asn))) (b_destination_asn_aliases b)\<rparr>)
               (saw_other cs)
          | None \<Rightarrow> saw_other cs)
     | K_SrcIpAsn \<Rightarrow>
         (case parse_asn x v of
            Some asn \<Rightarrow> on_base (\<lambda>b. b\<lparr>b_source_asn := List.insert asn (b_source_asn b),
                    b_source_asn_aliases := push_new asn (b_source_asn b) (ruleset_name_candidates (cx x) ''asn'' (show_nat (unat asn))) (b_source_asn_aliases b)\<rparr>)
               (saw_other cs)
          | None \<Rightarrow> saw_other cs)
     | K_DstPort \<Rightarrow>
         (case parse_port_range v of
            Some r \<Rightarrow> on_base (\<lambda>b. b\<lparr>b_ports := b_ports b @ [r]\<rparr>) (saw_other cs) | None \<Rightarrow> saw_other cs)
     | K_SrcPort \<Rightarrow>
         (case parse_port_range v of
            Some r \<Rightarrow> on_base (\<lambda>b. b\<lparr>b_src_ports := b_src_ports b @ [r]\<rparr>) (saw_other cs) | None \<Rightarrow> saw_other cs)
     | K_InPort \<Rightarrow>
         (case parse_port_range v of
            Some r \<Rightarrow> on_base (\<lambda>b. b\<lparr>b_inbound_ports := b_inbound_ports b @ [r]\<rparr>) (saw_other cs) | None \<Rightarrow> saw_other cs)
     | K_InType \<Rightarrow> on_base (\<lambda>b. b\<lparr>b_inbound_types := insert_slash_values x v (b_inbound_types b)\<rparr>) (saw_other cs)
     | K_InUser \<Rightarrow> on_base (\<lambda>b. b\<lparr>b_inbound_users := insert_slash_values x v (b_inbound_users b)\<rparr>) (saw_other cs)
     | K_InName \<Rightarrow> on_base (\<lambda>b. b\<lparr>b_inbound_names := insert_slash_values x v (b_inbound_names b)\<rparr>) (saw_other cs)
     | K_Dscp \<Rightarrow>
         (case parse_unsigned 256 v of
            Some n \<Rightarrow> on_base (\<lambda>b. b\<lparr>b_dscp_values := List.insert (of_nat n) (b_dscp_values b)\<rparr>) (saw_other cs) | None \<Rightarrow> saw_other cs)
     | K_Uid \<Rightarrow>
         (case parse_unsigned (2 ^ 32) v of
            Some n \<Rightarrow> on_base (\<lambda>b. b\<lparr>b_uid_values := List.insert (of_nat n) (b_uid_values b)\<rparr>) (saw_other cs) | None \<Rightarrow> saw_other cs)
     | K_ProcessName \<Rightarrow> on_base (\<lambda>b. b\<lparr>b_processes := List.insert (to_ascii_lowercase v) (b_processes b)\<rparr>) (saw_other cs)
     | K_ProcessPath \<Rightarrow> on_base (\<lambda>b. b\<lparr>b_process_paths := List.insert (to_lowercase (cx_u x) v) (b_process_paths b)\<rparr>) (saw_other cs)
     | K_ProcessNameRegex \<Rightarrow> (saw_other cs)\<lparr>cs_process_regex_pats := cs_process_regex_pats cs @ [v]\<rparr>
     | K_ProcessPathRegex \<Rightarrow> (saw_other cs)\<lparr>cs_process_path_regex_pats := cs_process_path_regex_pats cs @ [v]\<rparr>
     | K_ProcessNameWildcard \<Rightarrow> (saw_other cs)\<lparr>cs_process_wildcard_pats := cs_process_wildcard_pats cs @ [v]\<rparr>
     | K_ProcessPathWildcard \<Rightarrow> (saw_other cs)\<lparr>cs_process_path_wildcard_pats := cs_process_path_wildcard_pats cs @ [v]\<rparr>
     | K_RematchName \<Rightarrow> on_base (\<lambda>b. b\<lparr>b_rematch_names := insert_slash_values x v (b_rematch_names b)\<rparr>) (saw_other cs)
     | K_Network \<Rightarrow> on_base (\<lambda>b. b\<lparr>b_networks := insert_slash_values x v (b_networks b)\<rparr>) (saw_other cs)
     | K_Match \<Rightarrow> on_base (\<lambda>b. b\<lparr>b_match_all := True\<rparr>) (saw_other cs)
     | k \<Rightarrow>
         (case logical k v of
            Some rule \<Rightarrow> (saw_other cs)\<lparr>cs_logical := cs_logical cs @ [rule]\<rparr>
          | None \<Rightarrow> saw_other cs))"

text \<open>The steps after the loop.\<close>

fun net_len :: "ip_net \<Rightarrow> nat" where
  "net_len (V4_Net _ l) = l"
| "net_len (V6_Net _ l) = l"

definition longest_first :: "ip_net list \<Rightarrow> ip_net list" where
  "longest_first nets = sort_key (\<lambda>n. - int (net_len n)) nets"

definition prefix_table :: "class_env \<Rightarrow> ip_net list \<Rightarrow> ip_net list" where
  "prefix_table x nets = List.map_filter (\<lambda>n. cx_network_parse x (cx_show_net x n)) nets"

definition is_fast :: "class_env \<Rightarrow> string \<Rightarrow> bool" where
  "is_fast x p \<longleftrightarrow> x_regex (cx x) p \<noteq> None"

definition compile_finish :: "class_env \<Rightarrow> compile_state \<Rightarrow> matcher_base" where
  "compile_finish x cs =
    (let b = cs_base cs;
         fast = filter (is_fast x) (cs_regex_pats cs);
         fancy = List.map_filter (x_fancy (cx x)) (filter (\<lambda>p. \<not> is_fast x p) (cs_regex_pats cs));
         globs = filter (\<lambda>p. x_glob (cx x) p \<noteq> None) (cs_wildcard_pats cs);
         v4 = longest_first (b_cidr_v4 b); v6 = longest_first (b_cidr_v6 b);
         src4 = longest_first (b_src_cidr_v4 b); src6 = longest_first (b_src_cidr_v6 b)
     in b\<lparr>b_fancy_regexes := fancy,
          b_regex_set := (if fast = [] then None else cx_regex_set_ci x fast),
          b_keyword_automaton := (if b_keywords b = [] then None else x_aho (cx x) (b_keywords b)),
          b_wildcard_set := (if cs_wildcard_pats cs = [] then None else cx_glob_set x globs),
          b_process_regex_set := compile_regex_set x (cs_process_regex_pats cs),
          b_process_path_regex_set := compile_regex_set x (cs_process_path_regex_pats cs),
          b_process_wildcard_set := compile_glob_set x (cs_process_wildcard_pats cs),
          b_process_path_wildcard_set := compile_glob_set x (cs_process_path_wildcard_pats cs),
          b_cidr_v4 := v4, b_cidr_v6 := v6, b_src_cidr_v4 := src4, b_src_cidr_v6 := src6,
          b_destination_prefix_table := prefix_table x (v4 @ v6),
          b_source_prefix_table := prefix_table x (src4 @ src6)\<rparr>)"

definition compile_loop ::
  "(classical_kind \<Rightarrow> string \<Rightarrow> logical_rule option) \<Rightarrow> class_env \<Rightarrow> classical_entry list \<Rightarrow> compile_state" where
  "compile_loop logical x entries = fold (compile_entry logical x) entries (compile_start (length entries))"

definition rules_with ::
  "(classical_kind \<Rightarrow> string \<Rightarrow> logical_rule option) \<Rightarrow> class_env \<Rightarrow> classical_entry list \<Rightarrow> matcher_rules" where
  "rules_with logical x entries =
    (let cs = compile_loop logical x entries in Rules (compile_finish x cs) (cs_logical cs))"

text \<open>A leaf is compiled from one entry that is not logical, so the argument of \<open>rules_with\<close> is not called there.\<close>

definition leaf :: "class_env \<Rightarrow> classical_entry \<Rightarrow> logical_rule" where
  "leaf x e = L_Leaf ''logical'' (rules_with (\<lambda>_ _. None) x [e])"

definition combine_logical :: "classical_kind \<Rightarrow> logical_rule list \<Rightarrow> logical_rule option" where
  "combine_logical kind rules =
    (if kind = K_And then Some (L_And rules)
     else if kind = K_Or then Some (L_Or rules)
     else if kind = K_Not \<and> length rules = 1 then Some (L_Not (hd rules))
     else None)"

lemma map_filter_cong [fundef_cong]:
  "xs = ys \<Longrightarrow> (\<And>y. y \<in> set ys \<Longrightarrow> f y = g y) \<Longrightarrow> List.map_filter f xs = List.map_filter g ys"
  by (induction ys arbitrary: xs) (auto simp: List.map_filter_simps split: option.split)

lemma logical_payload_lines:
  assumes "logical_payload f x kind payload = Inr es" "e \<in> set es"
  shows "\<exists>line. length line < length payload \<and> f line = Inr e"
proof -
  obtain inner where inner: "strip_parentheses (cx_u x) payload = Some inner"
    and rs: "collect_results (map (\<lambda>child. case strip_parentheses (cx_u x) child of
      None \<Rightarrow> Inl ''logical child requires parentheses'' | Some line \<Rightarrow> f line) (split_top_level_commas (cx_u x) inner)) = Inr es"
    using assms(1) by (auto simp: logical_payload_def and_then_Inr_iff check_children_def split: option.splits if_splits)
  then have "Inr e \<in> set (map (\<lambda>child. case strip_parentheses (cx_u x) child of
      None \<Rightarrow> Inl ''logical child requires parentheses'' | Some line \<Rightarrow> f line) (split_top_level_commas (cx_u x) inner))"
    using assms(2) by (simp add: collect_results_Inr_iff)
  then obtain child line where child: "child \<in> set (split_top_level_commas (cx_u x) inner)"
    "strip_parentheses (cx_u x) child = Some line" "f line = Inr e"
    by (auto split: option.splits)
  have "length child \<le> length inner" using child(1) split_depth_length length_trim order_trans
    by (auto simp: split_top_level_commas_def) blast
  then have "length line < length payload" using strip_parentheses_length [OF inner] strip_parentheses_length [OF child(2)] by simp
  then show ?thesis using child(3) by blast
qed

lemma classical_line_logical_value:
  assumes "parse_classical_line_strict x value = Inr e" "is_logical (ce_kind e)"
  shows "length (ce_value e) \<le> length value"
proof -
  obtain kind raw src nr where f: "classical_fields x value = Inr (kind, raw, src, nr)" and ne: "kind \<noteq> K_Match"
    and k: "ce_kind e = normalized_kind kind src" and v: "is_logical kind \<Longrightarrow> ce_value e = raw"
    using assms by (subst (asm) parse_classical_line_strict.simps)
      (auto simp: and_then_Inr_iff is_logical_def split: sum.splits prod.splits if_splits)
  have "normalized_kind kind src = kind" using assms(2) k normalized_kind_process [of kind src] by (auto simp: is_logical_def)
  then show ?thesis using v k assms(2) classical_fields_length [OF f] by simp
qed

lemma logical_child_length:
  assumes "parse_logical_payload x kind payload = Inr es" "e \<in> set es" "is_logical (ce_kind e)"
  shows "length (ce_value e) < length payload"
  using logical_payload_lines [OF assms(1) [unfolded parse_logical_payload_def] assms(2)]
    classical_line_logical_value [OF _ assms(3)] by (metis le_less_trans)

function compile_logical_rule :: "class_env \<Rightarrow> classical_kind \<Rightarrow> string \<Rightarrow> logical_rule option" where
  "compile_logical_rule x kind payload =
    (case parse_logical_payload x kind payload of
       Inl _ \<Rightarrow> None
     | Inr es \<Rightarrow>
         combine_logical kind (List.map_filter (\<lambda>e.
           if is_logical (ce_kind e) then compile_logical_rule x (ce_kind e) (ce_value e) else Some (leaf x e)) es))"
  by pat_completeness auto
termination
  by (relation "measure (\<lambda>(x, kind, payload). length payload)") (auto simp: logical_child_length)

declare compile_logical_rule.simps [simp del]

definition try_clone_prefixes :: "'n list \<Rightarrow> 'm list \<Rightarrow> prefix_error + 'n list \<times> 'm list" where
  "try_clone_prefixes ipv4 ipv6 = and_then (checked_prefix_total (length ipv4) (length ipv6)) (\<lambda>_. Inr (ipv4, ipv6))"

definition compile ::
  "class_env \<Rightarrow> (u32, ip_net) net_ops \<Rightarrow> (u128, ip_net) net_ops \<Rightarrow> string \<Rightarrow> classical_entry list \<Rightarrow>
    (ip_net, ip_net, matcher_rules) ruleset_matcher" where
  "compile x N4 N6 name entries =
    (let cs = compile_loop (compile_logical_rule x) x entries;
         b = compile_finish x cs;
         semantics = (if \<not> cs_saw_destination_prefix cs then NotIpSet
                      else if cs_saw_non_destination_rule cs then Extracted else Exact);
         nets = and_then (try_clone_prefixes (b_cidr_v4 b) (b_cidr_v6 b))
           (\<lambda>(ipv4, ipv6). normalize_destination_prefixes N4 N6 ipv4 ipv6)
     in install_destination_prefixes nets semantics (matcher_new name (Rules b (cs_logical cs))))"

section \<open>Matching\<close>

definition option_in_set :: "class_env \<Rightarrow> string option \<Rightarrow> string list \<Rightarrow> bool" where
  "option_in_set x value vs \<longleftrightarrow> on_some value (\<lambda>v. to_lowercase (cx_u x) v \<in> set vs)"

definition in_port_range :: "u16 \<Rightarrow> u16 \<times> u16 \<Rightarrow> bool" where
  "in_port_range p r \<longleftrightarrow> fst r \<le> p \<and> p \<le> snd r"

definition either_host :: "string \<Rightarrow> string \<Rightarrow> (string \<Rightarrow> bool) \<Rightarrow> bool" where
  "either_host lc uni f \<longleftrightarrow> f lc \<or> (lc \<noteq> uni \<and> f uni)"

definition host_matches :: "class_env \<Rightarrow> rs_context \<Rightarrow> string \<Rightarrow> string \<Rightarrow> matcher_base \<Rightarrow> bool" where
  "host_matches x ctx lc uni b \<longleftrightarrow>
     lc \<in> set (b_domains b) \<or>
     trie_matches lc (b_suffix_trie b) \<or>
     on_some (b_keyword_automaton b) (\<lambda>a. either_host lc uni (\<lambda>h. a h \<noteq> [])) \<or>
     on_some (b_regex_set b) (either_host lc uni) \<or>
     list_ex (\<lambda>r. either_host lc uni (\<lambda>h. r h = Some True)) (b_fancy_regexes b) \<or>
     on_some (b_wildcard_set b) (either_host lc uni) \<or>
     on_some (b_mrs_domain_set b) (either_host uni lc) \<or>
     list_ex (\<lambda>code. to_ascii_lowercase code \<in> set (b_destination_geosite b)) (c_destination_geosite ctx)"

definition ip_matches :: "class_env \<Rightarrow> ip_addr \<Rightarrow> matcher_base \<Rightarrow> bool" where
  "ip_matches x ip b \<longleftrightarrow>
     list_ex (ip_suffix_matches ip) (b_destination_ip_suffixes b) \<or>
     cx_table_contains x (b_destination_prefix_table b) ip \<or>
     (case ip of
        V4 v \<Rightarrow> b_mrs_v4_ranges b \<noteq> [] \<and> contains_range (b_mrs_v4_ranges b) v
      | V6 v \<Rightarrow> b_mrs_v6_ranges b \<noteq> [] \<and> contains_range (b_mrs_v6_ranges b) v)"

definition source_matches :: "class_env \<Rightarrow> ip_addr \<Rightarrow> matcher_base \<Rightarrow> bool" where
  "source_matches x ip b \<longleftrightarrow>
     cx_table_contains x (b_source_prefix_table b) ip \<or> list_ex (ip_suffix_matches ip) (b_source_ip_suffixes b)"

definition process_name_matches :: "matcher_base \<Rightarrow> string \<Rightarrow> bool" where
  "process_name_matches b name \<longleftrightarrow>
     to_ascii_lowercase name \<in> set (b_processes b) \<or>
     on_some (b_process_regex_set b) (\<lambda>f. f name) \<or> on_some (b_process_wildcard_set b) (\<lambda>f. f name)"

definition process_path_matches :: "class_env \<Rightarrow> matcher_base \<Rightarrow> string \<Rightarrow> bool" where
  "process_path_matches x b path \<longleftrightarrow>
     to_lowercase (cx_u x) path \<in> set (b_process_paths b) \<or>
     on_some (b_process_path_regex_set b) (\<lambda>f. f path) \<or> on_some (b_process_path_wildcard_set b) (\<lambda>f. f path)"

definition base_matches :: "class_env \<Rightarrow> rs_context \<Rightarrow> matcher_base \<Rightarrow> bool" where
  "base_matches x ctx b \<longleftrightarrow>
    (let uni = to_lowercase (cx_u x) (trim_end_matches CHR ''.'' (trim (cx_u x) (c_dst_host ctx)));
         lc = normalize_domain (cx x) uni
     in (lc \<noteq> [] \<and> host_matches x ctx lc uni b) \<or>
        on_some (destination_ip ctx) (\<lambda>ip. ip_matches x ip b) \<or>
        on_some (c_src_ip ctx) (\<lambda>ip. source_matches x ip b) \<or>
        list_ex (\<lambda>code. to_ascii_lowercase code \<in> set (b_destination_geoip b)) (c_destination_geoip ctx) \<or>
        list_ex (\<lambda>code. to_ascii_lowercase code \<in> set (b_source_geoip b)) (c_source_geoip ctx) \<or>
        on_some (c_destination_asn ctx) (\<lambda>a. a \<in> set (b_destination_asn b)) \<or>
        on_some (c_source_asn ctx) (\<lambda>a. a \<in> set (b_source_asn b)) \<or>
        on_some (c_dst_port ctx) (\<lambda>p. list_ex (in_port_range p) (b_ports b)) \<or>
        on_some (c_src_port ctx) (\<lambda>p. list_ex (in_port_range p) (b_src_ports b)) \<or>
        on_some (c_inbound_port ctx) (\<lambda>p. list_ex (in_port_range p) (b_inbound_ports b)) \<or>
        option_in_set x (c_inbound_type ctx) (b_inbound_types b) \<or>
        option_in_set x (c_inbound_user ctx) (b_inbound_users b) \<or>
        option_in_set x (c_inbound_name ctx) (b_inbound_names b) \<or>
        on_some (c_uid ctx) (\<lambda>u. u \<in> set (b_uid_values b)) \<or>
        on_some (c_dscp ctx) (\<lambda>d. d \<in> set (b_dscp_values b)) \<or>
        option_in_set x (c_network ctx) (b_networks b) \<or>
        list_ex (\<lambda>n. to_lowercase (cx_u x) n \<in> set (b_rematch_names b)) (c_rematch_names ctx) \<or>
        on_some (c_process_name ctx) (process_name_matches b) \<or>
        list_ex (process_name_matches b) (c_package_names ctx) \<or>
        on_some (c_process_path ctx) (process_path_matches x b))"

definition external_aliases :: "matcher_base \<Rightarrow> bool" where
  "external_aliases b \<longleftrightarrow>
     b_destination_geoip_aliases b \<noteq> [] \<or> b_source_geoip_aliases b \<noteq> [] \<or> b_destination_geosite_aliases b \<noteq> [] \<or>
     b_destination_asn_aliases b \<noteq> [] \<or> b_source_asn_aliases b \<noteq> []"

fun has_external_refs :: "logical_rule \<Rightarrow> bool" where
  "has_external_refs (L_Leaf n (Rules b ls)) \<longleftrightarrow> external_aliases b \<or> list_ex has_external_refs ls"
| "has_external_refs (L_And ls) \<longleftrightarrow> list_ex has_external_refs ls"
| "has_external_refs (L_Or ls) \<longleftrightarrow> list_ex has_external_refs ls"
| "has_external_refs (L_Not l) \<longleftrightarrow> has_external_refs l"

fun matches_context :: "class_env \<Rightarrow> rs_context \<Rightarrow> matcher_rules \<Rightarrow> bool"
  and logical_matches :: "class_env \<Rightarrow> rs_context \<Rightarrow> logical_rule \<Rightarrow> bool" where
  "matches_context x ctx (Rules b ls) \<longleftrightarrow>
    (case b_semantic_program b of
       Some prog \<Rightarrow> program_matches (cx x) ctx prog
     | None \<Rightarrow> b_match_all b \<or> base_matches x ctx b \<or> list_ex (\<lambda>l. \<not> has_external_refs l \<and> logical_matches x ctx l) ls)"
| "logical_matches x ctx (L_Leaf n r) \<longleftrightarrow> matches_context x ctx r"
| "logical_matches x ctx (L_And ls) \<longleftrightarrow> list_all (logical_matches x ctx) ls"
| "logical_matches x ctx (L_Or ls) \<longleftrightarrow> list_ex (logical_matches x ctx) ls"
| "logical_matches x ctx (L_Not l) \<longleftrightarrow> \<not> logical_matches x ctx l"

section \<open>While metadata is pending\<close>

definition base_process_predicates :: "matcher_base \<Rightarrow> bool" where
  "base_process_predicates b \<longleftrightarrow>
     b_processes b \<noteq> [] \<or> b_process_paths b \<noteq> [] \<or> b_process_regex_set b \<noteq> None \<or> b_process_path_regex_set b \<noteq> None \<or>
     b_process_wildcard_set b \<noteq> None \<or> b_process_path_wildcard_set b \<noteq> None"

definition base_destination_predicates :: "matcher_base \<Rightarrow> bool" where
  "base_destination_predicates b \<longleftrightarrow>
     b_destination_ip_requires_resolution b \<or> b_mrs_v4_ranges b \<noteq> [] \<or> b_mrs_v6_ranges b \<noteq> []"

fun logical_needs_process :: "logical_rule \<Rightarrow> bool" where
  "logical_needs_process (L_Leaf n (Rules b ls)) \<longleftrightarrow> base_process_predicates b \<or> list_ex logical_needs_process ls"
| "logical_needs_process (L_And ls) \<longleftrightarrow> list_ex logical_needs_process ls"
| "logical_needs_process (L_Or ls) \<longleftrightarrow> list_ex logical_needs_process ls"
| "logical_needs_process (L_Not l) \<longleftrightarrow> logical_needs_process l"

fun logical_needs_destination_ip :: "logical_rule \<Rightarrow> bool" where
  "logical_needs_destination_ip (L_Leaf n (Rules b ls)) \<longleftrightarrow> base_destination_predicates b \<or> list_ex logical_needs_destination_ip ls"
| "logical_needs_destination_ip (L_And ls) \<longleftrightarrow> list_ex logical_needs_destination_ip ls"
| "logical_needs_destination_ip (L_Or ls) \<longleftrightarrow> list_ex logical_needs_destination_ip ls"
| "logical_needs_destination_ip (L_Not l) \<longleftrightarrow> logical_needs_destination_ip l"

definition has_process_predicates :: "matcher_rules \<Rightarrow> bool" where
  "has_process_predicates r \<longleftrightarrow> base_process_predicates (mr_base r) \<or> list_ex logical_needs_process (mr_logical r)"

definition has_destination_ip_predicates :: "matcher_rules \<Rightarrow> bool" where
  "has_destination_ip_predicates r \<longleftrightarrow> base_destination_predicates (mr_base r) \<or> list_ex logical_needs_destination_ip (mr_logical r)"

definition matches_context_deferred :: "class_env \<Rightarrow> rs_context \<Rightarrow> bool \<Rightarrow> bool \<Rightarrow> matcher_rules \<Rightarrow> match_outcome" where
  "matches_context_deferred x ctx process_resolved destination_ip_resolved r =
    (case b_semantic_program (mr_base r) of
       Some prog \<Rightarrow> matches_deferred (cx x) ctx process_resolved destination_ip_resolved prog
     | None \<Rightarrow>
         if matches_context x ctx r then O_Matched
         else outcome_deferred (\<not> process_resolved \<and> has_process_predicates r)
           (\<not> destination_ip_resolved \<and> has_destination_ip_predicates r))"

definition matches_context_lazy :: "class_env \<Rightarrow> rs_context \<Rightarrow> bool \<Rightarrow> matcher_rules \<Rightarrow> match_outcome" where
  "matches_context_lazy x ctx process_resolved r = matches_context_deferred x ctx process_resolved True r"

end
