(* ===== verification/Classical_Ref.thy ===== *)
theory Classical_Ref
  imports Classical_Match
begin

text \<open>
  Line-based rule sets against a reference that reads one entry at a time: the compiled matcher (hash sets, trie,
  automaton, pattern sets, prefix tables) answers as the disjunction of its entries, without those of a kind whose
  pattern set could not be built.
\<close>

section \<open>The reference: one entry at a time\<close>

text \<open>
  What a single entry asks of a connection, read off its kind. The host is tried in its ASCII and in its Unicode
  form, except by the exact name and the suffix.
\<close>

definition host_unicode :: "class_env \<Rightarrow> rs_context \<Rightarrow> string" where
  "host_unicode x ctx = to_lowercase (cx_u x) (trim_end_matches CHR ''.'' (trim (cx_u x) (c_dst_host ctx)))"

definition host_lc :: "class_env \<Rightarrow> rs_context \<Rightarrow> string" where
  "host_lc x ctx = normalize_domain (cx x) (host_unicode x ctx)"

definition on_host :: "class_env \<Rightarrow> rs_context \<Rightarrow> (string \<Rightarrow> bool) \<Rightarrow> bool" where
  "on_host x ctx f \<longleftrightarrow> host_lc x ctx \<noteq> [] \<and> either_host (host_lc x ctx) (host_unicode x ctx) f"

definition keyword_in :: "string \<Rightarrow> string \<Rightarrow> bool" where
  "keyword_in k h \<longleftrightarrow> contains_str (to_ascii_lowercase k) (to_ascii_lowercase h)"

definition regex_hit :: "class_env \<Rightarrow> string \<Rightarrow> string \<Rightarrow> bool" where
  "regex_hit x p s \<longleftrightarrow> on_some (x_regex (cx x) p) (\<lambda>f. f s)"

definition glob_hit :: "class_env \<Rightarrow> string \<Rightarrow> string \<Rightarrow> bool" where
  "glob_hit x p s \<longleftrightarrow> on_some (x_glob (cx x) p) (\<lambda>f. f s)"

definition domain_regex_hit :: "class_env \<Rightarrow> string \<Rightarrow> string \<Rightarrow> bool" where
  "domain_regex_hit x p h \<longleftrightarrow>
    (if is_fast x p then on_some (x_regex_ci (cx x) p) (\<lambda>f. f h) else on_some (x_fancy (cx x) p) (\<lambda>r. r h = Some True))"

definition net_hit :: "class_env \<Rightarrow> ip_addr \<Rightarrow> ip_net \<Rightarrow> bool" where
  "net_hit x ip n \<longleftrightarrow> on_some (cx_network_parse x (cx_show_net x n)) (\<lambda>m. x_contains (cx x) m ip)"

definition suffix_hit :: "class_env \<Rightarrow> rs_context \<Rightarrow> string \<Rightarrow> bool" where
  "suffix_hit x ctx sfx \<longleftrightarrow>
    (let h = trim_end_matches CHR ''.'' (host_lc x ctx) in h \<noteq> [] \<and> sfx \<noteq> [] \<and> below h sfx)"

definition trie_hit :: "class_env \<Rightarrow> rs_context \<Rightarrow> suffix_trie \<Rightarrow> bool" where
  "trie_hit x ctx t \<longleftrightarrow> (\<exists>sfx. trie_has t sfx \<and> suffix_hit x ctx sfx)"

definition slash_values :: "class_env \<Rightarrow> string \<Rightarrow> string list" where
  "slash_values x v = map (to_lowercase (cx_u x)) (filter (\<lambda>v. v \<noteq> []) (map (trim (cx_u x)) (split_on CHR ''/'' v)))"

definition on_process_name :: "rs_context \<Rightarrow> (string \<Rightarrow> bool) \<Rightarrow> bool" where
  "on_process_name ctx f \<longleftrightarrow> on_some (c_process_name ctx) f \<or> list_ex f (c_package_names ctx)"

definition port_in :: "u16 option \<Rightarrow> string \<Rightarrow> bool" where
  "port_in port v \<longleftrightarrow> on_some port (\<lambda>p. on_some (parse_port_range v) (in_port_range p))"

definition entry_matches ::
  "(classical_kind \<Rightarrow> string \<Rightarrow> logical_rule option) \<Rightarrow> class_env \<Rightarrow> rs_context \<Rightarrow> classical_entry \<Rightarrow> bool" where
  "entry_matches logical x ctx e \<longleftrightarrow>
    (let v = ce_value e
     in case ce_kind e of
       K_Domain \<Rightarrow> host_lc x ctx \<noteq> [] \<and> host_lc x ctx = normalize_domain (cx x) v
     | K_DomainSuffix \<Rightarrow> suffix_hit x ctx (trie_value (cx x) v)
     | K_DomainKeyword \<Rightarrow> on_host x ctx (keyword_in (to_lowercase (cx_u x) v))
     | K_DomainRegex \<Rightarrow> on_host x ctx (domain_regex_hit x v)
     | K_DomainWildcard \<Rightarrow> on_host x ctx (glob_hit x (normalize_route_domain_pattern (cx x) v))
     | K_GeoSite \<Rightarrow> host_lc x ctx \<noteq> [] \<and> to_ascii_lowercase v \<in> to_ascii_lowercase ` set (c_destination_geosite ctx)
     | K_GeoIp \<Rightarrow> to_ascii_lowercase v \<in> to_ascii_lowercase ` set (c_destination_geoip ctx)
     | K_SrcGeoIp \<Rightarrow> to_ascii_lowercase v \<in> to_ascii_lowercase ` set (c_source_geoip ctx)
     | K_IpCidr \<Rightarrow> on_some (destination_ip ctx) (\<lambda>ip. on_some (x_parse_net (cx x) v) (net_hit x ip))
     | K_SrcIpCidr \<Rightarrow> on_some (c_src_ip ctx) (\<lambda>ip. on_some (x_parse_net (cx x) v) (net_hit x ip))
     | K_IpSuffix \<Rightarrow> on_some (destination_ip ctx) (\<lambda>ip. on_some (parse_ip_suffix v) (ip_suffix_matches ip))
     | K_SrcIpSuffix \<Rightarrow> on_some (c_src_ip ctx) (\<lambda>ip. on_some (parse_ip_suffix v) (ip_suffix_matches ip))
     | K_IpAsn \<Rightarrow> parse_asn x v \<noteq> None \<and> c_destination_asn ctx = parse_asn x v
     | K_SrcIpAsn \<Rightarrow> parse_asn x v \<noteq> None \<and> c_source_asn ctx = parse_asn x v
     | K_DstPort \<Rightarrow> port_in (c_dst_port ctx) v
     | K_SrcPort \<Rightarrow> port_in (c_src_port ctx) v
     | K_InPort \<Rightarrow> port_in (c_inbound_port ctx) v
     | K_InType \<Rightarrow> option_in_set x (c_inbound_type ctx) (slash_values x v)
     | K_InUser \<Rightarrow> option_in_set x (c_inbound_user ctx) (slash_values x v)
     | K_InName \<Rightarrow> option_in_set x (c_inbound_name ctx) (slash_values x v)
     | K_Dscp \<Rightarrow> on_some (c_dscp ctx) (\<lambda>d. on_some (parse_unsigned 256 v) (\<lambda>n. d = of_nat n))
     | K_Uid \<Rightarrow> on_some (c_uid ctx) (\<lambda>u. on_some (parse_unsigned (2 ^ 32) v) (\<lambda>n. u = of_nat n))
     | K_ProcessName \<Rightarrow> on_process_name ctx (\<lambda>n. to_ascii_lowercase n = to_ascii_lowercase v)
     | K_ProcessPath \<Rightarrow> on_some (c_process_path ctx) (\<lambda>p. to_lowercase (cx_u x) p = to_lowercase (cx_u x) v)
     | K_ProcessNameRegex \<Rightarrow> on_process_name ctx (regex_hit x v)
     | K_ProcessPathRegex \<Rightarrow> on_some (c_process_path ctx) (regex_hit x v)
     | K_ProcessNameWildcard \<Rightarrow> on_process_name ctx (glob_hit x v)
     | K_ProcessPathWildcard \<Rightarrow> on_some (c_process_path ctx) (glob_hit x v)
     | K_RematchName \<Rightarrow> list_ex (\<lambda>n. to_lowercase (cx_u x) n \<in> set (slash_values x v)) (c_rematch_names ctx)
     | K_Network \<Rightarrow> option_in_set x (c_network ctx) (slash_values x v)
     | K_Match \<Rightarrow> True
     | k \<Rightarrow> on_some (logical k v) (\<lambda>l. \<not> has_external_refs l \<and> logical_matches x ctx l))"

text \<open>
  What the crates document of their pattern sets: a set that was built matches when one of its patterns does,
  keywords are searched without regard to ASCII case, and the table holds every network put into it. Nothing is said of
  whether a set can be built: the crates limit the size of a compiled set.
\<close>

definition class_laws :: "class_env \<Rightarrow> bool" where
  "class_laws x \<longleftrightarrow>
    (\<forall>ks a. x_aho (cx x) ks = Some a \<longrightarrow> (\<forall>h. a h \<noteq> [] \<longleftrightarrow> (\<exists>k \<in> set ks. keyword_in k h))) \<and>
    (\<forall>ps f. cx_regex_set_ci x ps = Some f \<longrightarrow> (\<forall>h. f h \<longleftrightarrow> (\<exists>p \<in> set ps. on_some (x_regex_ci (cx x) p) (\<lambda>g. g h)))) \<and>
    (\<forall>ps f. cx_regex_set x ps = Some f \<longrightarrow> (\<forall>h. f h \<longleftrightarrow> (\<exists>p \<in> set ps. regex_hit x p h))) \<and>
    (\<forall>ps f. cx_glob_set x ps = Some f \<longrightarrow> (\<forall>h. f h \<longleftrightarrow> (\<exists>p \<in> set ps. glob_hit x p h))) \<and>
    (\<forall>ns ip. cx_table_contains x ns ip \<longleftrightarrow> (\<exists>n \<in> set ns. x_contains (cx x) n ip))"

text \<open>
  The kinds whose entries are compiled into one set per kind, and whether this set is built. A domain pattern that the
  plain engine does not accept is compiled alone. When a set is not built its entries are lost without a message.
\<close>

definition pattern_kinds :: "classical_kind set" where
  "pattern_kinds = {K_DomainKeyword, K_DomainRegex, K_DomainWildcard, K_ProcessNameRegex, K_ProcessPathRegex,
     K_ProcessNameWildcard, K_ProcessPathWildcard}"

definition values_of :: "classical_kind \<Rightarrow> classical_entry list \<Rightarrow> string list" where
  "values_of k es = map ce_value (filter (\<lambda>e. ce_kind e = k) es)"

definition set_built :: "class_env \<Rightarrow> classical_entry list \<Rightarrow> classical_kind \<Rightarrow> bool" where
  "set_built x es k =
    (let vs = values_of k es
     in case k of
       K_DomainKeyword \<Rightarrow> x_aho (cx x) (map (to_lowercase (cx_u x)) vs) \<noteq> None
     | K_DomainRegex \<Rightarrow> cx_regex_set_ci x (filter (is_fast x) vs) \<noteq> None
     | K_DomainWildcard \<Rightarrow> cx_glob_set x (filter (\<lambda>p. x_glob (cx x) p \<noteq> None) (map (normalize_route_domain_pattern (cx x)) vs)) \<noteq> None
     | K_ProcessNameRegex \<Rightarrow> cx_regex_set x vs \<noteq> None
     | K_ProcessPathRegex \<Rightarrow> cx_regex_set x vs \<noteq> None
     | K_ProcessNameWildcard \<Rightarrow> cx_glob_set x vs \<noteq> None
     | K_ProcessPathWildcard \<Rightarrow> cx_glob_set x vs \<noteq> None
     | _ \<Rightarrow> True)"

definition entry_kept :: "class_env \<Rightarrow> (classical_kind \<Rightarrow> bool) \<Rightarrow> classical_entry \<Rightarrow> bool" where
  "entry_kept x built e \<longleftrightarrow> built (ce_kind e) \<or> ce_kind e = K_DomainRegex \<and> \<not> is_fast x (ce_value e)"

text \<open>The matcher under construction decides the same as the entries it was given.\<close>

definition state_ok :: "class_env \<Rightarrow> compile_state \<Rightarrow> bool" where
  "state_ok x cs \<longleftrightarrow>
     trie_wf (b_suffix_trie (cs_base cs)) \<and>
     b_semantic_program (cs_base cs) = None \<and> b_mrs_domain_set (cs_base cs) = None \<and>
     b_mrs_v4_ranges (cs_base cs) = [] \<and> b_mrs_v6_ranges (cs_base cs) = [] \<and>
     list_all (is_fast x) (cs_process_regex_pats cs) \<and> list_all (is_fast x) (cs_process_path_regex_pats cs) \<and>
     list_all (\<lambda>p. x_glob (cx x) p \<noteq> None) (cs_process_wildcard_pats cs) \<and>
     list_all (\<lambda>p. x_glob (cx x) p \<noteq> None) (cs_process_path_wildcard_pats cs)"

definition state_matches :: "class_env \<Rightarrow> rs_context \<Rightarrow> (classical_kind \<Rightarrow> bool) \<Rightarrow> compile_state \<Rightarrow> bool" where
  "state_matches x ctx built cs \<longleftrightarrow>
    (let b = cs_base cs
     in b_match_all b \<or>
        (host_lc x ctx \<noteq> [] \<and> host_lc x ctx \<in> set (b_domains b)) \<or>
        trie_hit x ctx (b_suffix_trie b) \<or>
        (\<exists>k \<in> set (b_keywords b). on_host x ctx (keyword_in k) \<and> built K_DomainKeyword) \<or>
        (\<exists>p \<in> set (cs_regex_pats cs). on_host x ctx (domain_regex_hit x p) \<and> (built K_DomainRegex \<or> \<not> is_fast x p)) \<or>
        (\<exists>p \<in> set (cs_wildcard_pats cs). on_host x ctx (glob_hit x p) \<and> built K_DomainWildcard) \<or>
        (host_lc x ctx \<noteq> [] \<and> (\<exists>c \<in> set (b_destination_geosite b). c \<in> to_ascii_lowercase ` set (c_destination_geosite ctx))) \<or>
        (\<exists>s \<in> set (b_destination_ip_suffixes b). on_some (destination_ip ctx) (\<lambda>ip. ip_suffix_matches ip s)) \<or>
        (\<exists>n \<in> set (b_cidr_v4 b) \<union> set (b_cidr_v6 b). on_some (destination_ip ctx) (\<lambda>ip. net_hit x ip n)) \<or>
        (\<exists>n \<in> set (b_src_cidr_v4 b) \<union> set (b_src_cidr_v6 b). on_some (c_src_ip ctx) (\<lambda>ip. net_hit x ip n)) \<or>
        (\<exists>s \<in> set (b_source_ip_suffixes b). on_some (c_src_ip ctx) (\<lambda>ip. ip_suffix_matches ip s)) \<or>
        (\<exists>c \<in> set (b_destination_geoip b). c \<in> to_ascii_lowercase ` set (c_destination_geoip ctx)) \<or>
        (\<exists>c \<in> set (b_source_geoip b). c \<in> to_ascii_lowercase ` set (c_source_geoip ctx)) \<or>
        (\<exists>a \<in> set (b_destination_asn b). c_destination_asn ctx = Some a) \<or>
        (\<exists>a \<in> set (b_source_asn b). c_source_asn ctx = Some a) \<or>
        (\<exists>r \<in> set (b_ports b). on_some (c_dst_port ctx) (\<lambda>p. in_port_range p r)) \<or>
        (\<exists>r \<in> set (b_src_ports b). on_some (c_src_port ctx) (\<lambda>p. in_port_range p r)) \<or>
        (\<exists>r \<in> set (b_inbound_ports b). on_some (c_inbound_port ctx) (\<lambda>p. in_port_range p r)) \<or>
        option_in_set x (c_inbound_type ctx) (b_inbound_types b) \<or>
        option_in_set x (c_inbound_user ctx) (b_inbound_users b) \<or>
        option_in_set x (c_inbound_name ctx) (b_inbound_names b) \<or>
        (\<exists>u \<in> set (b_uid_values b). c_uid ctx = Some u) \<or>
        (\<exists>d \<in> set (b_dscp_values b). c_dscp ctx = Some d) \<or>
        option_in_set x (c_network ctx) (b_networks b) \<or>
        list_ex (\<lambda>n. to_lowercase (cx_u x) n \<in> set (b_rematch_names b)) (c_rematch_names ctx) \<or>
        (\<exists>q \<in> set (b_processes b). on_process_name ctx (\<lambda>n. to_ascii_lowercase n = q)) \<or>
        (\<exists>q \<in> set (cs_process_regex_pats cs). on_process_name ctx (regex_hit x q) \<and> built K_ProcessNameRegex) \<or>
        (\<exists>q \<in> set (cs_process_wildcard_pats cs). on_process_name ctx (glob_hit x q) \<and> built K_ProcessNameWildcard) \<or>
        (\<exists>q \<in> set (b_process_paths b). on_some (c_process_path ctx) (\<lambda>p. to_lowercase (cx_u x) p = q)) \<or>
        (\<exists>q \<in> set (cs_process_path_regex_pats cs). on_some (c_process_path ctx) (regex_hit x q) \<and> built K_ProcessPathRegex) \<or>
        (\<exists>q \<in> set (cs_process_path_wildcard_pats cs). on_some (c_process_path ctx) (glob_hit x q) \<and> built K_ProcessPathWildcard) \<or>
        list_ex (\<lambda>l. \<not> has_external_refs l \<and> logical_matches x ctx l) (cs_logical cs))"

lemma set_insert_slash_values [simp]: "set (insert_slash_values x v xs) = set (slash_values x v) \<union> set xs"
proof -
  have "set (fold List.insert ys xs) = set ys \<union> set xs" for ys by (induction ys arbitrary: xs) auto
  then show ?thesis by (simp add: insert_slash_values_def slash_values_def)
qed

lemma on_some_simps [simp]: "on_some None f = False" "on_some (Some a) f = f a" "on_some v (\<lambda>a. False) = False"
  by (simp_all add: on_some_def split: option.split)

lemma bex_map_filter: "(\<exists>b \<in> set (List.map_filter f xs). P b) \<longleftrightarrow> (\<exists>a \<in> set xs. on_some (f a) P)"
  by (induction xs) (auto simp: List.map_filter_simps split: option.splits)

lemma on_some_iff: "on_some v f \<longleftrightarrow> (\<exists>a. v = Some a \<and> f a)"
  by (cases v) auto

lemma on_some_eq: "on_some v (\<lambda>a. a = b) \<longleftrightarrow> v = Some b"
  by (cases v) auto

lemma option_in_set_Un [simp]:
  "set zs = set xs \<union> set ys \<Longrightarrow> option_in_set x a zs \<longleftrightarrow> option_in_set x a xs \<or> option_in_set x a ys"
  by (cases a) (auto simp: option_in_set_def)

lemmas entry_unfold = compile_entry_def on_base_def saw_other_def Let_def

lemma compile_entry_ok:
  assumes "state_ok x cs" "patterns_ok x e"
  shows "state_ok x (compile_entry logical x e cs)"
  using assms
  by (cases "ce_kind e") (simp_all add: state_ok_def patterns_ok_def entry_unfold is_fast_def split: option.split ip_net.split)

lemma on_host_True: "on_host x ctx f \<Longrightarrow> host_lc x ctx \<noteq> []"
  by (simp add: on_host_def)

lemma suffix_hit_host: "suffix_hit x ctx sfx \<Longrightarrow> host_lc x ctx \<noteq> []"
  by (auto simp: suffix_hit_def trim_end_matches_def trim_end_while_def Let_def)

lemma trie_hit_insert [simp]:
  "trie_hit x ctx (trie_insert (cx x) v t) \<longleftrightarrow> suffix_hit x ctx (trie_value (cx x) v) \<or> trie_hit x ctx t"
  unfolding trie_hit_def trie_has_insert by (metis suffix_hit_def)

lemma list_ex_disj: "list_ex (\<lambda>a. P a \<or> Q a) xs \<longleftrightarrow> list_ex P xs \<or> list_ex Q xs"
  by (induction xs) auto

lemmas step_unfold = entry_unfold entry_matches_def state_matches_def entry_kept_def pattern_kinds_def

lemma compile_entry_matches:
  assumes "\<And>k. k \<notin> pattern_kinds \<Longrightarrow> built k"
  shows "state_matches x ctx built (compile_entry logical x e cs) \<longleftrightarrow>
    entry_matches logical x ctx e \<and> entry_kept x built e \<or> state_matches x ctx built cs"
proof (cases "ce_kind e")
  case K_Domain
  then show ?thesis by (simp add: step_unfold assms conj_disj_distribL disj_ac)
next
  case K_DomainSuffix
  then show ?thesis by (simp add: step_unfold assms disj_ac)
next
  case K_GeoSite
  then show ?thesis by (simp add: step_unfold assms conj_disj_distribL disj_ac)
next
  case K_GeoIp
  then show ?thesis by (simp add: step_unfold assms conj_disj_distribL disj_ac)
next
  case K_SrcGeoIp
  then show ?thesis by (simp add: step_unfold assms conj_disj_distribL disj_ac)
next
  case K_IpCidr
  then show ?thesis by (cases "x_parse_net (cx x) (ce_value e)"; cases "the (x_parse_net (cx x) (ce_value e))"; simp add: step_unfold assms bex_Un disj_ac)
next
  case K_SrcIpCidr
  then show ?thesis by (cases "x_parse_net (cx x) (ce_value e)"; cases "the (x_parse_net (cx x) (ce_value e))"; simp add: step_unfold assms bex_Un disj_ac)
next
  case K_IpSuffix
  then show ?thesis by (cases "parse_ip_suffix (ce_value e)"; simp add: step_unfold assms disj_ac)
next
  case K_SrcIpSuffix
  then show ?thesis by (cases "parse_ip_suffix (ce_value e)"; simp add: step_unfold assms disj_ac)
next
  case K_IpAsn
  then show ?thesis by (cases "parse_asn x (ce_value e)"; simp add: step_unfold assms disj_ac)
next
  case K_SrcIpAsn
  then show ?thesis by (cases "parse_asn x (ce_value e)"; simp add: step_unfold assms disj_ac)
next
  case K_DstPort
  then show ?thesis by (cases "parse_port_range (ce_value e)"; simp add: step_unfold assms port_in_def disj_ac)
next
  case K_SrcPort
  then show ?thesis by (cases "parse_port_range (ce_value e)"; simp add: step_unfold assms port_in_def disj_ac)
next
  case K_InPort
  then show ?thesis by (cases "parse_port_range (ce_value e)"; simp add: step_unfold assms port_in_def disj_ac)
next
  case K_Dscp
  then show ?thesis by (cases "parse_unsigned 256 (ce_value e)"; simp add: step_unfold assms on_some_eq disj_ac)
next
  case K_Uid
  then show ?thesis by (cases "parse_unsigned (2 ^ 32) (ce_value e)"; simp add: step_unfold assms on_some_eq disj_ac)
next
  case K_RematchName
  then show ?thesis by (simp add: step_unfold assms list_ex_disj disj_ac)
next
  case K_And
  then show ?thesis by (cases "logical (ce_kind e) (ce_value e)"; simp add: step_unfold assms disj_ac)
next
  case K_Or
  then show ?thesis by (cases "logical (ce_kind e) (ce_value e)"; simp add: step_unfold assms disj_ac)
next
  case K_Not
  then show ?thesis by (cases "logical (ce_kind e) (ce_value e)"; simp add: step_unfold assms disj_ac)
qed (simp_all add: step_unfold assms conj_disj_distribR disj_ac)

lemma option_in_set_Nil [simp]: "\<not> option_in_set x a []"
  by (cases a) (auto simp: option_in_set_def)

lemma fold_entries:
  assumes "\<And>k. k \<notin> pattern_kinds \<Longrightarrow> built k" "state_ok x cs" "\<forall>e \<in> set es. patterns_ok x e"
  shows "state_ok x (fold (compile_entry logical x) es cs) \<and>
    (state_matches x ctx built (fold (compile_entry logical x) es cs) \<longleftrightarrow>
      (\<exists>e \<in> set es. entry_matches logical x ctx e \<and> entry_kept x built e) \<or> state_matches x ctx built cs)"
  using assms(2,3)
proof (induction es arbitrary: cs)
  case (Cons e es)
  then show ?case by (simp add: compile_entry_ok compile_entry_matches [OF assms(1)] disj_ac)
qed simp

lemma start_ok [simp]: "state_ok x (compile_start n)"
  by (simp add: state_ok_def compile_start_def base_default_def)

lemma start_matches [simp]: "\<not> state_matches x ctx built (compile_start n)"
  by (simp add: state_matches_def compile_start_def base_default_def trie_hit_def option_in_set_Nil list_ex_iff)

section \<open>The finished matcher\<close>

lemma finish_projections [simp]:
  "b_domains (compile_finish x cs) = b_domains (cs_base cs)"
  "b_suffix_trie (compile_finish x cs) = b_suffix_trie (cs_base cs)"
  by (simp_all add: compile_finish_def Let_def)

lemma table_hit:
  assumes "class_laws x"
  shows "cx_table_contains x (prefix_table x (longest_first as @ longest_first bs)) ip \<longleftrightarrow> (\<exists>n \<in> set as \<union> set bs. net_hit x ip n)"
proof -
  have "cx_table_contains x ns ip \<longleftrightarrow> (\<exists>n \<in> set ns. x_contains (cx x) n ip)" for ns using assms by (simp add: class_laws_def)
  moreover have "set (longest_first ns) = set ns" for ns by (simp add: longest_first_def)
  ultimately show ?thesis
    by (simp add: prefix_table_def net_hit_def bex_map_filter)
qed

lemma class_law_sets:
  assumes "class_laws x"
  shows "x_aho (cx x) ks = Some a \<Longrightarrow> a h \<noteq> [] \<longleftrightarrow> (\<exists>k \<in> set ks. keyword_in k h)"
    "cx_regex_set_ci x ps = Some f \<Longrightarrow> f h \<longleftrightarrow> (\<exists>p \<in> set ps. on_some (x_regex_ci (cx x) p) (\<lambda>g. g h))"
    "cx_regex_set x ps = Some f \<Longrightarrow> f h \<longleftrightarrow> (\<exists>p \<in> set ps. regex_hit x p h)"
    "cx_glob_set x ps = Some f \<Longrightarrow> f h \<longleftrightarrow> (\<exists>p \<in> set ps. glob_hit x p h)"
  using assms by (simp_all add: class_laws_def)

lemma keyword_set:
  assumes "class_laws x"
  shows "on_some (if ks = [] then None else x_aho (cx x) ks) (\<lambda>a. either_host lc uni (\<lambda>h. a h \<noteq> [])) \<longleftrightarrow>
    (\<exists>k \<in> set ks. either_host lc uni (keyword_in k) \<and> x_aho (cx x) ks \<noteq> None)"
proof (cases "x_aho (cx x) ks")
  case (Some a)
  have "\<forall>h. a h \<noteq> [] \<longleftrightarrow> (\<exists>k \<in> set ks. keyword_in k h)" by (intro allI class_law_sets(1) [OF assms Some])
  then show ?thesis using Some by (auto simp: either_host_def)
qed simp

lemma fancy_hit:
  "\<not> is_fast x p \<Longrightarrow> either_host lc uni (domain_regex_hit x p) \<longleftrightarrow> on_some (x_fancy (cx x) p) (\<lambda>r. either_host lc uni (\<lambda>h. r h = Some True))"
  by (cases "x_fancy (cx x) p") (auto simp: either_host_def domain_regex_hit_def)

lemma domain_regex_sets:
  assumes "class_laws x"
  shows "on_some (if filter (is_fast x) ps = [] then None else cx_regex_set_ci x (filter (is_fast x) ps)) (either_host lc uni) \<or>
      list_ex (\<lambda>r. either_host lc uni (\<lambda>h. r h = Some True)) (List.map_filter (x_fancy (cx x)) (filter (\<lambda>p. \<not> is_fast x p) ps)) \<longleftrightarrow>
    (\<exists>p \<in> set ps. either_host lc uni (domain_regex_hit x p) \<and> (cx_regex_set_ci x (filter (is_fast x) ps) \<noteq> None \<or> \<not> is_fast x p))"
proof -
  let ?set = "cx_regex_set_ci x (filter (is_fast x) ps)"
  have "on_some (if filter (is_fast x) ps = [] then None else ?set) (either_host lc uni) \<longleftrightarrow>
    (\<exists>p \<in> set ps. is_fast x p \<and> either_host lc uni (domain_regex_hit x p) \<and> ?set \<noteq> None)"
  proof (cases ?set)
    case (Some f)
    have "\<forall>h. f h \<longleftrightarrow> (\<exists>p \<in> set (filter (is_fast x) ps). on_some (x_regex_ci (cx x) p) (\<lambda>g. g h))"
      by (intro allI class_law_sets(2) [OF assms Some])
    then show ?thesis using Some by (auto simp: either_host_def domain_regex_hit_def filter_empty_conv)
  qed simp
  moreover have "list_ex (\<lambda>r. either_host lc uni (\<lambda>h. r h = Some True)) (List.map_filter (x_fancy (cx x)) (filter (\<lambda>p. \<not> is_fast x p) ps)) \<longleftrightarrow>
    (\<exists>p \<in> set ps. \<not> is_fast x p \<and> either_host lc uni (domain_regex_hit x p))"
    by (auto simp: fancy_hit list_ex_iff bex_map_filter)
  ultimately show ?thesis by blast
qed

lemma glob_set_hit:
  assumes "class_laws x"
  shows "on_some (if ps = [] then None else cx_glob_set x (filter (\<lambda>p. x_glob (cx x) p \<noteq> None) ps)) (either_host lc uni) \<longleftrightarrow>
    (\<exists>p \<in> set ps. either_host lc uni (glob_hit x p) \<and> cx_glob_set x (filter (\<lambda>p. x_glob (cx x) p \<noteq> None) ps) \<noteq> None)"
proof -
  let ?gs = "filter (\<lambda>p. x_glob (cx x) p \<noteq> None) ps"
  show ?thesis
  proof (cases "cx_glob_set x ?gs")
    case (Some f)
    have "\<forall>h. f h \<longleftrightarrow> (\<exists>p \<in> set ?gs. glob_hit x p h)" by (intro allI class_law_sets(4) [OF assms Some])
    then show ?thesis using Some by (auto simp: either_host_def glob_hit_def on_some_iff)
  next
    case None
    show ?thesis unfolding None by simp
  qed
qed

lemma process_regex_set:
  assumes "class_laws x"
  shows "on_some (compile_regex_set x ps) (\<lambda>f. f s) \<longleftrightarrow> (\<exists>p \<in> set ps. regex_hit x p s \<and> cx_regex_set x ps \<noteq> None)"
proof (cases "cx_regex_set x ps")
  case (Some f)
  have "\<forall>h. f h \<longleftrightarrow> (\<exists>p \<in> set ps. regex_hit x p h)" by (intro allI class_law_sets(3) [OF assms Some])
  then show ?thesis using Some by (auto simp: compile_regex_set_def)
qed (simp add: compile_regex_set_def)

lemma process_glob_set:
  assumes "class_laws x" "list_all (\<lambda>p. x_glob (cx x) p \<noteq> None) ps"
  shows "on_some (compile_glob_set x ps) (\<lambda>f. f s) \<longleftrightarrow> (\<exists>p \<in> set ps. glob_hit x p s \<and> cx_glob_set x ps \<noteq> None)"
proof -
  have "\<not> list_ex (\<lambda>p. x_glob (cx x) p = None) ps" using assms(2) by (auto simp: list_ex_iff list_all_iff)
  then have c: "compile_glob_set x ps = (if ps = [] then None else cx_glob_set x ps)" by (simp add: compile_glob_set_def)
  show ?thesis
  proof (cases "cx_glob_set x ps")
    case (Some f)
    have "\<forall>h. f h \<longleftrightarrow> (\<exists>p \<in> set ps. glob_hit x p h)" by (intro allI class_law_sets(4) [OF assms(1) Some])
    then show ?thesis using Some c by auto
  qed (simp add: c)
qed

text \<open>Which sets the steps after the loop build.\<close>

definition state_built :: "class_env \<Rightarrow> compile_state \<Rightarrow> classical_kind \<Rightarrow> bool" where
  "state_built x cs k =
    (case k of
       K_DomainKeyword \<Rightarrow> x_aho (cx x) (b_keywords (cs_base cs)) \<noteq> None
     | K_DomainRegex \<Rightarrow> cx_regex_set_ci x (filter (is_fast x) (cs_regex_pats cs)) \<noteq> None
     | K_DomainWildcard \<Rightarrow> cx_glob_set x (filter (\<lambda>p. x_glob (cx x) p \<noteq> None) (cs_wildcard_pats cs)) \<noteq> None
     | K_ProcessNameRegex \<Rightarrow> cx_regex_set x (cs_process_regex_pats cs) \<noteq> None
     | K_ProcessPathRegex \<Rightarrow> cx_regex_set x (cs_process_path_regex_pats cs) \<noteq> None
     | K_ProcessNameWildcard \<Rightarrow> cx_glob_set x (cs_process_wildcard_pats cs) \<noteq> None
     | K_ProcessPathWildcard \<Rightarrow> cx_glob_set x (cs_process_path_wildcard_pats cs) \<noteq> None
     | _ \<Rightarrow> True)"

lemma compile_entry_patterns:
  "b_keywords (cs_base (compile_entry logical x e cs)) = b_keywords (cs_base cs) @ map (to_lowercase (cx_u x)) (values_of K_DomainKeyword [e])"
  "cs_regex_pats (compile_entry logical x e cs) = cs_regex_pats cs @ values_of K_DomainRegex [e]"
  "cs_wildcard_pats (compile_entry logical x e cs) = cs_wildcard_pats cs @ map (normalize_route_domain_pattern (cx x)) (values_of K_DomainWildcard [e])"
  "cs_process_regex_pats (compile_entry logical x e cs) = cs_process_regex_pats cs @ values_of K_ProcessNameRegex [e]"
  "cs_process_path_regex_pats (compile_entry logical x e cs) = cs_process_path_regex_pats cs @ values_of K_ProcessPathRegex [e]"
  "cs_process_wildcard_pats (compile_entry logical x e cs) = cs_process_wildcard_pats cs @ values_of K_ProcessNameWildcard [e]"
  "cs_process_path_wildcard_pats (compile_entry logical x e cs) = cs_process_path_wildcard_pats cs @ values_of K_ProcessPathWildcard [e]"
  by (cases "ce_kind e"; simp add: entry_unfold values_of_def split: option.split ip_net.split)+

lemma values_of_Cons: "values_of k (e # es) = values_of k [e] @ values_of k es"
  by (simp add: values_of_def)

lemma fold_patterns:
  "b_keywords (cs_base (fold (compile_entry logical x) es cs)) = b_keywords (cs_base cs) @ map (to_lowercase (cx_u x)) (values_of K_DomainKeyword es)"
  "cs_regex_pats (fold (compile_entry logical x) es cs) = cs_regex_pats cs @ values_of K_DomainRegex es"
  "cs_wildcard_pats (fold (compile_entry logical x) es cs) = cs_wildcard_pats cs @ map (normalize_route_domain_pattern (cx x)) (values_of K_DomainWildcard es)"
  "cs_process_regex_pats (fold (compile_entry logical x) es cs) = cs_process_regex_pats cs @ values_of K_ProcessNameRegex es"
  "cs_process_path_regex_pats (fold (compile_entry logical x) es cs) = cs_process_path_regex_pats cs @ values_of K_ProcessPathRegex es"
  "cs_process_wildcard_pats (fold (compile_entry logical x) es cs) = cs_process_wildcard_pats cs @ values_of K_ProcessNameWildcard es"
  "cs_process_path_wildcard_pats (fold (compile_entry logical x) es cs) = cs_process_path_wildcard_pats cs @ values_of K_ProcessPathWildcard es"
proof (induction es arbitrary: cs)
  case (Cons e es)
  {
    case 1 show ?case using Cons(1) by (simp add: compile_entry_patterns values_of_Cons [of _ e es])
  next
    case 2 show ?case using Cons(2) by (simp add: compile_entry_patterns values_of_Cons [of _ e es])
  next
    case 3 show ?case using Cons(3) by (simp add: compile_entry_patterns values_of_Cons [of _ e es])
  next
    case 4 show ?case using Cons(4) by (simp add: compile_entry_patterns values_of_Cons [of _ e es])
  next
    case 5 show ?case using Cons(5) by (simp add: compile_entry_patterns values_of_Cons [of _ e es])
  next
    case 6 show ?case using Cons(6) by (simp add: compile_entry_patterns values_of_Cons [of _ e es])
  next
    case 7 show ?case using Cons(7) by (simp add: compile_entry_patterns values_of_Cons [of _ e es])
  }
qed (simp_all add: values_of_def)

lemma built_by_loop: "state_built x (compile_loop logical x es) k \<longleftrightarrow> set_built x es k"
  by (cases k) (simp_all add: state_built_def set_built_def compile_loop_def fold_patterns compile_start_def base_default_def Let_def del: not_None_eq)

lemmas finish_unfold = compile_finish_def Let_def

lemma finish_host:
  assumes "class_laws x" "state_ok x cs" "lc = host_lc x ctx" "uni = host_unicode x ctx"
  shows "lc \<noteq> [] \<and> host_matches x ctx lc uni (compile_finish x cs) \<longleftrightarrow>
     (lc \<noteq> [] \<and> lc \<in> set (b_domains (cs_base cs))) \<or>
     trie_hit x ctx (b_suffix_trie (cs_base cs)) \<or>
     (\<exists>k \<in> set (b_keywords (cs_base cs)). on_host x ctx (keyword_in k) \<and> state_built x cs K_DomainKeyword) \<or>
     (\<exists>p \<in> set (cs_regex_pats cs). on_host x ctx (domain_regex_hit x p) \<and> (state_built x cs K_DomainRegex \<or> \<not> is_fast x p)) \<or>
     (\<exists>p \<in> set (cs_wildcard_pats cs). on_host x ctx (glob_hit x p) \<and> state_built x cs K_DomainWildcard) \<or>
     (lc \<noteq> [] \<and> (\<exists>c \<in> set (b_destination_geosite (cs_base cs)). c \<in> to_ascii_lowercase ` set (c_destination_geosite ctx)))"
proof -
  let ?b = "compile_finish x cs"
  have trie: "lc \<noteq> [] \<and> trie_matches lc (b_suffix_trie (cs_base cs)) \<longleftrightarrow> trie_hit x ctx (b_suffix_trie (cs_base cs))"
    using assms(2,3) suffix_hit_host by (auto simp: state_ok_def trie_matches_iff trie_hit_def suffix_hit_def trie_has_def Let_def)
  have kw: "on_some (b_keyword_automaton ?b) (\<lambda>a. either_host lc uni (\<lambda>h. a h \<noteq> [])) \<longleftrightarrow>
    (\<exists>k \<in> set (b_keywords (cs_base cs)). either_host lc uni (keyword_in k) \<and> state_built x cs K_DomainKeyword)"
    using keyword_set [OF assms(1)] by (simp add: finish_unfold state_built_def)
  have rx: "on_some (b_regex_set ?b) (either_host lc uni) \<or> list_ex (\<lambda>r. either_host lc uni (\<lambda>h. r h = Some True)) (b_fancy_regexes ?b) \<longleftrightarrow>
    (\<exists>p \<in> set (cs_regex_pats cs). either_host lc uni (domain_regex_hit x p) \<and> (state_built x cs K_DomainRegex \<or> \<not> is_fast x p))"
    using domain_regex_sets [OF assms(1), of "cs_regex_pats cs" lc uni] by (simp add: finish_unfold state_built_def)
  have gl: "on_some (b_wildcard_set ?b) (either_host lc uni) \<longleftrightarrow> (\<exists>p \<in> set (cs_wildcard_pats cs). either_host lc uni (glob_hit x p) \<and> state_built x cs K_DomainWildcard)"
    using glob_set_hit [OF assms(1), of "cs_wildcard_pats cs" lc uni] by (simp add: finish_unfold state_built_def del: not_None_eq)
  have "b_mrs_domain_set ?b = None" using assms(2) by (simp add: finish_unfold state_ok_def)
  moreover have "list_ex (\<lambda>code. to_ascii_lowercase code \<in> set (b_destination_geosite ?b)) (c_destination_geosite ctx) \<longleftrightarrow>
    (\<exists>c \<in> set (b_destination_geosite (cs_base cs)). c \<in> to_ascii_lowercase ` set (c_destination_geosite ctx))"
    by (auto simp: finish_unfold list_ex_iff)
  moreover have "(\<exists>p \<in> A. on_host x ctx (f p) \<and> ok p) \<longleftrightarrow> lc \<noteq> [] \<and> (\<exists>p \<in> A. either_host lc uni (f p) \<and> ok p)" for A :: "string set" and f ok
    unfolding on_host_def assms(3,4) by blast
  note kept = this [of _ keyword_in] this [of _ "domain_regex_hit x"] this [of _ "glob_hit x"]
  ultimately show ?thesis using trie unfolding kept host_matches_def kw [symmetric] rx [symmetric] gl [symmetric] by (cases "lc = []") simp_all
qed

lemma finish_ip:
  assumes "class_laws x" "state_ok x cs"
  shows "on_some v (\<lambda>ip. ip_matches x ip (compile_finish x cs)) \<longleftrightarrow>
     (\<exists>s \<in> set (b_destination_ip_suffixes (cs_base cs)). on_some v (\<lambda>ip. ip_suffix_matches ip s)) \<or>
     (\<exists>n \<in> set (b_cidr_v4 (cs_base cs)) \<union> set (b_cidr_v6 (cs_base cs)). on_some v (\<lambda>ip. net_hit x ip n))"
  using assms(2) table_hit [OF assms(1)]
  by (cases v) (simp_all add: ip_matches_def finish_unfold state_ok_def list_ex_iff split: ip_addr.split)

lemma finish_source:
  assumes "class_laws x"
  shows "on_some v (\<lambda>ip. source_matches x ip (compile_finish x cs)) \<longleftrightarrow>
     (\<exists>n \<in> set (b_src_cidr_v4 (cs_base cs)) \<union> set (b_src_cidr_v6 (cs_base cs)). on_some v (\<lambda>ip. net_hit x ip n)) \<or>
     (\<exists>s \<in> set (b_source_ip_suffixes (cs_base cs)). on_some v (\<lambda>ip. ip_suffix_matches ip s))"
  using table_hit [OF assms] by (cases v) (simp_all add: source_matches_def finish_unfold list_ex_iff)

lemma finish_process_name:
  assumes "class_laws x" "state_ok x cs"
  shows "on_some v (process_name_matches (compile_finish x cs)) \<or> list_ex (process_name_matches (compile_finish x cs)) ns \<longleftrightarrow>
    (\<exists>q \<in> set (b_processes (cs_base cs)). on_some v (\<lambda>n. to_ascii_lowercase n = q) \<or> list_ex (\<lambda>n. to_ascii_lowercase n = q) ns) \<or>
    (\<exists>q \<in> set (cs_process_regex_pats cs). (on_some v (regex_hit x q) \<or> list_ex (regex_hit x q) ns) \<and> state_built x cs K_ProcessNameRegex) \<or>
    (\<exists>q \<in> set (cs_process_wildcard_pats cs). (on_some v (glob_hit x q) \<or> list_ex (glob_hit x q) ns) \<and> state_built x cs K_ProcessNameWildcard)"
proof -
  have "process_name_matches (compile_finish x cs) n \<longleftrightarrow> (\<exists>q \<in> set (b_processes (cs_base cs)). to_ascii_lowercase n = q) \<or>
    (\<exists>q \<in> set (cs_process_regex_pats cs). regex_hit x q n \<and> state_built x cs K_ProcessNameRegex) \<or> (\<exists>q \<in> set (cs_process_wildcard_pats cs). glob_hit x q n \<and> state_built x cs K_ProcessNameWildcard)" for n
    using assms(2) process_regex_set [OF assms(1)] process_glob_set [OF assms(1)]
    by (simp add: process_name_matches_def finish_unfold state_ok_def state_built_def)
  then show ?thesis unfolding list_ex_iff by (cases v) auto
qed

lemma finish_process_path:
  assumes "class_laws x" "state_ok x cs"
  shows "on_some v (process_path_matches x (compile_finish x cs)) \<longleftrightarrow>
    (\<exists>q \<in> set (b_process_paths (cs_base cs)). on_some v (\<lambda>p. to_lowercase (cx_u x) p = q)) \<or>
    (\<exists>q \<in> set (cs_process_path_regex_pats cs). on_some v (regex_hit x q) \<and> state_built x cs K_ProcessPathRegex) \<or>
    (\<exists>q \<in> set (cs_process_path_wildcard_pats cs). on_some v (glob_hit x q) \<and> state_built x cs K_ProcessPathWildcard)"
  using assms(2) process_regex_set [OF assms(1)] process_glob_set [OF assms(1)]
  by (cases v) (simp_all add: process_path_matches_def finish_unfold state_ok_def state_built_def)

text \<open>The fields that the steps after the loop leave as they are.\<close>

lemma finish_fields [simp]:
  "b_match_all (compile_finish x cs) = b_match_all (cs_base cs)"
  "b_semantic_program (compile_finish x cs) = b_semantic_program (cs_base cs)"
  "b_destination_geoip (compile_finish x cs) = b_destination_geoip (cs_base cs)"
  "b_source_geoip (compile_finish x cs) = b_source_geoip (cs_base cs)"
  "b_destination_asn (compile_finish x cs) = b_destination_asn (cs_base cs)"
  "b_source_asn (compile_finish x cs) = b_source_asn (cs_base cs)"
  "b_ports (compile_finish x cs) = b_ports (cs_base cs)"
  "b_src_ports (compile_finish x cs) = b_src_ports (cs_base cs)"
  "b_inbound_ports (compile_finish x cs) = b_inbound_ports (cs_base cs)"
  "b_inbound_types (compile_finish x cs) = b_inbound_types (cs_base cs)"
  "b_inbound_users (compile_finish x cs) = b_inbound_users (cs_base cs)"
  "b_inbound_names (compile_finish x cs) = b_inbound_names (cs_base cs)"
  "b_uid_values (compile_finish x cs) = b_uid_values (cs_base cs)"
  "b_dscp_values (compile_finish x cs) = b_dscp_values (cs_base cs)"
  "b_networks (compile_finish x cs) = b_networks (cs_base cs)"
  "b_rematch_names (compile_finish x cs) = b_rematch_names (cs_base cs)"
  by (simp_all add: finish_unfold)

lemma on_some_member: "on_some v (\<lambda>a. a \<in> A) \<longleftrightarrow> (\<exists>a \<in> A. v = Some a)"
  by (cases v) auto

lemma on_some_range: "on_some v (\<lambda>p. list_ex (in_port_range p) rs) \<longleftrightarrow> (\<exists>r \<in> set rs. on_some v (\<lambda>p. in_port_range p r))"
  by (cases v) (auto simp: list_ex_iff)

lemma list_ex_lower: "list_ex (\<lambda>c. to_ascii_lowercase c \<in> A) cs \<longleftrightarrow> (\<exists>c \<in> A. c \<in> to_ascii_lowercase ` set cs)"
  by (auto simp: list_ex_iff)

lemma finish_matches:
  assumes "class_laws x" "state_ok x cs"
  shows "matches_context x ctx (Rules (compile_finish x cs) (cs_logical cs)) \<longleftrightarrow> state_matches x ctx (state_built x cs) cs"
proof -
  note parts = finish_host [OF assms refl refl, of ctx] finish_ip [OF assms] finish_source [OF assms(1)]
    finish_process_path [OF assms] on_some_member on_some_range list_ex_lower
  have names: "on_some (c_process_name ctx) (process_name_matches (compile_finish x cs)) \<or>
      list_ex (process_name_matches (compile_finish x cs)) (c_package_names ctx) \<or> rest \<longleftrightarrow>
    (\<exists>q \<in> set (b_processes (cs_base cs)). on_process_name ctx (\<lambda>n. to_ascii_lowercase n = q)) \<or>
    (\<exists>q \<in> set (cs_process_regex_pats cs). on_process_name ctx (regex_hit x q) \<and> state_built x cs K_ProcessNameRegex) \<or>
    (\<exists>q \<in> set (cs_process_wildcard_pats cs). on_process_name ctx (glob_hit x q) \<and> state_built x cs K_ProcessNameWildcard) \<or> rest" for rest
    using finish_process_name [OF assms, of "c_process_name ctx" "c_package_names ctx"] unfolding on_process_name_def by blast
  have "matches_context x ctx (Rules (compile_finish x cs) (cs_logical cs)) \<longleftrightarrow>
    b_match_all (cs_base cs) \<or> base_matches x ctx (compile_finish x cs) \<or>
    list_ex (\<lambda>l. \<not> has_external_refs l \<and> logical_matches x ctx l) (cs_logical cs)"
    using assms(2) by (simp add: state_ok_def)
  then show ?thesis
    unfolding base_matches_def state_matches_def Let_def host_unicode_def [symmetric] host_lc_def [symmetric]
    by (simp only: parts finish_fields disj_assoc names)
qed

definition sample_class :: class_env where
  "sample_class = \<lparr>cx = sample_env\<lparr>x_aho := (\<lambda>ks. Some (\<lambda>h. filter (\<lambda>i. keyword_in (ks ! i) h) [0..<length ks]))\<rparr>,
     cx_show_net = (\<lambda>n. []), cx_escape = (\<lambda>s. s), cx_regex_set_ci = (\<lambda>ps. Some (\<lambda>h. h \<in> set ps)),
     cx_regex_set = (\<lambda>ps. Some (\<lambda>h. h \<in> set ps)), cx_glob_set = (\<lambda>ps. Some (\<lambda>h. h \<in> set ps)),
     cx_network_parse = (\<lambda>s. None), cx_table_contains = (\<lambda>ns ip. list_ex (\<lambda>n. sample_contains n ip) ns)\<rparr>"

lemma sample_class_laws: "class_laws sample_class"
  by (auto simp: class_laws_def sample_class_def sample_env_def regex_hit_def glob_hit_def list_ex_iff filter_empty_conv
    set_conv_nth)

definition sample_lines :: bytes where
  "sample_lines = as_bytes (''DOMAIN-SUFFIX,example.com'' @ [CHR 0x0A] @ ''NOT,((DST-PORT,1-80))'')"

lemma sample_lines_parse:
  "parse_for_type sample_class sample_lines T_Classical =
    Inr [\<lparr>ce_kind = K_DomainSuffix, ce_value = ''example.com'', ce_policy = None\<rparr>,
         \<lparr>ce_kind = K_Not, ce_value = ''((DST-PORT,1-80))'', ce_policy = None\<rparr>]"
  by code_simp

lemma compiled_matches:
  assumes "class_laws x" "\<forall>e \<in> set es. patterns_ok x e"
  shows "matches_context x ctx (rm_rules (compile x N4 N6 name es)) \<longleftrightarrow>
    (\<exists>e \<in> set es. entry_matches (compile_logical_rule x) x ctx e \<and> entry_kept x (set_built x es) e)"
proof -
  let ?cs = "compile_loop (compile_logical_rule x) x es"
  have built: "state_built x ?cs = set_built x es" by (rule ext) (rule built_by_loop)
  have others: "k \<notin> pattern_kinds \<Longrightarrow> set_built x es k" for k by (cases k) (simp_all add: set_built_def pattern_kinds_def Let_def)
  have f: "state_ok x ?cs \<and> (state_matches x ctx (set_built x es) ?cs \<longleftrightarrow>
      (\<exists>e \<in> set es. entry_matches (compile_logical_rule x) x ctx e \<and> entry_kept x (set_built x es) e))"
    using fold_entries [of "set_built x es", OF others start_ok assms(2)] by (simp add: compile_loop_def)
  have "rm_rules (compile x N4 N6 name es) = rules_with (compile_logical_rule x) x es"
    by (simp add: compile_def rules_with_def install_destination_prefixes_def matcher_new_def Let_def split: sum.split prod.split)
  then show ?thesis using f finish_matches [OF assms(1), of ?cs ctx] built by (simp add: rules_with_def Let_def)
qed



end
