(* ===== verification/Ruleset_Eval.thy ===== *)
theory Ruleset_Eval
  imports Classical_Ref
begin

text \<open>
  Evaluation of a rule set together with the sets it refers to (\<open>core-ruleset/src/matcher.rs\<close>,
  \<open>RulesetIndex::matches_context_deferred\<close>): a GEOSITE, GEOIP or ASN line of a classical set names other sets
  of the index, and so may the leaves of a logical rule. The stack of active names ends cycles.
\<close>

fun or_outcome :: "match_outcome \<Rightarrow> match_outcome \<Rightarrow> match_outcome" where
  "or_outcome l r =
    (if l = O_Matched \<or> r = O_Matched then O_Matched
     else outcome_deferred (fst (outcome_requirements l) \<or> fst (outcome_requirements r))
            (snd (outcome_requirements l) \<or> snd (outcome_requirements r)))"

fun and_outcome :: "match_outcome \<Rightarrow> match_outcome \<Rightarrow> match_outcome" where
  "and_outcome l r =
    (if l = O_NotMatched \<or> r = O_NotMatched then O_NotMatched
     else if l = O_Matched then r
     else if r = O_Matched then l
     else outcome_deferred (fst (outcome_requirements l) \<or> fst (outcome_requirements r))
            (snd (outcome_requirements l) \<or> snd (outcome_requirements r)))"

declare or_outcome.simps [simp del] and_outcome.simps [simp del]

text \<open>The loops over the children of a rule and over aliases, with their early exits.\<close>

fun or_children :: "('c \<Rightarrow> match_outcome) \<Rightarrow> 'c list \<Rightarrow> match_outcome \<Rightarrow> match_outcome" where
  "or_children f [] outcome = outcome"
| "or_children f (c # cs) outcome =
    (let outcome = or_outcome outcome (f c) in if outcome = O_Matched then outcome else or_children f cs outcome)"

fun and_children :: "('c \<Rightarrow> match_outcome) \<Rightarrow> 'c list \<Rightarrow> match_outcome \<Rightarrow> match_outcome" where
  "and_children f [] outcome = outcome"
| "and_children f (c # cs) outcome =
    (let outcome = and_outcome outcome (f c) in if outcome = O_NotMatched then outcome else and_children f cs outcome)"

fun evaluate_aliases :: "(string \<Rightarrow> 'm \<Rightarrow> match_outcome) \<Rightarrow> (string \<rightharpoonup> 'm) \<Rightarrow> string list \<Rightarrow> match_outcome \<Rightarrow> match_outcome" where
  "evaluate_aliases f ms [] outcome = outcome"
| "evaluate_aliases f ms (alias # aliases) outcome =
    (case ms alias of
       None \<Rightarrow> evaluate_aliases f ms aliases outcome
     | Some m \<Rightarrow>
         (let outcome = or_outcome outcome (f alias m)
          in if outcome = O_Matched then outcome else evaluate_aliases f ms aliases outcome))"

definition or_loop :: "('a \<Rightarrow> match_outcome) \<Rightarrow> 'a list \<Rightarrow> match_outcome \<Rightarrow> match_outcome" where
  "or_loop f xs outcome = fold (\<lambda>a acc. or_outcome acc (f a)) xs outcome"

fun negate_outcome :: "match_outcome \<Rightarrow> match_outcome" where
  "negate_outcome O_Matched = O_NotMatched"
| "negate_outcome O_NotMatched = O_Matched"
| "negate_outcome s = s"

definition source_context :: "rs_context \<Rightarrow> rs_context" where
  "source_context ctx = ctx\<lparr>c_dst_host := [], c_dst_ip := c_src_ip ctx, c_dst_port := c_src_port ctx\<rparr>"

lemma or_children_cong [fundef_cong]:
  "xs = ys \<Longrightarrow> o1 = o2 \<Longrightarrow> (\<And>y. y \<in> set ys \<Longrightarrow> f y = g y) \<Longrightarrow> or_children f xs o1 = or_children g ys o2"
  by (induction ys arbitrary: xs o1 o2) (auto simp: Let_def)

lemma and_children_cong [fundef_cong]:
  "xs = ys \<Longrightarrow> o1 = o2 \<Longrightarrow> (\<And>y. y \<in> set ys \<Longrightarrow> f y = g y) \<Longrightarrow> and_children f xs o1 = and_children g ys o2"
  by (induction ys arbitrary: xs o1 o2) (auto simp: Let_def)

lemma or_loop_cong [fundef_cong]:
  "xs = ys \<Longrightarrow> o1 = o2 \<Longrightarrow> (\<And>y. y \<in> set ys \<Longrightarrow> f y = g y) \<Longrightarrow> or_loop f xs o1 = or_loop g ys o2"
  unfolding or_loop_def by (induction ys arbitrary: xs o1 o2) auto

lemma evaluate_aliases_cong [fundef_cong]:
  "xs = ys \<Longrightarrow> ms = ms' \<Longrightarrow> o1 = o2 \<Longrightarrow> (\<And>y m. y \<in> set ys \<Longrightarrow> ms' y = Some m \<Longrightarrow> f y m = g y m) \<Longrightarrow>
    evaluate_aliases f ms xs o1 = evaluate_aliases g ms' ys o2"
  by (induction ys arbitrary: xs o1 o2) (auto simp: Let_def split: option.split)

function evaluate_indexed_matcher ::
    "class_env \<Rightarrow> (string \<rightharpoonup> matcher_rules) \<Rightarrow> bool \<Rightarrow> string \<Rightarrow> matcher_rules \<Rightarrow> rs_context \<Rightarrow> bool \<Rightarrow> string list \<Rightarrow> match_outcome"
  and matches_indexed ::
    "class_env \<Rightarrow> (string \<rightharpoonup> matcher_rules) \<Rightarrow> bool \<Rightarrow> logical_rule \<Rightarrow> rs_context \<Rightarrow> bool \<Rightarrow> string list \<Rightarrow> match_outcome" where
  "evaluate_indexed_matcher x ms pr name rules ctx dr stack =
    (if name \<in> set stack \<or> 32 < length stack then O_NotMatched
     else
       let stack' = stack @ [name];
           b = mr_base rules;
           outcome = matches_context_deferred x ctx pr dr rules
       in if outcome = O_Matched then outcome
          else
            let outcome = or_loop (\<lambda>as. evaluate_aliases (\<lambda>a m. evaluate_indexed_matcher x ms pr a m ctx dr stack') ms as O_NotMatched)
                  (b_destination_geosite_aliases b) outcome;
                outcome = or_loop (\<lambda>as. evaluate_aliases (\<lambda>a m. evaluate_indexed_matcher x ms pr a m ctx dr stack') ms as O_NotMatched)
                  (b_destination_geoip_aliases b @ b_destination_asn_aliases b) outcome;
                outcome = or_loop (\<lambda>as. evaluate_aliases (\<lambda>a m. evaluate_indexed_matcher x ms pr a m (source_context ctx) True stack') ms as O_NotMatched)
                  (b_source_geoip_aliases b @ b_source_asn_aliases b) outcome
            in or_loop (\<lambda>l. matches_indexed x ms pr l ctx dr stack') (filter has_external_refs (mr_logical rules)) outcome)"
| "matches_indexed x ms pr (L_Leaf name rules) ctx dr stack = evaluate_indexed_matcher x ms pr name rules ctx dr stack"
| "matches_indexed x ms pr (L_And ls) ctx dr stack = and_children (\<lambda>l. matches_indexed x ms pr l ctx dr stack) ls O_Matched"
| "matches_indexed x ms pr (L_Or ls) ctx dr stack = or_children (\<lambda>l. matches_indexed x ms pr l ctx dr stack) ls O_NotMatched"
| "matches_indexed x ms pr (L_Not l) ctx dr stack = negate_outcome (matches_indexed x ms pr l ctx dr stack)"
  by pat_completeness auto
termination
  by (relation "measures [\<lambda>p. 34 - length (case p of Inl (_, _, _, _, _, _, _, stack) \<Rightarrow> stack | Inr (_, _, _, _, _, _, stack) \<Rightarrow> stack),
      \<lambda>p. case p of Inl (_, _, _, _, rules, _, _, _) \<Rightarrow> size rules | Inr (_, _, _, l, _, _, _) \<Rightarrow> size l]")
    (auto simp: less_Suc_eq_le size_list_estimation')

declare evaluate_indexed_matcher.simps [simp del]

definition index_matches_context_deferred ::
  "class_env \<Rightarrow> ('n, 'm, matcher_rules) index_state \<Rightarrow> string \<Rightarrow> rs_context \<Rightarrow> bool \<Rightarrow> bool \<Rightarrow> match_outcome" where
  "index_matches_context_deferred x st name ctx process_resolved destination_ip_resolved =
    (case matchers st name of
       None \<Rightarrow> O_NotMatched
     | Some m \<Rightarrow>
         evaluate_indexed_matcher x (\<lambda>n. map_option rm_rules (matchers st n)) process_resolved name (rm_rules m) ctx
           destination_ip_resolved [])"

section \<open>The loops without their exits\<close>

lemma or_Matched [simp]: "or_outcome O_Matched r = O_Matched"
  by (simp add: or_outcome.simps)

lemma and_NotMatched [simp]: "and_outcome O_NotMatched r = O_NotMatched"
  by (simp add: and_outcome.simps)

lemma or_loop_Matched [simp]: "or_loop f xs O_Matched = O_Matched"
  unfolding or_loop_def by (induction xs) auto

lemma or_loop_simps [simp]: "or_loop f [] acc = acc" "or_loop f (a # as) acc = or_loop f as (or_outcome acc (f a))"
  by (simp_all add: or_loop_def)

lemma or_loop_append: "or_loop f (xs @ ys) acc = or_loop f ys (or_loop f xs acc)"
  by (simp add: or_loop_def)

lemma and_children_NotMatched [simp]: "and_children f cs O_NotMatched = O_NotMatched"
  by (induction cs) (auto simp: Let_def)

lemma and_children_Cons: "and_children f (c # cs) acc = and_children f cs (and_outcome acc (f c))"
  by (simp add: Let_def)

lemma or_children_loop: "or_children f cs acc = or_loop f cs acc"
  by (induction cs arbitrary: acc) (auto simp: Let_def)

lemma evaluate_aliases_loop:
  "evaluate_aliases f ms as acc = or_loop (\<lambda>a. case ms a of None \<Rightarrow> O_NotMatched | Some m \<Rightarrow> f a m) (filter (\<lambda>a. ms a \<noteq> None) as) acc"
  by (induction as arbitrary: acc) (auto simp: Let_def split: option.split)

lemma evaluate_indexed_eq:
  "evaluate_indexed_matcher x ms pr name rules ctx dr stack =
    (if name \<in> set stack \<or> 32 < length stack then O_NotMatched
     else let stack' = stack @ [name]; b = mr_base rules;
              al = (\<lambda>ctx dr as. evaluate_aliases (\<lambda>a m. evaluate_indexed_matcher x ms pr a m ctx dr stack') ms as O_NotMatched)
          in or_loop (\<lambda>l. matches_indexed x ms pr l ctx dr stack') (filter has_external_refs (mr_logical rules))
               (or_loop (al (source_context ctx) True) (b_source_geoip_aliases b @ b_source_asn_aliases b)
                 (or_loop (al ctx dr) (b_destination_geosite_aliases b @ b_destination_geoip_aliases b @ b_destination_asn_aliases b)
                   (matches_context_deferred x ctx pr dr rules))))"
  by (subst evaluate_indexed_matcher.simps) (simp add: Let_def or_loop_append)

section \<open>Answers that stand\<close>

abbreviation (input) settled_by_process :: "match_outcome \<Rightarrow> match_outcome \<Rightarrow> bool" where
  "settled_by_process \<equiv> settles outcome_requirements fst"

lemma or_settles: "settled_by_process a a' \<Longrightarrow> settled_by_process c c' \<Longrightarrow> settled_by_process (or_outcome a c) (or_outcome a' c')"
  by (cases a; cases c) (auto simp: settles_def or_outcome.simps)

lemma and_settles: "settled_by_process a a' \<Longrightarrow> settled_by_process c c' \<Longrightarrow> settled_by_process (and_outcome a c) (and_outcome a' c')"
  by (cases a; cases c) (auto simp: settles_def and_outcome.simps)

lemma or_loop_settles:
  "(\<And>a. a \<in> set as \<Longrightarrow> settled_by_process (f a) (g a)) \<Longrightarrow> settled_by_process acc acc' \<Longrightarrow>
     settled_by_process (or_loop f as acc) (or_loop g as acc')"
  by (induction as arbitrary: acc acc') (auto intro: or_settles)

lemma and_children_settles:
  "(\<And>a. a \<in> set as \<Longrightarrow> settled_by_process (f a) (g a)) \<Longrightarrow> settled_by_process acc acc' \<Longrightarrow>
     settled_by_process (and_children f as acc) (and_children g as acc')"
proof (induction as arbitrary: acc acc')
  case (Cons a as)
  then have "settled_by_process (and_children f as (and_outcome acc (f a))) (and_children g as (and_outcome acc' (g a)))"
    by (intro Cons.IH and_settles) auto
  then show ?case unfolding and_children_Cons .
qed simp

section \<open>Metadata that becomes known\<close>

definition process_pending :: "rs_context \<Rightarrow> bool" where
  "process_pending ctx \<longleftrightarrow> c_process_name ctx = None \<and> c_process_path ctx = None \<and> c_package_names ctx = []"

text \<open>Logical rules of line-based sets that do not negate.\<close>

fun positive :: "logical_rule \<Rightarrow> bool" where
  "positive (L_Leaf n (Rules b ls)) \<longleftrightarrow> b_semantic_program b = None \<and> list_all positive ls"
| "positive (L_And ls) \<longleftrightarrow> list_all positive ls"
| "positive (L_Or ls) \<longleftrightarrow> list_all positive ls"
| "positive (L_Not l) \<longleftrightarrow> False"

definition positive_rules :: "matcher_rules \<Rightarrow> bool" where
  "positive_rules r \<longleftrightarrow> list_all positive (mr_logical r)"

lemma base_with_process:
  assumes "process_pending ctx"
  shows "base_matches x (with_process ctx pn pp pk) b \<longleftrightarrow>
    base_matches x ctx b \<or> on_some pn (process_name_matches b) \<or> list_ex (process_name_matches b) pk \<or> on_some pp (process_path_matches x b)"
proof -
  have "host_matches x (with_process ctx pn pp pk) = host_matches x ctx" by (intro ext) (simp add: host_matches_def with_process_def)
  moreover have "destination_ip (with_process ctx pn pp pk) = destination_ip ctx" by (simp add: destination_ip_def with_process_def cong: option.case_cong)
  ultimately show ?thesis using assms
    by (simp add: base_matches_def Let_def process_pending_def) (simp add: with_process_def)
qed

lemma without_process_predicates:
  "\<not> base_process_predicates b \<Longrightarrow> process_name_matches b = (\<lambda>_. False)"
  "\<not> base_process_predicates b \<Longrightarrow> process_path_matches x b = (\<lambda>_. False)"
  by (auto simp: base_process_predicates_def process_name_matches_def process_path_matches_def)

lemma pending_rules:
  assumes "process_pending ctx"
  shows "b_semantic_program (mr_base r) = None \<Longrightarrow> list_all positive (mr_logical r) \<Longrightarrow>
      (matches_context x ctx r \<longrightarrow> matches_context x (with_process ctx pn pp pk) r) \<and>
      (has_process_predicates r \<or> matches_context x (with_process ctx pn pp pk) r = matches_context x ctx r)"
    and "positive l \<Longrightarrow> (logical_matches x ctx l \<longrightarrow> logical_matches x (with_process ctx pn pp pk) l) \<and>
      (logical_needs_process l \<or> logical_matches x (with_process ctx pn pp pk) l = logical_matches x ctx l)"
proof (induction r and l rule: matcher_rules.induct logical_rule.induct)
  case (Rules b ls)
  have ls: "list_ex (\<lambda>l. \<not> has_external_refs l \<and> logical_matches x ctx l) ls \<longrightarrow>
      list_ex (\<lambda>l. \<not> has_external_refs l \<and> logical_matches x (with_process ctx pn pp pk) l) ls"
    "list_ex logical_needs_process ls \<or> list_ex (\<lambda>l. \<not> has_external_refs l \<and> logical_matches x (with_process ctx pn pp pk) l) ls =
      list_ex (\<lambda>l. \<not> has_external_refs l \<and> logical_matches x ctx l) ls"
    using Rules by (auto simp: list_ex_iff list_all_iff)
  have "has_process_predicates (Rules b ls) \<or> base_matches x (with_process ctx pn pp pk) b = base_matches x ctx b"
    using without_process_predicates [of b] by (auto simp: has_process_predicates_def base_with_process [OF assms] list_ex_iff on_some_def split: option.splits)
  then show ?case using Rules.prems ls by (auto simp: base_with_process [OF assms] has_process_predicates_def)
next
  case (L_Leaf n r)
  then show ?case by (cases r) (auto simp: has_process_predicates_def)
next
  case (L_And ls)
  then show ?case by (auto simp: list_all_iff list_ex_iff)
next
  case (L_Or ls)
  then show ?case by (auto simp: list_all_iff list_ex_iff)
qed simp

lemma context_deferred_settles:
  assumes "process_pending ctx" "positive_rules r"
  shows "settled_by_process (matches_context_deferred x ctx False d r) (matches_context_deferred x (with_process ctx pn pp pk) True d r)"
proof (cases "b_semantic_program (mr_base r)")
  case None
  then have "list_all positive (mr_logical r)" using assms(2) by (simp add: positive_rules_def)
  from pending_rules(1) [OF assms(1) None this, of x] show ?thesis
    using None by (cases "has_process_predicates r") (auto simp: matches_context_deferred_def settles_def outcome.req_postpone)
next
  case (Some p)
  then show ?thesis by (simp add: matches_context_deferred_def matches_deferred_def matches_lazy_process)
qed

lemma source_context_process [simp]: "source_context (with_process ctx pn pp pk) = with_process (source_context ctx) pn pp pk"
  by (simp add: source_context_def with_process_def)

lemma source_context_pending [simp]: "process_pending (source_context ctx) = process_pending ctx"
  by (simp add: source_context_def process_pending_def)

lemma positive_leaf: "positive l \<Longrightarrow> l = L_Leaf n r \<Longrightarrow> positive_rules r"
  by (cases r) (auto simp: positive_rules_def)

text \<open>What holds of a stack when it holds of every longer one.\<close>

lemma stack_induct: "(\<And>stack. (length stack \<le> 32 \<Longrightarrow> (\<And>name. T (stack @ [name]))) \<Longrightarrow> T stack) \<Longrightarrow> T stack"
  by (induction "34 - length stack" arbitrary: stack rule: less_induct) (simp add: less_Suc_eq_le)

lemma aliases_settle:
  assumes "\<And>a m. ms a = Some m \<Longrightarrow> settled_by_process (f a m) (g a m)"
  shows "settled_by_process (evaluate_aliases f ms as O_NotMatched) (evaluate_aliases g ms as O_NotMatched)"
  unfolding evaluate_aliases_loop using assms by (intro or_loop_settles) (auto split: option.split)

lemma rules_settle:
  assumes pos: "\<And>n m. ms n = Some m \<Longrightarrow> positive_rules m"
    and ctx: "process_pending ctx" "positive_rules r"
    and aliases: "\<And>a m c e. length stack \<le> 32 \<Longrightarrow> ms a = Some m \<Longrightarrow> process_pending c \<Longrightarrow>
      settled_by_process (evaluate_indexed_matcher x ms False a m c e (stack @ [name]))
        (evaluate_indexed_matcher x ms True a m (with_process c pn pp pk) e (stack @ [name]))"
    and logical: "\<And>l. length stack \<le> 32 \<Longrightarrow> positive l \<Longrightarrow>
      settled_by_process (matches_indexed x ms False l ctx d (stack @ [name])) (matches_indexed x ms True l (with_process ctx pn pp pk) d (stack @ [name]))"
  shows "settled_by_process (evaluate_indexed_matcher x ms False name r ctx d stack)
    (evaluate_indexed_matcher x ms True name r (with_process ctx pn pp pk) d stack)"
proof (cases "name \<in> set stack \<or> 32 < length stack")
  case True
  then show ?thesis by (simp add: evaluate_indexed_eq)
next
  case False
  have ls: "\<forall>l \<in> set (mr_logical r). positive l" using ctx(2) by (simp add: positive_rules_def list_all_iff)
  show ?thesis
    unfolding evaluate_indexed_eq [of x ms _ name] Let_def if_not_P [OF False] source_context_process
    using False ls ctx by (intro or_loop_settles aliases_settle aliases logical context_deferred_settles) auto
qed

lemma logical_settles:
  assumes "\<And>n r. positive_rules r \<Longrightarrow> settled_by_process (evaluate_indexed_matcher x ms False n r ctx d stack)
    (evaluate_indexed_matcher x ms True n r (with_process ctx pn pp pk) d stack)"
  shows "positive l \<Longrightarrow> settled_by_process (matches_indexed x ms False l ctx d stack) (matches_indexed x ms True l (with_process ctx pn pp pk) d stack)"
proof (induction l rule: logical_rule.induct [where ?P1.0 = "\<lambda>_. True"])
  case (L_Leaf n r)
  then show ?case using assms by (cases r) (simp add: positive_rules_def)
next
  case (L_And ls)
  then show ?case by (auto simp: list_all_iff intro!: and_children_settles)
next
  case (L_Or ls)
  then show ?case by (auto simp: list_all_iff or_children_loop intro!: or_loop_settles)
qed simp_all

lemma indexed_settles:
  assumes "\<And>n m. ms n = Some m \<Longrightarrow> positive_rules m"
  shows "\<forall>name r ctx d. process_pending ctx \<longrightarrow> positive_rules r \<longrightarrow>
    settled_by_process (evaluate_indexed_matcher x ms False name r ctx d stack)
      (evaluate_indexed_matcher x ms True name r (with_process ctx pn pp pk) d stack)"
proof (induction stack rule: stack_induct)
  case (1 stack)
  have ev: "settled_by_process (evaluate_indexed_matcher x ms False n m c e (stack @ [name]))
      (evaluate_indexed_matcher x ms True n m (with_process c pn pp pk) e (stack @ [name]))"
    if "length stack \<le> 32" "process_pending c" "positive_rules m" for n m c e name
    using 1 that by blast
  show ?case
  proof (intro allI impI)
    fix name r ctx d
    assume ctx: "process_pending ctx" "positive_rules r"
    show "settled_by_process (evaluate_indexed_matcher x ms False name r ctx d stack)
      (evaluate_indexed_matcher x ms True name r (with_process ctx pn pp pk) d stack)"
      using assms ctx by (rule rules_settle) (auto intro: ev assms ctx logical_settles)
  qed
qed

section \<open>Known metadata is not asked for\<close>

definition definite :: "match_outcome \<Rightarrow> bool" where
  "definite s \<longleftrightarrow> s = O_Matched \<or> s = O_NotMatched"

lemma or_definite: "definite a \<Longrightarrow> definite c \<Longrightarrow> definite (or_outcome a c)"
  and and_definite: "definite a \<Longrightarrow> definite c \<Longrightarrow> definite (and_outcome a c)"
  and negate_definite: "definite a \<Longrightarrow> definite (negate_outcome a)"
  by (auto simp: definite_def or_outcome.simps and_outcome.simps)

lemma or_loop_definite: "(\<And>a. a \<in> set as \<Longrightarrow> definite (f a)) \<Longrightarrow> definite acc \<Longrightarrow> definite (or_loop f as acc)"
  by (induction as arbitrary: acc) (auto intro: or_definite)

lemma and_children_definite: "(\<And>a. a \<in> set as \<Longrightarrow> definite (f a)) \<Longrightarrow> definite acc \<Longrightarrow> definite (and_children f as acc)"
  by (induction as arbitrary: acc) (simp_all add: and_children_Cons and_definite del: and_children.simps(2))

lemma context_deferred_definite: "definite (matches_context_deferred x ctx True True r)"
  by (auto simp: matches_context_deferred_def matches_deferred_def matches_lazy_resolved definite_def split: option.split)

lemma indexed_definite: "\<forall>name r ctx. definite (evaluate_indexed_matcher x ms True name r ctx True stack)"
proof (induction stack rule: stack_induct)
  case (1 stack)
  show ?case
  proof (intro allI)
    fix name r ctx
    show "definite (evaluate_indexed_matcher x ms True name r ctx True stack)"
    proof (cases "name \<in> set stack \<or> 32 < length stack")
      case True
      then show ?thesis by (simp add: evaluate_indexed_eq definite_def)
    next
      case False
      then have ev: "definite (evaluate_indexed_matcher x ms True a m c True (stack @ [name]))" for a m c using 1 by simp
      have "definite (matches_indexed x ms True l c True (stack @ [name]))" for l c
        by (induction l rule: logical_rule.induct [where ?P1.0 = "\<lambda>_. True"]) (auto simp: ev or_children_loop definite_def [of O_Matched] definite_def [of O_NotMatched]
            intro!: or_loop_definite and_children_definite negate_definite)
      then show ?thesis unfolding evaluate_indexed_eq [of x ms _ name] Let_def if_not_P [OF False] evaluate_aliases_loop
        by (intro or_loop_definite context_deferred_definite) (auto simp: ev definite_def [of O_NotMatched] split: option.split)
    qed
  qed
qed

section \<open>Where the answers do not stand\<close>

text \<open>
  A negated process in a line-based set: while the process is unknown the set already matches, and it no longer
  does when the process is known.
\<close>

definition not_curl :: classical_entry where
  "not_curl = \<lparr>ce_kind = K_Not, ce_value = ''((PROCESS-NAME,curl))'', ce_policy = None\<rparr>"

lemma negated_process_matches_early:
  "matches_context_deferred sample_class sample_context False True (rules_with (compile_logical_rule sample_class) sample_class [not_curl]) = O_Matched"
  "matches_context_deferred sample_class (with_process sample_context (Some ''curl'') None []) True True
     (rules_with (compile_logical_rule sample_class) sample_class [not_curl]) = O_NotMatched"
  by code_simp+

text \<open>
  Every leaf of a logical rule is named \<open>logical\<close>, and the stack of active names takes it for the set itself when
  the set has that name: a negated reference then matches although the set referred to matches.
\<close>

definition not_site :: classical_entry where
  "not_site = \<lparr>ce_kind = K_Not, ce_value = ''((GEOSITE,a))'', ce_policy = None\<rparr>"

definition site_rules :: "string \<rightharpoonup> matcher_rules" where
  "site_rules = [''geosite-a'' \<mapsto> rules_with (compile_logical_rule sample_class) sample_class
     [\<lparr>ce_kind = K_Domain, ce_value = ''example.com'', ce_policy = None\<rparr>]]"

lemma set_named_logical:
  "evaluate_indexed_matcher sample_class site_rules True ''mine'' (rules_with (compile_logical_rule sample_class) sample_class [not_site])
     sample_context True [] = O_NotMatched"
  "evaluate_indexed_matcher sample_class site_rules True ''logical'' (rules_with (compile_logical_rule sample_class) sample_class [not_site])
     sample_context True [] = O_Matched"
  by code_simp+

section \<open>Properties\<close>

definition sample_sets :: "(ip_net, ip_net, matcher_rules) index_state" where
  "sample_sets = index_default\<lparr>matchers :=
     [''apps'' \<mapsto> matcher_new ''apps'' (Rules (base_default\<lparr>b_processes := [''curl''], b_destination_geosite_aliases := [[''geosite-a'']]\<rparr>) []),
      ''geosite-a'' \<mapsto> matcher_new ''geosite-a'' (Rules (base_default\<lparr>b_domains := [''example.com'']\<rparr>) [])]\<rparr>"



end
