(* ===== verification/Rank_Select.thy ===== *)
theory Rank_Select
  imports Std_Bits
begin

text \<open>
  Bit vectors with rank and select in constant time (\<open>core-ruleset/src/parser/mrs/bitmap.rs\<close>), the index of
  the succinct domain sets. A bit vector is its list of \<open>u64\<close> words. The indexes are \<open>i32\<close> values, here
  integers with the checks and saturation of the source; counters that only count bits of a vector in
  memory are natural numbers. Failed allocations are not modelled.
\<close>

abbreviation (input) in_i32 :: "int \<Rightarrow> bool" where
  "in_i32 n \<equiv> - (2 ^ 31) \<le> n \<and> n < 2 ^ 31"

definition i32_try_from :: "nat \<Rightarrow> int option" where
  "i32_try_from n = (if n < 2 ^ 31 then Some (int n) else None)"

definition i32_saturating_add :: "int \<Rightarrow> int \<Rightarrow> int" where
  "i32_saturating_add a b = max (- (2 ^ 31)) (min (2 ^ 31 - 1) (a + b))"

definition i32_checked_sub :: "int \<Rightarrow> int \<Rightarrow> int option" where
  "i32_checked_sub a b = (if in_i32 (a - b) then Some (a - b) else None)"

definition set_bit_at :: "u64 list \<Rightarrow> nat \<Rightarrow> u64 \<Rightarrow> u64 list" where
  "set_bit_at bm i v =
    (let bm = bm @ replicate (i div 64 + 1 - length bm) 0
     in bm[i div 64 := bm ! (i div 64) OR push_bit (i mod 64) (v AND 1)])"

definition get_bit :: "u64 list \<Rightarrow> nat \<Rightarrow> u64" where
  "get_bit bm i = (if length bm \<le> i div 64 then 0 else drop_bit (i mod 64) (bm ! (i div 64)) AND 1)"

fun select_within_word :: "u64 \<Rightarrow> nat \<Rightarrow> nat" where
  "select_within_word w 0 = (if w = 0 then 0 else trailing_zeros w)"
| "select_within_word w (Suc idx) = select_within_word (w AND (w - 1)) idx"

section \<open>Building the index\<close>

fun ranks_loop :: "nat \<Rightarrow> u64 list \<Rightarrow> string + int list \<times> nat" where
  "ranks_loop acc [] = Inr ([], acc)"
| "ranks_loop acc (w # ws) =
    (case i32_try_from (acc + count_ones w) of
       None \<Rightarrow> Inl ''rank index exceeds i32''
     | Some r \<Rightarrow> (case ranks_loop (acc + count_ones w) ws of
           Inl e \<Rightarrow> Inl e | Inr (rs, total_ones) \<Rightarrow> Inr (r # rs, total_ones)))"

function sample_word :: "nat \<Rightarrow> u64 \<Rightarrow> nat \<Rightarrow> nat \<Rightarrow> string + int list \<times> nat" where
  "sample_word wi w count next_target =
    (if next_target < count + count_ones w
     then case i32_try_from (wi * 64 + select_within_word w (next_target - count)) of
            None \<Rightarrow> Inl ''select index exceeds i32''
          | Some p \<Rightarrow> (case sample_word wi w count (next_target + 64) of
                Inl e \<Rightarrow> Inl e | Inr (ps, t) \<Rightarrow> Inr (p # ps, t))
     else Inr ([], next_target))"
  by pat_completeness auto
termination by (relation "measure (\<lambda>(wi, w, count, next_target). count + count_ones w - next_target)") auto

declare sample_word.simps [simp del]

fun selects_loop :: "nat \<Rightarrow> nat \<Rightarrow> nat \<Rightarrow> u64 list \<Rightarrow> string + int list" where
  "selects_loop wi count next_target [] = Inr []"
| "selects_loop wi count next_target (w # ws) =
    (case sample_word wi w count next_target of
       Inl e \<Rightarrow> Inl e
     | Inr (ps, t) \<Rightarrow> (case selects_loop (wi + 1) (count + count_ones w) t ws of
           Inl e \<Rightarrow> Inl e | Inr qs \<Rightarrow> Inr (ps @ qs)))"

definition index_select32_r64 :: "u64 list \<Rightarrow> string + int list \<times> int list" where
  "index_select32_r64 bm =
    (case ranks_loop 0 bm of
       Inl e \<Rightarrow> Inl e
     | Inr (rs, total_ones) \<Rightarrow>
         (case selects_loop 0 0 0 bm of Inl e \<Rightarrow> Inl e | Inr selects \<Rightarrow> Inr (selects, 0 # rs)))"

section \<open>Queries\<close>

definition rank64 :: "u64 list \<Rightarrow> int list \<Rightarrow> int \<Rightarrow> int" where
  "rank64 bm ranks i =
    (if i \<le> 0 then 0
     else let i = nat i; word = i div 64; offset = i mod 64;
              base = (if word < length ranks then ranks ! word else if ranks = [] then 0 else last ranks)
          in if offset = 0 \<or> length bm \<le> word then base
             else let mask = push_bit offset 1 - 1
                  in i32_saturating_add base (int (count_ones (bm ! word AND mask))))"

definition bitmap_end :: "u64 list \<Rightarrow> int" where
  "bitmap_end bm = (case i32_try_from (length bm * 64) of Some p \<Rightarrow> p | None \<Rightarrow> 2 ^ 31 - 1)"

definition bit_position_or_end :: "u64 list \<Rightarrow> nat \<Rightarrow> nat \<Rightarrow> int" where
  "bit_position_or_end bm word offset = (case i32_try_from (word * 64 + offset) of Some p \<Rightarrow> p | None \<Rightarrow> bitmap_end bm)"

text \<open>The scan of both loops: from word \<open>wi\<close> on, with the given number of ones to skip.\<close>

fun scan_from :: "u64 list \<Rightarrow> nat \<Rightarrow> nat \<Rightarrow> u64 list \<Rightarrow> int" where
  "scan_from bm wi left [] = bitmap_end bm"
| "scan_from bm wi left (w # ws) =
    (if left < count_ones w then bit_position_or_end bm wi (select_within_word w left)
     else scan_from bm (wi + 1) (left - count_ones w) ws)"

definition scan_select :: "u64 list \<Rightarrow> int \<Rightarrow> int" where
  "scan_select bm i = (if i < 0 then 0 else scan_from bm 0 (nat i) bm)"

definition select32_r64 :: "u64 list \<Rightarrow> int list \<Rightarrow> int list \<Rightarrow> int \<Rightarrow> int" where
  "select32_r64 bm selects ranks i =
    (if i < 0 \<or> selects = [] then 0
     else let bucket = nat (i div 64)
          in if \<not> (bucket < length selects \<and> 0 \<le> selects ! bucket) then scan_select bm i
             else let start_bit = nat (selects ! bucket); start_word = start_bit div 64
                  in if \<not> (start_word < length bm \<and> start_word < length ranks) then scan_select bm i
                     else let mask = push_bit (start_bit mod 64) 1 - 1;
                              pre = i32_saturating_add (ranks ! start_word) (int (count_ones (bm ! start_word AND mask)))
                          in case i32_checked_sub i pre of
                               None \<Rightarrow> scan_select bm i
                             | Some remaining \<Rightarrow>
                                 if remaining < 0 then scan_select bm i
                                 else scan_from bm start_word (nat remaining) (drop start_word bm))"

section \<open>The reference: positions of the ones\<close>

fun ones_from :: "nat \<Rightarrow> u64 list \<Rightarrow> nat list" where
  "ones_from k [] = []"
| "ones_from k (w # ws) = map (\<lambda>b. k * 64 + b) (ones w) @ ones_from (k + 1) ws"

definition positions :: "u64 list \<Rightarrow> nat list" where
  "positions bm = ones_from 0 bm"

lemma ones_less: "b \<in> set (ones w) \<Longrightarrow> b < 64" for w :: u64
  by (simp add: ones_def)

lemma count_ones_le: "count_ones w \<le> 64" for w :: u64
proof -
  have "length (filter (bit w) [0..<LENGTH(64)]) \<le> length [0..<LENGTH(64)]" by (rule length_filter_le)
  then show ?thesis by (simp add: count_ones_def)
qed

lemma ones_from_range: "p \<in> set (ones_from k ws) \<Longrightarrow> k * 64 \<le> p \<and> p < (k + length ws) * 64"
  by (induction k ws rule: ones_from.induct) (fastforce dest: ones_less)+

lemma ones_from_append: "ones_from k (xs @ ys) = ones_from k xs @ ones_from (k + length xs) ys"
  by (induction k xs rule: ones_from.induct) auto

lemma positions_split: "k \<le> length bm \<Longrightarrow> positions bm = positions (take k bm) @ ones_from k (drop k bm)"
  using ones_from_append [of 0 "take k bm" "drop k bm"] by (simp add: positions_def min_def)

lemma positions_sorted: "sorted_wrt (<) (ones_from k ws)"
proof (induction k ws rule: ones_from.induct)
  case (2 k w ws)
  have "sorted_wrt (<) (map (\<lambda>b. k * 64 + b) (ones w))" by (simp add: ones_def sorted_wrt_map sorted_wrt_filter)
  then show ?case using 2 by (fastforce simp: sorted_wrt_append dest: ones_less ones_from_range)
qed simp

lemma select_within_word_nth: "idx < count_ones w \<Longrightarrow> select_within_word w idx = ones w ! idx"
proof (induction w idx rule: select_within_word.induct)
  case (1 w)
  then have "ones w \<noteq> []" "w \<noteq> 0" using ones_Nil_iff [of w] by (auto simp: length_ones [symmetric])
  then show ?case by (simp add: trailing_zeros_hd hd_conv_nth)
next
  case (2 w idx)
  then have ne: "w \<noteq> 0" using ones_Nil_iff [of w] by (auto simp: length_ones [symmetric])
  have "count_ones (w AND (w - 1)) = count_ones w - 1"
    unfolding length_ones [symmetric] ones_clear [OF ne] by simp
  then show ?case using 2 ne by (simp add: ones_clear nth_tl length_ones)
qed

lemma scan_from_nth:
  assumes "left < length (ones_from wi ws)" "(wi + length ws) * 64 \<le> 2 ^ 31"
  shows "scan_from bm wi left ws = int (ones_from wi ws ! left)"
  using assms
proof (induction ws arbitrary: wi left)
  case (Cons w ws)
  show ?case
  proof (cases "left < count_ones w")
    case True
    have "ones w ! left < 64" using True by (intro ones_less [of _ w] nth_mem) (simp add: length_ones)
    then have "wi * 64 + ones w ! left < 2 ^ 31" using Cons.prems(2) by simp
    then show ?thesis using True
      by (simp add: bit_position_or_end_def i32_try_from_def select_within_word_nth nth_append length_ones)
  next
    case False
    then show ?thesis using Cons by (simp add: nth_append length_ones)
  qed
qed simp

lemma scan_from_end: "length (ones_from wi ws) \<le> left \<Longrightarrow> scan_from bm wi left ws = bitmap_end bm"
  by (induction bm wi left ws rule: scan_from.induct) (auto simp: length_ones)

section \<open>Ranks\<close>

lemma ranks_loop_ok:
  assumes "acc + length (ones_from k ws) < 2 ^ 31"
  shows "\<exists>rs. ranks_loop acc ws = Inr (rs, acc + length (ones_from k ws)) \<and> length rs = length ws \<and>
    (\<forall>j < length ws. rs ! j = int (acc + length (ones_from k (take (Suc j) ws))))"
  using assms
proof (induction ws arbitrary: acc k)
  case (Cons w ws)
  have "acc + count_ones w + length (ones_from (k + 1) ws) < 2 ^ 31" using Cons.prems by (simp add: length_ones)
  from Cons.IH [OF this] obtain rs where rs: "ranks_loop (acc + count_ones w) ws = Inr (rs, acc + count_ones w + length (ones_from (k + 1) ws))"
    "length rs = length ws" "\<forall>j < length ws. rs ! j = int (acc + count_ones w + length (ones_from (k + 1) (take (Suc j) ws)))"
    by blast
  have "i32_try_from (acc + count_ones w) = Some (int (acc + count_ones w))"
    using Cons.prems by (simp add: i32_try_from_def length_ones)
  then show ?case using rs by (auto simp: length_ones nth_Cons split: nat.split)
qed simp

lemma count_ones_mask: "count_ones (w AND (push_bit k 1 - 1)) = length (filter (\<lambda>b. b < k) (ones w))" for w :: u64
proof -
  have "push_bit k 1 - 1 = (mask k :: u64)" by (simp add: mask_eq_exp_minus_1)
  then have "filter (bit (w AND (push_bit k 1 - 1))) [0..<64] = filter (\<lambda>b. b < k) (filter (bit w) [0..<64])"
    by (auto simp: bit_and_iff bit_mask_iff intro!: filter_cong)
  then show ?thesis by (simp add: count_ones_def ones_def)
qed

text \<open>The number of ones below a position, and the index tables of a bit vector.\<close>

definition rank :: "u64 list \<Rightarrow> nat \<Rightarrow> nat" where
  "rank bm i = length (filter (\<lambda>p. p < i) (positions bm))"

definition ranks_ok :: "u64 list \<Rightarrow> int list \<Rightarrow> bool" where
  "ranks_ok bm ranks \<longleftrightarrow> length ranks = length bm + 1 \<and> length (positions bm) < 2 ^ 31 \<and>
     (\<forall>k \<le> length bm. ranks ! k = int (length (positions (take k bm))))"

lemma rank_split:
  assumes "k \<le> length bm" "k * 64 \<le> i"
  shows "rank bm i = length (positions (take k bm)) + length (filter (\<lambda>p. p < i) (ones_from k (drop k bm)))"
proof -
  have "filter (\<lambda>p. p < i) (positions (take k bm)) = positions (take k bm)"
    using assms ones_from_range [of _ 0 "take k bm"] by (intro filter_True) (fastforce simp: positions_def)
  then show ?thesis by (simp add: rank_def positions_split [OF assms(1)])
qed

lemma rank_in_word:
  assumes "k < length bm" "b < 64"
  shows "rank bm (k * 64 + b) = length (positions (take k bm)) + length (filter (\<lambda>c. c < b) (ones (bm ! k)))"
proof -
  have "filter (\<lambda>p. p < k * 64 + b) (ones_from (k + 1) (drop (Suc k) bm)) = []"
    using assms(2) ones_from_range [of _ "k + 1" "drop (Suc k) bm"] by (intro filter_False) fastforce
  then show ?thesis using rank_split [of k bm "k * 64 + b"] assms(1)
    by (simp add: Cons_nth_drop_Suc [symmetric] filter_map o_def)
qed

lemma rank_all: "length bm * 64 \<le> i \<Longrightarrow> rank bm i = length (positions bm)"
  using rank_split [of "length bm" bm i] by simp

lemma rank_le: "rank bm i \<le> length (positions bm)"
  by (simp add: rank_def)

lemma rank64_correct:
  assumes "ranks_ok bm ranks"
  shows "rank64 bm ranks i = int (rank bm (nat i))"
proof (cases "i \<le> 0")
  case True
  then show ?thesis by (simp add: rank64_def rank_def)
next
  case False
  define n where "n = nat i"
  define k where "k = n div 64"
  define b where "b = n mod 64"
  have n: "n = k * 64 + b" "b < 64" by (simp_all add: k_def b_def)
  have len: "length ranks = length bm + 1" and small: "length (positions bm) < 2 ^ 31"
    and tab: "\<And>j. j \<le> length bm \<Longrightarrow> ranks ! j = int (length (positions (take j bm)))"
    using assms by (auto simp: ranks_ok_def)
  define base where "base = (if k < length ranks then ranks ! k else if ranks = [] then 0 else last ranks)"
  have unfolded: "rank64 bm ranks i =
      (if b = 0 \<or> length bm \<le> k then base
       else i32_saturating_add base (int (length (filter (\<lambda>c. c < b) (ones (bm ! k))))))"
    unfolding rank64_def Let_def n_def [symmetric] k_def [symmetric] b_def [symmetric] base_def [symmetric] count_ones_mask
    by (simp only: False if_False)
  consider (past) "length bm \<le> k" | (inside) "k < length bm" by linarith
  then show ?thesis
  proof cases
    case past
    have "last ranks = ranks ! length bm" using len by (simp add: last_conv_nth flip: length_0_conv)
    then have "base = int (length (positions bm))"
      using past len tab [of "length bm"] by (cases "k = length bm") (auto simp: base_def not_less)
    moreover have "rank bm n = length (positions bm)" using past n by (intro rank_all) simp
    ultimately show ?thesis using past unfolded by (simp add: n_def)
  next
    case inside
    have base: "base = int (length (positions (take k bm)))" using inside len tab [of k] by (simp add: base_def)
    have r: "rank bm n = length (positions (take k bm)) + length (filter (\<lambda>c. c < b) (ones (bm ! k)))"
      using rank_in_word [OF inside n(2)] n(1) by simp
    then have "length (positions (take k bm)) + length (filter (\<lambda>c. c < b) (ones (bm ! k))) < 2 ^ 31"
      using rank_le [of bm n] small by linarith
    then have "base + int (length (filter (\<lambda>c. c < b) (ones (bm ! k)))) < 2 ^ 31" using base by simp
    then show ?thesis using inside unfolded base r by (simp add: n_def i32_saturating_add_def)
  qed
qed

section \<open>Selects\<close>

text \<open>Every 64th one is sampled.\<close>

definition selects_ok :: "u64 list \<Rightarrow> int list \<Rightarrow> bool" where
  "selects_ok bm selects \<longleftrightarrow> length (positions bm) \<le> 64 * length selects \<and>
     (\<forall>j < length selects. 64 * j < length (positions bm) \<and> selects ! j = int (positions bm ! (64 * j)))"

lemma sample_word_ok:
  assumes "count \<le> next_target" "(wi + 1) * 64 \<le> 2 ^ 31"
  shows "sample_word wi w count next_target =
    (if next_target < count + count_ones w
     then Inr ([int (wi * 64 + ones w ! (next_target - count))], next_target + 64) else Inr ([], next_target))"
proof (cases "next_target < count + count_ones w")
  case True
  then have idx: "next_target - count < count_ones w" using assms(1) by simp
  then have "ones w ! (next_target - count) < 64" by (intro ones_less [of _ w] nth_mem) (simp add: length_ones)
  then have "i32_try_from (wi * 64 + ones w ! (next_target - count)) = Some (int (wi * 64 + ones w ! (next_target - count)))"
    using assms(2) by (simp add: i32_try_from_def)
  moreover have "sample_word wi w count (next_target + 64) = Inr ([], next_target + 64)"
    using assms(1) count_ones_le [of w] by (simp add: sample_word.simps [of wi w count "next_target + 64"])
  ultimately show ?thesis using True idx by (simp add: sample_word.simps [of wi w count next_target] select_within_word_nth)
qed (simp add: sample_word.simps [of wi w count next_target])

lemma selects_loop_ok:
  assumes "count \<le> t" "(wi + length ws) * 64 \<le> 2 ^ 31"
  shows "\<exists>qs. selects_loop wi count t ws = Inr qs \<and> count + length (ones_from wi ws) \<le> t + 64 * length qs \<and>
    (\<forall>j < length qs. t + 64 * j - count < length (ones_from wi ws) \<and> qs ! j = int (ones_from wi ws ! (t + 64 * j - count)))"
  using assms
proof (induction ws arbitrary: wi count t)
  case (Cons w ws)
  define c where "c = count_ones w"
  have one: "(wi + 1) * 64 \<le> 2 ^ 31" and rest: "(wi + 1 + length ws) * 64 \<le> 2 ^ 31" using Cons.prems(2) by simp_all
  note sw = sample_word_ok [OF Cons.prems(1) one, of w, folded c_def]
  show ?case
  proof (cases "t < count + c")
    case True
    have le: "count + c \<le> t + 64" using Cons.prems(1) count_ones_le [of w] by (simp add: c_def)
    obtain qs where qs: "selects_loop (wi + 1) (count + c) (t + 64) ws = Inr qs"
      "count + c + length (ones_from (wi + 1) ws) \<le> t + 64 + 64 * length qs"
      "\<forall>j < length qs. t + 64 + 64 * j - (count + c) < length (ones_from (wi + 1) ws) \<and>
         qs ! j = int (ones_from (wi + 1) ws ! (t + 64 + 64 * j - (count + c)))"
      using Cons.IH [OF le rest] by blast
    have tail: "t + 64 * Suc j - count < length (ones_from wi (w # ws)) \<and>
        qs ! j = int (ones_from wi (w # ws) ! (t + 64 * Suc j - count))" if "j < length qs" for j
    proof -
      have "t + 64 * Suc j - count = c + (t + 64 + 64 * j - (count + c))" using le by simp
      then show ?thesis using qs(3) that by (simp add: nth_append length_ones c_def)
    qed
    have first: "t - count < length (ones_from wi (w # ws)) \<and>
        int (wi * 64 + ones w ! (t - count)) = int (ones_from wi (w # ws) ! (t - count))"
    proof -
      have "t - count < count_ones w" using True Cons.prems(1) by (simp add: c_def)
      then show ?thesis by (simp add: nth_append length_ones)
    qed
    show ?thesis using True sw qs(1,2) first tail
      by (intro exI [of _ "int (wi * 64 + ones w ! (t - count)) # qs"])
        (auto simp: c_def [symmetric] length_ones nth_Cons split: nat.split)
  next
    case False
    then have le: "count + c \<le> t" by simp
    obtain qs where qs: "selects_loop (wi + 1) (count + c) t ws = Inr qs"
      "count + c + length (ones_from (wi + 1) ws) \<le> t + 64 * length qs"
      "\<forall>j < length qs. t + 64 * j - (count + c) < length (ones_from (wi + 1) ws) \<and>
         qs ! j = int (ones_from (wi + 1) ws ! (t + 64 * j - (count + c)))"
      using Cons.IH [OF le rest] by blast
    have "t + 64 * j - count < length (ones_from wi (w # ws)) \<and>
        qs ! j = int (ones_from wi (w # ws) ! (t + 64 * j - count))" if "j < length qs" for j
    proof -
      have "t + 64 * j - count = c + (t + 64 * j - (count + c))" using le by simp
      then show ?thesis using qs(3) that by (simp add: nth_append length_ones c_def)
    qed
    then show ?thesis using False sw qs(1,2) by (intro exI [of _ qs]) (auto simp: c_def [symmetric] length_ones)
  qed
qed simp

lemma index_ok:
  assumes "length bm * 64 \<le> 2 ^ 31" "length (positions bm) < 2 ^ 31"
  shows "\<exists>selects ranks. index_select32_r64 bm = Inr (selects, ranks) \<and> ranks_ok bm ranks \<and> selects_ok bm selects"
proof -
  obtain rs where rs: "ranks_loop 0 bm = Inr (rs, length (positions bm))" "length rs = length bm"
    "\<forall>j < length bm. rs ! j = int (length (positions (take (Suc j) bm)))"
    using ranks_loop_ok [of 0 0 bm] assms(2) by (auto simp: positions_def)
  obtain qs where qs: "selects_loop 0 0 0 bm = Inr qs" "length (positions bm) \<le> 64 * length qs"
    "\<forall>j < length qs. 64 * j < length (positions bm) \<and> qs ! j = int (positions bm ! (64 * j))"
    using selects_loop_ok [of 0 0 0 bm] assms(1) by (auto simp: positions_def)
  have "ranks_ok bm (0 # rs)" using rs assms(2) by (auto simp: ranks_ok_def nth_Cons positions_def split: nat.split)
  moreover have "selects_ok bm qs" using qs by (simp add: selects_ok_def)
  ultimately show ?thesis using rs(1) qs(1) by (simp add: index_select32_r64_def)
qed

lemma rank_nth: "k < length (positions bm) \<Longrightarrow> rank bm (positions bm ! k) = k"
proof -
  assume k: "k < length (positions bm)"
  have s: "sorted_wrt (<) (positions bm)" unfolding positions_def by (rule positions_sorted)
  have "filter (\<lambda>p. p < positions bm ! k) (take k (positions bm)) = take k (positions bm)"
    using s k by (intro filter_True) (auto simp: in_set_conv_nth sorted_wrt_iff_nth_less)
  moreover have "filter (\<lambda>p. p < positions bm ! k) (drop k (positions bm)) = []"
  proof (rule filter_False, rule ballI)
    fix p assume "p \<in> set (drop k (positions bm))"
    then obtain j where "j < length (positions bm) - k" "p = positions bm ! (k + j)" by (auto simp: in_set_conv_nth)
    moreover have "positions bm ! k < positions bm ! (k + j)" if "0 < j" "j < length (positions bm) - k"
      using s that by (simp add: sorted_wrt_iff_nth_less)
    ultimately show "\<not> p < positions bm ! k" by (cases "0 < j") force+
  qed
  ultimately have "filter (\<lambda>p. p < positions bm ! k) (positions bm) = take k (positions bm)"
    by (metis append_Nil2 append_take_drop_id filter_append)
  then show ?thesis using k by (simp add: rank_def)
qed

text \<open>The ones in front of the sample of \<open>i\<close> within the sample's own word.\<close>

definition skipped :: "u64 list \<Rightarrow> nat \<Rightarrow> nat" where
  "skipped bm i = (let p = positions bm ! (64 * (i div 64)) in length (filter (\<lambda>b. b < p mod 64) (ones (bm ! (p div 64)))))"

lemma select32_r64_exact:
  assumes tabs: "ranks_ok bm ranks" "selects_ok bm selects" and room: "length bm * 64 \<le> 2 ^ 31" and i: "i < length (positions bm)"
  shows "select32_r64 bm selects ranks (int i) = int (positions bm ! (i - skipped bm i)) \<and> skipped bm i \<le> 64 * (i div 64)"
proof -
  define j where "j = i div 64"
  define p where "p = positions bm ! (64 * j)"
  define sw where "sw = p div 64"
  have small: "length (positions bm) < 2 ^ 31" using tabs(1) by (simp add: ranks_ok_def)
  have j: "j < length selects" using tabs(2) i by (auto simp: selects_ok_def j_def)
  then have p: "64 * j < length (positions bm)" "selects ! j = int p" using tabs(2) by (auto simp: selects_ok_def p_def)
  have "p \<in> set (ones_from 0 bm)" using p(1) unfolding p_def positions_def by (rule nth_mem)
  then have sw: "sw < length bm" using ones_from_range [of p 0 bm] by (auto simp: sw_def)
  have R: "ranks ! sw = int (length (positions (take sw bm)))" "sw < length ranks" using tabs(1) sw by (auto simp: ranks_ok_def)
  have "rank bm p = length (positions (take sw bm)) + length (filter (\<lambda>c. c < p mod 64) (ones (bm ! sw)))"
    using rank_in_word [OF sw, of "p mod 64"] by (simp add: sw_def)
  then have pre: "64 * j = length (positions (take sw bm)) + skipped bm i"
    using rank_nth [OF p(1)] by (simp add: skipped_def j_def [symmetric] p_def [symmetric] sw_def Let_def)
  have split: "positions bm = positions (take sw bm) @ ones_from sw (drop sw bm)" using positions_split [of sw bm] sw by simp
  have ge: "64 * j \<le> i" by (simp add: j_def)
  then have at: "length (positions (take sw bm)) + (i - 64 * j) = i - skipped bm i" using pre by linarith
  then have idx: "i - 64 * j < length (ones_from sw (drop sw bm))"
    using i arg_cong [OF split, of length] by simp
  have nth: "ones_from sw (drop sw bm) ! (i - 64 * j) = positions bm ! (i - skipped bm i)"
    unfolding at [symmetric] by (subst split) simp
  have "scan_from bm sw (i - 64 * j) (drop sw bm) = int (positions bm ! (i - skipped bm i))"
    using scan_from_nth [OF idx] room sw nth by simp
  moreover have "select32_r64 bm selects ranks (int i) = scan_from bm sw (i - 64 * j) (drop sw bm)"
  proof -
    have pre_eq: "i32_saturating_add (ranks ! sw) (int (count_ones (bm ! sw AND (push_bit (p mod 64) 1 - 1)))) = int (64 * j)"
      using pre R(1) small p(1) unfolding count_ones_mask
      by (simp add: skipped_def j_def [symmetric] p_def [symmetric] sw_def [symmetric] Let_def i32_saturating_add_def)
    have sub_eq: "i32_checked_sub (int i) (int (64 * j)) = Some (int (i - 64 * j))"
      using ge i small by (simp add: i32_checked_sub_def of_nat_diff)
    have bucket: "nat (int i div 64) = j" by (simp add: j_def nat_div_distrib)
    show ?thesis
      unfolding select32_r64_def Let_def bucket p(2) nat_int sw_def [symmetric] pre_eq sub_eq option.case
      using j sw R(2) by auto
  qed
  ultimately show ?thesis using pre by (simp add: j_def)
qed

text \<open>The positions are those of the set bits.\<close>

lemma get_bit_iff: "get_bit bm i \<noteq> 0 \<longleftrightarrow> i div 64 < length bm \<and> bit (bm ! (i div 64)) (i mod 64)"
proof -
  have "drop_bit k w AND 1 \<noteq> 0 \<longleftrightarrow> bit w k" for w :: u64 and k
    by (metis and_one_eq bit_iff_odd_drop_bit even_iff_mod_2_eq_zero)
  then show ?thesis by (auto simp: get_bit_def)
qed

lemma ones_from_iff: "p \<in> set (ones_from k ws) \<longleftrightarrow> k * 64 \<le> p \<and> p div 64 - k < length ws \<and> bit (ws ! (p div 64 - k)) (p mod 64)"
proof (induction ws arbitrary: k)
  case (Cons w ws)
  have word: "p \<in> set (map (\<lambda>b. k * 64 + b) (ones w)) \<longleftrightarrow> p div 64 = k \<and> bit w (p mod 64)"
  proof
    assume "p div 64 = k \<and> bit w (p mod 64)"
    then have "p = k * 64 + p mod 64" "p mod 64 \<in> set (ones w)" by (auto simp: ones_def)
    then show "p \<in> set (map (\<lambda>b. k * 64 + b) (ones w))" by auto
  qed (auto simp: ones_def)
  have rest: "p \<in> set (ones_from (k + 1) ws) \<longleftrightarrow>
      k < p div 64 \<and> p div 64 - k < Suc (length ws) \<and> bit ((w # ws) ! (p div 64 - k)) (p mod 64)"
  proof -
    have "p div 64 - (k + 1) = p div 64 - k - 1" by simp
    then show ?thesis unfolding Cons.IH by (cases "p div 64 - k") auto
  qed
  show ?case
  proof (cases "p div 64 = k")
    case True
    then show ?thesis using word rest by auto
  next
    case False
    have "p \<in> set (ones_from k (w # ws)) \<longleftrightarrow> p \<in> set (ones_from (k + 1) ws)" using word False by simp
    also have "\<dots> \<longleftrightarrow> k * 64 \<le> p \<and> p div 64 - k < length (w # ws) \<and> bit ((w # ws) ! (p div 64 - k)) (p mod 64)"
      unfolding rest using False by auto
    finally show ?thesis .
  qed
qed simp

lemma set_positions: "set (positions bm) = {i. get_bit bm i \<noteq> 0}"
  by (auto simp: positions_def ones_from_iff get_bit_iff)

lemma get_set_bit: "get_bit (set_bit_at bm i v) j \<noteq> 0 \<longleftrightarrow> get_bit bm j \<noteq> 0 \<or> (i = j \<and> odd v)"
proof -
  define bm' where "bm' = bm @ replicate (i div 64 + 1 - length bm) (0 :: u64)"
  have len: "i div 64 < length bm'" by (simp add: bm'_def)
  have same: "get_bit bm' j \<noteq> 0 \<longleftrightarrow> get_bit bm j \<noteq> 0" by (auto simp: get_bit_iff bm'_def nth_append)
  define x where "x = push_bit (i mod 64) (v AND 1)"
  have x: "bit x (j mod 64) \<longleftrightarrow> i mod 64 = j mod 64 \<and> odd v"
    by (cases "odd v") (auto simp: x_def bit_simps and_one_eq mod_2_eq_odd)
  have "set_bit_at bm i v = bm'[i div 64 := bm' ! (i div 64) OR x]" by (simp only: set_bit_at_def Let_def bm'_def x_def)
  then have "get_bit (set_bit_at bm i v) j \<noteq> 0 \<longleftrightarrow>
      get_bit bm' j \<noteq> 0 \<or> (i div 64 = j div 64 \<and> i mod 64 = j mod 64 \<and> odd v)"
    using len x by (auto simp: get_bit_iff nth_list_update bit_or_iff)
  moreover have "i div 64 = j div 64 \<and> i mod 64 = j mod 64 \<longleftrightarrow> i = j" by (metis div_mod_decomp)
  ultimately show ?thesis using same by blast
qed

text \<open>
  C27: Rank and select against the positions of the ones. For every bit vector of at most \<open>2\<^sup>31\<close> bits and fewer
  ones, the index is built; \<open>rank64\<close> counts the ones below any position, and \<open>select32_r64\<close> returns the position
  of the \<open>i\<close>th one for \<open>i < 64\<close>. From then on it returns an earlier one, too early by the number of ones that
  precede the sample of \<open>i\<close> in the sample's own word.
\<close>

theorem rank_select_index:
  assumes "length bm * 64 \<le> 2 ^ 31" "length (positions bm) < 2 ^ 31"
  shows "\<exists>selects ranks. index_select32_r64 bm = Inr (selects, ranks) \<and>
    (\<forall>i. rank64 bm ranks i = int (rank bm (nat i))) \<and>
    (\<forall>i < length (positions bm). select32_r64 bm selects ranks (int i) = int (positions bm ! (i - skipped bm i))) \<and>
    (\<forall>i < length (positions bm). i < 64 \<longrightarrow> select32_r64 bm selects ranks (int i) = int (positions bm ! i))"
proof -
  obtain selects ranks where I: "index_select32_r64 bm = Inr (selects, ranks)" and tabs: "ranks_ok bm ranks" "selects_ok bm selects"
    using index_ok [OF assms] by blast
  note sel = select32_r64_exact [OF tabs assms(1)]
  have "skipped bm i = 0" if "i < length (positions bm)" "i < 64" for i using sel [OF that(1)] that(2) by simp
  then show ?thesis using I rank64_correct [OF tabs(1)] sel by (intro exI [of _ selects] exI [of _ ranks]) simp
qed

definition sample_bitmap :: "u64 list" where
  "sample_bitmap = [- 2, 3]"

lemma sample_positions: "positions sample_bitmap = [1..<66]"
proof -
  have bits: "bit (- 2 :: u64) n" if "0 < n" "n < 64" for n
  proof -
    have "- 2 = NOT (1 :: u64)" by (simp add: not_eq_complement)
    then show ?thesis using that by (simp only: bit_not_iff) (simp add: bit_1_iff)
  qed
  have "[0..<64] = 0 # [1..<64]" by (simp add: upt_conv_Cons)
  moreover have "filter (bit (- 2 :: u64)) [1..<64] = [1..<64]" using bits by (intro filter_True) auto
  ultimately have low: "ones (- 2 :: u64) = [1..<64]" by (simp add: ones_def bit_0)
  have "ones (3 :: u64) = [0, 1]" by code_simp
  then have "positions sample_bitmap = map ((+) 0) [1..<64] @ [64, 65]" by (simp add: positions_def sample_bitmap_def low)
  also have "\<dots> = [1..<64] @ [64..<66]" by (auto simp: upt_rec intro: map_idI)
  also have "\<dots> = [1..<66]" using upt_add_eq_append [of 1 64 2] by simp
  finally show ?thesis .
qed

theorem rank_select_index_witness:
  "\<exists>selects ranks. index_select32_r64 sample_bitmap = Inr (selects, ranks) \<and> rank64 sample_bitmap ranks 64 = 63 \<and>
     select32_r64 sample_bitmap selects ranks 5 = 6"
proof -
  have small: "length sample_bitmap * 64 \<le> 2 ^ 31" "length (positions sample_bitmap) < 2 ^ 31"
    by (simp_all add: sample_positions) (simp add: sample_bitmap_def)
  obtain selects ranks where I: "index_select32_r64 sample_bitmap = Inr (selects, ranks)"
    and r: "\<forall>i. rank64 sample_bitmap ranks i = int (rank sample_bitmap (nat i))"
    and s: "\<forall>i < length (positions sample_bitmap). i < 64 \<longrightarrow> select32_r64 sample_bitmap selects ranks (int i) = int (positions sample_bitmap ! i)"
    using rank_select_index [OF small] by blast
  have "length (filter (\<lambda>p. p < 64) [1..<66]) = (63 :: nat)" by code_simp
  then have "rank sample_bitmap 64 = 63" by (simp only: rank_def sample_positions)
  then have "rank64 sample_bitmap ranks 64 = 63" using r [rule_format, of 64] by simp
  moreover have "select32_r64 sample_bitmap selects ranks 5 = 6" using s [rule_format, of 5] by (simp add: sample_positions)
  ultimately show ?thesis using I by blast
qed

text \<open>On this vector of 65 ones, the last one is at position 65, and \<open>select32_r64\<close> answers 64.\<close>

theorem select_goes_back:
  "\<exists>selects ranks. index_select32_r64 sample_bitmap = Inr (selects, ranks) \<and>
     select32_r64 sample_bitmap selects ranks 64 = 64 \<and> positions sample_bitmap ! 64 = 65"
proof -
  have small: "length sample_bitmap * 64 \<le> 2 ^ 31" "length (positions sample_bitmap) < 2 ^ 31"
    by (simp_all add: sample_positions) (simp add: sample_bitmap_def)
  obtain selects ranks where I: "index_select32_r64 sample_bitmap = Inr (selects, ranks)"
    and tabs: "ranks_ok sample_bitmap ranks" "selects_ok sample_bitmap selects"
    using index_ok [OF small] by blast
  have "filter (\<lambda>b. b < 1) (ones (3 :: u64)) = [0]" by code_simp
  then have "skipped sample_bitmap 64 = 1" 
    unfolding skipped_def sample_positions Let_def by (simp add: sample_bitmap_def)
  then have "select32_r64 sample_bitmap selects ranks 64 = 64"
    using select32_r64_exact [OF tabs small(1), of 64] by (simp add: sample_positions)
  then show ?thesis using I by (simp add: sample_positions)
qed

end
