(* ===== verification/Mrs_Domain.thy ===== *)
theory Mrs_Domain
  imports Rank_Select Ruleset_IR "HOL-Library.Multiset"
begin

text \<open>
  Domain sets of MRS files (\<open>core-ruleset/src/parser/mrs/domain_set.rs\<close>): a trie of reversed names in a bit
  vector, where a node is a run of zeros, one for each edge, ended by a one. The reader checks the
  shape; \<open>has\<close> walks the trie and returns to \<open>*\<close> edges when it fails.

  A reader is the list of bytes still to come. Error texts are shortened. The lower case of a character
  is a parameter, the crate \<open>unicode_case_mapping\<close>.
\<close>

datatype mrs_error = Mrs_Error string | Unsupported_Binary string

section \<open>Reading\<close>

definition read_full :: "nat \<Rightarrow> bytes \<Rightarrow> mrs_error + bytes \<times> bytes" where
  "read_full n r = (if length r < n then Inl (Mrs_Error ''read_exact failed'') else Inr (take n r, drop n r))"

definition read_i64_be :: "bytes \<Rightarrow> mrs_error + int \<times> bytes" where
  "read_i64_be r = and_then (read_full 8 r) (\<lambda>(buf, r). Inr (sint (u64_from_be buf), r))"

definition read_bounded_len :: "string \<Rightarrow> nat \<Rightarrow> bool \<Rightarrow> bytes \<Rightarrow> mrs_error + nat \<times> bytes" where
  "read_bounded_len field maximum allow_zero r =
    and_then (read_i64_be r) (\<lambda>(raw, r).
      if raw < 0 then Inl (Mrs_Error (field @ '' is negative''))
      else let value = nat raw
           in if (\<not> allow_zero \<and> value = 0) \<or> maximum < value then Inl (Mrs_Error (field @ '' is outside allowed range''))
              else Inr (value, r))"

fun read_u64_vec_be :: "nat \<Rightarrow> bytes \<Rightarrow> mrs_error + u64 list \<times> bytes" where
  "read_u64_vec_be 0 r = Inr ([], r)"
| "read_u64_vec_be (Suc n) r =
    and_then (read_full 8 r) (\<lambda>(buf, r).
      and_then (read_u64_vec_be n r) (\<lambda>(ws, r). Inr (u64_from_be buf # ws, r)))"

definition MAX_DOMAIN_NODES :: nat where "MAX_DOMAIN_NODES = 8 * 1024 * 1024"
definition MAX_DOMAIN_DEPTH :: nat where "MAX_DOMAIN_DEPTH = 1024"
definition MAX_DOMAIN_LEAF_WORDS :: nat where "MAX_DOMAIN_LEAF_WORDS = (MAX_DOMAIN_NODES + 63) div 64"
definition MAX_DOMAIN_BITMAP_WORDS :: nat where "MAX_DOMAIN_BITMAP_WORDS = (2 * MAX_DOMAIN_NODES - 1 + 63) div 64"

definition COMPLEX_WILDCARD :: u8 where "COMPLEX_WILDCARD = 0x2B"
definition SINGLE_WILDCARD :: u8 where "SINGLE_WILDCARD = 0x2A"
definition DOMAIN_STEP :: u8 where "DOMAIN_STEP = 0x2E"

section \<open>The shape of the trie\<close>

text \<open>The bits above \<open>used\<close> in the last word are not used.\<close>

definition padding_set :: "nat \<Rightarrow> u64 list \<Rightarrow> bool" where
  "padding_set used ws \<longleftrightarrow>
    used mod 64 \<noteq> 0 \<and> (if ws = [] then 0 else last ws) AND NOT (push_bit (used mod 64) 1 - 1) \<noteq> 0"

text \<open>The edges of one node: the bit and edge indexes behind it, the depths of the nodes it adds, and their number.\<close>

function validate_edges ::
  "nat \<Rightarrow> u64 list \<Rightarrow> u8 list \<Rightarrow> nat \<Rightarrow> u8 option \<Rightarrow> nat \<Rightarrow> nat \<Rightarrow> nat list \<Rightarrow> nat \<Rightarrow> mrs_error + nat \<times> nat \<times> nat list \<times> nat" where
  "validate_edges effective_bits label_bitmap labels parent_depth previous_label bit_index edge_index depths child_count =
    (if effective_bits \<le> bit_index then Inl (Mrs_Error ''domain label bitmap ended before node delimiter'')
     else if get_bit label_bitmap bit_index \<noteq> 0 then Inr (bit_index + 1, edge_index, depths, child_count)
     else if length labels \<le> edge_index then Inl (Mrs_Error ''domain label bitmap has more edges than labels'')
     else let label = labels ! edge_index
          in if (case previous_label of Some previous \<Rightarrow> label \<le> previous | None \<Rightarrow> False)
             then Inl (Mrs_Error ''domain sibling labels are not strictly increasing'')
             else if MAX_DOMAIN_DEPTH < parent_depth + 1 then Inl (Mrs_Error ''domain trie depth exceeds the limit'')
             else validate_edges effective_bits label_bitmap labels parent_depth (Some label) (bit_index + 1) (edge_index + 1)
                    (depths @ [parent_depth + 1]) (child_count + 1))"
  by pat_completeness auto
termination
  by (relation "measure (\<lambda>(n, bm, ls, d, prev, bit_index, rest). n - bit_index)") auto

declare validate_edges.simps [simp del]

text \<open>The nodes still to check, and the indexes reached.\<close>

fun validate_nodes ::
  "nat \<Rightarrow> u64 list \<Rightarrow> u64 list \<Rightarrow> u8 list \<Rightarrow> nat list \<Rightarrow> nat \<Rightarrow> nat \<Rightarrow> nat list \<Rightarrow> mrs_error + nat \<times> nat \<times> nat list" where
  "validate_nodes effective_bits leaves label_bitmap labels [] bit_index edge_index depths = Inr (bit_index, edge_index, depths)"
| "validate_nodes effective_bits leaves label_bitmap labels (node_index # nodes) bit_index edge_index depths =
    (if length depths \<le> node_index then Inl (Mrs_Error ''domain label bitmap references an unreachable node'')
     else and_then (validate_edges effective_bits label_bitmap labels (depths ! node_index) None bit_index edge_index depths 0)
       (\<lambda>(bit_index, edge_index, depths, child_count).
         if child_count = 0 \<and> get_bit leaves node_index = 0 then Inl (Mrs_Error ''domain childless node is not terminal'')
         else validate_nodes effective_bits leaves label_bitmap labels nodes bit_index edge_index depths))"

definition validate_succinct_set :: "u64 list \<Rightarrow> u64 list \<Rightarrow> u8 list \<Rightarrow> mrs_error + nat \<times> nat" where
  "validate_succinct_set leaves label_bitmap labels =
    (let node_count = length labels + 1; effective_bits = node_count * 2 - 1
     in if length label_bitmap \<noteq> (effective_bits + 63) div 64 then Inl (Mrs_Error ''domain label bitmap word count'')
        else if padding_set effective_bits label_bitmap then Inl (Mrs_Error ''domain label bitmap padding is non-zero'')
        else if length leaves \<noteq> (node_count + 63) div 64 then Inl (Mrs_Error ''domain leaves word count'')
        else if padding_set node_count leaves then Inl (Mrs_Error ''domain leaves reference non-existent nodes'')
        else if get_bit leaves 0 \<noteq> 0 then Inl (Mrs_Error ''domain root cannot be terminal'')
        else if get_bit leaves (node_count - 1) = 0 then Inl (Mrs_Error ''domain final node must be terminal'')
        else and_then (validate_nodes effective_bits leaves label_bitmap labels [0..<node_count] 0 0 [0])
          (\<lambda>(bit_index, edge_index, depths).
            if bit_index \<noteq> effective_bits \<or> edge_index \<noteq> length labels \<or> length depths \<noteq> node_count
            then Inl (Mrs_Error ''domain succinct set has unreferenced labels or bitmap bits'')
            else Inr (node_count, effective_bits)))"

record mrs_domain_set =
  ds_leaves :: "u64 list"
  ds_label_bitmap :: "u64 list"
  ds_labels :: "u8 list"
  ds_ranks :: "int list"
  ds_selects :: "int list"
  ds_node_count :: nat
  ds_effective_bitmap_bits :: nat

definition domain_set_read :: "bytes \<Rightarrow> mrs_error + mrs_domain_set \<times> bytes" where
  "domain_set_read r =
    and_then (read_full 1 r) (\<lambda>(byte, r).
    if byte \<noteq> [1] then Inl (Unsupported_Binary ''MRS domain_set version'')
    else and_then (read_bounded_len ''domain leaves_len'' MAX_DOMAIN_LEAF_WORDS False r) (\<lambda>(leaves_len, r).
      and_then (read_u64_vec_be leaves_len r) (\<lambda>(leaves, r).
      and_then (read_bounded_len ''domain labelmap_len'' MAX_DOMAIN_BITMAP_WORDS False r) (\<lambda>(labelmap_len, r).
      and_then (read_u64_vec_be labelmap_len r) (\<lambda>(label_bitmap, r).
      and_then (read_bounded_len ''domain labels_len'' (MAX_DOMAIN_NODES - 1) False r) (\<lambda>(labels_len, r).
      and_then (read_full labels_len r) (\<lambda>(labels, r).
      and_then (validate_succinct_set leaves label_bitmap labels) (\<lambda>(node_count, effective_bits).
      and_then (map_sum (\<lambda>e. Mrs_Error ''domain bitmap index failed'') (\<lambda>t. t) (index_select32_r64 label_bitmap)) (\<lambda>(selects, ranks).
            Inr (\<lparr>ds_leaves = leaves, ds_label_bitmap = label_bitmap, ds_labels = labels, ds_ranks = ranks, ds_selects = selects,
                  ds_node_count = node_count, ds_effective_bitmap_bits = effective_bits\<rparr>, r))))))))))"

section \<open>Searching\<close>

definition i32_checked_add :: "int \<Rightarrow> int \<Rightarrow> int option" where
  "i32_checked_add a b = (if in_i32 (a + b) then Some (a + b) else None)"

definition count_zeros :: "mrs_domain_set \<Rightarrow> int \<Rightarrow> int" where
  "count_zeros s i = i - rank64 (ds_label_bitmap s) (ds_ranks s) i"

definition select_ith_one :: "mrs_domain_set \<Rightarrow> int \<Rightarrow> int" where
  "select_ith_one s i = select32_r64 (ds_label_bitmap s) (ds_selects s) (ds_ranks s) i"

text \<open>The node behind the edge at a position of the bit vector, and the position of its first edge.\<close>

definition enter_child :: "mrs_domain_set \<Rightarrow> int \<Rightarrow> (int \<times> int) option" where
  "enter_child s bm_idx =
    (case i32_checked_add bm_idx 1 of
       None \<Rightarrow> None
     | Some after \<Rightarrow>
         (let node_id = count_zeros s after
          in if node_id \<le> 0 \<or> ds_node_count s \<le> nat node_id then None
             else map_option (\<lambda>b. (node_id, b)) (i32_checked_add (select_ith_one s (node_id - 1)) 1)))"

text \<open>An edge of the node: the position is a zero of the vector and has a label.\<close>

definition in_bitmap :: "mrs_domain_set \<Rightarrow> int \<Rightarrow> bool" where
  "in_bitmap s bm_idx \<longleftrightarrow> 0 \<le> bm_idx \<and> nat bm_idx < ds_effective_bitmap_bits s"

definition edge_label :: "mrs_domain_set \<Rightarrow> int \<Rightarrow> int \<Rightarrow> u8 option" where
  "edge_label s node_id bm_idx =
    (let local = bm_idx - node_id
     in if local < 0 \<or> length (ds_labels s) \<le> nat local then None else Some (ds_labels s ! nat local))"

text \<open>The edge with a dot among the edges of a node.\<close>

function find_step :: "mrs_domain_set \<Rightarrow> int \<Rightarrow> int \<Rightarrow> int option" where
  "find_step s node_id bm_idx =
    (if \<not> in_bitmap s bm_idx \<or> get_bit (ds_label_bitmap s) (nat bm_idx) \<noteq> 0 then None
     else case edge_label s node_id bm_idx of
            None \<Rightarrow> None
          | Some lab \<Rightarrow> if lab = DOMAIN_STEP then Some bm_idx else find_step s node_id (bm_idx + 1))"
  by pat_completeness auto
termination
  by (relation "measure (\<lambda>(s, node_id, bm_idx). ds_effective_bitmap_bits s - nat bm_idx)") (auto simp: in_bitmap_def)

declare find_step.simps [simp del]

text \<open>The next dot of the key.\<close>

function next_step :: "bytes \<Rightarrow> nat \<Rightarrow> nat" where
  "next_step key j = (if j < length key \<and> key ! j \<noteq> DOMAIN_STEP then next_step key (j + 1) else j)"
  by pat_completeness auto
termination
  by (relation "measure (\<lambda>(key, j). length key - j)") auto

declare next_step.simps [simp del]

lemma next_step_props: "j \<le> next_step key j \<and> (next_step key j < length key \<longrightarrow> key ! next_step key j = DOMAIN_STEP)"
proof (induction key j rule: next_step.induct)
  case (1 key j)
  then show ?case by (subst (1 2 3) next_step.simps) (auto split: if_splits)
qed

lemma find_step_props:
  "find_step s node_id bm_idx = Some b \<Longrightarrow>
     in_bitmap s b \<and> get_bit (ds_label_bitmap s) (nat b) = 0 \<and> edge_label s node_id b = Some DOMAIN_STEP"
proof (induction s node_id bm_idx rule: find_step.induct)
  case (1 s node_id bm_idx)
  from "1.prems" show ?case using "1.IH" by (subst (asm) find_step.simps) (auto split: if_splits option.splits)
qed

text \<open>
  The weight of a search: of the position, and of the cursors to return to. A position whose edge is taken next counts
  as the next character already.
\<close>

definition takes_edge :: "mrs_domain_set \<Rightarrow> bytes \<Rightarrow> int \<Rightarrow> int \<Rightarrow> nat \<Rightarrow> bool" where
  "takes_edge s key node_id bm_idx i \<longleftrightarrow>
     i < length key \<and> in_bitmap s bm_idx \<and> get_bit (ds_label_bitmap s) (nat bm_idx) = 0 \<and>
     edge_label s node_id bm_idx = Some (key ! i) \<and> key ! i \<noteq> COMPLEX_WILDCARD \<and> key ! i \<noteq> SINGLE_WILDCARD"

definition position_weight :: "mrs_domain_set \<Rightarrow> bytes \<Rightarrow> int \<Rightarrow> int \<Rightarrow> nat \<Rightarrow> nat \<times> nat" where
  "position_weight s key node_id bm_idx i =
    (if takes_edge s key node_id bm_idx i then (length key - i - 1, ds_effective_bitmap_bits s + 1)
     else (length key - i, ds_effective_bitmap_bits s - nat bm_idx))"

definition search_weight :: "mrs_domain_set \<Rightarrow> bytes \<Rightarrow> int \<Rightarrow> int \<Rightarrow> (int \<times> nat) list \<Rightarrow> nat \<Rightarrow> (nat \<times> nat) multiset" where
  "search_weight s key node_id bm_idx stack i =
    add_mset (position_weight s key node_id bm_idx i) (mset (map (\<lambda>(b, k). (length key - k, 0)) stack))"

abbreviation (input) lighter :: "((nat \<times> nat) multiset \<times> (nat \<times> nat) multiset) set" where
  "lighter \<equiv> mult (less_than <*lex*> less_than)"

lemma lighter_position:
  assumes "(position_weight s key n' b' i', position_weight s key n b i) \<in> less_than <*lex*> less_than"
  shows "(search_weight s key n' b' stack i', search_weight s key n b stack i) \<in> lighter"
  using one_step_implies_mult [of "{#position_weight s key n b i#}" "{#position_weight s key n' b' i'#}" "less_than <*lex*> less_than"
      "mset (map (\<lambda>(b, k). (length key - k, 0)) stack)"] assms
  by (simp add: search_weight_def)

lemma lighter_push:
  assumes "in_bitmap s b" "\<not> takes_edge s key n b i"
  shows "(search_weight s key n (b + 1) ((b, i) # stack) i, search_weight s key n b stack i) \<in> lighter"
proof -
  have "(position_weight s key n (b + 1) i, position_weight s key n b i) \<in> less_than <*lex*> less_than"
    "((length key - i, 0), position_weight s key n b i) \<in> less_than <*lex*> less_than"
    using assms by (auto simp: position_weight_def in_bitmap_def takes_edge_def)
  then show ?thesis
    using one_step_implies_mult [of "{#position_weight s key n b i#}" "{#position_weight s key n (b + 1) i, (length key - i, 0)#}"
        "less_than <*lex*> less_than" "mset (map (\<lambda>(b, k). (length key - k, 0)) stack)"]
    by (simp add: search_weight_def add_mset_commute)
qed

lemma lighter_skip:
  assumes "in_bitmap s b" "\<not> takes_edge s key n b i"
  shows "(search_weight s key n (b + 1) stack i, search_weight s key n b stack i) \<in> lighter"
  using assms by (intro lighter_position) (auto simp: position_weight_def in_bitmap_def takes_edge_def)

lemma lighter_descend:
  assumes "takes_edge s key n b i"
  shows "(search_weight s key n' b' stack (Suc i), search_weight s key n b stack i) \<in> lighter"
  using assms by (intro lighter_position) (auto simp: position_weight_def takes_edge_def)

lemma lighter_pop: "(search_weight s key n b stack i, search_weight s key n b (c # stack) i) \<in> lighter"
  using one_step_implies_mult [of "{#(\<lambda>(b, k). (length key - k, 0)) c#}" "{#}" "less_than <*lex*> less_than"
      "search_weight s key n b stack i"]
  by (simp add: search_weight_def add_mset_commute split: prod.splits)

lemma lighter_resume:
  assumes "find_step s n' b' = Some b''" "next_step key k = j" "j < length key"
  shows "(search_weight s key n' b'' stack j, search_weight s key n b ((c, k) # stack) i) \<in> lighter"
proof -
  have "takes_edge s key n' b'' j" using find_step_props [OF assms(1)] next_step_props [of k key] assms(2,3)
    by (simp add: takes_edge_def DOMAIN_STEP_def COMPLEX_WILDCARD_def SINGLE_WILDCARD_def)
  then have "(position_weight s key n' b'' j, (length key - k, 0)) \<in> less_than <*lex*> less_than"
    using next_step_props [of k key] assms(2,3) by (auto simp: position_weight_def)
  then show ?thesis
    using one_step_implies_mult [of "{#position_weight s key n b i, (length key - k, 0)#}" "{#position_weight s key n' b'' j#}"
        "less_than <*lex*> less_than" "mset (map (\<lambda>(b, k). (length key - k, 0)) stack)"]
    by (simp add: search_weight_def add_mset_commute)
qed

function has_loop :: "mrs_domain_set \<Rightarrow> bytes \<Rightarrow> int \<Rightarrow> int \<Rightarrow> (int \<times> nat) list \<Rightarrow> nat \<Rightarrow> bool" where
  "has_loop s key node_id bm_idx stack i =
    (if length key \<le> i then get_bit (ds_leaves s) (nat node_id) \<noteq> 0
     else if \<not> in_bitmap s bm_idx then False
     else if get_bit (ds_label_bitmap s) (nat bm_idx) \<noteq> 0 then
       (case stack of
          [] \<Rightarrow> False
        | (cursor_bm, cursor_index) # stack' \<Rightarrow>
            (case enter_child s cursor_bm of
               None \<Rightarrow> False
             | Some (next_node_id, next_bm_idx) \<Rightarrow>
                 (let j = next_step key cursor_index
                  in if length key \<le> j
                     then if get_bit (ds_leaves s) (nat next_node_id) \<noteq> 0 then True
                          else has_loop s key node_id bm_idx stack' i
                     else case find_step s next_node_id next_bm_idx of
                            None \<Rightarrow> has_loop s key node_id bm_idx stack' i
                          | Some step \<Rightarrow> has_loop s key next_node_id step stack' j)))
     else
       (case edge_label s node_id bm_idx of
          None \<Rightarrow> False
        | Some lab \<Rightarrow>
            if lab = COMPLEX_WILDCARD then True
            else if lab = SINGLE_WILDCARD then has_loop s key node_id (bm_idx + 1) ((bm_idx, i) # stack) i
            else if lab = key ! i then
              (case enter_child s bm_idx of
                 None \<Rightarrow> False
               | Some (child, first) \<Rightarrow> has_loop s key child first stack (i + 1))
            else has_loop s key node_id (bm_idx + 1) stack i))"
  by pat_completeness auto
termination
proof (relation "inv_image lighter (\<lambda>(s, key, node_id, bm_idx, stack, i). search_weight s key node_id bm_idx stack i)")
  show "wf (inv_image lighter (\<lambda>(s, key, node_id, bm_idx, stack, i). search_weight s key node_id bm_idx stack i))"
    by (intro wf_inv_image wf_mult wf_lex_prod wf_less_than)
qed (auto simp: lighter_pop intro!: lighter_push lighter_skip lighter_descend lighter_resume
    simp: takes_edge_def SINGLE_WILDCARD_def COMPLEX_WILDCARD_def)

declare has_loop.simps [simp del]

text \<open>Characters whose lower case is newer than the tables of the other implementation.\<close>

definition frozen_scalars :: "string list" where
  "frozen_scalars = [[CHR 0xE1, CHR 0xB2, CHR 0x89], [CHR 0xEA, CHR 0x9F, CHR 0x8B], [CHR 0xEA, CHR 0x9F, CHR 0x8C],
     [CHR 0xEA, CHR 0x9F, CHR 0x9A], [CHR 0xEA, CHR 0x9F, CHR 0x9C]] @
     map (\<lambda>b. [CHR 0xF0, CHR 0x90, CHR 0xB5, char_of b]) [0x90..<0xA6 :: nat]"

definition unicode_simple_lower :: "(string \<Rightarrow> string option) \<Rightarrow> string \<Rightarrow> string" where
  "unicode_simple_lower mapping ch =
    (if ch \<in> set frozen_scalars then ch else case mapping ch of None \<Rightarrow> ch | Some low \<Rightarrow> low)"

definition search_key :: "(string \<Rightarrow> string option) \<Rightarrow> string \<Rightarrow> bytes" where
  "search_key mapping key = as_bytes (concat (map (unicode_simple_lower mapping) (rev (utf8_chars key))))"

definition mrs_has :: "(string \<Rightarrow> string option) \<Rightarrow> mrs_domain_set \<Rightarrow> string \<Rightarrow> bool" where
  "mrs_has mapping s key =
    (let key = search_key mapping key in if key = [] then False else has_loop s key 0 0 [] 0)"

lemma read_full_append: "length a = n \<Longrightarrow> read_full n (a @ b) = Inr (a, b)"
  by (simp add: read_full_def)

lemma map_sum_Inr_iff: "map_sum f g m = Inr y \<longleftrightarrow> (\<exists>x. m = Inr x \<and> y = g x)"
  by (cases m) auto

lemma read_bounded_len_max: "read_bounded_len f maximum z r = Inr (v, r') \<Longrightarrow> v \<le> maximum"
  by (auto simp: read_bounded_len_def and_then_Inr_iff Let_def split: if_splits)

lemma read_u64_vec_length: "read_u64_vec_be n r = Inr (ws, r') \<Longrightarrow> length ws = n"
  by (induction n arbitrary: r ws r') (auto simp: and_then_Inr_iff)

section \<open>Ones and nodes\<close>

lemma rank_card: "rank bm i = card {p. p < i \<and> get_bit bm p \<noteq> 0}"
proof -
  have "distinct (positions bm)" using positions_sorted [of 0 bm] by (simp add: positions_def strict_sorted_iff)
  then have "rank bm i = card (set (filter (\<lambda>p. p < i) (positions bm)))" unfolding rank_def by (subst distinct_card) simp_all
  then show ?thesis by (simp add: set_positions conj_commute)
qed

lemma rank_Suc: "rank bm (Suc i) = rank bm i + (if get_bit bm i \<noteq> 0 then 1 else 0)"
proof -
  have "{p. p < Suc i \<and> get_bit bm p \<noteq> 0} = (if get_bit bm i \<noteq> 0 then insert i {p. p < i \<and> get_bit bm p \<noteq> 0} else {p. p < i \<and> get_bit bm p \<noteq> 0})"
    by (auto simp: less_Suc_eq)
  then show ?thesis by (simp add: rank_card)
qed

lemma rank_zeros: "b \<le> h \<Longrightarrow> \<forall>p. b \<le> p \<and> p < h \<longrightarrow> get_bit bm p = 0 \<Longrightarrow> rank bm h = rank bm b"
  by (induction h rule: dec_induct) (simp_all add: rank_Suc)

lemma next_one:
  assumes "b \<le> h" "\<forall>p. b \<le> p \<and> p < h \<longrightarrow> get_bit bm p = 0" "get_bit bm h \<noteq> 0"
  shows "rank bm b < length (positions bm)" "positions bm ! rank bm b = h" "rank bm (Suc h) = Suc (rank bm b)"
proof -
  have "h \<in> set (positions bm)" using assms(3) by (simp add: set_positions)
  then obtain j where j: "j < length (positions bm)" "positions bm ! j = h" by (auto simp: in_set_conv_nth)
  moreover have "rank bm h = rank bm b" using assms by (intro rank_zeros)
  ultimately have "rank bm b = j" using rank_nth [OF j(1)] by simp
  then show "rank bm b < length (positions bm)" "positions bm ! rank bm b = h" using j by simp_all
  show "rank bm (Suc h) = Suc (rank bm b)" using \<open>rank bm h = rank bm b\<close> assms(3) by (simp add: rank_Suc)
qed

text \<open>The first bit of a node. Its edge at position \<open>p\<close> has the label \<open>p - n\<close> and leads to the node \<open>p + 1 - n\<close>.\<close>

definition first_edge :: "u64 list \<Rightarrow> nat \<Rightarrow> nat" where
  "first_edge bm n = (if n = 0 then 0 else positions bm ! (n - 1) + 1)"

definition increasing_between :: "u8 list \<Rightarrow> nat \<Rightarrow> nat \<Rightarrow> bool" where
  "increasing_between ls a b \<longleftrightarrow> (\<forall>i j. a \<le> i \<and> i < j \<and> j < b \<longrightarrow> ls ! i < ls ! j)"

definition node_ok :: "nat \<Rightarrow> u64 list \<Rightarrow> u8 list \<Rightarrow> nat \<Rightarrow> bool" where
  "node_ok bits bm ls n \<longleftrightarrow>
     n < length (positions bm) \<and> n \<le> first_edge bm n \<and> first_edge bm n \<le> positions bm ! n \<and> positions bm ! n < bits \<and>
     positions bm ! n - n \<le> length ls \<and> increasing_between ls (first_edge bm n - n) (positions bm ! n - n)"

lemma validate_edges_ok:
  "validate_edges bits bm ls d prev b e ds cc = Inr (b', e', ds', cc') \<Longrightarrow>
     \<exists>h. b' = Suc h \<and> b \<le> h \<and> h < bits \<and> (\<forall>p. b \<le> p \<and> p < h \<longrightarrow> get_bit bm p = 0) \<and> get_bit bm h \<noteq> 0 \<and>
       e' = e + (h - b) \<and> (e \<le> length ls \<longrightarrow> e' \<le> length ls) \<and> increasing_between ls e e' \<and>
       (\<forall>l. prev = Some l \<longrightarrow> (\<forall>i. e \<le> i \<and> i < e' \<longrightarrow> l < ls ! i))"
proof (induction bits bm ls d prev b e ds cc rule: validate_edges.induct)
  case (1 bits bm ls d prev b e ds cc)
  show ?case
  proof (cases "get_bit bm b \<noteq> 0")
    case True
    then show ?thesis using "1.prems" by (subst (asm) validate_edges.simps) (auto simp: increasing_between_def split: if_splits)
  next
    case False
    from "1.prems" False have guards: "b < bits" "e < length ls" "\<not> (case prev of Some p \<Rightarrow> ls ! e \<le> p | None \<Rightarrow> False)" "\<not> MAX_DOMAIN_DEPTH < d + 1"
      and rest: "validate_edges bits bm ls d (Some (ls ! e)) (b + 1) (e + 1) (ds @ [d + 1]) (cc + 1) = Inr (b', e', ds', cc')"
      by (subst (asm) validate_edges.simps; force simp: Let_def split: if_splits)+
    obtain h where h: "b' = Suc h" "b + 1 \<le> h" "h < bits" "\<forall>p. b + 1 \<le> p \<and> p < h \<longrightarrow> get_bit bm p = 0" "get_bit bm h \<noteq> 0"
      "e' = e + 1 + (h - (b + 1))" "e' \<le> length ls" "increasing_between ls (e + 1) e'" "\<forall>i. e + 1 \<le> i \<and> i < e' \<longrightarrow> ls ! e < ls ! i"
      using "1.IH" [OF _ _ _ refl _ _ rest] guards False by auto
    have "\<forall>p. b \<le> p \<and> p < h \<longrightarrow> get_bit bm p = 0" using h(4) False by (metis Suc_eq_plus1 Suc_leI le_neq_implies_less)
    moreover have "increasing_between ls e e'" unfolding increasing_between_def
    proof (intro allI impI)
      fix i j assume "e \<le> i \<and> i < j \<and> j < e'"
      then show "ls ! i < ls ! j" using h(8,9) by (cases "i = e") (auto simp: increasing_between_def)
    qed
    moreover have "l < ls ! i" if "prev = Some l" "e \<le> i" "i < e'" for l i
    proof (cases "i = e")
      case False
      then have "ls ! e < ls ! i" using h(9) that by simp
      then show ?thesis using guards(3) that(1) by simp
    qed (use guards(3) that(1) in simp)
    ultimately show ?thesis using h by (intro exI [of _ h]) auto
  qed
qed

lemma validate_nodes_ok:
  assumes "validate_nodes bits leaves bm ls [k..<K] b e ds = Inr (b', e', ds')" "k \<le> K"
    and "rank bm b = k" "b = first_edge bm k" "e + k = b" "e \<le> length ls"
  shows "rank bm b' = K \<and> b' = first_edge bm K \<and> e' + K = b' \<and> (\<forall>n. k \<le> n \<and> n < K \<longrightarrow> node_ok bits bm ls n)"
  using assms
proof (induction "[k..<K]" arbitrary: k b e ds)
  case Nil
  have "k = K" using Nil.hyps [symmetric] Nil.prems(2) by (auto simp: upt_eq_Nil_conv)
  then show ?case using Nil.prems by auto
next
  case (Cons m ms)
  have m: "m = k" "ms = [Suc k..<K]" "k < K" using Cons.hyps(2) [symmetric] by (auto simp: upt_eq_Cons_conv)
  have "validate_nodes bits leaves bm ls (k # [Suc k..<K]) b e ds = Inr (b', e', ds')"
    using Cons.prems(1) Cons.hyps(2) m by metis
  then obtain b1 e1 ds1 cc where
    edges: "validate_edges bits bm ls (ds ! k) None b e ds 0 = Inr (b1, e1, ds1, cc)"
    and rest: "validate_nodes bits leaves bm ls [Suc k..<K] b1 e1 ds1 = Inr (b', e', ds')"
    by (auto simp: and_then_Inr_iff split: if_splits)
  obtain h where h: "b1 = Suc h" "b \<le> h" "h < bits" "\<forall>p. b \<le> p \<and> p < h \<longrightarrow> get_bit bm p = 0" "get_bit bm h \<noteq> 0"
    "e1 = e + (h - b)" "e1 \<le> length ls" "increasing_between ls e e1"
    using validate_edges_ok [OF edges] Cons.prems(6) by auto
  note one = next_one [OF h(2,4,5), unfolded Cons.prems(3)]
  have "rank bm b' = K \<and> b' = first_edge bm K \<and> e' + K = b' \<and> (\<forall>n. Suc k \<le> n \<and> n < K \<longrightarrow> node_ok bits bm ls n)"
    using m h one Cons.prems(5) by (intro Cons.hyps(1) [OF m(2) rest]) (auto simp: first_edge_def)
  moreover have "node_ok bits bm ls k"
  proof -
    have e: "first_edge bm k - k = e" "positions bm ! k - k = e1" "k \<le> first_edge bm k"
      using one h Cons.prems(4,5) by linarith+
    then show ?thesis unfolding node_ok_def e using one h Cons.prems(4) by simp
  qed
  ultimately show ?case by (metis le_neq_implies_less Suc_leI)
qed

text \<open>What the reader guarantees of a set.\<close>

definition ds_ok :: "mrs_domain_set \<Rightarrow> bool" where
  "ds_ok s \<longleftrightarrow>
     ds_node_count s = length (ds_labels s) + 1 \<and> ds_effective_bitmap_bits s = 2 * ds_node_count s - 1 \<and>
     length (positions (ds_label_bitmap s)) = ds_node_count s \<and> length (ds_label_bitmap s) * 64 \<le> 2 ^ 31 \<and>
     ranks_ok (ds_label_bitmap s) (ds_ranks s) \<and> selects_ok (ds_label_bitmap s) (ds_selects s) \<and>
     (\<forall>n < ds_node_count s. node_ok (ds_effective_bitmap_bits s) (ds_label_bitmap s) (ds_labels s) n)"

lemma ds_ok_node: "ds_ok s \<Longrightarrow> n < ds_node_count s \<Longrightarrow> node_ok (ds_effective_bitmap_bits s) (ds_label_bitmap s) (ds_labels s) n"
  unfolding ds_ok_def by blast

lemma padding_clear:
  assumes "\<not> padding_set used bm" "length bm = (used + 63) div 64" "used \<le> p"
  shows "get_bit bm p = 0"
proof (cases "p div 64 < length bm")
  case True
  have up: "(used + 63) div 64 = used div 64 + (if used mod 64 = 0 then 0 else 1)"
    by (cases "used mod 64 = 0") (use div_add1_eq [of used 63 64] in \<open>auto simp: div_le_dividend le_div_geq\<close>)
  have "p div 64 < (used + 63) div 64" "used div 64 \<le> p div 64" using True assms(2,3) by (simp_all add: div_le_mono)
  then have mod: "used mod 64 \<noteq> 0" and word: "p div 64 = used div 64" using up by (auto split: if_splits)
  have "length bm = Suc (used div 64)" using assms(2) mod up by simp
  then have "last bm = bm ! (p div 64)" by (cases "bm = []") (auto simp: last_conv_nth word)
  then have clear: "bm ! (p div 64) AND NOT (push_bit (used mod 64) 1 - 1) = 0"
    using assms(1) mod True by (cases "bm = []") (simp_all add: padding_set_def)
  have "used mod 64 \<le> p mod 64" using assms(3) word by (metis div_mult_mod_eq le_add_diff_inverse nat_add_left_cancel_le)
  moreover have "\<not> bit (bm ! (p div 64)) n" if "used mod 64 \<le> n" "n < 64" for n
  proof -
    have "push_bit (used mod 64) 1 - 1 = (mask (used mod 64) :: u64)" by (simp add: mask_eq_exp_minus_1)
    then have "\<not> bit (push_bit (used mod 64) 1 - 1 :: u64) n" using that by (simp add: bit_mask_iff)
    then show ?thesis using arg_cong [OF clear, of "\<lambda>w. bit w n"] that by (auto simp: bit_and_iff bit_not_iff)
  qed
  ultimately have "\<not> bit (bm ! (p div 64)) (p mod 64)" by simp
  then show ?thesis using get_bit_iff [of bm p] by blast
qed (simp add: get_bit_def)

lemma positions_bound: "length (positions bm) \<le> 64 * length bm"
proof -
  have "length (positions bm) = card {p. p < length bm * 64 \<and> get_bit bm p \<noteq> 0}" using rank_all [of bm "length bm * 64"] rank_card by simp
  also have "\<dots> \<le> card {p. p < length bm * 64}" by (intro card_mono) auto
  finally show ?thesis by simp
qed

lemma validate_succinct_set_ok:
  assumes "validate_succinct_set leaves bm ls = Inr (nodes, bits)"
  shows "nodes = length ls + 1 \<and> bits = 2 * nodes - 1 \<and> length (positions bm) = nodes \<and> (\<forall>n < nodes. node_ok bits bm ls n)"
proof -
  obtain e ds where nodes: "nodes = length ls + 1" "bits = 2 * nodes - 1"
    and shape: "length bm = (bits + 63) div 64" "\<not> padding_set bits bm"
    and run: "validate_nodes bits leaves bm ls [0..<nodes] 0 0 [0] = Inr (bits, e, ds)"
    using assms by (auto simp: validate_succinct_set_def Let_def and_then_Inr_iff mult.commute split: if_splits)
  have "rank bm 0 = 0" by (simp add: rank_card)
  then have ok: "rank bm bits = nodes" "\<forall>n < nodes. node_ok bits bm ls n"
    using validate_nodes_ok [OF run] by (auto simp: first_edge_def)
  have "length (positions bm) = rank bm (max bits (length bm * 64))" using rank_all by simp
  also have "\<dots> = rank bm bits" using padding_clear [OF shape(2,1)] by (intro rank_zeros) auto
  finally show ?thesis using nodes ok by simp
qed

lemma domain_set_read_ok:
  assumes "domain_set_read r = Inr (s, r')"
  shows "ds_ok s"
proof -
  obtain len r0 r1 r2 where len: "read_bounded_len ''domain labelmap_len'' MAX_DOMAIN_BITMAP_WORDS False r0 = Inr (len, r1)"
      "read_u64_vec_be len r1 = Inr (ds_label_bitmap s, r2)"
    and v: "validate_succinct_set (ds_leaves s) (ds_label_bitmap s) (ds_labels s) = Inr (ds_node_count s, ds_effective_bitmap_bits s)"
    and ix: "index_select32_r64 (ds_label_bitmap s) = Inr (ds_selects s, ds_ranks s)"
    using assms unfolding domain_set_read_def by (auto simp: and_then_Inr_iff map_sum_Inr_iff split: if_splits prod.splits)
  have "length (ds_label_bitmap s) = len" using len(2) by (rule read_u64_vec_length)
  then have small: "length (ds_label_bitmap s) * 64 \<le> 2 ^ 31" "length (positions (ds_label_bitmap s)) < 2 ^ 31"
    using read_bounded_len_max [OF len(1)] positions_bound [of "ds_label_bitmap s"] by (simp_all add: MAX_DOMAIN_BITMAP_WORDS_def MAX_DOMAIN_NODES_def)
  then show ?thesis
    using validate_succinct_set_ok [OF v] index_ok [OF small] ix by (auto simp: ds_ok_def)
qed

section \<open>What a search decides\<close>

text \<open>
  The reference: the edge \<open>e\<close> of a node leads to the node \<open>e + 1\<close>. A name ends at a leaf, or passes a node that has
  a \<open>+\<close> edge.
\<close>

definition node_edges :: "mrs_domain_set \<Rightarrow> nat \<Rightarrow> nat set" where
  "node_edges s n = {e. first_edge (ds_label_bitmap s) n \<le> e + n \<and> e + n < positions (ds_label_bitmap s) ! n}"

fun spells :: "mrs_domain_set \<Rightarrow> nat \<Rightarrow> bytes \<Rightarrow> bool" where
  "spells s n [] \<longleftrightarrow> get_bit (ds_leaves s) n \<noteq> 0"
| "spells s n (c # w) \<longleftrightarrow>
    (\<exists>e \<in> node_edges s n. ds_labels s ! e = COMPLEX_WILDCARD \<or> (ds_labels s ! e = c \<and> spells s (Suc e) w))"

lemma node_bits:
  assumes "ds_ok s" "n < ds_node_count s" "first_edge (ds_label_bitmap s) n \<le> p" "p \<le> positions (ds_label_bitmap s) ! n"
  shows "get_bit (ds_label_bitmap s) p \<noteq> 0 \<longleftrightarrow> p = positions (ds_label_bitmap s) ! n" "rank (ds_label_bitmap s) p = n"
    "p < ds_effective_bitmap_bits s"
proof -
  let ?bm = "ds_label_bitmap s"
  have len: "n < length (positions ?bm)" "positions ?bm ! n < ds_effective_bitmap_bits s" using ds_ok_node [OF assms(1,2)] by (auto simp: node_ok_def)
  then show "p < ds_effective_bitmap_bits s" using assms(4) by simp
  have sorted: "sorted_wrt (<) (positions ?bm)" unfolding positions_def by (rule positions_sorted)
  have before: "j < n" if "j < length (positions ?bm)" "positions ?bm ! j < positions ?bm ! n" for j
  proof (rule ccontr)
    assume "\<not> j < n"
    then have "j = n \<or> n < j" by auto
    then show False using that sorted_wrt_nth_less [OF sorted, of n j] by auto
  qed
  have "get_bit ?bm q = 0" if "first_edge ?bm n \<le> q" "q < positions ?bm ! n" for q
  proof (rule ccontr)
    assume "get_bit ?bm q \<noteq> 0"
    then have "q \<in> set (positions ?bm)" by (simp add: set_positions)
    then obtain j where j: "j < length (positions ?bm)" "positions ?bm ! j = q" by (auto simp: in_set_conv_nth)
    then have "j < n" using before that(2) by simp
    then have "0 < n" by simp
    moreover have "positions ?bm ! j \<le> positions ?bm ! (n - 1)"
    proof (cases "j = n - 1")
      case False
      then have "j < n - 1" "n - 1 < length (positions ?bm)" using \<open>j < n\<close> len(1) by linarith+
      then show ?thesis using sorted_wrt_nth_less [OF sorted] by (simp add: order_less_imp_le)
    qed simp
    ultimately show False using j that(1) by (simp add: first_edge_def)
  qed
  then have zeros: "\<forall>q. p \<le> q \<and> q < positions ?bm ! n \<longrightarrow> get_bit ?bm q = 0" "p \<noteq> positions ?bm ! n \<Longrightarrow> get_bit ?bm p = 0"
    using assms(3,4) by auto
  have "get_bit ?bm (positions ?bm ! n) \<noteq> 0" using nth_mem [OF len(1)] by (simp add: set_positions)
  then show "get_bit ?bm p \<noteq> 0 \<longleftrightarrow> p = positions ?bm ! n" using zeros(2) by blast
  show "rank ?bm p = n" using rank_zeros [OF assms(4) zeros(1)] rank_nth [OF len(1)] by simp
qed

lemma enter_child_node:
  assumes ok: "ds_ok s" and small: "ds_node_count s \<le> 65" and e: "e \<in> node_edges s n" and n: "n < ds_node_count s"
  shows "enter_child s (int (e + n)) = Some (int (Suc e), int (first_edge (ds_label_bitmap s) (Suc e)))" "Suc e < ds_node_count s"
    "edge_label s (int n) (int (e + n)) = Some (ds_labels s ! e)"
proof -
  let ?bm = "ds_label_bitmap s"
  have node: "node_ok (ds_effective_bitmap_bits s) ?bm (ds_labels s) n" using ds_ok_node [OF ok n] .
  have lab: "e < length (ds_labels s)" using e node by (auto simp: node_edges_def node_ok_def)
  then show child: "Suc e < ds_node_count s" using ok by (simp add: ds_ok_def)
  show "edge_label s (int n) (int (e + n)) = Some (ds_labels s ! e)" using lab by (simp add: edge_label_def Let_def nat_add_distrib)
  have tabs: "ranks_ok ?bm (ds_ranks s)" "selects_ok ?bm (ds_selects s)" "length ?bm * 64 \<le> 2 ^ 31" using ok by (auto simp: ds_ok_def)
  have bound: "ds_effective_bitmap_bits s \<le> 129" using ok small by (simp add: ds_ok_def)
  have "rank ?bm (Suc (e + n)) = n" using e by (intro node_bits(2) [OF ok n]) (auto simp: node_edges_def)
  then have zeros: "count_zeros s (int (e + n) + 1) = int (Suc e)"
    using rank64_correct [OF tabs(1), of "int (e + n) + 1"] by (simp add: count_zeros_def nat_add_distrib add.commute)
  have i: "e < length (positions ?bm)" "e < 64" using child ok small by (auto simp: ds_ok_def)
  have "skipped ?bm e = 0" using select32_r64_exact [OF tabs i(1)] i(2) by simp
  then have sel: "select_ith_one s (int e) = int (positions ?bm ! e)"
    using select32_r64_exact [OF tabs i(1)] by (simp add: select_ith_one_def)
  have "positions ?bm ! e < ds_effective_bitmap_bits s" using ds_ok_node [OF ok, of e] child by (simp add: node_ok_def)
  moreover have "e + n < 130" using e node bound by (auto simp: node_edges_def node_ok_def)
  ultimately show "enter_child s (int (e + n)) = Some (int (Suc e), int (first_edge ?bm (Suc e)))"
    using zeros sel bound child by (simp add: enter_child_def i32_checked_add_def Let_def first_edge_def)
qed

lemma has_loop_scan:
  assumes ok: "ds_ok s" and small: "ds_node_count s \<le> 65" and star: "SINGLE_WILDCARD \<notin> set (ds_labels s)"
    and key: "\<forall>c \<in> set key. COMPLEX_WILDCARD < c"
    and deeper: "\<And>m. m < ds_node_count s \<Longrightarrow> has_loop s key (int m) (int (first_edge (ds_label_bitmap s) m)) [] (Suc i) = spells s m (drop (Suc i) key)"
    and n: "n < ds_node_count s" and i: "i < length key"
    and p: "first_edge (ds_label_bitmap s) n \<le> p" "p \<le> positions (ds_label_bitmap s) ! n"
  shows "has_loop s key (int n) (int p) [] i \<longleftrightarrow>
    (\<exists>e \<in> node_edges s n. p \<le> e + n \<and> (ds_labels s ! e = COMPLEX_WILDCARD \<or> (ds_labels s ! e = key ! i \<and> spells s (Suc e) (drop (Suc i) key))))"
  using p
proof (induction "positions (ds_label_bitmap s) ! n - p" arbitrary: p)
  case 0
  then have "p = positions (ds_label_bitmap s) ! n" by simp
  then show ?case using node_bits [OF ok n 0(2,3)] i by (subst has_loop.simps) (auto simp: in_bitmap_def node_edges_def)
next
  case (Suc d)
  let ?bm = "ds_label_bitmap s" and ?ls = "ds_labels s"
  define e where "e = p - n"
  have node: "node_ok (ds_effective_bitmap_bits s) ?bm ?ls n" using ds_ok_node [OF ok n] .
  have pe: "p = e + n" using node Suc.prems by (simp add: e_def node_ok_def)
  have e: "e \<in> node_edges s n" using Suc pe by (simp add: node_edges_def)
  note child = enter_child_node [OF ok small e n, folded pe]
  have bits: "in_bitmap s (int p)" "get_bit ?bm (nat (int p)) = 0" using node_bits [OF ok n Suc.prems] Suc.hyps(2) by (auto simp: in_bitmap_def)
  have "e < length ?ls" using child(2) ok by (simp add: ds_ok_def)
  then have no_star: "?ls ! e \<noteq> SINGLE_WILDCARD" using star by (metis nth_mem)
  have later: "?ls ! e < ?ls ! f" if "f \<in> node_edges s n" "p < f + n" for f
  proof -
    have "first_edge ?bm n - n \<le> e \<and> e < f \<and> f < positions ?bm ! n - n" using e that pe by (auto simp: node_edges_def)
    then show ?thesis using node unfolding node_ok_def increasing_between_def by blast
  qed
  have ih: "has_loop s key (int n) (int (Suc p)) [] i \<longleftrightarrow>
    (\<exists>f \<in> node_edges s n. Suc p \<le> f + n \<and> (?ls ! f = COMPLEX_WILDCARD \<or> (?ls ! f = key ! i \<and> spells s (Suc f) (drop (Suc i) key))))"
    using Suc by (intro Suc.hyps(1)) auto
  have ci: "COMPLEX_WILDCARD < key ! i" using key i by simp
  consider (plus) "?ls ! e = COMPLEX_WILDCARD" | (same) "?ls ! e = key ! i" "?ls ! e \<noteq> COMPLEX_WILDCARD" | (other) "?ls ! e \<noteq> key ! i" "?ls ! e \<noteq> COMPLEX_WILDCARD" by blast
  then show ?case
  proof cases
    case plus
    then have "has_loop s key (int n) (int p) [] i" using bits child i by (subst has_loop.simps) simp
    then show ?thesis using plus e pe by auto
  next
    case same
    have "has_loop s key (int n) (int p) [] i = spells s (Suc e) (drop (Suc i) key)"
      using same bits child i no_star deeper [OF child(2)] by (subst has_loop.simps) simp
    moreover have "f = e" if "f \<in> node_edges s n" "p \<le> f + n" "?ls ! f = COMPLEX_WILDCARD \<or> ?ls ! f = key ! i" for f
      using later [of f] that same(1) ci pe by (cases "f = e") auto
    ultimately show ?thesis using same e pe by (metis le_refl)
  next
    case other
    have "has_loop s key (int n) (int p) [] i = has_loop s key (int n) (int (Suc p)) [] i"
      using other bits child i no_star by (subst has_loop.simps) (simp add: add.commute)
    also note ih
    also have "(\<exists>f \<in> node_edges s n. Suc p \<le> f + n \<and> (?ls ! f = COMPLEX_WILDCARD \<or> (?ls ! f = key ! i \<and> spells s (Suc f) (drop (Suc i) key)))) \<longleftrightarrow>
      (\<exists>f \<in> node_edges s n. p \<le> f + n \<and> (?ls ! f = COMPLEX_WILDCARD \<or> (?ls ! f = key ! i \<and> spells s (Suc f) (drop (Suc i) key))))"
      using other pe by (metis Suc_leD Suc_leI add_right_cancel le_neq_implies_less)
    finally show ?thesis .
  qed
qed

lemma has_loop_spells:
  assumes "ds_ok s" "ds_node_count s \<le> 65" "SINGLE_WILDCARD \<notin> set (ds_labels s)" "\<forall>c \<in> set key. COMPLEX_WILDCARD < c"
  shows "n < ds_node_count s \<Longrightarrow> i \<le> length key \<Longrightarrow>
    has_loop s key (int n) (int (first_edge (ds_label_bitmap s) n)) [] i = spells s n (drop i key)"
proof (induction "length key - i" arbitrary: n i)
  case 0
  then show ?case by (subst has_loop.simps) simp
next
  case (Suc d)
  then have i: "i < length key" by simp
  have "node_ok (ds_effective_bitmap_bits s) (ds_label_bitmap s) (ds_labels s) n" using ds_ok_node [OF assms(1) Suc.prems(1)] .
  then have run: "first_edge (ds_label_bitmap s) n \<le> positions (ds_label_bitmap s) ! n" by (simp add: node_ok_def)
  have deeper: "has_loop s key (int m) (int (first_edge (ds_label_bitmap s) m)) [] (Suc i) = spells s m (drop (Suc i) key)"
    if "m < ds_node_count s" for m using Suc.hyps that i by (intro Suc.hyps(1)) auto
  have "drop i key = key ! i # drop (Suc i) key" using i by (simp add: Cons_nth_drop_Suc)
  then show ?case
    using has_loop_scan [OF assms deeper Suc.prems(1) i le_refl run] by (auto simp: node_edges_def)
qed

text \<open>
  C26: Lookups in a domain set that the reader accepts decide what the trie spells. The search ends on every key and
  every set; on a set of at most 65 nodes without \<open>*\<close> labels, and a host whose characters come after \<open>+\<close>, it
  answers whether the reversed, lower-cased name leads to a leaf or past a \<open>+\<close> edge. (Larger sets are subject
  to the defect of \<open>select32_r64\<close>.)
\<close>

theorem mrs_domain_lookup_exact:
  assumes "domain_set_read r = Inr (s, r')" "ds_node_count s \<le> 65" "SINGLE_WILDCARD \<notin> set (ds_labels s)"
    and "\<forall>c \<in> set (search_key mapping host). COMPLEX_WILDCARD < c"
  shows "mrs_has mapping s host \<longleftrightarrow> search_key mapping host \<noteq> [] \<and> spells s 0 (search_key mapping host)"
  using has_loop_spells [OF domain_set_read_ok [OF assms(1)] assms(2-4), of 0 0] domain_set_read_ok [OF assms(1)]
  by (auto simp: mrs_has_def Let_def ds_ok_def first_edge_def)

definition sample_domain_bytes :: bytes where
  "sample_domain_bytes = [1] @ u64_be 1 @ u64_be 2 @ u64_be 1 @ u64_be 6 @ u64_be 1 @ [0x61]"

definition sample_domain_set :: mrs_domain_set where
  "sample_domain_set = \<lparr>ds_leaves = [2], ds_label_bitmap = [6], ds_labels = [0x61], ds_ranks = [0, 2], ds_selects = [1],
     ds_node_count = 2, ds_effective_bitmap_bits = 3\<rparr>"

lemma sample_validate: "validate_succinct_set [2] [6] [0x61] = Inr (2, 3)"
  by code_simp

lemma sample_index: "index_select32_r64 [6] = Inr ([1], [0, 2])"
proof -
  have "ones (6 :: u64) = [1, 2]" by code_simp
  then have pos: "positions [6] = [1, 2]" by (simp add: positions_def)
  obtain selects ranks where ix: "index_select32_r64 [6] = Inr (selects, ranks)" "ranks_ok [6] ranks" "selects_ok [6] selects"
    using index_ok [of "[6]"] pos by auto
  have "length ranks = 2" "ranks ! 0 = 0" "ranks ! 1 = 2" using ix(2) pos by (auto simp: ranks_ok_def positions_def)
  then have "ranks = [0, 2]" by (simp add: list_eq_iff_nth_eq less_2_cases_iff nth_Cons')
  moreover have sel: "2 \<le> 64 * length selects" "\<And>j. j < length selects \<Longrightarrow> 64 * j < 2 \<and> selects ! j = int (positions [6] ! (64 * j))"
    using ix(3) pos by (auto simp: selects_ok_def)
  then have "length selects = 1" using sel(2) [of 1] by (cases "length selects \<le> 1") auto
  then have "selects = [1]" using sel(2) [of 0] pos by (simp add: list_eq_iff_nth_eq)
  ultimately show ?thesis using ix(1) by simp
qed

lemma sample_domain_read: "domain_set_read sample_domain_bytes = Inr (sample_domain_set, [])"
proof -
  have v: "read_full (Suc 0) (1 # r) = Inr ([1], r)" for r :: bytes by (simp add: read_full_def)
  have l: "read_bounded_len f m False (u64_be 1 @ r) = Inr (1, r)" if "0 < m" for f m r
    using that by (simp add: read_bounded_len_def read_i64_be_def read_full_append)
  have "read_u64_vec_be 1 (u64_be w @ r) = Inr ([w], r)" for w r by (simp add: read_full_append)
  then show ?thesis
    by (simp add: domain_set_read_def sample_domain_bytes_def v l read_full_append sample_validate sample_index sample_domain_set_def
        MAX_DOMAIN_LEAF_WORDS_def MAX_DOMAIN_BITMAP_WORDS_def MAX_DOMAIN_NODES_def read_full_def)
qed

theorem mrs_domain_lookup_exact_witness:
  "mrs_has (\<lambda>_. None) sample_domain_set ''a'' \<longleftrightarrow> spells sample_domain_set 0 [0x61]"
proof -
  have key: "search_key (\<lambda>_. None) ''a'' = [0x61]" by code_simp
  show ?thesis
    using mrs_domain_lookup_exact [OF sample_domain_read, of "\<lambda>_. None" "''a''"]
    by (simp add: key) (simp add: sample_domain_set_def SINGLE_WILDCARD_def COMPLEX_WILDCARD_def)
qed

end
