(* ===== verification/Ruleset_Load.thy ===== *)
theory Ruleset_Load
  imports Ruleset_Eval Mrs_Domain
begin

text \<open>
  From a decoded file to a matcher: the address sets and the envelope of MRS files
  (\<open>core-ruleset/src/parser/mrs\<close>), and the three ways of compiling a matcher (\<open>matcher.rs\<close>, \<open>compile_any\<close>). The zstd
  decoder is a parameter.
\<close>

section \<open>Address sets of MRS files\<close>

record mrs_ipcidr_set =
  v4_ranges :: "(u32 \<times> u32) list"
  v6_ranges :: "(u128 \<times> u128) list"

definition MAX_IP_RANGES :: nat where "MAX_IP_RANGES = 1024 * 1024"

definition unmap :: "bytes \<Rightarrow> ip_addr" where
  "unmap b = (let v6 = from_octets6 b in case to_ipv4_mapped v6 of Some v4 \<Rightarrow> V4 v4 | None \<Rightarrow> V6 v6)"

definition validate_range :: "'a::len word \<Rightarrow> 'a word \<Rightarrow> 'a word option \<Rightarrow> string \<Rightarrow> mrs_error + unit" where
  "validate_range from to previous_end family =
    (if to < from then Inl (Mrs_Error (family @ '' range start is after its end''))
     else case previous_end of
       None \<Rightarrow> Inr ()
     | Some end_ \<Rightarrow>
         if from \<le> end_ \<or> unat end_ + 1 = unat from
         then Inl (Mrs_Error (family @ '' ranges are unordered, overlapping, or contiguous'')) else Inr ())"

definition read_bounded_count :: "bytes \<Rightarrow> mrs_error + nat \<times> bytes" where
  "read_bounded_count r =
    and_then (read_i64_be r) (\<lambda>(raw, r).
      if raw \<le> 0 then Inl (Mrs_Error ''range_count must be positive'')
      else if MAX_IP_RANGES < nat raw then Inl (Mrs_Error ''range_count exceeds the limit'')
      else Inr (nat raw, r))"

text \<open>The loop over the ranges; the sets read so far hold the previous ends.\<close>

definition last_end :: "('a \<times> 'b) list \<Rightarrow> 'b option" where
  "last_end rs = (if rs = [] then None else Some (snd (last rs)))"

fun read_ranges :: "nat \<Rightarrow> bytes \<Rightarrow> mrs_ipcidr_set \<Rightarrow> mrs_error + mrs_ipcidr_set \<times> bytes" where
  "read_ranges 0 r s = Inr (s, r)"
| "read_ranges (Suc n) r s =
    and_then (read_full 16 r) (\<lambda>(buf, r).
    and_then (read_full 16 r) (\<lambda>(buf', r).
      case (unmap buf, unmap buf') of
        (V4 a, V4 b) \<Rightarrow>
          if v6_ranges s \<noteq> [] then Inl (Mrs_Error ''IPv4 range appears after an IPv6 range'')
          else and_then (validate_range a b (last_end (v4_ranges s)) ''IPv4'') (\<lambda>_. read_ranges n r (s\<lparr>v4_ranges := v4_ranges s @ [(a, b)]\<rparr>))
      | (V6 a, V6 b) \<Rightarrow>
          and_then (validate_range a b (last_end (v6_ranges s)) ''IPv6'') (\<lambda>_. read_ranges n r (s\<lparr>v6_ranges := v6_ranges s @ [(a, b)]\<rparr>))
      | _ \<Rightarrow> Inl (Mrs_Error ''range endpoints use different address families'')))"

definition ipcidr_set_read :: "bytes \<Rightarrow> mrs_error + mrs_ipcidr_set \<times> bytes" where
  "ipcidr_set_read r =
    and_then (read_full 1 r) (\<lambda>(byte, r).
      if byte \<noteq> [1] then Inl (Unsupported_Binary ''MRS ipcidr_set version'')
      else and_then (read_bounded_count r) (\<lambda>(n, r). read_ranges n r \<lparr>v4_ranges = [], v6_ranges = []\<rparr>))"

fun ipcidr_contains :: "mrs_ipcidr_set \<Rightarrow> ip_addr \<Rightarrow> bool" where
  "ipcidr_contains s (V4 a) \<longleftrightarrow> contains_range (v4_ranges s) a"
| "ipcidr_contains s (V6 a) \<longleftrightarrow> contains_range (v6_ranges s) a"

section \<open>The envelope\<close>

datatype mrs_payload = MP_Domain mrs_domain_set nat | MP_IpCidr mrs_ipcidr_set nat

fun payload_count :: "mrs_payload \<Rightarrow> nat" where
  "payload_count (MP_Domain s n) = n"
| "payload_count (MP_IpCidr s n) = n"

definition MRS_MAGIC :: bytes where "MRS_MAGIC = [0x4D, 0x52, 0x53, 1]"
definition MAX_COMPRESSED_BYTES :: nat where "MAX_COMPRESSED_BYTES = 64 * 1024 * 1024"
definition MAX_DECOMPRESSED_BYTES :: nat where "MAX_DECOMPRESSED_BYTES = 128 * 1024 * 1024"
definition MAX_DECLARED_ITEMS :: nat where "MAX_DECLARED_ITEMS = 16 * 1024 * 1024"
definition MAX_EXTRA_BYTES :: nat where "MAX_EXTRA_BYTES = 4 * 1024 * 1024"

definition parse_decompressed :: "bytes \<Rightarrow> mrs_error + mrs_payload" where
  "parse_decompressed decoded =
    and_then (read_full 4 decoded) (\<lambda>(magic, r).
    if magic \<noteq> MRS_MAGIC then Inl (Unsupported_Binary ''MRS magic'')
    else and_then (read_full 1 r) (\<lambda>(bb, r).
    and_then (read_bounded_len ''header count'' MAX_DECLARED_ITEMS True r) (\<lambda>(n, r).
    and_then (read_bounded_len ''extra_len'' MAX_EXTRA_BYTES True r) (\<lambda>(extra_len, r).
    and_then (read_full extra_len r) (\<lambda>(_, r).
    and_then
      (if bb = [0] then and_then (domain_set_read r) (\<lambda>(s, r). Inr (MP_Domain s n, r))
       else if bb = [1] then and_then (ipcidr_set_read r) (\<lambda>(s, r). Inr (MP_IpCidr s n, r))
       else Inl (Unsupported_Binary ''MRS v1 behavior''))
      (\<lambda>(payload, r). if r \<noteq> [] then Inl (Mrs_Error ''decompressed payload has trailing bytes'') else Inr payload))))))"

text \<open>The argument is the bounded zstd decoder.\<close>

definition mrs_parse :: "(bytes \<Rightarrow> nat \<Rightarrow> mrs_error + bytes) \<Rightarrow> bytes \<Rightarrow> mrs_error + mrs_payload" where
  "mrs_parse decompress_zstd_bounded body =
    (if MAX_COMPRESSED_BYTES < length body then Inl (Mrs_Error ''compressed body exceeds limit'')
     else and_then (decompress_zstd_bounded body MAX_DECOMPRESSED_BYTES) parse_decompressed)"

section \<open>Compiling\<close>

type_synonym loaded_matcher = "(ip_net, ip_net, matcher_rules) ruleset_matcher"

definition compile_mrs ::
  "(string \<Rightarrow> string option) \<Rightarrow> (u32, ip_net) net_ops \<Rightarrow> (u128, ip_net) net_ops \<Rightarrow> string \<Rightarrow> mrs_payload \<Rightarrow> loaded_matcher" where
  "compile_mrs mapping N4 N6 name payload =
    (let b = base_default\<lparr>b_mrs_count := payload_count payload\<rparr>
     in case payload of
          MP_Domain s _ \<Rightarrow>
            install_destination_prefixes (Inr ([], [])) NotIpSet
              (matcher_new name (Rules (b\<lparr>b_mrs_domain_set := Some (mrs_has mapping s)\<rparr>) []))
        | MP_IpCidr s _ \<Rightarrow>
            install_destination_prefixes (mrs_ip_prefixes N4 N6 (v4_ranges s) (v6_ranges s)) Exact
              (matcher_new name (Rules (b\<lparr>b_destination_ip_requires_resolution := True,
                 b_mrs_v4_ranges := v4_ranges s, b_mrs_v6_ranges := v6_ranges s\<rparr>) [])))"

text \<open>The visitor of \<open>collect_program_prefixes\<close>: the prefixes so far and the error.\<close>

type_synonym collected = "ip_net list \<times> ip_net list \<times> prefix_error option"

fun collect_prefix :: "ip_net \<Rightarrow> collected \<Rightarrow> bool \<times> collected" where
  "collect_prefix net (ipv4, ipv6, err) =
    (if MAX_IP_PREFIX_SNAPSHOT_ITEMS \<le> length ipv4 + length ipv6 then (False, ipv4, ipv6, Some prefix_limit_error)
     else case net of
       V4_Net _ _ \<Rightarrow> (True, ipv4 @ [net], ipv6, err)
     | V6_Net _ _ \<Rightarrow> (True, ipv4, ipv6 @ [net], err))"

definition collect_program_prefixes :: "ruleset_program \<Rightarrow> prefix_error + ip_net list \<times> ip_net list" where
  "collect_program_prefixes p =
    (case visit_destination_ip_cidrs collect_prefix (rp_root p) ([], [], None) of
       (completed, ipv4, ipv6, err) \<Rightarrow>
         if \<not> completed then Inl (case err of Some e \<Rightarrow> e | None \<Rightarrow> prefix_limit_error) else Inr (ipv4, ipv6))"

definition compile_semantic ::
  "(u32, ip_net) net_ops \<Rightarrow> (u128, ip_net) net_ops \<Rightarrow> string \<Rightarrow> ruleset_program \<Rightarrow> loaded_matcher" where
  "compile_semantic N4 N6 name program =
    (let semantics = (if is_exact_destination_ip_set program then Exact else Extracted);
         nets = and_then (collect_program_prefixes program) (\<lambda>(ipv4, ipv6). normalize_destination_prefixes N4 N6 ipv4 ipv6);
         semantics = (case nets of Inr ([], []) \<Rightarrow> NotIpSet | _ \<Rightarrow> semantics)
     in install_destination_prefixes nets semantics (matcher_new name (Rules (base_default\<lparr>b_semantic_program := Some program\<rparr>) [])))"

datatype ruleset_compiled = RC_Classical "classical_entry list" | RC_Semantic ruleset_program | RC_Mrs mrs_payload

fun compile_any ::
  "class_env \<Rightarrow> (string \<Rightarrow> string option) \<Rightarrow> (u32, ip_net) net_ops \<Rightarrow> (u128, ip_net) net_ops \<Rightarrow> string \<Rightarrow> ruleset_compiled \<Rightarrow> loaded_matcher" where
  "compile_any x mapping N4 N6 name (RC_Classical entries) = compile x N4 N6 name entries"
| "compile_any x mapping N4 N6 name (RC_Semantic program) = compile_semantic N4 N6 name program"
| "compile_any x mapping N4 N6 name (RC_Mrs payload) = compile_mrs mapping N4 N6 name payload"

definition compile_domains ::
  "class_env \<Rightarrow> (u32, ip_net) net_ops \<Rightarrow> (u128, ip_net) net_ops \<Rightarrow> string \<Rightarrow> string list \<Rightarrow> loaded_matcher" where
  "compile_domains x N4 N6 name ls =
    compile x N4 N6 name (List.map_filter (\<lambda>l. case parse_domain_pattern x (trim (cx_u x) l) of Inr e \<Rightarrow> Some e | Inl _ \<Rightarrow> None) ls)"

definition compile_ipcidr ::
  "class_env \<Rightarrow> (u32, ip_net) net_ops \<Rightarrow> (u128, ip_net) net_ops \<Rightarrow> string \<Rightarrow> string list \<Rightarrow> loaded_matcher" where
  "compile_ipcidr x N4 N6 name ls =
    compile x N4 N6 name (map (entry_of K_IpCidr) (filter (\<lambda>l. l \<noteq> []) (map (trim (cx_u x)) ls)))"

section \<open>What the reader of address sets guarantees\<close>

lemma sorted_ranges_snoc_iff:
  "sorted_ranges (rs @ [(a, b)]) \<longleftrightarrow> sorted_ranges rs \<and> a \<le> b \<and> (\<forall>r \<in> set rs. snd r < a)"
  by (auto simp: sorted_ranges_def sorted_wrt_append)

lemma sorted_ranges_below:
  assumes "sorted_ranges rs" "rs \<noteq> []" "snd (last rs) < a" "r \<in> set rs"
  shows "snd r < a"
proof -
  obtain init c d where rs: "rs = init @ [(c, d)]" using assms(2) by (metis rev_exhaust surj_pair)
  then have "c \<le> d" "\<forall>r \<in> set init. snd r < c" using assms(1) by (simp_all add: sorted_ranges_snoc_iff)
  then show ?thesis using assms(3,4) rs by (auto intro: less_trans le_less_trans)
qed

lemma sorted_ranges_snoc:
  assumes "sorted_ranges rs" "validate_range a b (last_end rs) f = Inr ()"
  shows "sorted_ranges (rs @ [(a, b)])"
proof -
  have "a \<le> b" using assms(2) by (simp add: validate_range_def not_less split: if_splits)
  moreover have below: "snd (last rs) < a" if "rs \<noteq> []"
    using assms(2) that by (simp add: validate_range_def last_end_def not_le split: if_splits)
  moreover have "snd r < a" if "r \<in> set rs" for r
    using sorted_ranges_below [OF assms(1) _ below that] that by fastforce
  ultimately show ?thesis using assms(1) unfolding sorted_ranges_snoc_iff by blast
qed

lemma read_ranges_step:
  "read_full 16 r = Inr (buf, r1) \<Longrightarrow> read_full 16 r1 = Inr (buf', r2) \<Longrightarrow>
   read_ranges (Suc n) r s =
     (case (unmap buf, unmap buf') of
        (V4 a, V4 b) \<Rightarrow>
          if v6_ranges s \<noteq> [] then Inl (Mrs_Error ''IPv4 range appears after an IPv6 range'')
          else and_then (validate_range a b (last_end (v4_ranges s)) ''IPv4'') (\<lambda>_. read_ranges n r2 (s\<lparr>v4_ranges := v4_ranges s @ [(a, b)]\<rparr>))
      | (V6 a, V6 b) \<Rightarrow>
          and_then (validate_range a b (last_end (v6_ranges s)) ''IPv6'') (\<lambda>_. read_ranges n r2 (s\<lparr>v6_ranges := v6_ranges s @ [(a, b)]\<rparr>))
      | _ \<Rightarrow> Inl (Mrs_Error ''range endpoints use different address families''))"
  by simp

lemma read_ranges_reads:
  assumes "read_ranges (Suc n) r s = Inr z"
  obtains buf r1 buf' r2 where "read_full 16 r = Inr (buf, r1)" "read_full 16 r1 = Inr (buf', r2)"
proof -
  obtain buf r1 where 1: "read_full 16 r = Inr (buf, r1)" using assms by (cases "read_full 16 r") auto
  then obtain buf' r2 where "read_full 16 r1 = Inr (buf', r2)" using assms by (cases "read_full 16 r1") auto
  with 1 show ?thesis using that by blast
qed

declare read_ranges.simps(2) [simp del]

lemma read_ranges_sorted:
  "read_ranges n r s = Inr (s', r') \<Longrightarrow> sorted_ranges (v4_ranges s) \<Longrightarrow> sorted_ranges (v6_ranges s) \<Longrightarrow>
     sorted_ranges (v4_ranges s') \<and> sorted_ranges (v6_ranges s')"
proof (induction n arbitrary: r s)
  case (Suc n)
  obtain buf r1 buf' r2 where rd: "read_full 16 r = Inr (buf, r1)" "read_full 16 r1 = Inr (buf', r2)"
    using Suc.prems(1) by (rule read_ranges_reads)
  note step = Suc.prems(1) [unfolded read_ranges_step [OF rd]]
  show ?case
  proof (cases "unmap buf"; cases "unmap buf'")
    fix a b assume *: "unmap buf = V4 a" "unmap buf' = V4 b"
    then have v: "validate_range a b (last_end (v4_ranges s)) ''IPv4'' = Inr ()"
      and rest: "read_ranges n r2 (s\<lparr>v4_ranges := v4_ranges s @ [(a, b)]\<rparr>) = Inr (s', r')"
      using step by (simp_all add: and_then_Inr_iff split: if_splits)
    show ?thesis using Suc.IH [OF rest] Suc.prems(3) sorted_ranges_snoc [OF Suc.prems(2) v] by simp
  next
    fix a b assume *: "unmap buf = V6 a" "unmap buf' = V6 b"
    then have v: "validate_range a b (last_end (v6_ranges s)) ''IPv6'' = Inr ()"
      and rest: "read_ranges n r2 (s\<lparr>v6_ranges := v6_ranges s @ [(a, b)]\<rparr>) = Inr (s', r')"
      using step by (simp_all add: and_then_Inr_iff)
    show ?thesis using Suc.IH [OF rest] Suc.prems(2) sorted_ranges_snoc [OF Suc.prems(3) v] by simp
  qed (use step in simp_all)
qed simp

lemma parse_ipcidr_sorted:
  assumes "parse_decompressed bs = Inr (MP_IpCidr s n)"
  shows "sorted_ranges (v4_ranges s) \<and> sorted_ranges (v6_ranges s)"
proof -
  obtain r r' where "ipcidr_set_read r = Inr (s, r')"
    using assms by (auto simp: parse_decompressed_def and_then_Inr_iff split: if_splits)
  then obtain k r1 where "read_ranges k r1 \<lparr>v4_ranges = [], v6_ranges = []\<rparr> = Inr (s, r')"
    by (auto simp: ipcidr_set_read_def and_then_Inr_iff split: if_splits)
  from read_ranges_sorted [OF this] show ?thesis by (simp add: sorted_ranges_def)
qed

section \<open>Networks and published prefixes\<close>

fun is_v4 :: "ip_net \<Rightarrow> bool" where
  "is_v4 (V4_Net _ _) = True"
| "is_v4 (V6_Net _ _) = False"

text \<open>The two views of a network: of \<open>IpNet::contains\<close> and of the prefix operations.\<close>

definition net_link :: "ext_env \<Rightarrow> (u32, ip_net) net_ops \<Rightarrow> (u128, ip_net) net_ops \<Rightarrow> bool" where
  "net_link x N4 N6 \<longleftrightarrow> (\<forall>n ip. x_contains x n ip \<longleftrightarrow>
     (case ip of V4 a \<Rightarrow> is_v4 n \<and> unat a \<in> net_addrs N4 n | V6 a \<Rightarrow> \<not> is_v4 n \<and> unat a \<in> net_addrs N6 n))"

definition published :: "(u32, ip_net) net_ops \<Rightarrow> (u128, ip_net) net_ops \<Rightarrow> ip_net list \<Rightarrow> ip_net list \<Rightarrow> ip_addr \<Rightarrow> bool" where
  "published N4 N6 p4 p6 ip \<longleftrightarrow>
    (case ip of V4 a \<Rightarrow> \<exists>p \<in> set p4. unat a \<in> net_addrs N4 p | V6 a \<Rightarrow> \<exists>p \<in> set p6. unat a \<in> net_addrs N6 p)"

lemma normalize_total:
  "normalize_destination_prefixes N4 N6 ipv4 ipv6 = Inr z \<Longrightarrow> length ipv4 + length ipv6 \<le> MAX_IP_PREFIX_SNAPSHOT_ITEMS"
  by (auto simp: normalize_destination_prefixes_def checked_prefix_total_def split: if_splits)

lemma normalized_published:
  assumes "net_laws N4" "net_laws N6" "net_link x N4 N6"
    and "normalize_destination_prefixes N4 N6 ipv4 ipv6 = Inr (p4, p6)" "\<forall>n \<in> set ipv4. is_v4 n" "\<forall>n \<in> set ipv6. \<not> is_v4 n"
  shows "published N4 N6 p4 p6 ip \<longleftrightarrow> (\<exists>n \<in> set ipv4 \<union> set ipv6. x_contains x n ip)"
proof -
  have "length ipv4 + length ipv6 \<le> MAX_IP_PREFIX_SNAPSHOT_ITEMS" using assms(4) by (rule normalize_total)
  from normalize_canonical [OF assms(1,2) this] have "canonical N4 ipv4 p4" "canonical N6 ipv6 p6"
    using assms(4) by auto
  then have "unat a \<in> (\<Union>p \<in> set p4. net_addrs N4 p) \<longleftrightarrow> unat a \<in> (\<Union>p \<in> set ipv4. net_addrs N4 p)"
    "unat b \<in> (\<Union>p \<in> set p6. net_addrs N6 p) \<longleftrightarrow> unat b \<in> (\<Union>p \<in> set ipv6. net_addrs N6 p)" for a :: u32 and b :: u128
    by (simp_all add: canonical_def)
  then show ?thesis using assms(3,5,6) by (cases ip) (auto simp: published_def net_link_def)
qed

section \<open>Semantic sets\<close>

definition collected_with :: "collected \<Rightarrow> ip_net list \<Rightarrow> collected" where
  "collected_with c ns = (case c of (ipv4, ipv6, err) \<Rightarrow> (ipv4 @ filter is_v4 ns, ipv6 @ filter (\<lambda>n. \<not> is_v4 n) ns, err))"

lemma collected_with_simps [simp]:
  "collected_with c [] = c" "collected_with (collected_with c ns) ms = collected_with c (ns @ ms)"
  by (simp_all add: collected_with_def split: prod.split)

lemma collect_prefix_step: "collect_prefix n c = (True, c') \<Longrightarrow> c' = collected_with c [n]"
  by (cases c; cases n) (auto simp: collected_with_def split: if_splits)

lemma visit_all_collected:
  "(\<And>a c c'. a \<in> set as \<Longrightarrow> f a c = (True, c') \<Longrightarrow> c' = collected_with c (g a)) \<Longrightarrow>
   visit_all f as c = (True, c') \<Longrightarrow> c' = collected_with c (concat (map g as))"
proof (induction as arbitrary: c)
  case (Cons a as)
  obtain c1 where "f a c = (True, c1)" "visit_all f as c1 = (True, c')"
    using Cons.prems(2) by (auto split: prod.splits bool.splits)
  moreover have "c1 = collected_with c (g a)" using Cons.prems(1) calculation(1) by simp
  moreover have "c' = collected_with c1 (concat (map g as))"
    by (rule Cons.IH [OF _ calculation(2)]) (use Cons.prems(1) in auto)
  ultimately show ?case by simp
qed simp

lemma visit_collected:
  "visit_destination_ip_cidrs collect_prefix e c = (True, c') \<Longrightarrow> c' = collected_with c (dst_nets e)"
proof (induction e arbitrary: c c')
  case (E_Predicate p)
  show ?case
  proof (cases "\<exists>ns. p = P_DstIpCidr ns")
    case True
    then obtain ns where p: "p = P_DstIpCidr ns" ..
    have "c' = collected_with c (concat (map (\<lambda>n. [n]) ns))"
      by (rule visit_all_collected [of ns collect_prefix]) (use E_Predicate collect_prefix_step p in auto)
    then show ?thesis by (simp add: p)
  next
    case False
    then have "visit_destination_ip_cidrs collect_prefix (E_Predicate p) c = (True, c)" "dst_nets (E_Predicate p) = []"
      by (cases p; simp)+
    then show ?thesis using E_Predicate by simp
  qed
next
  case (E_Any es)
  have "c' = collected_with c (concat (map dst_nets es))"
    by (rule visit_all_collected [of es "visit_destination_ip_cidrs collect_prefix"]) (use E_Any in auto)
  then show ?case by simp
next
  case (E_All es)
  have "c' = collected_with c (concat (map dst_nets es))"
    by (rule visit_all_collected [of es "visit_destination_ip_cidrs collect_prefix"]) (use E_All in auto)
  then show ?case by simp
qed simp

lemma collect_program_prefixes_nets:
  assumes "collect_program_prefixes p = Inr (ipv4, ipv6)"
  shows "ipv4 = filter is_v4 (dst_nets (rp_root p)) \<and> ipv6 = filter (\<lambda>n. \<not> is_v4 n) (dst_nets (rp_root p))"
proof -
  obtain c where "visit_destination_ip_cidrs collect_prefix (rp_root p) ([], [], None) = (True, c)" "fst c = ipv4" "fst (snd c) = ipv6"
    using assms by (auto simp: collect_program_prefixes_def split: prod.splits if_splits)
  then show ?thesis using visit_collected [of "rp_root p" "([], [], None)" c] by (auto simp: collected_with_def)
qed

lemma installed [simp]:
  "rm_rules (install_destination_prefixes nets sem m) = rm_rules m"
  "destination_ip_prefixes (install_destination_prefixes nets sem m) =
    (case nets of Inl e \<Rightarrow> Inl e | Inr (ipv4, ipv6) \<Rightarrow> Inr (sem, ipv4, ipv6))"
  by (simp_all add: install_destination_prefixes_def destination_ip_prefixes_def Let_def split: sum.split prod.split)

lemma rm_rules_new [simp]: "rm_rules (matcher_new name r) = r"
  by (simp add: matcher_new_def)

lemma semantic_published:
  assumes laws: "net_laws N4" "net_laws N6" "net_link (cx x) N4 N6"
    and "destination_ip_prefixes (compile_semantic N4 N6 name p) = Inr (Exact, p4, p6)"
  shows "matches_context x ctx (rm_rules (compile_semantic N4 N6 name p)) \<longleftrightarrow> on_some (destination_ip ctx) (published N4 N6 p4 p6)"
proof -
  have exact: "is_destination_ip_union (rp_root p)"
    and nets: "and_then (collect_program_prefixes p) (\<lambda>(ipv4, ipv6). normalize_destination_prefixes N4 N6 ipv4 ipv6) = Inr (p4, p6)"
    using assms(4) by (auto simp: compile_semantic_def is_exact_destination_ip_set_def Let_def split: sum.splits prod.splits if_splits list.splits)
  obtain ipv4 ipv6 where c: "collect_program_prefixes p = Inr (ipv4, ipv6)" "normalize_destination_prefixes N4 N6 ipv4 ipv6 = Inr (p4, p6)"
    using nets by (auto simp: and_then_Inr_iff)
  have "published N4 N6 p4 p6 ip \<longleftrightarrow> (\<exists>n \<in> set (dst_nets (rp_root p)). x_contains (cx x) n ip)" for ip
    using collect_program_prefixes_nets [OF c(1)] by (subst normalized_published [OF laws c(2)]) auto
  then show ?thesis using union_matches [OF exact, of "cx x" ctx]
    by (simp add: compile_semantic_def Let_def program_matches_def base_default_def on_some_def split: option.split)
qed

section \<open>MRS address sets\<close>

lemma default_host:
  "\<not> host_matches x ctx lc uni (base_default\<lparr>b_mrs_count := n,
     b_destination_ip_requires_resolution := True, b_mrs_v4_ranges := v4, b_mrs_v6_ranges := v6\<rparr>)"
  using trie_matches_iff [of trie_default lc]
  by (simp add: host_matches_def base_default_def list_ex_iff Let_def)

lemma contains_range_Nil [simp]: "\<not> contains_range [] ip"
  using contains_range_iff [of "[]" ip] by simp

lemma mrs_addresses_match:
  assumes "class_laws x"
  shows "matches_context x ctx (rm_rules (compile_mrs mapping N4 N6 name (MP_IpCidr s n))) \<longleftrightarrow>
    on_some (destination_ip ctx) (ipcidr_contains s)"
proof -
  let ?b = "base_default\<lparr>b_mrs_count := n, b_destination_ip_requires_resolution := True,
    b_mrs_v4_ranges := v4_ranges s, b_mrs_v6_ranges := v6_ranges s\<rparr>"
  have "\<not> cx_table_contains x [] ip" for ip using assms by (simp add: class_laws_def)
  then have ip: "ip_matches x ip ?b \<longleftrightarrow> ipcidr_contains s ip" "\<not> source_matches x ip ?b" for ip
    by (cases ip; auto simp: ip_matches_def source_matches_def base_default_def list_ex_iff)+
  have "base_matches x ctx ?b \<longleftrightarrow> on_some (destination_ip ctx) (ipcidr_contains s)"
    unfolding base_matches_def Let_def
    by (simp add: default_host ip)
      (simp add: base_default_def list_ex_iff option_in_set_def process_name_matches_def [abs_def] process_path_matches_def [abs_def])
  then show ?thesis by (simp add: compile_mrs_def Let_def) (simp add: base_default_def)
qed

lemma mrs_published:
  assumes laws: "new_law N4" "net_laws N4" "new_law N6" "net_laws N6" "class_laws x"
    and "sorted_ranges (v4_ranges s)" "sorted_ranges (v6_ranges s)"
    and "destination_ip_prefixes (compile_mrs mapping N4 N6 name (MP_IpCidr s n)) = Inr (Exact, p4, p6)"
  shows "matches_context x ctx (rm_rules (compile_mrs mapping N4 N6 name (MP_IpCidr s n))) \<longleftrightarrow>
    on_some (destination_ip ctx) (published N4 N6 p4 p6)"
proof -
  obtain c4 c6 where c: "ranges_to_prefixes N4 N6 (v4_ranges s) (v6_ranges s) = Inr (c4, c6)"
    "normalize_destination_prefixes N4 N6 c4 c6 = Inr (p4, p6)"
    using assms(8) by (auto simp: compile_mrs_def mrs_ip_prefixes_def and_then_Inr_iff Let_def split: sum.splits prod.splits)
  have "length c4 + length c6 \<le> MAX_IP_PREFIX_SNAPSHOT_ITEMS" using c(2) by (rule normalize_total)
  from normalize_canonical [OF laws(2,4) this] have can: "canonical N4 c4 p4" "canonical N6 c6 p6" using c(2) by auto
  have cut: "cut_into N4 (v4_ranges s) c4" "cut_into N6 (v6_ranges s) c6" using ranges_to_prefixes_fits [OF laws(1,3) c(1)] by simp_all
  have "ipcidr_contains s ip \<longleftrightarrow> published N4 N6 p4 p6 ip" for ip
    using contains_range_addrs [OF assms(6) cut(1) can(1)] contains_range_addrs [OF assms(7) cut(2) can(2)]
    by (cases ip) (simp_all add: published_def)
  then show ?thesis unfolding mrs_addresses_match [OF laws(5)] by (simp add: on_some_def split: option.split)
qed

section \<open>Line-based sets\<close>

definition entry_nets :: "class_env \<Rightarrow> classical_entry \<Rightarrow> ip_net list" where
  "entry_nets x e = (if ce_kind e = K_IpCidr then (case x_parse_net (cx x) (ce_value e) of Some n \<Rightarrow> [n] | None \<Rightarrow> []) else [])"

text \<open>What one entry adds to the networks, and whether it is anything but a network.\<close>

lemma compile_entry_nets:
  "b_cidr_v4 (cs_base (compile_entry logical x e cs)) = b_cidr_v4 (cs_base cs) @ filter is_v4 (entry_nets x e) \<and>
   b_cidr_v6 (cs_base (compile_entry logical x e cs)) = b_cidr_v6 (cs_base cs) @ filter (\<lambda>n. \<not> is_v4 n) (entry_nets x e) \<and>
   (cs_saw_non_destination_rule (compile_entry logical x e cs) \<longleftrightarrow> cs_saw_non_destination_rule cs \<or> entry_nets x e = [])"
  by (cases "ce_kind e") (simp_all add: entry_nets_def entry_unfold split: option.split ip_net.split)

lemma fold_entry_nets:
  "b_cidr_v4 (cs_base (fold (compile_entry logical x) es cs)) = b_cidr_v4 (cs_base cs) @ filter is_v4 (concat (map (entry_nets x) es)) \<and>
   b_cidr_v6 (cs_base (fold (compile_entry logical x) es cs)) = b_cidr_v6 (cs_base cs) @ filter (\<lambda>n. \<not> is_v4 n) (concat (map (entry_nets x) es)) \<and>
   (cs_saw_non_destination_rule (fold (compile_entry logical x) es cs) \<longleftrightarrow> cs_saw_non_destination_rule cs \<or> (\<exists>e \<in> set es. entry_nets x e = []))"
  by (induction es arbitrary: cs) (auto simp: compile_entry_nets)

text \<open>The networks of the entries have no host bits, so the table of \<open>ip_network\<close> keeps them.\<close>

definition nets_kept :: "class_env \<Rightarrow> classical_entry list \<Rightarrow> bool" where
  "nets_kept x es \<longleftrightarrow> (\<forall>e \<in> set es. \<forall>n \<in> set (entry_nets x e). cx_network_parse x (cx_show_net x n) = Some n)"

lemma entry_nets_match:
  assumes "entry_nets x e \<noteq> []" "\<forall>n \<in> set (entry_nets x e). cx_network_parse x (cx_show_net x n) = Some n"
  shows "entry_matches logical x ctx e \<longleftrightarrow> on_some (destination_ip ctx) (\<lambda>ip. \<exists>n \<in> set (entry_nets x e). x_contains (cx x) n ip)"
proof -
  obtain n where n: "ce_kind e = K_IpCidr" "x_parse_net (cx x) (ce_value e) = Some n"
    using assms(1) by (cases "x_parse_net (cx x) (ce_value e)") (simp_all add: entry_nets_def split: if_splits)
  then have nets: "entry_nets x e = [n]" by (simp add: entry_nets_def)
  then have "net_hit x ip n \<longleftrightarrow> x_contains (cx x) n ip" for ip using assms(2) by (simp add: net_hit_def)
  then show ?thesis by (simp add: nets entry_matches_def n)
qed

lemma classical_published:
  assumes laws: "net_laws N4" "net_laws N6" "net_link (cx x) N4 N6" "class_laws x"
    and "\<forall>e \<in> set es. patterns_ok x e" "nets_kept x es"
    and "destination_ip_prefixes (compile x N4 N6 name es) = Inr (Exact, p4, p6)"
  shows "matches_context x ctx (rm_rules (compile x N4 N6 name es)) \<longleftrightarrow> on_some (destination_ip ctx) (published N4 N6 p4 p6)"
proof -
  define cs where "cs = compile_loop (compile_logical_rule x) x es"
  let ?ns = "concat (map (entry_nets x) es)"
  note nets = fold_entry_nets [of "compile_logical_rule x" x es "compile_start (length es)", folded compile_loop_def, folded cs_def]
  have exact: "\<not> cs_saw_non_destination_rule cs"
    and "normalize_destination_prefixes N4 N6 (b_cidr_v4 (compile_finish x cs)) (b_cidr_v6 (compile_finish x cs)) = Inr (p4, p6)"
    using assms(7) by (auto simp: compile_def cs_def [symmetric] try_clone_prefixes_def and_then_Inr_iff Let_def split: sum.splits prod.splits if_splits)
  then have norm: "normalize_destination_prefixes N4 N6 (longest_first (filter is_v4 ?ns)) (longest_first (filter (\<lambda>n. \<not> is_v4 n) ?ns)) = Inr (p4, p6)"
    using nets by (simp add: finish_unfold compile_start_def base_default_def)
  have pub: "published N4 N6 p4 p6 ip \<longleftrightarrow> (\<exists>n \<in> set ?ns. x_contains (cx x) n ip)" for ip
    by (subst normalized_published [OF laws(1-3) norm]) (auto simp: longest_first_def)
  have "entry_matches (compile_logical_rule x) x ctx e \<longleftrightarrow> on_some (destination_ip ctx) (\<lambda>ip. \<exists>n \<in> set (entry_nets x e). x_contains (cx x) n ip)"
    if "e \<in> set es" for e
    using that exact nets assms(6) by (intro entry_nets_match) (auto simp: nets_kept_def)
  moreover have "entry_kept x (set_built x es) e" if "e \<in> set es" for e
  proof -
    have "entry_nets x e \<noteq> []" using that exact nets by blast
    then have "ce_kind e = K_IpCidr" by (simp add: entry_nets_def split: if_splits)
    then show ?thesis by (simp add: entry_kept_def set_built_def Let_def)
  qed
  ultimately show ?thesis unfolding compiled_matches [OF laws(4) assms(5)] using pub by (auto simp: on_some_def split: option.splits)
qed

text \<open>A set of one network is published as an exact prefix.\<close>

lemma single_network_published:
  assumes laws: "net_laws N4" "net_laws N6" "net_link (cx x) N4 N6" and net: "x_parse_net (cx x) v = Some n"
  shows "\<exists>p4 p6. destination_ip_prefixes (compile x N4 N6 name [entry_of K_IpCidr v]) = Inr (Exact, p4, p6) \<and>
      (\<forall>ip. published N4 N6 p4 p6 ip \<longleftrightarrow> x_contains (cx x) n ip)"
proof -
  have nets: "entry_nets x (entry_of K_IpCidr v) = [n]" by (simp add: entry_nets_def entry_of_def net)
  define cs where "cs = compile_loop (compile_logical_rule x) x [entry_of K_IpCidr v]"
  note loop = fold_entry_nets [of "compile_logical_rule x" x "[entry_of K_IpCidr v]" "compile_start 1"]
  have cs: "b_cidr_v4 (compile_finish x cs) = filter is_v4 [n]" "b_cidr_v6 (compile_finish x cs) = filter (\<lambda>n. \<not> is_v4 n) [n]"
    "\<not> cs_saw_non_destination_rule cs"
    using loop nets by (cases n; simp add: finish_unfold cs_def compile_loop_def longest_first_def compile_start_def base_default_def)+
  have saw: "cs_saw_destination_prefix cs"
    by (simp add: cs_def compile_loop_def entry_of_def entry_unfold net split: ip_net.split)
  have small: "length (filter is_v4 [n]) + length (filter (\<lambda>n. \<not> is_v4 n) [n]) \<le> MAX_IP_PREFIX_SNAPSHOT_ITEMS"
    by (simp add: MAX_IP_PREFIX_SNAPSHOT_ITEMS_def)
  obtain p4 p6 where norm: "normalize_destination_prefixes N4 N6 (filter is_v4 [n]) (filter (\<lambda>n. \<not> is_v4 n) [n]) = Inr (p4, p6)"
    using normalize_canonical [OF laws(1,2) small] by blast
  have "published N4 N6 p4 p6 ip \<longleftrightarrow> x_contains (cx x) n ip" for ip
    by (subst normalized_published [OF laws(1-3) norm]) auto
  moreover have "destination_ip_prefixes (compile x N4 N6 name [entry_of K_IpCidr v]) = Inr (Exact, p4, p6)"
    using small norm by (simp add: compile_def Let_def cs_def [symmetric] cs saw try_clone_prefixes_def checked_prefix_total_def)
  ultimately show ?thesis by blast
qed

text \<open>A network with host bits is published and never matches, since the table drops it.\<close>

lemma host_bit_network_never_matches:
  assumes "class_laws x" and net: "x_parse_net (cx x) v = Some n" "cx_network_parse x (cx_show_net x n) = None"
  shows "\<not> matches_context x ctx (rm_rules (compile x N4 N6 name [entry_of K_IpCidr v]))"
proof -
  have "\<forall>e \<in> set [entry_of K_IpCidr v]. patterns_ok x e" by (simp add: patterns_ok_def entry_of_def)
  from compiled_matches [OF assms(1) this] show ?thesis by (simp add: entry_matches_def entry_of_def net net_hit_def)
qed

section \<open>All kinds of sets\<close>

text \<open>What the parsers hand over.\<close>

fun from_file :: "class_env \<Rightarrow> ruleset_compiled \<Rightarrow> bool" where
  "from_file x (RC_Classical es) \<longleftrightarrow> (\<exists>body ty. parse_for_type x body ty = Inr es)"
| "from_file x (RC_Semantic p) \<longleftrightarrow> True"
| "from_file x (RC_Mrs payload) \<longleftrightarrow> (\<exists>decoded. parse_decompressed decoded = Inr payload)"

text \<open>The networks of a set of lines, as they are kept by the table; the other kinds of sets do not use it.\<close>

fun no_host_bits :: "class_env \<Rightarrow> ruleset_compiled \<Rightarrow> bool" where
  "no_host_bits x (RC_Classical es) \<longleftrightarrow> nets_kept x es"
| "no_host_bits x _ \<longleftrightarrow> True"


text \<open>The operations on pairs, for the network type of the model.\<close>

definition net_via :: "('n \<Rightarrow> 'p) \<Rightarrow> ('p \<Rightarrow> 'n) \<Rightarrow> ('w, 'p) net_ops \<Rightarrow> ('w, 'n) net_ops" where
  "net_via f g N = \<lparr>net_new = (\<lambda>a l. g (net_new N a l)), network = (\<lambda>n. network N (f n)), prefix_len = (\<lambda>n. prefix_len N (f n)),
     net_trunc = (\<lambda>n. g (net_trunc N (f n))), net_contains = (\<lambda>n m. net_contains N (f n) (f m)),
     supernet = (\<lambda>n. map_option g (supernet N (f n)))\<rparr>"

lemma net_via_laws:
  fixes N :: "('a::len word, 'p) net_ops"
  assumes "\<And>p. f (g p) = p"
  shows "new_law N \<Longrightarrow> new_law (net_via f g N)" "net_laws N \<Longrightarrow> net_laws (net_via f g N)"
    "net_addrs (net_via f g N) n = net_addrs N (f n)"
proof -
  have lo: "net_lo (net_via f g N) n = net_lo N (f n)" for n by (simp add: net_lo_def net_via_def)
  have hi: "net_hi (net_via f g N) n = net_hi N (f n)" for n unfolding net_hi_def lo by (simp add: net_via_def)
  show "new_law N \<Longrightarrow> new_law (net_via f g N)" by (simp add: new_law_def net_via_def assms)
  show "net_addrs (net_via f g N) n = net_addrs N (f n)" by (simp add: net_addrs_def lo hi)
  assume "net_laws N"
  then have l: "network_law N" "contains_law N" "supernet_law N" by (simp_all add: net_laws_def)
  have "network_law (net_via f g N)" using l(1) unfolding network_law_def lo by (simp add: net_via_def assms)
  moreover have "contains_law (net_via f g N)" using l(2) unfolding contains_law_def lo hi by (simp add: net_via_def)
  moreover have "supernet_law (net_via f g N)"
    unfolding supernet_law_def lo
  proof
    fix n
    show "case supernet (net_via f g N) n of None \<Rightarrow> prefix_len (net_via f g N) n = 0
      | Some q \<Rightarrow> prefix_len (net_via f g N) n = Suc (prefix_len (net_via f g N) q) \<and>
          net_lo N (f q) = net_lo N (f n) - net_lo N (f n) mod 2 ^ (LENGTH('a) - prefix_len (net_via f g N) q)"
      using l(3) [unfolded supernet_law_def, rule_format, of "f n"] by (auto simp: net_via_def assms split: option.splits)
  qed
  ultimately show "net_laws (net_via f g N)" by (simp add: net_laws_def)
qed

fun pair4 :: "ip_net \<Rightarrow> u32 \<times> nat" where
  "pair4 (V4_Net a l) = (a, l)"
| "pair4 (V6_Net a l) = (0, 0)"

fun pair6 :: "ip_net \<Rightarrow> u128 \<times> nat" where
  "pair6 (V6_Net a l) = (a, l)"
| "pair6 (V4_Net a l) = (0, 0)"

definition sample_net4 :: "(u32, ip_net) net_ops" where "sample_net4 = net_via pair4 (\<lambda>(a, l). V4_Net a l) pair_net"
definition sample_net6 :: "(u128, ip_net) net_ops" where "sample_net6 = net_via pair6 (\<lambda>(a, l). V6_Net a l) pair_net"

lemma sample_nets:
  "new_law sample_net4" "net_laws sample_net4" "new_law sample_net6" "net_laws sample_net6"
  "net_addrs sample_net4 n = net_addrs pair_net (pair4 n)" "net_addrs sample_net6 n = net_addrs pair_net (pair6 n)"
  unfolding sample_net4_def sample_net6_def
  by (auto intro!: net_via_laws pair_net_new pair_net_laws)

lemma pair_net_addrs:
  fixes a b :: "'a::len word"
  shows "unat b \<in> net_addrs pair_net (a, l) \<longleftrightarrow> drop_bit (LENGTH('a) - l) a = drop_bit (LENGTH('a) - l) b"
proof -
  define k where "k = LENGTH('a) - l"
  have lo: "net_lo pair_net (a, l) = 2 ^ k * (unat a div 2 ^ k)"
    unfolding net_lo_def by (simp add: pair_net_def unat_pair_network) (simp add: pair_network_def k_def)
  have hi: "net_hi pair_net (a, l) = 2 ^ k * (unat a div 2 ^ k) + 2 ^ k"
    unfolding net_hi_def lo by (simp add: pair_net_def k_def min_def)
  have "unat b \<in> net_addrs pair_net (a, l) \<longleftrightarrow> unat b div 2 ^ k = unat a div 2 ^ k"
    unfolding net_addrs_def lo hi
    by (auto simp: mult.commute [of _ "2 ^ k"] intro!: div_nat_eqI)
      (metis mult.commute times_div_less_eq_dividend, metis add.commute dividend_less_times_div mult.commute zero_less_numeral zero_less_power)
  moreover have "unat (drop_bit k w) = unat w div 2 ^ k" for w :: "'a word" using drop_bit_eq_div [of k "unat w"] by (simp add: unat_drop_bit_eq)
  ultimately show ?thesis unfolding k_def word_unat_eq_iff by auto
qed

lemma sample_link: "net_link (cx sample_class) sample_net4 sample_net6"
  unfolding net_link_def sample_nets
proof (intro allI)
  fix n ip
  show "x_contains (cx sample_class) n ip \<longleftrightarrow>
    (case ip of V4 a \<Rightarrow> is_v4 n \<and> unat a \<in> net_addrs pair_net (pair4 n) | V6 a \<Rightarrow> \<not> is_v4 n \<and> unat a \<in> net_addrs pair_net (pair6 n))"
    by (cases n; cases ip) (simp_all add: sample_class_def sample_env_def pair_net_addrs)
qed

text \<open>An MRS file with the range 10.0.0.1 to 10.0.0.6.\<close>

definition mapped_octets :: "u8 list \<Rightarrow> bytes" where
  "mapped_octets q = replicate 10 0 @ [255, 255] @ q"

definition sample_mrs :: bytes where
  "sample_mrs = MRS_MAGIC @ [1] @ u64_be 1 @ u64_be 0 @ [1] @ u64_be 1 @ mapped_octets [10, 0, 0, 1] @ mapped_octets [10, 0, 0, 6]"

definition sample_set :: mrs_ipcidr_set where
  "sample_set = \<lparr>v4_ranges = [(0x0A000001, 0x0A000006)], v6_ranges = []\<rparr>"

lemma unmap_mapped: "length q = 4 \<Longrightarrow> unmap (mapped_octets q) = V4 (from_octets4 q)"
proof -
  assume "length q = 4"
  then have "octets6 (from_octets6 (mapped_octets q)) = mapped_octets q" by (intro octets_from_octets) (simp add: mapped_octets_def)
  then show ?thesis by (simp add: unmap_def to_ipv4_mapped_def Let_def) (simp add: mapped_octets_def)
qed

lemma sample_mrs_parse: "parse_decompressed sample_mrs = Inr (MP_IpCidr sample_set 1)"
proof -
  have one: "read_full (Suc 0) (1 # r) = Inr ([1], r)" for r :: bytes by (simp add: read_full_def)
  have len: "read_bounded_len f MAX_DECLARED_ITEMS True (u64_be 1 @ r) = Inr (1, r)"
    "read_bounded_len f MAX_EXTRA_BYTES True (u64_be 0 @ r) = Inr (0, r)" for f r
    by (simp_all add: read_bounded_len_def read_i64_be_def read_full_append MAX_DECLARED_ITEMS_def MAX_EXTRA_BYTES_def)
  have cnt: "read_bounded_count (u64_be 1 @ r) = Inr (1, r)" for r
    by (simp add: read_bounded_count_def read_i64_be_def read_full_append MAX_IP_RANGES_def)
  let ?a = "mapped_octets [10, 0, 0, 1]" and ?b = "mapped_octets [10, 0, 0, 6]"
  have "read_full 16 (?a @ ?b) = Inr (?a, ?b)" by (rule read_full_append) (simp add: mapped_octets_def)
  moreover have "read_full 16 ?b = Inr (?b, [])" by (simp add: read_full_def mapped_octets_def)
  ultimately have "read_ranges 1 (?a @ ?b) \<lparr>v4_ranges = [], v6_ranges = []\<rparr> = Inr (sample_set, [])"
    using read_ranges_step [of "?a @ ?b" ?a ?b ?b "[]" 0]
    by (simp add: unmap_mapped validate_range_def last_end_def sample_set_def from_octets4_def be_val_def)
  then have "ipcidr_set_read ([1] @ u64_be 1 @ ?a @ ?b) = Inr (sample_set, [])"
    by (simp add: ipcidr_set_read_def one cnt)
  then show ?thesis
    by (simp add: parse_decompressed_def sample_mrs_def MRS_MAGIC_def one len read_full_def)
qed

text \<open>Lines with the network of one address. The table reads addresses back as they are shown.\<close>

fun show_address_net :: "ip_net \<Rightarrow> string" where
  "show_address_net (V4_Net a _) = show_ip (V4 a)"
| "show_address_net (V6_Net a _) = show_ip (V6 a)"

definition read_address_net :: "string \<Rightarrow> ip_net option" where
  "read_address_net s = x_parse_net sample_env s"

definition lines_class :: class_env where
  "lines_class = sample_class\<lparr>cx_show_net := show_address_net, cx_network_parse := read_address_net\<rparr>"

lemma lines_class_env [simp]: "cx lines_class = cx sample_class"
  by (simp add: lines_class_def)

lemma lines_class_laws: "class_laws lines_class"
proof -
  have "regex_hit lines_class = regex_hit sample_class" "glob_hit lines_class = glob_hit sample_class"
    by (simp_all add: fun_eq_iff regex_hit_def glob_hit_def)
  then show ?thesis using sample_class_laws by (simp add: class_laws_def) (simp add: lines_class_def)
qed

definition address_line :: bytes where
  "address_line = as_bytes ''IP-CIDR,10.0.0.1''"

lemma address_line_parse: "parse_for_type lines_class address_line T_Classical = Inr [entry_of K_IpCidr ''10.0.0.1'']"
  by code_simp

lemma address_net: "x_parse_net (cx sample_class) ''10.0.0.1'' = Some (V4_Net 0x0A000001 32)"
  by code_simp

lemma address_kept: "nets_kept lines_class [entry_of K_IpCidr ''10.0.0.1'']"
proof -
  have "entry_nets lines_class (entry_of K_IpCidr ''10.0.0.1'') = [V4_Net 0x0A000001 32]"
    using address_net by (simp add: entry_nets_def entry_of_def)
  moreover have "cx_network_parse lines_class (cx_show_net lines_class (V4_Net 0x0A000001 32)) = Some (V4_Net 0x0A000001 32)"
    by (simp add: lines_class_def read_address_net_def sample_env_def parse_ip_show_ipv4)
  ultimately show ?thesis by (simp add: nets_kept_def)
qed


end
