(* ===== verification/Ip_Fragment.thy ===== *)
theory Ip_Fragment
  imports WC_Prelude "HOL-Library.Multiset"
begin

unbundle bit_operations_syntax

text \<open>
  Fragmentation of IP packets for tunnels with a smaller MTU (\<open>core-outbound/src/ip_fragment.rs\<close>). The counter of
  IPv6 identifications is part of the state. \<open>capacity & !7\<close> is rounding down to a multiple of eight.
\<close>

definition IPV4_MIN_HEADER :: nat where "IPV4_MIN_HEADER = 20"
definition IPV6_HEADER :: nat where "IPV6_HEADER = 40"
definition IPV6_FRAGMENT_HEADER :: nat where "IPV6_FRAGMENT_HEADER = 8"
definition IPV6_FRAGMENT :: u8 where "IPV6_FRAGMENT = 44"
definition IPV6_HOP_BY_HOP :: u8 where "IPV6_HOP_BY_HOP = 0"
definition IPV6_ROUTING :: u8 where "IPV6_ROUTING = 43"
definition IPV6_DESTINATION_OPTIONS :: u8 where "IPV6_DESTINATION_OPTIONS = 60"

text \<open>\<open>copy_from_slice\<close> into a part of a vector.\<close>

definition copy_at :: "nat \<Rightarrow> bytes \<Rightarrow> bytes \<Rightarrow> bytes" where
  "copy_at i bs xs = take i xs @ bs @ drop (i + length bs) xs"

definition align8 :: "nat \<Rightarrow> nat" where
  "align8 n = 8 * (n div 8)"

section \<open>IPv4\<close>

text \<open>The accumulator of the checksum is below \<open>2 ^ 17\<close> after each addition, so \<open>u32\<close> does not overflow.\<close>

function fold_carry :: "nat \<Rightarrow> nat" where
  "fold_carry s = (if 0xffff < s then fold_carry (s mod 65536 + s div 65536) else s)"
  by pat_completeness auto
termination
proof (relation "measure id")
  fix s :: nat
  assume "0xffff < s"
  then have "s mod 65536 + s div 65536 < s" using div_mult_mod_eq [of s 65536] by linarith
  then show "(s mod 65536 + s div 65536, s) \<in> measure id" by simp
qed simp

declare fold_carry.simps [simp del]

definition be_word :: "bytes \<Rightarrow> nat" where
  "be_word c = (if length c = 2 then unat (u16_from_be c) else unat (c ! 0) * 256)"

definition ipv4_checksum :: "bytes \<Rightarrow> u16" where
  "ipv4_checksum header = NOT (of_nat (fold (\<lambda>c s. fold_carry (s + be_word c)) (chunks 2 header) 0))"

function options_loop :: "bytes \<Rightarrow> nat \<Rightarrow> bytes \<Rightarrow> io_error + bytes" where
  "options_loop options cursor copied =
    (if length options \<le> cursor then Inr copied
     else let kind = options ! cursor
          in if kind = 0 then Inr copied
             else if kind = 1 then options_loop options (cursor + 1) copied
             else if length options \<le> cursor + 1 then Inl (invalid_data ''IPv4 option is missing its length'')
             else let len = unat (options ! (cursor + 1))
                  in if len < 2 \<or> length options < cursor + len then Inl (invalid_data ''IPv4 option has an invalid length'')
                     else options_loop options (cursor + len)
                       (if kind AND 0x80 \<noteq> 0 then copied @ slice cursor (cursor + len) options else copied))"
  by pat_completeness auto
termination
  by (relation "measure (\<lambda>(options, cursor, copied). length options - cursor)") auto

declare options_loop.simps [simp del]

definition copied_ipv4_options :: "bytes \<Rightarrow> io_error + bytes" where
  "copied_ipv4_options options =
    and_then (options_loop options 0 []) (\<lambda>copied. Inr (copied @ replicate ((4 - length copied mod 4) mod 4) 0))"

definition ipv4_fragment :: "bytes \<Rightarrow> bytes \<Rightarrow> u16 \<Rightarrow> bytes \<Rightarrow> nat \<Rightarrow> nat \<Rightarrow> io_error + bytes" where
  "ipv4_fragment packet options flags_offset payload offset taken =
    (let fragment_header_len = IPV4_MIN_HEADER + length options;
         more = offset + taken < length payload;
         fragment = take IPV4_MIN_HEADER packet @ options @ replicate taken 0
     in if 256 \<le> fragment_header_len div 4 then Inl (invalid_data ''IPv4 header is too long'')
        else let fragment = copy_at 0 [0x40 OR of_nat (fragment_header_len div 4)] fragment
        in if 2 ^ 16 \<le> length fragment then Inl (invalid_data ''IPv4 fragment length overflow'')
        else let fragment = copy_at 2 (u16_be (of_nat (length fragment))) fragment
        in if 2 ^ 16 \<le> offset div 8 then Inl (invalid_data ''IPv4 fragment offset overflow'')
        else let flags = (flags_offset AND 0x8000) OR (if more then 0x2000 else 0) OR of_nat (offset div 8);
                 fragment = copy_at 6 (u16_be flags) fragment;
                 fragment = copy_at 10 [0, 0] fragment;
                 fragment = copy_at fragment_header_len (slice offset (offset + taken) payload) fragment
        in Inr (copy_at 10 (u16_be (ipv4_checksum (take fragment_header_len fragment))) fragment))"

text \<open>The loop over the payload; the arguments in front of \<open>offset\<close> stay as they are.\<close>

function ipv4_loop ::
  "bytes \<Rightarrow> nat \<Rightarrow> bytes \<Rightarrow> u16 \<Rightarrow> bytes \<Rightarrow> nat \<Rightarrow> nat \<Rightarrow> bytes list \<Rightarrow> io_error + bytes list" where
  "ipv4_loop packet header_len copied_options flags_offset payload mtu offset fragments =
    (if length payload \<le> offset then Inr fragments
     else let options = (if offset = 0 then slice IPV4_MIN_HEADER header_len packet else copied_options);
              fragment_header_len = IPV4_MIN_HEADER + length options
          in if mtu < fragment_header_len then Inl (invalid_data ''MTU is too small for the IPv4 header and options'')
             else let capacity = mtu - fragment_header_len;
                      remaining = length payload - offset;
                      taken = (if capacity < remaining then align8 capacity else remaining)
                  in if taken = 0 then Inl (invalid_data ''MTU leaves no aligned IPv4 fragment payload'')
                     else case ipv4_fragment packet options flags_offset payload offset taken of
                            Inl e \<Rightarrow> Inl e
                          | Inr fragment \<Rightarrow>
                              ipv4_loop packet header_len copied_options flags_offset payload mtu (offset + taken) (fragments @ [fragment]))"
  by pat_completeness auto
termination
  by (relation "measure (\<lambda>(packet, header_len, copied, flags, payload, mtu, offset, fragments). length payload - offset)") auto

declare ipv4_loop.simps [simp del]

definition ipv4_header_len :: "bytes \<Rightarrow> nat" where
  "ipv4_header_len packet = unat (packet ! 0 AND 0x0f) * 4"

definition fragment_ipv4 :: "bytes \<Rightarrow> nat \<Rightarrow> io_error + bytes list" where
  "fragment_ipv4 packet mtu =
    (if length packet < IPV4_MIN_HEADER then Inl (invalid_data ''IPv4 packet is shorter than its base header'')
     else let header_len = ipv4_header_len packet;
              total_len = unat (u16_from_be (slice 2 4 packet));
              flags_offset = u16_from_be (slice 6 8 packet)
          in if header_len < IPV4_MIN_HEADER \<or> length packet < header_len \<or> total_len \<noteq> length packet
             then Inl (invalid_data ''IPv4 packet has an invalid header or total length'')
             else if flags_offset AND 0x3fff \<noteq> 0 then Inl (invalid_input ''cannot re-fragment an existing IPv4 fragment'')
             else if flags_offset AND 0x4000 \<noteq> 0 then Inl (invalid_input ''IPv4 packet exceeds MTU while Don't Fragment is set'')
             else and_then (copied_ipv4_options (slice IPV4_MIN_HEADER header_len packet)) (\<lambda>copied_options.
               ipv4_loop packet header_len copied_options flags_offset (drop header_len packet) mtu 0 []))"

section \<open>IPv6\<close>

record extension =
  ext_kind :: u8
  ext_start :: nat
  ext_end :: nat
  ext_next :: u8

definition is_extension :: "u8 \<Rightarrow> bool" where
  "is_extension kind \<longleftrightarrow> kind = IPV6_HOP_BY_HOP \<or> kind = IPV6_ROUTING \<or> kind = IPV6_DESTINATION_OPTIONS"

function extension_loop :: "bytes \<Rightarrow> u8 \<Rightarrow> nat \<Rightarrow> extension list \<Rightarrow> io_error + u8 \<times> extension list" where
  "extension_loop packet kind cursor extensions =
    (if \<not> is_extension kind then Inr (kind, extensions)
     else if length packet < cursor + 2 then Inl (invalid_data ''IPv6 extension header is truncated'')
     else let len = (unat (packet ! (cursor + 1)) + 1) * 8
          in if length packet < cursor + len then Inl (invalid_data ''IPv6 extension header length is invalid'')
             else let following = packet ! cursor
                  in extension_loop packet following (cursor + len)
                       (extensions @ [\<lparr>ext_kind = kind, ext_start = cursor, ext_end = cursor + len, ext_next = following\<rparr>]))"
  by pat_completeness auto
termination
  by (relation "measure (\<lambda>(packet, kind, cursor, extensions). length packet + 8 - cursor)") auto

declare extension_loop.simps [simp del]

text \<open>The second loop stops at the first header that belongs to the fragmentable part.\<close>

fun insertion_loop :: "extension list \<Rightarrow> nat \<times> nat \<times> u8 \<Rightarrow> nat \<times> nat \<times> u8" where
  "insertion_loop [] acc = acc"
| "insertion_loop (x # later) acc =
    (let destination_precedes_routing = ext_kind x = IPV6_DESTINATION_OPTIONS \<and> list_ex (\<lambda>l. ext_kind l = IPV6_ROUTING) later
     in if \<not> (ext_kind x = IPV6_HOP_BY_HOP \<or> ext_kind x = IPV6_ROUTING) \<and> \<not> destination_precedes_routing then acc
        else insertion_loop later (ext_end x, ext_start x, ext_next x))"

definition ipv6_fragment_insertion_point :: "bytes \<Rightarrow> io_error + nat \<times> nat \<times> u8" where
  "ipv6_fragment_insertion_point packet =
    and_then (extension_loop packet (packet ! 6) IPV6_HEADER []) (\<lambda>(kind, extensions).
      if kind = IPV6_FRAGMENT then Inl (invalid_input ''cannot re-fragment an existing IPv6 fragment'')
      else Inr (insertion_loop extensions (IPV6_HEADER, 6, packet ! 6)))"

definition ipv6_fragment :: "bytes \<Rightarrow> nat \<Rightarrow> nat \<Rightarrow> u8 \<Rightarrow> u32 \<Rightarrow> bytes \<Rightarrow> nat \<Rightarrow> nat \<Rightarrow> io_error + bytes" where
  "ipv6_fragment packet unfragmentable_end next_header_field fragment_next identification fragmentable offset taken =
    (let more = offset + taken < length fragmentable;
         fragment = (take unfragmentable_end packet)[next_header_field := IPV6_FRAGMENT] @ [fragment_next, 0]
     in if 2 ^ 16 \<le> offset then Inl (invalid_data ''IPv6 fragment offset overflow'')
        else let offset_flags = of_nat offset AND 0xfff8;
                 offset_flags = (if more then offset_flags OR 1 else offset_flags);
                 fragment = fragment @ u16_be offset_flags @ u32_be identification @ slice offset (offset + taken) fragmentable;
                 new_payload_len = length fragment - IPV6_HEADER
             in if 2 ^ 16 \<le> new_payload_len then Inl (invalid_data ''IPv6 fragment length overflow'')
                else Inr (copy_at 4 (u16_be (of_nat new_payload_len)) fragment))"

function ipv6_loop ::
  "bytes \<Rightarrow> nat \<Rightarrow> nat \<Rightarrow> u8 \<Rightarrow> u32 \<Rightarrow> bytes \<Rightarrow> nat \<Rightarrow> nat \<Rightarrow> bytes list \<Rightarrow> io_error + bytes list" where
  "ipv6_loop packet unfragmentable_end next_header_field fragment_next identification fragmentable capacity offset fragments =
    (if length fragmentable \<le> offset \<or> align8 capacity = 0 then Inr fragments
     else let remaining = length fragmentable - offset;
              taken = (if capacity < remaining then align8 capacity else remaining)
          in case ipv6_fragment packet unfragmentable_end next_header_field fragment_next identification fragmentable offset taken of
               Inl e \<Rightarrow> Inl e
             | Inr fragment \<Rightarrow>
                 ipv6_loop packet unfragmentable_end next_header_field fragment_next identification fragmentable capacity
                   (offset + taken) (fragments @ [fragment]))"
  by pat_completeness auto
termination
  by (relation "measure (\<lambda>(packet, ue, nh, fnext, ident, fragmentable, capacity, offset, fragments). length fragmentable - offset)") auto

declare ipv6_loop.simps [simp del]

text \<open>The loop is entered with a positive aligned capacity only. \<open>IPV6_FRAGMENT_ID\<close> is the last argument and result.\<close>

definition fragment_ipv6 :: "bytes \<Rightarrow> nat \<Rightarrow> u32 \<Rightarrow> (io_error + bytes list) \<times> u32" where
  "fragment_ipv6 packet mtu ident =
    (if length packet < IPV6_HEADER then (Inl (invalid_data ''IPv6 packet is shorter than its base header''), ident)
     else let payload_len = unat (u16_from_be (slice 4 6 packet))
          in if payload_len = 0 \<or> payload_len + IPV6_HEADER \<noteq> length packet
             then (Inl (invalid_data ''IPv6 packet has an invalid payload length or unsupported jumbogram''), ident)
             else case ipv6_fragment_insertion_point packet of
                    Inl e \<Rightarrow> (Inl e, ident)
                  | Inr (unfragmentable_end, next_header_field, fragment_next) \<Rightarrow>
                      if mtu < unfragmentable_end + IPV6_FRAGMENT_HEADER
                      then (Inl (invalid_data ''MTU is too small for IPv6 fragmentation headers''), ident)
                      else let capacity = mtu - (unfragmentable_end + IPV6_FRAGMENT_HEADER)
                           in if align8 capacity = 0 then (Inl (invalid_data ''MTU leaves no aligned IPv6 fragment payload''), ident)
                              else (ipv6_loop packet unfragmentable_end next_header_field fragment_next ident
                                      (drop unfragmentable_end packet) capacity 0 [], ident + 1))"

definition fragment_ip_packet :: "bytes \<Rightarrow> nat \<Rightarrow> u32 \<Rightarrow> (io_error + bytes list) \<times> u32" where
  "fragment_ip_packet packet mtu ident =
    (if length packet \<le> mtu then (Inr [packet], ident)
     else if packet \<noteq> [] \<and> drop_bit 4 (packet ! 0) = 4 then (fragment_ipv4 packet mtu, ident)
     else if packet \<noteq> [] \<and> drop_bit 4 (packet ! 0) = 6 then fragment_ipv6 packet mtu ident
     else (Inl (invalid_data ''packet is not valid IPv4 or IPv6''), ident))"

section \<open>The checksum\<close>

definition word_sum :: "bytes \<Rightarrow> nat" where
  "word_sum bs = sum_list (map be_word (chunks 2 bs))"

lemma fold_carry_props: "fold_carry s mod 65535 = s mod 65535 \<and> fold_carry s \<le> 65535 \<and> (fold_carry s = 0 \<longleftrightarrow> s = 0)"
proof (induction s rule: fold_carry.induct)
  case (1 s)
  show ?case
  proof (cases "0xffff < s")
    case True
    have "(s mod 65536 + s div 65536) mod 65535 = s mod 65535"
    proof -
      have "s = s mod 65536 + s div 65536 + 65535 * (s div 65536)" using div_mult_mod_eq [of s 65536] by linarith
      then show ?thesis by (metis mod_mult_self2)
    qed
    moreover have "s mod 65536 + s div 65536 \<noteq> 0" using True by (auto simp: div_eq_0_iff)
    ultimately show ?thesis using 1 True by (subst (1 2 3) fold_carry.simps) simp
  qed (simp add: fold_carry.simps)
qed

lemma folded_sum:
  "fold (\<lambda>c s. fold_carry (s + be_word c)) cs s mod 65535 = (s + sum_list (map be_word cs)) mod 65535 \<and>
   (s \<le> 65535 \<longrightarrow> fold (\<lambda>c s. fold_carry (s + be_word c)) cs s \<le> 65535) \<and>
   (fold (\<lambda>c s. fold_carry (s + be_word c)) cs s = 0 \<longleftrightarrow> s + sum_list (map be_word cs) = 0)"
proof (induction cs arbitrary: s)
  case (Cons c cs)
  note p = fold_carry_props [of "s + be_word c"]
  have "(fold_carry (s + be_word c) + sum_list (map be_word cs)) mod 65535 = (s + be_word c + sum_list (map be_word cs)) mod 65535"
    using p by (metis mod_add_left_eq)
  then show ?case using Cons.IH [of "fold_carry (s + be_word c)"] p by (simp add: add.assoc)
qed simp

lemma unat_not_u16: "s \<le> 65535 \<Longrightarrow> unat (NOT (of_nat s) :: u16) = 65535 - s"
proof -
  assume s: "s \<le> 65535"
  have "NOT (of_nat s) = - 1 - (of_nat s :: u16)" by (simp add: not_eq_complement)
  moreover have "(of_nat s :: u16) \<le> - 1" by (rule word_order.extremum)
  ultimately have "unat (NOT (of_nat s) :: u16) = unat (- 1 :: u16) - unat (of_nat s :: u16)" by (simp only: unat_sub)
  then show ?thesis using s by (simp add: unat_of_nat unat_max)
qed

text \<open>A header whose checksum field is filled in sums to all ones.\<close>

lemma checksum_verifies:
  assumes "word_sum header' = word_sum header + unat (ipv4_checksum header)"
  shows "word_sum header' mod 65535 = 0 \<and> word_sum header' \<noteq> 0"
proof -
  define s where "s = fold (\<lambda>c s. fold_carry (s + be_word c)) (chunks 2 header) 0"
  note f = folded_sum [of "chunks 2 header" 0, folded s_def word_sum_def, unfolded add_0]
  have c: "unat (ipv4_checksum header) = 65535 - s"
    using f unfolding ipv4_checksum_def s_def [symmetric] by (intro unat_not_u16) simp
  have "word_sum header' mod 65535 = (word_sum header mod 65535 + (65535 - s)) mod 65535" using assms c by (simp add: mod_simps)
  also have "\<dots> = (s mod 65535 + (65535 - s)) mod 65535" using f by simp
  also have "\<dots> = (s + (65535 - s)) mod 65535" by (rule mod_add_left_eq)
  also have "s + (65535 - s) = 65535" using f by simp
  finally have "word_sum header' mod 65535 = 0" by simp
  moreover have "word_sum header' \<noteq> 0" using assms c f by (cases "s = 0") auto
  ultimately show ?thesis by simp
qed

text \<open>The check of a receiver (RFC 1071): the 16-bit words of the header add up to all ones in ones' complement, where two sums are
  equal when they are congruent modulo 65535 and only the sum of nothing but zeros is zero.\<close>

fun header_sum :: "bytes \<Rightarrow> nat" where
  "header_sum (a # b # bs) = 256 * unat a + unat b + header_sum bs"
| "header_sum [a] = 256 * unat a"
| "header_sum [] = 0"

definition checksum_ok :: "bytes \<Rightarrow> bool" where
  "checksum_ok header \<longleftrightarrow> header_sum header mod 65535 = 0 \<and> header_sum header \<noteq> 0"

lemma be_word_pair: "be_word [a, b] = 256 * unat a + unat b"
proof -
  have "256 * unat a + unat b < 65536" using unat_bound [of a] unat_bound [of b] by simp
  moreover have "be_val [a, b] = 256 * unat a + unat b" by (simp add: be_val_def)
  ultimately show ?thesis unfolding be_word_def u16_from_be_def by (simp add: unat_u16 del: of_nat_add of_nat_mult)
qed

lemma word_sum_header: "word_sum bs = header_sum bs"
proof (induction bs rule: header_sum.induct)
  case (1 a b bs)
  have "word_sum (a # b # bs) = be_word [a, b] + word_sum bs" by (simp add: word_sum_def chunks_step numeral_2_eq_2)
  then show ?case using 1 be_word_pair by simp
qed (simp_all add: word_sum_def chunks_step be_word_def)

lemma word_sum_append: "even (length a) \<Longrightarrow> word_sum (a @ b) = word_sum a + word_sum b"
proof (induction a rule: length_induct)
  case (1 a)
  show ?case
  proof (cases "a = []")
    case False
    then have "2 \<le> length a" using "1.prems" by (cases a; cases "tl a") auto
    then obtain x y r where a: "a = x # y # r" by (cases a; cases "tl a") auto
    have "word_sum (r @ b) = word_sum r + word_sum b" using 1 a by simp
    moreover have "word_sum (x # y # s) = be_word [x, y] + word_sum s" for s
      by (simp add: word_sum_def chunks_step numeral_2_eq_2)
    ultimately show ?thesis by (simp add: a)
  qed (simp add: word_sum_def)
qed

section \<open>A receiver\<close>

text \<open>
  The reference a receiver follows: the fragments in the order of their offsets have to follow each other from zero,
  with the more-flag on all but the last; the packet is what they carry. The format of a fragment is a parameter.
\<close>

fun tiled :: "('f \<Rightarrow> nat) \<Rightarrow> ('f \<Rightarrow> bool) \<Rightarrow> ('f \<Rightarrow> bytes) \<Rightarrow> nat \<Rightarrow> 'f list \<Rightarrow> bool" where
  "tiled off mf body start [] \<longleftrightarrow> False"
| "tiled off mf body start [f] \<longleftrightarrow> off f = start \<and> \<not> mf f \<and> body f \<noteq> []"
| "tiled off mf body start (f # g # fs) \<longleftrightarrow>
     off f = start \<and> mf f \<and> body f \<noteq> [] \<and> tiled off mf body (start + length (body f)) (g # fs)"

definition reassemble :: "('f \<Rightarrow> nat) \<Rightarrow> ('f \<Rightarrow> bool) \<Rightarrow> ('f \<Rightarrow> bytes) \<Rightarrow> 'f list \<Rightarrow> bytes option" where
  "reassemble off mf body received =
    (let fs = sort_key off received in if tiled off mf body 0 fs then Some (concat (map body fs)) else None)"

lemma tiled_increasing: "tiled off mf body start fs \<Longrightarrow> (\<forall>f \<in> set fs. start \<le> off f) \<and> sorted_wrt (<) (map off fs)"
proof (induction off mf body start fs rule: tiled.induct)
  case (3 off mf body start f g fs)
  then have IH: "\<forall>h \<in> set (g # fs). start + length (body f) \<le> off h" "sorted_wrt (<) (map off (g # fs))"
    and f: "off f = start" "off f < start + length (body f)" by simp_all
  have lt: "\<forall>h \<in> set (g # fs). off f < off h" using IH(1) f(2) less_le_trans by blast
  have "sorted_wrt (<) (map off (f # g # fs))" using IH(2) lt by simp
  moreover have "\<forall>h \<in> set (f # g # fs). start \<le> off h" using lt f(1) less_imp_le by auto
  ultimately show ?case by blast
qed auto

lemma reassemble_any_order:
  assumes "tiled off mf body 0 fs" "mset received = mset fs"
  shows "reassemble off mf body received = Some (concat (map body fs))"
proof -
  have lt: "sorted_wrt (<) (map off fs)" using tiled_increasing [OF assms(1)] by simp
  then have "inj_on off (set received)" "sorted (map off fs)"
    using mset_eq_setD [OF assms(2)] by (auto simp: strict_sorted_iff distinct_map)
  then have "sort_key off received = fs" using assms(2) by (intro sort_key_inj_key_eq) simp_all
  then show ?thesis using assms(1) by (simp add: reassemble_def Let_def)
qed

text \<open>Fragments appended one after the other: as long as the last one is not in, every one has the flag.\<close>

fun tiled_so_far :: "('f \<Rightarrow> nat) \<Rightarrow> ('f \<Rightarrow> bool) \<Rightarrow> ('f \<Rightarrow> bytes) \<Rightarrow> nat \<Rightarrow> 'f list \<Rightarrow> bool" where
  "tiled_so_far off mf body start [] \<longleftrightarrow> True"
| "tiled_so_far off mf body start (f # fs) \<longleftrightarrow>
     off f = start \<and> mf f \<and> body f \<noteq> [] \<and> tiled_so_far off mf body (start + length (body f)) fs"

lemma tiled_snoc:
  assumes "tiled_so_far off mf body start fs" "off f = start + length (concat (map body fs))" "body f \<noteq> []"
  shows "mf f \<Longrightarrow> tiled_so_far off mf body start (fs @ [f])" "\<not> mf f \<Longrightarrow> tiled off mf body start (fs @ [f])"
proof -
  have "(mf f \<longrightarrow> tiled_so_far off mf body start (fs @ [f])) \<and> (\<not> mf f \<longrightarrow> tiled off mf body start (fs @ [f]))"
    using assms
  proof (induction fs arbitrary: start)
    case (Cons g fs)
    have "off f = start + length (body g) + length (concat (map body fs))" using Cons.prems(2) by simp
    from Cons.IH [OF _ this] Cons.prems show ?case by (cases fs) auto
  qed simp
  then show "mf f \<Longrightarrow> tiled_so_far off mf body start (fs @ [f])" "\<not> mf f \<Longrightarrow> tiled off mf body start (fs @ [f])" by simp_all
qed

section \<open>Writing into a header\<close>

lemma length_copy_at [simp]: "i + length bs \<le> length xs \<Longrightarrow> length (copy_at i bs xs) = length xs"
  by (simp add: copy_at_def)

lemma copy_at_left: "i + length bs \<le> length a \<Longrightarrow> copy_at i bs (a @ r) = copy_at i bs a @ r"
  by (simp add: copy_at_def)

lemma copy_at_right: "length a = i \<Longrightarrow> copy_at i bs (a @ r) = a @ bs @ drop (length bs) r"
  by (simp add: copy_at_def)

lemma copy_at_again: "length bs = length cs \<Longrightarrow> i + length bs \<le> length xs \<Longrightarrow> copy_at i bs (copy_at i cs xs) = copy_at i bs xs"
  by (simp add: copy_at_def)

lemma slice_copy_same: "i + length bs \<le> length xs \<Longrightarrow> j = i + length bs \<Longrightarrow> slice i j (copy_at i bs xs) = bs"
  by (simp add: copy_at_def slice_def)

lemma slice_copy_other:
  "b \<le> i \<or> i + length bs \<le> a \<Longrightarrow> i + length bs \<le> length xs \<Longrightarrow> slice a b (copy_at i bs xs) = slice a b xs"
proof (elim disjE)
  assume "b \<le> i" "i + length bs \<le> length xs"
  then show ?thesis by (simp add: copy_at_def slice_append_left slice_prefix_stable)
next
  assume "i + length bs \<le> a" "i + length bs \<le> length xs"
  then show ?thesis by (simp add: copy_at_def slice_def)
qed

lemma nth_copy_at:
  "i + length bs \<le> length xs \<Longrightarrow> k < length xs \<Longrightarrow>
   copy_at i bs xs ! k = (if i \<le> k \<and> k < i + length bs then bs ! (k - i) else xs ! k)"
  by (auto simp: copy_at_def nth_append min_def)

lemma word_sum_copy:
  assumes "even i" "i + 2 \<le> length xs" "length bs = 2"
  shows "word_sum (copy_at i bs xs) = word_sum (take i xs) + be_word bs + word_sum (drop (i + 2) xs)"
proof -
  have "bs \<noteq> []" using assms(3) by auto
  then have "word_sum bs = be_word bs" using assms(3) by (simp add: word_sum_def chunks_step)
  then show ?thesis using assms by (simp add: copy_at_def word_sum_append)
qed

section \<open>One IPv4 fragment\<close>

definition off4 :: "bytes \<Rightarrow> nat" where
  "off4 f = 8 * (unat (u16_from_be (slice 6 8 f)) mod 8192)"

definition more4 :: "bytes \<Rightarrow> bool" where
  "more4 f \<longleftrightarrow> bit (u16_from_be (slice 6 8 f)) 13"

definition body4 :: "bytes \<Rightarrow> bytes" where
  "body4 f = drop (ipv4_header_len f) f"

definition options4 :: "bytes \<Rightarrow> bytes" where
  "options4 f = slice 20 (ipv4_header_len f) f"

text \<open>What a receiver checks of a header, and what a fragment has in common with the packet: type of service,
  identification, time to live, protocol and addresses.\<close>

definition ipv4_valid :: "bytes \<Rightarrow> bool" where
  "ipv4_valid f \<longleftrightarrow> drop_bit 4 (f ! 0) = 4 \<and> 20 \<le> ipv4_header_len f \<and> ipv4_header_len f \<le> length f \<and>
     unat (u16_from_be (slice 2 4 f)) = length f \<and> checksum_ok (take (ipv4_header_len f) f)"

definition same_ipv4 :: "bytes \<Rightarrow> bytes \<Rightarrow> bool" where
  "same_ipv4 p f \<longleftrightarrow> slice 1 2 f = slice 1 2 p \<and> slice 4 6 f = slice 4 6 p \<and> slice 8 10 f = slice 8 10 p \<and> slice 12 20 f = slice 12 20 p"

text \<open>The header of a fragment.\<close>

definition header4 :: "bytes \<Rightarrow> u8 \<Rightarrow> u16 \<Rightarrow> u16 \<Rightarrow> bytes \<Rightarrow> bytes" where
  "header4 h v len flags chk = copy_at 10 chk (copy_at 10 [0, 0] (copy_at 6 (u16_be flags) (copy_at 2 (u16_be len) (copy_at 0 [v] h))))"

lemma header4_fields:
  assumes "length h = 20" "length chk = 2"
  shows "length (header4 h v len flags chk) = 20" "header4 h v len flags chk ! 0 = v"
    "slice 2 4 (header4 h v len flags chk) = u16_be len" "slice 6 8 (header4 h v len flags chk) = u16_be flags"
    "same_ipv4 h (header4 h v len flags chk)"
    "word_sum (header4 h v len flags chk) = word_sum (header4 h v len flags [0, 0]) + be_word chk"
proof -
  show "length (header4 h v len flags chk) = 20" "header4 h v len flags chk ! 0 = v"
    "slice 2 4 (header4 h v len flags chk) = u16_be len" "slice 6 8 (header4 h v len flags chk) = u16_be flags"
    using assms by (simp_all add: header4_def nth_copy_at slice_copy_other slice_copy_same)
  show "same_ipv4 h (header4 h v len flags chk)" using assms by (simp add: same_ipv4_def header4_def slice_copy_other)
  show "word_sum (header4 h v len flags chk) = word_sum (header4 h v len flags [0, 0]) + be_word chk"
    unfolding header4_def using assms by (subst (1 2) word_sum_copy) (simp_all add: be_word_def u16_from_be_def be_val_def)
qed

lemma version_byte:
  assumes "n < 16"
  shows "drop_bit 4 (0x40 OR of_nat n :: u8) = 4" "unat ((0x40 OR of_nat n :: u8) AND 0x0f) = n"
proof -
  have "n \<in> {0..<16}" using assms by simp
  also have "{0..<16} = {0, 1, 2, 3, 4, 5, 6, 7, 8, 9, 10, 11, 12, 13, 14, 15::nat}" by (simp add: atLeastLessThan_nat_numeral) auto
  finally show "drop_bit 4 (0x40 OR of_nat n :: u8) = 4" "unat ((0x40 OR of_nat n :: u8) AND 0x0f) = n" by auto
qed

lemma flag_word:
  assumes "n < 8192"
  shows "unat ((x AND 0x8000) OR (if m then 0x2000 else 0) OR of_nat n :: u16) mod 8192 = n"
    "bit ((x AND 0x8000) OR (if m then 0x2000 else 0) OR of_nat n :: u16) 13 \<longleftrightarrow> m"
proof -
  let ?w = "(x AND 0x8000) OR (if m then 0x2000 else 0) OR of_nat n :: u16"
  have n: "unat (of_nat n :: u16) = n" using assms by (simp add: unat_of_nat)
  have t: "take_bit 13 (0x8000 :: u16) = 0" "take_bit 13 (0x2000 :: u16) = 0" by simp_all
  have "take_bit 13 ?w = take_bit 13 (of_nat n)" using t by (simp add: take_bit_or take_bit_and)
  then have "unat (take_bit 13 ?w) = unat (take_bit 13 (of_nat n :: u16))" by simp
  then have "take_bit 13 (unat ?w) = take_bit 13 n" by (simp only: unsigned_take_bit_eq n)
  then show "unat ?w mod 8192 = n" using assms by (simp add: take_bit_eq_mod)
  have "bit (of_nat n :: u16) 13 \<longleftrightarrow> bit (unat (of_nat n :: u16)) 13" by (simp add: bit_unsigned_iff)
  then have "\<not> bit (of_nat n :: u16) 13" using assms n by (simp add: bit_iff_odd)
  then show "bit ?w 13 \<longleftrightarrow> m" by (auto simp: bit_or_iff bit_and_iff)
qed

lemma ipv4_fragment_ok:
  assumes "20 \<le> length packet" "length options \<le> 40" "4 dvd length options"
    and "8 dvd offset" "0 < taken" "offset + taken \<le> length payload" "length payload \<le> 65535" "20 + length options + taken < 65536"
  shows "\<exists>f. ipv4_fragment packet options flags_offset payload offset taken = Inr f \<and> off4 f = offset \<and>
    (more4 f \<longleftrightarrow> offset + taken < length payload) \<and> body4 f = slice offset (offset + taken) payload \<and>
    ipv4_valid f \<and> same_ipv4 packet f \<and> length f = 20 + length options + taken \<and> options4 f = options"
proof -
  define h where "h = take 20 packet"
  define n where "n = (20 + length options) div 4"
  define v where "v = (0x40 OR of_nat n :: u8)"
  define body where "body = slice offset (offset + taken) payload"
  define len where "len = (of_nat (20 + length options + taken) :: u16)"
  define flags where "flags = (flags_offset AND 0x8000) OR (if offset + taken < length payload then 0x2000 else 0) OR of_nat (offset div 8)"
  define chk where "chk = u16_be (ipv4_checksum (header4 h v len flags [0, 0] @ options))"
  define f where "f = header4 h v len flags chk @ options @ body"
  have h: "length h = 20" using assms(1) by (simp add: h_def)
  have n: "n < 16" "4 * n = 20 + length options" using assms(2,3) by (auto simp: n_def)
  have b: "length body = taken" using assms(6) by (simp add: body_def)
  have chk: "length chk = 2" by (simp add: chk_def)
  note H = header4_fields [OF h chk, of v len flags] header4_fields(1) [OF h, of "[0, 0]" v len flags]
  have off: "offset div 8 < 8192" using assms(6,7) by linarith
  define h1 where "h1 = copy_at 0 [v] h"
  define h2 where "h2 = copy_at 2 (u16_be len) h1"
  define h3 where "h3 = copy_at 6 (u16_be flags) h2"
  define h4 where "h4 = copy_at 10 [0, 0] h3"
  have lens: "length h1 = 20" "length h2 = 20" "length h3 = 20" "length h4 = 20"
    using h by (simp_all add: h1_def h2_def h3_def h4_def)
  have hdr: "header4 h v len flags [0, 0] = h4" "header4 h v len flags chk = copy_at 10 chk h4"
    unfolding header4_def h4_def h1_def [symmetric] h2_def [symmetric] h3_def [symmetric] using lens(3)
    by (simp_all add: copy_at_again)
  have steps: "copy_at 0 [v] (h @ options @ replicate taken 0) = h1 @ options @ replicate taken 0"
    "copy_at 2 (u16_be len) (h1 @ options @ replicate taken 0) = h2 @ options @ replicate taken 0"
    "copy_at 6 (u16_be flags) (h2 @ options @ replicate taken 0) = h3 @ options @ replicate taken 0"
    "copy_at 10 [0, 0] (h3 @ options @ replicate taken 0) = h4 @ options @ replicate taken 0"
    unfolding h1_def h2_def h3_def h4_def by (rule copy_at_left, simp add: h)+
  have last: "copy_at (20 + length options) body (h4 @ options @ replicate taken 0) = h4 @ options @ body"
    "take (20 + length options) (h4 @ options @ body) = h4 @ options"
    "copy_at 10 chk (h4 @ options @ body) = f" "length (h1 @ options @ replicate taken 0) = 20 + length options + taken"
    using copy_at_right [of "h4 @ options" "20 + length options" body "replicate taken 0"] lens(1,4) b chk
    by (simp_all add: f_def hdr(2) copy_at_left)
  have guards: "(256 \<le> n) = False" "(2 ^ 16 \<le> 20 + length options + taken) = False" "(2 ^ 16 \<le> offset div 8) = False"
    using n(1) assms(8) off by simp_all
  have "ipv4_fragment packet options flags_offset payload offset taken = Inr f"
    unfolding ipv4_fragment_def IPV4_MIN_HEADER_def Let_def h_def [symmetric] n_def [symmetric] v_def [symmetric]
      body_def [symmetric] flags_def [symmetric]
    by (simp only: steps last guards len_def [symmetric] chk_def [unfolded hdr, symmetric] if_False)
  moreover have hl: "ipv4_header_len f = 20 + length options"
    using version_byte(2) [OF n(1)] H chk n(2) by (simp add: ipv4_header_len_def f_def nth_append v_def)
  moreover have "ipv4_valid f"
  proof -
    have "word_sum (header4 h v len flags chk @ options) = word_sum (header4 h v len flags [0, 0] @ options) +
        unat (ipv4_checksum (header4 h v len flags [0, 0] @ options))"
      using H chk by (simp add: word_sum_append chk_def be_word_def)
    then have "checksum_ok (header4 h v len flags chk @ options)"
      unfolding checksum_ok_def word_sum_header [symmetric] by (rule checksum_verifies)
    then show ?thesis using H chk hl b version_byte(1) [OF n(1)] assms(8)
      by (simp add: ipv4_valid_def f_def nth_append v_def slice_append_left len_def unat_u16 del: of_nat_add)
  qed
  moreover have "off4 f = offset" "more4 f \<longleftrightarrow> offset + taken < length payload"
    using H chk flag_word [OF off] assms(4) by (simp_all add: off4_def more4_def f_def slice_append_left flags_def)
  moreover have "body4 f = body" using hl H chk by (simp add: body4_def f_def)
  moreover have "same_ipv4 packet f" using H(5) H(1) chk assms(1)
    by (simp add: same_ipv4_def f_def slice_append_left h_def slice_prefix_stable)
  moreover have "length f = 20 + length options + taken" using H chk b by (simp add: f_def)
  moreover have "options4 f = options" unfolding options4_def hl using H chk by (simp add: f_def slice_def)
  ultimately show ?thesis unfolding body_def by blast
qed

section \<open>IPv4 options\<close>

text \<open>
  Options as RFC 791 lays them out: single bytes without a function, and options of a kind, a length that counts kind and length, and
  data; a zero ends the list, and what follows it is padding. The first bit of the kind says that the option is copied into all
  fragments.
\<close>

datatype ip_option = Ip_Nop | Ip_Option u8 bytes

fun option_bytes :: "ip_option \<Rightarrow> bytes" where
  "option_bytes Ip_Nop = [1]"
| "option_bytes (Ip_Option kind data) = kind # of_nat (2 + length data) # data"

fun option_ok :: "ip_option \<Rightarrow> bool" where
  "option_ok Ip_Nop \<longleftrightarrow> True"
| "option_ok (Ip_Option kind data) \<longleftrightarrow> kind \<noteq> 0 \<and> kind \<noteq> 1 \<and> length data \<le> 253"

fun option_copied :: "ip_option \<Rightarrow> bool" where
  "option_copied Ip_Nop \<longleftrightarrow> False"
| "option_copied (Ip_Option kind data) \<longleftrightarrow> bit kind 7"

definition options_text :: "ip_option list \<Rightarrow> bytes \<Rightarrow> bool" where
  "options_text os text \<longleftrightarrow> list_all option_ok os \<and>
     (text = concat (map option_bytes os) \<or> (\<exists>padding. text = concat (map option_bytes os) @ 0 # padding))"

definition pad4 :: "bytes \<Rightarrow> bytes" where
  "pad4 bs = bs @ replicate ((4 - length bs mod 4) mod 4) 0"

lemma and_0x80: "kind AND 0x80 \<noteq> 0 \<longleftrightarrow> bit (kind :: u8) 7"
  using and_exp_eq_0_iff_not_bit [of kind 7] by simp

lemma unat_u8: "n < 256 \<Longrightarrow> unat (of_nat n :: u8) = n"
  by (simp add: unat_of_nat)

lemma options_loop_reads:
  "list_all option_ok os \<Longrightarrow> rest = [] \<or> hd rest = 0 \<Longrightarrow>
   options_loop (before @ concat (map option_bytes os) @ rest) (length before) copied =
     Inr (copied @ concat (map option_bytes (filter option_copied os)))"
proof (induction os arbitrary: before copied)
  case Nil
  then show ?case by (cases rest) (simp_all add: options_loop.simps nth_append)
next
  case (Cons opt os)
  let ?t = "before @ option_bytes opt @ concat (map option_bytes os) @ rest"
  show ?case
  proof (cases opt)
    case Ip_Nop
    have "options_loop ?t (length before) copied = options_loop ?t (length before + 1) copied"
      by (subst options_loop.simps) (simp add: Ip_Nop nth_append)
    then show ?thesis using Cons.IH [of "before @ [1]" copied] Cons.prems Ip_Nop by simp
  next
    case (Ip_Option kind data)
    have k: "kind \<noteq> 0" "kind \<noteq> 1" "length data \<le> 253" using Cons.prems Ip_Option by simp_all
    then have len: "unat (of_nat (2 + length data) :: u8) = 2 + length data" by (intro unat_u8) simp
    have at: "?t ! length before = kind" "?t ! (length before + 1) = of_nat (2 + length data)"
      "length before + (2 + length data) \<le> length ?t"
      "slice (length before) (length before + (2 + length data)) ?t = option_bytes opt"
      using Ip_Option by (simp_all add: nth_append slice_def)
    have "options_loop ?t (length before) copied = options_loop ?t (length before + (2 + length data))
        (if bit kind 7 then copied @ option_bytes opt else copied)"
      by (subst options_loop.simps) (use at k len Ip_Option in \<open>simp add: Let_def and_0x80 del: of_nat_add\<close>)
    then show ?thesis using Cons.IH [of "before @ option_bytes opt"] Cons.prems Ip_Option by simp
  qed
qed

section \<open>All IPv4 fragments\<close>

lemma options_text_Cons: "option_ok opt \<Longrightarrow> options_text os text \<Longrightarrow> options_text (opt # os) (option_bytes opt @ text)"
  by (auto simp: options_text_def)

lemma options_loop_text:
  "options_loop options cursor copied = Inr c \<Longrightarrow> cursor \<le> length options \<Longrightarrow>
   \<exists>os. options_text os (drop cursor options) \<and> c = copied @ concat (map option_bytes (filter option_copied os))"
proof (induction "length options - cursor" arbitrary: cursor copied rule: less_induct)
  case less
  show ?case
  proof (cases "cursor < length options \<and> options ! cursor \<noteq> 0")
    case False
    then have "drop cursor options = [] \<or> drop cursor options = 0 # drop (Suc cursor) options"
      using less.prems(2) by (metis Cons_nth_drop_Suc drop_all not_less)
    moreover have "c = copied" using False less.prems by (subst (asm) options_loop.simps) (auto simp: Let_def split: if_splits)
    ultimately show ?thesis by (intro exI [of _ "[]"]) (auto simp: options_text_def)
  next
    case True
    have d: "drop cursor options = options ! cursor # drop (Suc cursor) options" using True by (simp add: Cons_nth_drop_Suc)
    show ?thesis
    proof (cases "options ! cursor = 1")
      case one: True
      then have "options_loop options (cursor + 1) copied = Inr c"
        using True less.prems(1) by (subst (asm) options_loop.simps) (simp add: Let_def)
      from less.hyps [OF _ this] True obtain os where os: "options_text os (drop (cursor + 1) options)"
        "c = copied @ concat (map option_bytes (filter option_copied os))" by fastforce
      have "options_text (Ip_Nop # os) (option_bytes Ip_Nop @ drop (cursor + 1) options)" by (rule options_text_Cons [OF _ os(1)]) simp
      then show ?thesis using os(2) d one by (intro exI [of _ "Ip_Nop # os"]) simp
    next
      case False
      define n where "n = unat (options ! (cursor + 1))"
      define data where "data = slice (cursor + 2) (cursor + n) options"
      define opt where "opt = Ip_Option (options ! cursor) data"
      define next_copied where "next_copied = (if options ! cursor AND 0x80 \<noteq> 0 then copied @ slice cursor (cursor + n) options else copied)"
      have n: "2 \<le> n" "cursor + n \<le> length options" "options_loop options (cursor + n) next_copied = Inr c"
        using True False less.prems(1)
        by (subst (asm) options_loop.simps, simp add: Let_def n_def next_copied_def not_less split: if_splits)+
      have data: "length data = n - 2" "n \<le> 255" using n unat_bound [of "options ! (cursor + 1)"] by (auto simp: data_def n_def)
      have "options ! (cursor + 1) = of_nat (2 + length data)" using n(1) data(1) by (simp add: n_def del: of_nat_add)
      moreover have "drop (Suc cursor) options = options ! (cursor + 1) # drop (cursor + 2) options" using n by (simp add: Cons_nth_drop_Suc)
      moreover have "drop (cursor + 2) options = data @ drop (cursor + n) options"
      proof -
        have "n - 2 + (cursor + 2) = cursor + n" using n(1) by simp
        then have "drop (cursor + n) options = drop (n - 2) (drop (cursor + 2) options)" by (simp only: drop_drop)
        moreover have "data = take (n - 2) (drop (cursor + 2) options)" using n(1) by (simp add: data_def slice_def)
        ultimately show ?thesis by (metis append_take_drop_id)
      qed
      ultimately have split: "drop cursor options = option_bytes opt @ drop (cursor + n) options" using d by (simp add: opt_def)
      have "length (option_bytes opt) = n" using data n(1) by (simp add: opt_def)
      then have "slice cursor (cursor + n) options = option_bytes opt" unfolding slice_def split by simp
      moreover from less.hyps [OF _ n(3)] n True obtain os where os: "options_text os (drop (cursor + n) options)"
        "c = next_copied @ concat (map option_bytes (filter option_copied os))" by fastforce
      moreover have "option_ok opt" using True False data by (simp add: opt_def)
      ultimately show ?thesis using split options_text_Cons [of opt os]
        by (intro exI [of _ "opt # os"]) (auto simp: next_copied_def opt_def and_0x80)
    qed
  qed
qed

lemma copied_options_iff:
  "copied_ipv4_options options = Inr c \<longleftrightarrow>
     (\<exists>os. options_text os options \<and> c = pad4 (concat (map option_bytes (filter option_copied os))))"
proof
  assume "copied_ipv4_options options = Inr c"
  then obtain d where "options_loop options 0 [] = Inr d" "c = pad4 d" by (auto simp: copied_ipv4_options_def pad4_def and_then_Inr_iff)
  then show "\<exists>os. options_text os options \<and> c = pad4 (concat (map option_bytes (filter option_copied os)))"
    using options_loop_text [of options 0 "[]" d] by auto
next
  assume "\<exists>os. options_text os options \<and> c = pad4 (concat (map option_bytes (filter option_copied os)))"
  then obtain os rest where "list_all option_ok os" "options = [] @ concat (map option_bytes os) @ rest" "rest = [] \<or> hd rest = 0"
    "c = pad4 (concat (map option_bytes (filter option_copied os)))" unfolding options_text_def by force
  then show "copied_ipv4_options options = Inr c"
    using options_loop_reads [of os rest "[]" "[]"] by (simp add: copied_ipv4_options_def pad4_def)
qed

lemma pad4_props: "4 dvd length (pad4 bs)" "length (pad4 bs) < length bs + 4"
proof -
  have pad: "(n + (4 - n mod 4) mod 4) mod 4 = 0" for n :: nat
  proof -
    have "n mod 4 < 4" by simp
    then consider "n mod 4 = 0" | "n mod 4 = 1" | "n mod 4 = 2" | "n mod 4 = 3" by linarith
    then show ?thesis by cases (simp_all add: mod_add_left_eq [symmetric] mod_Suc)
  qed
  have "length (pad4 bs) = length bs + (4 - length bs mod 4) mod 4" by (simp add: pad4_def)
  then show "4 dvd length (pad4 bs)" unfolding dvd_eq_mod_eq_0 by (simp only: pad)
qed (simp add: pad4_def)

lemma length_filtered_concat: "length (concat (map f (filter P xs))) \<le> length (concat (map f xs))"
  by (induction xs) auto

lemma copied_options_length:
  assumes "copied_ipv4_options options = Inr c" "4 dvd length options"
  shows "4 dvd length c \<and> length c \<le> length options"
proof -
  obtain os where os: "options_text os options" "c = pad4 (concat (map option_bytes (filter option_copied os)))"
    using assms(1) copied_options_iff by blast
  then have "length (concat (map option_bytes (filter option_copied os))) \<le> length options"
    using length_filtered_concat [of option_bytes option_copied os] by (auto simp: options_text_def)
  then have "length c < length options + 4" "4 dvd length c"
    using pad4_props [of "concat (map option_bytes (filter option_copied os))"] os(2) by simp_all
  moreover from this assms(2) obtain k m where "length options = 4 * k" "length c = 4 * m" by (elim dvdE)
  ultimately show ?thesis by simp
qed

text \<open>A correct fragment: the first has all options of the packet, the others those given.\<close>

definition good4 :: "bytes \<Rightarrow> nat \<Rightarrow> bytes \<Rightarrow> bytes \<Rightarrow> bool" where
  "good4 packet mtu copied f \<longleftrightarrow> length f \<le> mtu \<and> ipv4_valid f \<and> same_ipv4 packet f \<and>
     options4 f = (if off4 f = 0 then options4 packet else copied)"

text \<open>What the loop has built when it stands at an offset.\<close>

definition built :: "('f \<Rightarrow> nat) \<Rightarrow> ('f \<Rightarrow> bool) \<Rightarrow> ('f \<Rightarrow> bytes) \<Rightarrow> ('f \<Rightarrow> bool) \<Rightarrow> bytes \<Rightarrow> nat \<Rightarrow> 'f list \<Rightarrow> bool" where
  "built off mf body good payload offset fs \<longleftrightarrow>
     offset \<le> length payload \<and> concat (map body fs) = take offset payload \<and> (\<forall>f \<in> set fs. good f) \<and>
     (if offset < length payload then tiled_so_far off mf body 0 fs \<and> 8 dvd offset else tiled off mf body 0 fs)"

lemma built_snoc:
  assumes "built off mf body good payload offset fs" "offset < length payload" "0 < taken" "offset + taken \<le> length payload"
    and "8 dvd taken \<or> offset + taken = length payload"
    and f: "off f = offset" "mf f \<longleftrightarrow> offset + taken < length payload" "body f = slice offset (offset + taken) payload" "good f"
  shows "built off mf body good payload (offset + taken) (fs @ [f])"
proof -
  have fs: "tiled_so_far off mf body 0 fs" "8 dvd offset" "concat (map body fs) = take offset payload"
    using assms(1,2) by (simp_all add: built_def)
  have "off f = 0 + length (concat (map body fs))" using fs(3) f(1) assms(2) by simp
  moreover have "body f \<noteq> []" using f(3) assms(3,4) by (simp add: slice_def)
  ultimately have "if offset + taken < length payload then tiled_so_far off mf body 0 (fs @ [f]) else tiled off mf body 0 (fs @ [f])"
    using tiled_snoc [OF fs(1), of f] f(2) by simp
  moreover have "concat (map body (fs @ [f])) = take (offset + taken) payload"
    using fs(3) f(3) take_slice_split [of offset "offset + taken" payload] by simp
  ultimately show ?thesis using assms(1,4,5) f(4) fs(2) by (auto simp: built_def)
qed

lemma align8_props: "align8 n \<le> n" "8 dvd align8 n" "8 \<le> n \<Longrightarrow> 0 < align8 n"
  by (auto simp: align8_def)

lemma ipv4_loop_ok:
  assumes ctx: "20 \<le> length packet" "length (slice 20 hl packet) \<le> 40" "4 dvd length (slice 20 hl packet)"
    "hl = ipv4_header_len packet" "length copied \<le> length (slice 20 hl packet)" "4 dvd length copied" "mtu < 65536" "length payload \<le> 65535"
    and "built off4 more4 body4 (good4 packet mtu copied) payload offset fragments"
  shows "case ipv4_loop packet hl copied flags payload mtu offset fragments of
    Inr frs \<Rightarrow> built off4 more4 body4 (good4 packet mtu copied) payload (length payload) frs
  | Inl e \<Rightarrow> mtu < 20 + length (slice 20 hl packet) + 8"
  using assms(9)
proof (induction "length payload - offset" arbitrary: offset fragments rule: less_induct)
  case less
  define options where "options = (if offset = 0 then slice 20 hl packet else copied)"
  define taken where "taken = (if mtu - (20 + length options) < length payload - offset then align8 (mtu - (20 + length options)) else length payload - offset)"
  have o: "length options \<le> length (slice 20 hl packet)" "4 dvd length options" using ctx by (auto simp: options_def)
  have step: "ipv4_loop packet hl copied flags payload mtu offset fragments =
    (if length payload \<le> offset then Inr fragments
     else if mtu < 20 + length options then Inl (invalid_data ''MTU is too small for the IPv4 header and options'')
     else if taken = 0 then Inl (invalid_data ''MTU leaves no aligned IPv4 fragment payload'')
     else case ipv4_fragment packet options flags payload offset taken of Inl e \<Rightarrow> Inl e
          | Inr fragment \<Rightarrow> ipv4_loop packet hl copied flags payload mtu (offset + taken) (fragments @ [fragment]))"
    by (subst ipv4_loop.simps) (simp only: IPV4_MIN_HEADER_def Let_def options_def [symmetric] taken_def [symmetric])
  show ?case
  proof (cases "offset < length payload \<and> \<not> mtu < 20 + length options \<and> taken \<noteq> 0")
    case False
    have "offset = length payload" if "length payload \<le> offset" using less.prems that by (simp add: built_def)
    moreover have "mtu < 20 + length (slice 20 hl packet) + 8" if "offset < length payload" "taken = 0" "\<not> mtu < 20 + length options"
    proof -
      have "align8 (mtu - (20 + length options)) = 0" using that by (simp add: taken_def split: if_splits)
      then have "\<not> 8 \<le> mtu - (20 + length options)" using align8_props(3) by fastforce
      then show ?thesis using o(1) by linarith
    qed
    ultimately show ?thesis using False less.prems o(1) step by (auto split: sum.split if_splits)
  next
    case True
    have t: "taken \<le> mtu - (20 + length options)" "offset + taken \<le> length payload" "8 dvd taken \<or> offset + taken = length payload"
      using True align8_props [of "mtu - (20 + length options)"] by (auto simp: taken_def)
    have fit: "20 + length options + taken \<le> mtu" using t(1) True by linarith
    obtain f where f: "ipv4_fragment packet options flags payload offset taken = Inr f" "off4 f = offset"
      "more4 f \<longleftrightarrow> offset + taken < length payload" "body4 f = slice offset (offset + taken) payload"
      "ipv4_valid f" "same_ipv4 packet f" "length f = 20 + length options + taken" "options4 f = options"
      using ipv4_fragment_ok [of packet options offset taken payload flags] ctx o True t less.prems fit by (auto simp: built_def)
    have "built off4 more4 body4 (good4 packet mtu copied) payload (offset + taken) (fragments @ [f])"
      using True t f fit ctx(4) by (intro built_snoc [OF less.prems]) (auto simp: good4_def options_def options4_def)
    moreover have "length payload - (offset + taken) < length payload - offset" using True by linarith
    ultimately show ?thesis using less.hyps True f(1) step by simp
  qed
qed

lemma ipv4_header_len_bounds: "ipv4_header_len packet \<le> 60" "4 dvd ipv4_header_len packet"
proof -
  have "packet ! 0 AND 0x0f = take_bit 4 (packet ! 0)" by (simp add: take_bit_eq_mask mask_eq_exp_minus_1)
  moreover have "unat (take_bit 4 (packet ! 0)) < 2 ^ 4" unfolding unsigned_take_bit_eq by (rule take_bit_nat_less_exp)
  ultimately have "unat (packet ! 0 AND 0x0f) < 16" by simp
  then show "ipv4_header_len packet \<le> 60" "4 dvd ipv4_header_len packet" by (simp_all add: ipv4_header_len_def)
qed

text \<open>Packets that can be cut: a correct header without the fragment and don't-fragment flags, readable options, and room
  for eight bytes behind the header.\<close>

definition fragmentable4 :: "bytes \<Rightarrow> nat \<Rightarrow> bool" where
  "fragmentable4 packet mtu \<longleftrightarrow>
     20 \<le> ipv4_header_len packet \<and> unat (u16_from_be (slice 2 4 packet)) = length packet \<and>
     u16_from_be (slice 6 8 packet) AND 0x3fff = 0 \<and> u16_from_be (slice 6 8 packet) AND 0x4000 = 0 \<and>
     (\<exists>os. options_text os (options4 packet)) \<and> ipv4_header_len packet + 8 \<le> mtu"

lemma fragment_ipv4_cases:
  assumes "mtu < length packet" "ipv4_header_len packet < length packet"
  shows "case fragment_ipv4 packet mtu of
    Inl e \<Rightarrow> \<not> fragmentable4 packet mtu
  | Inr frs \<Rightarrow> \<exists>os. options_text os (options4 packet) \<and>
      built off4 more4 body4 (good4 packet mtu (pad4 (concat (map option_bytes (filter option_copied os)))))
        (drop (ipv4_header_len packet) packet) (length packet - ipv4_header_len packet) frs"
proof -
  define hl where "hl = ipv4_header_len packet"
  define flags where "flags = u16_from_be (slice 6 8 packet)"
  show ?thesis
  proof (cases "20 \<le> length packet \<and> 20 \<le> hl \<and> unat (u16_from_be (slice 2 4 packet)) = length packet \<and> flags AND 0x3fff = 0 \<and>
      flags AND 0x4000 = 0 \<and> (\<exists>c. copied_ipv4_options (slice 20 hl packet) = Inr c)")
    case False
    then have "\<exists>e. fragment_ipv4 packet mtu = Inl e"
      by (auto simp: fragment_ipv4_def IPV4_MIN_HEADER_def Let_def hl_def flags_def and_then_def split: sum.split)
    moreover have "\<not> fragmentable4 packet mtu" using False assms by (auto simp: fragmentable4_def hl_def flags_def options4_def copied_options_iff)
    ultimately show ?thesis by auto
  next
    case True
    then obtain c where c: "copied_ipv4_options (slice 20 hl packet) = Inr c" by blast
    then obtain os where os: "options_text os (options4 packet)" "c = pad4 (concat (map option_bytes (filter option_copied os)))"
      unfolding copied_options_iff options4_def hl_def by blast
    have run: "fragment_ipv4 packet mtu = ipv4_loop packet hl c flags (drop hl packet) mtu 0 []"
      using True c assms(2) by (simp add: fragment_ipv4_def IPV4_MIN_HEADER_def Let_def hl_def [symmetric] flags_def [symmetric])
    have total: "length packet < 65536" using True unat_bound [of "u16_from_be (slice 2 4 packet)"] by simp
    have opts: "length (slice 20 hl packet) = hl - 20" "hl - 20 \<le> 40" "4 dvd hl - 20"
      using True ipv4_header_len_bounds [of packet] assms(2) by (auto simp: hl_def dvd_diff_nat)
    have start: "built off4 more4 body4 (good4 packet mtu c) (drop hl packet) 0 []" using assms(2) by (simp add: built_def hl_def)
    have "case fragment_ipv4 packet mtu of
        Inr frs \<Rightarrow> built off4 more4 body4 (good4 packet mtu c) (drop hl packet) (length (drop hl packet)) frs
      | Inl e \<Rightarrow> mtu < 20 + length (slice 20 hl packet) + 8"
      unfolding run
      by (rule ipv4_loop_ok) (use True copied_options_length [OF c] opts total assms(1) start hl_def in simp_all)
    moreover have "\<not> fragmentable4 packet mtu" if "mtu < 20 + length (slice 20 hl packet) + 8"
      using that opts(1) True by (auto simp: fragmentable4_def hl_def)
    ultimately show ?thesis using os by (auto simp: hl_def split: sum.splits)
  qed
qed

text \<open>
  C38: Fragments of an IPv4 packet put the packet together again. When a packet with a payload is longer than the MTU, either
  it cannot be cut (its header, flags or options do not allow it, or the MTU leaves no room for eight bytes behind
  the header), or every fragment fits the MTU and is a correct IPv4 packet of the same flow, with its length and with a header whose
  words sum to all ones in ones' complement; the first fragment has the options of the packet and the others exactly the options
  that are marked to be copied, padded to words; and a receiver that gets the fragments in any order obtains the payload.
\<close>

theorem ipv4_fragments_reassemble:
  assumes "mtu < length packet" "drop_bit 4 (packet ! 0) = 4" "ipv4_header_len packet < length packet"
  shows "case fst (fragment_ip_packet packet mtu ident) of
    Inl e \<Rightarrow> \<not> fragmentable4 packet mtu
  | Inr frs \<Rightarrow> (\<exists>os. options_text os (options4 packet) \<and> (\<forall>f \<in> set frs. length f \<le> mtu \<and> ipv4_valid f \<and> same_ipv4 packet f \<and>
        options4 f = (if off4 f = 0 then options4 packet else pad4 (concat (map option_bytes (filter option_copied os)))))) \<and>
      (\<forall>received. mset received = mset frs \<longrightarrow> reassemble off4 more4 body4 received = Some (drop (ipv4_header_len packet) packet))"
proof -
  have run: "fst (fragment_ip_packet packet mtu ident) = fragment_ipv4 packet mtu"
    using assms(1,2) by (auto simp: fragment_ip_packet_def)
  have parts: "(\<forall>f \<in> set frs. good4 packet mtu c f) \<and>
      (\<forall>received. mset received = mset frs \<longrightarrow> reassemble off4 more4 body4 received = Some (drop (ipv4_header_len packet) packet))"
    if "built off4 more4 body4 (good4 packet mtu c) (drop (ipv4_header_len packet) packet) (length packet - ipv4_header_len packet) frs" for frs c
    using that reassemble_any_order [of off4 more4 body4 frs] by (auto simp: built_def)
  show ?thesis
  proof (cases "fragment_ipv4 packet mtu")
    case (Inr frs)
    then obtain os where os: "options_text os (options4 packet)"
      "built off4 more4 body4 (good4 packet mtu (pad4 (concat (map option_bytes (filter option_copied os)))))
        (drop (ipv4_header_len packet) packet) (length packet - ipv4_header_len packet) frs"
      using fragment_ipv4_cases [OF assms(1,3)] by auto
    from parts [OF os(2)] show ?thesis unfolding run Inr sum.case good4_def by (intro conjI exI [of _ os] os(1)) simp_all
  qed (use fragment_ipv4_cases [OF assms(1,3)] run in simp)
qed

definition sample_packet4 :: bytes where
  "sample_packet4 = [0x45, 0, 0, 32, 0x12, 0x34, 0, 0, 64, 17, 0, 0, 10, 0, 0, 1, 10, 0, 0, 2, 1, 2, 3, 4, 5, 6, 7, 8, 9, 10, 11, 12]"

lemma sample_packet4_props:
  "length sample_packet4 = 32" "drop_bit 4 (sample_packet4 ! 0) = 4" "ipv4_header_len sample_packet4 = 20"
  "fragmentable4 sample_packet4 28"
proof -
  show "length sample_packet4 = 32" "drop_bit 4 (sample_packet4 ! 0) = 4" "ipv4_header_len sample_packet4 = 20"
    by (simp_all add: sample_packet4_def ipv4_header_len_def)
  moreover have "options4 sample_packet4 = []" by (simp add: options4_def sample_packet4_def ipv4_header_len_def slice_def)
  then have "options_text [] (options4 sample_packet4)" by (simp add: options_text_def)
  ultimately show "fragmentable4 sample_packet4 28"
    unfolding fragmentable4_def
    by (intro conjI exI [of _ "[]"]) (simp_all add: sample_packet4_def slice_def u16_from_be_def be_val_def)
qed

theorem ipv4_fragments_reassemble_witness:
  "\<exists>frs. fst (fragment_ip_packet sample_packet4 28 1) = Inr frs \<and>
     reassemble off4 more4 body4 (rev frs) = Some [1, 2, 3, 4, 5, 6, 7, 8, 9, 10, 11, 12]"
proof -
  have "drop 20 sample_packet4 = [1, 2, 3, 4, 5, 6, 7, 8, 9, 10, 11, 12]" by (simp add: sample_packet4_def)
  then show ?thesis using ipv4_fragments_reassemble [of 28 sample_packet4 1] sample_packet4_props
    by (auto split: sum.splits)
qed

section \<open>IPv6 fragments\<close>

text \<open>The insertion point is behind a header that the field before it leads to.\<close>

definition insertion_ok :: "bytes \<Rightarrow> nat \<times> nat \<times> u8 \<Rightarrow> bool" where
  "insertion_ok packet = (\<lambda>(p, field, following). 40 \<le> p \<and> p \<le> length packet \<and> field < p \<and> (field = 6 \<or> 40 \<le> field) \<and> following = packet ! field)"

lemma extension_loop_ok:
  "extension_loop packet kind cursor extensions = Inr (kind', extensions') \<Longrightarrow> 40 \<le> cursor \<Longrightarrow>
   \<forall>x \<in> set extensions. insertion_ok packet (ext_end x, ext_start x, ext_next x) \<Longrightarrow>
   \<forall>x \<in> set extensions'. insertion_ok packet (ext_end x, ext_start x, ext_next x)"
proof (induction "length packet + 8 - cursor" arbitrary: kind cursor extensions rule: less_induct)
  case less
  define len where "len = (unat (packet ! (cursor + 1)) + 1) * 8"
  define x where "x = \<lparr>ext_kind = kind, ext_start = cursor, ext_end = cursor + len, ext_next = packet ! cursor\<rparr>"
  show ?case
  proof (cases "is_extension kind")
    case True
    have run: "cursor + len \<le> length packet" "extension_loop packet (packet ! cursor) (cursor + len) (extensions @ [x]) = Inr (kind', extensions')"
      using True less.prems(1)
      by (subst (asm) extension_loop.simps, simp add: Let_def len_def x_def not_less split: if_splits)+
    have "0 < len" by (simp add: len_def)
    then have "insertion_ok packet (ext_end x, ext_start x, ext_next x)"
      using run(1) less.prems(2) by (simp add: insertion_ok_def x_def)
    then show ?thesis using \<open>0 < len\<close> run(1) less.prems(2,3) by (intro less.hyps [OF _ run(2)]) auto
  qed (use less.prems in \<open>simp add: extension_loop.simps\<close>)
qed

lemma insertion_loop_ok:
  "insertion_ok packet acc \<Longrightarrow> \<forall>x \<in> set extensions. insertion_ok packet (ext_end x, ext_start x, ext_next x) \<Longrightarrow>
   insertion_ok packet (insertion_loop extensions acc)"
  by (induction extensions acc rule: insertion_loop.induct) (simp_all add: Let_def)

lemma insertion_point_ok:
  assumes "ipv6_fragment_insertion_point packet = Inr t" "40 \<le> length packet"
  shows "insertion_ok packet t"
proof -
  obtain kind extensions where e: "extension_loop packet (packet ! 6) 40 [] = Inr (kind, extensions)"
    "t = insertion_loop extensions (40, 6, packet ! 6)"
    using assms(1) by (auto simp: ipv6_fragment_insertion_point_def IPV6_HEADER_def and_then_Inr_iff split: if_splits)
  have "insertion_ok packet (40, 6, packet ! 6)" using assms(2) by (simp add: insertion_ok_def)
  then show ?thesis unfolding e(2) by (rule insertion_loop_ok) (rule extension_loop_ok [OF e(1)], simp_all)
qed

text \<open>
  The reference for the place of the fragment header (RFC 8200, 4.5): a packet is the base header, a chain of extension headers with
  their kinds (hop-by-hop options 0, routing 43, destination options 60), each naming the next and giving its length in units of eight
  bytes, and the rest. The part that every fragment repeats ends with the last routing header, or else with the hop-by-hop header in
  front.
\<close>

definition header_ok :: "bytes \<Rightarrow> bool" where
  "header_ok h \<longleftrightarrow> length h = 8 * (unat (h ! 1) + 1)"

fun linked :: "u8 \<Rightarrow> (u8 \<times> bytes) list \<Rightarrow> u8 \<Rightarrow> bool" where
  "linked first [] upper \<longleftrightarrow> upper = first"
| "linked first ((kind, h) # hs) upper \<longleftrightarrow> kind = first \<and> kind \<in> {0, 43, 60} \<and> header_ok h \<and> linked (h ! 0) hs upper"

definition ipv6_chain :: "bytes \<Rightarrow> (u8 \<times> bytes) list \<Rightarrow> u8 \<Rightarrow> bool" where
  "ipv6_chain packet hs upper \<longleftrightarrow> upper \<notin> {0, 43, 60} \<and>
     (\<exists>base rest. packet = base @ concat (map snd hs) @ rest \<and> length base = 40 \<and> linked (base ! 6) hs upper)"

definition hop_by_hop_first :: "(u8 \<times> bytes) list \<Rightarrow> bool" where
  "hop_by_hop_first hs \<longleftrightarrow> list_all (\<lambda>h. fst h \<noteq> 0) (tl hs)"

definition unfragmentable :: "(u8 \<times> bytes) list \<Rightarrow> (u8 \<times> bytes) list" where
  "unfragmentable hs =
    (if list_ex (\<lambda>h. fst h = 43) hs then rev (dropWhile (\<lambda>h. fst h \<noteq> 43) (rev hs)) else takeWhile (\<lambda>h. fst h = 0) hs)"

definition fragment_at :: "(u8 \<times> bytes) list \<Rightarrow> nat" where
  "fragment_at hs = 40 + length (concat (map snd (unfragmentable hs)))"

definition next_field :: "(u8 \<times> bytes) list \<Rightarrow> nat" where
  "next_field hs = (if unfragmentable hs = [] then 6 else fragment_at hs - length (snd (last (unfragmentable hs))))"

text \<open>The headers as the first loop records them, and what the second keeps of them.\<close>

fun recorded :: "nat \<Rightarrow> (u8 \<times> bytes) list \<Rightarrow> extension list" where
  "recorded start [] = []"
| "recorded start ((kind, h) # hs) =
    \<lparr>ext_kind = kind, ext_start = start, ext_end = start + length h, ext_next = h ! 0\<rparr> # recorded (start + length h) hs"

fun kept :: "(u8 \<times> bytes) list \<Rightarrow> (u8 \<times> bytes) list" where
  "kept [] = []"
| "kept (x # later) =
    (if fst x = 0 \<or> fst x = 43 \<or> (fst x = 60 \<and> list_ex (\<lambda>h. fst h = 43) later) then x # kept later else [])"

lemma extension_loop_reads:
  assumes "upper \<notin> {0, 43, 60}"
  shows "linked first hs upper \<Longrightarrow> extension_loop (before @ concat (map snd hs) @ rest) first (length before) exts =
    Inr (upper, exts @ recorded (length before) hs)"
proof (induction hs arbitrary: first before exts)
  case Nil
  then have "\<not> is_extension first" using assms
    by (auto simp: is_extension_def IPV6_HOP_BY_HOP_def IPV6_ROUTING_def IPV6_DESTINATION_OPTIONS_def)
  then show ?case using Nil by (simp add: extension_loop.simps)
next
  case (Cons x hs)
  obtain kind h where x: "x = (kind, h)" by force
  let ?p = "before @ h @ concat (map snd hs) @ rest"
  have ext: "is_extension first" "length h = 8 * (unat (h ! 1) + 1)" "kind = first" "linked (h ! 0) hs upper"
    using Cons.prems x by (auto simp: is_extension_def IPV6_HOP_BY_HOP_def IPV6_ROUTING_def IPV6_DESTINATION_OPTIONS_def header_ok_def)
  have at: "?p ! (length before + 1) = h ! 1" "?p ! length before = h ! 0" "length before + 2 \<le> length ?p"
    using ext(2) by (simp_all add: nth_append)
  have "extension_loop ?p first (length before) exts = extension_loop ?p (h ! 0) (length before + length h)
      (exts @ [\<lparr>ext_kind = first, ext_start = length before, ext_end = length before + length h, ext_next = h ! 0\<rparr>])"
    by (subst extension_loop.simps) (use ext at in \<open>simp add: Let_def mult.commute\<close>)
  then show ?case using Cons.IH [OF ext(4), of "before @ h"] x ext(3) by simp
qed

lemma insertion_loop_kept:
  "insertion_loop (recorded start hs) acc =
    (if kept hs = [] then acc
     else let e = start + length (concat (map snd (kept hs))) in (e, e - length (snd (last (kept hs))), snd (last (kept hs)) ! 0))"
proof (induction start hs arbitrary: acc rule: recorded.induct)
  case (2 start kind h hs)
  have r: "list_ex (\<lambda>l. ext_kind l = IPV6_ROUTING) (recorded n hs) = list_ex (\<lambda>h. fst h = 43) hs" for n
    by (induction n hs rule: recorded.induct) (simp_all add: IPV6_ROUTING_def)
  show ?case
  proof (cases "kind = 0 \<or> kind = 43 \<or> (kind = 60 \<and> list_ex (\<lambda>h. fst h = 43) hs)")
    case True
    then have "insertion_loop (recorded start ((kind, h) # hs)) acc = insertion_loop (recorded (start + length h) hs) (start + length h, start, h ! 0)"
      by (auto simp: Let_def r [simplified IPV6_ROUTING_def] IPV6_HOP_BY_HOP_def IPV6_ROUTING_def IPV6_DESTINATION_OPTIONS_def)
    then show ?thesis using 2 True by (cases "kept hs = []") (simp_all add: Let_def add.assoc)
  next
    case False
    then show ?thesis by (auto simp: Let_def r [simplified IPV6_ROUTING_def] IPV6_HOP_BY_HOP_def IPV6_ROUTING_def IPV6_DESTINATION_OPTIONS_def)
  qed
qed simp

lemma linked_kinds: "linked first hs upper \<Longrightarrow> h \<in> set hs \<Longrightarrow> fst h \<in> {0, 43, 60}"
  by (induction first hs upper rule: linked.induct) auto

lemma last_routing:
  "rev (dropWhile (\<lambda>h. fst h \<noteq> (43 :: u8)) (rev (x # hs))) =
    (if list_ex (\<lambda>h. fst h = 43) hs then x # rev (dropWhile (\<lambda>h. fst h \<noteq> 43) (rev hs)) else if fst x = 43 then [x] else [])"
  by (auto simp: dropWhile_append list_ex_iff)

lemma kept_without_hop:
  "\<forall>h \<in> set hs. fst h = 43 \<or> fst h = 60 \<Longrightarrow> kept hs = rev (dropWhile (\<lambda>h. fst h \<noteq> 43) (rev hs))"
proof (induction hs)
  case (Cons x hs)
  have "dropWhile (\<lambda>h. fst h \<noteq> 43) (rev hs) = []" if "\<not> list_ex (\<lambda>h. fst h = 43) hs" using that by (auto simp: list_ex_iff)
  then show ?case using Cons unfolding last_routing by auto
qed simp

lemma kept_unfragmentable:
  assumes "\<forall>h \<in> set hs. fst h \<in> {0, 43, 60}" "hop_by_hop_first hs"
  shows "kept hs = unfragmentable hs"
proof (cases hs)
  case (Cons x later)
  have later: "\<forall>h \<in> set later. fst h = 43 \<or> fst h = 60" using assms Cons by (auto simp: hop_by_hop_first_def list_all_iff)
  note k = kept_without_hop [OF this]
  have "dropWhile (\<lambda>h. fst h \<noteq> 43) (rev later) = []" "takeWhile (\<lambda>h. fst h = 0) later = []" if "\<not> list_ex (\<lambda>h. fst h = 43) later"
    using that later by (auto simp: list_ex_iff takeWhile_eq_Nil_iff dest: hd_in_set)
  then show ?thesis using assms(1) k unfolding Cons unfragmentable_def last_routing by auto
qed (simp add: unfragmentable_def)

lemma insertion_point_reads:
  assumes "ipv6_chain packet hs upper" "hop_by_hop_first hs" "upper \<noteq> 44"
  shows "\<exists>following. ipv6_fragment_insertion_point packet = Inr (fragment_at hs, next_field hs, following)"
proof -
  obtain base rest where c: "packet = base @ concat (map snd hs) @ rest" "length base = 40" "linked (base ! 6) hs upper" "upper \<notin> {0, 43, 60}"
    using assms(1) by (auto simp: ipv6_chain_def)
  have "kept hs = unfragmentable hs" using kept_unfragmentable assms(2) linked_kinds [OF c(3)] by blast
  moreover have "extension_loop packet (packet ! 6) 40 [] = Inr (upper, recorded 40 hs)"
    using extension_loop_reads [OF c(4,3), of base rest "[]"] c(1,2) by (simp add: nth_append)
  ultimately show ?thesis using assms(3)
    by (simp add: ipv6_fragment_insertion_point_def IPV6_HEADER_def IPV6_FRAGMENT_def insertion_loop_kept Let_def
        fragment_at_def next_field_def)
qed

lemma insertion_point_fragment:
  assumes "ipv6_chain packet hs 44"
  shows "\<exists>e. ipv6_fragment_insertion_point packet = Inl e"
proof -
  obtain base rest where c: "packet = base @ concat (map snd hs) @ rest" "length base = 40" "linked (base ! 6) hs 44"
    using assms by (auto simp: ipv6_chain_def)
  have "extension_loop packet (packet ! 6) 40 [] = Inr (44, recorded 40 hs)"
    using extension_loop_reads [OF _ c(3), of base rest "[]"] c(1,2) by (simp add: nth_append)
  then show ?thesis by (simp add: ipv6_fragment_insertion_point_def IPV6_HEADER_def IPV6_FRAGMENT_def)
qed

definition flags6 :: "nat \<Rightarrow> bytes \<Rightarrow> nat" where
  "flags6 p f = unat (u16_from_be (slice (p + 2) (p + 4) f))"

definition off6 :: "nat \<Rightarrow> bytes \<Rightarrow> nat" where
  "off6 p f = 8 * (flags6 p f div 8)"

definition more6 :: "nat \<Rightarrow> bytes \<Rightarrow> bool" where
  "more6 p f \<longleftrightarrow> odd (flags6 p f)"

definition body6 :: "nat \<Rightarrow> bytes \<Rightarrow> bytes" where
  "body6 p f = drop (p + 8) f"

text \<open>A correct fragment of a packet: the length fits, the headers in front are those of the packet, the field before the
  insertion point leads to the fragment header, which leads to what came next in the packet.\<close>

definition good6 :: "bytes \<Rightarrow> nat \<Rightarrow> nat \<Rightarrow> nat \<Rightarrow> u32 \<Rightarrow> bytes \<Rightarrow> bool" where
  "good6 packet mtu p field ident f \<longleftrightarrow>
     length f \<le> mtu \<and> unat (u16_from_be (slice 4 6 f)) + 40 = length f \<and>
     (\<forall>i < p. i \<noteq> 4 \<and> i \<noteq> 5 \<and> i \<noteq> field \<longrightarrow> f ! i = packet ! i) \<and> f ! field = 44 \<and>
     f ! p = packet ! field \<and> f ! (p + 1) = 0 \<and> u32_from_be (slice (p + 4) (p + 8) f) = ident"

lemma flag_word6:
  assumes "8 dvd n" "n < 65536"
  shows "unat (of_nat n AND 0xfff8 :: u16) = n" "unat (of_nat n AND 0xfff8 OR 1 :: u16) = n + 1"
proof -
  have n: "unat (of_nat n :: u16) = n" using assms(2) by (rule unat_u16)
  have "unat (take_bit 3 (of_nat n :: u16)) = 0" using assms(1) by (simp only: unsigned_take_bit_eq n) (simp add: take_bit_eq_mod)
  then have low: "\<not> bit (of_nat n :: u16) k" if "k < 3" for k
    using that bit_take_bit_iff [of 3 "of_nat n :: u16" k] by (simp add: unat_eq_zero)
  have m: "(0xfff8 :: u16) = NOT (mask 3)" by (simp add: mask_eq_exp_minus_1)
  have w: "(of_nat n AND 0xfff8 :: u16) = of_nat n"
    unfolding m by (rule bit_eqI) (use low in \<open>auto simp: bit_and_iff bit_not_iff bit_mask_iff\<close>)
  then show "unat (of_nat n AND 0xfff8 :: u16) = n" using n by simp
  have "n + 1 < 65536" using assms by (elim dvdE) simp
  moreover have "even (of_nat n :: u16)" using low [of 0] by (simp add: bit_0)
  ultimately show "unat (of_nat n AND 0xfff8 OR 1 :: u16) = n + 1" unfolding w or_one_eq
    using unat_u16 [of "n + 1"] by (simp add: add.commute)
qed

lemma ipv6_fragment_ok:
  assumes "insertion_ok packet (p, field, following)" "8 dvd offset" "0 < taken" "offset + taken \<le> length fragmentable"
    and "length fragmentable \<le> 65535" "p + 8 + taken \<le> mtu" "mtu < 65576"
  shows "\<exists>f. ipv6_fragment packet p field following ident fragmentable offset taken = Inr f \<and> off6 p f = offset \<and>
    (more6 p f \<longleftrightarrow> offset + taken < length fragmentable) \<and> body6 p f = slice offset (offset + taken) fragmentable \<and>
    good6 packet mtu p field ident f"
proof -
  define more where "more \<longleftrightarrow> offset + taken < length fragmentable"
  define flags where "flags = (if more then of_nat offset AND 0xfff8 OR 1 else of_nat offset AND 0xfff8 :: u16)"
  define front where "front = (take p packet)[field := IPV6_FRAGMENT]"
  define body where "body = slice offset (offset + taken) fragmentable"
  define len where "len = (of_nat (p + 8 + taken - 40) :: u16)"
  define front' where "front' = copy_at 4 (u16_be len) front"
  define f where "f = front' @ [following, 0] @ u16_be flags @ u32_be ident @ body"
  have p: "40 \<le> p" "p \<le> length packet" "field < p" "field = 6 \<or> 40 \<le> field" "following = packet ! field"
    using assms(1) by (simp_all add: insertion_ok_def)
  have lens: "length front = p" "length front' = p" "length body = taken" using p assms(4) by (simp_all add: front_def front'_def body_def)
  have fit: "offset < 65536" "p + 8 + taken - 40 < 65536" using assms by linarith+
  have "ipv6_fragment packet p field following ident fragmentable offset taken = Inr f"
    unfolding ipv6_fragment_def Let_def more_def [symmetric] front_def [symmetric] body_def [symmetric] flags_def [symmetric]
    using lens fit p(1) by (simp add: IPV6_HEADER_def copy_at_left front'_def len_def f_def add.commute)
  moreover have "flags6 p f = offset + of_bool more"
    using lens flag_word6 [OF assms(2) fit(1)] by (simp add: flags6_def f_def slice_append_skip flags_def) (simp add: slice_def)
  then have "off6 p f = offset" "more6 p f \<longleftrightarrow> more" using assms(2) by (auto simp: off6_def more6_def elim!: dvdE)
  moreover have "body6 p f = body" using lens by (simp add: body6_def f_def)
  moreover have "good6 packet mtu p field ident f"
  proof -
    have "slice 4 6 f = u16_be len" using lens p(1) by (simp add: f_def slice_append_left front'_def slice_copy_same)
    moreover have "unat len = p + 8 + taken - 40" unfolding len_def using fit(2) by (rule unat_u16)
    ultimately have len: "unat (u16_from_be (slice 4 6 f)) + 40 = length f" using lens p(1) by (simp add: f_def)
    have nth: "f ! i = (if i = 4 \<or> i = 5 then u16_be len ! (i - 4) else if i = field then IPV6_FRAGMENT else packet ! i)" if "i < p" for i
      using that lens p by (auto simp: f_def nth_append front'_def nth_copy_at front_def)
    have "f ! p = following" "f ! (p + 1) = 0" "u32_from_be (slice (p + 4) (p + 8) f) = ident"
      using lens by (simp_all add: f_def nth_append slice_append_skip) (simp add: slice_def)
    then show ?thesis using len nth p lens assms(6) by (auto simp: good6_def f_def IPV6_FRAGMENT_def)
  qed
  ultimately show ?thesis unfolding body_def more_def by blast
qed

lemma ipv6_loop_ok:
  assumes ctx: "insertion_ok packet (p, field, following)" "length fragmentable \<le> 65535" "p + 8 + capacity \<le> mtu" "mtu < 65576" "align8 capacity \<noteq> 0"
    and "built (off6 p) (more6 p) (body6 p) (good6 packet mtu p field ident) fragmentable offset fragments"
  shows "\<exists>frs. ipv6_loop packet p field following ident fragmentable capacity offset fragments = Inr frs \<and>
    built (off6 p) (more6 p) (body6 p) (good6 packet mtu p field ident) fragmentable (length fragmentable) frs"
  using assms(6)
proof (induction "length fragmentable - offset" arbitrary: offset fragments rule: less_induct)
  case less
  define taken where "taken = (if capacity < length fragmentable - offset then align8 capacity else length fragmentable - offset)"
  have step: "ipv6_loop packet p field following ident fragmentable capacity offset fragments =
    (if length fragmentable \<le> offset \<or> align8 capacity = 0 then Inr fragments
     else case ipv6_fragment packet p field following ident fragmentable offset taken of Inl e \<Rightarrow> Inl e
          | Inr fragment \<Rightarrow> ipv6_loop packet p field following ident fragmentable capacity (offset + taken) (fragments @ [fragment]))"
    by (subst ipv6_loop.simps) (simp only: Let_def taken_def [symmetric])
  show ?case
  proof (cases "offset < length fragmentable")
    case False
    then have "offset = length fragmentable" using less.prems by (simp add: built_def)
    then show ?thesis using less.prems step by simp
  next
    case True
    have t: "taken \<le> capacity" "offset + taken \<le> length fragmentable" "8 dvd taken \<or> offset + taken = length fragmentable" "0 < taken"
      using True align8_props [of capacity] ctx(5) by (auto simp: taken_def)
    obtain f where f: "ipv6_fragment packet p field following ident fragmentable offset taken = Inr f" "off6 p f = offset"
      "more6 p f \<longleftrightarrow> offset + taken < length fragmentable" "body6 p f = slice offset (offset + taken) fragmentable"
      "good6 packet mtu p field ident f"
      using ipv6_fragment_ok [OF ctx(1), of offset taken fragmentable mtu ident] True t ctx less.prems by (auto simp: built_def)
    have "built (off6 p) (more6 p) (body6 p) (good6 packet mtu p field ident) fragmentable (offset + taken) (fragments @ [f])"
      using True t f by (intro built_snoc [OF less.prems]) auto
    moreover have "length fragmentable - (offset + taken) < length fragmentable - offset" using True t(4) by linarith
    ultimately show ?thesis using less.hyps True f(1) step ctx(5) by simp
  qed
qed

text \<open>Packets that can be cut at the insertion point: a correct length, headers that can be read, and room for eight bytes behind
  them and the fragment header.\<close>

definition fragmentable6 :: "bytes \<Rightarrow> nat \<Rightarrow> nat \<Rightarrow> bool" where
  "fragmentable6 packet mtu p \<longleftrightarrow>
     unat (u16_from_be (slice 4 6 packet)) \<noteq> 0 \<and> unat (u16_from_be (slice 4 6 packet)) + 40 = length packet \<and> p + 16 \<le> mtu"

lemma fragment_ipv6_cases:
  assumes "mtu < length packet" "ipv6_fragment_insertion_point packet = Inr (p, field, following)"
  shows "case fragment_ipv6 packet mtu ident of
    (Inl e, ident') \<Rightarrow> \<not> fragmentable6 packet mtu p \<and> ident' = ident
  | (Inr frs, ident') \<Rightarrow> ident' = ident + 1 \<and>
      built (off6 p) (more6 p) (body6 p) (good6 packet mtu p field ident) (drop p packet) (length packet - p) frs"
proof (cases "40 \<le> length packet \<and> unat (u16_from_be (slice 4 6 packet)) \<noteq> 0 \<and>
    unat (u16_from_be (slice 4 6 packet)) + 40 = length packet \<and> p + 8 \<le> mtu \<and> align8 (mtu - (p + 8)) \<noteq> 0")
  case False
  then have "\<exists>e. fragment_ipv6 packet mtu ident = (Inl e, ident)"
    using assms(2) by (auto simp: fragment_ipv6_def IPV6_HEADER_def IPV6_FRAGMENT_HEADER_def Let_def)
  moreover have "\<not> fragmentable6 packet mtu p"
  proof
    assume "fragmentable6 packet mtu p"
    then have "p + 16 \<le> mtu" by (simp add: fragmentable6_def)
    then have "8 \<le> mtu - (p + 8)" "p + 8 \<le> mtu" by linarith+
    then show False using align8_props(3) False \<open>fragmentable6 packet mtu p\<close> by (auto simp: fragmentable6_def)
  qed
  ultimately show ?thesis by auto
next
  case True
  have run: "fragment_ipv6 packet mtu ident = (ipv6_loop packet p field following ident (drop p packet) (mtu - (p + 8)) 0 [], ident + 1)"
    using True assms(2) by (simp add: fragment_ipv6_def IPV6_HEADER_def IPV6_FRAGMENT_HEADER_def Let_def)
  have ok: "insertion_ok packet (p, field, following)" using insertion_point_ok [OF assms(2)] True by simp
  have total: "length packet < 65576" using True unat_bound [of "u16_from_be (slice 4 6 packet)"] by simp
  have start: "built (off6 p) (more6 p) (body6 p) (good6 packet mtu p field ident) (drop p packet) 0 []"
    using True assms(1) by (simp add: built_def)
  have "\<exists>frs. ipv6_loop packet p field following ident (drop p packet) (mtu - (p + 8)) 0 [] = Inr frs \<and>
    built (off6 p) (more6 p) (body6 p) (good6 packet mtu p field ident) (drop p packet) (length (drop p packet)) frs"
    by (rule ipv6_loop_ok [OF ok]) (use ok True total assms(1) start in \<open>auto simp: insertion_ok_def\<close>)
  then show ?thesis using run by auto
qed

text \<open>
  C39: Fragments of an IPv6 packet put the packet together again. When a packet is longer than the MTU and has a readable chain of
  extension headers with the hop-by-hop header in front, either it cannot be cut (it is a fragment already, its length is wrong, or
  the MTU leaves no room for eight bytes), and the counter of identifications stays, or every fragment fits the MTU, has a correct
  length, repeats the part up to the last routing header or the hop-by-hop header, and leads from there to a fragment header with
  the new identification that names what came next; and a receiver that gets the fragments in any order obtains what stands behind
  that part.
\<close>

theorem ipv6_fragments_reassemble:
  assumes "mtu < length packet" "drop_bit 4 (packet ! 0) = 6" "ipv6_chain packet hs upper" "hop_by_hop_first hs" "p = fragment_at hs"
  shows "case fragment_ip_packet packet mtu ident of
    (Inl e, ident') \<Rightarrow> \<not> (upper \<noteq> 44 \<and> fragmentable6 packet mtu p) \<and> ident' = ident
  | (Inr frs, ident') \<Rightarrow> ident' = ident + 1 \<and> (\<forall>f \<in> set frs. good6 packet mtu p (next_field hs) ident f) \<and>
      (\<forall>received. mset received = mset frs \<longrightarrow> reassemble (off6 p) (more6 p) (body6 p) received = Some (drop p packet))"
proof -
  have run: "fragment_ip_packet packet mtu ident = fragment_ipv6 packet mtu ident"
    using assms(1,2) by (auto simp: fragment_ip_packet_def)
  show ?thesis
  proof (cases "upper = 44")
    case True
    then obtain e where "ipv6_fragment_insertion_point packet = Inl e" using insertion_point_fragment assms(3) by blast
    then show ?thesis unfolding run using True by (simp add: fragment_ipv6_def Let_def)
  next
    case False
    obtain following where at: "ipv6_fragment_insertion_point packet = Inr (p, next_field hs, following)"
      using insertion_point_reads [OF assms(3,4) False] assms(5) by blast
    have "(\<forall>f \<in> set frs. good6 packet mtu p (next_field hs) ident f) \<and>
        (\<forall>received. mset received = mset frs \<longrightarrow> reassemble (off6 p) (more6 p) (body6 p) received = Some (drop p packet))"
      if "built (off6 p) (more6 p) (body6 p) (good6 packet mtu p (next_field hs) ident) (drop p packet) (length packet - p) frs" for frs
      using that reassemble_any_order [of "off6 p" "more6 p" "body6 p" frs] by (auto simp: built_def)
    then show ?thesis unfolding run using fragment_ipv6_cases [OF assms(1) at, of ident] by (auto split: prod.splits sum.splits)
  qed
qed

definition sample_packet6 :: bytes where
  "sample_packet6 = [0x60, 0, 0, 0, 0, 44, 0, 64] @ replicate 32 1 @ (60 # 0 # replicate 6 1) @ (43 # 0 # replicate 6 1) @
     (17 # 0 # replicate 6 1) @ replicate 20 2"

definition sample_headers6 :: "(u8 \<times> bytes) list" where
  "sample_headers6 = [(0, 60 # 0 # replicate 6 1), (60, 43 # 0 # replicate 6 1), (43, 17 # 0 # replicate 6 1)]"

lemma sample_chain6: "ipv6_chain sample_packet6 sample_headers6 17" "hop_by_hop_first sample_headers6" "fragment_at sample_headers6 = 64"
proof -
  show "ipv6_chain sample_packet6 sample_headers6 17" unfolding ipv6_chain_def
    by (intro conjI exI [of _ "take 40 sample_packet6"] exI [of _ "replicate 20 2"])
      (simp_all add: sample_packet6_def sample_headers6_def header_ok_def)
  show "hop_by_hop_first sample_headers6" "fragment_at sample_headers6 = 64"
    by (simp_all add: sample_headers6_def hop_by_hop_first_def fragment_at_def unfragmentable_def)
qed

theorem ipv6_fragments_reassemble_witness:
  "\<exists>frs. fragment_ip_packet sample_packet6 80 7 = (Inr frs, 8) \<and>
     reassemble (off6 64) (more6 64) (body6 64) (rev frs) = Some (replicate 20 2)"
proof -
  have s: "length sample_packet6 = 84" "drop_bit 4 (sample_packet6 ! 0) = 6" "drop 64 sample_packet6 = replicate 20 2"
    "fragmentable6 sample_packet6 80 64"
    by (simp_all add: sample_packet6_def fragmentable6_def slice_def u16_from_be_def be_val_def)
  then show ?thesis using ipv6_fragments_reassemble [OF _ s(2) sample_chain6(1,2) sample_chain6(3) [symmetric], of 80 7]
    by (auto split: prod.splits sum.splits)
qed

end
