(* ===== verification/Singleflight.thy ===== *)
theory Singleflight
  imports WC_Prelude
begin

text \<open>
  Coalescing of concurrent DNS queries (\<open>core-resolver/src/singleflight.rs\<close>). A flight is the broadcast channel shared by the task
  that runs the query and the tasks that wait for it; the map leads from a key to the flight in progress.

  The steps are the stretches of \<open>do_once\<close> between two points at which other tasks can run. A look-up in the map and the subscription
  behind it happen under the lock of the map entry. A receiver sees a message only when it was created before the message was sent,
  and an error when the channel is closed without one. A running query or a waiting task can be dropped at its \<open>await\<close>; the guard then
  removes the map entry and the last sender goes.
\<close>

section \<open>State\<close>

text \<open>A waiting task keeps whether its receiver was created after the message.\<close>

datatype ('k, 'r) task =
    Idle
  | Racing 'k
  | Running 'k nat
  | Sent 'k nat 'r
  | Waiting 'k nat bool
  | Returned 'k 'r
  | Failed 'k nat bool
  | Dropped

record ('k, 't, 'r) flights =
  sf_map :: "'k \<rightharpoonup> nat"
  sf_message :: "nat \<Rightarrow> 'r option"
  sf_closed :: "nat \<Rightarrow> bool"
  sf_key :: "nat \<Rightarrow> 'k option"
  sf_next :: nat
  sf_tasks :: "'t \<Rightarrow> ('k, 'r) task"

definition sf_new :: "('k, 't, 'r) flights" where
  "sf_new = \<lparr>sf_map = Map.empty, sf_message = (\<lambda>_. None), sf_closed = (\<lambda>_. False), sf_key = (\<lambda>_. None), sf_next = 0, sf_tasks = (\<lambda>_. Idle)\<rparr>"

definition set_task :: "'t \<Rightarrow> ('k, 'r) task \<Rightarrow> ('k, 't, 'r) flights \<Rightarrow> ('k, 't, 'r) flights" where
  "set_task t p s = s\<lparr>sf_tasks := (sf_tasks s)(t := p)\<rparr>"

definition subscribe :: "'t \<Rightarrow> 'k \<Rightarrow> nat \<Rightarrow> ('k, 't, 'r) flights \<Rightarrow> ('k, 't, 'r) flights" where
  "subscribe t k fl s = set_task t (Waiting k fl (sf_message s fl \<noteq> None)) s"

section \<open>The stretches of \<open>do_once\<close>\<close>

text \<open>The fast path.\<close>

definition sf_call :: "'t \<Rightarrow> 'k \<Rightarrow> ('k, 't, 'r) flights \<Rightarrow> ('k, 't, 'r) flights" where
  "sf_call t k s = (case sf_map s k of Some fl \<Rightarrow> subscribe t k fl s | None \<Rightarrow> set_task t (Racing k) s)"

text \<open>A new channel, and \<open>or_insert\<close>: the task runs the query, or has lost the race.\<close>

definition sf_enter :: "'t \<Rightarrow> 'k \<Rightarrow> ('k, 't, 'r) flights \<Rightarrow> ('k, 't, 'r) flights" where
  "sf_enter t k s =
    (case sf_map s k of
       Some fl \<Rightarrow> subscribe t k fl s
     | None \<Rightarrow> set_task t (Running k (sf_next s))
         (s\<lparr>sf_map := (sf_map s)(k \<mapsto> sf_next s), sf_key := (sf_key s)(sf_next s := Some k), sf_next := sf_next s + 1\<rparr>))"

text \<open>The query has returned; the result is sent to the receivers there are.\<close>

definition sf_send :: "'t \<Rightarrow> 'k \<Rightarrow> nat \<Rightarrow> 'r \<Rightarrow> ('k, 't, 'r) flights \<Rightarrow> ('k, 't, 'r) flights" where
  "sf_send t k fl r s = set_task t (Sent k fl r) (s\<lparr>sf_message := (sf_message s)(fl := Some r)\<rparr>)"

text \<open>\<open>FlightGuard::drop\<close> removes the entry by its key, and the senders go.\<close>

definition guard_drop :: "'k \<Rightarrow> nat \<Rightarrow> ('k, 't, 'r) flights \<Rightarrow> ('k, 't, 'r) flights" where
  "guard_drop k fl s = s\<lparr>sf_map := (sf_map s)(k := None), sf_closed := (sf_closed s)(fl := True)\<rparr>"

definition sf_return :: "'t \<Rightarrow> 'k \<Rightarrow> nat \<Rightarrow> 'r \<Rightarrow> ('k, 't, 'r) flights \<Rightarrow> ('k, 't, 'r) flights" where
  "sf_return t k fl r s = set_task t (Returned k r) (guard_drop k fl s)"

text \<open>\<open>rx.recv().await\<close>: nothing as long as there is neither a message for the receiver nor an end of the channel.\<close>

definition sf_recv :: "'t \<Rightarrow> 'k \<Rightarrow> nat \<Rightarrow> bool \<Rightarrow> ('k, 't, 'r) flights \<Rightarrow> ('k, 't, 'r) flights option" where
  "sf_recv t k fl late s =
    (case (late, sf_message s fl) of
       (False, Some r) \<Rightarrow> Some (set_task t (Returned k r) s)
     | _ \<Rightarrow> if sf_closed s fl then Some (set_task t (Failed k fl late) s) else None)"

inductive sf_step :: "('k, 't, 'r) flights \<Rightarrow> ('k, 't, 'r) flights \<Rightarrow> bool" where
  Call: "sf_tasks s t = Idle \<Longrightarrow> sf_step s (sf_call t k s)"
| Enter: "sf_tasks s t = Racing k \<Longrightarrow> sf_step s (sf_enter t k s)"
| Send: "sf_tasks s t = Running k fl \<Longrightarrow> sf_step s (sf_send t k fl r s)"
| Return: "sf_tasks s t = Sent k fl r \<Longrightarrow> sf_step s (sf_return t k fl r s)"
| Recv: "sf_tasks s t = Waiting k fl late \<Longrightarrow> sf_recv t k fl late s = Some s' \<Longrightarrow> sf_step s s'"
| DropRunning: "sf_tasks s t = Running k fl \<Longrightarrow> sf_step s (set_task t Dropped (guard_drop k fl s))"
| DropWaiting: "sf_tasks s t = Waiting k fl late \<Longrightarrow> sf_step s (set_task t Dropped s)"

inductive_cases sf_step_cases: "sf_step s s'"

section \<open>The invariant\<close>

fun owned :: "('k, 'r) task \<Rightarrow> ('k \<times> nat) option" where
  "owned (Running k fl) = Some (k, fl)"
| "owned (Sent k fl r) = Some (k, fl)"
| "owned _ = None"

text \<open>What a task knows of its flight.\<close>

fun task_ok :: "('k, 't, 'r) flights \<Rightarrow> ('k, 'r) task \<Rightarrow> bool" where
  "task_ok s (Running k fl) \<longleftrightarrow> sf_key s fl = Some k \<and> \<not> sf_closed s fl \<and> sf_message s fl = None"
| "task_ok s (Sent k fl r) \<longleftrightarrow> sf_key s fl = Some k \<and> \<not> sf_closed s fl \<and> sf_message s fl = Some r"
| "task_ok s (Waiting k fl late) \<longleftrightarrow> sf_key s fl = Some k \<and> (late \<longrightarrow> sf_message s fl \<noteq> None)"
| "task_ok s (Returned k r) \<longleftrightarrow> (\<exists>fl. sf_key s fl = Some k \<and> sf_message s fl = Some r)"
| "task_ok s (Failed k fl late) \<longleftrightarrow> sf_key s fl = Some k \<and> sf_closed s fl \<and> (late \<longleftrightarrow> sf_message s fl \<noteq> None)"
| "task_ok s _ \<longleftrightarrow> True"

text \<open>The map holds exactly the flights with an owner, each with one; flights are numbered below the counter, and one without an owner
  is closed.\<close>

definition sf_inv :: "('k, 't, 'r) flights \<Rightarrow> bool" where
  "sf_inv s \<longleftrightarrow>
    (\<forall>k fl. sf_map s k = Some fl \<longleftrightarrow> (\<exists>t. owned (sf_tasks s t) = Some (k, fl))) \<and>
    (\<forall>t t' k k' fl. owned (sf_tasks s t) = Some (k, fl) \<longrightarrow> owned (sf_tasks s t') = Some (k', fl) \<longrightarrow> t = t') \<and>
    (\<forall>fl. sf_key s fl \<noteq> None \<longleftrightarrow> fl < sf_next s) \<and>
    (\<forall>fl. sf_next s \<le> fl \<longrightarrow> sf_message s fl = None \<and> \<not> sf_closed s fl) \<and>
    (\<forall>fl k. sf_key s fl = Some k \<longrightarrow> sf_closed s fl \<or> (\<exists>t. owned (sf_tasks s t) = Some (k, fl))) \<and>
    (\<forall>t. task_ok s (sf_tasks s t))"

lemma sf_inv_new: "sf_inv sf_new"
  by (simp add: sf_inv_def sf_new_def)

lemma set_task_simps [simp]:
  "sf_map (set_task t p s) = sf_map s" "sf_message (set_task t p s) = sf_message s" "sf_closed (set_task t p s) = sf_closed s"
  "sf_key (set_task t p s) = sf_key s" "sf_next (set_task t p s) = sf_next s" "sf_tasks (set_task t p s) = (sf_tasks s)(t := p)"
  by (simp_all add: set_task_def)

lemma task_ok_cong:
  "sf_key s' = sf_key s \<Longrightarrow> sf_closed s' = sf_closed s \<Longrightarrow> sf_message s' = sf_message s \<Longrightarrow> task_ok s' p = task_ok s p"
  by (cases p) simp_all

lemma owned_flight: "task_ok s p \<Longrightarrow> owned p = Some (k, fl) \<Longrightarrow> sf_key s fl = Some k \<and> \<not> sf_closed s fl"
  by (cases p) auto

lemma inv_passive:
  assumes "sf_inv s" "owned (sf_tasks s t) = None" "owned p = None" "task_ok s p"
  shows "sf_inv (set_task t p s)"
proof -
  have own: "owned (((sf_tasks s)(t := p)) u) = owned (sf_tasks s u)" for u using assms(2,3) by simp
  have ok: "task_ok (set_task t p s) q = task_ok s q" for q by (rule task_ok_cong) simp_all
  have "task_ok (set_task t p s) (((sf_tasks s)(t := p)) u)" for u unfolding ok using assms(1,4) by (simp add: sf_inv_def)
  then show ?thesis using assms(1) unfolding sf_inv_def set_task_simps own by blast
qed

lemma inv_enter:
  assumes "sf_inv s" "owned (sf_tasks s t) = None" "sf_map s k = None"
  shows "sf_inv (set_task t (Running k (sf_next s))
    (s\<lparr>sf_map := (sf_map s)(k \<mapsto> sf_next s), sf_key := (sf_key s)(sf_next s := Some k), sf_next := sf_next s + 1\<rparr>))"
    (is "sf_inv ?s")
proof -
  let ?n = "sf_next s"
  note I = assms(1) [unfolded sf_inv_def]
  have fresh: "sf_key s ?n = None" "sf_message s ?n = None" "\<not> sf_closed s ?n" using I by auto
  have below: "fl \<noteq> ?n" if "owned (sf_tasks s u) = Some (k', fl)" for u k' fl
    using owned_flight [OF _ that, of s] I fresh(1) by auto
  have old: "task_ok ?s p" if "task_ok s p" for p
    using that fresh by (cases p) (auto, metis option.simps(3))
  have own: "owned (sf_tasks ?s u) = (if u = t then Some (k, ?n) else owned (sf_tasks s u))" for u by simp
  have "\<forall>k' fl. sf_map ?s k' = Some fl \<longleftrightarrow> (\<exists>u. owned (sf_tasks ?s u) = Some (k', fl))"
    unfolding own using I assms(2,3) by (auto simp: fun_upd_def) (metis option.simps(3))+
  moreover have "\<forall>u u' k1 k2 fl. owned (sf_tasks ?s u) = Some (k1, fl) \<longrightarrow> owned (sf_tasks ?s u') = Some (k2, fl) \<longrightarrow> u = u'"
    unfolding own using I below by (auto split: if_splits)
  moreover have "\<forall>fl. sf_key ?s fl \<noteq> None \<longleftrightarrow> fl < sf_next ?s" using I by (auto simp: less_Suc_eq)
  moreover have "\<forall>fl. sf_next ?s \<le> fl \<longrightarrow> sf_message ?s fl = None \<and> \<not> sf_closed ?s fl" using I by simp
  moreover have "\<forall>fl k'. sf_key ?s fl = Some k' \<longrightarrow> sf_closed ?s fl \<or> (\<exists>u. owned (sf_tasks ?s u) = Some (k', fl))"
    unfolding own using I assms(2) by (auto split: if_splits) (metis option.simps(3))+
  moreover have "\<forall>u. task_ok ?s (sf_tasks ?s u)" using I old fresh by simp
  ultimately show ?thesis unfolding sf_inv_def by blast
qed

lemma inv_send:
  assumes "sf_inv s" "sf_tasks s t = Running k fl"
  shows "sf_inv (sf_send t k fl r s)" (is "sf_inv ?s")
proof -
  note I = assms(1) [unfolded sf_inv_def]
  have fl: "sf_key s fl = Some k" "\<not> sf_closed s fl" "sf_message s fl = None" using I assms(2) by (metis task_ok.simps(1))+
  have own: "owned (sf_tasks ?s u) = owned (sf_tasks s u)" for u using assms(2) by (simp add: sf_send_def)
  have only: "u = t" if "owned (sf_tasks s u) = Some (k', fl)" for u k'
    using I that assms(2) by (metis owned.simps(1))
  have ok: "task_ok ?s (sf_tasks s u)" if "u \<noteq> t" for u
  proof -
    have "task_ok s (sf_tasks s u)" using I by blast
    then show ?thesis using only [of u] that fl(2,3) by (cases "sf_tasks s u") (auto simp: sf_send_def)
  qed
  moreover have "task_ok ?s (sf_tasks ?s t)" using fl by (simp add: sf_send_def)
  ultimately have "\<forall>u. task_ok ?s (sf_tasks ?s u)" by (simp add: sf_send_def)
  moreover have "sf_map ?s = sf_map s" "sf_key ?s = sf_key s" "sf_next ?s = sf_next s" "sf_closed ?s = sf_closed s" by (simp_all add: sf_send_def)
  moreover have "fl < sf_next s" using I fl(1) by (metis option.distinct(1))
  then have "\<forall>f. sf_next s \<le> f \<longrightarrow> sf_message ?s f = None" using I by (auto simp: sf_send_def)
  ultimately show ?thesis using I unfolding sf_inv_def own by simp
qed

lemma inv_drop:
  assumes "sf_inv s" "owned (sf_tasks s t) = Some (k, fl)" "owned p = None" "task_ok s p" "\<nexists>k fl late. p = Failed k fl late"
  shows "sf_inv (set_task t p (guard_drop k fl s))" (is "sf_inv ?s")
proof -
  note I = assms(1) [unfolded sf_inv_def]
  have own: "owned (sf_tasks ?s u) = (if u = t then None else owned (sf_tasks s u))" for u using assms(3) by (simp add: guard_drop_def)
  have only: "u = t" if "owned (sf_tasks s u) = Some (k', fl)" for u k' using I that assms(2) by blast
  have at: "sf_map s k = Some fl" using I assms(2) by blast
  have same_key: "f = fl" if "owned (sf_tasks s u) = Some (k, f)" for u f using I that at by (metis option.inject)
  have ok: "task_ok ?s q" if "task_ok s q" "\<nexists>k'. owned q = Some (k', fl)" for q
    using that by (cases q) (auto simp: guard_drop_def)
  have "task_ok ?s (sf_tasks ?s u)" for u
  proof (cases "u = t")
    case False
    then show ?thesis using ok [of "sf_tasks s u"] only [of u] I by (auto simp: guard_drop_def)
  qed (use ok [of p] assms(3,4) in simp)
  moreover have "sf_map ?s k' = Some f \<longleftrightarrow> (\<exists>u. owned (sf_tasks ?s u) = Some (k', f))" for k' f
  proof -
    have "(\<exists>u. u \<noteq> t \<and> owned (sf_tasks s u) = Some (k', f)) \<longleftrightarrow> k' \<noteq> k \<and> sf_map s k' = Some f"
      using I assms(2) same_key only by (metis (no_types, lifting) option.inject prod.inject)
    then show ?thesis unfolding own by (auto simp: guard_drop_def)
  qed
  moreover have "\<forall>f k'. sf_key ?s f = Some k' \<longrightarrow> sf_closed ?s f \<or> (\<exists>u. owned (sf_tasks ?s u) = Some (k', f))"
    unfolding own using I assms(2) by (auto simp: guard_drop_def) (metis option.inject prod.inject)
  moreover have "\<forall>f. sf_next ?s \<le> f \<longrightarrow> sf_message ?s f = None \<and> \<not> sf_closed ?s f"
  proof -
    have "sf_key s fl = Some k" using owned_flight [OF _ assms(2)] I by blast
    then have "fl < sf_next s" using I by auto
    then show ?thesis using I by (auto simp: guard_drop_def)
  qed
  moreover have "\<forall>u u' k1 k2 f. owned (sf_tasks ?s u) = Some (k1, f) \<longrightarrow> owned (sf_tasks ?s u') = Some (k2, f) \<longrightarrow> u = u'"
    unfolding own using I by (auto split: if_splits)
  moreover have "\<forall>f. sf_key ?s f \<noteq> None \<longleftrightarrow> f < sf_next ?s" using I by (simp add: guard_drop_def)
  ultimately show ?thesis unfolding sf_inv_def by blast
qed

lemma inv_subscribe:
  assumes "sf_inv s" "owned (sf_tasks s t) = None" "sf_map s k = Some fl"
  shows "sf_inv (subscribe t k fl s)"
proof -
  obtain u where u: "owned (sf_tasks s u) = Some (k, fl)" using assms(1,3) unfolding sf_inv_def by blast
  have "task_ok s (sf_tasks s u)" using assms(1) by (simp add: sf_inv_def)
  from owned_flight [OF this u] show ?thesis unfolding subscribe_def
    by (intro inv_passive [OF assms(1,2)]) simp_all
qed

lemma sf_inv_step:
  assumes "sf_step s s'" "sf_inv s"
  shows "sf_inv s'"
  using assms(1)
proof (cases rule: sf_step.cases)
  case (Call t k)
  then show ?thesis using inv_subscribe [OF assms(2), of t k] inv_passive [OF assms(2), of t "Racing k"]
    by (auto simp: sf_call_def split: option.split)
next
  case (Enter t k)
  then show ?thesis using inv_subscribe [OF assms(2), of t k] inv_enter [OF assms(2), of t k]
    by (auto simp: sf_enter_def split: option.split)
next
  case (Send t k fl r)
  then show ?thesis using inv_send [OF assms(2)] by simp
next
  case (Return t k fl r)
  have "task_ok s (sf_tasks s t)" using assms(2) by (simp add: sf_inv_def)
  then show ?thesis using Return inv_drop [OF assms(2), of t k fl "Returned k r"] by (auto simp: sf_return_def)
next
  case (Recv t k fl late)
  have "task_ok s (sf_tasks s t)" using assms(2) by (simp add: sf_inv_def)
  then have w: "sf_key s fl = Some k" "late \<longrightarrow> sf_message s fl \<noteq> None" using Recv(1) by simp_all
  have "\<exists>p. s' = set_task t p s \<and> owned p = None \<and> task_ok s p"
  proof (cases "\<not> late \<and> sf_message s fl \<noteq> None")
    case True
    then obtain r where "sf_message s fl = Some r" by blast
    then show ?thesis using Recv(2) w True by (intro exI [of _ "Returned k r"]) (auto simp: sf_recv_def)
  next
    case False
    then show ?thesis using Recv(2) w
      by (intro exI [of _ "Failed k fl late"]) (cases late; auto simp: sf_recv_def split: if_splits option.splits)
  qed
  then show ?thesis using inv_passive [OF assms(2), of t] Recv(1) by auto
next
  case (DropRunning t k fl)
  then show ?thesis using inv_drop [OF assms(2), of t k fl Dropped] by simp
next
  case (DropWaiting t k fl late)
  then show ?thesis using inv_passive [OF assms(2), of t Dropped] by simp
qed

lemma sf_inv_run: "sf_step\<^sup>*\<^sup>* sf_new s \<Longrightarrow> sf_inv s"
  by (induction rule: rtranclp_induct) (auto simp: sf_inv_new intro: sf_inv_step)

text \<open>
  C29: Concurrent queries are coalesced. In every reachable state at most one task runs the query of a key; a task that returns has the
  result of a query that was run for its key; a task fails only when the query was dropped or when it came between the
  sending of the result and the removal of the flight; and a task that waits can go on as soon as nobody runs its flight.
\<close>

theorem queries_coalesced:
  assumes "sf_step\<^sup>*\<^sup>* sf_new s"
  shows "(\<forall>t t' k fl fl'. owned (sf_tasks s t) = Some (k, fl) \<longrightarrow> owned (sf_tasks s t') = Some (k, fl') \<longrightarrow> t = t') \<and>
    (\<forall>t k r. sf_tasks s t = Returned k r \<longrightarrow> (\<exists>fl. sf_key s fl = Some k \<and> sf_message s fl = Some r)) \<and>
    (\<forall>t k fl late. sf_tasks s t = Failed k fl late \<longrightarrow> late \<or> sf_closed s fl \<and> sf_message s fl = None) \<and>
    (\<forall>t k fl late. sf_tasks s t = Waiting k fl late \<longrightarrow>
       (\<exists>u. owned (sf_tasks s u) = Some (k, fl)) \<or> sf_recv t k fl late s \<noteq> None)"
proof -
  have inv: "sf_inv s" using assms by (rule sf_inv_run)
  note I = inv [unfolded sf_inv_def]
  have ok: "task_ok s (sf_tasks s t)" for t using I by blast
  have "t = t'" if "owned (sf_tasks s t) = Some (k, fl)" "owned (sf_tasks s t') = Some (k, fl')" for t t' k fl fl'
  proof -
    have "sf_map s k = Some fl" "sf_map s k = Some fl'" using I that by blast+
    then show ?thesis using I that by simp
  qed
  moreover have "sf_recv t k fl late s \<noteq> None"
    if "sf_tasks s t = Waiting k fl late" "\<nexists>u. owned (sf_tasks s u) = Some (k, fl)" for t k fl late
  proof -
    have "sf_key s fl = Some k" using ok [of t] that(1) by simp
    then have "sf_closed s fl" using I that(2) by blast
    then show ?thesis by (simp add: sf_recv_def split: option.split bool.split)
  qed
  moreover have "\<exists>fl. sf_key s fl = Some k \<and> sf_message s fl = Some r" if "sf_tasks s t = Returned k r" for t k r
    using ok [of t] that by simp
  moreover have "late \<or> sf_closed s fl \<and> sf_message s fl = None" if "sf_tasks s t = Failed k fl late" for t k fl late
    using ok [of t] that by auto
  ultimately show ?thesis by blast
qed

text \<open>A task that asks between the sending and the removal, step by step.\<close>

definition race :: "nat \<Rightarrow> (string, nat, nat) flights" where
  "race n = foldl (\<lambda>s f. f s) sf_new (take n
     [sf_call 0 ''a'', sf_enter 0 ''a'', sf_send 0 ''a'' 0 7, sf_call 1 ''a'', sf_return 0 ''a'' 0 7, (\<lambda>s. the (sf_recv 1 ''a'' 0 True s))])"

lemmas race_defs = race_def sf_new_def sf_call_def sf_enter_def sf_send_def sf_return_def sf_recv_def subscribe_def set_task_def guard_drop_def

lemma race_run: "n \<le> 6 \<Longrightarrow> sf_step\<^sup>*\<^sup>* sf_new (race n)"
proof (induction n)
  case (Suc n)
  then have "n \<in> {0, 1, 2, 3, 4, 5}" by auto
  then have "sf_step (race n) (race (Suc n))"
  proof (elim insertE)
    assume n: "n = 0"
    show ?thesis using Call [of "race n" 0 "''a''"] unfolding n by (simp add: race_defs)
  next
    assume n: "n = 1"
    show ?thesis using Enter [of "race n" 0 "''a''"] unfolding n by (simp add: race_defs)
  next
    assume n: "n = 2"
    show ?thesis using Send [of "race n" 0 "''a''" 0 7] unfolding n by (simp add: race_defs)
  next
    assume n: "n = 3"
    show ?thesis using Call [of "race n" 1 "''a''"] unfolding n by (simp add: race_defs)
  next
    assume n: "n = 4"
    show ?thesis using Return [of "race n" 0 "''a''" 0 7] unfolding n by (simp add: race_defs)
  next
    assume n: "n = 5"
    show ?thesis using Recv [of "race n" 1 "''a''" 0 True "race (Suc n)"] unfolding n by (simp add: race_defs)
  qed simp
  then show ?case using Suc by (meson Suc_leD rtranclp.rtrancl_into_rtrancl)
qed (simp add: race_def)

text \<open>The query has succeeded and no task was dropped; the task that came late gets an error all the same.\<close>

lemma late_task_fails_after_success:
  "sf_step\<^sup>*\<^sup>* sf_new (race 6) \<and> sf_tasks (race 6) 0 = Returned ''a'' 7 \<and> sf_tasks (race 6) 1 = Failed ''a'' 0 True \<and>
   (\<forall>t. sf_tasks (race 6) t \<noteq> Dropped)"
  using race_run [of 6] by (simp add: race_defs)

theorem queries_coalesced_witness:
  "sf_tasks (race 6) 0 = Returned ''a'' 7 \<and> (\<exists>fl. sf_key (race 6) fl = Some ''a'' \<and> sf_message (race 6) fl = Some 7)"
proof -
  have "sf_tasks (race 6) 0 = Returned ''a'' 7" by (simp add: race_defs)
  then show ?thesis using queries_coalesced [OF race_run [of 6]] by simp
qed

end
