(* ===== verification/Dns_Packet.thy ===== *)
theory Dns_Packet
  imports Std_Str
begin

unbundle bit_operations_syntax

text \<open>
  DNS packets as the hijacking paths handle them (\<open>core-resolver/src/packet.rs\<close>): the first question of a request, and responses made
  from the request by setting the header and appending answers. The encoder of whole records belongs to the crate \<open>hickory\<close> and is a
  parameter: what it writes for a record, or nothing when it fails.
\<close>

section \<open>Operations\<close>

definition TYPE_A :: u16 where "TYPE_A = 1"
definition TYPE_AAAA :: u16 where "TYPE_AAAA = 28"
definition TYPE_SVCB :: u16 where "TYPE_SVCB = 64"
definition TYPE_HTTPS :: u16 where "TYPE_HTTPS = 65"
definition CLASS_IN :: u16 where "CLASS_IN = 1"

record dns_question =
  dq_name :: string
  dq_qtype :: u16
  dq_qclass :: u16
  dq_end :: nat

text \<open>The loop of \<open>read_name\<close>, with the rounds that are left, the labels so far and the end behind the first pointer.\<close>

fun read_name_loop :: "nat \<Rightarrow> bytes \<Rightarrow> nat \<Rightarrow> string list \<Rightarrow> nat option \<Rightarrow> (string \<times> nat) option" where
  "read_name_loop 0 pkt i labels end_after_pointer = None"
| "read_name_loop (Suc n) pkt i labels end_after_pointer =
    (if length pkt \<le> i then None
     else
       (let len = pkt ! i
        in if len AND 0xC0 = 0xC0 then
             (if length pkt \<le> i + 1 then None
              else
                (let ptr = unat (len AND 0x3F) * 256 + unat (pkt ! (i + 1))
                 in if length pkt \<le> ptr then None
                    else read_name_loop n pkt ptr labels (case end_after_pointer of None \<Rightarrow> Some (i + 2) | Some e \<Rightarrow> Some e)))
           else if len AND 0xC0 \<noteq> 0 then None
           else if len = 0 then
             Some (join_with ''.'' labels, case end_after_pointer of Some e \<Rightarrow> e | None \<Rightarrow> i + 1)
           else
             (let next = i + 1 + unat len
              in if length pkt < next then None
                 else case from_utf8 (slice (i + 1) next pkt) of
                     None \<Rightarrow> None
                   | Some label \<Rightarrow> read_name_loop n pkt next (labels @ [to_ascii_lowercase label]) end_after_pointer)))"

definition read_name :: "bytes \<Rightarrow> nat \<Rightarrow> (string \<times> nat) option" where
  "read_name pkt start = read_name_loop 128 pkt start [] None"

definition parse_first_question :: "bytes \<Rightarrow> dns_question option" where
  "parse_first_question pkt =
    (if length pkt < 12 then None
     else if u16_from_be (slice 4 6 pkt) = 0 then None
     else case read_name pkt 12 of
         None \<Rightarrow> None
       | Some (name, name_end) \<Rightarrow>
           if length pkt < name_end + 4 then None
           else Some \<lparr>dq_name = name, dq_qtype = u16_from_be (slice name_end (name_end + 2) pkt),
             dq_qclass = u16_from_be (slice (name_end + 2) (name_end + 4) pkt), dq_end = name_end + 4\<rparr>)"

definition set_response_header :: "u16 \<Rightarrow> u16 \<Rightarrow> bytes \<Rightarrow> bytes" where
  "set_response_header question_count answer_count resp =
    (if length resp < 12 then resp
     else take 2 resp @ [0x80 OR (resp ! 2 AND 1), 0x80] @ u16_be question_count @ u16_be answer_count @ u16_be 0 @ u16_be 0 @ drop 12 resp)"

definition build_empty_response :: "bytes \<Rightarrow> dns_question option \<Rightarrow> bytes" where
  "build_empty_response req question =
    (if length req < 12 then []
     else
       (let end_at = (case question of Some q \<Rightarrow> min (dq_end q) (length req) | None \<Rightarrow> length req);
            qdcount = (if question \<noteq> None then 1 else u16_from_be (slice 4 6 req))
        in set_response_header qdcount 0 (take end_at req)))"

definition ip_matches_qtype :: "ip_addr \<Rightarrow> u16 \<Rightarrow> bool" where
  "ip_matches_qtype ip qtype = (case ip of V4 _ \<Rightarrow> qtype = TYPE_A | V6 _ \<Rightarrow> qtype = TYPE_AAAA)"

definition answer_bytes :: "u32 \<Rightarrow> ip_addr \<Rightarrow> bytes" where
  "answer_bytes ttl_secs ip =
     [0xC0, 0x0C] @
     (case ip of
        V4 a \<Rightarrow> u16_be TYPE_A @ u16_be CLASS_IN @ u32_be ttl_secs @ u16_be 4 @ octets4 a
      | V6 a \<Rightarrow> u16_be TYPE_AAAA @ u16_be CLASS_IN @ u32_be ttl_secs @ u16_be 16 @ octets6 a)"

definition build_ip_response :: "bytes \<Rightarrow> dns_question \<Rightarrow> ip_addr list \<Rightarrow> u32 \<Rightarrow> bytes" where
  "build_ip_response req question ips ttl_secs =
    (if length req < 12 then []
     else
       (let answers = filter (\<lambda>ip. ip_matches_qtype ip (dq_qtype question)) ips
        in if answers = [] then build_empty_response req (Some question)
           else set_response_header 1 (of_nat (length answers)) (take (min (dq_end question) (length req)) req) @
             concat (map (answer_bytes ttl_secs) answers)))"

definition build_record_response :: "('r \<Rightarrow> bytes option) \<Rightarrow> bytes \<Rightarrow> dns_question \<Rightarrow> 'r list \<Rightarrow> bytes" where
  "build_record_response emit req question records =
    (if length req < 12 then []
     else
       (let (encoded, answer_count) = fold (\<lambda>record (e, n).
              case emit record of Some one \<Rightarrow> (e @ one, saturating_add n 1) | None \<Rightarrow> (e, n)) records ([], 0 :: u16)
        in if answer_count = 0 then build_empty_response req (Some question)
           else set_response_header 1 answer_count (take (min (dq_end question) (length req)) req) @ encoded))"

section \<open>Questions on the wire\<close>

definition encode_name :: "string list \<Rightarrow> bytes" where
  "encode_name labels = concat (map (\<lambda>l. of_nat (length l) # as_bytes l) labels) @ [0]"

definition label_ok :: "string \<Rightarrow> bool" where
  "label_ok l \<longleftrightarrow> l \<noteq> [] \<and> length l < 64 \<and> utf8_valid (as_bytes l)"

lemma length_byte_mask: "n < 64 \<Longrightarrow> (of_nat n :: byte) AND 0xC0 = 0"
proof -
  have "list_all (\<lambda>n. (of_nat n :: byte) AND 0xC0 = 0) [0..<64]" by code_simp
  then show "n < 64 \<Longrightarrow> ?thesis" by (simp add: list_all_iff)
qed

lemma slice_drop: "drop i xs = ys @ zs \<Longrightarrow> slice i (i + length ys) xs = ys"
  by (simp add: slice_def)

lemma nth_drop_Cons: "drop i xs = y # ys \<Longrightarrow> i < length xs \<and> xs ! i = y"
  by (metis drop_eq_Nil2 hd_drop_conv_nth linorder_not_less list.distinct(1) list.sel(1))

lemma drop_append_more: "drop i xs = ys @ zs \<Longrightarrow> drop (i + length ys) xs = zs"
  by (metis add.commute append_eq_conv_conj drop_drop)

lemma read_name_encoded:
  assumes "drop i pkt = encode_name labels @ rest" "\<forall>l \<in> set labels. label_ok l" "length labels < n"
  shows "read_name_loop n pkt i acc None =
    Some (join_with ''.'' (acc @ map to_ascii_lowercase labels), i + length (encode_name labels))"
  using assms
proof (induction labels arbitrary: i n acc)
  case Nil
  then obtain m where "n = Suc m" by (cases n) auto
  then show ?case using nth_drop_Cons [of i pkt 0 rest] Nil by (simp add: encode_name_def)
next
  case (Cons l labels)
  obtain m where n: "n = Suc m" using Cons.prems(3) by (cases n) auto
  have l: "l \<noteq> []" "length l < 64" "utf8_valid (as_bytes l)" using Cons.prems(2) by (simp_all add: label_ok_def)
  have d: "drop i pkt = (of_nat (length l) # as_bytes l) @ encode_name labels @ rest" using Cons.prems(1) by (simp add: encode_name_def)
  note at = nth_drop_Cons [OF d [unfolded append_Cons]]
  have len: "unat (of_nat (length l) :: byte) = length l" using l(2) by (simp add: unat_of_nat)
  then have nz: "(of_nat (length l) :: byte) \<noteq> 0" using l(1) by (metis length_0_conv unat_0)
  have "drop (Suc i) pkt = as_bytes l @ encode_name labels @ rest" using d by (metis append_Cons drop_Suc list.sel(3) tl_drop)
  note next_drop = drop_append_more [OF this] and label = slice_drop [OF this]
  have fits: "i + 1 + length l \<le> length pkt"
    using arg_cong [OF d, of length] by (simp add: encode_name_def)
  have "read_name_loop m pkt (Suc i + length l) (acc @ [to_ascii_lowercase l]) None =
      Some (join_with ''.'' ((acc @ [to_ascii_lowercase l]) @ map to_ascii_lowercase labels), Suc i + length l + length (encode_name labels))"
    using Cons.prems(2,3) n next_drop by (intro Cons.IH) auto
  then show ?case using at fits label nz len length_byte_mask [OF l(2)] from_utf8_as_bytes [OF l(3)]
    by (simp add: n Let_def encode_name_def)
qed

lemma first_question_encoded:
  assumes "length header = 12" "u16_from_be (slice 4 6 header) \<noteq> 0" "\<forall>l \<in> set labels. label_ok l" "length labels < 128"
    "pkt = header @ encode_name labels @ u16_be qtype @ u16_be qclass @ rest"
  shows "parse_first_question pkt = Some \<lparr>dq_name = join_with ''.'' (map to_ascii_lowercase labels), dq_qtype = qtype, dq_qclass = qclass,
    dq_end = 12 + length (encode_name labels) + 4\<rparr>"
proof -
  have d: "drop 12 pkt = encode_name labels @ u16_be qtype @ u16_be qclass @ rest" using assms(1,5) by simp
  have name: "read_name pkt 12 = Some (join_with ''.'' (map to_ascii_lowercase labels), 12 + length (encode_name labels))"
    using read_name_encoded [OF d assms(3,4), of "[]"] by (simp add: read_name_def)
  note after = drop_append_more [OF d]
  have "slice (12 + length (encode_name labels)) (12 + length (encode_name labels) + 2) pkt = u16_be qtype"
    using slice_drop [OF after] by simp
  moreover have "slice (12 + length (encode_name labels) + 2) (12 + length (encode_name labels) + 4) pkt = u16_be qclass"
    using slice_drop [OF drop_append_more [OF after]] by (simp add: add.assoc)
  moreover have "slice 4 6 pkt = slice 4 6 header" using assms(1,5) by (simp add: slice_append_left)
  ultimately show ?thesis using name assms(1,2,5) by (simp add: parse_first_question_def)
qed

text \<open>
  The first question of a request is read as it was written: from any packet that has, behind its header, at most 127 labels of at
  most 63 bytes each, a type and a class, the name is read in lower case with its labels joined by dots, and the end is the end of the
  question whatever follows it.
\<close>

theorem first_question_read:
  assumes "length header = 12" "u16_from_be (slice 4 6 header) \<noteq> 0" "\<forall>l \<in> set labels. label_ok l" "length labels < 128"
    "pkt = header @ encode_name labels @ u16_be qtype @ u16_be qclass @ rest"
  shows "parse_first_question pkt = Some \<lparr>dq_name = join_with ''.'' (map to_ascii_lowercase labels), dq_qtype = qtype, dq_qclass = qclass,
    dq_end = 12 + length (encode_name labels) + 4\<rparr>"
  by (rule first_question_encoded [OF assms])

section \<open>Responses\<close>

text \<open>A reader of the answers of a response, each with the name of the question.\<close>

fun read_answers :: "nat \<Rightarrow> bytes \<Rightarrow> (u32 \<times> ip_addr) list option" where
  "read_answers 0 bs = (if bs = [] then Some [] else None)"
| "read_answers (Suc n) bs =
    (if length bs < 12 \<or> take 2 bs \<noteq> [0xC0, 0x0C] \<or> u16_from_be (slice 4 6 bs) \<noteq> CLASS_IN then None
     else
       (let ttl = u32_from_be (slice 6 10 bs); len = unat (u16_from_be (slice 10 12 bs)); data = slice 12 (12 + len) bs
        in if length bs < 12 + len then None
           else if u16_from_be (slice 2 4 bs) = TYPE_A \<and> len = 4 then
             map_option (Cons (ttl, V4 (from_octets4 data))) (read_answers n (drop (12 + len) bs))
           else if u16_from_be (slice 2 4 bs) = TYPE_AAAA \<and> len = 16 then
             map_option (Cons (ttl, V6 (from_octets6 data))) (read_answers n (drop (12 + len) bs))
           else None))"

lemma read_answers_Cons:
  "read_answers (Suc n) (answer_bytes ttl ip @ rest) = map_option (Cons (ttl, ip)) (read_answers n rest)"
proof -
  have "unat (4 :: u16) = 4" "unat (16 :: u16) = 16" "TYPE_A \<noteq> TYPE_AAAA" by (simp_all add: TYPE_A_def TYPE_AAAA_def)
  then show ?thesis by (cases ip) (simp_all add: answer_bytes_def slice_simps slice_def Let_def)
qed

lemma read_answers_all: "read_answers (length ips) (concat (map (answer_bytes ttl) ips)) = Some (map (Pair ttl) ips)"
  by (induction ips) (simp_all add: read_answers_Cons del: read_answers.simps(2))

definition response_header :: "bytes \<Rightarrow> u16 \<Rightarrow> bytes" where
  "response_header header count = take 2 header @ [0x80 OR (header ! 2 AND 1), 0x80] @ u16_be 1 @ u16_be count @ u16_be 0 @ u16_be 0"

lemma build_ip_response_parts:
  assumes "length header = 12" "length question + 12 = dq_end q"
  shows "build_ip_response (header @ question @ rest) q ips ttl =
    response_header header (of_nat (length (filter (\<lambda>ip. ip_matches_qtype ip (dq_qtype q)) ips))) @ question @
    concat (map (answer_bytes ttl) (filter (\<lambda>ip. ip_matches_qtype ip (dq_qtype q)) ips))"
proof -
  have "take (dq_end q) (header @ question @ rest) = header @ question" "min (dq_end q) (length (header @ question @ rest)) = dq_end q"
    using assms by (simp_all flip: assms(2))
  then show ?thesis using assms
    by (simp add: build_ip_response_def build_empty_response_def set_response_header_def response_header_def nth_append Let_def)
qed

text \<open>
  C36: A response answers its request. For a request as in the first property, the response has the request's identifier and its
  recursion bit, is marked as a response, repeats the question, and carries exactly those of the given addresses that fit the type
  asked for, in their order, each with the given time to live.
\<close>

theorem response_carries_answers:
  assumes "length header = 12" "u16_from_be (slice 4 6 header) \<noteq> 0" "\<forall>l \<in> set labels. label_ok l" "length labels < 128"
    "pkt = header @ encode_name labels @ u16_be qtype @ u16_be qclass @ rest" "parse_first_question pkt = Some q"
    "length (filter (\<lambda>ip. ip_matches_qtype ip qtype) ips) < 65536" "resp = build_ip_response pkt q ips ttl"
  shows "take 2 resp = take 2 pkt \<and> resp ! 2 = 0x80 OR (pkt ! 2 AND 1) \<and> resp ! 3 = 0x80 \<and> parse_first_question resp = Some q \<and>
    read_answers (unat (u16_from_be (slice 6 8 resp))) (drop (dq_end q) resp) =
      Some (map (Pair ttl) (filter (\<lambda>ip. ip_matches_qtype ip qtype) ips))"
proof -
  have q: "q = \<lparr>dq_name = join_with ''.'' (map to_ascii_lowercase labels), dq_qtype = qtype, dq_qclass = qclass,
      dq_end = 12 + length (encode_name labels) + 4\<rparr>"
    using first_question_encoded [OF assms(1-5)] assms(6) by simp
  let ?answers = "filter (\<lambda>ip. ip_matches_qtype ip qtype) ips" and ?question = "encode_name labels @ u16_be qtype @ u16_be qclass"
  define new where "new = response_header header (of_nat (length ?answers))"
  have resp: "resp = new @ encode_name labels @ u16_be qtype @ u16_be qclass @ concat (map (answer_bytes ttl) ?answers)"
    using build_ip_response_parts [OF assms(1), of ?question q rest ips ttl] by (simp add: assms(5,8) q new_def)
  have new: "length new = 12" "slice 4 6 new = u16_be 1" "slice 6 8 new = u16_be (of_nat (length ?answers))" "take 2 new = take 2 header"
    "new ! 2 = 0x80 OR (header ! 2 AND 1)" "new ! 3 = 0x80"
    using assms(1) by (simp_all add: new_def response_header_def slice_def nth_append)
  have "parse_first_question resp = Some q"
    using first_question_encoded [OF new(1) _ assms(3,4) resp] new(2) q by simp
  moreover have "drop (dq_end q) resp = concat (map (answer_bytes ttl) ?answers)" by (simp add: resp q new(1))
  moreover have "unat (u16_from_be (slice 6 8 resp)) = length ?answers"
    using new(1,3) assms(7) by (simp add: resp slice_append_left unat_of_nat)
  ultimately show ?thesis using new assms(1,5) read_answers_all [of ?answers ttl]
    by (simp add: resp nth_append)
qed

section \<open>Examples\<close>

definition sample_query :: bytes where
  "sample_query = [0x12, 0x34, 1, 0, 0, 1, 0, 0, 0, 0, 0, 0] @ encode_name [''WWW'', ''Ex''] @ u16_be TYPE_A @ u16_be CLASS_IN @ [7]"

lemma sample_labels: "\<forall>l \<in> set [''WWW'', ''Ex'']. label_ok l"
  by code_simp

theorem first_question_read_witness:
  "parse_first_question sample_query = Some \<lparr>dq_name = ''www.ex'', dq_qtype = 1, dq_qclass = 1, dq_end = 24\<rparr>"
proof -
  have "u16_from_be (slice 4 6 [0x12, 0x34, 1, 0, 0, 1, 0, 0, 0, 0, 0, 0]) \<noteq> 0" by code_simp
  note read = first_question_read [OF _ this sample_labels _ sample_query_def]
  have "join_with ''.'' (map to_ascii_lowercase [''WWW'', ''Ex'']) = ''www.ex''" "length (encode_name [''WWW'', ''Ex'']) = 8" by code_simp+
  with read show ?thesis by (simp add: TYPE_A_def CLASS_IN_def)
qed

theorem response_carries_answers_witness:
  "read_answers (unat (u16_from_be (slice 6 8 (build_ip_response sample_query \<lparr>dq_name = ''www.ex'', dq_qtype = 1, dq_qclass = 1, dq_end = 24\<rparr> [V6 3, V4 5] 60))))
     (drop 24 (build_ip_response sample_query \<lparr>dq_name = ''www.ex'', dq_qtype = 1, dq_qclass = 1, dq_end = 24\<rparr> [V6 3, V4 5] 60)) = Some [(60, V4 5)]"
proof -
  have c: "u16_from_be (slice 4 6 [0x12, 0x34, 1, 0, 0, 1, 0, 0, 0, 0, 0, 0]) \<noteq> 0" by code_simp
  have q: "parse_first_question sample_query = Some \<lparr>dq_name = ''www.ex'', dq_qtype = 1, dq_qclass = 1, dq_end = 24\<rparr>" by code_simp
  have f: "filter (\<lambda>ip. ip_matches_qtype ip TYPE_A) [V6 3, V4 5] = [V4 5]" by code_simp
  show ?thesis
    using response_carries_answers [OF _ c sample_labels _ sample_query_def q _ refl, of "[V6 3, V4 5]" 60] f by simp
qed

end
