(* ===== verification/Std_Ip_Text.thy ===== *)
theory Std_Ip_Text
  imports Std_Net
begin

text \<open>
  The text form of IPv6 addresses: every printed address parses back to itself, whether it is printed in full, with its longest run of
  zero segments left out, or as an IPv4-mapped address with a dotted tail.
\<close>

section \<open>Segments\<close>

lemma octets6_cases:
  obtains a b c d e f g h i j k l m n p q where "octets6 w = [a, b, c, d, e, f, g, h, i, j, k, l, m, n, p, q]"
proof -
  have "length (octets6 w) = Suc (Suc (Suc (Suc (Suc (Suc (Suc (Suc (Suc (Suc (Suc (Suc (Suc (Suc (Suc (Suc 0)))))))))))))))"
    by simp
  then show ?thesis using that by (auto simp only: length_Suc_conv length_0_conv)
qed

lemma be_bytes_pair: "be_bytes 2 (unat (a::byte) * 256 + unat b) = [a, b]"
  using be_bytes_be_val [of "[a, b]"] by (simp add: be_val_def numeral_2_eq_2)

lemma segments_eq:
  assumes "octets6 w = [a, b, c, d, e, f, g, h, i, j, k, l, m, n, p, q]"
  shows "segments w = [unat a * 256 + unat b, unat c * 256 + unat d, unat e * 256 + unat f, unat g * 256 + unat h,
    unat i * 256 + unat j, unat k * 256 + unat l, unat m * 256 + unat n, unat p * 256 + unat q]"
  by (simp add: segments_def assms slice_def be_val_def upt_rec)

lemma from_segments_segments: "from_segments (segments w) = w"
proof -
  obtain a b c d e f g h i j k l m n p q where w: "octets6 w = [a, b, c, d, e, f, g, h, i, j, k, l, m, n, p, q]"
    by (rule octets6_cases)
  have "concat (map (be_bytes 2) (segments w)) = octets6 w" by (simp add: segments_eq [OF w] be_bytes_pair w)
  then show ?thesis by (simp add: from_segments_def)
qed

lemma length_segments [simp]: "length (segments w) = 8"
  by (simp add: segments_def)

section \<open>The run of zeros\<close>

definition zeros_at :: "nat list \<Rightarrow> nat \<times> nat \<Rightarrow> nat \<Rightarrow> bool" where
  "zeros_at xs span i \<longleftrightarrow> fst span + snd span \<le> i \<and> (\<forall>j < snd span. xs ! (fst span + j) = 0)"

lemma zero_span_zeros:
  assumes "length pre = i" "zeros_at (pre @ gs) current i" "0 < snd current \<longrightarrow> fst current + snd current = i" "zeros_at (pre @ gs) longest i"
  shows "zeros_at (pre @ gs) (zero_span i current longest gs) (i + length gs)"
  using assms
proof (induction i current longest gs arbitrary: pre rule: zero_span.induct)
  case (2 i current longest g gs)
  have grow: "zeros_at xs span i \<Longrightarrow> zeros_at xs span (Suc i)" for xs span by (auto simp: zeros_at_def)
  have at: "(pre @ g # gs) ! i = g" using 2(3) by auto
  show ?case
  proof (cases "g = 0")
    case True
    define cur where "cur = (if snd current = 0 then (i, 1) else (fst current, Suc (snd current)))"
    have cur: "zeros_at (pre @ g # gs) cur (Suc i)" "fst cur + snd cur = Suc i"
      using 2(3-6) at True by (auto simp: cur_def zeros_at_def less_Suc_eq)
    then show ?thesis using 2(1) [OF True cur_def refl, of "pre @ [g]"] 2(3,6) True grow
      by (auto simp: Let_def cur_def [symmetric])
  next
    case False
    then show ?thesis using 2(2) [OF False, of "pre @ [g]"] 2(3,6) grow by (auto simp: zeros_at_def [of _ "(0, 0)"])
  qed
qed simp

lemma zero_span_split:
  assumes "zero_span 0 (0, 0) (0, 0) gs = (start, len)"
  shows "gs = take start gs @ replicate len 0 @ drop (start + len) gs" "start + len \<le> length gs"
proof -
  have z: "zeros_at gs (start, len) (length gs)"
    using zero_span_zeros [of "[]" 0 gs "(0, 0)" "(0, 0)"] assms by (simp add: zeros_at_def [of _ "(0, 0)"])
  then show le: "start + len \<le> length gs" by (simp add: zeros_at_def)
  have "take len (drop start gs) = replicate len 0"
    using z le by (intro nth_equalityI) (auto simp: zeros_at_def)
  then show "gs = take start gs @ replicate len 0 @ drop (start + len) gs"
    by (metis add.commute append_take_drop_id drop_drop)
qed

section \<open>Reading groups\<close>

lemma read_ipv4_no_dot:
  assumes "CHR ''.'' \<notin> set s"
  shows "read_ipv4_addr s = None"
proof -
  have "read_separator CHR ''.'' (Suc 0) f r = None" if "set r \<subseteq> set s" for f :: "string \<Rightarrow> (nat \<times> string) option" and r
    using that assms by (cases r) (auto simp: read_separator_def)
  moreover have "set r \<subseteq> set s" if "read_number 10 3 False 255 s = Some (g, r)" for g r
    using that by (auto simp: read_number_def Let_def dest: set_dropWhileD split: if_splits)
  ultimately show ?thesis
    by (auto simp: read_ipv4_addr_def numeral_eq_Suc read_separator_def [of _ 0] split: option.split)
qed

lemma colon_no_digit: "to_digit 16 CHR '':'' = None" "to_digit 10 CHR '':'' = None"
  by (simp_all add: to_digit_def)

lemma read_number_hex:
  assumes "g < 65536" "rest = [] \<or> to_digit 16 (hd rest) = None"
  shows "read_number 16 4 True 65535 (show_hex g @ rest) = Some (g, rest)"
  using takeWhile_digits [of 16 rest g] assms digits_val_show_base [of 16 g] length_show_base_le [of 16 g 4]
  by (simp add: read_number_def show_hex_def Let_def)

lemma read_number_no_digit: "s = [] \<or> to_digit radix (hd s) = None \<Longrightarrow> read_number radix n b l s = None"
  by (cases s) (auto simp: read_number_def Let_def)

lemma show_hex_no_dot: "CHR ''.'' \<notin> set (show_hex g)"
  using show_base_digits [of 16 g] by (auto simp: show_hex_def to_digit_def Let_def)

lemma join_hex_no_dot: "CHR ''.'' \<notin> set (join_with '':'' (map show_hex gs))"
proof -
  have "CHR ''.'' \<notin> set (join_with '':'' xs)" if "\<forall>x \<in> set xs. CHR ''.'' \<notin> set x" for xs
    using that by (induction "'':''" xs rule: join_with.induct) auto
  then show ?thesis by (simp add: show_hex_no_dot)
qed

definition colon_joined :: "nat \<Rightarrow> nat list \<Rightarrow> string" where
  "colon_joined i gs = (if 0 < i \<and> gs \<noteq> [] then '':'' else []) @ join_with '':'' (map show_hex gs)"

lemma colon_joined_simps:
  "colon_joined i [] = []"
  "colon_joined i (g # gs) = (if 0 < i then '':'' else []) @ show_hex g @ colon_joined (Suc i) gs"
  by (cases gs; simp add: colon_joined_def)+

lemma read_groups_joined:
  assumes "\<forall>g \<in> set gs. g < 65536" "length gs \<le> k" "rest = [] \<or> (\<exists>r. rest = CHR '':'' # CHR '':'' # r)" "CHR ''.'' \<notin> set rest"
  shows "read_groups i k (colon_joined i gs @ rest) = (gs, False, rest)"
  using assms
proof (induction gs arbitrary: i k)
  case Nil
  have "read_separator CHR '':'' i (read_number 16 4 True 65535) rest = None"
    using Nil(3) by (auto simp: read_separator_def read_number_no_digit colon_no_digit)
  moreover have "read_separator CHR '':'' i read_ipv4_addr rest = None"
    using Nil(4) by (auto simp: read_separator_def read_ipv4_no_dot split: list.split)
  ultimately show ?case by (cases k) (simp_all add: colon_joined_simps)
next
  case (Cons g gs)
  obtain k' where k: "k = Suc k'" using Cons.prems(2) by (cases k) auto
  let ?r = "colon_joined (Suc i) gs @ rest"
  have dots: "CHR ''.'' \<notin> set (show_hex g @ ?r)"
    using Cons.prems(4) join_hex_no_dot [of gs] by (auto simp: show_hex_no_dot colon_joined_def)
  have sep: "?r = [] \<or> to_digit 16 (hd ?r) = None"
    using Cons.prems(3) by (cases gs) (auto simp: colon_joined_simps colon_no_digit)
  have "read_separator CHR '':'' i read_ipv4_addr (colon_joined i (g # gs) @ rest) = None"
    using read_ipv4_no_dot [OF dots] by (cases i) (simp_all add: read_separator_def colon_joined_simps)
  moreover have "read_separator CHR '':'' i (read_number 16 4 True 65535) (colon_joined i (g # gs) @ rest) = Some (g, ?r)"
    using read_number_hex [OF _ sep, of g] Cons.prems(1) by (cases i) (simp_all add: read_separator_def colon_joined_simps)
  ultimately show ?case using Cons.IH [of k' "Suc i"] Cons.prems by (simp add: k)
qed

section \<open>Printed addresses parse back\<close>

lemma join_is_joined: "join_with '':'' (map show_hex gs) = colon_joined 0 gs"
  by (simp add: colon_joined_def)

lemma read_mapped:
  assumes "to_ipv4_mapped w = Some v"
  shows "read_ipv6_addr (''::ffff:'' @ show_ipv4 v) = Some (segments w, [])"
proof -
  have oct: "take 12 (octets6 w) = replicate 10 0 @ [255, 255]" "v = from_octets4 (drop 12 (octets6 w))"
    using assms by (simp_all add: to_ipv4_mapped_def split: if_splits)
  then have v: "octets4 v = drop 12 (octets6 w)" by (simp add: octets_from_octets)
  obtain a b c d where q: "octets4 v = [a, b, c, d]" by (rule octets4_cases)
  have w: "octets6 w = [0, 0, 0, 0, 0, 0, 0, 0, 0, 0, 255, 255, a, b, c, d]"
    using oct(1) v q append_take_drop_id [of 12 "octets6 w"] by (simp add: numeral_eq_Suc)
  have ffff: "''ffff:'' @ show_ipv4 v = show_hex 65535 @ CHR '':'' # show_ipv4 v"
  proof -
    have "show_hex 65535 = ''ffff''" by code_simp
    then show ?thesis by simp
  qed
  have num: "read_number 16 4 True 65535 (''ffff:'' @ show_ipv4 v) = Some (65535, CHR '':'' # show_ipv4 v)"
    unfolding ffff by (rule read_number_hex) (simp_all add: colon_no_digit)
  have no4: "read_ipv4_addr (''ffff:'' @ show_ipv4 v) = None" "read_ipv4_addr (''::ffff:'' @ show_ipv4 v) = None"
    by (simp_all add: read_ipv4_addr_def numeral_eq_Suc read_separator_def read_number_def to_digit_def)
  have Sucs: "(6::nat) = Suc 5" "(7::nat) = Suc 6" "(8::nat) = Suc 7" "replicate 5 (0::nat) = [0, 0, 0, 0, 0]"
    by (simp_all add: numeral_eq_Suc)
  have "read_groups (Suc 0) (Suc 5) (CHR '':'' # show_ipv4 v) =
      ([unat a * 256 + unat b, unat c * 256 + unat d], True, [])"
    using read_ipv4_show [of "[]" v] by (subst read_groups.simps(2)) (simp add: read_separator_def q)
  then have tail: "read_groups 0 (Suc 6) (''ffff:'' @ show_ipv4 v) = ([65535, unat a * 256 + unat b, unat c * 256 + unat d], True, [])"
    using num no4(1) by (subst read_groups.simps(2)) (simp add: read_separator_def)
  have "read_groups 0 (Suc 7) (''::ffff:'' @ show_ipv4 v) = ([], False, ''::ffff:'' @ show_ipv4 v)"
    using no4(2) read_number_no_digit [of "''::ffff:'' @ show_ipv4 v" 16 4 True 65535] colon_no_digit
    by (subst read_groups.simps(2)) (simp add: read_separator_def)
  then show ?thesis using tail unfolding Sucs(2,3) [symmetric]
    by (simp add: read_ipv6_addr_def segments_eq [OF w] Sucs(4))
qed

lemma read_ipv6_show: "read_ipv6_addr (show_ipv6 w) = Some (segments w, [])"
proof (cases "to_ipv4_mapped w")
  case None
  let ?gs = "segments w"
  obtain start len where span: "zero_span 0 (0, 0) (0, 0) ?gs = (start, len)" by force
  note gs = zero_span_split [OF span]
  have small: "\<forall>g \<in> set (take n ?gs). g < 65536" "\<forall>g \<in> set (drop n ?gs). g < 65536" "\<forall>g \<in> set ?gs. g < 65536" for n
    by (auto dest: in_set_takeD in_set_dropD segments_bound)
  show ?thesis
  proof (cases "1 < len")
    case False
    then have "show_ipv6 w = colon_joined 0 ?gs @ []" using None span by (simp add: show_ipv6_def join_is_joined Let_def)
    then show ?thesis using read_groups_joined [OF small(3), of 8 "[]" 0] by (simp add: read_ipv6_addr_def)
  next
    case True
    let ?t = "colon_joined 0 (drop (start + len) ?gs)"
    have s: "show_ipv6 w = colon_joined 0 (take start ?gs) @ CHR '':'' # CHR '':'' # ?t"
      using None span True by (simp add: show_ipv6_def join_is_joined Let_def)
    have "CHR ''.'' \<notin> set ?t" using join_hex_no_dot by (simp add: colon_joined_def)
    then have head: "read_groups 0 8 (show_ipv6 w) = (take start ?gs, False, CHR '':'' # CHR '':'' # ?t)"
      unfolding s by (intro read_groups_joined [OF small(1)]) auto
    have "read_groups 0 (8 - (start + 1)) (?t @ []) = (drop (start + len) ?gs, False, [])"
      using True by (intro read_groups_joined [OF small(2)]) auto
    moreover have "length (take start ?gs) = start" "start < 8" "8 - start - (8 - (start + len)) = len" using gs(2) True by auto
    ultimately show ?thesis using head gs(1) by (simp add: read_ipv6_addr_def)
  qed
next
  case (Some v)
  then show ?thesis using read_mapped [OF Some] by (simp add: show_ipv6_def)
qed

lemma read_ipv4_show_ipv6: "read_ipv4_addr (show_ipv6 w) = None"
proof (cases "to_ipv4_mapped w")
  case None
  then show ?thesis using join_hex_no_dot by (intro read_ipv4_no_dot) (auto simp: show_ipv6_def Let_def split: prod.split)
next
  case (Some v)
  then show ?thesis by (simp add: show_ipv6_def read_ipv4_addr_def numeral_eq_Suc read_separator_def read_number_def to_digit_def)
qed

lemma parse_ip_show_ip [simp]: "parse_ip (show_ip ip) = Some ip"
proof (cases ip)
  case (V6 w)
  then show ?thesis by (simp add: parse_ip_def read_ipv4_show_ipv6 parse_ipv6_def read_ipv6_show from_segments_segments)
qed (simp add: parse_ip_show_ipv4)

end
