(* ===== verification/Dns_Group.thy ===== *)
theory Dns_Group
  imports Std_Str "HOL-Library.Multiset"
begin

text \<open>
  Groups of DNS servers (\<open>core-resolver/src/group.rs\<close>): a query is put to the members one after the other or several at a time, in an order
  that the strategy of the group chooses.

  What a member does with a query is an argument: an answer or an error, with the time it took, or no answer in time. The random
  choices are arguments as well: a shuffle, and a draw of an index by weight, of which the laws of \<open>fair_choice\<close> are used. The
  completion of parallel queries is an argument: the order in which they would end. The sum of round-trip times, a \<open>f64\<close> in the code,
  is a natural number of microseconds; it is read only for the weights of the draw.
\<close>

section \<open>State\<close>

datatype dns_error = De_Failed string | De_Timeout | De_Empty | De_Rejected string

datatype group_strategy = GS_RoundRobin | GS_Random | GS_Parallel | GS_Adaptive | GS_Sequential | GS_All | GS_Fastest | GS_Fallback

definition replace_char :: "char \<Rightarrow> char \<Rightarrow> string \<Rightarrow> string" where
  "replace_char a b s = map (\<lambda>c. if c = a then b else c) s"

definition group_strategy_parse :: "unicode \<Rightarrow> string \<Rightarrow> group_strategy option" where
  "group_strategy_parse u value =
    (let v = replace_char CHR ''_'' CHR ''-'' (to_ascii_lowercase (trim u value))
     in if v \<in> {''round-robin'', ''roundrobin'', ''rr''} then Some GS_RoundRobin
        else if v = ''random'' then Some GS_Random
        else if v \<in> {''parallel'', ''fastest''} then Some GS_Parallel
        else if v \<in> {''adaptive'', ''load-balance'', ''load-balance-adaptive''} then Some GS_Adaptive
        else if v \<in> {''sequential'', ''fallback''} then Some GS_Sequential
        else if v = ''all'' then Some GS_All
        else None)"

record raw_member_stats =
  ms_requests :: u64
  ms_failures :: u64
  ms_rtt_sum :: nat

definition stats_default :: raw_member_stats where
  "stats_default = \<lparr>ms_requests = 0, ms_failures = 0, ms_rtt_sum = 0\<rparr>"

definition stats_record :: "nat \<Rightarrow> bool \<Rightarrow> raw_member_stats \<Rightarrow> raw_member_stats" where
  "stats_record elapsed success s =
     s\<lparr>ms_requests := saturating_add (ms_requests s) 1,
       ms_failures := (if success then ms_failures s else saturating_add (ms_failures s) 1),
       ms_rtt_sum := ms_rtt_sum s + max elapsed 1\<rparr>"

text \<open>What a member returns for a host and a family, and after how long; or nothing before the timeout.\<close>

datatype 'a reply = Reply "dns_error + 'a list" nat | No_Reply

type_synonym upstream = "string \<Rightarrow> bool \<Rightarrow> ip_addr reply"

record dns_group =
  dg_name :: string
  dg_strategy :: group_strategy
  dg_members :: "upstream list"
  dg_timeout :: nat
  dg_max_parallel :: nat
  dg_cursor :: u64
  dg_stats :: "raw_member_stats list"

definition group_new :: "string \<Rightarrow> group_strategy \<Rightarrow> upstream list \<Rightarrow> dns_group" where
  "group_new name strategy members =
     \<lparr>dg_name = name, dg_strategy = strategy, dg_members = members, dg_timeout = 5000000, dg_max_parallel = 2,
      dg_cursor = 0, dg_stats = replicate (length members) stats_default\<rparr>"

definition with_timeout :: "nat \<Rightarrow> dns_group \<Rightarrow> dns_group" where
  "with_timeout t g = g\<lparr>dg_timeout := max t 1000\<rparr>"

definition with_max_parallel :: "nat \<Rightarrow> dns_group \<Rightarrow> dns_group" where
  "with_max_parallel n g = g\<lparr>dg_max_parallel := max n 1\<rparr>"

text \<open>The random choices and the order in which parallel queries end.\<close>

record choices =
  ch_shuffle :: "nat list \<Rightarrow> nat list"
  ch_draw :: "nat list \<Rightarrow> nat"
  ch_arrival :: "nat list \<Rightarrow> nat list"

section \<open>Operations\<close>

text \<open>Draws without replacement, with as many rounds as there are members; an index out of range would panic.\<close>

fun draw_loop :: "(nat list \<Rightarrow> nat) \<Rightarrow> nat \<Rightarrow> nat list \<Rightarrow> nat list" where
  "draw_loop draw 0 remaining = []"
| "draw_loop draw (Suc n) remaining =
    (if remaining = [] then []
     else (let selected = draw remaining
           in remaining ! selected # draw_loop draw n (take selected remaining @ drop (Suc selected) remaining)))"

definition ordered_indices :: "choices \<Rightarrow> group_strategy \<Rightarrow> dns_group \<Rightarrow> nat list \<times> dns_group" where
  "ordered_indices ch strategy g =
    (let len = length (dg_members g); indices = [0..<len]
     in case strategy of
          GS_RoundRobin \<Rightarrow> (rotate (unat (dg_cursor g) mod len) indices, g\<lparr>dg_cursor := dg_cursor g + 1\<rparr>)
        | GS_Random \<Rightarrow> (ch_shuffle ch indices, g)
        | GS_Sequential \<Rightarrow> (indices, g)
        | GS_Fallback \<Rightarrow> (indices, g)
        | _ \<Rightarrow> (draw_loop (ch_draw ch) len indices, g))"

definition record_result :: "nat \<Rightarrow> nat \<Rightarrow> bool \<Rightarrow> dns_group \<Rightarrow> dns_group" where
  "record_result index elapsed success g =
    (if index < length (dg_stats g)
     then g\<lparr>dg_stats := (dg_stats g)[index := stats_record (if success then elapsed else dg_timeout g) success (dg_stats g ! index)]\<rparr>
     else g)"

definition query_ip_member :: "nat \<Rightarrow> string \<Rightarrow> bool \<Rightarrow> dns_group \<Rightarrow> (dns_error + ip_addr list) \<times> dns_group" where
  "query_ip_member index host want_v6 g =
    (case (dg_members g ! index) host want_v6 of
       Reply (Inr values) elapsed \<Rightarrow>
         if values \<noteq> [] then (Inr values, record_result index elapsed True g) else (Inl De_Empty, record_result index elapsed False g)
     | Reply (Inl e) elapsed \<Rightarrow> (Inl e, record_result index elapsed False g)
     | No_Reply \<Rightarrow> (Inl De_Timeout, record_result index (dg_timeout g) False g))"

fun sequential_loop :: "string \<Rightarrow> bool \<Rightarrow> nat list \<Rightarrow> dns_error \<Rightarrow> dns_group \<Rightarrow> (dns_error + ip_addr list) \<times> dns_group" where
  "sequential_loop host want_v6 [] last_error g = (Inl last_error, g)"
| "sequential_loop host want_v6 (i # is) last_error g =
    (case query_ip_member i host want_v6 g of
       (Inr values, g') \<Rightarrow> (Inr values, g')
     | (Inl e, g') \<Rightarrow> sequential_loop host want_v6 is e g')"

definition run_sequential :: "choices \<Rightarrow> string \<Rightarrow> bool \<Rightarrow> group_strategy \<Rightarrow> dns_group \<Rightarrow> (dns_error + ip_addr list) \<times> dns_group" where
  "run_sequential ch host want_v6 strategy g =
    (case ordered_indices ch strategy g of (is, g') \<Rightarrow> sequential_loop host want_v6 is De_Empty g')"

text \<open>The results in the order they arrive; what has not arrived when the first answer is returned is dropped.\<close>

fun parallel_loop :: "string \<Rightarrow> bool \<Rightarrow> bool \<Rightarrow> nat list \<Rightarrow> ip_addr list \<Rightarrow> dns_error \<Rightarrow> dns_group \<Rightarrow> (dns_error + ip_addr list) \<times> dns_group" where
  "parallel_loop host want_v6 collect_all [] answers last_error g = (if answers = [] then Inl last_error else Inr answers, g)"
| "parallel_loop host want_v6 collect_all (i # is) answers last_error g =
    (case query_ip_member i host want_v6 g of
       (Inr values, g') \<Rightarrow>
         if \<not> collect_all then (Inr values, g')
         else parallel_loop host want_v6 collect_all is (fold List.insert values answers) last_error g'
     | (Inl e, g') \<Rightarrow> parallel_loop host want_v6 collect_all is answers e g')"

definition run_parallel :: "choices \<Rightarrow> string \<Rightarrow> bool \<Rightarrow> bool \<Rightarrow> dns_group \<Rightarrow> (dns_error + ip_addr list) \<times> dns_group" where
  "run_parallel ch host want_v6 collect_all g =
    (case ordered_indices ch GS_Adaptive g of
       (is, g') \<Rightarrow> parallel_loop host want_v6 collect_all (ch_arrival ch is) [] De_Empty g')"

text \<open>The message ends with three characters of three bytes each.\<close>

definition no_members :: string where
  "no_members = map char_of [0xE6, 0x97, 0xA0, 0xE6, 0x88, 0x90, 0xE5, 0x91, 0x98 :: nat]"

definition resolve_with_strategy ::
  "choices \<Rightarrow> string \<Rightarrow> bool \<Rightarrow> group_strategy option \<Rightarrow> dns_group \<Rightarrow> (dns_error + ip_addr list) \<times> dns_group" where
  "resolve_with_strategy ch host want_v6 strategy g =
    (if dg_members g = [] then (Inl (De_Failed (''group '' @ dg_name g @ '' '' @ no_members)), g)
     else
       (let strategy = (case strategy of Some s \<Rightarrow> s | None \<Rightarrow> dg_strategy g)
        in case strategy of
             GS_Parallel \<Rightarrow> run_parallel ch host want_v6 False g
           | GS_Fastest \<Rightarrow> run_parallel ch host want_v6 False g
           | GS_All \<Rightarrow> run_parallel ch host want_v6 True g
           | _ \<Rightarrow> run_sequential ch host want_v6 strategy g))"

definition group_resolve :: "choices \<Rightarrow> string \<Rightarrow> bool \<Rightarrow> dns_group \<Rightarrow> (dns_error + ip_addr list) \<times> dns_group" where
  "group_resolve ch host want_v6 g = resolve_with_strategy ch host want_v6 None g"

section \<open>Orders\<close>

text \<open>What the random choices are documented to do, and that every query ends.\<close>

definition fair_choice :: "choices \<Rightarrow> bool" where
  "fair_choice ch \<longleftrightarrow> (\<forall>xs. mset (ch_shuffle ch xs) = mset xs) \<and> (\<forall>xs. xs \<noteq> [] \<longrightarrow> ch_draw ch xs < length xs) \<and>
     (\<forall>xs. mset (ch_arrival ch xs) = mset xs)"

lemma draw_loop_mset:
  assumes "\<forall>xs. xs \<noteq> [] \<longrightarrow> draw xs < length xs" "length remaining = n"
  shows "mset (draw_loop draw n remaining) = mset remaining"
  using assms(2)
proof (induction n arbitrary: remaining)
  case (Suc n)
  let ?i = "draw remaining"
  have i: "?i < length remaining" using assms(1) Suc.prems by (metis length_0_conv nat.distinct(1))
  then have "length (take ?i remaining @ drop (Suc ?i) remaining) = n" using Suc.prems by simp
  note IH = Suc.IH [OF this]
  have "mset remaining = mset (take ?i remaining @ remaining ! ?i # drop (Suc ?i) remaining)"
    using id_take_nth_drop [OF i] by simp
  then show ?case using Suc.prems IH i by (auto simp: Let_def)
qed simp

lemma rotate_mset: "mset (rotate n xs) = mset xs"
  by (metis append_take_drop_id mset_append rotate_drop_take union_commute)

lemma ordered_indices_mset:
  assumes "fair_choice ch" "ordered_indices ch strategy g = (is, g')"
  shows "set is = {..<length (dg_members g)}" "dg_members g' = dg_members g"
proof -
  have "mset is = mset [0..<length (dg_members g)]"
    using assms draw_loop_mset [of "ch_draw ch" "[0..<length (dg_members g)]" "length (dg_members g)"]
    by (cases strategy) (auto simp: ordered_indices_def fair_choice_def rotate_mset Let_def)
  then show "set is = {..<length (dg_members g)}" by (metis atLeast0LessThan set_mset_mset set_upt)
  show "dg_members g' = dg_members g" using assms(2) by (cases strategy) (auto simp: ordered_indices_def Let_def)
qed

section \<open>Answers\<close>

text \<open>What a member contributes: its addresses, or the error it is counted with.\<close>

definition member_result :: "dns_group \<Rightarrow> string \<Rightarrow> bool \<Rightarrow> nat \<Rightarrow> dns_error + ip_addr list" where
  "member_result g host want_v6 i =
    (case (dg_members g ! i) host want_v6 of
       Reply (Inr values) _ \<Rightarrow> if values \<noteq> [] then Inr values else Inl De_Empty
     | Reply (Inl e) _ \<Rightarrow> Inl e
     | No_Reply \<Rightarrow> Inl De_Timeout)"

lemma query_member_result:
  assumes "query_ip_member i host want_v6 g = (r, g')"
  shows "r = member_result g host want_v6 i" "dg_members g' = dg_members g"
  using assms by (auto simp: query_ip_member_def member_result_def record_result_def split: reply.splits sum.splits if_splits)

lemma member_result_cong: "dg_members g' = dg_members g \<Longrightarrow> member_result g' = member_result g"
  by (auto simp: fun_eq_iff member_result_def)

lemma sequential_loop_first:
  "fst (sequential_loop host want_v6 is e g) =
    (case List.find (\<lambda>i. \<exists>vs. member_result g host want_v6 i = Inr vs) is of
       Some i \<Rightarrow> member_result g host want_v6 i
     | None \<Rightarrow> if is = [] then Inl e else member_result g host want_v6 (last is))"
proof (induction "is" arbitrary: e g)
  case (Cons i "is")
  obtain r g' where q: "query_ip_member i host want_v6 g = (r, g')" by force
  note m = query_member_result [OF q]
  show ?case
  proof (cases r)
    case (Inl e')
    then show ?thesis using Cons.IH [of e' g'] q m member_result_cong [OF m(2)] by (auto split: option.split)
  next
    case (Inr vs)
    then show ?thesis using q m by auto
  qed
qed simp

lemma parallel_loop_first:
  "fst (parallel_loop host want_v6 False is [] e g) = fst (sequential_loop host want_v6 is e g)"
  by (induction "is" arbitrary: e g) (auto split: prod.split sum.split)

lemma set_fold_insert [simp]: "set (fold List.insert xs ys) = set ys \<union> set xs"
  by (induction xs arbitrary: ys) auto

lemma parallel_loop_all:
  assumes "fst (parallel_loop host want_v6 True is answers e g) = r"
  shows "(\<forall>vs. r = Inr vs \<longrightarrow> set vs = set answers \<union> (\<Union>i \<in> set is. \<Union>(set ` {vs. member_result g host want_v6 i = Inr vs})) \<and> vs \<noteq> []) \<and>
    (\<forall>e'. r = Inl e' \<longrightarrow> answers = [] \<and> (\<forall>i \<in> set is. \<exists>e. member_result g host want_v6 i = Inl e) \<and>
      (e' = e \<and> is = [] \<or> (\<exists>i \<in> set is. member_result g host want_v6 i = Inl e')))"
  using assms
proof (induction "is" arbitrary: answers e g)
  case (Cons i "is")
  obtain r' g' where q: "query_ip_member i host want_v6 g = (r', g')" by force
  note m = query_member_result [OF q]
  show ?case
  proof (cases r')
    case (Inl e')
    then show ?thesis using Cons.IH [of answers e' g'] Cons.prems q m member_result_cong [OF m(2)] by auto
  next
    case (Inr ws)
    have ne: "fold List.insert ws answers \<noteq> []"
    proof -
      have "ws \<noteq> []" using m(1) Inr by (auto simp: member_result_def split: reply.splits sum.splits if_splits)
      then have "set (fold List.insert ws answers) \<noteq> {}" by (simp only: set_fold_insert) simp
      then show ?thesis by (metis set_empty)
    qed
    have i: "member_result g host want_v6 i = Inr ws" using m(1) Inr by simp
    have "fst (parallel_loop host want_v6 True is (fold List.insert ws answers) e g') = r" using Cons.prems q Inr by simp
    from Cons.IH [OF this] show ?thesis using ne i by (simp add: member_result_cong [OF m(2)] Un_assoc)
  qed
qed (auto split: if_splits)

lemma find_first_in: "List.find P xs = Some i \<Longrightarrow> i \<in> set xs \<and> P i"
  by (induction xs) (auto split: if_splits)

lemma find_none: "List.find P xs = None \<longleftrightarrow> (\<forall>i \<in> set xs. \<not> P i)"
  by (induction xs) auto

lemma sequential_loop_cases:
  assumes "r = fst (sequential_loop host want_v6 is e g)" "is \<noteq> []"
  shows "(\<forall>vs. r = Inr vs \<longrightarrow> (\<exists>i \<in> set is. member_result g host want_v6 i = Inr vs)) \<and>
    (\<forall>e. r = Inl e \<longrightarrow> (\<forall>i \<in> set is. \<exists>e. member_result g host want_v6 i = Inl e) \<and> member_result g host want_v6 (last is) = Inl e)"
proof (cases "List.find (\<lambda>i. \<exists>vs. member_result g host want_v6 i = Inr vs) is")
  case None
  have all: "\<exists>e. member_result g host want_v6 i = Inl e" if "i \<in> set is" for i
    using None that by (cases "member_result g host want_v6 i") (auto simp: find_none)
  then have "\<exists>e. member_result g host want_v6 (last is) = Inl e" using assms(2) by simp
  then show ?thesis using all None assms by (auto simp: sequential_loop_first)
next
  case (Some i)
  from find_first_in [OF this] show ?thesis using assms Some by (auto simp: sequential_loop_first)
qed

lemma member_result_nonempty: "member_result g host want_v6 i = Inr vs \<Longrightarrow> vs \<noteq> []"
  by (auto simp: member_result_def split: reply.splits sum.splits if_splits)

definition effective_strategy :: "group_strategy option \<Rightarrow> dns_group \<Rightarrow> group_strategy" where
  "effective_strategy s g = (case s of Some t \<Rightarrow> t | None \<Rightarrow> dg_strategy g)"

text \<open>The queries of every strategy go to all members in some order.\<close>

lemma resolve_as_loop:
  assumes "fair_choice ch" "dg_members g \<noteq> []"
  obtains "is" g' where "set is = {..<length (dg_members g)}" "is \<noteq> []" "member_result g' = member_result g"
    "fst (resolve_with_strategy ch host want_v6 s g) =
       (if effective_strategy s g = GS_All then fst (parallel_loop host want_v6 True is [] De_Empty g')
        else fst (sequential_loop host want_v6 is De_Empty g'))"
    "effective_strategy s g \<in> {GS_Sequential, GS_Fallback} \<longrightarrow> is = [0..<length (dg_members g)]"
proof -
  let ?t = "effective_strategy s g"
  let ?par = "?t \<in> {GS_Parallel, GS_Fastest, GS_All}"
  obtain "is" g' where o: "ordered_indices ch (if ?par then GS_Adaptive else ?t) g = (is, g')" by force
  note set = ordered_indices_mset [OF assms(1) o]
  let ?is = "if ?par then ch_arrival ch is else is"
  have "mset (ch_arrival ch is) = mset is" using assms(1) by (simp add: fair_choice_def)
  then have is_set: "set ?is = {..<length (dg_members g)}" using set(1) by (metis set_mset_mset)
  then have ne: "?is \<noteq> []" using assms(2) by (metis lessThan_empty_iff length_0_conv set_empty)
  have eq: "fst (resolve_with_strategy ch host want_v6 s g) =
       (if ?t = GS_All then fst (parallel_loop host want_v6 True ?is [] De_Empty g') else fst (sequential_loop host want_v6 ?is De_Empty g'))"
    using assms(2) o
    by (cases ?t) (simp_all add: resolve_with_strategy_def effective_strategy_def [symmetric] run_parallel_def run_sequential_def Let_def parallel_loop_first)
  have "?t \<in> {GS_Sequential, GS_Fallback} \<longrightarrow> ?is = [0..<length (dg_members g)]" using o by (auto simp: ordered_indices_def Let_def)
  from that [OF is_set ne member_result_cong [OF set(2)] eq this] show thesis .
qed

text \<open>The interface the resolver relies on: an answer of a group is never empty.\<close>

locale dns_asker =
  fixes ask :: "'g \<Rightarrow> string \<Rightarrow> bool \<Rightarrow> group_strategy option \<Rightarrow> dns_error + ip_addr list"
  assumes answers_nonempty: "ask g host want_v6 s = Inr ips \<Longrightarrow> ips \<noteq> []"
begin

text \<open>Both families together (\<open>resolve_group_qtype_with_strategy\<close> for \<open>QType::Both\<close>) fail only when each of them does.\<close>

lemma both_families:
  "(\<exists>ips. ask g host False s = Inr ips) \<or> (\<exists>ips. ask g host True s = Inr ips) \<longleftrightarrow>
   (case ask g host False s of Inr v \<Rightarrow> v | Inl _ \<Rightarrow> []) @ (case ask g host True s of Inr v \<Rightarrow> v | Inl _ \<Rightarrow> []) \<noteq> []"
  by (auto dest: answers_nonempty split: sum.split)

end

text \<open>
  C33: A group answers when one of its members does. Whatever the strategy, the random choices and the order in which parallel queries
  end, a group with members returns the addresses of a member that answered, those of all members together under \<open>All\<close>, and never an
  empty list; it fails only when no member answered, and then with the error of one of the members, the last one in a sequential group;
  and a sequential group returns the answer of the first member that has one.
\<close>

theorem group_answers:
  assumes "fair_choice ch" "dg_members g \<noteq> []" "r = fst (resolve_with_strategy ch host want_v6 s g)"
  shows "(\<forall>vs. r = Inr vs \<longrightarrow> vs \<noteq> [] \<and>
      (if effective_strategy s g = GS_All
       then set vs = (\<Union>i < length (dg_members g). \<Union>(set ` {vs. member_result g host want_v6 i = Inr vs}))
       else \<exists>i < length (dg_members g). member_result g host want_v6 i = Inr vs)) \<and>
    (\<forall>e. r = Inl e \<longrightarrow> (\<forall>i < length (dg_members g). \<exists>e. member_result g host want_v6 i = Inl e) \<and>
       (\<exists>i < length (dg_members g). member_result g host want_v6 i = Inl e) \<and>
       (effective_strategy s g \<in> {GS_Sequential, GS_Fallback} \<longrightarrow> member_result g host want_v6 (length (dg_members g) - 1) = Inl e)) \<and>
    (effective_strategy s g \<in> {GS_Sequential, GS_Fallback} \<longrightarrow>
      (\<forall>i < length (dg_members g). (\<exists>vs. member_result g host want_v6 i = Inr vs) \<longrightarrow>
         (\<forall>j < i. \<exists>e. member_result g host want_v6 j = Inl e) \<longrightarrow> r = member_result g host want_v6 i))"
proof -
  obtain "is" g' where o: "set is = {..<length (dg_members g)}" "is \<noteq> []" "member_result g' = member_result g"
    "r = (if effective_strategy s g = GS_All then fst (parallel_loop host want_v6 True is [] De_Empty g')
          else fst (sequential_loop host want_v6 is De_Empty g'))"
    "effective_strategy s g \<in> {GS_Sequential, GS_Fallback} \<longrightarrow> is = [0..<length (dg_members g)]"
    using resolve_as_loop [OF assms(1,2)] assms(3) by metis
  have first: "r = member_result g host want_v6 i"
    if i: "effective_strategy s g \<in> {GS_Sequential, GS_Fallback}" "i < length (dg_members g)" "member_result g host want_v6 i = Inr vs"
      "\<forall>j < i. \<exists>e. member_result g host want_v6 j = Inl e" for i vs
  proof -
    have "is = [0..<i] @ i # [Suc i..<length (dg_members g)]"
      using o(5) i(1,2) upt_add_eq_append [of 0 i "length (dg_members g) - i"] by (auto simp: upt_conv_Cons)
    then have "List.find (\<lambda>i. \<exists>vs. member_result g host want_v6 i = Inr vs) is = Some i"
      using i(3,4) by (auto simp: find_Some_iff nth_append intro!: exI [of _ i])
    then show ?thesis using o(3,4) i(1,3) by (auto simp: sequential_loop_first)
  qed
  have last: "last is \<in> set is" "effective_strategy s g \<in> {GS_Sequential, GS_Fallback} \<Longrightarrow> last is = length (dg_members g) - 1"
    using o(2,5) by auto
  show ?thesis
  proof (cases "effective_strategy s g = GS_All")
    case True
    then show ?thesis using parallel_loop_all [of host want_v6 "is" "[]" De_Empty g' r] o by auto
  next
    case False
    then have "r = fst (sequential_loop host want_v6 is De_Empty g')" using o(4) by simp
    from sequential_loop_cases [OF this o(2)] show ?thesis using False o(1,3) first last
      by (auto dest: member_result_nonempty)
  qed
qed

interpretation dg: dns_asker "\<lambda>g host want_v6 s. fst (resolve_with_strategy ch host want_v6 s g)" for ch
proof
  fix g host want_v6 s ips
  assume r: "fst (resolve_with_strategy ch host want_v6 s g) = Inr ips"
  have par: "\<And>is g. fst (parallel_loop host want_v6 True is [] De_Empty g) = Inr ips \<Longrightarrow> ips \<noteq> []"
    using parallel_loop_all by blast
  have seq: "fst (sequential_loop host want_v6 is e g) = Inr ips \<Longrightarrow> ips \<noteq> []" for "is" e g
    by (cases "is = []") (auto dest!: sequential_loop_cases [OF sym] dest: member_result_nonempty)
  show "ips \<noteq> []" using r par seq
    by (auto simp: resolve_with_strategy_def run_parallel_def run_sequential_def Let_def parallel_loop_first
        split: if_splits prod.splits group_strategy.splits)
qed

text \<open>Rounds of a group under \<open>RoundRobin\<close> start at one member after the other.\<close>

lemma round_robin_starts:
  assumes "dg_members g \<noteq> []" "unat (dg_cursor g) + k < 2 ^ 64"
  shows "hd (fst (ordered_indices ch GS_RoundRobin (g\<lparr>dg_cursor := dg_cursor g + of_nat k\<rparr>))) = (unat (dg_cursor g) + k) mod length (dg_members g)"
proof -
  have "unat (dg_cursor g + of_nat k) = unat (dg_cursor g) + k"
    using assms(2) by (simp add: unat_word_ariths unat_of_nat)
  then show ?thesis using assms(1) by (simp add: ordered_indices_def Let_def hd_rotate_conv_nth)
qed

section \<open>Example\<close>

definition in_order :: choices where
  "in_order = \<lparr>ch_shuffle = (\<lambda>xs. xs), ch_draw = (\<lambda>_. 0), ch_arrival = rev\<rparr>"

lemma fair_in_order: "fair_choice in_order"
  by (simp add: fair_choice_def in_order_def)

definition sample_group :: dns_group where
  "sample_group = group_new ''g'' GS_Sequential [\<lambda>_ _. No_Reply, \<lambda>_ _. Reply (Inr [V4 1]) 5, \<lambda>_ _. Reply (Inr [V4 2]) 1]"

definition silent_group :: dns_group where
  "silent_group = group_new ''g'' GS_Parallel [\<lambda>_ _. Reply (Inl (De_Rejected ''r'')) 5, \<lambda>_ _. Reply (Inl (De_Rejected ''r'')) 7]"

theorem group_answers_witness:
  "fst (resolve_with_strategy in_order ''h'' False None sample_group) = Inr [V4 1] \<and>
   fst (resolve_with_strategy in_order ''h'' False None silent_group) = Inl (De_Rejected ''r'')"
proof (rule conjI)
  have m: "dg_members sample_group \<noteq> []" by (simp add: sample_group_def group_new_def)
  have "member_result sample_group ''h'' False 1 = Inr [V4 1]" "member_result sample_group ''h'' False 0 = Inl De_Timeout"
    "length (dg_members sample_group) = 3" "effective_strategy None sample_group = GS_Sequential"
    by (simp_all add: sample_group_def group_new_def member_result_def effective_strategy_def)
  note g = this
  have "1 < length (dg_members sample_group)" "\<forall>j < 1. \<exists>e. member_result sample_group ''h'' False j = Inl e" using g by auto
  then have "fst (resolve_with_strategy in_order ''h'' False None sample_group) = member_result sample_group ''h'' False 1"
    using group_answers [OF fair_in_order m refl, of "''h''" False None] g(1,4) by blast
  then show "fst (resolve_with_strategy in_order ''h'' False None sample_group) = Inr [V4 1]" using g(1) by simp
next
  let ?r = "fst (resolve_with_strategy in_order ''h'' False None silent_group)"
  have m: "dg_members silent_group \<noteq> []" by (simp add: silent_group_def group_new_def)
  have all: "member_result silent_group ''h'' False i = Inl (De_Rejected ''r'')" if "i < length (dg_members silent_group)" for i
    using that by (auto simp: silent_group_def group_new_def member_result_def less_Suc_eq)
  have t: "effective_strategy None silent_group = GS_Parallel" by (simp add: silent_group_def group_new_def effective_strategy_def)
  note a = group_answers [OF fair_in_order m refl, of "''h''" False None]
  show "?r = Inl (De_Rejected ''r'')"
  proof (cases ?r)
    case (Inl e)
    then show ?thesis using a all by auto
  next
    case (Inr vs)
    then show ?thesis using a all t by auto
  qed
qed

end
