(* ===== verification/Dns_Policy.thy ===== *)
theory Dns_Policy
  imports Classical_Parse Std_Ip_Text Dns_Group
begin

text \<open>
  The rules of the resolver (\<open>core-resolver/src/policy.rs\<close>): their data, the two notations they are written in, the matching of a host, and
  the throttling of rejections.

  Networks belong to the crate \<open>ipnet\<close>: their type is a parameter, with its parser and its \<open>contains\<close>. A rule set, found by its name, is
  an argument that says whether it matches a host and an address. A value of \<open>serde_yaml\<close> is seen through its accessors.
\<close>

section \<open>Data\<close>

record 'n policy_env =
  pe_unicode :: unicode
  pe_net_parse :: "string \<Rightarrow> 'n option"
  pe_net_contains :: "'n \<Rightarrow> ip_addr \<Rightarrow> bool"

record 'n query_options =
  qo_disable_cache :: bool
  qo_disable_optimistic_cache :: bool
  qo_rewrite_ttl :: "u32 option"
  qo_client_subnet :: "'n option"
  qo_strategy :: "group_strategy option"

definition query_options_default :: "'n query_options" where
  "query_options_default = \<lparr>qo_disable_cache = False, qo_disable_optimistic_cache = False, qo_rewrite_ttl = None,
     qo_client_subnet = None, qo_strategy = None\<rparr>"

datatype reject_method = RM_Default | RM_Drop

record reject_options =
  ro_method :: reject_method
  ro_no_drop :: bool

definition reject_options_default :: reject_options where
  "reject_options_default = \<lparr>ro_method = RM_Default, ro_no_drop = False\<rparr>"

datatype pre_rcode = RC_NOERROR | RC_FORMERR | RC_SERVFAIL | RC_NXDOMAIN | RC_NOTIMP | RC_REFUSED

definition to_ascii_uppercase :: "string \<Rightarrow> string" where
  "to_ascii_uppercase s = map ascii_upper s"

definition pre_rcode_parse :: "string \<Rightarrow> pre_rcode option" where
  "pre_rcode_parse s =
    (let v = to_ascii_uppercase s
     in if v \<in> {''NOERROR'', ''SUCCESS''} then Some RC_NOERROR
        else if v \<in> {''FORMERR'', ''FORMAT_ERROR''} then Some RC_FORMERR
        else if v \<in> {''SERVFAIL'', ''SERVER_FAILURE''} then Some RC_SERVFAIL
        else if v \<in> {''NXDOMAIN'', ''NAME_ERROR''} then Some RC_NXDOMAIN
        else if v \<in> {''NOTIMP'', ''NOT_IMPLEMENTED''} then Some RC_NOTIMP
        else if v = ''REFUSED'' then Some RC_REFUSED
        else None)"

fun pre_rcode_as_str :: "pre_rcode \<Rightarrow> string" where
  "pre_rcode_as_str RC_NOERROR = ''NOERROR''"
| "pre_rcode_as_str RC_FORMERR = ''FORMERR''"
| "pre_rcode_as_str RC_SERVFAIL = ''SERVFAIL''"
| "pre_rcode_as_str RC_NXDOMAIN = ''NXDOMAIN''"
| "pre_rcode_as_str RC_NOTIMP = ''NOTIMP''"
| "pre_rcode_as_str RC_REFUSED = ''REFUSED''"

record dns_rr =
  rr_name :: string
  rr_class :: string
  rr_rtype :: string
  rr_data :: string
  rr_ttl :: "u32 option"

text \<open>\<open>splitn\<close> at white space: the last of \<open>n\<close> pieces is the whole rest.\<close>

fun splitn_ws :: "nat \<Rightarrow> string list \<Rightarrow> string \<Rightarrow> string list" where
  "splitn_ws n [] piece = [piece]"
| "splitn_ws n (c # cs) piece =
    (if n \<le> 1 then [piece @ concat (c # cs)]
     else if is_whitespace c then piece # splitn_ws (n - 1) cs []
     else splitn_ws n cs (piece @ c))"

definition parse_u32 :: "string \<Rightarrow> u32 option" where
  "parse_u32 s = map_option of_nat (parse_unsigned (2 ^ 32) s)"

definition known_types :: "string list" where
  "known_types = [''A'', ''AAAA'', ''CNAME'', ''TXT'', ''PTR'', ''MX'', ''NS'', ''SOA'']"

definition dns_rr_parse :: "unicode \<Rightarrow> string \<Rightarrow> dns_rr option" where
  "dns_rr_parse u s =
    (let line = trim u s; toks = filter (\<lambda>t. t \<noteq> []) (splitn_ws 5 (utf8_chars line) [])
     in if line = [] then None
        else if length toks < 3 then None
        else
          (let upper0 = to_ascii_uppercase (toks ! 0)
           in if upper0 \<in> set known_types then
                Some \<lparr>rr_name = trim_end_matches CHR ''.'' (toks ! 1), rr_class = ''IN'', rr_rtype = upper0,
                  rr_data = join_with '' '' (drop 2 toks), rr_ttl = None\<rparr>
              else
                (let ttl = parse_u32 (toks ! 1);
                     idx1 = (if ttl \<noteq> None then 2 else 1);
                     idx = (if idx1 < length toks \<and> eq_ignore_ascii_case (toks ! idx1) ''IN'' then idx1 + 1 else idx1)
                 in if length toks \<le> idx + 1 then None
                    else Some \<lparr>rr_name = trim_end_matches CHR ''.'' (toks ! 0), rr_class = ''IN'',
                      rr_rtype = to_ascii_uppercase (toks ! idx), rr_data = join_with '' '' (drop (idx + 1) toks), rr_ttl = ttl\<rparr>)))"

record predefined_response =
  pr_rcode :: "pre_rcode option"
  pr_answer :: "dns_rr list"
  pr_ns :: "dns_rr list"
  pr_extra :: "dns_rr list"

definition predefined_default :: predefined_response where
  "predefined_default = \<lparr>pr_rcode = None, pr_answer = [], pr_ns = [], pr_extra = []\<rparr>"

definition answer_ips :: "unicode \<Rightarrow> predefined_response \<Rightarrow> ip_addr list" where
  "answer_ips u p =
     List.map_filter (\<lambda>r. if rr_rtype r \<in> {''A'', ''AAAA''} then parse_ip (trim u (rr_data r)) else None) (pr_answer p)"

datatype 'n dns_action =
    Act_Reject reject_options
  | Act_Accept "ip_addr list"
  | Act_Direct string
  | Act_Proxy string
  | Act_Fake
  | Act_Route string "'n query_options"
  | Act_Evaluate string "'n query_options"
  | Act_Respond
  | Act_Predefined predefined_response

fun action_is_terminal :: "'n dns_action \<Rightarrow> bool" where
  "action_is_terminal (Act_Evaluate _ _) = False"
| "action_is_terminal _ = True"

datatype 'n host_match =
    HM_Domain string
  | HM_Suffix string
  | HM_Keyword string
  | HM_Any
  | HM_Set string
  | HM_ResponseIpCidr 'n
  | HM_Not "'n host_match"
  | HM_Or "'n host_match list"
  | HM_And "'n host_match list"

record 'n policy_rule =
  pu_matcher :: "'n host_match"
  pu_action :: "'n dns_action"
  pu_source :: string

record 'n eval_context =
  ec_saved_response :: "ip_addr list option"
  ec_saved_opts :: "'n query_options option"

definition eval_context_default :: "'n eval_context" where
  "eval_context_default = \<lparr>ec_saved_response = None, ec_saved_opts = None\<rparr>"

section \<open>Matching\<close>

type_synonym set_index = "string \<Rightarrow> (string \<Rightarrow> ip_addr option \<Rightarrow> bool) option"

fun policy_matches :: "'n policy_env \<Rightarrow> set_index \<Rightarrow> 'n host_match \<Rightarrow> string \<Rightarrow> 'n eval_context \<Rightarrow> bool" where
  "policy_matches env idx HM_Any host ctx = True"
| "policy_matches env idx (HM_Domain d) host ctx = (host = to_lowercase (pe_unicode env) d)"
| "policy_matches env idx (HM_Suffix s0) host ctx =
    (let s = to_lowercase (pe_unicode env) (trim_start_matches CHR ''.'' s0) in host = s \<or> ends_with (CHR ''.'' # s) host)"
| "policy_matches env idx (HM_Keyword k) host ctx = contains_str (to_lowercase (pe_unicode env) k) host"
| "policy_matches env idx (HM_Set name) host ctx = (case idx name of Some m \<Rightarrow> m host None | None \<Rightarrow> False)"
| "policy_matches env idx (HM_ResponseIpCidr cidr) host ctx =
    (case ec_saved_response ctx of Some ips \<Rightarrow> list_ex (pe_net_contains env cidr) ips | None \<Rightarrow> False)"
| "policy_matches env idx (HM_Not inner) host ctx = (\<not> policy_matches env idx inner host ctx)"
| "policy_matches env idx (HM_Or ms) host ctx = list_ex (\<lambda>m. policy_matches env idx m host ctx) ms"
| "policy_matches env idx (HM_And ms) host ctx = list_all (\<lambda>m. policy_matches env idx m host ctx) ms"

section \<open>The notation in lines\<close>

definition strip_prefix_str :: "string \<Rightarrow> string \<Rightarrow> string option" where
  "strip_prefix_str p s = (if starts_with p s then Some (drop (length p) s) else None)"

function parse_lhs :: "'n policy_env \<Rightarrow> string \<Rightarrow> 'n host_match option" where
  "parse_lhs env lhs =
    (let s = trim (pe_unicode env) lhs
     in if s \<in> {''any'', ''*'', ''final'', ''''} then Some HM_Any
        else if starts_with ''='' s then Some (HM_Domain (drop 1 s))
        else if starts_with ''*.'' s then Some (HM_Suffix (drop 2 s))
        else if starts_with ''~'' s then Some (HM_Keyword (drop 1 s))
        else if starts_with ''domain:'' s then Some (HM_Domain (drop 7 s))
        else if starts_with ''suffix:'' s then Some (HM_Suffix (drop 7 s))
        else if starts_with ''keyword:'' s then Some (HM_Keyword (drop 8 s))
        else if starts_with ''set:'' s then Some (HM_Set (drop 4 s))
        else if starts_with ''geosite:'' s then Some (HM_Set (drop 8 s))
        else if starts_with ''geoip:'' s then Some (HM_Set (drop 6 s))
        else if starts_with ''ruleset:'' s then Some (HM_Set (drop 8 s))
        else if starts_with ''match_response:'' s then map_option HM_ResponseIpCidr (pe_net_parse env (drop 15 s))
        else if starts_with ''response:'' s then map_option HM_ResponseIpCidr (pe_net_parse env (drop 9 s))
        else if starts_with ''not:'' s then map_option HM_Not (parse_lhs env (drop 4 s))
        else Some (HM_Suffix s))"
  by pat_completeness auto
termination
proof (relation "measure (\<lambda>(env, lhs). length lhs)")
  fix env :: "'n policy_env" and lhs s
  assume s: "s = trim (pe_unicode env) lhs" "s \<notin> {''any'', ''*'', ''final'', ''''}"
  then have "s \<noteq> []" by simp
  then have "length (drop 4 s) < length s" by simp
  also have "\<dots> \<le> length lhs" using s(1) length_trim by simp
  finally show "((env, drop 4 s), env, lhs) \<in> measure (\<lambda>(env, lhs). length lhs)" by simp
qed simp

declare parse_lhs.simps [simp del]

definition client_subnet_of :: "'n policy_env \<Rightarrow> string \<Rightarrow> 'n option" where
  "client_subnet_of env v =
    (case pe_net_parse env v of
       Some n \<Rightarrow> Some n
     | None \<Rightarrow>
         (case parse_ip v of
            None \<Rightarrow> None
          | Some ip \<Rightarrow> pe_net_parse env (show_ip ip @ (case ip of V4 _ \<Rightarrow> ''/32'' | V6 _ \<Rightarrow> ''/128''))))"

definition after_eq :: "string \<Rightarrow> string" where
  "after_eq kv = (case split_once CHR ''='' kv of Some (_, v) \<Rightarrow> v | None \<Rightarrow> [])"

definition parse_opt :: "'n policy_env \<Rightarrow> string \<Rightarrow> 'n query_options \<Rightarrow> 'n query_options" where
  "parse_opt env raw o1 =
    (let part = trim (pe_unicode env) raw
     in if part = [] then o1
        else if part \<in> {''nocache'', ''no-cache'', ''disable_cache''} then o1\<lparr>qo_disable_cache := True\<rparr>
        else if part \<in> {''nooptcache'', ''no-optimistic'', ''disable_optimistic_cache''} then o1\<lparr>qo_disable_optimistic_cache := True\<rparr>
        else if starts_with ''ttl='' part then
          (case parse_u32 (drop 4 part) of Some t \<Rightarrow> o1\<lparr>qo_rewrite_ttl := Some t\<rparr> | None \<Rightarrow> o1)
        else if starts_with ''ecs='' part \<or> starts_with ''client_subnet='' part then
          (case client_subnet_of env (after_eq part) of Some n \<Rightarrow> o1\<lparr>qo_client_subnet := Some n\<rparr> | None \<Rightarrow> o1)
        else if starts_with ''strategy='' part then o1\<lparr>qo_strategy := group_strategy_parse (pe_unicode env) (after_eq part)\<rparr>
        else o1)"

definition parse_opts :: "'n policy_env \<Rightarrow> string \<Rightarrow> 'n query_options" where
  "parse_opts env s = fold (parse_opt env) (split_on CHR '','' s) query_options_default"

text \<open>\<open>split\<close> at any of several characters.\<close>

fun split_any :: "char list \<Rightarrow> string \<Rightarrow> string list" where
  "split_any seps [] = [[]]"
| "split_any seps (x # xs) =
    (if x \<in> set seps then [] # split_any seps xs
     else case split_any seps xs of p # ps \<Rightarrow> (x # p) # ps | [] \<Rightarrow> [[x]])"

definition reject_opt :: "unicode \<Rightarrow> string \<Rightarrow> reject_options \<Rightarrow> reject_options" where
  "reject_opt u raw ro =
    (let kv = trim u raw
     in if kv = ''no_drop'' \<or> kv = ''no-drop'' then ro\<lparr>ro_no_drop := True\<rparr>
        else case strip_prefix_str ''method='' kv of
            None \<Rightarrow> ro
          | Some v \<Rightarrow>
              (let m = to_ascii_lowercase v
               in if m = ''drop'' then ro\<lparr>ro_method := RM_Drop\<rparr>
                  else if m = ''default'' \<or> m = [] then ro\<lparr>ro_method := RM_Default\<rparr>
                  else ro))"

definition push_rr :: "(dns_rr \<Rightarrow> predefined_response \<Rightarrow> predefined_response) \<Rightarrow> dns_rr option \<Rightarrow> predefined_response \<Rightarrow> predefined_response" where
  "push_rr f rr pre = (case rr of Some r \<Rightarrow> f r pre | None \<Rightarrow> pre)"

definition add_answer :: "dns_rr \<Rightarrow> predefined_response \<Rightarrow> predefined_response" where
  "add_answer r pre = pre\<lparr>pr_answer := pr_answer pre @ [r]\<rparr>"

definition predefined_part :: "unicode \<Rightarrow> string \<Rightarrow> predefined_response \<Rightarrow> predefined_response" where
  "predefined_part u raw pre =
    (let p = trim u raw
     in if p = [] then pre
        else case strip_prefix_str ''ns:'' p of
            Some s \<Rightarrow> push_rr (\<lambda>r pre. pre\<lparr>pr_ns := pr_ns pre @ [r]\<rparr>) (dns_rr_parse u (trim u s)) pre
          | None \<Rightarrow>
              (case strip_prefix_str ''extra:'' p of
                 Some s \<Rightarrow> push_rr (\<lambda>r pre. pre\<lparr>pr_extra := pr_extra pre @ [r]\<rparr>) (dns_rr_parse u (trim u s)) pre
               | None \<Rightarrow> push_rr add_answer (dns_rr_parse u p) pre))"

definition parse_predefined :: "unicode \<Rightarrow> string \<Rightarrow> predefined_response" where
  "parse_predefined u rest =
    (let parts = split_on CHR '';'' (trim_start_matches CHR '':'' rest);
         f = trim u (hd parts);
         pre = (if f = [] then predefined_default
                else case pre_rcode_parse f of
                    Some c \<Rightarrow> predefined_default\<lparr>pr_rcode := Some c\<rparr>
                  | None \<Rightarrow> push_rr add_answer (dns_rr_parse u f) predefined_default)
     in fold (predefined_part u) (tl parts) pre)"

definition rcode_action :: "pre_rcode \<Rightarrow> 'n dns_action" where
  "rcode_action c = Act_Predefined (predefined_default\<lparr>pr_rcode := Some c\<rparr>)"

definition short_action :: "string \<Rightarrow> 'n dns_action option" where
  "short_action h =
    (if h = ''fake'' then Some Act_Fake
     else if h = ''respond'' then Some Act_Respond
     else if h = ''drop'' then Some (Act_Reject \<lparr>ro_method = RM_Drop, ro_no_drop = False\<rparr>)
     else if h \<in> {''refuse'', ''refused''} then Some (Act_Reject reject_options_default)
     else if h = ''nxdomain'' then Some (rcode_action RC_NXDOMAIN)
     else if h \<in> {''noerror'', ''empty'', ''null''} then Some (rcode_action RC_NOERROR)
     else if h = ''servfail'' then Some (rcode_action RC_SERVFAIL)
     else if h = ''formerr'' then Some (rcode_action RC_FORMERR)
     else if h = ''notimp'' then Some (rcode_action RC_NOTIMP)
     else None)"

definition parse_ip_list :: "unicode \<Rightarrow> string \<Rightarrow> ip_addr list" where
  "parse_ip_list u s = List.map_filter (\<lambda>p. parse_ip (trim u p)) (split_on CHR '','' s)"

text \<open>The last part of \<open>parse_rhs\<close>; the short actions have been taken before.\<close>

definition group_action :: "unicode \<Rightarrow> 'n query_options \<Rightarrow> string \<Rightarrow> 'n dns_action option" where
  "group_action u opts s =
    (if starts_with ''accept:'' s then
       (let ips = parse_ip_list u (drop 7 s) in if ips = [] then None else Some (Act_Accept ips))
     else if starts_with ''direct:'' s then Some (Act_Direct (drop 7 s))
     else if starts_with ''proxy:'' s then Some (Act_Proxy (drop 6 s))
     else if starts_with ''evaluate:'' s then Some (Act_Evaluate (drop 9 s) opts)
     else if starts_with ''route:'' s then Some (Act_Route (drop 6 s) opts)
     else if s = ''direct'' then Some (Act_Direct ''default'')
     else if s = ''proxy'' then Some (Act_Proxy ''default'')
     else Some (Act_Proxy s))"

definition parse_rhs :: "'n policy_env \<Rightarrow> string \<Rightarrow> 'n dns_action option" where
  "parse_rhs env rhs =
    (let u = pe_unicode env;
         (head0, opts) = (case split_once CHR ''?'' rhs of Some (a, b) \<Rightarrow> (a, parse_opts env b) | None \<Rightarrow> (rhs, query_options_default));
         h = trim u head0
     in if h = ''reject'' \<or> h = ''block'' then
          Some (Act_Reject (fold (reject_opt u) (tl (split_any [CHR ''?'', CHR '','', CHR ''&''] rhs)) reject_options_default))
        else case strip_prefix_str ''predefined'' h of
            Some rest \<Rightarrow> Some (Act_Predefined (parse_predefined u rest))
          | None \<Rightarrow>
              (case short_action h of
                 Some a \<Rightarrow> Some a
               | None \<Rightarrow>
                   (let listed = (case strip_prefix_str ''hosts:'' h of
                          Some rest \<Rightarrow> parse_ip_list u rest
                        | None \<Rightarrow> (case strip_prefix_str ''ip:'' h of Some rest \<Rightarrow> parse_ip_list u rest | None \<Rightarrow> []))
                    in if listed \<noteq> [] then Some (Act_Accept listed) else group_action u opts h)))"

definition parse_rule_line :: "'n policy_env \<Rightarrow> string \<Rightarrow> 'n policy_rule option" where
  "parse_rule_line env line =
    (let u = pe_unicode env; s = trim u line
     in if s = [] \<or> starts_with ''#'' s then None
        else case split_once_str ''->'' s of
            None \<Rightarrow> None
          | Some (lhs, rhs) \<Rightarrow>
              (case parse_lhs env (trim u lhs) of
                 None \<Rightarrow> None
               | Some m \<Rightarrow>
                   (case parse_rhs env (trim u rhs) of
                      None \<Rightarrow> None
                    | Some a \<Rightarrow> Some \<lparr>pu_matcher = m, pu_action = a, pu_source = line\<rparr>)))"

section \<open>The notation in mappings\<close>

record 'v yaml_ops =
  yo_as_str :: "'v \<Rightarrow> string option"
  yo_is_mapping :: "'v \<Rightarrow> bool"
  yo_get :: "'v \<Rightarrow> string \<Rightarrow> 'v option"
  yo_as_bool :: "'v \<Rightarrow> bool option"
  yo_as_u64 :: "'v \<Rightarrow> u64 option"
  yo_as_sequence :: "'v \<Rightarrow> 'v list option"
  yo_debug :: "'v \<Rightarrow> string"

definition yaml_str :: "'v yaml_ops \<Rightarrow> 'v \<Rightarrow> string \<Rightarrow> string option" where
  "yaml_str y v k = Option.bind (yo_get y v k) (yo_as_str y)"

definition yaml_bool :: "'v yaml_ops \<Rightarrow> 'v \<Rightarrow> string \<Rightarrow> bool" where
  "yaml_bool y v k = (case Option.bind (yo_get y v k) (yo_as_bool y) of Some b \<Rightarrow> b | None \<Rightarrow> False)"

definition yaml_u64 :: "'v yaml_ops \<Rightarrow> 'v \<Rightarrow> string \<Rightarrow> u64 option" where
  "yaml_u64 y v k = Option.bind (yo_get y v k) (yo_as_u64 y)"

definition yaml_seq :: "'v yaml_ops \<Rightarrow> 'v \<Rightarrow> string \<Rightarrow> string list option" where
  "yaml_seq y v k = map_option (List.map_filter (yo_as_str y)) (Option.bind (yo_get y v k) (yo_as_sequence y))"

definition or_else :: "'a option \<Rightarrow> 'a option \<Rightarrow> 'a option" where
  "or_else a b = (case a of Some x \<Rightarrow> Some x | None \<Rightarrow> b)"

definition mapping_matcher :: "'n policy_env \<Rightarrow> 'v yaml_ops \<Rightarrow> 'v \<Rightarrow> 'n host_match option" where
  "mapping_matcher env y v =
    (let get = yaml_str y v
     in case get ''match'' of
          Some s \<Rightarrow> parse_lhs env s
        | None \<Rightarrow> (case get ''domain'' of
            Some s \<Rightarrow> Some (HM_Domain s)
          | None \<Rightarrow> (case or_else (get ''suffix'') (get ''host'') of
              Some s \<Rightarrow> Some (HM_Suffix s)
            | None \<Rightarrow> (case get ''keyword'' of
                Some s \<Rightarrow> Some (HM_Keyword s)
              | None \<Rightarrow> (case or_else (or_else (or_else (get ''set'') (get ''geosite'')) (get ''geoip'')) (get ''ruleset'') of
                  Some s \<Rightarrow> Some (HM_Set s)
                | None \<Rightarrow> (case or_else (get ''match_response'') (get ''response'') of
                    Some s \<Rightarrow> map_option HM_ResponseIpCidr (pe_net_parse env s)
                  | None \<Rightarrow> Some HM_Any))))))"

text \<open>The addresses of the first of the keys that has any.\<close>

fun mapping_ips :: "unicode \<Rightarrow> 'v yaml_ops \<Rightarrow> 'v \<Rightarrow> string list \<Rightarrow> ip_addr list" where
  "mapping_ips u y v [] = []"
| "mapping_ips u y v (k # ks) =
    (let from_seq = (case yaml_seq y v k of Some xs \<Rightarrow> List.map_filter parse_ip xs | None \<Rightarrow> []);
         from_str = (case yaml_str y v k of Some s \<Rightarrow> parse_ip_list u s | None \<Rightarrow> [])
     in if from_seq \<noteq> [] then from_seq else if from_str \<noteq> [] then from_str else mapping_ips u y v ks)"

definition mapping_action :: "'n policy_env \<Rightarrow> 'v yaml_ops \<Rightarrow> 'v \<Rightarrow> 'n query_options \<Rightarrow> 'n dns_action option" where
  "mapping_action env y v opts =
    (let has = yaml_bool y v; get = yaml_str y v;
         ips = mapping_ips (pe_unicode env) y v [''accept'', ''hosts'', ''ips'']
     in if has ''drop'' then Some (Act_Reject \<lparr>ro_method = RM_Drop, ro_no_drop = has ''no_drop''\<rparr>)
        else if has ''reject'' \<or> has ''refuse'' then
          Some (Act_Reject \<lparr>ro_method = (if get ''method'' = Some ''drop'' then RM_Drop else RM_Default), ro_no_drop = has ''no_drop''\<rparr>)
        else if has ''nxdomain'' then Some (rcode_action RC_NXDOMAIN)
        else if has ''noerror'' then Some (rcode_action RC_NOERROR)
        else if has ''servfail'' then Some (rcode_action RC_SERVFAIL)
        else if has ''formerr'' then Some (rcode_action RC_FORMERR)
        else if has ''notimp'' then Some (rcode_action RC_NOTIMP)
        else if ips \<noteq> [] then Some (Act_Accept ips)
        else if has ''fake'' then Some Act_Fake
        else if has ''respond'' then Some Act_Respond
        else case get ''evaluate'' of
            Some g \<Rightarrow> Some (Act_Evaluate g opts)
          | None \<Rightarrow> map_option (\<lambda>g. Act_Route g opts) (or_else (get ''route'') (or_else (get ''direct'') (get ''proxy''))))"

definition parse_rule_value :: "'n policy_env \<Rightarrow> 'v yaml_ops \<Rightarrow> 'v \<Rightarrow> 'n policy_rule option" where
  "parse_rule_value env y v =
    (case yo_as_str y v of
       Some s \<Rightarrow> parse_rule_line env s
     | None \<Rightarrow>
         if \<not> yo_is_mapping y v then None
         else case mapping_matcher env y v of
             None \<Rightarrow> None
           | Some m \<Rightarrow>
               (let has = yaml_bool y v; u = pe_unicode env;
                    named = yaml_str y v ''strategy'';
                    strategy = Option.bind named (group_strategy_parse u)
                in if named \<noteq> None \<and> strategy = None then None
                   else
                     (let opts = \<lparr>qo_disable_cache = has ''no_cache'' \<or> has ''disable_cache'' \<or> has ''nocache'',
                            qo_disable_optimistic_cache = has ''no_optimistic_cache'' \<or> has ''disable_optimistic_cache'' \<or> has ''nooptcache'',
                            qo_rewrite_ttl = map_option ucast (yaml_u64 y v ''ttl''),
                            qo_client_subnet = Option.bind (or_else (yaml_str y v ''client_subnet'') (yaml_str y v ''ecs'')) (client_subnet_of env),
                            qo_strategy = strategy\<rparr>
                      in map_option (\<lambda>a. \<lparr>pu_matcher = m, pu_action = a, pu_source = yo_debug y v\<rparr>) (mapping_action env y v opts))))"

section \<open>Throttling of rejections\<close>

record reject_throttle =
  rt_counts :: "(string \<times> nat \<times> u32) list"
  rt_window :: nat
  rt_threshold :: u32

definition throttle_new :: "nat \<Rightarrow> u32 \<Rightarrow> reject_throttle" where
  "throttle_new window threshold = \<lparr>rt_counts = [], rt_window = window, rt_threshold = threshold\<rparr>"

definition throttle_default :: reject_throttle where
  "throttle_default = throttle_new (30 * 10 ^ 9) 50"

definition record_should_drop :: "string \<Rightarrow> nat \<Rightarrow> reject_throttle \<Rightarrow> bool \<times> reject_throttle" where
  "record_should_drop rule_source now t =
    (let (since, n) = (case map_of (rt_counts t) rule_source of Some g \<Rightarrow> g | None \<Rightarrow> (now, 0))
     in if rt_window t < now - since then (False, t\<lparr>rt_counts := amap_insert rule_source (now, 1) (rt_counts t)\<rparr>)
        else (let n' = saturating_add n 1
              in (rt_threshold t \<le> n', t\<lparr>rt_counts := amap_insert rule_source (since, n') (rt_counts t)\<rparr>)))"

definition throttle_reset :: "string \<Rightarrow> reject_throttle \<Rightarrow> reject_throttle" where
  "throttle_reset rule_source t = t\<lparr>rt_counts := amap_remove rule_source (rt_counts t)\<rparr>"

definition apply_reject_throttle :: "reject_options \<Rightarrow> string \<Rightarrow> nat \<Rightarrow> reject_throttle \<Rightarrow> reject_method \<times> reject_throttle" where
  "apply_reject_throttle opts rule_source now t =
    (if ro_method opts = RM_Drop \<or> ro_no_drop opts then (ro_method opts, t)
     else case record_should_drop rule_source now t of
         (True, t') \<Rightarrow> (RM_Drop, t')
       | (False, t') \<Rightarrow> (RM_Default, t'))"

section \<open>The engine\<close>

record 'n policy_engine =
  pg_rules :: "'n policy_rule list"
  pg_sets :: set_index
  pg_default :: "'n dns_action option"
  pg_throttle :: reject_throttle

definition default_action_of :: "'n policy_engine \<Rightarrow> 'n dns_action" where
  "default_action_of p = (case pg_default p of Some a \<Rightarrow> a | None \<Rightarrow> Act_Direct ''default'')"

fun decide_rules :: "'n policy_env \<Rightarrow> set_index \<Rightarrow> 'n policy_rule list \<Rightarrow> string \<Rightarrow> 'n dns_action option" where
  "decide_rules env idx [] host = None"
| "decide_rules env idx (r # rs) host =
    (if policy_matches env idx (pu_matcher r) host eval_context_default \<and> action_is_terminal (pu_action r) then Some (pu_action r)
     else decide_rules env idx rs host)"

definition policy_decide :: "'n policy_env \<Rightarrow> string \<Rightarrow> 'n policy_engine \<Rightarrow> 'n dns_action" where
  "policy_decide env host p =
    (case decide_rules env (pg_sets p) (pg_rules p) (to_lowercase (pe_unicode env) (trim_end_matches CHR ''.'' host)) of
       Some a \<Rightarrow> a
     | None \<Rightarrow> default_action_of p)"

section \<open>Calls of the throttle\<close>

text \<open>The throttle after a sequence of rejections, each with the options of its rule, the rule and the time.\<close>

type_synonym reject_call = "reject_options \<times> string \<times> nat"

definition throttle_after :: "reject_call list \<Rightarrow> reject_throttle \<Rightarrow> reject_throttle" where
  "throttle_after calls t = fold (\<lambda>(opts, source, now) t. snd (apply_reject_throttle opts source now t)) calls t"

text \<open>The times of the rejections of a rule that count: those that may still turn into drops.\<close>

definition calls_of :: "string \<Rightarrow> reject_call list \<Rightarrow> nat list" where
  "calls_of source calls = map (snd \<circ> snd) (filter (\<lambda>(opts, s, _). s = source \<and> ro_method opts = RM_Default \<and> \<not> ro_no_drop opts) calls)"

text \<open>These times cut into windows: a call opens a window, and the calls up to its length later belong to it.\<close>

function windows :: "nat \<Rightarrow> nat list \<Rightarrow> nat list list" where
  "windows w [] = []"
| "windows w (t # ts) = (t # takeWhile (\<lambda>x. x \<le> t + w) ts) # windows w (dropWhile (\<lambda>x. x \<le> t + w) ts)"
  by pat_completeness auto
termination by (relation "measure (\<lambda>(w, ts). length ts)") (auto simp: less_Suc_eq_le length_dropWhile_le)

lemma windows_Nil_iff [simp]: "windows w ts = [] \<longleftrightarrow> ts = []"
  by (cases ts) simp_all

lemma windows_last_nonempty: "ts \<noteq> [] \<Longrightarrow> last (windows w ts) \<noteq> []"
proof (induction w ts rule: windows.induct)
  case (2 w t ts)
  show ?case
  proof (cases "dropWhile (\<lambda>x. x \<le> t + w) ts = []")
    case True
    then show ?thesis unfolding windows.simps True by simp
  next
    case False
    then show ?thesis using 2 by simp
  qed
qed simp

lemma windows_snoc:
  "windows w (ts @ [x]) =
    (if ts = [] then [[x]]
     else if hd (last (windows w ts)) + w < x then windows w ts @ [[x]]
     else butlast (windows w ts) @ [last (windows w ts) @ [x]])"
proof (induction w ts rule: windows.induct)
  case (2 w t ts)
  let ?in = "\<lambda>x. x \<le> t + w"
  show ?case
  proof (cases "\<forall>x \<in> set ts. ?in x")
    case True
    then have all: "takeWhile ?in ts = ts" "dropWhile ?in ts = []" "takeWhile ?in (ts @ [x]) = (if ?in x then ts @ [x] else ts)"
      "dropWhile ?in (ts @ [x]) = (if ?in x then [] else [x])"
      by (simp_all add: takeWhile_append dropWhile_append)
    show ?thesis unfolding append_Cons windows.simps all by simp
  next
    case False
    then have d: "dropWhile ?in ts \<noteq> []" by (simp add: dropWhile_eq_Nil_conv)
    have "takeWhile ?in (ts @ [x]) = takeWhile ?in ts" "dropWhile ?in (ts @ [x]) = dropWhile ?in ts @ [x]"
      using False by (auto simp: takeWhile_append dropWhile_append)
    then show ?thesis using 2 d by (simp add: False)
  qed
qed simp

lemma record_should_drop_counts:
  "rt_counts (snd (record_should_drop source now t)) =
    amap_insert source (case map_of (rt_counts t) source of
        Some (since, n) \<Rightarrow> if rt_window t < now - since then (now, 1) else (since, saturating_add n 1)
      | None \<Rightarrow> (now, 1)) (rt_counts t)"
  "rt_window (snd (record_should_drop source now t)) = rt_window t"
  "rt_threshold (snd (record_should_drop source now t)) = rt_threshold t"
  "fst (record_should_drop source now t) \<longleftrightarrow>
    (case map_of (rt_counts t) source of
        Some (since, n) \<Rightarrow> \<not> rt_window t < now - since \<and> rt_threshold t \<le> saturating_add n 1
      | None \<Rightarrow> rt_threshold t \<le> 1)"
  by (auto simp: record_should_drop_def saturating_add_def Let_def split: option.split prod.split)

lemma apply_counting:
  assumes "ro_method opts = RM_Default" "\<not> ro_no_drop opts"
  shows "snd (apply_reject_throttle opts source now t) = snd (record_should_drop source now t)"
    "fst (apply_reject_throttle opts source now t) = (if fst (record_should_drop source now t) then RM_Drop else RM_Default)"
  using assms by (auto simp: apply_reject_throttle_def split: prod.split bool.split)

text \<open>The counter of a rule holds the beginning of its last window and the number of calls in it, as far as 32 bits go.\<close>

definition window_count :: "nat list \<Rightarrow> u32" where
  "window_count calls = of_nat (min (length calls) (2 ^ 32 - 1))"

lemma unat_window_count: "unat (window_count calls) = min (length calls) (2 ^ 32 - 1)"
  by (simp add: window_count_def unat_of_nat)

lemma window_count_snoc: "saturating_add (window_count calls) 1 = window_count (calls @ [x])"
proof (rule iffD2 [OF word_unat_eq_iff])
  show "unat (saturating_add (window_count calls) 1) = unat (window_count (calls @ [x]))"
    unfolding unat_saturating_add unat_window_count by simp
qed

lemma window_count_le: "th \<le> window_count calls \<longleftrightarrow> unat th \<le> length calls"
proof -
  have "unat th \<le> 2 ^ 32 - 1" using unat_bound [of th] by simp
  then show ?thesis by (simp add: word_le_nat_alt unat_window_count)
qed

lemma throttle_counts:
  assumes "t = throttle_after calls (throttle_new w th)"
  shows "rt_window t = w \<and> rt_threshold t = th \<and>
    map_of (rt_counts t) source =
      (if calls_of source calls = [] then None
       else Some (hd (last (windows w (calls_of source calls))), window_count (last (windows w (calls_of source calls)))))"
  using assms
proof (induction calls arbitrary: t rule: rev_induct)
  case (snoc c calls)
  obtain opts s now where c: "c = (opts, s, now)" by (cases c)
  define t1 where "t1 = throttle_after calls (throttle_new w th)"
  have t: "t = snd (apply_reject_throttle opts s now t1)" using snoc.prems by (simp add: c t1_def throttle_after_def)
  note IH = snoc.IH [OF t1_def]
  let ?ts = "calls_of source calls" and ?counts = "ro_method opts = RM_Default \<and> \<not> ro_no_drop opts"
  have calls: "calls_of source (calls @ [c]) = (if s = source \<and> ?counts then ?ts @ [now] else ?ts)"
    by (auto simp: calls_of_def c)
  show ?case
  proof (cases ?counts)
    case False
    then have "t = t1" using t by (cases "ro_method opts") (auto simp: apply_reject_throttle_def)
    then show ?thesis using IH False unfolding calls by auto
  next
    case True
    note t = t [unfolded apply_counting [OF conjunct1 [OF True] conjunct2 [OF True]]]
    show ?thesis
    proof (cases "s = source \<and> ?ts \<noteq> []")
      case False
      then show ?thesis using IH True unfolding t calls
        by (auto simp: record_should_drop_counts map_of_amap_insert window_count_def)
    next
      case ts: True
      then show ?thesis using IH True windows_last_nonempty [of ?ts w] window_count_snoc [of "last (windows w ?ts)" now] unfolding t calls
        by (auto simp: record_should_drop_counts map_of_amap_insert windows_snoc less_diff_conv add.commute window_count_def)
    qed
  qed
qed (simp add: throttle_after_def throttle_new_def calls_of_def)

text \<open>
  C34: Rejections of one rule turn into drops at the threshold of a window. The times at which a rule rejected are cut into windows: the
  first rejection opens one, and the first rejection later than its length opens the next. A rejection is a drop exactly when it brings
  the number of rejections in its window to the threshold or above it, however many there are and whatever other rules reject in between,
  except that the rejection that opens a window other than the first is always a refusal, even with a threshold of one or none. A rule
  whose method is to drop, or whose options forbid to turn to drops, keeps its method and counts for nothing.
\<close>

theorem rejections_dropped_from_threshold:
  "fst (apply_reject_throttle opts source now (throttle_after calls (throttle_new w th))) =
    (if ro_method opts = RM_Drop \<or> ro_no_drop opts then ro_method opts
     else
       (let ws = windows w (calls_of source calls @ [now])
        in if length (last ws) = 1 \<and> 1 < length ws then RM_Default
           else if unat th \<le> length (last ws) then RM_Drop else RM_Default))"
proof (cases "ro_method opts = RM_Drop \<or> ro_no_drop opts")
  case True
  then show ?thesis by (simp add: apply_reject_throttle_def)
next
  case False
  then have counts: "ro_method opts = RM_Default" "\<not> ro_no_drop opts" by (cases "ro_method opts", simp_all)
  let ?t = "throttle_after calls (throttle_new w th)" and ?ts = "calls_of source calls"
  let ?lw = "last (windows w ?ts)"
  note c = throttle_counts [OF refl, of calls w th source]
  have th: "th \<le> 1 \<longleftrightarrow> unat th \<le> 1" by (simp add: word_le_nat_alt)
  show ?thesis
  proof (cases "?ts = []")
    case True
    then show ?thesis using c False th unfolding apply_counting [OF counts] by (simp add: record_should_drop_counts)
  next
    case ts: False
    note ne = windows_last_nonempty [OF ts, of w]
    then have last: "1 < length (?lw @ [now])" by (cases ?lw) simp_all
    have "fst (record_should_drop source now ?t) \<longleftrightarrow> \<not> hd ?lw + w < now \<and> th \<le> window_count (?lw @ [now])"
      using c ts window_count_snoc [of ?lw now] by (auto simp: record_should_drop_counts less_diff_conv add.commute)
    then have r: "fst (record_should_drop source now ?t) \<longleftrightarrow> \<not> hd ?lw + w < now \<and> unat th \<le> length ?lw + 1"
      by (simp add: window_count_le)
    have ws: "windows w (?ts @ [now]) = (if hd ?lw + w < now then windows w ?ts @ [[now]] else butlast (windows w ?ts) @ [?lw @ [now]])"
      using ts by (simp add: windows_snoc)
    show ?thesis using r ne last False ts unfolding apply_counting [OF counts] ws by (cases "hd ?lw + w < now") (simp_all add: Let_def)
  qed
qed

text \<open>In the first window the third rejection is dropped; the one that opens the next window is not.\<close>

theorem rejections_dropped_from_threshold_witness:
  "fst (apply_reject_throttle reject_options_default ''r'' 12
     (throttle_after [(reject_options_default, ''r'', 10), (reject_options_default, ''q'', 90), (reject_options_default, ''r'', 11)] (throttle_new 5 3))) = RM_Drop \<and>
   fst (apply_reject_throttle reject_options_default ''r'' 16 (throttle_after [(reject_options_default, ''r'', 10)] (throttle_new 5 1))) = RM_Default"
  unfolding rejections_dropped_from_threshold by (simp add: reject_options_default_def calls_of_def Let_def)

section \<open>Written rules read back\<close>

definition token_char :: "char \<Rightarrow> bool" where
  "token_char c \<longleftrightarrow> (of_char c :: nat) < 128 \<and> \<not> ascii_space c \<and> c \<noteq> CHR ''>'' \<and> c \<noteq> CHR ''?'' \<and> c \<noteq> CHR '',''"

definition plain_token :: "string \<Rightarrow> bool" where
  "plain_token s \<longleftrightarrow> s \<noteq> [] \<and> list_all token_char s"

text \<open>
  The forms of a rule as the notation describes them: how each is written, what it stands for, and which words and names it is written
  with. A name is free of white space and of the marks of the notation; one that stands alone has none of the marks of the other forms.
\<close>

definition bare_name :: "string \<Rightarrow> bool" where
  "bare_name s \<longleftrightarrow> plain_token s \<and> set s \<inter> set '':=*~#'' = {}"

datatype 'n match_form =
    MF_Any string
  | MF_Domain string string
  | MF_Suffix string string
  | MF_Bare string
  | MF_Keyword string string
  | MF_Set string string
  | MF_Response string 'n
  | MF_Not "'n match_form"

primrec match_text :: "('n \<Rightarrow> string) \<Rightarrow> 'n match_form \<Rightarrow> string" where
  "match_text show_net (MF_Any word) = word"
| "match_text show_net (MF_Domain word d) = word @ d"
| "match_text show_net (MF_Suffix word s) = word @ s"
| "match_text show_net (MF_Bare s) = s"
| "match_text show_net (MF_Keyword word k) = word @ k"
| "match_text show_net (MF_Set word name) = word @ name"
| "match_text show_net (MF_Response word n) = word @ show_net n"
| "match_text show_net (MF_Not f) = ''not:'' @ match_text show_net f"

primrec match_meaning :: "'n match_form \<Rightarrow> 'n host_match" where
  "match_meaning (MF_Any _) = HM_Any"
| "match_meaning (MF_Domain _ d) = HM_Domain d"
| "match_meaning (MF_Suffix _ s) = HM_Suffix s"
| "match_meaning (MF_Bare s) = HM_Suffix s"
| "match_meaning (MF_Keyword _ k) = HM_Keyword k"
| "match_meaning (MF_Set _ name) = HM_Set name"
| "match_meaning (MF_Response _ n) = HM_ResponseIpCidr n"
| "match_meaning (MF_Not f) = HM_Not (match_meaning f)"

text \<open>A network is written so that \<open>ipnet\<close> reads it back.\<close>

definition net_readable :: "'n policy_env \<Rightarrow> ('n \<Rightarrow> string) \<Rightarrow> 'n \<Rightarrow> bool" where
  "net_readable env show_net n \<longleftrightarrow> plain_token (show_net n) \<and> pe_net_parse env (show_net n) = Some n"

primrec match_writable :: "'n policy_env \<Rightarrow> ('n \<Rightarrow> string) \<Rightarrow> 'n match_form \<Rightarrow> bool" where
  "match_writable env show_net (MF_Any word) = (word \<in> {''any'', ''*'', ''final''})"
| "match_writable env show_net (MF_Domain word d) = (word \<in> {''domain:'', ''=''} \<and> plain_token d)"
| "match_writable env show_net (MF_Suffix word s) = (word \<in> {''suffix:'', ''*.''} \<and> plain_token s)"
| "match_writable env show_net (MF_Bare s) = (bare_name s \<and> s \<notin> {''any'', ''final''})"
| "match_writable env show_net (MF_Keyword word k) = (word \<in> {''keyword:'', ''~''} \<and> plain_token k)"
| "match_writable env show_net (MF_Set word name) = (word \<in> {''set:'', ''geosite:'', ''geoip:'', ''ruleset:''} \<and> plain_token name)"
| "match_writable env show_net (MF_Response word n) = (word \<in> {''match_response:'', ''response:''} \<and> net_readable env show_net n)"
| "match_writable env show_net (MF_Not f) = match_writable env show_net f"

datatype 'n opt_form =
    OF_No_Cache string
  | OF_No_Optimistic string
  | OF_Ttl u32
  | OF_Subnet string 'n
  | OF_Subnet_Of string ip_addr 'n
  | OF_Strategy string group_strategy

primrec opt_text :: "('n \<Rightarrow> string) \<Rightarrow> 'n opt_form \<Rightarrow> string" where
  "opt_text show_net (OF_No_Cache word) = word"
| "opt_text show_net (OF_No_Optimistic word) = word"
| "opt_text show_net (OF_Ttl t) = ''ttl='' @ show_nat (unat t)"
| "opt_text show_net (OF_Subnet word n) = word @ show_net n"
| "opt_text show_net (OF_Subnet_Of word ip _) = word @ show_ip ip"
| "opt_text show_net (OF_Strategy name _) = ''strategy='' @ name"

primrec opt_meaning :: "'n opt_form \<Rightarrow> 'n query_options \<Rightarrow> 'n query_options" where
  "opt_meaning (OF_No_Cache _) o1 = o1\<lparr>qo_disable_cache := True\<rparr>"
| "opt_meaning (OF_No_Optimistic _) o1 = o1\<lparr>qo_disable_optimistic_cache := True\<rparr>"
| "opt_meaning (OF_Ttl t) o1 = o1\<lparr>qo_rewrite_ttl := Some t\<rparr>"
| "opt_meaning (OF_Subnet _ n) o1 = o1\<lparr>qo_client_subnet := Some n\<rparr>"
| "opt_meaning (OF_Subnet_Of _ _ n) o1 = o1\<lparr>qo_client_subnet := Some n\<rparr>"
| "opt_meaning (OF_Strategy _ st) o1 = o1\<lparr>qo_strategy := Some st\<rparr>"

definition strategy_names :: "(string \<times> group_strategy) list" where
  "strategy_names =
    [(''round-robin'', GS_RoundRobin), (''roundrobin'', GS_RoundRobin), (''rr'', GS_RoundRobin), (''random'', GS_Random),
     (''parallel'', GS_Parallel), (''fastest'', GS_Parallel), (''adaptive'', GS_Adaptive), (''load-balance'', GS_Adaptive),
     (''load-balance-adaptive'', GS_Adaptive), (''sequential'', GS_Sequential), (''fallback'', GS_Sequential), (''all'', GS_All)]"

text \<open>An address stands for the network of this address alone; written without a length it is no network.\<close>

primrec opt_writable :: "'n policy_env \<Rightarrow> ('n \<Rightarrow> string) \<Rightarrow> 'n opt_form \<Rightarrow> bool" where
  "opt_writable env show_net (OF_No_Cache word) = (word \<in> {''nocache'', ''no-cache'', ''disable_cache''})"
| "opt_writable env show_net (OF_No_Optimistic word) = (word \<in> {''nooptcache'', ''no-optimistic'', ''disable_optimistic_cache''})"
| "opt_writable env show_net (OF_Ttl t) = True"
| "opt_writable env show_net (OF_Subnet word n) = (word \<in> {''ecs='', ''client_subnet=''} \<and> net_readable env show_net n)"
| "opt_writable env show_net (OF_Subnet_Of word ip n) =
     (word \<in> {''ecs='', ''client_subnet=''} \<and> pe_net_parse env (show_ip ip) = None \<and>
      pe_net_parse env (show_ip ip @ (case ip of V4 _ \<Rightarrow> ''/32'' | V6 _ \<Rightarrow> ''/128'')) = Some n)"
| "opt_writable env show_net (OF_Strategy name st) = ((name, st) \<in> set strategy_names)"

definition opts_text :: "('n \<Rightarrow> string) \<Rightarrow> 'n opt_form list \<Rightarrow> string" where
  "opts_text show_net os = (if os = [] then [] else ''?'' @ join_with '','' (map (opt_text show_net) os))"

definition opts_meaning :: "'n opt_form list \<Rightarrow> 'n query_options" where
  "opts_meaning os = fold opt_meaning os query_options_default"

datatype reject_form = RF_Method reject_method | RF_No_Drop string

primrec reject_text :: "reject_form \<Rightarrow> string" where
  "reject_text (RF_Method m) = (case m of RM_Drop \<Rightarrow> ''method=drop'' | RM_Default \<Rightarrow> ''method=default'')"
| "reject_text (RF_No_Drop word) = word"

primrec reject_meaning :: "reject_form \<Rightarrow> reject_options \<Rightarrow> reject_options" where
  "reject_meaning (RF_Method m) ro = ro\<lparr>ro_method := m\<rparr>"
| "reject_meaning (RF_No_Drop _) ro = ro\<lparr>ro_no_drop := True\<rparr>"

primrec reject_writable :: "reject_form \<Rightarrow> bool" where
  "reject_writable (RF_Method _) = True"
| "reject_writable (RF_No_Drop word) = (word \<in> {''no_drop'', ''no-drop''})"

definition action_words :: "(string \<times> 'n dns_action) list" where
  "action_words =
    [(''fake'', Act_Fake), (''respond'', Act_Respond), (''drop'', Act_Reject \<lparr>ro_method = RM_Drop, ro_no_drop = False\<rparr>),
     (''refuse'', Act_Reject reject_options_default), (''refused'', Act_Reject reject_options_default),
     (''nxdomain'', rcode_action RC_NXDOMAIN), (''noerror'', rcode_action RC_NOERROR), (''empty'', rcode_action RC_NOERROR),
     (''null'', rcode_action RC_NOERROR), (''servfail'', rcode_action RC_SERVFAIL), (''formerr'', rcode_action RC_FORMERR),
     (''notimp'', rcode_action RC_NOTIMP), (''direct'', Act_Direct ''default''), (''proxy'', Act_Proxy ''default'')]"

datatype 'n action_form =
    AF_Word string "'n dns_action"
  | AF_Reject string "reject_form list"
  | AF_Rcode pre_rcode
  | AF_Addresses string "ip_addr list"
  | AF_Direct string "'n opt_form list"
  | AF_Proxy string "'n opt_form list"
  | AF_Bare string "'n opt_form list"
  | AF_Route string "'n opt_form list"
  | AF_Evaluate string "'n opt_form list"

primrec action_text :: "('n \<Rightarrow> string) \<Rightarrow> 'n action_form \<Rightarrow> string" where
  "action_text show_net (AF_Word word _) = word"
| "action_text show_net (AF_Reject word rs) = word @ (if rs = [] then [] else ''?'' @ join_with ''&'' (map reject_text rs))"
| "action_text show_net (AF_Rcode c) = ''predefined:'' @ pre_rcode_as_str c"
| "action_text show_net (AF_Addresses word ips) = word @ join_with '','' (map show_ip ips)"
| "action_text show_net (AF_Direct g os) = ''direct:'' @ g @ opts_text show_net os"
| "action_text show_net (AF_Proxy g os) = ''proxy:'' @ g @ opts_text show_net os"
| "action_text show_net (AF_Bare g os) = g @ opts_text show_net os"
| "action_text show_net (AF_Route g os) = ''route:'' @ g @ opts_text show_net os"
| "action_text show_net (AF_Evaluate g os) = ''evaluate:'' @ g @ opts_text show_net os"

text \<open>Only a route and an evaluation keep the options; \<open>direct\<close>, \<open>proxy\<close> and a name alone lose them.\<close>

primrec action_meaning :: "'n action_form \<Rightarrow> 'n dns_action" where
  "action_meaning (AF_Word _ a) = a"
| "action_meaning (AF_Reject _ rs) = Act_Reject (fold reject_meaning rs reject_options_default)"
| "action_meaning (AF_Rcode c) = rcode_action c"
| "action_meaning (AF_Addresses _ ips) = Act_Accept ips"
| "action_meaning (AF_Direct g _) = Act_Direct g"
| "action_meaning (AF_Proxy g _) = Act_Proxy g"
| "action_meaning (AF_Bare g _) = Act_Proxy g"
| "action_meaning (AF_Route g os) = Act_Route g (opts_meaning os)"
| "action_meaning (AF_Evaluate g os) = Act_Evaluate g (opts_meaning os)"

primrec action_writable :: "'n policy_env \<Rightarrow> ('n \<Rightarrow> string) \<Rightarrow> 'n action_form \<Rightarrow> bool" where
  "action_writable env show_net (AF_Word word a) = ((word, a) \<in> set action_words)"
| "action_writable env show_net (AF_Reject word rs) = (word \<in> {''reject'', ''block''} \<and> list_all reject_writable rs)"
| "action_writable env show_net (AF_Rcode c) = True"
| "action_writable env show_net (AF_Addresses word ips) = (word \<in> {''accept:'', ''hosts:'', ''ip:''} \<and> ips \<noteq> [])"
| "action_writable env show_net (AF_Direct g os) = (plain_token g \<and> list_all (opt_writable env show_net) os)"
| "action_writable env show_net (AF_Proxy g os) = (plain_token g \<and> list_all (opt_writable env show_net) os)"
| "action_writable env show_net (AF_Bare g os) =
     (bare_name g \<and> g \<notin> {''reject'', ''block''} \<and> g \<notin> fst ` set (action_words :: (string \<times> 'n dns_action) list) \<and>
      \<not> starts_with ''predefined'' g \<and> list_all (opt_writable env show_net) os)"
| "action_writable env show_net (AF_Route g os) = (plain_token g \<and> list_all (opt_writable env show_net) os)"
| "action_writable env show_net (AF_Evaluate g os) = (plain_token g \<and> list_all (opt_writable env show_net) os)"

lemma trim_tight:
  assumes "is_ascii s" "s \<noteq> []" "\<not> ascii_space (hd s)" "\<not> ascii_space (last s)"
  shows "trim u s = s"
proof -
  have "dropWhile ascii_space s = s" using assms(2,3) by (cases s) auto
  moreover have "dropWhile ascii_space (rev s) = rev s" using assms(2,4) by (cases s rule: rev_cases) auto
  ultimately show ?thesis using assms(1) by (simp add: trim_def trim_end_while_def)
qed

text \<open>Text in which no white space occurs.\<close>

definition tight :: "string \<Rightarrow> bool" where
  "tight s \<longleftrightarrow> is_ascii s \<and> (\<forall>c \<in> set s. \<not> ascii_space c \<and> c \<noteq> CHR ''>'')"

lemma trim_of_tight [simp]:
  assumes "tight s"
  shows "trim u s = s"
proof (cases "s = []")
  case False
  then show ?thesis using assms unfolding tight_def by (intro trim_tight) simp_all
qed (simp add: trim_def trim_end_while_def)

lemma tight_append [simp]: "tight (a @ b) \<longleftrightarrow> tight a \<and> tight b"
  by (auto simp: tight_def)

lemma tight_Nil [simp]: "tight []"
  by (simp add: tight_def)

lemma tight_Cons: "tight (c # s) \<longleftrightarrow> (of_char c :: nat) < 128 \<and> \<not> ascii_space c \<and> c \<noteq> CHR ''>'' \<and> tight s"
  by (auto simp: tight_def)

lemma token_char_tight: "list_all token_char s \<Longrightarrow> tight s"
  unfolding list_all_iff tight_def is_ascii_def token_char_def by blast

lemma plain_tight: "plain_token s \<Longrightarrow> tight s"
  by (simp add: plain_token_def token_char_tight)

lemma token_char_not: "list_all token_char s \<Longrightarrow> CHR ''?'' \<notin> set s \<and> CHR '','' \<notin> set s \<and> CHR ''>'' \<notin> set s"
  unfolding list_all_iff token_char_def by blast

lemma split_once_plain: "c \<notin> set a \<Longrightarrow> split_once c (a @ c # b) = Some (a, b)"
  by (induction a) (auto simp: split_once_def)

lemma split_on_none: "c \<notin> set s \<Longrightarrow> split_on c s = [s]"
  by (induction s) auto

lemma split_on_joined:
  assumes "xs \<noteq> []" "\<forall>x \<in> set xs. c \<notin> set x"
  shows "split_on c (join_with [c] xs) = xs"
  using assms
proof (induction "[c]" xs rule: join_with.induct)
  case (3 x y xs)
  have "split_on c (a @ c # b) = a # split_on c b" if "c \<notin> set a" for a b using that by (induction a) auto
  then show ?case using 3 by simp
qed (simp_all add: split_on_none)

lemma digit_token_char:
  assumes "to_digit 16 c \<noteq> None"
  shows "token_char c"
proof -
  have "to_digit 16 CHR ''>'' = None" "to_digit 16 CHR ''?'' = None" "to_digit 16 CHR '','' = None" by code_simp+
  then have "c \<noteq> CHR ''>''" "c \<noteq> CHR ''?''" "c \<noteq> CHR '',''" using assms by auto
  moreover have "48 \<le> (of_char c :: nat)" "(of_char c :: nat) \<le> 122"
    using assms by (simp_all add: to_digit_def Let_def split: if_splits)
  ultimately show ?thesis by (simp add: token_char_def ascii_space_def Let_def)
qed

lemma decimal_digit: "to_digit 10 c \<noteq> None \<Longrightarrow> to_digit 16 c \<noteq> None"
  by (auto simp: to_digit_def Let_def split: option.splits if_splits)

lemma token_show_base: "list_all token_char (show_base 10 n)" "list_all token_char (show_base 16 n)"
  using show_base_digits [of 10 n] show_base_digits [of 16 n] digit_token_char decimal_digit by (simp_all add: list_all_iff)

lemma token_joined: "list_all (list_all token_char) xs \<Longrightarrow> list_all token_char sep \<Longrightarrow> list_all token_char (join_with sep xs)"
  by (induction sep xs rule: join_with.induct) auto

lemma token_marks: "token_char CHR '':''" "token_char CHR ''.''" "token_char CHR ''f''"
  by code_simp+

lemma plain_show_ip: "plain_token (show_ip ip)"
proof -
  have v4: "list_all token_char (show_ipv4 a)" for a
    unfolding show_ipv4_def by (rule token_joined) (simp_all add: list.pred_map comp_def token_marks show_nat_def token_show_base list_all_iff [of _ "octets4 a"])
  have hex: "list_all token_char (join_with '':'' (map show_hex gs))" for gs
    by (rule token_joined) (simp_all add: list.pred_map comp_def token_marks show_hex_def token_show_base list_all_iff [of _ gs])
  have "list_all token_char (show_ipv6 w)" for w
    using v4 hex by (auto simp: show_ipv6_def Let_def token_marks split: option.split prod.split)
  then have "list_all token_char (show_ip ip)" using v4 by (cases ip) auto
  then show ?thesis using show_ip_plain [of ip] by (simp add: plain_token_def plain_host_def)
qed

lemma split_arrow: "CHR ''>'' \<notin> set a \<Longrightarrow> split_once_str ''->'' (a @ ''->'' @ b) = Some (a, b)"
proof (induction a)
  case (Cons x a)
  have "\<not> starts_with ''->'' (x # a @ ''->'' @ b)" using Cons.prems by (cases a) (auto simp: starts_with_def)
  then show ?case using Cons by simp
qed (simp add: starts_with_def)

lemmas tight_text = tight_Cons ascii_space_def

lemma starts_with_set: "starts_with p s \<Longrightarrow> set p \<subseteq> set s"
  using set_take_subset [of "length p" s] by (auto simp: starts_with_def)

lemma bare_plain: "bare_name s \<Longrightarrow> plain_token s"
  by (simp add: bare_name_def)

text \<open>None of the marks of the other forms is in a name that stands alone.\<close>

lemma bare_no_marks: "bare_name s \<Longrightarrow> set p \<inter> set '':=*~#'' \<noteq> {} \<Longrightarrow> \<not> starts_with p s"
  using starts_with_set [of p s] unfolding bare_name_def by blast

text \<open>The words of the left side.\<close>

definition match_words :: "string list" where
  "match_words = [''any'', ''*'', ''final'', ''domain:'', ''='', ''suffix:'', ''*.'', ''keyword:'', ''~'', ''set:'', ''geosite:'', ''geoip:'',
     ''ruleset:'', ''match_response:'', ''response:'', ''not:'']"

lemma match_word: "w \<in> set match_words \<Longrightarrow> tight w \<and> w \<noteq> []"
proof -
  have "list_all (\<lambda>w. tight w \<and> w \<noteq> []) match_words" by code_simp
  then show "w \<in> set match_words \<Longrightarrow> tight w \<and> w \<noteq> []" by (simp add: list_all_iff)
qed

lemma match_word_sets:
  "w \<in> {''any'', ''*'', ''final''} \<Longrightarrow> w \<in> set match_words" "w \<in> {''domain:'', ''=''} \<Longrightarrow> w \<in> set match_words"
  "w \<in> {''suffix:'', ''*.''} \<Longrightarrow> w \<in> set match_words" "w \<in> {''keyword:'', ''~''} \<Longrightarrow> w \<in> set match_words"
  "w \<in> {''set:'', ''geosite:'', ''geoip:'', ''ruleset:''} \<Longrightarrow> w \<in> set match_words"
  "w \<in> {''match_response:'', ''response:''} \<Longrightarrow> w \<in> set match_words" "''not:'' \<in> set match_words"
  by (auto simp: match_words_def)

lemma tight_match_text: "match_writable env show_net f \<Longrightarrow> tight (match_text show_net f) \<and> match_text show_net f \<noteq> []"
proof (induction f)
  case (MF_Bare d)
  then show ?case using plain_tight [of d] by (simp add: bare_name_def plain_token_def)
next
  case (MF_Not f)
  then show ?case using match_word [OF match_word_sets(7)] by (simp only: match_text.simps match_writable.simps tight_append) simp
next
  case (MF_Any w)
  then show ?case using match_word [OF match_word_sets(1), of w] by simp
next
  case (MF_Domain w d)
  then show ?case using match_word [OF match_word_sets(2), of w] plain_tight [of d] by simp
next
  case (MF_Suffix w d)
  then show ?case using match_word [OF match_word_sets(3), of w] plain_tight [of d] by simp
next
  case (MF_Keyword w d)
  then show ?case using match_word [OF match_word_sets(4), of w] plain_tight [of d] by simp
next
  case (MF_Set w d)
  then show ?case using match_word [OF match_word_sets(5), of w] plain_tight [of d] by simp
next
  case (MF_Response w n)
  then show ?case using match_word [OF match_word_sets(6), of w] plain_tight [of "show_net n"] by (simp add: net_readable_def)
qed

lemma match_text_head: "match_writable env show_net f \<Longrightarrow> hd (match_text show_net f) \<noteq> CHR ''#''"
  by (cases f) (auto simp: bare_name_def plain_token_def hd_append dest: hd_in_set)

lemma parse_bare:
  assumes "bare_name s" "s \<notin> {''any'', ''final''}"
  shows "parse_lhs env s = Some (HM_Suffix s)"
proof -
  have "trim (pe_unicode env) s = s" using assms(1) by (simp add: bare_plain plain_tight)
  moreover have "s \<noteq> []" "s \<noteq> ''*''" using assms(1) by (auto simp: bare_name_def plain_token_def)
  ultimately show ?thesis using assms by (subst parse_lhs.simps) (simp add: bare_no_marks Let_def)
qed

lemma parse_lhs_words:
  assumes "plain_token d"
  shows "parse_lhs env (''domain:'' @ d) = Some (HM_Domain d)"
    "parse_lhs env (''='' @ d) = Some (HM_Domain d)"
    "parse_lhs env (''suffix:'' @ d) = Some (HM_Suffix d)"
    "parse_lhs env (''*.'' @ d) = Some (HM_Suffix d)"
    "parse_lhs env (''keyword:'' @ d) = Some (HM_Keyword d)"
    "parse_lhs env (''~'' @ d) = Some (HM_Keyword d)"
    "parse_lhs env (''set:'' @ d) = Some (HM_Set d)"
    "parse_lhs env (''geosite:'' @ d) = Some (HM_Set d)"
    "parse_lhs env (''geoip:'' @ d) = Some (HM_Set d)"
    "parse_lhs env (''ruleset:'' @ d) = Some (HM_Set d)"
    "parse_lhs env (''match_response:'' @ d) = map_option HM_ResponseIpCidr (pe_net_parse env d)"
    "parse_lhs env (''response:'' @ d) = map_option HM_ResponseIpCidr (pe_net_parse env d)"
proof -
  have d: "tight d" "d \<noteq> []" using assms by (simp_all add: plain_tight plain_token_def)
  have trims: "trim (pe_unicode env) (w @ d) = w @ d" if "w \<in> set match_words" for w
    using match_word [OF that] d(1) by (simp only: trim_of_tight tight_append)
  have words: "list_all (\<lambda>w. trim (pe_unicode env) (w @ d) = w @ d) match_words" using trims by (simp add: list_all_iff)
  note trims = words [unfolded match_words_def list.pred_inject simp_thms]
  show "parse_lhs env (''domain:'' @ d) = Some (HM_Domain d)"
    "parse_lhs env (''='' @ d) = Some (HM_Domain d)"
    "parse_lhs env (''suffix:'' @ d) = Some (HM_Suffix d)"
    "parse_lhs env (''*.'' @ d) = Some (HM_Suffix d)"
    "parse_lhs env (''keyword:'' @ d) = Some (HM_Keyword d)"
    "parse_lhs env (''~'' @ d) = Some (HM_Keyword d)"
    "parse_lhs env (''set:'' @ d) = Some (HM_Set d)"
    "parse_lhs env (''geosite:'' @ d) = Some (HM_Set d)"
    "parse_lhs env (''geoip:'' @ d) = Some (HM_Set d)"
    "parse_lhs env (''ruleset:'' @ d) = Some (HM_Set d)"
    "parse_lhs env (''match_response:'' @ d) = map_option HM_ResponseIpCidr (pe_net_parse env d)"
    "parse_lhs env (''response:'' @ d) = map_option HM_ResponseIpCidr (pe_net_parse env d)"
    by (subst parse_lhs.simps, insert trims d(2), simp add: starts_with_def Let_def)+
qed

lemma parse_match_text: "match_writable env show_net f \<Longrightarrow> parse_lhs env (match_text show_net f) = Some (match_meaning f)"
proof (induction f)
  case (MF_Bare s)
  then show ?case by (simp add: parse_bare)
next
  case (MF_Not f)
  then have "tight (match_text show_net (MF_Not f))" using tight_match_text [of env show_net "MF_Not f"] by simp
  then show ?case using MF_Not by (subst parse_lhs.simps) (simp add: starts_with_def Let_def)
next
  case (MF_Any w)
  then have w: "w = ''any'' \<or> w = ''*'' \<or> w = ''final''" by simp
  have "trim (pe_unicode env) w = w" using match_word [of w] match_word_sets(1) [of w] w by simp
  then have "parse_lhs env w = Some HM_Any" unfolding parse_lhs.simps [of env w] Let_def using w by auto
  then show ?case by simp
qed (auto simp: parse_lhs_words net_readable_def simp del: append_Cons append_Nil)

lemma parse_show_nat: "n < bound \<Longrightarrow> parse_unsigned bound (show_nat n) = Some n"
proof -
  assume "n < bound"
  have digits: "list_all (\<lambda>c. to_digit 10 c \<noteq> None) (show_nat n)" using show_base_digits [of 10 n] by (simp add: show_nat_def list_all_iff)
  obtain c r where s: "show_nat n = c # r" using show_base_nonempty [of 10 n] by (cases "show_nat n") (auto simp: show_nat_def)
  have "to_digit 10 CHR ''+'' = None" by code_simp
  then have "c \<noteq> CHR ''+''" using digits s by auto
  then show ?thesis using digits s \<open>n < bound\<close> digits_val_show_base [of 10 n] by (auto simp: parse_unsigned_def show_nat_def)
qed

lemma parse_u32_show: "parse_u32 (show_nat (unat t)) = Some t"
  using unat_bound [of t] by (simp add: parse_u32_def parse_show_nat)

lemma after_eq_plain: "CHR ''='' \<notin> set w \<Longrightarrow> after_eq (w @ CHR ''='' # v) = v"
  by (simp add: after_eq_def split_once_plain)

lemma parse_strategy_name:
  assumes "(name, st) \<in> set strategy_names"
  shows "group_strategy_parse u name = Some st"
proof -
  have "\<forall>(n, _) \<in> set strategy_names. tight n" by code_simp
  then have "trim u name = name" using assms by (auto intro: trim_of_tight)
  then have parse: "group_strategy_parse u name = group_strategy_parse \<lparr>uc_lowercase = (\<lambda>s. s), uc_alphanumeric = (\<lambda>_. False)\<rparr> name"
    using trim_of_tight [of name] \<open>\<forall>(n, _) \<in> set strategy_names. tight n\<close> assms by (auto simp: group_strategy_parse_def)
  have "\<forall>(n, st) \<in> set strategy_names. group_strategy_parse \<lparr>uc_lowercase = (\<lambda>s. s), uc_alphanumeric = (\<lambda>_. False)\<rparr> n = Some st" by code_simp
  then show ?thesis using assms parse by auto
qed

lemma opt_text_token:
  assumes "opt_writable env show_net f"
  shows "list_all token_char (opt_text show_net f)"
proof -
  have w: "\<forall>w \<in> {''nocache'', ''no-cache'', ''disable_cache'', ''nooptcache'', ''no-optimistic'', ''disable_optimistic_cache'', ''ttl='',
      ''ecs='', ''client_subnet='', ''strategy=''}. list_all token_char w" "\<forall>(n, _) \<in> set strategy_names. list_all token_char n"
    by code_simp+
  have ip: "list_all token_char (show_ip ip)" for ip using plain_show_ip [of ip] by (simp add: plain_token_def)
  have net: "net_readable env show_net n \<Longrightarrow> list_all token_char (show_net n)" for n by (simp add: net_readable_def plain_token_def)
  have num: "list_all token_char (show_nat n)" for n using token_show_base(1) by (simp add: show_nat_def)
  show ?thesis using assms w ip net num by (cases f) auto
qed

lemma parse_opt_subnet:
  assumes "w \<in> {''ecs='', ''client_subnet=''}" "trim (pe_unicode env) (w @ v) = w @ v" "client_subnet_of env v = Some n"
  shows "parse_opt env (w @ v) o1 = o1\<lparr>qo_client_subnet := Some n\<rparr>"
proof -
  have eq: "after_eq (''ecs='' @ v) = v" "after_eq (''client_subnet='' @ v) = v"
    using after_eq_plain [of "''ecs''" v] after_eq_plain [of "''client_subnet''" v] by simp_all
  have "w = ''ecs='' \<or> w = ''client_subnet=''" using assms(1) by simp
  then show ?thesis
  proof (elim disjE)
    assume w: "w = ''ecs=''"
    show ?thesis using assms(2,3) eq(1) unfolding parse_opt_def w by (simp add: starts_with_def Let_def)
  next
    assume w: "w = ''client_subnet=''"
    show ?thesis using assms(2,3) eq(2) unfolding parse_opt_def w by (simp add: starts_with_def Let_def)
  qed
qed

lemma parse_opt_text:
  assumes "opt_writable env show_net f"
  shows "parse_opt env (opt_text show_net f) o1 = opt_meaning f o1"
proof -
  have t: "trim (pe_unicode env) (opt_text show_net f) = opt_text show_net f"
    using opt_text_token [OF assms] by (intro trim_of_tight token_char_tight)
  have eq: "after_eq (''strategy='' @ v) = v" for v using after_eq_plain [of "''strategy''" v] by simp
  show ?thesis
  proof (cases f)
    case (OF_Ttl x)
    then show ?thesis using t by (simp add: parse_opt_def parse_u32_show starts_with_def Let_def)
  next
    case (OF_Subnet w n)
    then have "client_subnet_of env (show_net n) = Some n" using assms by (simp add: client_subnet_of_def net_readable_def)
    then show ?thesis using parse_opt_subnet [of w env "show_net n" n o1] t assms OF_Subnet by simp
  next
    case (OF_Subnet_Of w ip n)
    then have "client_subnet_of env (show_ip ip) = Some n" using assms by (simp add: client_subnet_of_def)
    then show ?thesis using parse_opt_subnet [of w env "show_ip ip" n o1] t assms OF_Subnet_Of by simp
  next
    case (OF_Strategy name st)
    then show ?thesis using t assms eq by (simp add: parse_opt_def parse_strategy_name starts_with_def Let_def)
  qed (use t assms in \<open>auto simp: parse_opt_def Let_def\<close>)
qed

lemma parse_opts_text:
  assumes "list_all (opt_writable env show_net) os" "os \<noteq> []"
  shows "parse_opts env (join_with '','' (map (opt_text show_net) os)) = opts_meaning os"
proof -
  have "\<forall>x \<in> set (map (opt_text show_net) os). CHR '','' \<notin> set x"
    using assms(1) opt_text_token token_char_not by (fastforce simp: list_all_iff)
  then have "split_on CHR '','' (join_with '','' (map (opt_text show_net) os)) = map (opt_text show_net) os"
    using assms(2) by (intro split_on_joined) simp_all
  moreover have "fold (parse_opt env) (map (opt_text show_net) os) o1 = fold opt_meaning os o1" for o1
    using assms(1) by (induction os arbitrary: o1) (simp_all add: parse_opt_text)
  ultimately show ?thesis by (simp add: parse_opts_def opts_meaning_def)
qed

lemma rhs_group_text:
  fixes env :: "'n policy_env"
  assumes "tight h" "CHR ''?'' \<notin> set h" "h \<notin> {''reject'', ''block''}" "\<not> starts_with ''predefined'' h"
    "(short_action h :: 'n dns_action option) = None" "\<not> starts_with ''hosts:'' h" "\<not> starts_with ''ip:'' h"
    "list_all (opt_writable env show_net) os"
  shows "parse_rhs env (h @ opts_text show_net os) = group_action (pe_unicode env) (opts_meaning os) h"
proof (cases "os = []")
  case True
  then show ?thesis using assms by (simp add: parse_rhs_def split_once_def strip_prefix_str_def opts_text_def opts_meaning_def Let_def)
next
  case False
  then have "split_once CHR ''?'' (h @ opts_text show_net os) = Some (h, join_with '','' (map (opt_text show_net) os))"
    using split_once_plain [OF assms(2)] by (simp add: opts_text_def)
  then show ?thesis
    using assms parse_opts_text [OF assms(8) False] by (simp add: parse_rhs_def strip_prefix_str_def Let_def)
qed

lemma tight_joined: "\<forall>x \<in> set xs. tight x \<Longrightarrow> tight sep \<Longrightarrow> tight (join_with sep xs)"
proof (induction sep xs rule: join_with.induct)
  case (1 sep)
  show ?case by (simp add: tight_def)
qed simp_all

lemma not_in_joined: "\<forall>x \<in> set xs. c \<notin> set x \<Longrightarrow> c \<notin> set sep \<Longrightarrow> c \<notin> set (join_with sep xs)"
  by (induction sep xs rule: join_with.induct) simp_all

lemma parse_accept_text:
  assumes "ips \<noteq> []"
  shows "parse_ip_list u (join_with '','' (map show_ip ips)) = ips"
proof -
  have "list_all token_char (show_ip ip)" for ip using plain_show_ip [of ip] by (simp add: plain_token_def)
  then have clean: "CHR '','' \<notin> set (show_ip ip)" "trim u (show_ip ip) = show_ip ip" for ip
    using token_char_not trim_of_tight [OF token_char_tight] by blast+
  have "split_on CHR '','' (join_with '','' (map show_ip ips)) = map show_ip ips"
    using assms clean(1) by (intro split_on_joined) auto
  moreover have "List.map_filter (\<lambda>p. parse_ip (trim u p)) (map show_ip xs) = xs" for xs
    by (induction xs) (simp_all add: map_filter_simps clean(2))
  ultimately show ?thesis by (simp add: parse_ip_list_def)
qed

lemma split_any_plain: "set a \<inter> set seps = {} \<Longrightarrow> c \<in> set seps \<Longrightarrow> split_any seps (a @ c # b) = a # split_any seps b"
  by (induction a) auto

lemma split_any_none: "set a \<inter> set seps = {} \<Longrightarrow> split_any seps a = [a]"
  by (induction a) auto

lemma split_any_joined:
  assumes "xs \<noteq> []" "\<forall>x \<in> set xs. set x \<inter> set seps = {}" "c \<in> set seps"
  shows "split_any seps (join_with [c] xs) = xs"
  using assms(1,2)
  by (induction "[c]" xs rule: join_with.induct) (simp_all add: split_any_none split_any_plain assms(3))

lemma reject_form_text:
  assumes "reject_writable r"
  shows "tight (reject_text r)" "set (reject_text r) \<inter> set ''?,&'' = {}" "reject_opt u (reject_text r) ro = reject_meaning r ro"
proof -
  have words: "\<forall>w \<in> {''method=drop'', ''method=default'', ''no_drop'', ''no-drop''}. tight w \<and> set w \<inter> set ''?,&'' = {}" by code_simp
  have r: "reject_text r \<in> {''method=drop'', ''method=default'', ''no_drop'', ''no-drop''}"
    using assms by (cases r) (auto split: reject_method.split)
  show t: "tight (reject_text r)" and "set (reject_text r) \<inter> set ''?,&'' = {}" using words r by blast+
  show "reject_opt u (reject_text r) ro = reject_meaning r ro"
    using assms t by (cases r)
      (auto simp: reject_opt_def strip_prefix_str_def starts_with_def to_ascii_lowercase_def ascii_lower_def Let_def split: reject_method.split)
qed

lemma parse_reject_text:
  assumes "w \<in> {''reject'', ''block''}" "list_all reject_writable rs"
  shows "parse_rhs env (w @ (if rs = [] then [] else ''?'' @ join_with ''&'' (map reject_text rs))) =
    Some (Act_Reject (fold reject_meaning rs reject_options_default))"
proof -
  let ?seps = "[CHR ''?'', CHR '','', CHR ''&'']"
  have "\<forall>w \<in> {''reject'', ''block''}. tight w \<and> set w \<inter> set ?seps = {}" by code_simp
  then have w: "tight w" "set w \<inter> set ?seps = {}" "CHR ''?'' \<notin> set w" using assms(1) by auto
  have "fold (reject_opt (pe_unicode env)) (map reject_text rs) ro = fold reject_meaning rs ro" for ro
    using assms(2) by (induction rs arbitrary: ro) (simp_all add: reject_form_text)
  note effects = this
  show ?thesis
  proof (cases "rs = []")
    case True
    have "split_any ?seps w = [w]" using w(2) by (rule split_any_none)
    moreover have "split_once CHR ''?'' w = None" using w(3) by (simp add: split_once_def)
    ultimately show ?thesis using True assms(1) w(1) by (simp add: parse_rhs_def)
  next
    case False
    have "\<forall>x \<in> set (map reject_text rs). set x \<inter> set ?seps = {}" using assms(2) reject_form_text(2) by (auto simp: list_all_iff)
    then have "split_any ?seps (join_with ''&'' (map reject_text rs)) = map reject_text rs"
      using False by (intro split_any_joined) simp_all
    then have "split_any ?seps (w @ CHR ''?'' # join_with ''&'' (map reject_text rs)) = w # map reject_text rs"
      using split_any_plain [OF w(2), of "CHR ''?''"] by simp
    then show ?thesis using False assms(1) w(1) split_once_plain [OF w(3)] effects by (simp add: parse_rhs_def)
  qed
qed

lemma parse_word_text:
  fixes env :: "'n policy_env" and a :: "'n dns_action"
  assumes "(w, a) \<in> set action_words"
  shows "parse_rhs env w = Some a" "tight w" "w \<noteq> []"
proof -
  have "\<forall>w \<in> set (map fst (action_words :: (string \<times> unit dns_action) list)). tight w \<and> CHR ''?'' \<notin> set w \<and> w \<noteq> []" by code_simp
  moreover have "map fst (action_words :: (string \<times> unit dns_action) list) = map fst (action_words :: (string \<times> 'n dns_action) list)"
    by (simp add: action_words_def)
  ultimately have w: "tight w" "CHR ''?'' \<notin> set w" "w \<noteq> []" using assms by force+
  then show "tight w" "w \<noteq> []" by blast+
  have "split_once CHR ''?'' w = None" using w(2) by (simp add: split_once_def)
  then show "parse_rhs env w = Some a" using w(1) assms
    by (auto simp: action_words_def parse_rhs_def short_action_def strip_prefix_str_def starts_with_def group_action_def)
qed

lemma parse_rcode_text:
  "parse_rhs env (''predefined:'' @ pre_rcode_as_str c) = Some (rcode_action c)" "tight (pre_rcode_as_str c)"
proof -
  have t: "tight ''predefined:''" by code_simp
  show c: "tight (pre_rcode_as_str c)" by (cases c; simp only:; code_simp)
  have marks: "CHR ''?'' \<notin> set (pre_rcode_as_str c)" "split_on CHR '';'' (pre_rcode_as_str c) = [pre_rcode_as_str c]"
    "trim_start_matches CHR '':'' (CHR '':'' # pre_rcode_as_str c) = pre_rcode_as_str c" "pre_rcode_parse (pre_rcode_as_str c) = Some c"
    "pre_rcode_as_str c \<noteq> []"
    by (cases c; simp only:; code_simp)+
  have "tight (''predefined:'' @ pre_rcode_as_str c)" unfolding tight_append using t c by blast
  note trims = trim_of_tight [OF this] trim_of_tight [OF c]
  have "split_once CHR ''?'' (''predefined:'' @ pre_rcode_as_str c) = None" using marks(1) by (simp add: split_once_def)
  moreover have "strip_prefix_str ''predefined'' (''predefined:'' @ pre_rcode_as_str c) = Some (CHR '':'' # pre_rcode_as_str c)"
    by (simp add: strip_prefix_str_def starts_with_def)
  moreover have "parse_predefined u (CHR '':'' # pre_rcode_as_str c) = predefined_default\<lparr>pr_rcode := Some c\<rparr>" for u
    unfolding parse_predefined_def marks(3) marks(2) using trims(2) marks(4,5) by simp
  ultimately show "parse_rhs env (''predefined:'' @ pre_rcode_as_str c) = Some (rcode_action c)"
    unfolding parse_rhs_def Let_def by (simp add: trims(1) rcode_action_def del: append_Cons append_Nil)
qed

lemma addresses_clean: "tight (join_with '','' (map show_ip ips))" "CHR ''?'' \<notin> set (join_with '','' (map show_ip ips))"
proof -
  have tok: "list_all token_char (show_ip ip)" for ip using plain_show_ip [of ip] by (simp add: plain_token_def)
  have "tight '',''" by code_simp
  moreover have "tight (show_ip ip)" "CHR ''?'' \<notin> set (show_ip ip)" for ip using tok token_char_tight token_char_not by blast+
  ultimately show "tight (join_with '','' (map show_ip ips))" "CHR ''?'' \<notin> set (join_with '','' (map show_ip ips))"
    using tight_joined [of "map show_ip ips" "'',''"] not_in_joined [of "map show_ip ips" "CHR ''?''" "'',''"] by auto
qed

lemma parse_addresses_text:
  assumes "w \<in> {''accept:'', ''hosts:'', ''ip:''}" "ips \<noteq> []"
  shows "parse_rhs env (w @ join_with '','' (map show_ip ips)) = Some (Act_Accept ips)"
proof -
  let ?s = "join_with '','' (map show_ip ips)"
  have "\<forall>w \<in> {''accept:'', ''hosts:'', ''ip:''}. tight w \<and> CHR ''?'' \<notin> set w" by code_simp
  then have w: "tight w" "CHR ''?'' \<notin> set w" using assms(1) by blast+
  then have t: "trim (pe_unicode env) (w @ ?s) = w @ ?s" "split_once CHR ''?'' (w @ ?s) = None"
    using addresses_clean by (auto simp: split_once_def simp flip: append_assoc)
  note read = parse_accept_text [OF assms(2), of "pe_unicode env"]
  have "w = ''accept:'' \<or> w = ''hosts:'' \<or> w = ''ip:''" using assms(1) by simp
  then show ?thesis unfolding parse_rhs_def t(2)
    by (elim disjE) (use t(1) read assms(2) in \<open>simp_all add: strip_prefix_str_def starts_with_def short_action_def group_action_def Let_def\<close>)
qed

lemma parse_action_text:
  assumes "action_writable env show_net f"
  shows "parse_rhs env (action_text show_net f) = Some (action_meaning f)"
proof -
  have names: "tight ''direct:''" "tight ''proxy:''" "tight ''route:''" "tight ''evaluate:''" by code_simp+
  have group: "tight g" "CHR ''?'' \<notin> set g" if "plain_token g" for g
    using that token_char_not [of g] by (simp_all add: plain_tight plain_token_def)
  have pre: "tight (''direct:'' @ g)" "tight (''proxy:'' @ g)" "tight (''route:'' @ g)" "tight (''evaluate:'' @ g)" if "plain_token g" for g
    unfolding tight_append using names group(1) [OF that] by blast+
  show ?thesis
  proof (cases f)
    case (AF_Direct g os)
    then have "parse_rhs env ((''direct:'' @ g) @ opts_text show_net os) = group_action (pe_unicode env) (opts_meaning os) (''direct:'' @ g)"
      using assms group [of g] pre [of g] by (intro rhs_group_text) (simp_all add: starts_with_def short_action_def)
    then show ?thesis using AF_Direct by (simp add: group_action_def starts_with_def)
  next
    case (AF_Proxy g os)
    then have "parse_rhs env ((''proxy:'' @ g) @ opts_text show_net os) = group_action (pe_unicode env) (opts_meaning os) (''proxy:'' @ g)"
      using assms group [of g] pre [of g] by (intro rhs_group_text) (simp_all add: starts_with_def short_action_def)
    then show ?thesis using AF_Proxy by (simp add: group_action_def starts_with_def)
  next
    case (AF_Route g os)
    then have "parse_rhs env ((''route:'' @ g) @ opts_text show_net os) = group_action (pe_unicode env) (opts_meaning os) (''route:'' @ g)"
      using assms group [of g] pre [of g] by (intro rhs_group_text) (simp_all add: starts_with_def short_action_def)
    then show ?thesis using AF_Route by (simp add: group_action_def starts_with_def)
  next
    case (AF_Evaluate g os)
    then have "parse_rhs env ((''evaluate:'' @ g) @ opts_text show_net os) = group_action (pe_unicode env) (opts_meaning os) (''evaluate:'' @ g)"
      using assms group [of g] pre [of g] by (intro rhs_group_text) (simp_all add: starts_with_def short_action_def)
    then show ?thesis using AF_Evaluate by (simp add: group_action_def starts_with_def)
  next
    case (AF_Bare g os)
    then have g: "bare_name g" "plain_token g" using assms by (simp_all add: bare_plain)
    then have "parse_rhs env (g @ opts_text show_net os) = group_action (pe_unicode env) (opts_meaning os) g"
      using assms AF_Bare group [of g] by (intro rhs_group_text) (simp_all add: bare_no_marks short_action_def action_words_def)
    then show ?thesis using AF_Bare assms g by (simp add: group_action_def bare_no_marks action_words_def)
  qed (use assms in \<open>simp_all add: parse_word_text parse_reject_text parse_rcode_text parse_addresses_text del: append_Cons append_Nil\<close>)
qed

lemma tight_opts_text:
  assumes "list_all (opt_writable env show_net) os"
  shows "tight (opts_text show_net os)"
proof -
  have marks: "tight ''?''" "tight '',''" by code_simp+
  have "\<forall>x \<in> set (map (opt_text show_net) os). tight x" using assms opt_text_token token_char_tight by (fastforce simp: list_all_iff)
  then have "tight (join_with '','' (map (opt_text show_net) os))" using marks(2) by (rule tight_joined)
  then show ?thesis using marks(1) by (simp only: opts_text_def tight_append tight_Nil if_split) simp
qed

lemma tight_action_text:
  assumes "action_writable env show_net f"
  shows "tight (action_text show_net f) \<and> action_text show_net f \<noteq> []"
proof -
  have words: "tight ''direct:''" "tight ''proxy:''" "tight ''route:''" "tight ''evaluate:''" "tight ''predefined:''" "tight ''?''" "tight ''&''"
    "\<forall>w \<in> {''accept:'', ''hosts:'', ''ip:'', ''reject'', ''block''}. tight w \<and> w \<noteq> []" by code_simp+
  show ?thesis
  proof (cases f)
    case (AF_Word w b)
    then show ?thesis using assms parse_word_text(2,3) [of w b] by simp
  next
    case (AF_Reject w rs)
    have "\<forall>x \<in> set (map reject_text rs). tight x" using AF_Reject assms by (auto simp: list_all_iff reject_form_text(1))
    then have "tight (join_with ''&'' (map reject_text rs))" using words(7) by (rule tight_joined)
    moreover have "tight w \<and> w \<noteq> []" using AF_Reject assms words(8) by auto
    ultimately show ?thesis using words(6) unfolding AF_Reject action_text.simps by (auto simp del: append_Cons)
  next
    case (AF_Addresses w ips)
    then have "tight w \<and> w \<noteq> []" using assms words(8) by auto
    then show ?thesis using addresses_clean(1) AF_Addresses by simp
  next
    case (AF_Bare g os)
    then show ?thesis using assms tight_opts_text [of env show_net os] plain_tight [of g] by (simp add: bare_name_def plain_token_def)
  qed (use assms words tight_opts_text plain_tight parse_rcode_text(2) in
      \<open>simp_all only: action_text.simps action_writable.simps tight_append, auto\<close>)
qed


text \<open>A network is a text with a slash here.\<close>

definition text_env :: "string policy_env" where
  "text_env = \<lparr>pe_unicode = \<lparr>uc_lowercase = (\<lambda>s. s), uc_alphanumeric = (\<lambda>_. False)\<rparr>,
     pe_net_parse = (\<lambda>s. if CHR ''/'' \<in> set s then Some s else None), pe_net_contains = (\<lambda>_ _. False)\<rparr>"


end
