(* ===== verification/Dns_Cache.thy ===== *)
theory Dns_Cache
  imports Std_Str Std_Ip_Text "HOL-Library.Multiset"
begin

text \<open>
  The DNS cache (\<open>core-resolver/src/cache.rs\<close>): answers are served while fresh, served and refreshed in the background during a grace
  period after that, and dropped when it is over; the least recently used answers go when the cache is full.

  Calls are taken one at a time. Clocks are natural numbers of nanoseconds, passed to the operations that read them, with no upper end. The
  two \<open>Arc\<close> cells of a slot, which a ticket shares, are created together and live under one address of a store; replacing the slot
  leaves the old cells to the tickets that still hold them.
\<close>

section \<open>State\<close>

datatype qtype = QT_A | QT_AAAA | QT_Both

record cache_entry =
  ce_ips :: "ip_addr list"
  ce_expire :: nat
  ce_last_used :: nat
  ce_origin :: string

datatype hit = Hit_Fresh | Hit_Stale | Hit_Miss

record cache_config =
  cc_max_entries :: u64
  cc_grace :: nat
  cc_prefetch_threshold :: nat
  cc_client_response_timeout :: nat
  cc_failure_recheck :: nat
  cc_stale_answer_ttl :: nat
  cc_negative_ttl :: nat

record cached_slot =
  cs_entry :: cache_entry
  cs_cell :: nat

type_synonym cache_key = "string \<times> qtype"

record dns_cache =
  dc_inner :: "(cache_key \<times> cached_slot) list"
  dc_cfg :: cache_config
  dc_prefetching :: "nat \<Rightarrow> bool"
  dc_last_failure :: "nat \<Rightarrow> nat option"
  dc_next :: nat

record prefetch_ticket =
  pt_cell :: nat
  pt_host :: string
  pt_qtype :: qtype

definition cache_config_default :: cache_config where
  "cache_config_default = \<lparr>cc_max_entries = 4096, cc_grace = 300 * 10 ^ 9, cc_prefetch_threshold = 30 * 10 ^ 9,
     cc_client_response_timeout = 1800 * 10 ^ 6, cc_failure_recheck = 30 * 10 ^ 9, cc_stale_answer_ttl = 30 * 10 ^ 9,
     cc_negative_ttl = 60 * 10 ^ 9\<rparr>"

definition cache_new :: "cache_config \<Rightarrow> dns_cache" where
  "cache_new cfg = \<lparr>dc_inner = [], dc_cfg = cfg, dc_prefetching = (\<lambda>_. False), dc_last_failure = (\<lambda>_. None), dc_next = 0\<rparr>"

section \<open>Operations\<close>

definition cache_key_of :: "unicode \<Rightarrow> string \<Rightarrow> qtype \<Rightarrow> cache_key" where
  "cache_key_of u host q = (to_lowercase u host, q)"

text \<open>\<open>elapsed\<close> is zero when the clock is behind.\<close>

definition refresh_allowed :: "cached_slot \<Rightarrow> nat \<Rightarrow> dns_cache \<Rightarrow> bool" where
  "refresh_allowed slot now c =
    (if dc_prefetching c (cs_cell slot) then False
     else case dc_last_failure c (cs_cell slot) of
         None \<Rightarrow> True
       | Some last_failure \<Rightarrow> cc_failure_recheck (dc_cfg c) \<le> now - last_failure)"

definition take_ticket :: "bool \<Rightarrow> cache_key \<Rightarrow> cached_slot \<Rightarrow> dns_cache \<Rightarrow> prefetch_ticket option \<times> dns_cache" where
  "take_ticket need key slot c =
    (if need then (Some \<lparr>pt_cell = cs_cell slot, pt_host = fst key, pt_qtype = snd key\<rparr>,
                   c\<lparr>dc_prefetching := (dc_prefetching c)(cs_cell slot := True)\<rparr>)
     else (None, c))"

definition cache_get :: "unicode \<Rightarrow> string \<Rightarrow> qtype \<Rightarrow> nat \<Rightarrow> dns_cache \<Rightarrow> (ip_addr list option \<times> hit \<times> prefetch_ticket option) \<times> dns_cache" where
  "cache_get u host q now c =
    (let key = cache_key_of u host q
     in case map_of (dc_inner c) key of
          None \<Rightarrow> ((None, Hit_Miss, None), c)
        | Some slot0 \<Rightarrow>
            (let slot = slot0\<lparr>cs_entry := (cs_entry slot0)\<lparr>ce_last_used := now\<rparr>\<rparr>;
                 e = cs_entry slot;
                 c1 = c\<lparr>dc_inner := amap_insert key slot (dc_inner c)\<rparr>
             in if now < ce_expire e then
                  (let remaining = ce_expire e - now;
                       (ticket, c2) = take_ticket (remaining < cc_prefetch_threshold (dc_cfg c) \<and> refresh_allowed slot now c1) key slot c1
                   in ((Some (ce_ips e), Hit_Fresh, ticket), c2))
                else if now < ce_expire e + cc_grace (dc_cfg c) then
                  (let (ticket, c2) = take_ticket (refresh_allowed slot now c1) key slot c1
                   in ((Some (ce_ips e), Hit_Stale, ticket), c2))
                else ((None, Hit_Miss, None), c1\<lparr>dc_inner := amap_remove key (dc_inner c1)\<rparr>)))"

definition ticket_drop :: "prefetch_ticket \<Rightarrow> dns_cache \<Rightarrow> dns_cache" where
  "ticket_drop t c = c\<lparr>dc_prefetching := (dc_prefetching c)(pt_cell t := False)\<rparr>"

definition mark_success :: "prefetch_ticket \<Rightarrow> dns_cache \<Rightarrow> dns_cache" where
  "mark_success t c = c\<lparr>dc_last_failure := (dc_last_failure c)(pt_cell t := None)\<rparr>"

definition mark_failure :: "prefetch_ticket \<Rightarrow> nat \<Rightarrow> dns_cache \<Rightarrow> dns_cache" where
  "mark_failure t now c = c\<lparr>dc_last_failure := (dc_last_failure c)(pt_cell t := Some now)\<rparr>"

definition cache_get_with ::
  "unicode \<Rightarrow> string \<Rightarrow> qtype \<Rightarrow> bool \<Rightarrow> nat \<Rightarrow> dns_cache \<Rightarrow> (ip_addr list option \<times> hit \<times> prefetch_ticket option) \<times> dns_cache" where
  "cache_get_with u host q disable_optimistic now c =
    (case cache_get u host q now c of
       ((v, h, t), c') \<Rightarrow>
         if h = Hit_Stale \<and> disable_optimistic then
           ((None, Hit_Miss, None), case t of Some t' \<Rightarrow> ticket_drop t' c' | None \<Rightarrow> c')
         else ((v, h, t), c'))"

text \<open>\<open>evict_lru\<close> removes the entries used longest ago until nine tenths are left.\<close>

definition evict_target :: "cache_config \<Rightarrow> nat" where
  "evict_target cfg = unat (saturating_mul (cc_max_entries cfg) 9) div 10"

definition evict_lru :: "dns_cache \<Rightarrow> dns_cache" where
  "evict_lru c =
    (let entries = sort_key snd (map (\<lambda>(k, slot). (k, ce_last_used (cs_entry slot))) (dc_inner c));
         gone = take (length (dc_inner c) - evict_target (dc_cfg c)) entries
     in c\<lparr>dc_inner := fold (\<lambda>(k, _). amap_remove k) gone (dc_inner c)\<rparr>)"

text \<open>A slot with two new cells.\<close>

definition insert_slot :: "cache_key \<Rightarrow> cache_entry \<Rightarrow> dns_cache \<Rightarrow> dns_cache" where
  "insert_slot key e c =
     c\<lparr>dc_inner := amap_insert key \<lparr>cs_entry = e, cs_cell = dc_next c\<rparr> (dc_inner c),
       dc_prefetching := (dc_prefetching c)(dc_next c := False),
       dc_last_failure := (dc_last_failure c)(dc_next c := None),
       dc_next := dc_next c + 1\<rparr>"

definition cache_put :: "unicode \<Rightarrow> string \<Rightarrow> qtype \<Rightarrow> ip_addr list \<Rightarrow> nat \<Rightarrow> string \<Rightarrow> nat \<Rightarrow> dns_cache \<Rightarrow> dns_cache" where
  "cache_put u host q ips ttl origin now c =
    (if ips = [] then c
     else
       (let c1 = insert_slot (cache_key_of u host q)
              \<lparr>ce_ips = ips, ce_expire = now + ttl, ce_last_used = now, ce_origin = origin\<rparr> c
        in if unat (cc_max_entries (dc_cfg c)) < length (dc_inner c1) then evict_lru c1 else c1))"

definition put_negative :: "unicode \<Rightarrow> string \<Rightarrow> qtype \<Rightarrow> nat \<Rightarrow> dns_cache \<Rightarrow> dns_cache" where
  "put_negative u host q now c =
     insert_slot (cache_key_of u host q)
       \<lparr>ce_ips = [], ce_expire = now + cc_negative_ttl (dc_cfg c), ce_last_used = now, ce_origin = ''negative''\<rparr> c"

definition cache_invalidate :: "unicode \<Rightarrow> string \<Rightarrow> qtype \<Rightarrow> dns_cache \<Rightarrow> dns_cache" where
  "cache_invalidate u host q c = c\<lparr>dc_inner := amap_remove (cache_key_of u host q) (dc_inner c)\<rparr>"

definition cache_clear :: "dns_cache \<Rightarrow> dns_cache" where
  "cache_clear c = c\<lparr>dc_inner := []\<rparr>"

definition cache_len :: "dns_cache \<Rightarrow> nat" where
  "cache_len c = length (dc_inner c)"

section \<open>Persistence\<close>

record dns_cache_blob =
  db_ips :: "string list"
  db_expire_secs :: nat
  db_origin :: string

fun qtype_label :: "qtype \<Rightarrow> string" where
  "qtype_label QT_A = ''A''"
| "qtype_label QT_AAAA = ''AAAA''"
| "qtype_label QT_Both = ''BOTH''"

definition parse_cache_key :: "string \<Rightarrow> (string \<times> qtype) option" where
  "parse_cache_key s =
    (case rsplit_once CHR ''|'' s of
       None \<Rightarrow> None
     | Some (host, qstr) \<Rightarrow>
         if qstr = ''A'' then Some (host, QT_A)
         else if qstr = ''AAAA'' then Some (host, QT_AAAA)
         else if qstr = ''BOTH'' then Some (host, QT_Both)
         else None)"

definition second :: nat where "second = 10 ^ 9"

definition dump_entry :: "nat \<Rightarrow> nat \<Rightarrow> cache_key \<times> cached_slot \<Rightarrow> string \<times> dns_cache_blob" where
  "dump_entry now_inst now_sys kv =
    (case kv of
       ((host, q), slot) \<Rightarrow>
         (let e = cs_entry slot
          in (host @ ''|'' @ qtype_label q,
              \<lparr>db_ips = map show_ip (ce_ips e),
               db_expire_secs = (if now_inst < ce_expire e then (now_sys + (ce_expire e - now_inst)) div second else 0),
               db_origin = ce_origin e\<rparr>)))"

definition cache_dump :: "nat \<Rightarrow> nat \<Rightarrow> dns_cache \<Rightarrow> (string \<times> dns_cache_blob) list" where
  "cache_dump now_inst now_sys c = map (dump_entry now_inst now_sys) (dc_inner c)"

definition load_row :: "unicode \<Rightarrow> nat \<Rightarrow> nat \<Rightarrow> string \<times> dns_cache_blob \<Rightarrow> dns_cache \<Rightarrow> dns_cache" where
  "load_row u now_inst now_secs row c =
    (case row of
       (key, blob) \<Rightarrow>
         if db_expire_secs blob \<le> now_secs then c
         else case parse_cache_key key of
             None \<Rightarrow> c
           | Some (host, q) \<Rightarrow>
               cache_put u host q (List.map_filter parse_ip (db_ips blob)) ((db_expire_secs blob - now_secs) * second)
                 ''persisted'' now_inst c)"

text \<open>\<open>put\<close> reads the clock again for every row.\<close>

definition cache_load :: "unicode \<Rightarrow> (nat \<Rightarrow> nat) \<Rightarrow> nat \<Rightarrow> (string \<times> dns_cache_blob) list \<Rightarrow> dns_cache \<Rightarrow> dns_cache" where
  "cache_load u clock now_sys rows c =
     fold (\<lambda>(i, row). load_row u (clock i) (now_sys div second) row) (enumerate 0 rows) c"

section \<open>Eviction\<close>

lemma fold_amap_remove: "fold (\<lambda>(k, _). amap_remove k) xs m = filter (\<lambda>(k, _). k \<notin> fst ` set xs) m"
proof (induction xs arbitrary: m)
  case (Cons x xs)
  then show ?case by (cases x) (auto simp: amap_remove_def case_prod_beta intro!: filter_cong)
qed (simp add: case_prod_beta)

lemma amap_wf_evict: "amap_wf (dc_inner c) \<Longrightarrow> amap_wf (dc_inner (evict_lru c))"
  by (simp add: evict_lru_def Let_def fold_amap_remove amap_wf_filter)

lemma evict_lru_subset: "set (dc_inner (evict_lru c)) \<subseteq> set (dc_inner c)"
  by (auto simp: evict_lru_def Let_def fold_amap_remove)

lemma evict_lru_simps [simp]:
  "dc_cfg (evict_lru c) = dc_cfg c" "dc_prefetching (evict_lru c) = dc_prefetching c"
  "dc_last_failure (evict_lru c) = dc_last_failure c" "dc_next (evict_lru c) = dc_next c"
  by (simp_all add: evict_lru_def Let_def)

lemma evict_target_le: "evict_target cfg \<le> unat (cc_max_entries cfg)"
proof -
  have "unat (saturating_mul (cc_max_entries cfg) 9) \<le> unat (cc_max_entries cfg) * 9"
    by (simp add: unat_saturating_mul)
  then show ?thesis unfolding evict_target_def by linarith
qed

text \<open>What is left is the target, and what went was not used after anything that stayed.\<close>

lemma evict_lru_oldest:
  assumes "amap_wf (dc_inner c)" "evict_target (dc_cfg c) \<le> length (dc_inner c)"
  shows "length (dc_inner (evict_lru c)) = evict_target (dc_cfg c)"
    and "(k, slot) \<in> set (dc_inner c) \<Longrightarrow> (k, slot) \<notin> set (dc_inner (evict_lru c)) \<Longrightarrow>
      (k', slot') \<in> set (dc_inner (evict_lru c)) \<Longrightarrow> ce_last_used (cs_entry slot) \<le> ce_last_used (cs_entry slot')"
proof -
  let ?m = "dc_inner c"
  let ?used = "\<lambda>(k, slot). (k, ce_last_used (cs_entry slot))"
  define es where "es = sort_key snd (map ?used ?m)"
  define n where "n = length ?m - evict_target (dc_cfg c)"
  have keys: "mset (map fst es) = mset (map fst ?m)"
    unfolding es_def by (simp add: image_mset.compositionality comp_def case_prod_beta)
  have dist: "distinct (map fst es)" using assms(1) keys unfolding amap_wf_def by (metis mset_eq_imp_distinct_iff)
  have set_es: "set es = ?used ` set ?m" by (simp add: es_def)
  have left: "dc_inner (evict_lru c) = filter (\<lambda>(k, _). k \<notin> fst ` set (take n es)) ?m"
    by (simp add: evict_lru_def fold_amap_remove es_def n_def Let_def)
  have n: "n \<le> length es" by (simp add: es_def n_def)
  have parts: "map fst es = map fst (take n es) @ map fst (drop n es)"
    by (metis append_take_drop_id map_append)
  have disj: "fst ` set (take n es) \<inter> fst ` set (drop n es) = {}"
    using dist unfolding parts by simp
  have all: "fst ` set ?m = fst ` set (take n es) \<union> fst ` set (drop n es)"
    using keys parts by (metis image_set mset_eq_setD set_append)
  have "map fst (dc_inner (evict_lru c)) = filter (\<lambda>k. k \<notin> fst ` set (take n es)) (map fst ?m)"
    unfolding left by (simp add: filter_map comp_def case_prod_unfold)
  then have "set (map fst (dc_inner (evict_lru c))) = fst ` set (drop n es)" using disj all by auto
  moreover have "distinct (map fst (dc_inner (evict_lru c)))" using amap_wf_evict [OF assms(1)] by (simp add: amap_wf_def)
  moreover have "distinct (map fst (drop n es))" using dist unfolding parts by simp
  ultimately have "length (map fst (dc_inner (evict_lru c))) = length (map fst (drop n es))"
    by (metis distinct_card image_set)
  then show "length (dc_inner (evict_lru c)) = evict_target (dc_cfg c)" using assms(2) by (simp add: es_def n_def)
  assume gone: "(k, slot) \<in> set ?m" "(k, slot) \<notin> set (dc_inner (evict_lru c))" and kept: "(k', slot') \<in> set (dc_inner (evict_lru c))"
  have eqs: "s = t" if "(k, s) \<in> set ?m" "(k, t) \<in> set ?m" for k s t
    using that assms(1) by (metis amap_wf_def eq_key_imp_eq_value)
  have "k \<in> fst ` set (take n es)" using gone left by auto
  then obtain x where x: "(k, x) \<in> set (take n es)" by auto
  then have "(k, x) \<in> ?used ` set ?m" using set_es by (metis in_set_takeD)
  then have "x = ce_last_used (cs_entry slot)" using eqs [OF gone(1)] by auto
  with x have t: "(k, ce_last_used (cs_entry slot)) \<in> set (take n es)" by simp
  have "(k', slot') \<in> set ?m" "k' \<notin> fst ` set (take n es)" using kept left by auto
  then have "(k', ce_last_used (cs_entry slot')) \<in> set es" "(k', ce_last_used (cs_entry slot')) \<notin> set (take n es)"
    using set_es by (force, metis fst_conv image_eqI)
  then have "(k', ce_last_used (cs_entry slot')) \<in> set (drop n es)" by (metis Un_iff append_take_drop_id set_append)
  then have "ce_last_used (cs_entry slot') \<in> set (map snd (drop n es))" by (metis image_eqI set_map snd_conv)
  moreover have "ce_last_used (cs_entry slot) \<in> set (map snd (take n es))" using t by (metis image_eqI set_map snd_conv)
  moreover have "sorted (map snd (take n es) @ map snd (drop n es))" by (simp add: es_def flip: map_append)
  ultimately show "ce_last_used (cs_entry slot) \<le> ce_last_used (cs_entry slot')" unfolding sorted_append by blast
qed

section \<open>Runs\<close>

text \<open>The calls on a cache, with the tickets that are held. A ticket can be marked as long as it is held, and is dropped once.\<close>

datatype cache_event =
    Ce_Get string qtype bool nat
  | Ce_Put string qtype "ip_addr list" nat string nat
  | Ce_Negative string qtype nat
  | Ce_Invalidate string qtype
  | Ce_Clear
  | Ce_Success nat
  | Ce_Failure nat nat
  | Ce_Drop nat

definition option_list :: "'a option \<Rightarrow> 'a list" where
  "option_list x = (case x of Some a \<Rightarrow> [a] | None \<Rightarrow> [])"

fun cache_apply :: "unicode \<Rightarrow> cache_event \<Rightarrow> dns_cache \<times> prefetch_ticket list \<Rightarrow> dns_cache \<times> prefetch_ticket list" where
  "cache_apply u (Ce_Get host q dis now) (c, ts) =
     (case cache_get_with u host q dis now c of ((_, _, t), c') \<Rightarrow> (c', option_list t @ ts))"
| "cache_apply u (Ce_Put host q ips ttl origin now) (c, ts) = (cache_put u host q ips ttl origin now c, ts)"
| "cache_apply u (Ce_Negative host q now) (c, ts) = (put_negative u host q now c, ts)"
| "cache_apply u (Ce_Invalidate host q) (c, ts) = (cache_invalidate u host q c, ts)"
| "cache_apply u Ce_Clear (c, ts) = (cache_clear c, ts)"
| "cache_apply u (Ce_Success i) (c, ts) = (if i < length ts then (mark_success (ts ! i) c, ts) else (c, ts))"
| "cache_apply u (Ce_Failure i now) (c, ts) = (if i < length ts then (mark_failure (ts ! i) now c, ts) else (c, ts))"
| "cache_apply u (Ce_Drop i) (c, ts) =
     (if i < length ts then (ticket_drop (ts ! i) c, take i ts @ drop (Suc i) ts) else (c, ts))"

definition cache_run :: "unicode \<Rightarrow> cache_event list \<Rightarrow> dns_cache \<times> prefetch_ticket list \<Rightarrow> dns_cache \<times> prefetch_ticket list" where
  "cache_run u evs s = fold (cache_apply u) evs s"

text \<open>Every flag stands for exactly one held ticket.\<close>

definition ticket_inv :: "dns_cache \<times> prefetch_ticket list \<Rightarrow> bool" where
  "ticket_inv s \<longleftrightarrow> (case s of (c, ts) \<Rightarrow>
     amap_wf (dc_inner c) \<and> (\<forall>(k, slot) \<in> set (dc_inner c). cs_cell slot < dc_next c) \<and>
     distinct (map pt_cell ts) \<and> (\<forall>t \<in> set ts. pt_cell t < dc_next c) \<and>
     (\<forall>cell. dc_prefetching c cell \<longleftrightarrow> cell \<in> pt_cell ` set ts))"

lemma ticket_inv_new: "ticket_inv (cache_new cfg, [])"
  by (simp add: ticket_inv_def cache_new_def)

lemma amap_insert_member: "x \<in> set (amap_insert k v m) \<Longrightarrow> x = (k, v) \<or> x \<in> set m"
  by (auto simp: amap_insert_def amap_remove_def)

lemma amap_remove_member: "x \<in> set (amap_remove k m) \<Longrightarrow> x \<in> set m"
  by (auto simp: amap_remove_def)

text \<open>The cache after a look-up: the slot used, or removed; and a flag raised with the ticket.\<close>

lemma cache_get_cases:
  assumes "cache_get u host q now c = ((v, h, t), c')"
  obtains (absent) "map_of (dc_inner c) (cache_key_of u host q) = None" "v = None" "h = Hit_Miss" "t = None" "c' = c"
  | (gone) slot where "map_of (dc_inner c) (cache_key_of u host q) = Some slot"
      "ce_expire (cs_entry slot) + cc_grace (dc_cfg c) \<le> now" "v = None" "h = Hit_Miss" "t = None"
      "c' = c\<lparr>dc_inner := amap_remove (cache_key_of u host q) (amap_insert (cache_key_of u host q) (slot\<lparr>cs_entry := (cs_entry slot)\<lparr>ce_last_used := now\<rparr>\<rparr>) (dc_inner c))\<rparr>"
  | (served) slot need where "map_of (dc_inner c) (cache_key_of u host q) = Some slot"
      "now < ce_expire (cs_entry slot) + cc_grace (dc_cfg c)" "v = Some (ce_ips (cs_entry slot))"
      "h = (if now < ce_expire (cs_entry slot) then Hit_Fresh else Hit_Stale)"
      "need \<longleftrightarrow> (now < ce_expire (cs_entry slot) \<longrightarrow> ce_expire (cs_entry slot) - now < cc_prefetch_threshold (dc_cfg c)) \<and> refresh_allowed slot now c"
      "t = (if need then Some \<lparr>pt_cell = cs_cell slot, pt_host = fst (cache_key_of u host q), pt_qtype = q\<rparr> else None)"
      "c' = c\<lparr>dc_inner := amap_insert (cache_key_of u host q) (slot\<lparr>cs_entry := (cs_entry slot)\<lparr>ce_last_used := now\<rparr>\<rparr>) (dc_inner c),
              dc_prefetching := (if need then (dc_prefetching c)(cs_cell slot := True) else dc_prefetching c)\<rparr>"
proof (cases "map_of (dc_inner c) (cache_key_of u host q)")
  case None
  then have "cache_get u host q now c = ((None, Hit_Miss, None), c)" by (simp add: cache_get_def)
  then show ?thesis using assms by (intro absent [OF None]) simp_all
next
  case (Some slot)
  let ?slot = "slot\<lparr>cs_entry := (cs_entry slot)\<lparr>ce_last_used := now\<rparr>\<rparr>"
  have allowed: "refresh_allowed ?slot now (c\<lparr>dc_inner := m\<rparr>) = refresh_allowed slot now c" for m
    by (simp add: refresh_allowed_def split: option.split)
  have key: "snd (cache_key_of u host q) = q" by (simp add: cache_key_of_def)
  show ?thesis
  proof (cases "now < ce_expire (cs_entry slot) + cc_grace (dc_cfg c)")
    case True
    define need where "need \<longleftrightarrow> (now < ce_expire (cs_entry slot) \<longrightarrow> ce_expire (cs_entry slot) - now < cc_prefetch_threshold (dc_cfg c)) \<and> refresh_allowed slot now c"
    have "cache_get u host q now c =
      ((Some (ce_ips (cs_entry slot)), if now < ce_expire (cs_entry slot) then Hit_Fresh else Hit_Stale,
        if need then Some \<lparr>pt_cell = cs_cell slot, pt_host = fst (cache_key_of u host q), pt_qtype = q\<rparr> else None),
       c\<lparr>dc_inner := amap_insert (cache_key_of u host q) ?slot (dc_inner c),
         dc_prefetching := (if need then (dc_prefetching c)(cs_cell slot := True) else dc_prefetching c)\<rparr>)"
      using True Some by (simp add: cache_get_def Let_def take_ticket_def allowed key need_def)
    then show ?thesis using assms by (intro served [OF Some True, of need]) (simp_all add: need_def)
  next
    case False
    then have "cache_get u host q now c =
      ((None, Hit_Miss, None), c\<lparr>dc_inner := amap_remove (cache_key_of u host q) (amap_insert (cache_key_of u host q) ?slot (dc_inner c))\<rparr>)"
      using Some by (simp add: cache_get_def Let_def)
    then show ?thesis using assms False by (intro gone [OF Some]) simp_all
  qed
qed

lemma ticket_inv_get:
  assumes "ticket_inv (c, ts)" "cache_get u host q now c = ((v, h, t), c')"
  shows "ticket_inv (c', option_list t @ ts)"
  using assms(2)
proof (cases rule: cache_get_cases)
  case absent
  then show ?thesis using assms(1) by (simp add: option_list_def)
next
  case (gone slot)
  then show ?thesis using assms(1)
    by (auto simp: ticket_inv_def option_list_def dest!: amap_remove_member amap_insert_member map_of_SomeD)
next
  case (served slot need)
  have slot: "cs_cell slot < dc_next c" using assms(1) map_of_SomeD [OF served(1)] by (auto simp: ticket_inv_def)
  have "need \<Longrightarrow> \<not> dc_prefetching c (cs_cell slot)" using served(5) by (auto simp: refresh_allowed_def split: if_splits)
  then show ?thesis using assms(1) slot unfolding served(6,7)
    by (auto simp: ticket_inv_def option_list_def dest!: amap_insert_member)
qed

lemma ticket_inv_drop:
  assumes "ticket_inv (c, ts)" "i < length ts"
  shows "ticket_inv (ticket_drop (ts ! i) c, take i ts @ drop (Suc i) ts)"
proof -
  have ts: "ts = take i ts @ ts ! i # drop (Suc i) ts" using assms(2) by (simp add: id_take_nth_drop)
  have d: "distinct (map pt_cell (take i ts @ ts ! i # drop (Suc i) ts))" using assms ts by (simp add: ticket_inv_def)
  then have "distinct (map pt_cell (take i ts @ drop (Suc i) ts))" by simp
  moreover have "pt_cell ` set (take i ts @ drop (Suc i) ts) = pt_cell ` set ts - {pt_cell (ts ! i)}"
    using d by (subst (3) ts) (auto simp: image_iff)
  moreover have "set (take i ts @ drop (Suc i) ts) \<subseteq> set ts" by (auto dest: in_set_takeD in_set_dropD)
  ultimately show ?thesis using assms(1) by (auto simp: ticket_inv_def ticket_drop_def)
qed

lemma ticket_inv_insert:
  assumes "ticket_inv (c, ts)"
  shows "ticket_inv (insert_slot key e c, ts)"
  using assms by (fastforce simp: ticket_inv_def insert_slot_def dest!: amap_insert_member)

lemma ticket_inv_evict: "ticket_inv (c, ts) \<Longrightarrow> ticket_inv (evict_lru c, ts)"
  using evict_lru_subset [of c] amap_wf_evict [of c] by (auto simp: ticket_inv_def)

lemma ticket_inv_apply: "ticket_inv s \<Longrightarrow> ticket_inv (cache_apply u ev s)"
proof (induction u ev s rule: cache_apply.induct)
  case (1 u host q dis now c ts)
  obtain v h t c' where g: "cache_get u host q now c = ((v, h, t), c')" by (metis prod.exhaust)
  have I: "ticket_inv (c', option_list t @ ts)" using ticket_inv_get [OF 1 g] .
  show ?case
  proof (cases "h = Hit_Stale \<and> dis \<and> t \<noteq> None")
    case True
    then obtain t' where "t = Some t'" by blast
    then show ?thesis using True ticket_inv_drop [of c' "t' # ts" 0] I g by (simp add: cache_get_with_def option_list_def)
  qed (use I g in \<open>auto simp: cache_get_with_def option_list_def\<close>)
next
  case (2 u host q ips ttl origin now c ts)
  then show ?case by (simp add: cache_put_def Let_def ticket_inv_insert ticket_inv_evict)
next
  case (3 u host q now c ts)
  then show ?case by (simp add: put_negative_def ticket_inv_insert)
next
  case (4 u host q c ts)
  then show ?case by (auto simp: ticket_inv_def cache_invalidate_def dest!: amap_remove_member)
next
  case (8 u i c ts)
  then show ?case by (simp add: ticket_inv_drop)
qed (simp_all add: ticket_inv_def cache_clear_def mark_success_def mark_failure_def)

lemma ticket_inv_run: "ticket_inv s \<Longrightarrow> ticket_inv (cache_run u evs s)"
  unfolding cache_run_def by (induction evs arbitrary: s) (simp_all add: ticket_inv_apply)

lemma cache_apply_cfg: "dc_cfg (fst (cache_apply u ev s)) = dc_cfg (fst s)"
proof (induction u ev s rule: cache_apply.induct)
  case (1 u host q dis now c ts)
  obtain v h t c' where g: "cache_get u host q now c = ((v, h, t), c')" by (metis prod.exhaust)
  then have "dc_cfg c' = dc_cfg c" by (cases rule: cache_get_cases) simp_all
  then show ?case using g by (auto simp: cache_get_with_def ticket_drop_def split: option.split)
qed (simp_all add: cache_put_def put_negative_def insert_slot_def Let_def cache_invalidate_def cache_clear_def
    mark_success_def mark_failure_def ticket_drop_def)

text \<open>
  C30: Background refreshes are exclusive. In every run the held tickets belong to different entries, a look-up gives a ticket only for
  an entry nobody refreshes, and gives one for a stale entry that nobody refreshes and whose last refresh did not fail.
\<close>

theorem background_refresh_exclusive:
  assumes "cache_run u evs (cache_new cfg, []) = (c, ts)" "cache_get u host q now c = ((v, h, t), c')"
  shows "distinct (map pt_cell ts) \<and> (\<forall>t'. t = Some t' \<longrightarrow> pt_cell t' \<notin> pt_cell ` set ts) \<and>
    (\<forall>slot. h = Hit_Stale \<longrightarrow> map_of (dc_inner c) (cache_key_of u host q) = Some slot \<longrightarrow> cs_cell slot \<notin> pt_cell ` set ts \<longrightarrow>
       dc_last_failure c (cs_cell slot) = None \<longrightarrow> t \<noteq> None)"
proof -
  have I: "ticket_inv (c, ts)" using ticket_inv_run [OF ticket_inv_new] assms(1) by metis
  have flags: "dc_prefetching c cell \<longleftrightarrow> cell \<in> pt_cell ` set ts" for cell using I by (simp add: ticket_inv_def)
  from assms(2) show ?thesis
  proof (cases rule: cache_get_cases)
    case (served slot need)
    then show ?thesis using I flags [of "cs_cell slot"]
      by (auto simp: ticket_inv_def refresh_allowed_def split: if_splits)
  qed (use I in \<open>auto simp: ticket_inv_def\<close>)
qed

section \<open>Answers\<close>

fun writes_key :: "unicode \<Rightarrow> cache_key \<Rightarrow> cache_event \<Rightarrow> bool" where
  "writes_key u key (Ce_Put host q ips _ _ _) \<longleftrightarrow> cache_key_of u host q = key \<and> ips \<noteq> []"
| "writes_key u key (Ce_Negative host q _) \<longleftrightarrow> cache_key_of u host q = key"
| "writes_key u key _ \<longleftrightarrow> False"

text \<open>What can take an answer away before \<open>now\<close> without a write: a removal of its key, a clearing, or a look-up at a later time.\<close>

fun keeps :: "unicode \<Rightarrow> cache_key \<Rightarrow> nat \<Rightarrow> cache_event \<Rightarrow> bool" where
  "keeps u key now (Ce_Get _ _ _ n) \<longleftrightarrow> n \<le> now"
| "keeps u key now (Ce_Invalidate host q) \<longleftrightarrow> cache_key_of u host q \<noteq> key"
| "keeps u key now Ce_Clear \<longleftrightarrow> False"
| "keeps u key now _ \<longleftrightarrow> True"

text \<open>The events that store an answer, whatever its key.\<close>

fun stores :: "cache_event \<Rightarrow> bool" where
  "stores (Ce_Put _ _ ips _ _ _) \<longleftrightarrow> ips \<noteq> []"
| "stores (Ce_Negative _ _ _) \<longleftrightarrow> True"
| "stores _ \<longleftrightarrow> False"

definition answer_at :: "dns_cache \<Rightarrow> cache_key \<Rightarrow> (ip_addr list \<times> nat) option" where
  "answer_at c key = map_option (\<lambda>slot. (ce_ips (cs_entry slot), ce_expire (cs_entry slot))) (map_of (dc_inner c) key)"

lemma cache_get_answer:
  assumes "cache_get u host q now c = ((v, h, t), c')"
  shows "answer_at c' key = (if key = cache_key_of u host q \<and> v = None then None else answer_at c key)"
    and "v = (case answer_at c (cache_key_of u host q) of
       Some (ips, expire) \<Rightarrow> if now < expire + cc_grace (dc_cfg c) then Some ips else None | None \<Rightarrow> None)"
    and "h = (case answer_at c (cache_key_of u host q) of
       Some (ips, expire) \<Rightarrow> if now < expire then Hit_Fresh else if now < expire + cc_grace (dc_cfg c) then Hit_Stale else Hit_Miss
     | None \<Rightarrow> Hit_Miss)"
  using assms by (cases rule: cache_get_cases; simp add: answer_at_def map_of_amap_insert map_of_amap_remove)+

lemma evict_answer:
  assumes "amap_wf (dc_inner c)"
  shows "answer_at (evict_lru c) key = None \<or> answer_at (evict_lru c) key = answer_at c key"
proof -
  have "map_of (dc_inner c) key = Some slot" if "map_of (dc_inner (evict_lru c)) key = Some slot" for slot
    using map_of_SomeD [OF that] evict_lru_subset [of c] assms by (auto simp: amap_wf_def intro: map_of_is_SomeI)
  then show ?thesis by (cases "map_of (dc_inner (evict_lru c)) key") (auto simp: answer_at_def)
qed

lemma answer_insert: "answer_at (insert_slot k e c) key = (if key = k then Some (ce_ips e, ce_expire e) else answer_at c key)"
  by (simp add: answer_at_def insert_slot_def map_of_amap_insert)

lemma answer_put:
  assumes "amap_wf (dc_inner c)" "cache_key_of u host q \<noteq> key \<or> ips = []"
  shows "answer_at (cache_put u host q ips ttl origin now c) key \<in> {None, answer_at c key}"
proof -
  let ?c = "insert_slot (cache_key_of u host q) \<lparr>ce_ips = ips, ce_expire = now + ttl, ce_last_used = now, ce_origin = origin\<rparr> c"
  have "amap_wf (dc_inner ?c)" using assms(1) by (simp add: insert_slot_def)
  from evict_answer [OF this, of key] assms(2) show ?thesis by (auto simp: cache_put_def Let_def answer_insert)
qed

lemma answer_others [simp]:
  "answer_at (mark_success t c) key = answer_at c key" "answer_at (mark_failure t now c) key = answer_at c key"
  "answer_at (ticket_drop t c) key = answer_at c key"
  "answer_at (cache_invalidate u host q c) key = (if key = cache_key_of u host q then None else answer_at c key)"
  "answer_at (cache_clear c) key = None"
  by (simp_all add: answer_at_def mark_success_def mark_failure_def ticket_drop_def cache_invalidate_def cache_clear_def map_of_amap_remove)

lemma answer_get_with:
  "answer_at (snd (cache_get_with u host q dis now c)) = answer_at (snd (cache_get u host q now c))"
  by (auto simp: fun_eq_iff cache_get_with_def split: prod.split option.split)

lemma answer_spared:
  assumes "ticket_inv s" "\<not> writes_key u key ev"
  shows "answer_at (fst (cache_apply u ev s)) key \<in> {None, answer_at (fst s) key}"
  using assms
proof (induction u ev s rule: cache_apply.induct)
  case (1 u host q dis now c ts)
  obtain v h t c' where g: "cache_get u host q now c = ((v, h, t), c')" by (metis prod.exhaust)
  have "fst (cache_apply u (Ce_Get host q dis now) (c, ts)) = snd (cache_get_with u host q dis now c)" by (simp split: prod.split)
  then show ?case using cache_get_answer(1) [OF g, of key] g by (simp add: answer_get_with)
next
  case (2 u host q ips ttl origin now c ts)
  then have "amap_wf (dc_inner c)" by (simp add: ticket_inv_def)
  then show ?case using answer_put [of c u host q key ips] 2(2) by auto
qed (auto simp: put_negative_def answer_insert)

text \<open>Only what stores an answer makes the cache longer, by one.\<close>

lemma length_amap_update: "amap_wf m \<Longrightarrow> map_of m k = Some v \<Longrightarrow> length (amap_insert k v' m) = length m"
  using length_amap_remove_in [of m k] by (cases m) (auto simp: amap_insert_def amap_contains_map_of)

lemma cache_get_len:
  assumes "amap_wf (dc_inner c)" "cache_get u host q now c = ((v, h, t), c')"
  shows "cache_len c' \<le> cache_len c"
  using assms(2)
proof (cases rule: cache_get_cases)
  case (gone slot)
  have "length (amap_remove k (amap_insert (cache_key_of u host q) v' (dc_inner c))) \<le> length (dc_inner c)" for k v'
    by (rule order.trans [OF length_amap_remove_le]) (simp add: length_amap_update [OF assms(1) gone(1)])
  then show ?thesis by (simp add: cache_len_def gone(6))
next
  case (served slot need)
  then show ?thesis using length_amap_update [OF assms(1) served(1)] by (simp add: cache_len_def)
qed simp

lemma insert_slot_len: "cache_len (insert_slot key e c) \<le> Suc (cache_len c)"
  by (simp add: cache_len_def insert_slot_def length_amap_insert_le)

lemma evict_len: "cache_len (evict_lru c) \<le> cache_len c"
  by (simp add: cache_len_def evict_lru_def Let_def fold_amap_remove)

lemma cache_apply_len:
  assumes "ticket_inv s"
  shows "cache_len (fst (cache_apply u ev s)) \<le> cache_len (fst s) + (if stores ev then 1 else 0)"
  using assms
proof (induction u ev s rule: cache_apply.induct)
  case (1 u host q dis n c ts)
  obtain v h t c' where g: "cache_get u host q n c = ((v, h, t), c')" by (metis prod.exhaust)
  have "cache_len c' \<le> cache_len c" using cache_get_len [OF _ g] 1 by (simp add: ticket_inv_def)
  then show ?case using g by (simp add: cache_get_with_def ticket_drop_def cache_len_def split: option.split)
next
  case (2 u host q ips ttl origin now c ts)
  let ?c = "insert_slot (cache_key_of u host q) \<lparr>ce_ips = ips, ce_expire = now + ttl, ce_last_used = now, ce_origin = origin\<rparr> c"
  have "cache_len ?c \<le> Suc (cache_len c)" "cache_len (evict_lru ?c) \<le> Suc (cache_len c)"
    using insert_slot_len order.trans [OF evict_len insert_slot_len] by blast+
  then show ?case by (simp add: cache_put_def Let_def)
next
  case (3 u host q now c ts)
  then show ?case using insert_slot_len by (simp add: put_negative_def)
qed (simp_all add: cache_len_def cache_invalidate_def cache_clear_def mark_success_def mark_failure_def ticket_drop_def)

lemma put_with_room:
  assumes "cache_len c < unat (cc_max_entries (dc_cfg c))" "ips \<noteq> []"
  shows "cache_put u host q ips ttl origin now c =
    insert_slot (cache_key_of u host q) \<lparr>ce_ips = ips, ce_expire = now + ttl, ce_last_used = now, ce_origin = origin\<rparr> c"
  using assms insert_slot_len [of "cache_key_of u host q" "\<lparr>ce_ips = ips, ce_expire = now + ttl, ce_last_used = now, ce_origin = origin\<rparr>" c]
  by (simp add: cache_put_def Let_def cache_len_def)

lemma answer_kept:
  assumes "keeps u key now ev" "\<not> writes_key u key ev" "stores ev \<Longrightarrow> cache_len (fst s) < unat (cc_max_entries (dc_cfg (fst s)))"
    "answer_at (fst s) key = Some (ips, expire)" "now < expire + cc_grace (dc_cfg (fst s))"
  shows "answer_at (fst (cache_apply u ev s)) key = Some (ips, expire)"
  using assms
proof (induction u ev s rule: cache_apply.induct)
  case (1 u host q dis n c ts)
  obtain v h t c' where g: "cache_get u host q n c = ((v, h, t), c')" by (metis prod.exhaust)
  have "fst (cache_apply u (Ce_Get host q dis n) (c, ts)) = snd (cache_get_with u host q dis n c)" by (simp split: prod.split)
  then show ?case using cache_get_answer(1,2) [OF g] g 1 by (auto simp: answer_get_with split: if_splits)
next
  case (2 u host q ips' ttl origin n c ts)
  show ?case
  proof (cases "ips' = []")
    case True
    then show ?thesis using 2 by (simp add: cache_put_def)
  next
    case False
    then show ?thesis using 2 put_with_room [OF _ False, of c u host q ttl origin n] by (simp add: answer_insert)
  qed
qed (auto simp: put_negative_def answer_insert)

lemma answer_run_spared:
  assumes "ticket_inv s" "\<forall>ev \<in> set evs. \<not> writes_key u key ev"
  shows "answer_at (fst (cache_run u evs s)) key \<in> {None, answer_at (fst s) key}"
  using assms
proof (induction evs arbitrary: s)
  case (Cons ev evs)
  have "answer_at (fst (cache_run u evs (cache_apply u ev s))) key \<in> {None, answer_at (fst (cache_apply u ev s)) key}"
    using Cons.IH [of "cache_apply u ev s"] ticket_inv_apply [OF Cons.prems(1)] Cons.prems(2) by simp
  then show ?case using answer_spared [OF Cons.prems(1), of u key ev] Cons.prems(2) by (auto simp: cache_run_def)
qed (simp add: cache_run_def)

lemma cache_run_cfg: "dc_cfg (fst (cache_run u evs s)) = dc_cfg (fst s)"
  unfolding cache_run_def by (induction evs arbitrary: s) (simp_all add: cache_apply_cfg)

lemma answer_run_kept:
  assumes "ticket_inv s" "\<forall>ev \<in> set evs. keeps u key now ev \<and> \<not> writes_key u key ev"
    "cache_len (fst s) + length (filter stores evs) \<le> unat (cc_max_entries (dc_cfg (fst s)))"
    "answer_at (fst s) key = Some (ips, expire)" "now < expire + cc_grace (dc_cfg (fst s))"
  shows "answer_at (fst (cache_run u evs s)) key = Some (ips, expire)"
  using assms
proof (induction evs arbitrary: s)
  case (Cons ev evs)
  have at: "answer_at (fst (cache_apply u ev s)) key = Some (ips, expire)" using Cons.prems by (intro answer_kept) auto
  have "cache_len (fst (cache_apply u ev s)) + length (filter stores evs) \<le> unat (cc_max_entries (dc_cfg (fst (cache_apply u ev s))))"
    using cache_apply_len [OF Cons.prems(1), of u ev] Cons.prems(3) by (simp add: cache_apply_cfg split: if_splits)
  from Cons.IH [OF ticket_inv_apply [OF Cons.prems(1)] _ this at] show ?case
    using Cons.prems(2,5) by (simp add: cache_apply_cfg cache_run_def)
qed (simp add: cache_run_def)

text \<open>
  C31: The cache answers with what was put last. After an answer has been put, and as long as nothing is written to its key, a
  look-up by any spelling of the host returns these addresses or nothing, marked fresh before they expire and stale in the grace period
  after that, and nothing from its end on. They are returned, not lost, whatever is looked up, put, stored as negative or removed under
  other keys in between and whatever happens to tickets, as long as there is room for all answers stored meanwhile, the cache is not
  cleared, this key is not removed and no look-up has a later time.
\<close>

theorem cache_answers_what_was_put:
  assumes "cache_run u before (cache_new cfg, []) = (c, ts)" "ips \<noteq> []"
    "cache_run u between (cache_put u host q ips ttl origin t0 c, ts) = (c2, ts2)"
    "\<forall>ev \<in> set between. \<not> writes_key u (cache_key_of u host q) ev"
    "cache_key_of u host' q = cache_key_of u host q"
    "cache_get u host' q now c2 = ((v, h, t), c3)"
  shows "(v = None \<and> h = Hit_Miss \<or>
      v = Some ips \<and> now < t0 + ttl + cc_grace cfg \<and> h = (if now < t0 + ttl then Hit_Fresh else Hit_Stale)) \<and>
    (now < t0 + ttl + cc_grace cfg \<longrightarrow> cache_len c + 1 + length (filter stores between) \<le> unat (cc_max_entries cfg) \<longrightarrow>
      (\<forall>ev \<in> set between. keeps u (cache_key_of u host q) now ev) \<longrightarrow> v = Some ips)"
proof -
  let ?key = "cache_key_of u host q" and ?put = "cache_put u host q ips ttl origin t0 c"
  have I: "ticket_inv (c, ts)" using ticket_inv_run [OF ticket_inv_new] assms(1) by metis
  have "dc_cfg c = cfg" using cache_run_cfg [of u before "(cache_new cfg, [])"] assms(1) by (simp add: cache_new_def)
  then have cfg: "dc_cfg ?put = cfg" "dc_cfg c2 = cfg"
    using cache_apply_cfg [of u "Ce_Put host q ips ttl origin t0" "(c, ts)"] cache_run_cfg [of u between "(?put, ts)"] assms(3) by simp_all
  let ?c1 = "insert_slot ?key \<lparr>ce_ips = ips, ce_expire = t0 + ttl, ce_last_used = t0, ce_origin = origin\<rparr> c"
  have "amap_wf (dc_inner ?c1)" using I by (simp add: ticket_inv_def insert_slot_def)
  then have put: "answer_at ?put ?key \<in> {None, Some (ips, t0 + ttl)}"
    using evict_answer [of ?c1 ?key] assms(2) by (auto simp: cache_put_def Let_def answer_insert)
  have I': "ticket_inv (?put, ts)" using ticket_inv_apply [OF I, of u "Ce_Put host q ips ttl origin t0"] by simp
  from answer_run_spared [OF this assms(4)] have at: "answer_at c2 ?key \<in> {None, Some (ips, t0 + ttl)}"
    using put assms(3) by auto
  have "answer_at c2 ?key = Some (ips, t0 + ttl)"
    if "now < t0 + ttl + cc_grace cfg" "cache_len c + 1 + length (filter stores between) \<le> unat (cc_max_entries cfg)"
      "\<forall>ev \<in> set between. keeps u ?key now ev"
  proof -
    have put1: "?put = ?c1" using put_with_room [of c ips] that(2) assms(2) \<open>dc_cfg c = cfg\<close> by simp
    then have at: "answer_at ?put ?key = Some (ips, t0 + ttl)" by (simp add: answer_insert)
    have len: "cache_len ?put + length (filter stores between) \<le> unat (cc_max_entries (dc_cfg ?put))"
      using insert_slot_len [of ?key "\<lparr>ce_ips = ips, ce_expire = t0 + ttl, ce_last_used = t0, ce_origin = origin\<rparr>" c] that(2) cfg(1) put1 by simp
    show ?thesis
      using answer_run_kept [of "(?put, ts)" between u ?key now ips "t0 + ttl"] I' that(1,3) assms(3,4) at len cfg(1) by simp
  qed
  then show ?thesis using cache_get_answer(2,3) [OF assms(6)] at cfg(2) by (auto simp: assms(5) split: if_splits)
qed

text \<open>
  A put keeps the cache within its limit by giving up the answers used longest ago: after it there are at most as many entries as
  the configuration allows, and nothing that went was used after anything that stayed.
\<close>

theorem put_evicts_least_recently_used:
  assumes "cache_run u before (cache_new cfg, []) = (c, ts)" "ips \<noteq> []"
    "c1 = insert_slot (cache_key_of u host q) \<lparr>ce_ips = ips, ce_expire = now + ttl, ce_last_used = now, ce_origin = origin\<rparr> c"
    "c2 = cache_put u host q ips ttl origin now c"
  shows "cache_len c2 \<le> unat (cc_max_entries cfg) \<and> set (dc_inner c2) \<subseteq> set (dc_inner c1) \<and>
    (\<forall>k slot k' slot'. (k, slot) \<in> set (dc_inner c1) - set (dc_inner c2) \<longrightarrow> (k', slot') \<in> set (dc_inner c2) \<longrightarrow>
       ce_last_used (cs_entry slot) \<le> ce_last_used (cs_entry slot'))"
proof -
  have I: "ticket_inv (c, ts)" using ticket_inv_run [OF ticket_inv_new] assms(1) by metis
  have "dc_cfg c = cfg" using cache_run_cfg [of u before "(cache_new cfg, [])"] assms(1) by (simp add: cache_new_def)
  then have cfg: "dc_cfg c1 = cfg" by (simp add: assms(3) insert_slot_def)
  have wf: "amap_wf (dc_inner c1)" using I by (simp add: ticket_inv_def assms(3) insert_slot_def)
  have c2: "c2 = (if unat (cc_max_entries cfg) < length (dc_inner c1) then evict_lru c1 else c1)"
    using assms(2) \<open>dc_cfg c = cfg\<close> by (simp add: assms(3,4) cache_put_def Let_def)
  show ?thesis
  proof (cases "unat (cc_max_entries cfg) < length (dc_inner c1)")
    case True
    then have "evict_target (dc_cfg c1) \<le> length (dc_inner c1)" using evict_target_le [of cfg] cfg by simp
    from evict_lru_oldest [OF wf this] True show ?thesis
      using evict_target_le [of cfg] evict_lru_subset [of c1] cfg c2 by (auto simp: cache_len_def)
  qed (use c2 in \<open>simp add: cache_len_def\<close>)
qed

text \<open>Negative answers are not counted: whatever the limit, there are as many as hosts that were asked for.\<close>

lemma negative_answers_unbounded:
  assumes "distinct (map (\<lambda>host. cache_key_of u host q) hosts)"
  shows "cache_len (fst (cache_run u (map (\<lambda>host. Ce_Negative host q now) hosts) (cache_new cfg, []))) = length hosts"
proof -
  have "length (dc_inner (fst (cache_run u (map (\<lambda>host. Ce_Negative host q now) hosts) (c, ts)))) = length (dc_inner c) + length hosts"
    if "\<forall>host \<in> set hosts. \<not> amap_contains (cache_key_of u host q) (dc_inner c)" for c ts
    using assms that
  proof (induction hosts arbitrary: c)
    case (Cons host hosts)
    let ?c = "put_negative u host q now c"
    have "\<forall>h \<in> set hosts. \<not> amap_contains (cache_key_of u h q) (dc_inner ?c)"
      using Cons.prems by (auto simp: put_negative_def insert_slot_def) (metis image_eqI)
    moreover have "length (dc_inner ?c) = Suc (length (dc_inner c))"
      using Cons.prems by (simp add: put_negative_def insert_slot_def length_amap_insert_new)
    ultimately show ?case using Cons.IH [of ?c] Cons.prems by (simp add: cache_run_def)
  qed (simp add: cache_run_def)
  from this [of "cache_new cfg" "[]"] show ?thesis by (simp add: cache_len_def cache_new_def amap_contains_def)
qed

section \<open>Stored answers\<close>

lemma parse_key_label: "parse_cache_key (host @ ''|'' @ qtype_label q) = Some (host, q)"
  by (cases q) (simp_all add: parse_cache_key_def rsplit_once_def split_once_def)

definition stored_secs :: "nat \<Rightarrow> nat \<Rightarrow> cached_slot \<Rightarrow> nat" where
  "stored_secs now_inst now_sys slot = (now_sys + (ce_expire (cs_entry slot) - now_inst)) div second"

text \<open>What is restored: answers with addresses whose second of expiry is not over.\<close>

definition restored :: "nat \<Rightarrow> nat \<Rightarrow> nat \<Rightarrow> cached_slot \<Rightarrow> bool" where
  "restored now_inst now_sys now_secs slot \<longleftrightarrow> ce_ips (cs_entry slot) \<noteq> [] \<and> now_inst < ce_expire (cs_entry slot) \<and>
     now_secs < stored_secs now_inst now_sys slot"

lemma load_dumped_row:
  assumes "to_lowercase u (fst key) = fst key" "length (dc_inner c) < unat (cc_max_entries (dc_cfg c))"
  shows "load_row u now secs (dump_entry i1 s1 (key, slot)) c =
    (if restored i1 s1 secs slot then insert_slot key
       \<lparr>ce_ips = ce_ips (cs_entry slot), ce_expire = now + (stored_secs i1 s1 slot - secs) * second, ce_last_used = now,
        ce_origin = ''persisted''\<rparr> c
     else c)"
proof -
  obtain host q where key: "key = (host, q)" by (cases key)
  have room: "length (dc_inner (insert_slot key e c)) \<le> unat (cc_max_entries (dc_cfg c))" for e
    using assms(2) by (auto simp: insert_slot_def intro!: order.trans [OF length_amap_insert_le])
  have "List.map_filter parse_ip (map show_ip ips) = ips" for ips by (induction ips) (simp_all add: map_filter_simps)
  then show ?thesis using assms(1) room parse_key_label [of host q]
    by (simp add: load_row_def dump_entry_def Let_def key cache_put_def cache_key_of_def restored_def stored_secs_def not_less [symmetric])
qed

lemma load_dumped_rows:
  assumes "distinct (map fst rows)" "\<forall>(key, slot) \<in> set rows. to_lowercase u (fst key) = fst key"
    "length (dc_inner c) + length rows \<le> unat (cc_max_entries (dc_cfg c))"
    "c' = fold (\<lambda>(i, row). load_row u (clock i) secs row) (enumerate n (map (dump_entry i1 s1) rows)) c"
  shows "j < length rows \<Longrightarrow> restored i1 s1 secs (snd (rows ! j)) \<Longrightarrow>
      answer_at c' (fst (rows ! j)) = Some (ce_ips (cs_entry (snd (rows ! j))), clock (n + j) + (stored_secs i1 s1 (snd (rows ! j)) - secs) * second)"
    and "\<forall>slot. (key, slot) \<in> set rows \<longrightarrow> \<not> restored i1 s1 secs slot \<Longrightarrow> answer_at c' key = answer_at c key"
proof -
  have "(\<forall>j < length rows. restored i1 s1 secs (snd (rows ! j)) \<longrightarrow>
      answer_at c' (fst (rows ! j)) = Some (ce_ips (cs_entry (snd (rows ! j))), clock (n + j) + (stored_secs i1 s1 (snd (rows ! j)) - secs) * second)) \<and>
    (\<forall>key. (\<forall>slot. (key, slot) \<in> set rows \<longrightarrow> \<not> restored i1 s1 secs slot) \<longrightarrow> answer_at c' key = answer_at c key)"
    using assms
  proof (induction rows arbitrary: c n)
    case (Cons row rows)
    obtain key slot where row: "row = (key, slot)" by (cases row)
    define c1 where "c1 = load_row u (clock n) secs (dump_entry i1 s1 row) c"
    have c1: "c1 = (if restored i1 s1 secs slot then insert_slot key
       \<lparr>ce_ips = ce_ips (cs_entry slot), ce_expire = clock n + (stored_secs i1 s1 slot - secs) * second, ce_last_used = clock n,
        ce_origin = ''persisted''\<rparr> c else c)"
      unfolding c1_def row using Cons.prems(2,3) row by (intro load_dumped_row) auto
    then have at: "answer_at c1 k = (if k = key \<and> restored i1 s1 secs slot
        then Some (ce_ips (cs_entry slot), clock n + (stored_secs i1 s1 slot - secs) * second) else answer_at c k)" for k
      by (simp add: answer_insert)
    have "length (dc_inner c1) \<le> Suc (length (dc_inner c))" "dc_cfg c1 = dc_cfg c"
      using c1 length_amap_insert_le [of key _ "dc_inner c"] by (auto simp: insert_slot_def)
    then have "length (dc_inner c1) + length rows \<le> unat (cc_max_entries (dc_cfg c1))" using Cons.prems(3) by simp
    moreover have "c' = fold (\<lambda>(i, row). load_row u (clock i) secs row) (enumerate (Suc n) (map (dump_entry i1 s1) rows)) c1"
      using Cons.prems(4) by (simp add: c1_def)
    ultimately have IH: "\<forall>j < length rows. restored i1 s1 secs (snd (rows ! j)) \<longrightarrow>
        answer_at c' (fst (rows ! j)) = Some (ce_ips (cs_entry (snd (rows ! j))), clock (Suc n + j) + (stored_secs i1 s1 (snd (rows ! j)) - secs) * second)"
      "\<forall>key. (\<forall>slot. (key, slot) \<in> set rows \<longrightarrow> \<not> restored i1 s1 secs slot) \<longrightarrow> answer_at c' key = answer_at c1 key"
      using Cons.IH [of c1 "Suc n"] Cons.prems(1,2) by auto
    have "\<forall>s. (key, s) \<notin> set rows" using Cons.prems(1) row by force
    then have "answer_at c' key = answer_at c1 key" using IH(2) by blast
    then show ?case using IH at row by (auto simp: nth_Cons split: nat.split)
  qed simp
  then show "j < length rows \<Longrightarrow> restored i1 s1 secs (snd (rows ! j)) \<Longrightarrow>
      answer_at c' (fst (rows ! j)) = Some (ce_ips (cs_entry (snd (rows ! j))), clock (n + j) + (stored_secs i1 s1 (snd (rows ! j)) - secs) * second)"
    "\<forall>slot. (key, slot) \<in> set rows \<longrightarrow> \<not> restored i1 s1 secs slot \<Longrightarrow> answer_at c' key = answer_at c key" by blast+
qed

text \<open>Rounding both clocks down to seconds moves the expiry by less than a second.\<close>

lemma restored_expiry:
  assumes "s2 div second < (s1 + (e - i1)) div second" "i1 < e" "i2 + s1 = i1 + s2"
  shows "i2 + ((s1 + (e - i1)) div second - s2 div second) * second < e + second"
    "e < i2 + ((s1 + (e - i1)) div second - s2 div second) * second + second"
proof -
  define a b where "a = s1 + (e - i1)" and "b = s2"
  have pos: "0 < second" by (simp add: second_def)
  have "a div second * second + a mod second = a" "b div second * second + b mod second = b" "a mod second < second" "b mod second < second"
    using pos by simp_all
  moreover have "(a div second - b div second) * second + b div second * second = a div second * second"
    using assms(1) by (simp add: a_def b_def flip: add_mult_distrib)
  moreover have "i2 + a = e + b" using assms(2,3) by (simp add: a_def b_def)
  ultimately have "i2 + (a div second - b div second) * second < e + second" "e < i2 + (a div second - b div second) * second + second"
    by linarith+
  then show "i2 + ((s1 + (e - i1)) div second - s2 div second) * second < e + second"
    "e < i2 + ((s1 + (e - i1)) div second - s2 div second) * second + second" by (simp_all add: a_def b_def)
qed

text \<open>
  C32: A stored cache comes back. When all entries find room, loading what was dumped gives exactly the answers with addresses that had
  not expired by the second: each with its addresses, and, when both clocks have advanced alike, with an expiry less than a second off.
\<close>

theorem stored_answers_return:
  assumes "cache_run u before (cache_new cfg, []) = (c, ts)"
    "\<forall>(key, slot) \<in> set (dc_inner c). to_lowercase u (fst key) = fst key" "cache_len c \<le> unat (cc_max_entries cfg')"
    "c' = cache_load u clock sys2 (cache_dump inst1 sys1 c) (cache_new cfg')"
  shows "(\<forall>key slot. map_of (dc_inner c) key = Some slot \<longrightarrow> restored inst1 sys1 (sys2 div second) slot \<longrightarrow>
      (\<exists>i expire. answer_at c' key = Some (ce_ips (cs_entry slot), expire) \<and>
         (clock i + sys1 = inst1 + sys2 \<longrightarrow> expire < ce_expire (cs_entry slot) + second \<and> ce_expire (cs_entry slot) < expire + second))) \<and>
    (\<forall>key. answer_at c' key \<noteq> None \<longrightarrow> (\<exists>slot. map_of (dc_inner c) key = Some slot \<and> restored inst1 sys1 (sys2 div second) slot))"
proof -
  let ?secs = "sys2 div second" and ?m = "dc_inner c"
  have I: "ticket_inv (c, ts)" using ticket_inv_run [OF ticket_inv_new] assms(1) by metis
  then have dist: "distinct (map fst ?m)" by (simp add: ticket_inv_def amap_wf_def)
  have room: "length (dc_inner (cache_new cfg')) + length ?m \<le> unat (cc_max_entries (dc_cfg (cache_new cfg')))"
    using assms(3) by (simp add: cache_new_def cache_len_def)
  have c': "c' = fold (\<lambda>(i, row). load_row u (clock i) ?secs row) (enumerate 0 (map (dump_entry inst1 sys1) ?m)) (cache_new cfg')"
    by (simp add: assms(4) cache_load_def cache_dump_def)
  note rows = load_dumped_rows [OF dist assms(2) room c']
  have "\<exists>i expire. answer_at c' key = Some (ce_ips (cs_entry slot), expire) \<and>
      (clock i + sys1 = inst1 + sys2 \<longrightarrow> expire < ce_expire (cs_entry slot) + second \<and> ce_expire (cs_entry slot) < expire + second)"
    if at: "map_of ?m key = Some slot" and kept: "restored inst1 sys1 ?secs slot" for key slot
  proof -
    obtain j where j: "j < length ?m" "?m ! j = (key, slot)" using map_of_SomeD [OF at] by (auto simp: in_set_conv_nth)
    have "answer_at c' key = Some (ce_ips (cs_entry slot), clock j + (stored_secs inst1 sys1 slot - ?secs) * second)"
      using rows(1) [OF j(1)] kept j(2) by simp
    then show ?thesis
      using kept restored_expiry [of sys2 sys1 "ce_expire (cs_entry slot)" inst1 "clock j"]
      by (intro exI [of _ j] exI [of _ "clock j + (stored_secs inst1 sys1 slot - ?secs) * second"])
        (auto simp: restored_def stored_secs_def)
  qed
  moreover have "\<exists>slot. map_of ?m key = Some slot \<and> restored inst1 sys1 ?secs slot" if "answer_at c' key \<noteq> None" for key
  proof (rule ccontr)
    assume "\<nexists>slot. map_of ?m key = Some slot \<and> restored inst1 sys1 ?secs slot"
    then have "\<forall>slot. (key, slot) \<in> set ?m \<longrightarrow> \<not> restored inst1 sys1 ?secs slot" using dist by (auto intro: map_of_is_SomeI)
    from rows(2) [OF this] that show False by (simp add: answer_at_def cache_new_def)
  qed
  ultimately show ?thesis by blast
qed

section \<open>Examples\<close>

definition plain_tables :: unicode where
  "plain_tables = \<lparr>uc_lowercase = (\<lambda>s. s), uc_alphanumeric = (\<lambda>_. False)\<rparr>"

definition small_cache_config :: cache_config where
  "small_cache_config = \<lparr>cc_max_entries = 3, cc_grace = 10, cc_prefetch_threshold = 2, cc_client_response_timeout = 1,
     cc_failure_recheck = 5, cc_stale_answer_ttl = 3, cc_negative_ttl = 4\<rparr>"

definition sample_cache_run :: "dns_cache \<times> prefetch_ticket list" where
  "sample_cache_run = cache_run plain_tables
     [Ce_Put ''A.com'' QT_A [V4 1] 7000000000 ''x'' 0, Ce_Get ''a.com'' QT_A False 7000000001] (cache_new small_cache_config, [])"

lemma sample_cache_run_value:
  "map pt_cell (snd sample_cache_run) = [0] \<and> cache_len (fst sample_cache_run) = 1 \<and>
   list_all (\<lambda>(key, slot). to_lowercase plain_tables (fst key) = fst key) (dc_inner (fst sample_cache_run)) \<and>
   answer_at (fst sample_cache_run) (''a.com'', QT_A) = Some ([V4 1], 7000000000)"
  by code_simp

lemma sample_cache_run_eq:
  "cache_run plain_tables
     [Ce_Put ''A.com'' QT_A [V4 1] 7000000000 ''x'' 0, Ce_Get ''a.com'' QT_A False 7000000001] (cache_new small_cache_config, []) =
   (fst sample_cache_run, snd sample_cache_run)"
  by (simp add: sample_cache_run_def)

lemma quadruple: "x = ((fst (fst x), fst (snd (fst x)), snd (snd (fst x))), snd x)"
  by simp

theorem background_refresh_exclusive_witness:
  "fst (snd (fst (cache_get plain_tables ''A.COM'' QT_A 7000000002 (fst sample_cache_run)))) = Hit_Stale \<and>
   map pt_cell (snd sample_cache_run) = [0] \<and>
   pt_cell ` set_option (snd (snd (fst (cache_get plain_tables ''A.COM'' QT_A 7000000002 (fst sample_cache_run))))) \<inter>
     pt_cell ` set (snd sample_cache_run) = {}"
proof -
  let ?t = "snd (snd (fst (cache_get plain_tables ''A.COM'' QT_A 7000000002 (fst sample_cache_run))))"
  have "fst (snd (fst (cache_get plain_tables ''A.COM'' QT_A 7000000002 (fst sample_cache_run)))) = Hit_Stale" by code_simp
  moreover have "pt_cell ` set_option ?t \<inter> pt_cell ` set (snd sample_cache_run) = {}"
    using background_refresh_exclusive [OF sample_cache_run_eq quadruple, THEN conjunct2, THEN conjunct1] by (fastforce simp: elem_set)
  ultimately show ?thesis using sample_cache_run_value by blast
qed

definition sample_second_run :: "dns_cache \<times> prefetch_ticket list" where
  "sample_second_run = cache_run plain_tables [Ce_Get ''b.com'' QT_A False 7000000003, Ce_Put ''c.com'' QT_A [V4 3] 5 ''z'' 7000000003]
     (cache_put plain_tables ''B.com'' QT_A [V4 2] 5 ''y'' 7000000003 (fst sample_cache_run), snd sample_cache_run)"

theorem cache_answers_what_was_put_witness:
  "fst (fst (cache_get plain_tables ''b.COM'' QT_A 7000000004 (fst sample_second_run))) = Some [V4 2]"
proof -
  have r: "cache_run plain_tables [Ce_Get ''b.com'' QT_A False 7000000003, Ce_Put ''c.com'' QT_A [V4 3] 5 ''z'' 7000000003]
     (cache_put plain_tables ''B.com'' QT_A [V4 2] 5 ''y'' 7000000003 (fst sample_cache_run), snd sample_cache_run) =
     (fst sample_second_run, snd sample_second_run)" by (simp add: sample_second_run_def)
  have key: "cache_key_of plain_tables ''b.COM'' QT_A = cache_key_of plain_tables ''B.com'' QT_A"
    "cache_key_of plain_tables ''c.com'' QT_A \<noteq> cache_key_of plain_tables ''B.com'' QT_A" by code_simp+
  have room: "cache_len (fst sample_cache_run) + 2 \<le> unat (cc_max_entries small_cache_config)"
    using sample_cache_run_value by (simp add: small_cache_config_def)
  show ?thesis
    using cache_answers_what_was_put [OF sample_cache_run_eq _ r _ key(1) quadruple] room key(2) by simp
qed

theorem put_evicts_least_recently_used_witness:
  "cache_len (cache_put plain_tables ''b.com'' QT_A [V4 2] 5 ''y'' 7 (fst sample_cache_run)) \<le> 3"
proof -
  have "unat (cc_max_entries small_cache_config) = 3" by (simp add: small_cache_config_def)
  with put_evicts_least_recently_used [OF sample_cache_run_eq _ refl refl, of "[V4 2]"] show ?thesis by simp
qed

theorem stored_answers_return_witness:
  "\<exists>expire. answer_at (cache_load plain_tables (\<lambda>_. 4000000000) 8000000000 (cache_dump 1000000000 5000000000 (fst sample_cache_run))
      (cache_new small_cache_config)) (''a.com'', QT_A) = Some ([V4 1], expire) \<and> expire < 8000000000"
proof -
  let ?c = "fst sample_cache_run"
  have low: "\<forall>(key, slot) \<in> set (dc_inner ?c). to_lowercase plain_tables (fst key) = fst key"
    "cache_len ?c \<le> unat (cc_max_entries small_cache_config)"
    using sample_cache_run_value by (auto simp: list_all_iff small_cache_config_def)
  obtain slot where slot: "map_of (dc_inner ?c) (''a.com'', QT_A) = Some slot" "ce_ips (cs_entry slot) = [V4 1]" "ce_expire (cs_entry slot) = 7000000000"
    using sample_cache_run_value by (auto simp: answer_at_def)
  have "restored 1000000000 5000000000 (8000000000 div second) slot"
    using slot by (simp add: restored_def stored_secs_def second_def)
  with stored_answers_return [OF sample_cache_run_eq low refl, where clock = "\<lambda>_. 4000000000" and ?sys2.0 = 8000000000 and ?inst1.0 = 1000000000 and ?sys1.0 = 5000000000, THEN conjunct1,
    rule_format, OF slot(1)] slot
  show ?thesis by (auto simp: second_def)
qed

end
