(* ===== verification/Dns_Tables.thy ===== *)
theory Dns_Tables
  imports Dns_Cache
begin

text \<open>
  The two tables of the resolver beside its cache: the hosts file (\<open>core-resolver/src/hosts.rs\<close>) and the map from resolved addresses back
  to hosts (\<open>core-resolver/src/mapping.rs\<close>).

  A value of the crate \<open>serde_yaml\<close> is seen through two parameters: its string, as \<open>as_str\<close> gives it, and whether it is a string, a
  sequence or anything else.
\<close>

section \<open>Lines and words\<close>

text \<open>\<open>str::split_whitespace\<close> over the characters of a string.\<close>

fun ws_words :: "string list \<Rightarrow> string \<Rightarrow> string list" where
  "ws_words [] word = (if word = [] then [] else [word])"
| "ws_words (c # cs) word =
    (if is_whitespace c then (if word = [] then ws_words cs [] else word # ws_words cs []) else ws_words cs (word @ c))"

definition split_whitespace :: "string \<Rightarrow> string list" where
  "split_whitespace s = ws_words (utf8_chars s) []"

section \<open>The hosts table\<close>

record hosts_entry =
  he_ipv4 :: "u32 list"
  he_ipv6 :: "u128 list"

type_synonym hosts_table = "(string \<times> hosts_entry) list"

definition entry_or_default :: "string \<Rightarrow> hosts_table \<Rightarrow> hosts_entry" where
  "entry_or_default domain t = (case map_of t domain of Some e \<Rightarrow> e | None \<Rightarrow> \<lparr>he_ipv4 = [], he_ipv6 = []\<rparr>)"

text \<open>A line of the file adds an address once; a mapping of the configuration adds it as often as it is there.\<close>

definition hosts_add :: "ip_addr \<Rightarrow> string \<Rightarrow> hosts_table \<Rightarrow> hosts_table" where
  "hosts_add ip domain t =
    (let e = entry_or_default domain t
     in amap_insert domain
       (case ip of
          V4 a \<Rightarrow> if a \<in> set (he_ipv4 e) then e else e\<lparr>he_ipv4 := he_ipv4 e @ [a]\<rparr>
        | V6 a \<Rightarrow> if a \<in> set (he_ipv6 e) then e else e\<lparr>he_ipv6 := he_ipv6 e @ [a]\<rparr>) t)"

definition hosts_push :: "hosts_entry \<Rightarrow> ip_addr \<Rightarrow> hosts_entry" where
  "hosts_push e ip = (case ip of V4 a \<Rightarrow> e\<lparr>he_ipv4 := he_ipv4 e @ [a]\<rparr> | V6 a \<Rightarrow> e\<lparr>he_ipv6 := he_ipv6 e @ [a]\<rparr>)"

definition host_key :: "unicode \<Rightarrow> string \<Rightarrow> string" where
  "host_key u host = to_lowercase u (trim_end_matches CHR ''.'' host)"

definition hosts_line :: "unicode \<Rightarrow> string \<Rightarrow> hosts_table \<Rightarrow> hosts_table" where
  "hosts_line u raw t =
    (let line = trim u (takeWhile (\<lambda>c. c \<noteq> CHR ''#'') (trim u raw))
     in if line = [] then t
        else case split_whitespace line of
            [] \<Rightarrow> t
          | ip_str # parts \<Rightarrow>
              (case parse_ip ip_str of
                 None \<Rightarrow> t
               | Some ip \<Rightarrow> fold (\<lambda>hostname. hosts_add ip (host_key u hostname)) parts t))"

definition hosts_parse :: "unicode \<Rightarrow> string \<Rightarrow> hosts_table" where
  "hosts_parse u content = fold (hosts_line u) (str_lines content) []"

datatype 'v yaml_view = Y_String string | Y_Sequence "'v list" | Y_Other

definition load_mapping_entry ::
  "unicode \<Rightarrow> ('v \<Rightarrow> string option) \<Rightarrow> ('v \<Rightarrow> 'v yaml_view) \<Rightarrow> 'v \<times> 'v \<Rightarrow> hosts_table \<Rightarrow> hosts_table" where
  "load_mapping_entry u as_str view kv t =
    (case as_str (fst kv) of
       None \<Rightarrow> t
     | Some domain \<Rightarrow>
         (let domain_lc = host_key u domain;
              add = (\<lambda>ips. amap_insert domain_lc (foldl hosts_push (entry_or_default domain_lc t) (List.map_filter parse_ip ips)) t)
          in case view (snd kv) of
               Y_String s \<Rightarrow> add [s]
             | Y_Sequence vs \<Rightarrow> add (List.map_filter as_str vs)
             | Y_Other \<Rightarrow> t))"

definition load_mapping :: "unicode \<Rightarrow> ('v \<Rightarrow> string option) \<Rightarrow> ('v \<Rightarrow> 'v yaml_view) \<Rightarrow> ('v \<times> 'v) list \<Rightarrow> hosts_table" where
  "load_mapping u as_str view m = fold (load_mapping_entry u as_str view) m []"

definition merge_entry :: "string \<times> hosts_entry \<Rightarrow> hosts_table \<Rightarrow> hosts_table" where
  "merge_entry row t =
    (let e = entry_or_default (fst row) t
     in amap_insert (fst row) \<lparr>he_ipv4 = he_ipv4 e @ he_ipv4 (snd row), he_ipv6 = he_ipv6 e @ he_ipv6 (snd row)\<rparr> t)"

definition hosts_merge :: "hosts_table \<Rightarrow> hosts_table \<Rightarrow> hosts_table" where
  "hosts_merge other t = fold merge_entry other t"

definition hosts_lookup :: "string \<Rightarrow> qtype \<Rightarrow> hosts_table \<Rightarrow> ip_addr list option" where
  "hosts_lookup host q t =
    (case map_of t host of
       None \<Rightarrow> None
     | Some e \<Rightarrow>
         (let ips = (case q of
                QT_A \<Rightarrow> map V4 (he_ipv4 e)
              | QT_AAAA \<Rightarrow> map V6 (he_ipv6 e)
              | QT_Both \<Rightarrow> map V4 (he_ipv4 e) @ map V6 (he_ipv6 e))
          in if ips = [] then None else Some ips))"

section \<open>What a hosts file says\<close>

text \<open>The pairs of a host and an address that a file names, in its order.\<close>

definition line_pairs :: "unicode \<Rightarrow> string \<Rightarrow> (string \<times> ip_addr) list" where
  "line_pairs u raw =
    (case split_whitespace (trim u (takeWhile (\<lambda>c. c \<noteq> CHR ''#'') (trim u raw))) of
       [] \<Rightarrow> []
     | ip_str # names \<Rightarrow> (case parse_ip ip_str of None \<Rightarrow> [] | Some ip \<Rightarrow> map (\<lambda>name. (host_key u name, ip)) names))"

definition file_pairs :: "unicode \<Rightarrow> string \<Rightarrow> (string \<times> ip_addr) list" where
  "file_pairs u content = concat (map (line_pairs u) (str_lines content))"

definition first_of_each :: "'a list \<Rightarrow> 'a list" where
  "first_of_each xs = rev (remdups (rev xs))"

lemma first_of_each_snoc: "first_of_each (xs @ [x]) = (if x \<in> set xs then first_of_each xs else first_of_each xs @ [x])"
  by (simp add: first_of_each_def)

lemma set_first_of_each [simp]: "set (first_of_each xs) = set xs"
  by (simp add: first_of_each_def)

lemma first_of_each_Nil_iff [simp]: "first_of_each xs = [] \<longleftrightarrow> xs = []"
  using set_first_of_each [of xs] by (metis set_empty)

definition v4_of :: "ip_addr \<Rightarrow> u32 list" where "v4_of ip = (case ip of V4 a \<Rightarrow> [a] | V6 _ \<Rightarrow> [])"
definition v6_of :: "ip_addr \<Rightarrow> u128 list" where "v6_of ip = (case ip of V4 _ \<Rightarrow> [] | V6 a \<Rightarrow> [a])"

definition pairs_entry :: "string \<Rightarrow> (string \<times> ip_addr) list \<Rightarrow> hosts_entry" where
  "pairs_entry host ps =
     \<lparr>he_ipv4 = first_of_each (concat (map (\<lambda>(h, ip). if h = host then v4_of ip else []) ps)),
      he_ipv6 = first_of_each (concat (map (\<lambda>(h, ip). if h = host then v6_of ip else []) ps))\<rparr>"

lemma hosts_add_entry: "entry_or_default host (hosts_add ip domain t) =
    (if host = domain then (let e = entry_or_default domain t in case ip of
        V4 a \<Rightarrow> if a \<in> set (he_ipv4 e) then e else e\<lparr>he_ipv4 := he_ipv4 e @ [a]\<rparr>
      | V6 a \<Rightarrow> if a \<in> set (he_ipv6 e) then e else e\<lparr>he_ipv6 := he_ipv6 e @ [a]\<rparr>)
     else entry_or_default host t)"
  by (auto simp: hosts_add_def entry_or_default_def [of host] map_of_amap_insert Let_def)

lemma add_pairs_entry:
  assumes "\<forall>host. entry_or_default host t = pairs_entry host ps"
  shows "entry_or_default host (fold (\<lambda>(domain, ip). hosts_add ip domain) qs t) = pairs_entry host (ps @ qs)"
  using assms
proof (induction qs arbitrary: t ps)
  case (Cons q qs)
  obtain domain ip where q: "q = (domain, ip)" by (cases q)
  have "entry_or_default host (hosts_add ip domain t) = pairs_entry host (ps @ [q])" for host
    using Cons.prems by (cases ip) (auto simp: hosts_add_entry q pairs_entry_def v4_of_def v6_of_def first_of_each_snoc Let_def)
  then show ?case using Cons.IH [of "hosts_add ip domain t" "ps @ [q]"] q by simp
qed simp

lemma hosts_line_pairs: "hosts_line u raw t = fold (\<lambda>(domain, ip). hosts_add ip domain) (line_pairs u raw) t"
  by (auto simp: hosts_line_def line_pairs_def Let_def fold_map comp_def split_whitespace_def split: list.split option.split)

lemma hosts_lines_pairs: "fold (hosts_line u) ls t = fold (\<lambda>(domain, ip). hosts_add ip domain) (concat (map (line_pairs u) ls)) t"
  by (induction ls arbitrary: t) (simp_all add: hosts_line_pairs)

text \<open>
  C37: A hosts file answers as it reads. A look-up gives the addresses of the lines that name the host, without comments, with names in
  lower case and without dots at their end, each address once and in the order of the file, the IPv4 addresses before the IPv6
  addresses when both are asked for; and nothing when no line has such an address.
\<close>

theorem hosts_file_lookup:
  "hosts_lookup host q (hosts_parse u content) =
    (let e = pairs_entry host (file_pairs u content);
         ips = (if q = QT_AAAA then [] else map V4 (he_ipv4 e)) @ (if q = QT_A then [] else map V6 (he_ipv6 e))
     in if ips = [] then None else Some ips)"
proof -
  have "\<forall>host. entry_or_default host [] = pairs_entry host []"
    by (simp add: entry_or_default_def pairs_entry_def first_of_each_def)
  from add_pairs_entry [OF this] have "entry_or_default host (hosts_parse u content) = pairs_entry host (file_pairs u content)"
    by (simp add: hosts_parse_def hosts_lines_pairs file_pairs_def)
  moreover have "hosts_lookup host q t =
    (let e = entry_or_default host t; ips = (if q = QT_AAAA then [] else map V4 (he_ipv4 e)) @ (if q = QT_A then [] else map V6 (he_ipv6 e))
     in if ips = [] then None else Some ips)" for t
    by (cases q) (simp_all add: hosts_lookup_def entry_or_default_def Let_def split: option.split)
  ultimately show ?thesis by (simp add: Let_def)
qed

text \<open>The configured hosts come behind those of the file.\<close>

lemma merge_entry_entry: "entry_or_default host (merge_entry row t) =
    (if host = fst row then \<lparr>he_ipv4 = he_ipv4 (entry_or_default host t) @ he_ipv4 (snd row), he_ipv6 = he_ipv6 (entry_or_default host t) @ he_ipv6 (snd row)\<rparr>
     else entry_or_default host t)"
  by (auto simp: merge_entry_def entry_or_default_def [of host] map_of_amap_insert Let_def)

lemma hosts_merge_entry:
  assumes "amap_wf other"
  shows "entry_or_default host (hosts_merge other t) =
    \<lparr>he_ipv4 = he_ipv4 (entry_or_default host t) @ he_ipv4 (entry_or_default host other),
     he_ipv6 = he_ipv6 (entry_or_default host t) @ he_ipv6 (entry_or_default host other)\<rparr>"
  using assms
proof (induction other arbitrary: t)
  case (Cons row other)
  then have IH: "entry_or_default host (hosts_merge other (merge_entry row t)) =
    \<lparr>he_ipv4 = he_ipv4 (entry_or_default host (merge_entry row t)) @ he_ipv4 (entry_or_default host other),
     he_ipv6 = he_ipv6 (entry_or_default host (merge_entry row t)) @ he_ipv6 (entry_or_default host other)\<rparr>"
    by (simp add: amap_wf_def)
  have "entry_or_default (fst row) other = \<lparr>he_ipv4 = [], he_ipv6 = []\<rparr>"
  proof -
    have "map_of other (fst row) = None" using Cons.prems by (simp add: amap_wf_def map_of_eq_None_iff)
    then show ?thesis by (simp add: entry_or_default_def)
  qed
  then show ?case using IH
    by (cases row) (auto simp: hosts_merge_def merge_entry_entry entry_or_default_def [of _ "_ # _"] entry_or_default_def [of _ other])
qed (simp add: hosts_merge_def entry_or_default_def)

section \<open>The map from addresses to hosts\<close>

record ip_host_mapping =
  im_inner :: "(ip_addr \<times> string \<times> nat) list"
  im_max_entries :: nat

definition mapping_new :: "nat \<Rightarrow> ip_host_mapping" where
  "mapping_new max_entries = \<lparr>im_inner = [], im_max_entries = max_entries\<rparr>"

definition mapping_evict_expired :: "nat \<Rightarrow> ip_host_mapping \<Rightarrow> ip_host_mapping" where
  "mapping_evict_expired now m = m\<lparr>im_inner := amap_retain (\<lambda>_ (_, expires). now < expires) (im_inner m)\<rparr>"

definition mapping_insert :: "ip_addr \<Rightarrow> string \<Rightarrow> nat \<Rightarrow> nat \<Rightarrow> ip_host_mapping \<Rightarrow> ip_host_mapping" where
  "mapping_insert ip host ttl now m =
    (let m' = m\<lparr>im_inner := amap_insert ip (host, now + ttl) (im_inner m)\<rparr>
     in if im_max_entries m < length (im_inner m') then mapping_evict_expired now m' else m')"

definition mapping_find_host :: "ip_addr \<Rightarrow> nat \<Rightarrow> ip_host_mapping \<Rightarrow> string option \<times> ip_host_mapping" where
  "mapping_find_host ip now m =
    (case map_of (im_inner m) ip of
       None \<Rightarrow> (None, m)
     | Some (host, expires) \<Rightarrow>
         if expires < now then (None, m\<lparr>im_inner := amap_remove ip (im_inner m)\<rparr>) else (Some host, m))"

definition mapping_purge_expired :: "nat \<Rightarrow> ip_host_mapping \<Rightarrow> nat \<times> ip_host_mapping" where
  "mapping_purge_expired now m =
    (let m' = m\<lparr>im_inner := amap_retain (\<lambda>_ (_, expires). now < expires) (im_inner m)\<rparr>
     in (length (im_inner m) - length (im_inner m'), m'))"

datatype mapping_event = Mi_Insert ip_addr string nat nat | Mi_Find ip_addr nat | Mi_Purge nat

fun mapping_apply :: "mapping_event \<Rightarrow> ip_host_mapping \<Rightarrow> ip_host_mapping" where
  "mapping_apply (Mi_Insert ip host ttl now) m = mapping_insert ip host ttl now m"
| "mapping_apply (Mi_Find ip now) m = snd (mapping_find_host ip now m)"
| "mapping_apply (Mi_Purge now) m = snd (mapping_purge_expired now m)"

fun event_time :: "mapping_event \<Rightarrow> nat" where
  "event_time (Mi_Insert _ _ _ now) = now"
| "event_time (Mi_Find _ now) = now"
| "event_time (Mi_Purge now) = now"

fun inserts_ip :: "ip_addr \<Rightarrow> mapping_event \<Rightarrow> bool" where
  "inserts_ip ip (Mi_Insert ip' _ _ _) \<longleftrightarrow> ip = ip'"
| "inserts_ip ip _ \<longleftrightarrow> False"

lemma mapping_wf: "amap_wf (im_inner m) \<Longrightarrow> amap_wf (im_inner (mapping_apply ev m))"
  by (cases ev) (auto simp: mapping_insert_def mapping_evict_expired_def mapping_find_host_def mapping_purge_expired_def Let_def split: option.split)

lemma mapping_kept:
  assumes "amap_wf (im_inner m)" "\<not> inserts_ip ip ev"
  shows "map_of (im_inner (mapping_apply ev m)) ip \<in> {None, map_of (im_inner m) ip}"
    "map_of (im_inner m) ip = Some (host, expires) \<Longrightarrow> event_time ev < expires \<Longrightarrow>
       map_of (im_inner (mapping_apply ev m)) ip = Some (host, expires)"
  using assms
  by (cases ev; auto simp: mapping_insert_def mapping_evict_expired_def mapping_find_host_def mapping_purge_expired_def Let_def
      map_of_amap_retain map_of_amap_insert map_of_amap_remove split: option.split)+

lemma mapping_run_kept:
  assumes "amap_wf (im_inner m)" "\<forall>ev \<in> set evs. \<not> inserts_ip ip ev"
  shows "amap_wf (im_inner (fold mapping_apply evs m)) \<and> map_of (im_inner (fold mapping_apply evs m)) ip \<in> {None, map_of (im_inner m) ip} \<and>
    (map_of (im_inner m) ip = Some (host, expires) \<longrightarrow> (\<forall>ev \<in> set evs. event_time ev < expires) \<longrightarrow>
       map_of (im_inner (fold mapping_apply evs m)) ip = Some (host, expires))"
  using assms
proof (induction evs arbitrary: m)
  case (Cons ev evs)
  note IH = Cons.IH [OF mapping_wf [OF Cons.prems(1)], of ev]
  show ?case using IH Cons.prems(2) mapping_kept(1) [OF Cons.prems(1), of ip ev] mapping_kept(2) [OF Cons.prems(1), of ip ev host expires] by auto
qed simp

lemma mapping_run_wf: "amap_wf (im_inner m) \<Longrightarrow> amap_wf (im_inner (fold mapping_apply evs m))"
  by (induction evs arbitrary: m) (simp_all add: mapping_wf)

text \<open>
  An address is led back to the host it was resolved for. After an address was recorded with a host, and until it is recorded
  again, a reverse look-up gives this host or nothing; it gives nothing once the time to live is over, and gives the host as long as
  neither the look-up nor anything before it comes at or after the end of that time, however full the table is.
\<close>

theorem address_led_back_to_host:
  assumes "m = fold mapping_apply before (mapping_new n)" "\<forall>ev \<in> set between. \<not> inserts_ip ip ev" "0 < ttl"
    "m' = fold mapping_apply between (mapping_insert ip host ttl t0 m)" "found = fst (mapping_find_host ip now m')"
  shows "found \<in> {None, Some host} \<and> (t0 + ttl < now \<longrightarrow> found = None) \<and>
    (now < t0 + ttl \<longrightarrow> (\<forall>ev \<in> set between. event_time ev < t0 + ttl) \<longrightarrow> found = Some host)"
proof -
  let ?m = "mapping_insert ip host ttl t0 m"
  have wf: "amap_wf (im_inner m)" using mapping_run_wf [of "mapping_new n" before] by (simp add: assms(1) mapping_new_def)
  then have put: "map_of (im_inner ?m) ip = Some (host, t0 + ttl)" "amap_wf (im_inner ?m)"
    using assms(3) by (simp_all add: mapping_insert_def mapping_evict_expired_def Let_def map_of_amap_retain map_of_amap_insert)
  from mapping_run_kept [OF put(2) assms(2), of host "t0 + ttl"] put(1) show ?thesis
    unfolding assms(4,5) by (auto simp: mapping_find_host_def split: if_splits)
qed

theorem address_led_back_to_host_witness:
  "fst (mapping_find_host (V4 1) 9 (fold mapping_apply [Mi_Find (V4 2) 8, Mi_Purge 9] (mapping_insert (V4 1) ''a'' 5 5 (mapping_new 0)))) = Some ''a''"
proof -
  have "mapping_new 0 = fold mapping_apply [] (mapping_new 0)" by simp
  from address_led_back_to_host [OF this _ _ refl refl, of "[Mi_Find (V4 2) 8, Mi_Purge 9]" "V4 1" 5 9 "''a''" 5]
  show ?thesis by simp
qed

text \<open>The limit removes only what has expired: entries that live on are kept beyond it.\<close>

lemma mapping_grows_beyond_limit:
  "length (im_inner (fold mapping_apply (map (\<lambda>a. Mi_Insert (V4 a) ''h'' 1 0) [1, 2, 3]) (mapping_new 1))) = 3"
  by code_simp

end
