(* ===== verification/Fake_Ip.thy ===== *)
theory Fake_Ip
  imports Std_Str
begin

text \<open>
  The pool of fake addresses (\<open>core-resolver/src/fake_ip.rs\<close>): a host asked for in DNS gets an address
  of a reserved network, and a connection to that address is led back to the host.

  Calls are taken one at a time; an \<open>Instant\<close> is a natural number passed to the operations that read
  the clock. A network of the crate \<open>ipnet\<close> is the record of the results of the methods the code
  calls on it; \<open>pool_nets\<close> states what these methods are documented to return.
\<close>

section \<open>State and operations\<close>

datatype address_family = Family_V4 | Family_V6

record v4_net =
  n4_network :: u32
  n4_broadcast :: u32
  n4_contains :: "u32 \<Rightarrow> bool"

record v6_net =
  n6_network :: u128
  n6_contains :: "u128 \<Rightarrow> bool"

record fake_ip_config =
  fc_v4_cidr :: v4_net
  fc_v6_cidr :: v6_net
  fc_ttl :: nat
  fc_enable_v4 :: bool
  fc_enable_v6 :: bool
  fc_avoid :: "(ip_addr \<Rightarrow> bool) list"

record fake_ip_pool =
  fp_cfg :: fake_ip_config
  fp_forward :: "((string \<times> address_family) \<times> ip_addr \<times> nat) list"
  fp_reverse :: "(ip_addr \<times> string \<times> nat) list"
  fp_next_v4 :: u32
  fp_next_v6 :: u128

definition fake_pool_new :: "fake_ip_config \<Rightarrow> fake_ip_pool" where
  "fake_pool_new cfg = \<lparr>fp_cfg = cfg, fp_forward = [], fp_reverse = [],
     fp_next_v4 = saturating_add (n4_network (fc_v4_cidr cfg)) 1,
     fp_next_v6 = saturating_add (n6_network (fc_v6_cidr cfg)) 1\<rparr>"

definition enabled_for :: "fake_ip_pool \<Rightarrow> address_family \<Rightarrow> bool" where
  "enabled_for p family =
    (case family of Family_V4 \<Rightarrow> fc_enable_v4 (fp_cfg p) | Family_V6 \<Rightarrow> fc_enable_v6 (fp_cfg p))"

definition is_acceptable :: "fake_ip_pool \<Rightarrow> ip_addr \<Rightarrow> bool" where
  "is_acceptable p ip \<longleftrightarrow> \<not> amap_contains ip (fp_reverse p) \<and> \<not> list_ex (\<lambda>n. n ip) (fc_avoid (fp_cfg p))"

text \<open>The loops over candidates, with the number of tries that are left.\<close>

fun next_v4_loop :: "nat \<Rightarrow> fake_ip_pool \<Rightarrow> ip_addr option \<times> fake_ip_pool" where
  "next_v4_loop 0 p = (None, p)"
| "next_v4_loop (Suc tries) p =
    (let net = fc_v4_cidr (fp_cfg p);
         g = (if n4_broadcast net \<le> fp_next_v4 p then saturating_add (n4_network net) 1 else fp_next_v4 p);
         p' = p\<lparr>fp_next_v4 := saturating_add g 1\<rparr>
     in if g = n4_broadcast net then next_v4_loop tries p'
        else if is_acceptable p (V4 g) then (Some (V4 g), p')
        else next_v4_loop tries p')"

definition next_v4_addr :: "fake_ip_pool \<Rightarrow> ip_addr option \<times> fake_ip_pool" where
  "next_v4_addr p =
    (let net = fc_v4_cidr (fp_cfg p);
         span = unat (saturating_sub (n4_broadcast net - n4_network net) 1)
     in next_v4_loop (span + 1) p)"

fun next_v6_loop :: "nat \<Rightarrow> fake_ip_pool \<Rightarrow> ip_addr option \<times> fake_ip_pool" where
  "next_v6_loop 0 p = (None, p)"
| "next_v6_loop (Suc tries) p =
    (let start = n6_network (fc_v6_cidr (fp_cfg p));
         g = (if saturating_add start (push_bit 32 1) \<le> fp_next_v6 p then saturating_add start 1 else fp_next_v6 p);
         p' = p\<lparr>fp_next_v6 := saturating_add g 1\<rparr>
     in if is_acceptable p (V6 g) then (Some (V6 g), p') else next_v6_loop tries p')"

definition next_v6_addr :: "fake_ip_pool \<Rightarrow> ip_addr option \<times> fake_ip_pool" where
  "next_v6_addr p = next_v6_loop (2 ^ 16) p"

definition allocate_new :: "address_family \<Rightarrow> fake_ip_pool \<Rightarrow> ip_addr option \<times> fake_ip_pool" where
  "allocate_new family p = (case family of Family_V4 \<Rightarrow> next_v4_addr p | Family_V6 \<Rightarrow> next_v6_addr p)"

definition fake_alloc :: "unicode \<Rightarrow> string \<Rightarrow> address_family \<Rightarrow> nat \<Rightarrow> fake_ip_pool \<Rightarrow> ip_addr option \<times> fake_ip_pool" where
  "fake_alloc u host family now p =
    (if \<not> enabled_for p family then (None, p)
     else
       (let key = (to_lowercase u host, family);
            expire = now + fc_ttl (fp_cfg p);
            fresh = (case allocate_new family p of
                (None, p') \<Rightarrow> (None, p')
              | (Some ip, p') \<Rightarrow> (Some ip, p'\<lparr>fp_forward := amap_insert key (ip, expire) (fp_forward p'),
                                            fp_reverse := amap_insert ip (to_lowercase u host, expire) (fp_reverse p')\<rparr>))
        in case map_of (fp_forward p) key of
             Some (ip, expires) \<Rightarrow>
               if now < expires then (Some ip, p\<lparr>fp_forward := amap_insert key (ip, expire) (fp_forward p)\<rparr>)
               else fresh
           | None \<Rightarrow> fresh))"

definition fake_lookup :: "ip_addr \<Rightarrow> nat \<Rightarrow> fake_ip_pool \<Rightarrow> string option" where
  "fake_lookup ip now p =
    (case map_of (fp_reverse p) ip of
       Some (host, expires) \<Rightarrow> if now < expires then Some host else None
     | None \<Rightarrow> None)"

definition insert_mapping :: "unicode \<Rightarrow> ip_addr \<Rightarrow> string \<Rightarrow> nat \<Rightarrow> nat \<Rightarrow> nat \<Rightarrow> fake_ip_pool \<Rightarrow> fake_ip_pool" where
  "insert_mapping u ip host ttl second now p =
     p\<lparr>fp_reverse := amap_insert ip (to_lowercase u host, now + max ttl second) (fp_reverse p)\<rparr>"

definition fake_contains :: "fake_ip_pool \<Rightarrow> ip_addr \<Rightarrow> bool" where
  "fake_contains p ip =
    (case ip of V4 a \<Rightarrow> n4_contains (fc_v4_cidr (fp_cfg p)) a | V6 a \<Rightarrow> n6_contains (fc_v6_cidr (fp_cfg p)) a)"

definition fake_purge_expired :: "nat \<Rightarrow> fake_ip_pool \<Rightarrow> nat \<times> fake_ip_pool" where
  "fake_purge_expired now p =
    (length (filter (\<lambda>(_, _, expires). expires \<le> now) (fp_forward p)),
     p\<lparr>fp_forward := amap_retain (\<lambda>_ (_, expires). now < expires) (fp_forward p),
       fp_reverse := amap_retain (\<lambda>_ (_, expires). now < expires) (fp_reverse p)\<rparr>)"

definition fake_len :: "fake_ip_pool \<Rightarrow> nat" where
  "fake_len p = length (fp_forward p)"

definition fake_clear :: "fake_ip_pool \<Rightarrow> nat \<times> fake_ip_pool" where
  "fake_clear p = (length (fp_forward p), p\<lparr>fp_forward := [], fp_reverse := []\<rparr>)"

section \<open>Filter\<close>

datatype filter_matcher = FM_Suffix string | FM_Keyword string | FM_Full string | FM_Wildcard string

datatype filter_mode = Blacklist | Whitelist

text \<open>\<open>trim_start_matches\<close> with a string removes the prefix as often as it is there.\<close>

function trim_start_str :: "string \<Rightarrow> string \<Rightarrow> string" where
  "trim_start_str pat s = (if pat \<noteq> [] \<and> starts_with pat s then trim_start_str pat (drop (length pat) s) else s)"
  by pat_completeness auto
termination
  by (relation "measure (\<lambda>(pat, s). length s)") (auto simp: starts_with_iff)

declare trim_start_str.simps [simp del]

definition parse_filter_pattern :: "unicode \<Rightarrow> string \<Rightarrow> filter_matcher" where
  "parse_filter_pattern u pattern =
    (let p = to_lowercase u (trim u pattern)
     in if starts_with ''+'' p \<or> starts_with ''*.'' p
        then FM_Suffix (trim_start_matches CHR ''.'' (trim_start_matches CHR ''*'' (trim_start_matches CHR ''+'' p)))
        else if starts_with ''keyword:'' p then FM_Keyword (trim_start_str ''keyword:'' p)
        else if starts_with ''full:'' p then FM_Full (trim_start_str ''full:'' p)
        else if starts_with ''domain:'' p \<or> starts_with ''suffix:'' p
        then FM_Suffix (case split_once CHR '':'' p of Some (_, v) \<Rightarrow> v | None \<Rightarrow> p)
        else if CHR ''*'' \<in> set p
        then FM_Wildcard (trim_start_matches CHR ''.'' (trim_start_matches CHR ''*'' p))
        else FM_Suffix p)"

record fake_ip_filter =
  ff_matchers :: "filter_matcher list"
  ff_mode :: filter_mode

definition fake_filter_new :: "unicode \<Rightarrow> string list \<Rightarrow> filter_mode \<Rightarrow> fake_ip_filter" where
  "fake_filter_new u patterns mode = \<lparr>ff_matchers = map (parse_filter_pattern u) patterns, ff_mode = mode\<rparr>"

fun filter_matches :: "filter_matcher \<Rightarrow> string \<Rightarrow> bool" where
  "filter_matches (FM_Full d) domain \<longleftrightarrow> domain = d"
| "filter_matches (FM_Suffix s) domain \<longleftrightarrow> domain = s \<or> ends_with (''.'' @ s) domain"
| "filter_matches (FM_Keyword k) domain \<longleftrightarrow> contains_str k domain"
| "filter_matches (FM_Wildcard b) domain \<longleftrightarrow> ends_with b domain"

definition should_skip :: "unicode \<Rightarrow> fake_ip_filter \<Rightarrow> string \<Rightarrow> bool" where
  "should_skip u f domain =
    (let matched = list_ex (\<lambda>m. filter_matches m (to_lowercase u domain)) (ff_matchers f)
     in case ff_mode f of Blacklist \<Rightarrow> matched | Whitelist \<Rightarrow> \<not> matched)"

section \<open>Addresses of the pool\<close>

text \<open>
  What \<open>ipnet\<close> promises of the networks, and the sizes for which the search stays inside: the IPv4
  network has an address between its first and last, the IPv6 network the \<open>2\<^sup>3\<^sup>2\<close> addresses after its
  first.
\<close>

definition pool_nets :: "fake_ip_config \<Rightarrow> bool" where
  "pool_nets cfg \<longleftrightarrow>
    (let n4 = fc_v4_cidr cfg; n6 = fc_v6_cidr cfg
     in unat (n4_network n4) + 1 < unat (n4_broadcast n4)
        \<and> (\<forall>a. n4_contains n4 a \<longleftrightarrow> n4_network n4 \<le> a \<and> a \<le> n4_broadcast n4)
        \<and> unat (n6_network n6) + 2 ^ 32 < 2 ^ 128
        \<and> (\<forall>k < 2 ^ 32. n6_contains n6 (n6_network n6 + of_nat k)))"

definition usable :: "fake_ip_config \<Rightarrow> ip_addr \<Rightarrow> bool" where
  "usable cfg ip \<longleftrightarrow> \<not> list_ex (\<lambda>n. n ip) (fc_avoid cfg) \<and>
    (case ip of
       V4 a \<Rightarrow> n4_contains (fc_v4_cidr cfg) a \<and> a \<noteq> n4_network (fc_v4_cidr cfg) \<and> a \<noteq> n4_broadcast (fc_v4_cidr cfg)
     | V6 a \<Rightarrow> n6_contains (fc_v6_cidr cfg) a \<and> a \<noteq> n6_network (fc_v6_cidr cfg))"

definition counters_in :: "fake_ip_pool \<Rightarrow> bool" where
  "counters_in p \<longleftrightarrow> n4_network (fc_v4_cidr (fp_cfg p)) < fp_next_v4 p \<and> n6_network (fc_v6_cidr (fp_cfg p)) < fp_next_v6 p"

lemma next_v4_loop_spec:
  assumes "pool_nets (fp_cfg p)" "counters_in p" "next_v4_loop n p = (r, p')"
  shows "(\<exists>g > n4_network (fc_v4_cidr (fp_cfg p)). p' = p\<lparr>fp_next_v4 := g\<rparr>) \<and>
    (\<forall>ip. r = Some ip \<longrightarrow> usable (fp_cfg p) ip \<and> \<not> amap_contains ip (fp_reverse p))"
  using assms
proof (induction n arbitrary: p)
  case (Suc n)
  let ?net = "fc_v4_cidr (fp_cfg p)"
  define g where "g = (if n4_broadcast ?net \<le> fp_next_v4 p then saturating_add (n4_network ?net) 1 else fp_next_v4 p)"
  let ?p = "p\<lparr>fp_next_v4 := saturating_add g 1\<rparr>"
  have net: "unat (n4_network ?net) + 1 < unat (n4_broadcast ?net)"
    "\<And>a. n4_contains ?net a \<longleftrightarrow> n4_network ?net \<le> a \<and> a \<le> n4_broadcast ?net"
    using Suc.prems(1) by (auto simp: pool_nets_def Let_def)
  have sat: "unat (saturating_add a 1) = min (unat a + 1) (2 ^ 32 - 1)" for a :: u32
    by (simp add: unat_saturating_add)
  have b: "unat (n4_broadcast ?net) < 2 ^ 32" using unat_bound [of "n4_broadcast ?net"] by simp
  have g: "n4_network ?net < g" "g < n4_broadcast ?net"
    using net(1) b Suc.prems(2) by (auto simp: g_def counters_in_def word_less_nat_alt word_le_nat_alt sat)
  have g1: "n4_network ?net < saturating_add g 1" using g net(1) b by (simp add: word_less_nat_alt sat min_def)
  have step: "next_v4_loop (Suc n) p = (if is_acceptable p (V4 g) then (Some (V4 g), ?p) else next_v4_loop n ?p)"
    unfolding next_v4_loop.simps(2) Let_def g_def [symmetric] using g(2) by auto
  show ?case
  proof (cases "is_acceptable p (V4 g)")
    case True
    then show ?thesis using step Suc.prems(3) g g1 net(2)
      by (auto simp: usable_def is_acceptable_def intro: order.strict_implies_order)
  next
    case False
    then show ?thesis using Suc.IH [of ?p] step Suc.prems g1 by (auto simp: counters_in_def is_acceptable_def)
  qed
qed (auto simp: counters_in_def)

lemma next_v6_loop_spec:
  assumes "pool_nets (fp_cfg p)" "counters_in p" "next_v6_loop n p = (r, p')"
  shows "(\<exists>g > n6_network (fc_v6_cidr (fp_cfg p)). p' = p\<lparr>fp_next_v6 := g\<rparr>) \<and>
    (\<forall>ip. r = Some ip \<longrightarrow> usable (fp_cfg p) ip \<and> \<not> amap_contains ip (fp_reverse p))"
  using assms
proof (induction n arbitrary: p)
  case (Suc n)
  let ?net = "fc_v6_cidr (fp_cfg p)"
  define g where "g = (if saturating_add (n6_network ?net) (push_bit 32 1) \<le> fp_next_v6 p
    then saturating_add (n6_network ?net) 1 else fp_next_v6 p)"
  let ?p = "p\<lparr>fp_next_v6 := saturating_add g 1\<rparr>"
  have net: "unat (n6_network ?net) + 2 ^ 32 < 2 ^ 128" "\<And>k. k < 2 ^ 32 \<Longrightarrow> n6_contains ?net (n6_network ?net + of_nat k)"
    using Suc.prems(1) by (auto simp: pool_nets_def Let_def)
  have sat: "unat (saturating_add a 1) = min (unat a + 1) (2 ^ 128 - 1)" for a :: u128
    by (simp add: unat_saturating_add)
  have lim: "unat (saturating_add (n6_network ?net) (push_bit 32 1)) = unat (n6_network ?net) + 2 ^ 32"
    using net(1) by (simp add: unat_saturating_add push_bit_eq_mult)
  have g: "unat (n6_network ?net) < unat g" "unat g < unat (n6_network ?net) + 2 ^ 32"
    using net(1) Suc.prems(2) lim by (auto simp: g_def counters_in_def word_less_nat_alt word_le_nat_alt sat)
  then have "g = n6_network ?net + of_nat (unat g - unat (n6_network ?net))" by simp
  then have inside: "n6_contains ?net g" using net(2) [of "unat g - unat (n6_network ?net)"] g by simp
  have g1: "n6_network ?net < saturating_add g 1"
    using g(1) net(1) by (simp add: word_less_nat_alt sat min_def)
  have step: "next_v6_loop (Suc n) p = (if is_acceptable p (V6 g) then (Some (V6 g), ?p) else next_v6_loop n ?p)"
    unfolding next_v6_loop.simps(2) Let_def g_def [symmetric] ..
  show ?case
  proof (cases "is_acceptable p (V6 g)")
    case True
    then show ?thesis using step Suc.prems(3) g g1 inside by (auto simp: usable_def is_acceptable_def)
  next
    case False
    then show ?thesis using Suc.IH [of ?p] step Suc.prems g1 by (auto simp: counters_in_def is_acceptable_def)
  qed
qed (auto simp: counters_in_def)

lemma allocate_new_spec:
  assumes "pool_nets (fp_cfg p)" "counters_in p" "allocate_new family p = (r, p')"
  shows "counters_in p' \<and> fp_cfg p' = fp_cfg p \<and> fp_forward p' = fp_forward p \<and> fp_reverse p' = fp_reverse p \<and>
    (\<forall>ip. r = Some ip \<longrightarrow> usable (fp_cfg p) ip \<and> \<not> amap_contains ip (fp_reverse p))"
proof (cases family)
  case Family_V4
  then obtain n where "next_v4_loop n p = (r, p')" using assms(3) by (auto simp: allocate_new_def next_v4_addr_def Let_def simp del: next_v4_loop.simps)
  then show ?thesis using next_v4_loop_spec [OF assms(1,2)] assms(2) by (fastforce simp: counters_in_def)
next
  case Family_V6
  then obtain n where "next_v6_loop n p = (r, p')" using assms(3) by (auto simp: allocate_new_def next_v6_addr_def)
  then show ?thesis using next_v6_loop_spec [OF assms(1,2)] assms(2) by (fastforce simp: counters_in_def)
qed

section \<open>Runs\<close>

datatype fake_event =
    Fk_Alloc string address_family
  | Fk_Mapping ip_addr string nat
  | Fk_Purge
  | Fk_Clear

fun fake_apply :: "unicode \<Rightarrow> nat \<Rightarrow> fake_ip_pool \<Rightarrow> fake_event \<times> nat \<Rightarrow> fake_ip_pool" where
  "fake_apply u second p (Fk_Alloc host family, now) = snd (fake_alloc u host family now p)"
| "fake_apply u second p (Fk_Mapping ip host ttl, now) = insert_mapping u ip host ttl second now p"
| "fake_apply u second p (Fk_Purge, now) = snd (fake_purge_expired now p)"
| "fake_apply u second p (Fk_Clear, now) = snd (fake_clear p)"

definition fake_inv :: "fake_ip_config \<Rightarrow> fake_ip_pool \<Rightarrow> bool" where
  "fake_inv cfg p \<longleftrightarrow> fp_cfg p = cfg \<and> counters_in p \<and> (\<forall>e \<in> set (fp_forward p). usable cfg (fst (snd e)))"

lemma amap_insert_set: "set (amap_insert k v m) \<subseteq> insert (k, v) (set m)"
  by (auto simp: amap_insert_def amap_remove_def)

lemma fake_inv_forward: "fake_inv cfg p \<Longrightarrow> map_of (fp_forward p) k = Some (ip, e) \<Longrightarrow> usable cfg ip"
  unfolding fake_inv_def by (metis fst_conv map_of_SomeD snd_conv)

text \<open>An allocation renews the entry of the host, or adds an address that no name is recorded for.\<close>

lemma fake_alloc_cases:
  assumes "pool_nets cfg" "fake_inv cfg p" "fake_alloc u host family now p = (r, p')"
  defines "key \<equiv> (to_lowercase u host, family)" and "expire \<equiv> now + fc_ttl cfg"
  obtains (renew) ip expires where "map_of (fp_forward p) key = Some (ip, expires)" "now < expires" "r = Some ip"
      "p' = p\<lparr>fp_forward := amap_insert key (ip, expire) (fp_forward p)\<rparr>"
  | (add) ip p1 where "r = Some ip" "usable cfg ip" "\<not> amap_contains ip (fp_reverse p)" "counters_in p1" "fp_cfg p1 = cfg"
      "p' = p1\<lparr>fp_forward := amap_insert key (ip, expire) (fp_forward p), fp_reverse := amap_insert ip (fst key, expire) (fp_reverse p)\<rparr>"
  | (none) "r = None" "fp_cfg p' = cfg" "counters_in p'" "fp_forward p' = fp_forward p" "fp_reverse p' = fp_reverse p"
proof -
  have cfg: "fp_cfg p = cfg" "counters_in p" using assms(2) by (auto simp: fake_inv_def)
  obtain v p1 where n: "allocate_new family p = (v, p1)" by (cases "allocate_new family p")
  have new: "counters_in p1" "fp_cfg p1 = cfg" "fp_forward p1 = fp_forward p" "fp_reverse p1 = fp_reverse p"
    "\<And>ip. v = Some ip \<Longrightarrow> usable cfg ip \<and> \<not> amap_contains ip (fp_reverse p)"
    using allocate_new_spec [of p family v p1] n cfg assms(1) by auto
  show ?thesis
  proof (cases "enabled_for p family \<and> (case map_of (fp_forward p) key of Some (ip, expires) \<Rightarrow> \<not> now < expires | None \<Rightarrow> True)")
    case True
    then have "(r, p') = (case v of None \<Rightarrow> (None, p1) | Some ip \<Rightarrow> (Some ip, p1\<lparr>fp_forward := amap_insert key (ip, expire) (fp_forward p),
        fp_reverse := amap_insert ip (fst key, expire) (fp_reverse p)\<rparr>))"
      using assms(3) n new(3,4) cfg
      by (auto simp: fake_alloc_def key_def expire_def Let_def split: option.splits if_splits)
    then show ?thesis using new add none by (cases v) auto
  next
    case False
    then show ?thesis using assms(3) cfg renew none
      by (auto simp: fake_alloc_def key_def expire_def Let_def split: option.splits if_splits)
  qed
qed

lemma fake_inv_alloc:
  assumes "pool_nets cfg" "fake_inv cfg p" "fake_alloc u host family now p = (r, p')"
  shows "fake_inv cfg p' \<and> (\<forall>ip. r = Some ip \<longrightarrow> usable cfg ip)"
  using assms
proof (cases rule: fake_alloc_cases)
  case (renew ip expires)
  then show ?thesis using assms(2) fake_inv_forward [OF assms(2) renew(1)]
    by (auto simp: fake_inv_def counters_in_def dest!: subsetD [OF amap_insert_set])
qed (use assms(2) in \<open>auto simp: fake_inv_def counters_in_def dest!: subsetD [OF amap_insert_set]\<close>)

lemma fake_inv_new:
  assumes "pool_nets cfg"
  shows "fake_inv cfg (fake_pool_new cfg)"
proof -
  have "unat (n4_network (fc_v4_cidr cfg)) + 1 < 2 ^ 32" "unat (n6_network (fc_v6_cidr cfg)) + 1 < 2 ^ 128"
    using assms unat_bound [of "n4_broadcast (fc_v4_cidr cfg)"] by (auto simp: pool_nets_def Let_def)
  then show ?thesis
    by (simp add: fake_inv_def fake_pool_new_def counters_in_def word_less_nat_alt unat_saturating_add)
qed

lemma fake_inv_apply:
  assumes "pool_nets cfg" "fake_inv cfg p"
  shows "fake_inv cfg (fake_apply u second p ev)"
proof (cases "(u, second, p, ev)" rule: fake_apply.cases)
  case (1 u' second' p1 host family now)
  then show ?thesis using fake_inv_alloc [OF assms, of u host family now] by (cases "fake_alloc u host family now p") simp
qed (use assms(2) in \<open>auto simp: fake_inv_def counters_in_def insert_mapping_def fake_purge_expired_def fake_clear_def amap_retain_def\<close>)

lemma fake_inv_run: "pool_nets cfg \<Longrightarrow> fake_inv cfg p \<Longrightarrow> fake_inv cfg (foldl (fake_apply u second) p evs)"
  by (induction evs arbitrary: p) (simp_all add: fake_inv_apply)

text \<open>The events that leave the record of an address alone: none overwrites or clears it, and the time is not yet.\<close>

fun spares :: "ip_addr \<Rightarrow> nat \<Rightarrow> fake_event \<times> nat \<Rightarrow> bool" where
  "spares ip limit (Fk_Alloc _ _, now) \<longleftrightarrow> True"
| "spares ip limit (Fk_Mapping ip' _ _, now) \<longleftrightarrow> ip' \<noteq> ip"
| "spares ip limit (Fk_Purge, now) \<longleftrightarrow> now < limit"
| "spares ip limit (Fk_Clear, now) \<longleftrightarrow> False"

lemma reverse_kept_apply:
  assumes "pool_nets cfg" "fake_inv cfg p" "amap_wf (fp_reverse p)" "map_of (fp_reverse p) ip = Some (host, limit)" "spares ip limit ev"
  shows "map_of (fp_reverse (fake_apply u second p ev)) ip = Some (host, limit) \<and> amap_wf (fp_reverse (fake_apply u second p ev))"
proof (cases "(u, second, p, ev)" rule: fake_apply.cases)
  case (1 u' second' p1 name family now)
  obtain r p' where r: "fake_alloc u name family now p = (r, p')" by (cases "fake_alloc u name family now p")
  have "map_of (fp_reverse p') ip = Some (host, limit) \<and> amap_wf (fp_reverse p')"
    by (cases rule: fake_alloc_cases [OF assms(1,2) r])
      (use assms(3,4) in \<open>auto simp: map_of_amap_insert amap_contains_map_of\<close>)
  then show ?thesis using 1 r by simp
qed (use assms(3-5) in \<open>auto simp: insert_mapping_def fake_purge_expired_def map_of_amap_insert map_of_amap_retain amap_wf_def [symmetric]\<close>)

lemma reverse_kept_run:
  assumes "pool_nets cfg" "fake_inv cfg p" "amap_wf (fp_reverse p)" "map_of (fp_reverse p) ip = Some (host, limit)"
    "list_all (spares ip limit) evs"
  shows "map_of (fp_reverse (foldl (fake_apply u second) p evs)) ip = Some (host, limit)"
  using assms(2-5)
proof (induction evs arbitrary: p)
  case (Cons ev evs)
  then show ?case
    using reverse_kept_apply [OF assms(1) Cons.prems(1-3), of ev u second] fake_inv_apply [OF assms(1) Cons.prems(1)] by simp
qed simp

lemma reverse_wf_apply: "pool_nets cfg \<Longrightarrow> fake_inv cfg p \<Longrightarrow> amap_wf (fp_reverse p) \<Longrightarrow> amap_wf (fp_reverse (fake_apply u second p ev))"
proof (cases "(u, second, p, ev)" rule: fake_apply.cases)
  case (1 u' second' p1 name family now)
  assume a: "pool_nets cfg" "fake_inv cfg p" "amap_wf (fp_reverse p)"
  obtain r p' where r: "fake_alloc u name family now p = (r, p')" by (cases "fake_alloc u name family now p")
  have "amap_wf (fp_reverse p')" by (cases rule: fake_alloc_cases [OF a(1,2) r]) (use a(3) in auto)
  then show ?thesis using 1 r by simp
qed (auto simp: insert_mapping_def fake_purge_expired_def fake_clear_def)

lemma reverse_wf_run:
  "pool_nets cfg \<Longrightarrow> fake_inv cfg p \<Longrightarrow> amap_wf (fp_reverse p) \<Longrightarrow> amap_wf (fp_reverse (foldl (fake_apply u second) p evs))"
  by (induction evs arbitrary: p) (simp_all add: fake_inv_apply reverse_wf_apply)

section \<open>Properties\<close>


text \<open>
  C20: An address newly given to a host leads back to that host until its time to live has passed,
  whatever is allocated, renewed, purged or recorded for other addresses in the meantime.
\<close>

theorem fake_address_leads_back:
  assumes "pool_nets cfg" "p = foldl (fake_apply u second) (fake_pool_new cfg) evs"
    and "fake_alloc u host family now p = (Some ip, p')"
    and "case map_of (fp_forward p) (to_lowercase u host, family) of Some (_, expires) \<Rightarrow> expires \<le> now | None \<Rightarrow> True"
    and "list_all (spares ip (now + fc_ttl cfg)) later" "time < now + fc_ttl cfg"
  shows "fake_lookup ip time (foldl (fake_apply u second) p' later) = Some (to_lowercase u host)"
proof -
  have inv: "fake_inv cfg p" using fake_inv_run [OF assms(1) fake_inv_new [OF assms(1)]] assms(2) by simp
  have "amap_wf (fp_reverse p)"
    using reverse_wf_run [OF assms(1) fake_inv_new [OF assms(1)]] assms(2) by (simp add: fake_pool_new_def)
  moreover have inv': "fake_inv cfg p'" using fake_inv_alloc [OF assms(1) inv assms(3)] by blast
  moreover have "amap_wf (fp_reverse p') \<and> map_of (fp_reverse p') ip = Some (to_lowercase u host, now + fc_ttl cfg)"
    if "amap_wf (fp_reverse p)"
    by (cases rule: fake_alloc_cases [OF assms(1) inv assms(3)])
      (use that assms(4) in \<open>auto simp: map_of_amap_insert\<close>)
  ultimately have "map_of (fp_reverse (foldl (fake_apply u second) p' later)) ip = Some (to_lowercase u host, now + fc_ttl cfg)"
    using reverse_kept_run [OF assms(1) inv' _ _ assms(5)] by blast
  then show ?thesis using assms(6) by (simp add: fake_lookup_def)
qed

section \<open>Witnesses\<close>

definition sample_pool_config :: fake_ip_config where
  "sample_pool_config = \<lparr>
     fc_v4_cidr = \<lparr>n4_network = 0xC6120000, n4_broadcast = 0xC6120003,
       n4_contains = (\<lambda>a. 0xC6120000 \<le> a \<and> a \<le> 0xC6120003)\<rparr>,
     fc_v6_cidr = \<lparr>n6_network = 0, n6_contains = (\<lambda>_. True)\<rparr>,
     fc_ttl = 600, fc_enable_v4 = True, fc_enable_v6 = True, fc_avoid = []\<rparr>"

definition ascii_tables :: unicode where
  "ascii_tables = \<lparr>uc_lowercase = (\<lambda>s. s), uc_alphanumeric = (\<lambda>_. False)\<rparr>"

lemma sample_pool_nets: "pool_nets sample_pool_config"
  by (simp add: pool_nets_def sample_pool_config_def Let_def)

lemma sample_alloc:
  "fst (fake_alloc ascii_tables ''A'' Family_V4 0 (foldl (fake_apply ascii_tables 1) (fake_pool_new sample_pool_config) [])) =
     Some (V4 0xC6120001)"
  by code_simp


lemma fresh: "fp_forward (fake_pool_new cfg) = []"
  by (simp add: fake_pool_new_def)

lemma ttl: "fc_ttl sample_pool_config = 600"
  by (simp add: sample_pool_config_def)

theorem fake_address_leads_back_witness:
  "fake_lookup (V4 0xC6120001) 599
     (foldl (fake_apply ascii_tables 1) (snd (fake_alloc ascii_tables ''A'' Family_V4 0 (fake_pool_new sample_pool_config)))
        [(Fk_Alloc ''b'' Family_V4, 10), (Fk_Purge, 500)]) = Some ''a''"
proof -
  have "fake_lookup (V4 0xC6120001) 599
     (foldl (fake_apply ascii_tables 1) (snd (fake_alloc ascii_tables ''A'' Family_V4 0 (fake_pool_new sample_pool_config)))
        [(Fk_Alloc ''b'' Family_V4, 10), (Fk_Purge, 500)]) = Some (to_lowercase ascii_tables ''A'')"
    by (rule fake_address_leads_back [OF sample_pool_nets refl, where evs = "[]" and now = 0 and family = Family_V4])
      (use sample_alloc in \<open>simp_all add: prod_eq_iff fresh ttl\<close>)
  also have "to_lowercase ascii_tables ''A'' = ''a''" by code_simp
  finally show ?thesis .
qed

text \<open>
  Renewing an allocation extends the entry of the host and not the record of the address. When the
  record has expired and is purged, the address is given to another host while the first host still
  has it.
\<close>

theorem fake_address_shared_after_renewal:
  "let p = foldl (fake_apply ascii_tables 1) (fake_pool_new sample_pool_config)
        [(Fk_Alloc ''a'' Family_V4, 0), (Fk_Alloc ''c'' Family_V4, 0), (Fk_Alloc ''a'' Family_V4, 500), (Fk_Purge, 700)];
       (first, p1) = fake_alloc ascii_tables ''b'' Family_V4 710 p;
       (second, p2) = fake_alloc ascii_tables ''a'' Family_V4 720 p1
   in first = Some (V4 0xC6120001) \<and> second = Some (V4 0xC6120001) \<and> fake_lookup (V4 0xC6120001) 720 p2 = Some ''b''"
  by code_simp

end
