(* ===== verification/Loopback.thy ===== *)
theory Loopback
  imports Std_Net
begin

text \<open>
  The detector of captured outbound sockets (\<open>core-outbound/src/loopback.rs\<close>). Each outbound socket holds a guard; the detector counts
  the guards of an endpoint, and an inbound flow from a counted endpoint is one of the program's own sockets come back.

  The operations take the lock of the detector one at a time. A count is a natural number: a \<open>usize\<close> would overflow only with that many
  guards alive.
\<close>

section \<open>Counting\<close>

text \<open>What the detector relies on: a key is contained exactly while it was counted up more often than down.\<close>

locale ref_counts =
  fixes refs :: "'m \<Rightarrow> 'k \<Rightarrow> nat"
    and inc dec :: "'k \<Rightarrow> 'm \<Rightarrow> 'm"
    and has :: "'k \<Rightarrow> 'm \<Rightarrow> bool"
    and ok :: "'m \<Rightarrow> bool"
  assumes refs_inc: "refs (inc k m) = (refs m)(k := refs m k + 1)"
    and refs_dec: "refs (dec k m) = (refs m)(k := refs m k - 1)"
    and ok_inc: "ok m \<Longrightarrow> ok (inc k m)"
    and ok_dec: "ok m \<Longrightarrow> ok (dec k m)"
    and has_refs: "ok m \<Longrightarrow> has k m \<longleftrightarrow> 0 < refs m k"
begin

text \<open>The counts of a map are those of a list of holders.\<close>

definition counts :: "'m \<Rightarrow> 'k list \<Rightarrow> bool" where
  "counts m ks \<longleftrightarrow> ok m \<and> (\<forall>k. refs m k = count_list ks k)"

lemma counts_inc: "counts m (xs @ ys) \<Longrightarrow> counts (inc k m) (xs @ k # ys)"
  by (simp add: counts_def ok_inc refs_inc)

lemma counts_dec: "counts m (xs @ k # ys) \<Longrightarrow> counts (dec k m) (xs @ ys)"
  by (simp add: counts_def ok_dec refs_dec)

lemma counts_dec_all: "counts m (xs @ ks @ ys) \<Longrightarrow> counts (fold dec ks m) (xs @ ys)"
  by (induction ks arbitrary: m) (simp_all add: counts_dec)

lemma counts_has: "counts m ks \<Longrightarrow> has k m \<longleftrightarrow> k \<in> set ks"
  using has_refs [of m k] count_list_0_iff [of ks k] by (auto simp: counts_def)

end

section \<open>State and operations\<close>

type_synonym 'k count_map = "('k \<times> nat) list"
type_synonym endpoint = "ip_addr \<times> u16"

definition incr :: "'k \<Rightarrow> 'k count_map \<Rightarrow> 'k count_map" where
  "incr key m = amap_insert key (case map_of m key of Some n \<Rightarrow> n + 1 | None \<Rightarrow> 1) m"

definition decr :: "'k \<Rightarrow> 'k count_map \<Rightarrow> 'k count_map" where
  "decr key m =
    (case map_of m key of
       None \<Rightarrow> m
     | Some n \<Rightarrow> if n - 1 = 0 then amap_remove key m else amap_insert key (n - 1) m)"

record loopback_state =
  lb_tcp :: "endpoint count_map"
  lb_udp_ports :: "u16 count_map"
  lb_udp_local_addrs :: "endpoint count_map"

definition detector_default :: loopback_state where
  "detector_default = \<lparr>lb_tcp = [], lb_udp_ports = [], lb_udp_local_addrs = []\<rparr>"

definition is_unspecified :: "ip_addr \<Rightarrow> bool" where
  "is_unspecified ip = (case ip of V4 a \<Rightarrow> a = 0 | V6 a \<Rightarrow> a = 0)"

definition is_loopback :: "ip_addr \<Rightarrow> bool" where
  "is_loopback ip = (case ip of V4 a \<Rightarrow> octets4 a ! 0 = 127 | V6 a \<Rightarrow> a = 1)"

definition contains_tcp :: "endpoint \<Rightarrow> loopback_state \<Rightarrow> bool" where
  "contains_tcp source s = amap_contains source (lb_tcp s)"

definition contains_udp_source :: "endpoint \<Rightarrow> loopback_state \<Rightarrow> bool" where
  "contains_udp_source source s =
    (if \<not> amap_contains (snd source) (lb_udp_ports s) then False
     else is_loopback (fst source) \<or> amap_contains source (lb_udp_local_addrs s))"

text \<open>A TCP guard is its address; a UDP guard has its port and the local addresses it has seen.\<close>

record udp_guard =
  ug_port :: u16
  ug_observed :: "ip_addr list"

definition register_tcp :: "endpoint \<Rightarrow> loopback_state \<Rightarrow> endpoint \<times> loopback_state" where
  "register_tcp addr s = (addr, s\<lparr>lb_tcp := incr addr (lb_tcp s)\<rparr>)"

definition observe_local_addr :: "endpoint \<Rightarrow> udp_guard \<Rightarrow> loopback_state \<Rightarrow> udp_guard \<times> loopback_state" where
  "observe_local_addr local g s =
    (let ip = fst local
     in if snd local \<noteq> ug_port g \<or> is_unspecified ip then (g, s)
        else if ip \<in> set (ug_observed g) then (g, s)
        else (g\<lparr>ug_observed := ug_observed g @ [ip]\<rparr>, s\<lparr>lb_udp_local_addrs := incr (ip, ug_port g) (lb_udp_local_addrs s)\<rparr>))"

definition register_udp :: "endpoint \<Rightarrow> loopback_state \<Rightarrow> udp_guard \<times> loopback_state" where
  "register_udp local s =
    (let port = snd local
     in observe_local_addr local \<lparr>ug_port = port, ug_observed = []\<rparr> (s\<lparr>lb_udp_ports := incr port (lb_udp_ports s)\<rparr>))"

definition tcp_guard_drop :: "endpoint \<Rightarrow> loopback_state \<Rightarrow> loopback_state" where
  "tcp_guard_drop addr s = s\<lparr>lb_tcp := decr addr (lb_tcp s)\<rparr>"

definition udp_guard_drop :: "udp_guard \<Rightarrow> loopback_state \<Rightarrow> loopback_state" where
  "udp_guard_drop g s =
     s\<lparr>lb_udp_ports := decr (ug_port g) (lb_udp_ports s),
       lb_udp_local_addrs := fold decr (map (\<lambda>ip. (ip, ug_port g)) (ug_observed g)) (lb_udp_local_addrs s)\<rparr>"

section \<open>Counts of the maps\<close>

definition count_of :: "'k count_map \<Rightarrow> 'k \<Rightarrow> nat" where
  "count_of m k = (case map_of m k of Some n \<Rightarrow> n | None \<Rightarrow> 0)"

definition no_zero :: "'k count_map \<Rightarrow> bool" where
  "no_zero m \<longleftrightarrow> (\<forall>k n. map_of m k = Some n \<longrightarrow> 0 < n)"

interpretation lb: ref_counts count_of incr decr amap_contains no_zero
proof
  fix k :: 'a and m :: "'a count_map"
  show "count_of (incr k m) = (count_of m)(k := count_of m k + 1)"
    by (auto simp: count_of_def incr_def map_of_amap_insert fun_eq_iff split: option.split)
  show "count_of (decr k m) = (count_of m)(k := count_of m k - 1)"
    by (auto simp: count_of_def decr_def map_of_amap_insert map_of_amap_remove fun_eq_iff split: option.split)
  show "no_zero m \<Longrightarrow> no_zero (incr k m)"
    by (auto simp: no_zero_def incr_def map_of_amap_insert split: option.split)
  show "no_zero m \<Longrightarrow> no_zero (decr k m)"
    by (auto simp: no_zero_def decr_def map_of_amap_insert map_of_amap_remove split: option.split)
  show "no_zero m \<Longrightarrow> amap_contains k m \<longleftrightarrow> 0 < count_of m k"
    by (auto simp: no_zero_def count_of_def amap_contains_map_of split: option.split)
qed

section \<open>Runs\<close>

text \<open>The detector with the guards that are alive.\<close>

record sockets =
  so_detector :: loopback_state
  so_tcp :: "endpoint list"
  so_udp :: "udp_guard list"

datatype socket_event = Open_Tcp endpoint | Close_Tcp nat | Open_Udp endpoint | Observe_Udp nat endpoint | Close_Udp nat

fun socket_apply :: "socket_event \<Rightarrow> sockets \<Rightarrow> sockets" where
  "socket_apply (Open_Tcp addr) s =
     (case register_tcp addr (so_detector s) of (g, d) \<Rightarrow> s\<lparr>so_detector := d, so_tcp := g # so_tcp s\<rparr>)"
| "socket_apply (Close_Tcp i) s =
     (if i < length (so_tcp s) then s\<lparr>so_detector := tcp_guard_drop (so_tcp s ! i) (so_detector s),
        so_tcp := take i (so_tcp s) @ drop (Suc i) (so_tcp s)\<rparr> else s)"
| "socket_apply (Open_Udp local) s =
     (case register_udp local (so_detector s) of (g, d) \<Rightarrow> s\<lparr>so_detector := d, so_udp := g # so_udp s\<rparr>)"
| "socket_apply (Observe_Udp i local) s =
     (if i < length (so_udp s) then
        (case observe_local_addr local (so_udp s ! i) (so_detector s) of (g, d) \<Rightarrow> s\<lparr>so_detector := d, so_udp := (so_udp s)[i := g]\<rparr>)
      else s)"
| "socket_apply (Close_Udp i) s =
     (if i < length (so_udp s) then s\<lparr>so_detector := udp_guard_drop (so_udp s ! i) (so_detector s),
        so_udp := take i (so_udp s) @ drop (Suc i) (so_udp s)\<rparr> else s)"

definition no_sockets :: sockets where
  "no_sockets = \<lparr>so_detector = detector_default, so_tcp = [], so_udp = []\<rparr>"

definition guard_addrs :: "udp_guard \<Rightarrow> endpoint list" where
  "guard_addrs g = map (\<lambda>ip. (ip, ug_port g)) (ug_observed g)"

definition counted :: "sockets \<Rightarrow> bool" where
  "counted s \<longleftrightarrow> lb.counts (lb_tcp (so_detector s)) (so_tcp s) \<and>
     lb.counts (lb_udp_ports (so_detector s)) (map ug_port (so_udp s)) \<and>
     lb.counts (lb_udp_local_addrs (so_detector s)) (concat (map guard_addrs (so_udp s)))"

lemma counts_permuted: "lb.counts m xs \<Longrightarrow> (\<And>k. count_list ys k = count_list xs k) \<Longrightarrow> lb.counts m ys"
  by (simp add: lb.counts_def)

lemma counted_observe:
  assumes "observe_local_addr local g d = (g', d')" "lb.counts (lb_udp_local_addrs d) (xs @ guard_addrs g @ ys)"
  shows "lb.counts (lb_udp_local_addrs d') (xs @ guard_addrs g' @ ys)"
    "lb_tcp d' = lb_tcp d" "lb_udp_ports d' = lb_udp_ports d" "ug_port g' = ug_port g"
  using assms lb.counts_inc [of "lb_udp_local_addrs d" "xs @ guard_addrs g" ys "(fst local, ug_port g)"]
  by (auto simp: observe_local_addr_def Let_def guard_addrs_def split: if_splits)

lemma counted_apply: "counted s \<Longrightarrow> counted (socket_apply ev s)"
proof (induction ev s rule: socket_apply.induct)
  case (1 addr s)
  then show ?case using lb.counts_inc [of "lb_tcp (so_detector s)" "[]" "so_tcp s" addr]
    by (simp add: counted_def register_tcp_def)
next
  case (2 i s)
  show ?case
  proof (cases "i < length (so_tcp s)")
    case True
    then have "lb.counts (lb_tcp (so_detector s)) (take i (so_tcp s) @ so_tcp s ! i # drop (Suc i) (so_tcp s))"
      using 2 by (simp add: counted_def flip: id_take_nth_drop)
    from lb.counts_dec [OF this] show ?thesis using 2 True by (simp add: counted_def tcp_guard_drop_def)
  qed (use 2 in simp)
next
  case (3 local s)
  let ?d = "(so_detector s)\<lparr>lb_udp_ports := incr (snd local) (lb_udp_ports (so_detector s))\<rparr>" and ?g = "\<lparr>ug_port = snd local, ug_observed = []\<rparr>"
  obtain g d where o: "observe_local_addr local ?g ?d = (g, d)" by force
  have "lb.counts (lb_udp_local_addrs ?d) ([] @ guard_addrs ?g @ concat (map guard_addrs (so_udp s)))"
    using 3 by (simp add: counted_def guard_addrs_def)
  from counted_observe [OF o this] show ?case
    using 3 o lb.counts_inc [of "lb_udp_ports (so_detector s)" "[]" "map ug_port (so_udp s)" "snd local"]
    by (simp add: counted_def register_udp_def Let_def)
next
  case (4 i local s)
  show ?case
  proof (cases "i < length (so_udp s)")
    case True
    obtain g d where o: "observe_local_addr local (so_udp s ! i) (so_detector s) = (g, d)" by force
    let ?xs = "take i (so_udp s)" and ?ys = "drop (Suc i) (so_udp s)"
    have "so_udp s = ?xs @ so_udp s ! i # ?ys" using True by (rule id_take_nth_drop)
    then have all: "concat (map guard_addrs (so_udp s)) = concat (map guard_addrs ?xs) @ guard_addrs (so_udp s ! i) @ concat (map guard_addrs ?ys)"
      by (metis concat.simps(2) concat_append list.simps(9) map_append)
    have "(so_udp s)[i := g] = ?xs @ g # ?ys" using True by (rule upd_conv_take_nth_drop)
    moreover have "map ug_port ((so_udp s)[i := g]) = map ug_port (so_udp s)"
      using True o by (auto simp: observe_local_addr_def Let_def map_update list_update_same_conv split: if_splits)
    moreover have "lb.counts (lb_udp_local_addrs (so_detector s)) (concat (map guard_addrs ?xs) @ guard_addrs (so_udp s ! i) @ concat (map guard_addrs ?ys))"
      using 4 all by (simp add: counted_def)
    note counted_observe(1-3) [OF o this]
    ultimately show ?thesis using True 4 o by (simp add: counted_def)
  qed (use 4 in simp)
next
  case (5 i s)
  show ?case
  proof (cases "i < length (so_udp s)")
    case True
    let ?xs = "take i (so_udp s)" and ?g = "so_udp s ! i" and ?ys = "drop (Suc i) (so_udp s)"
    have s: "so_udp s = ?xs @ ?g # ?ys" using True by (rule id_take_nth_drop)
    have ports: "lb.counts (lb_udp_ports (so_detector s)) (map ug_port ?xs @ ug_port ?g # map ug_port ?ys)"
      using 5 s by (simp add: counted_def) (metis list.simps(9) map_append)
    have addrs: "lb.counts (lb_udp_local_addrs (so_detector s)) (concat (map guard_addrs ?xs) @ guard_addrs ?g @ concat (map guard_addrs ?ys))"
      using 5 s by (simp add: counted_def) (metis concat.simps(2) concat_append list.simps(9) map_append)
    show ?thesis using lb.counts_dec [OF ports] lb.counts_dec_all [OF addrs] 5 True
      by (simp add: counted_def udp_guard_drop_def guard_addrs_def)
  qed (use 5 in simp)
qed

lemma counted_run: "counted (fold socket_apply evs no_sockets)"
proof -
  have "counted s \<Longrightarrow> counted (fold socket_apply evs s)" for s by (induction evs arbitrary: s) (simp_all add: counted_apply)
  moreover have "counted no_sockets" by (simp add: counted_def no_sockets_def detector_default_def lb.counts_def no_zero_def count_of_def)
  ultimately show ?thesis by blast
qed

section \<open>The open sockets\<close>

text \<open>
  What the program did with its sockets, read off the events alone: the addresses of the open TCP sockets, and of every open UDP socket the
  address it was opened at with all addresses seen for it later. Nothing is filtered or counted here.
\<close>

type_synonym open_sockets = "endpoint list \<times> (endpoint \<times> endpoint list) list"

fun open_after :: "socket_event \<Rightarrow> open_sockets \<Rightarrow> open_sockets" where
  "open_after (Open_Tcp addr) (ts, us) = (addr # ts, us)"
| "open_after (Close_Tcp i) (ts, us) = (take i ts @ drop (Suc i) ts, us)"
| "open_after (Open_Udp local) (ts, us) = (ts, (local, []) # us)"
| "open_after (Observe_Udp i local) (ts, us) = (ts, if i < length us then us[i := (fst (us ! i), local # snd (us ! i))] else us)"
| "open_after (Close_Udp i) (ts, us) = (ts, take i us @ drop (Suc i) us)"

definition open_now :: "socket_event list \<Rightarrow> open_sockets" where
  "open_now evs = fold open_after evs ([], [])"

text \<open>The address under which a datagram of this socket can come in: one it was seen at, on its own port.\<close>

definition reached_at :: "endpoint \<times> endpoint list \<Rightarrow> endpoint \<Rightarrow> bool" where
  "reached_at u source \<longleftrightarrow> snd source = snd (fst u) \<and> source \<in> set (fst u # snd u) \<and> \<not> is_unspecified (fst source)"

definition guards_socket :: "udp_guard \<Rightarrow> endpoint \<times> endpoint list \<Rightarrow> bool" where
  "guards_socket g u \<longleftrightarrow> ug_port g = snd (fst u) \<and> (\<forall>ip. ip \<in> set (ug_observed g) \<longleftrightarrow> reached_at u (ip, ug_port g))"

definition tracks :: "sockets \<Rightarrow> open_sockets \<Rightarrow> bool" where
  "tracks s w \<longleftrightarrow> so_tcp s = fst w \<and> list_all2 guards_socket (so_udp s) (snd w)"

lemma guards_observe:
  assumes "guards_socket g (at, seen)"
  shows "guards_socket (fst (observe_local_addr local g d)) (at, local # seen)"
  using assms by (cases local) (auto simp: guards_socket_def reached_at_def observe_local_addr_def Let_def)

lemma guards_open: "guards_socket (fst (register_udp local d)) (local, [])"
  by (cases local) (auto simp: guards_socket_def reached_at_def register_udp_def observe_local_addr_def Let_def)

lemma tracks_apply:
  assumes "tracks s (ts, us)"
  shows "tracks (socket_apply ev s) (open_after ev (ts, us))"
proof (cases ev)
  case (Open_Tcp addr)
  then show ?thesis using assms by (simp add: tracks_def register_tcp_def)
next
  case (Close_Tcp i)
  then show ?thesis using assms by (auto simp: tracks_def)
next
  case (Open_Udp local)
  then show ?thesis using assms guards_open [of local "so_detector s"] by (auto simp: tracks_def split: prod.split)
next
  case (Observe_Udp i local)
  have l: "length (so_udp s) = length us" "so_tcp s = ts" using assms by (auto simp: tracks_def dest: list_all2_lengthD)
  show ?thesis
  proof (cases "i < length us")
    case True
    then have "guards_socket (so_udp s ! i) (us ! i)" using assms by (auto simp: tracks_def dest: list_all2_nthD2)
    then have "guards_socket (fst (observe_local_addr local (so_udp s ! i) (so_detector s))) (fst (us ! i), local # snd (us ! i))"
      by (intro guards_observe) simp
    then show ?thesis using assms True l Observe_Udp by (auto simp: tracks_def list_all2_update_cong split: prod.split)
  qed (use assms Observe_Udp l in \<open>simp add: tracks_def\<close>)
next
  case (Close_Udp i)
  have l: "length (so_udp s) = length us" using assms by (auto simp: tracks_def dest: list_all2_lengthD)
  then show ?thesis using assms Close_Udp by (auto simp: tracks_def intro!: list_all2_appendI list_all2_takeI list_all2_dropI)
qed

lemma tracks_run: "tracks (fold socket_apply evs no_sockets) (open_now evs)"
proof -
  have "tracks s w \<Longrightarrow> tracks (fold socket_apply evs s) (fold open_after evs w)" for s w
  proof (induction evs arbitrary: s w)
    case (Cons ev evs)
    then show ?case using tracks_apply [of s "fst w" "snd w" ev] by simp
  qed simp
  then show ?thesis by (simp add: open_now_def tracks_def no_sockets_def)
qed

text \<open>What the detector answers, in terms of the living guards.\<close>

lemma counted_contains:
  assumes "counted s"
  shows "contains_tcp source (so_detector s) \<longleftrightarrow> source \<in> set (so_tcp s)"
    and "contains_udp_source source (so_detector s) \<longleftrightarrow>
      (\<exists>g \<in> set (so_udp s). ug_port g = snd source \<and> (is_loopback (fst source) \<or> fst source \<in> set (ug_observed g)))"
proof -
  have "source \<in> set (concat (map guard_addrs (so_udp s))) \<longleftrightarrow> (\<exists>g \<in> set (so_udp s). ug_port g = snd source \<and> fst source \<in> set (ug_observed g))"
    by (cases source) (auto simp: guard_addrs_def)
  moreover have "snd source \<in> set (map ug_port (so_udp s)) \<longleftrightarrow> (\<exists>g \<in> set (so_udp s). ug_port g = snd source)"
    unfolding set_map image_iff by metis
  ultimately show "contains_udp_source source (so_detector s) \<longleftrightarrow>
      (\<exists>g \<in> set (so_udp s). ug_port g = snd source \<and> (is_loopback (fst source) \<or> fst source \<in> set (ug_observed g)))"
    using lb.counts_has [of "lb_udp_ports (so_detector s)" "map ug_port (so_udp s)" "snd source"]
      lb.counts_has [of "lb_udp_local_addrs (so_detector s)" "concat (map guard_addrs (so_udp s))" source] assms
    unfolding counted_def contains_udp_source_def by metis
  show "contains_tcp source (so_detector s) \<longleftrightarrow> source \<in> set (so_tcp s)"
    using lb.counts_has [of "lb_tcp (so_detector s)" "so_tcp s" source] assms unfolding counted_def contains_tcp_def by blast
qed

lemma guards_socket_source:
  "guards_socket g u \<Longrightarrow>
    ug_port g = snd source \<and> (is_loopback (fst source) \<or> fst source \<in> set (ug_observed g)) \<longleftrightarrow>
    snd (fst u) = snd source \<and> (is_loopback (fst source) \<or> reached_at u source)"
  by (cases source) (auto simp: guards_socket_def)

lemma list_all2_ex:
  assumes "list_all2 R xs ys" "\<And>x y. R x y \<Longrightarrow> P x \<longleftrightarrow> Q y"
  shows "(\<exists>x \<in> set xs. P x) \<longleftrightarrow> (\<exists>y \<in> set ys. Q y)"
  using assms(1) by (induction rule: list_all2_induct) (auto simp: assms(2))

text \<open>
  C40: The detector knows the sockets that are open. After any sequence of openings, observed addresses and closings, a TCP source is taken
  for a captured socket exactly when a TCP socket with this address is open. A UDP source is taken for one exactly when an open UDP socket
  has its port and the source is a loopback address, or an address other than the unspecified one at which this socket was opened or seen
  since. So a socket bound to the unspecified address is known under the addresses observed for it and under every loopback address.
\<close>

theorem detector_knows_open_sockets:
  "(contains_tcp source (so_detector (fold socket_apply evs no_sockets)) \<longleftrightarrow> source \<in> set (fst (open_now evs))) \<and>
   (contains_udp_source source (so_detector (fold socket_apply evs no_sockets)) \<longleftrightarrow>
     (\<exists>(at, seen) \<in> set (snd (open_now evs)). snd at = snd source \<and>
        (is_loopback (fst source) \<or> source \<in> set (at # seen) \<and> \<not> is_unspecified (fst source))))"
proof -
  let ?s = "fold socket_apply evs no_sockets"
  have t: "so_tcp ?s = fst (open_now evs)" "list_all2 guards_socket (so_udp ?s) (snd (open_now evs))"
    using tracks_run [of evs] by (simp_all add: tracks_def)
  have "contains_udp_source source (so_detector ?s) \<longleftrightarrow>
      (\<exists>u \<in> set (snd (open_now evs)). snd (fst u) = snd source \<and> (is_loopback (fst source) \<or> reached_at u source))"
    unfolding counted_contains(2) [OF counted_run] by (rule list_all2_ex [OF t(2) guards_socket_source])
  moreover have "(snd (fst u) = snd source \<and> (is_loopback (fst source) \<or> reached_at u source)) =
      (case u of (at, seen) \<Rightarrow> snd at = snd source \<and> (is_loopback (fst source) \<or> source \<in> set (at # seen) \<and> \<not> is_unspecified (fst source)))" for u
    by (cases u) (auto simp: reached_at_def)
  ultimately show ?thesis using counted_contains(1) [OF counted_run, of source evs] t(1) by simp
qed

definition sample_events :: "socket_event list" where
  "sample_events = [Open_Udp (V4 0, 53), Open_Tcp (V4 9, 80), Observe_Udp 0 (V4 0xC0A80102, 53), Close_Tcp 0]"

theorem detector_knows_open_sockets_witness:
  "contains_udp_source (V4 0x7F000001, 53) (so_detector (fold socket_apply sample_events no_sockets)) \<and>
   contains_udp_source (V4 0xC0A80102, 53) (so_detector (fold socket_apply sample_events no_sockets)) \<and>
   \<not> contains_tcp (V4 9, 80) (so_detector (fold socket_apply sample_events no_sockets))"
proof -
  have "open_now sample_events = ([], [((V4 0, 53), [(V4 0xC0A80102, 53)])]) \<and> is_loopback (V4 0x7F000001) \<and> \<not> is_unspecified (V4 0xC0A80102)"
    by code_simp
  then show ?thesis
    using detector_knows_open_sockets [of "(V4 0x7F000001, 53)" sample_events]
      detector_knows_open_sockets [of "(V4 0xC0A80102, 53)" sample_events]
      detector_knows_open_sockets [of "(V4 9, 80)" sample_events] by simp
qed

end
