(* ===== verification/Dns_Resolver.thy ===== *)
theory Dns_Resolver
  imports Dns_Policy Dns_Tables Fake_Ip Loopback
begin

text \<open>
  The resolver (\<open>core-resolver/src/resolver.rs\<close>): a name is answered from the hosts table or by the first rule that ends the evaluation of
  the policy, which can answer itself, hand out a fake address, or ask a group of servers through the cache.

  A call reads the clock once and takes no time; the queries it makes are those of one task. What a group answers is an argument, as
  \<open>Dns_Group\<close> computes it from its members. A refresh that a stale answer starts runs in a task of its own: an argument says whether it
  ends before the client's timeout, and otherwise it is left pending, to be run as a step later. The writer to the store is not modelled.
\<close>

section \<open>State\<close>

datatype resolve_error = Re_Failed string | Re_Empty string | Re_Rejected string | Re_Dropped string

record resolve_answer =
  ra_ips :: "ip_addr list"
  ra_stale :: bool

definition answer_live :: "ip_addr list \<Rightarrow> resolve_answer" where
  "answer_live ips = \<lparr>ra_ips = ips, ra_stale = False\<rparr>"

definition answer_stale :: "ip_addr list \<Rightarrow> resolve_answer" where
  "answer_stale ips = \<lparr>ra_ips = ips, ra_stale = True\<rparr>"

text \<open>The messages of \<open>DnsError\<close>, in UTF-8.\<close>

fun dns_error_text :: "dns_error \<Rightarrow> string" where
  "dns_error_text (De_Failed s) = map char_of [0xE8, 0xA7, 0xA3, 0xE6, 0x9E, 0x90, 0xE5, 0xA4, 0xB1, 0xE8, 0xB4, 0xA5 :: nat] @ '': '' @ s"
| "dns_error_text De_Timeout = map char_of [0xE6, 0x9F, 0xA5, 0xE8, 0xAF, 0xA2, 0xE8, 0xB6, 0x85, 0xE6, 0x97, 0xB6 :: nat]"
| "dns_error_text De_Empty = map char_of [0xE7, 0xA9, 0xBA, 0xE5, 0x93, 0x8D, 0xE5, 0xBA, 0x94 :: nat]"
| "dns_error_text (De_Rejected s) =
     map char_of [0xE8, 0xA2, 0xAB, 0xE7, 0xAD, 0x96, 0xE7, 0x95, 0xA5, 0xE6, 0x8B, 0x92, 0xE7, 0xBB, 0x9D :: nat] @ '': '' @ s"

fun from_dns_error :: "dns_error \<Rightarrow> resolve_error" where
  "from_dns_error De_Empty = Re_Empty []"
| "from_dns_error (De_Rejected s) = Re_Rejected s"
| "from_dns_error e = Re_Failed (dns_error_text e)"

text \<open>How a failure of the default groups passes through the coalescing of queries.\<close>

fun to_dns_error :: "resolve_error \<Rightarrow> dns_error" where
  "to_dns_error (Re_Failed s) = De_Failed s"
| "to_dns_error (Re_Empty s) = De_Failed s"
| "to_dns_error (Re_Rejected s) = De_Rejected s"
| "to_dns_error (Re_Dropped s) = De_Rejected s"

record 'n fallback_filter =
  fb_ip_cidrs :: "'n list"
  fb_domain_matchers :: "'n host_match list"
  fb_geoip :: "(string \<times> string list) option"

type_synonym asking = "string \<Rightarrow> bool \<Rightarrow> group_strategy option \<Rightarrow> dns_error + ip_addr list"

record 'n resolver_env =
  re_env :: "'n policy_env"
  re_groups :: "string \<Rightarrow> asking option"
  re_fallback_group :: "string option"
  re_fallback_filter :: "'n fallback_filter"
  re_fake_filter :: "fake_ip_filter option"
  re_hosts :: "hosts_table option"
  re_ipv6_enabled :: bool
  re_optimistic :: bool
  re_default_ttl :: nat

abbreviation (input) re_u :: "'n resolver_env \<Rightarrow> unicode" where
  "re_u x \<equiv> pe_unicode (re_env x)"

record 'n resolver =
  rv_cache :: dns_cache
  rv_policy :: "'n policy_engine"
  rv_fake_pool :: "fake_ip_pool option"
  rv_mapping :: ip_host_mapping
  rv_pending :: "(string \<times> 'n query_options \<times> prefetch_ticket) list"

section \<open>Addresses\<close>

definition v4_is_private :: "bytes \<Rightarrow> bool" where
  "v4_is_private b \<longleftrightarrow> b ! 0 = 10 \<or> (b ! 0 = 172 \<and> 16 \<le> b ! 1 \<and> b ! 1 \<le> 31) \<or> (b ! 0 = 192 \<and> b ! 1 = 168)"

definition v4_is_documentation :: "bytes \<Rightarrow> bool" where
  "v4_is_documentation b \<longleftrightarrow> take 3 b \<in> {[192, 0, 2], [198, 51, 100], [203, 0, 113]}"

definition v4_is_special :: "u32 \<Rightarrow> bool" where
  "v4_is_special a =
    (let b = octets4 a
     in v4_is_private b \<or> is_loopback (V4 a) \<or> (b ! 0 = 169 \<and> b ! 1 = 254) \<or> (224 \<le> b ! 0 \<and> b ! 0 \<le> 239) \<or> b = [255, 255, 255, 255]
        \<or> v4_is_documentation b \<or> is_unspecified (V4 a))"

definition v6_is_special :: "u128 \<Rightarrow> bool" where
  "v6_is_special a =
    (let s = segments a
     in is_loopback (V6 a) \<or> is_unspecified (V6 a) \<or> octets6 a ! 0 = 255 \<or> s ! 0 div 512 = 0xFC00 div 512 \<or> s ! 0 div 64 = 0xFE80 div 64
        \<or> (s ! 0 = 0x2001 \<and> s ! 1 = 0x0DB8))"

definition is_lan_or_special_ip :: "ip_addr \<Rightarrow> bool" where
  "is_lan_or_special_ip ip = (case ip of V4 a \<Rightarrow> v4_is_special a | V6 a \<Rightarrow> v6_is_special a)"

definition qtype_matches_ip :: "ip_addr \<Rightarrow> qtype \<Rightarrow> bool" where
  "qtype_matches_ip ip q = (case q of QT_A \<Rightarrow> (\<exists>a. ip = V4 a) | QT_AAAA \<Rightarrow> (\<exists>a. ip = V6 a) | QT_Both \<Rightarrow> True)"

lemma qtype_matches_ip_code [code]:
  "qtype_matches_ip ip q = (case q of QT_A \<Rightarrow> (case ip of V4 _ \<Rightarrow> True | V6 _ \<Rightarrow> False) | QT_AAAA \<Rightarrow> (case ip of V4 _ \<Rightarrow> False | V6 _ \<Rightarrow> True) | QT_Both \<Rightarrow> True)"
  by (simp add: qtype_matches_ip_def split: qtype.split ip_addr.split)

definition filter_ips_for_qtype :: "ip_addr list \<Rightarrow> qtype \<Rightarrow> ip_addr list" where
  "filter_ips_for_qtype ips q = filter (\<lambda>ip. qtype_matches_ip ip q) ips"

definition family_for_qtype :: "qtype \<Rightarrow> address_family" where
  "family_for_qtype q = (case q of QT_AAAA \<Rightarrow> Family_V6 | _ \<Rightarrow> Family_V4)"

section \<open>Asking groups\<close>

definition fallback_matches_domain :: "'n resolver_env \<Rightarrow> set_index \<Rightarrow> string \<Rightarrow> bool" where
  "fallback_matches_domain x idx host = list_ex (\<lambda>m. policy_matches (re_env x) idx m host eval_context_default) (fb_domain_matchers (re_fallback_filter x))"

definition should_ip_fallback :: "'n resolver_env \<Rightarrow> set_index \<Rightarrow> ip_addr \<Rightarrow> bool" where
  "should_ip_fallback x idx ip =
    (let f = re_fallback_filter x
     in if is_lan_or_special_ip ip then False
        else if list_ex (\<lambda>n. pe_net_contains (re_env x) n ip) (fb_ip_cidrs f) then True
        else case fb_geoip f of
            None \<Rightarrow> False
          | Some (code, candidates) \<Rightarrow>
              if code = ''lan'' then \<not> is_lan_or_special_ip ip
              else case List.map_filter idx candidates of [] \<Rightarrow> False | m # _ \<Rightarrow> \<not> m [] (Some ip))"

definition resolve_group_qtype :: "asking \<Rightarrow> string \<Rightarrow> qtype \<Rightarrow> group_strategy option \<Rightarrow> dns_error + ip_addr list" where
  "resolve_group_qtype ask host q strategy =
    (case q of
       QT_A \<Rightarrow> ask host False strategy
     | QT_AAAA \<Rightarrow> ask host True strategy
     | QT_Both \<Rightarrow>
         (let a = ask host False strategy; b = ask host True strategy;
              out = (case a of Inr v \<Rightarrow> v | Inl _ \<Rightarrow> []) @ (case b of Inr v \<Rightarrow> v | Inl _ \<Rightarrow> []);
              last_err = (case b of Inl e \<Rightarrow> Some e | Inr _ \<Rightarrow> (case a of Inl e \<Rightarrow> Some e | Inr _ \<Rightarrow> None))
          in if out = [] then Inl (case last_err of Some e \<Rightarrow> e | None \<Rightarrow> De_Empty) else Inr out))"

definition map_error :: "('e \<Rightarrow> 'f) \<Rightarrow> 'e + 'a \<Rightarrow> 'f + 'a" where
  "map_error f r = (case r of Inl e \<Rightarrow> Inl (f e) | Inr v \<Rightarrow> Inr v)"

text \<open>The default group, checked by the fallback filter. A policy without rule sets has an index that finds nothing.\<close>

definition resolve_default :: "'n resolver_env \<Rightarrow> set_index \<Rightarrow> string \<Rightarrow> qtype \<Rightarrow> group_strategy option \<Rightarrow> resolve_error + ip_addr list" where
  "resolve_default x idx host q strategy =
    (case re_groups x ''default'' of
       None \<Rightarrow> Inl (Re_Failed ''unknown resolver server/group: default'')
     | Some main \<Rightarrow>
         (case re_fallback_group x of
            None \<Rightarrow> map_error from_dns_error (resolve_group_qtype main host q strategy)
          | Some name \<Rightarrow>
              (case re_groups x name of
                 None \<Rightarrow> Inl (Re_Failed (''unknown resolver fallback group: '' @ name))
               | Some fallback \<Rightarrow>
                   (let second_try = map_error from_dns_error (resolve_group_qtype fallback host q strategy)
                    in if fallback_matches_domain x idx host then second_try
                       else case resolve_group_qtype main host q strategy of
                           Inr ips \<Rightarrow>
                             if ips \<noteq> [] \<and> \<not> list_ex (should_ip_fallback x idx) ips then Inr ips else second_try
                         | Inl _ \<Rightarrow> second_try))))"

definition resolve_group :: "'n resolver_env \<Rightarrow> set_index \<Rightarrow> string \<Rightarrow> string \<Rightarrow> qtype \<Rightarrow> group_strategy option \<Rightarrow> dns_error + ip_addr list" where
  "resolve_group x idx group_name host q strategy =
    (if group_name = ''default'' then map_error to_dns_error (resolve_default x idx host q strategy)
     else case re_groups x group_name of
         None \<Rightarrow> Inl (De_Failed (''unknown resolver server/group: '' @ group_name))
       | Some ask \<Rightarrow> resolve_group_qtype ask host q strategy)"

section \<open>Looking up through the cache\<close>

definition answer_ttl :: "'n resolver_env \<Rightarrow> 'n query_options \<Rightarrow> nat" where
  "answer_ttl x opts = (case qo_rewrite_ttl opts of Some s \<Rightarrow> unat s * second | None \<Rightarrow> re_default_ttl x)"

text \<open>The task of \<open>spawn_refresh\<close>: it asks again, puts the answer, marks the ticket and drops it. Of an error only its presence matters.\<close>

definition run_refresh ::
  "'n resolver_env \<Rightarrow> set_index \<Rightarrow> string \<Rightarrow> 'n query_options \<Rightarrow> prefetch_ticket \<Rightarrow> nat \<Rightarrow> dns_cache \<Rightarrow> ip_addr list option \<times> dns_cache" where
  "run_refresh x idx group_name opts t now c =
    (case resolve_group x idx group_name (pt_host t) (pt_qtype t) (qo_strategy opts) of
       Inr v \<Rightarrow>
         if v \<noteq> [] then
           (Some v, ticket_drop t (cache_put (re_u x) (pt_host t) (pt_qtype t) v (answer_ttl x opts) ''prefetch'' now (mark_success t c)))
         else (None, ticket_drop t (mark_failure t now c))
     | Inl _ \<Rightarrow> (None, ticket_drop t (mark_failure t now c)))"

definition ask_uncached ::
  "'n resolver_env \<Rightarrow> string \<Rightarrow> string \<Rightarrow> 'n query_options \<Rightarrow> qtype \<Rightarrow> nat \<Rightarrow> 'n resolver \<Rightarrow> (resolve_error + resolve_answer) \<times> 'n resolver" where
  "ask_uncached x host group_name opts q now s =
    (case resolve_group x (pg_sets (rv_policy s)) group_name host q (qo_strategy opts) of
       Inl e \<Rightarrow> (Inl (from_dns_error e), s)
     | Inr ips \<Rightarrow>
         (Inr (answer_live ips),
          if \<not> qo_disable_cache opts \<and> ips \<noteq> []
          then s\<lparr>rv_cache := cache_put (re_u x) host q ips (answer_ttl x opts) ''live'' now (rv_cache s)\<rparr> else s))"

definition lookup_via_qtype ::
  "'n resolver_env \<Rightarrow> (string \<Rightarrow> bool) \<Rightarrow> string \<Rightarrow> string \<Rightarrow> 'n query_options \<Rightarrow> qtype \<Rightarrow> nat \<Rightarrow> 'n resolver \<Rightarrow>
     (resolve_error + resolve_answer) \<times> 'n resolver" where
  "lookup_via_qtype x prompt host group_name opts q now s =
    (if qo_disable_cache opts then ask_uncached x host group_name opts q now s
     else
       case cache_get_with (re_u x) host q (qo_disable_optimistic_cache opts \<or> \<not> re_optimistic x) now (rv_cache s) of
         ((None, _, _), c) \<Rightarrow> ask_uncached x host group_name opts q now (s\<lparr>rv_cache := c\<rparr>)
       | ((Some ips, hit, ticket), c) \<Rightarrow>
           (let cached = (if ips \<noteq> [] then Inr (if hit = Hit_Stale then answer_stale ips else answer_live ips)
                          else Inl (Re_Rejected (host @ '' (negative cache)'')))
            in case ticket of
                 None \<Rightarrow> (cached, s\<lparr>rv_cache := c\<rparr>)
               | Some t \<Rightarrow>
                   if hit = Hit_Stale \<and> prompt group_name then
                     (case run_refresh x (pg_sets (rv_policy s)) group_name opts t now c of
                        (Some fresh, c') \<Rightarrow> (Inr (answer_live fresh), s\<lparr>rv_cache := c'\<rparr>)
                      | (None, c') \<Rightarrow> (cached, s\<lparr>rv_cache := c'\<rparr>))
                   else (cached, s\<lparr>rv_cache := c, rv_pending := (group_name, opts, t) # rv_pending s\<rparr>)))"

section \<open>Evaluating the policy\<close>

definition reject_answer ::
  "'n resolver_env \<Rightarrow> reject_options \<Rightarrow> string \<Rightarrow> string \<Rightarrow> qtype \<Rightarrow> nat \<Rightarrow> 'n resolver \<Rightarrow> (resolve_error + resolve_answer) \<times> 'n resolver" where
  "reject_answer x opts source host q now s =
    (case apply_reject_throttle opts source now (pg_throttle (rv_policy s)) of
       (method, t) \<Rightarrow>
         (let s' = s\<lparr>rv_policy := (rv_policy s)\<lparr>pg_throttle := t\<rparr>\<rparr>
          in case method of
               RM_Default \<Rightarrow> (Inl (Re_Rejected host), s'\<lparr>rv_cache := put_negative (re_u x) host q now (rv_cache s')\<rparr>)
             | RM_Drop \<Rightarrow> (Inl (Re_Dropped host), s')))"

text \<open>The message is in UTF-8.\<close>

definition no_pool :: string where
  "no_pool = ''fake-ip pool '' @ map char_of [0xE4, 0xB8, 0x8D, 0xE5, 0x8F, 0xAF, 0xE7, 0x94, 0xA8 :: nat]"

definition fake_answer ::
  "'n resolver_env \<Rightarrow> (string \<Rightarrow> bool) \<Rightarrow> string \<Rightarrow> qtype \<Rightarrow> nat \<Rightarrow> 'n resolver \<Rightarrow> (resolve_error + resolve_answer) \<times> 'n resolver" where
  "fake_answer x prompt host q now s =
    (if (case re_fake_filter x of Some f \<Rightarrow> should_skip (re_u x) f host | None \<Rightarrow> False)
     then lookup_via_qtype x prompt host ''default'' query_options_default q now s
     else case rv_fake_pool s of
         None \<Rightarrow> (Inl (Re_Failed no_pool), s)
       | Some pool \<Rightarrow>
           (case fake_alloc (re_u x) host (family_for_qtype q) now pool of
              (Some ip, pool') \<Rightarrow> (Inr (answer_live [ip]), s\<lparr>rv_fake_pool := Some pool'\<rparr>)
            | (None, pool') \<Rightarrow> (Inl (Re_Failed no_pool), s\<lparr>rv_fake_pool := Some pool'\<rparr>)))"

definition predefined_answer :: "'n resolver_env \<Rightarrow> predefined_response \<Rightarrow> string \<Rightarrow> qtype \<Rightarrow> resolve_error + resolve_answer" where
  "predefined_answer x pre host q =
    (let raw_ips = answer_ips (re_u x) pre
     in if raw_ips = [] then
          (case (case pr_rcode pre of Some c \<Rightarrow> c | None \<Rightarrow> RC_NOERROR) of
             RC_NOERROR \<Rightarrow> Inr (answer_live [])
           | _ \<Rightarrow> Inl (Re_Rejected host))
        else Inr (answer_live (filter_ips_for_qtype raw_ips q)))"

definition respond_without_saved :: string where
  "respond_without_saved =
     ''respond '' @ map char_of [0xE5, 0x91, 0xBD, 0xE4, 0xB8, 0xAD, 0xE4, 0xBD, 0x86, 0xE6, 0x97, 0xA0, 0xE5, 0x89, 0x8D, 0xE5, 0xBA, 0x8F :: nat] @ '' evaluate '' @ map char_of [0xE4, 0xBF, 0x9D, 0xE5, 0xAD, 0x98, 0xE7, 0x9A, 0x84, 0xE5, 0x93, 0x8D, 0xE5, 0xBA, 0x94 :: nat]"

definition default_not_terminal :: string where
  "default_not_terminal = ''default action '' @ map char_of [0xE4, 0xB8, 0x8D, 0xE5, 0x8F, 0xAF, 0xE4, 0xB8, 0xBA :: nat] @ '' evaluate/respond''"

fun policy_loop ::
  "'n resolver_env \<Rightarrow> (string \<Rightarrow> bool) \<Rightarrow> string \<Rightarrow> qtype \<Rightarrow> nat \<Rightarrow> 'n policy_rule list \<Rightarrow> 'n eval_context \<Rightarrow> 'n resolver \<Rightarrow>
     (resolve_error + resolve_answer) option \<times> 'n resolver" where
  "policy_loop x prompt host q now [] ctx s = (None, s)"
| "policy_loop x prompt host q now (r # rs) ctx s =
    (if \<not> policy_matches (re_env x) (pg_sets (rv_policy s)) (pu_matcher r) host ctx then policy_loop x prompt host q now rs ctx s
     else case pu_action r of
         Act_Reject opts \<Rightarrow> map_prod Some (\<lambda>t. t) (reject_answer x opts (pu_source r) host q now s)
       | Act_Accept ips \<Rightarrow> (Some (Inr (answer_live (filter_ips_for_qtype ips q))), s)
       | Act_Predefined pre \<Rightarrow> (Some (predefined_answer x pre host q), s)
       | Act_Fake \<Rightarrow> map_prod Some (\<lambda>t. t) (fake_answer x prompt host q now s)
       | Act_Direct g \<Rightarrow> map_prod Some (\<lambda>t. t) (lookup_via_qtype x prompt host g query_options_default q now s)
       | Act_Proxy g \<Rightarrow> map_prod Some (\<lambda>t. t) (lookup_via_qtype x prompt host g query_options_default q now s)
       | Act_Route g opts \<Rightarrow> map_prod Some (\<lambda>t. t) (lookup_via_qtype x prompt host g opts q now s)
       | Act_Evaluate g opts \<Rightarrow>
           (case lookup_via_qtype x prompt host g opts q now s of
              (Inr answer, s') \<Rightarrow>
                policy_loop x prompt host q now rs (ctx\<lparr>ec_saved_response := Some (ra_ips answer), ec_saved_opts := Some opts\<rparr>) s'
            | (Inl _, s') \<Rightarrow> policy_loop x prompt host q now rs ctx s')
       | Act_Respond \<Rightarrow>
           (Some (case ec_saved_response ctx of Some ips \<Rightarrow> Inr (answer_live ips) | None \<Rightarrow> Inl (Re_Failed respond_without_saved)), s))"

definition default_answer ::
  "'n resolver_env \<Rightarrow> (string \<Rightarrow> bool) \<Rightarrow> string \<Rightarrow> qtype \<Rightarrow> nat \<Rightarrow> 'n resolver \<Rightarrow> (resolve_error + resolve_answer) \<times> 'n resolver" where
  "default_answer x prompt host q now s =
    (case default_action_of (rv_policy s) of
       Act_Reject opts \<Rightarrow> reject_answer x opts ''<default>'' host q now s
     | Act_Accept ips \<Rightarrow> (Inr (answer_live (filter_ips_for_qtype ips q)), s)
     | Act_Predefined pre \<Rightarrow>
         (let raw_ips = answer_ips (re_u x) pre
          in if raw_ips = [] then (Inl (Re_Rejected host), s) else (Inr (answer_live (filter_ips_for_qtype raw_ips q)), s))
     | Act_Direct g \<Rightarrow> lookup_via_qtype x prompt host g query_options_default q now s
     | Act_Proxy g \<Rightarrow> lookup_via_qtype x prompt host g query_options_default q now s
     | Act_Route g _ \<Rightarrow> lookup_via_qtype x prompt host g query_options_default q now s
     | Act_Fake \<Rightarrow> fake_answer x prompt host q now s
     | _ \<Rightarrow> (Inl (Re_Failed default_not_terminal), s))"

definition resolve_policy_qtype ::
  "'n resolver_env \<Rightarrow> (string \<Rightarrow> bool) \<Rightarrow> string \<Rightarrow> qtype \<Rightarrow> nat \<Rightarrow> 'n resolver \<Rightarrow> (resolve_error + resolve_answer) \<times> 'n resolver" where
  "resolve_policy_qtype x prompt host q now s =
    (if \<not> re_ipv6_enabled x \<and> q = QT_AAAA then (Inr (answer_live []), s)
     else case Option.bind (re_hosts x) (hosts_lookup host q) of
         Some ips \<Rightarrow> (Inr (answer_live ips), s)
       | None \<Rightarrow>
           (case policy_loop x prompt host q now (pg_rules (rv_policy s)) eval_context_default s of
              (Some r, s') \<Rightarrow> (r, s')
            | (None, s') \<Rightarrow> default_answer x prompt host q now s'))"

definition resolve_qtype_answer ::
  "'n resolver_env \<Rightarrow> (string \<Rightarrow> bool) \<Rightarrow> string \<Rightarrow> qtype \<Rightarrow> nat \<Rightarrow> 'n resolver \<Rightarrow> (resolve_error + resolve_answer) \<times> 'n resolver" where
  "resolve_qtype_answer x prompt host q now s =
    (case parse_ip host of
       Some ip \<Rightarrow> (Inr (answer_live (if qtype_matches_ip ip q then [ip] else [])), s)
     | None \<Rightarrow> resolve_policy_qtype x prompt (host_key (re_u x) host) q now s)"

definition resolve_qtype ::
  "'n resolver_env \<Rightarrow> (string \<Rightarrow> bool) \<Rightarrow> string \<Rightarrow> qtype \<Rightarrow> nat \<Rightarrow> 'n resolver \<Rightarrow> (resolve_error + ip_addr list) \<times> 'n resolver" where
  "resolve_qtype x prompt host q now s =
    (case resolve_qtype_answer x prompt host q now s of
       (Inr a, s') \<Rightarrow> (Inr (ra_ips a), s')
     | (Inl e, s') \<Rightarrow> (Inl e, s'))"

text \<open>\<open>resolve\<close>: both families, the second when it arrives in time. The code runs them beside each other; here the first comes first.\<close>

definition resolve_host ::
  "'n resolver_env \<Rightarrow> (string \<Rightarrow> bool) \<Rightarrow> bool \<Rightarrow> string \<Rightarrow> nat \<Rightarrow> 'n resolver \<Rightarrow> (resolve_error + ip_addr list) \<times> 'n resolver" where
  "resolve_host x prompt v6_in_time host now s =
    (if \<not> re_ipv6_enabled x then resolve_qtype x prompt host QT_A now s
     else
       (let (v4_result, s1) = resolve_qtype x prompt host QT_A now s;
            (v6_result, s2) = resolve_qtype x prompt host QT_AAAA now s1;
            v6_ips = (case v6_result of Inr ips \<Rightarrow> if v6_in_time then ips else [] | Inl _ \<Rightarrow> [])
        in case v4_result of
             Inr v4_ips \<Rightarrow> (if v4_ips @ v6_ips = [] then Inl (Re_Empty host) else Inr (v4_ips @ v6_ips), s2)
           | Inl e \<Rightarrow> (if v6_ips \<noteq> [] then Inr v6_ips else Inl e, s2)))"

definition find_host_by_ip :: "ip_addr \<Rightarrow> nat \<Rightarrow> 'n resolver \<Rightarrow> string option \<times> 'n resolver" where
  "find_host_by_ip ip now s =
    (case Option.bind (rv_fake_pool s) (fake_lookup ip now) of
       Some h \<Rightarrow> (Some h, s)
     | None \<Rightarrow> (case mapping_find_host ip now (rv_mapping s) of (h, m) \<Rightarrow> (h, s\<lparr>rv_mapping := m\<rparr>)))"

definition reset_connections :: "'n resolver \<Rightarrow> 'n resolver" where
  "reset_connections s = s\<lparr>rv_cache := cache_clear (rv_cache s)\<rparr>"

definition flush_fakeip :: "'n resolver \<Rightarrow> nat \<times> 'n resolver" where
  "flush_fakeip s =
    (case rv_fake_pool s of
       None \<Rightarrow> (0, s)
     | Some p \<Rightarrow> (case fake_clear p of (n, p') \<Rightarrow> (n, s\<lparr>rv_fake_pool := Some p'\<rparr>)))"

definition resolve_with_opts ::
  "'n resolver_env \<Rightarrow> (string \<Rightarrow> bool) \<Rightarrow> string \<Rightarrow> 'n query_options \<Rightarrow> nat \<Rightarrow> 'n resolver \<Rightarrow> (resolve_error + ip_addr list) \<times> 'n resolver" where
  "resolve_with_opts x prompt host opts now s =
    (case parse_ip host of
       Some ip \<Rightarrow> (Inr [ip], s)
     | None \<Rightarrow>
         (let g = (case pg_default (rv_policy s) of
                Some (Act_Direct g) \<Rightarrow> g | Some (Act_Proxy g) \<Rightarrow> g | Some (Act_Route g _) \<Rightarrow> g | _ \<Rightarrow> ''default'')
          in case lookup_via_qtype x prompt (host_key (re_u x) host) g opts QT_A now s of
               (Inr a, s') \<Rightarrow> (Inr (ra_ips a), s')
             | (Inl e, s') \<Rightarrow> (Inl e, s')))"

text \<open>Names of direct and of bootstrap connections are resolved beside the policy, the cache and the fake addresses.\<close>

definition resolve_via_group_dual :: "'n resolver_env \<Rightarrow> string \<Rightarrow> asking \<Rightarrow> resolve_error + ip_addr list" where
  "resolve_via_group_dual x host ask =
    (case ask host False None of
       Inr v \<Rightarrow>
         if v \<noteq> [] then Inr v else if re_ipv6_enabled x then map_error from_dns_error (ask host True None) else Inr []
     | Inl e \<Rightarrow>
         if re_ipv6_enabled x then (case ask host True None of Inr ips \<Rightarrow> Inr ips | Inl _ \<Rightarrow> Inl (from_dns_error e))
         else Inl (from_dns_error e))"

definition resolve_via_direct :: "'n resolver_env \<Rightarrow> string \<Rightarrow> resolve_error + ip_addr list" where
  "resolve_via_direct x host =
    (case parse_ip host of
       Some ip \<Rightarrow> Inr [ip]
     | None \<Rightarrow>
         (case Option.bind (re_hosts x) (hosts_lookup (host_key (re_u x) host) (if re_ipv6_enabled x then QT_Both else QT_A)) of
            Some ips \<Rightarrow> Inr ips
          | None \<Rightarrow>
              (case (case re_groups x ''direct-nameserver'' of Some g \<Rightarrow> Some g | None \<Rightarrow> re_groups x ''default'') of
                 None \<Rightarrow> Inl (Re_Failed ''no direct-nameserver or default resolver group available'')
               | Some ask \<Rightarrow> resolve_via_group_dual x host ask)))"

definition bootstrap_action :: "'n resolver_env \<Rightarrow> string \<Rightarrow> string \<Rightarrow> 'n policy_engine \<Rightarrow> 'n dns_action" where
  "bootstrap_action x bootstrap host pol =
    (case filter (\<lambda>r. policy_matches (re_env x) (pg_sets pol) (pu_matcher r) host eval_context_default) (pg_rules pol) of
       r # _ \<Rightarrow> pu_action r
     | [] \<Rightarrow> (case pg_default pol of Some a \<Rightarrow> a | None \<Rightarrow> Act_Direct bootstrap))"

definition bootstrap_lookup :: "'n resolver_env \<Rightarrow> string \<Rightarrow> string \<Rightarrow> resolve_error + ip_addr list" where
  "bootstrap_lookup x host g =
    (case re_groups x g of
       None \<Rightarrow> Inl (Re_Failed (''unknown bootstrap resolver group: '' @ g))
     | Some ask \<Rightarrow>
         (case ask host False None of
            Inr v \<Rightarrow> if v \<noteq> [] then Inr v else map_error from_dns_error (ask host True None)
          | Inl _ \<Rightarrow> map_error from_dns_error (ask host True None)))"

definition resolve_via_bootstrap ::
  "'n resolver_env \<Rightarrow> string \<Rightarrow> string \<Rightarrow> nat \<Rightarrow> 'n policy_engine \<Rightarrow> (resolve_error + ip_addr list) \<times> 'n policy_engine" where
  "resolve_via_bootstrap x bootstrap host now pol =
    (case parse_ip host of
       Some ip \<Rightarrow> (Inr [ip], pol)
     | None \<Rightarrow>
         (let host_lc = host_key (re_u x) host
          in case bootstrap_action x bootstrap host_lc pol of
               Act_Direct g \<Rightarrow> (bootstrap_lookup x host g, pol)
             | Act_Proxy g \<Rightarrow> (bootstrap_lookup x host g, pol)
             | Act_Route g _ \<Rightarrow> (bootstrap_lookup x host g, pol)
             | Act_Accept ips \<Rightarrow> (Inr ips, pol)
             | Act_Reject opts \<Rightarrow>
                 (case apply_reject_throttle opts ''bootstrap'' now (pg_throttle pol) of
                    (method, t) \<Rightarrow>
                      (Inl (case method of RM_Default \<Rightarrow> Re_Rejected host_lc | RM_Drop \<Rightarrow> Re_Dropped host_lc), pol\<lparr>pg_throttle := t\<rparr>))
             | _ \<Rightarrow> (Inl (Re_Failed ''proxy-server-nameserver-policy action must route to a resolver group''), pol)))"

text \<open>Records of other types: what a group answers for the name and the type asked for is an argument.\<close>

definition lookup_records_via_group ::
  "(string \<Rightarrow> (group_strategy option \<Rightarrow> dns_error + 'r list) option) \<Rightarrow> string \<Rightarrow> 'n query_options \<Rightarrow> resolve_error + 'r list" where
  "lookup_records_via_group ask g opts =
    (case ask g of
       None \<Rightarrow> Inl (Re_Failed (''unknown resolver server/group: '' @ g))
     | Some f \<Rightarrow> map_error from_dns_error (f (qo_strategy opts)))"

definition resolve_records_action ::
  "(string \<Rightarrow> (group_strategy option \<Rightarrow> dns_error + 'r list) option) \<Rightarrow> string \<Rightarrow> 'n dns_action \<Rightarrow> string \<Rightarrow> nat \<Rightarrow> 'n policy_engine \<Rightarrow>
     (resolve_error + 'r list option) \<times> 'n policy_engine" where
  "resolve_records_action ask host action source now pol =
    (case action of
       Act_Reject opts \<Rightarrow>
         (case apply_reject_throttle opts source now (pg_throttle pol) of
            (method, t) \<Rightarrow>
              (Inl (case method of RM_Default \<Rightarrow> Re_Rejected host | RM_Drop \<Rightarrow> Re_Dropped host), pol\<lparr>pg_throttle := t\<rparr>))
     | Act_Accept _ \<Rightarrow> (Inr (Some []), pol)
     | Act_Predefined _ \<Rightarrow> (Inr (Some []), pol)
     | Act_Fake \<Rightarrow> (Inr (Some []), pol)
     | Act_Direct g \<Rightarrow> (map_sum (\<lambda>e. e) Some (lookup_records_via_group ask g (query_options_default :: 'n query_options)), pol)
     | Act_Proxy g \<Rightarrow> (map_sum (\<lambda>e. e) Some (lookup_records_via_group ask g (query_options_default :: 'n query_options)), pol)
     | Act_Route g opts \<Rightarrow> (map_sum (\<lambda>e. e) Some (lookup_records_via_group ask g opts), pol)
     | Act_Evaluate _ _ \<Rightarrow> (Inr None, pol)
     | Act_Respond \<Rightarrow> (Inl (Re_Failed ''respond requires an address response and cannot synthesize arbitrary DNS records''), pol))"

fun records_loop ::
  "'n resolver_env \<Rightarrow> (string \<Rightarrow> (group_strategy option \<Rightarrow> dns_error + 'r list) option) \<Rightarrow> string \<Rightarrow> nat \<Rightarrow> 'n policy_rule list \<Rightarrow>
     'n policy_engine \<Rightarrow> (resolve_error + 'r list) option \<times> 'n policy_engine" where
  "records_loop x ask host now [] pol = (None, pol)"
| "records_loop x ask host now (r # rs) pol =
    (if \<not> policy_matches (re_env x) (pg_sets pol) (pu_matcher r) host eval_context_default then records_loop x ask host now rs pol
     else case resolve_records_action ask host (pu_action r) (pu_source r) now pol of
         (Inl e, pol') \<Rightarrow> (Some (Inl e), pol')
       | (Inr (Some records), pol') \<Rightarrow> (Some (Inr records), pol')
       | (Inr None, pol') \<Rightarrow> records_loop x ask host now rs pol')"

definition resolve_records_answer ::
  "'n resolver_env \<Rightarrow> (string \<Rightarrow> string \<Rightarrow> (group_strategy option \<Rightarrow> dns_error + 'r list) option) \<Rightarrow> string \<Rightarrow> nat \<Rightarrow> 'n policy_engine \<Rightarrow>
     (resolve_error + 'r list) \<times> 'n policy_engine" where
  "resolve_records_answer x ask host now pol =
    (let host_lc = host_key (re_u x) host
     in case records_loop x (ask host_lc) host_lc now (pg_rules pol) pol of
          (Some r, pol') \<Rightarrow> (r, pol')
        | (None, pol') \<Rightarrow>
            (case resolve_records_action (ask host_lc) host_lc (default_action_of pol) ''<default>'' now pol' of
               (Inl e, p2) \<Rightarrow> (Inl e, p2)
             | (Inr (Some records), p2) \<Rightarrow> (Inr records, p2)
             | (Inr None, p2) \<Rightarrow> (Inl (Re_Failed ''non-terminal DNS action reached end of normal lookup''), p2)))"

text \<open>A refresh that was left pending ends.\<close>

definition finish_refresh :: "'n resolver_env \<Rightarrow> nat \<Rightarrow> nat \<Rightarrow> 'n resolver \<Rightarrow> 'n resolver" where
  "finish_refresh x i now s =
    (case drop i (rv_pending s) of
       [] \<Rightarrow> s
     | (g, opts, t) # later \<Rightarrow>
         s\<lparr>rv_cache := snd (run_refresh x (pg_sets (rv_policy s)) g opts t now (rv_cache s)), rv_pending := take i (rv_pending s) @ later\<rparr>)"

section \<open>Answers fit their questions\<close>

definition of_family :: "bool \<Rightarrow> ip_addr \<Rightarrow> bool" where
  "of_family v6 ip = (case ip of V4 _ \<Rightarrow> \<not> v6 | V6 _ \<Rightarrow> v6)"

text \<open>What a server does: it answers a question for a family with addresses of this family.\<close>

definition groups_typed :: "'n resolver_env \<Rightarrow> bool" where
  "groups_typed x \<longleftrightarrow> (\<forall>g ask host v6 st ips. re_groups x g = Some ask \<longrightarrow> ask host v6 st = Inr ips \<longrightarrow> list_all (of_family v6) ips)"

definition fits :: "qtype \<Rightarrow> ip_addr list \<Rightarrow> bool" where
  "fits q ips \<longleftrightarrow> list_all (\<lambda>ip. qtype_matches_ip ip q) ips"

lemma of_family_fits: "list_all (of_family v6) ips \<Longrightarrow> fits (if v6 then QT_AAAA else QT_A) ips" "fits QT_Both ips"
  by (auto simp: fits_def list_all_iff of_family_def qtype_matches_ip_code split: ip_addr.splits)

lemma fits_filter [simp]: "fits q (filter_ips_for_qtype ips q)"
  by (simp add: fits_def filter_ips_for_qtype_def list_all_iff)

lemma fits_Nil [simp]: "fits q []"
  by (simp add: fits_def)

lemma group_qtype_fits:
  assumes "groups_typed x" "re_groups x g = Some ask" "resolve_group_qtype ask host q st = Inr ips"
  shows "fits q ips"
proof (cases q)
  case QT_A
  then show ?thesis using assms of_family_fits(1) [of False ips] unfolding groups_typed_def resolve_group_qtype_def by simp
next
  case QT_AAAA
  then show ?thesis using assms of_family_fits(1) [of True ips] unfolding groups_typed_def resolve_group_qtype_def by simp
qed (simp add: of_family_fits(2))

lemma map_error_Inr [simp]: "map_error f r = Inr v \<longleftrightarrow> r = Inr v"
  by (cases r) (simp_all add: map_error_def)

lemma resolve_default_fits:
  assumes "groups_typed x" "resolve_default x idx host q st = Inr ips"
  shows "fits q ips"
  using assms(2) group_qtype_fits [OF assms(1)]
  by (auto simp: resolve_default_def Let_def split: option.splits if_splits sum.splits)

lemma resolve_group_fits:
  assumes "groups_typed x" "resolve_group x idx g host q st = Inr ips"
  shows "fits q ips"
  using assms(2) group_qtype_fits [OF assms(1)] resolve_default_fits [OF assms(1)]
  by (auto simp: resolve_group_def split: option.splits if_splits)

text \<open>The cache holds under each key what fits its type.\<close>

definition cache_typed :: "dns_cache \<Rightarrow> bool" where
  "cache_typed c \<longleftrightarrow> (\<forall>(key, slot) \<in> set (dc_inner c). fits (snd key) (ce_ips (cs_entry slot)))"

lemma cache_typed_marks [simp]:
  "cache_typed (ticket_drop t c) = cache_typed c" "cache_typed (mark_success t c) = cache_typed c" "cache_typed (mark_failure t now c) = cache_typed c"
  by (simp_all add: cache_typed_def ticket_drop_def mark_success_def mark_failure_def)

lemma cache_typed_insert: "cache_typed c \<Longrightarrow> fits (snd key) (ce_ips e) \<Longrightarrow> cache_typed (insert_slot key e c)"
  by (fastforce simp: cache_typed_def insert_slot_def dest!: amap_insert_member)

lemma cache_typed_evict: "cache_typed c \<Longrightarrow> cache_typed (evict_lru c)"
  using evict_lru_subset [of c] by (auto simp: cache_typed_def)

lemma cache_typed_put: "cache_typed c \<Longrightarrow> fits q ips \<Longrightarrow> cache_typed (cache_put u host q ips ttl origin now c)"
  by (simp add: cache_put_def Let_def cache_typed_insert cache_typed_evict cache_key_of_def)

lemma cache_typed_negative: "cache_typed c \<Longrightarrow> cache_typed (put_negative u host q now c)"
  by (simp add: put_negative_def cache_typed_insert)

lemma cache_typed_get:
  assumes "cache_typed c" "cache_get u host q now c = ((v, h, t), c')"
  shows "cache_typed c' \<and> (\<forall>ips. v = Some ips \<longrightarrow> fits q ips)"
  using assms(2)
proof (cases rule: cache_get_cases)
  case absent
  then show ?thesis using assms(1) by simp
next
  case (gone slot)
  then show ?thesis using assms(1) by (auto simp: cache_typed_def dest!: amap_remove_member amap_insert_member map_of_SomeD)
next
  case (served slot need)
  have "fits q (ce_ips (cs_entry slot))"
    using assms(1) map_of_SomeD [OF served(1)] by (auto simp: cache_typed_def cache_key_of_def)
  then show ?thesis using assms(1) served by (auto simp: cache_typed_def cache_key_of_def dest!: amap_insert_member)
qed

lemma cache_typed_get_with:
  assumes "cache_typed c" "cache_get_with u host q dis now c = ((v, h, t), c')"
  shows "cache_typed c' \<and> (\<forall>ips. v = Some ips \<longrightarrow> fits q ips)"
proof -
  obtain v0 h0 t0 c0 where g: "cache_get u host q now c = ((v0, h0, t0), c0)" by (metis prod.exhaust)
  from cache_typed_get [OF assms(1) g] show ?thesis using assms(2) g
    by (auto simp: cache_get_with_def split: if_splits option.splits)
qed

text \<open>The pool keeps for each family addresses of this family.\<close>

definition pool_typed :: "fake_ip_pool \<Rightarrow> bool" where
  "pool_typed p \<longleftrightarrow> (\<forall>e \<in> set (fp_forward p). of_family (snd (fst e) = Family_V6) (fst (snd e)))"

lemma next_loops_typed:
  "next_v4_loop n p = (Some ip, p') \<Longrightarrow> of_family False ip"
  "next_v6_loop n p = (Some ip, p') \<Longrightarrow> of_family True ip"
  by (induction n arbitrary: p) (auto simp: Let_def of_family_def split: if_splits)

lemma next_loops_forward:
  "fp_forward (snd (next_v4_loop n p)) = fp_forward p" "fp_forward (snd (next_v6_loop n p)) = fp_forward p"
  by (induction n arbitrary: p) (simp_all add: Let_def)

lemma allocate_typed:
  assumes "allocate_new family p = (r, p')"
  shows "fp_forward p' = fp_forward p \<and> (\<forall>ip. r = Some ip \<longrightarrow> of_family (family = Family_V6) ip)"
  using assms next_loops_typed [of _ p _ p'] next_loops_forward [of _ p]
  by (cases family) (auto simp: allocate_new_def next_v4_addr_def next_v6_addr_def Let_def simp del: next_v4_loop.simps next_v6_loop.simps, (metis snd_conv)+)

lemma pool_typed_insert:
  assumes "pool_typed p" "of_family (f = Family_V6) ip"
  shows "pool_typed (p\<lparr>fp_forward := amap_insert (h, f) (ip, e) (fp_forward p)\<rparr>)"
  unfolding pool_typed_def using assms by (auto simp: pool_typed_def dest!: amap_insert_member)

lemma pool_typed_reverse [simp]: "pool_typed (p\<lparr>fp_forward := fw, fp_reverse := rv\<rparr>) = pool_typed (p\<lparr>fp_forward := fw\<rparr>)"
  by (simp add: pool_typed_def)

lemma pool_typed_same: "pool_typed p \<Longrightarrow> fp_forward p' = fp_forward p \<Longrightarrow> pool_typed p'"
  by (simp add: pool_typed_def)

lemma fake_alloc_typed:
  assumes "pool_typed p" "fake_alloc u host family now p = (r, p')"
  shows "pool_typed p' \<and> (\<forall>ip. r = Some ip \<longrightarrow> of_family (family = Family_V6) ip)"
proof -
  obtain r1 p1 where a: "allocate_new family p = (r1, p1)" by force
  have p1: "pool_typed p1" "\<And>ip. r1 = Some ip \<Longrightarrow> of_family (family = Family_V6) ip"
    using allocate_typed [OF a] pool_typed_same [OF assms(1)] by auto
  have old: "of_family (family = Family_V6) ip" if "map_of (fp_forward p) (to_lowercase u host, family) = Some (ip, e)" for ip e
    using assms(1) map_of_SomeD [OF that] by (force simp: pool_typed_def)
  show ?thesis using assms p1 old a
    by (auto simp: fake_alloc_def Let_def pool_typed_insert split: if_splits option.splits)
qed

definition resolver_typed :: "'n resolver \<Rightarrow> bool" where
  "resolver_typed s \<longleftrightarrow> cache_typed (rv_cache s) \<and> (\<forall>p. rv_fake_pool s = Some p \<longrightarrow> pool_typed p)"

definition answer_typed :: "qtype \<Rightarrow> resolve_error + resolve_answer \<Rightarrow> bool" where
  "answer_typed q r \<longleftrightarrow> (case r of Inr a \<Rightarrow> fits q (ra_ips a) | Inl _ \<Rightarrow> True)"

lemma answer_typed_simps [simp]:
  "answer_typed q (Inl e)" "answer_typed q (Inr (answer_live ips)) = fits q ips" "answer_typed q (Inr (answer_stale ips)) = fits q ips"
  by (simp_all add: answer_typed_def answer_live_def answer_stale_def)

lemma typed_update:
  "resolver_typed (s\<lparr>rv_cache := c\<rparr>) \<longleftrightarrow> cache_typed c \<and> (\<forall>p. rv_fake_pool s = Some p \<longrightarrow> pool_typed p)"
  "resolver_typed (s\<lparr>rv_policy := pol\<rparr>) = resolver_typed s" "resolver_typed (s\<lparr>rv_pending := ps\<rparr>) = resolver_typed s"
  by (simp_all add: resolver_typed_def)

lemma refresh_typed:
  assumes "groups_typed x" "cache_typed c" "run_refresh x idx g opts t now c = (r, c')"
  shows "cache_typed c' \<and> (\<forall>ips. r = Some ips \<longrightarrow> fits (pt_qtype t) ips)"
  using assms(2,3) resolve_group_fits [OF assms(1)]
  by (auto simp: run_refresh_def cache_typed_put split: sum.splits if_splits)

lemma ask_uncached_typed:
  assumes "groups_typed x" "resolver_typed s" "ask_uncached x host g opts q now s = (r, s')"
  shows "resolver_typed s' \<and> answer_typed q r"
  using assms(2,3) resolve_group_fits [OF assms(1)]
  by (auto simp: ask_uncached_def resolver_typed_def cache_typed_put split: sum.splits if_splits)

lemma get_with_ticket:
  "cache_get_with u host q dis now c = ((v, h, Some t), c') \<Longrightarrow> pt_qtype t = q"
proof -
  assume w: "cache_get_with u host q dis now c = ((v, h, Some t), c')"
  obtain v0 h0 t0 c0 where g: "cache_get u host q now c = ((v0, h0, t0), c0)" by (metis prod.exhaust)
  then have "t0 = Some t" using w by (auto simp: cache_get_with_def split: if_splits)
  with g show "pt_qtype t = q" by (cases rule: cache_get_cases) (auto split: if_splits)
qed

lemma lookup_typed:
  assumes "groups_typed x" "resolver_typed s" "lookup_via_qtype x prompt host g opts q now s = (r, s')"
  shows "resolver_typed s' \<and> answer_typed q r"
proof (cases "qo_disable_cache opts")
  case True
  then show ?thesis using ask_uncached_typed [OF assms(1,2)] assms(3) by (simp add: lookup_via_qtype_def)
next
  case False
  obtain v h t c where w: "cache_get_with (re_u x) host q (qo_disable_optimistic_cache opts \<or> \<not> re_optimistic x) now (rv_cache s) = ((v, h, t), c)"
    by (metis prod.exhaust)
  have c: "cache_typed c" "\<And>ips. v = Some ips \<Longrightarrow> fits q ips"
    using cache_typed_get_with [OF _ w] assms(2) by (auto simp: resolver_typed_def)
  then have s: "resolver_typed (s\<lparr>rv_cache := c\<rparr>)" using assms(2) by (simp add: resolver_typed_def)
  show ?thesis
  proof (cases v)
    case None
    then show ?thesis using ask_uncached_typed [OF assms(1) s] assms(3) w False by (simp add: lookup_via_qtype_def)
  next
    case (Some ips)
    define cached where "cached = (if ips \<noteq> [] then Inr (if h = Hit_Stale then answer_stale ips else answer_live ips)
                          else Inl (Re_Rejected (host @ '' (negative cache)'')))"
    have cached: "answer_typed q cached" using c(2) [OF Some] by (simp add: cached_def)
    show ?thesis
    proof (cases t)
      case None
      then show ?thesis using assms(3) w False Some s cached by (auto simp: lookup_via_qtype_def cached_def [symmetric] Let_def)
    next
      case t: (Some tk)
      obtain f c' where f: "run_refresh x (pg_sets (rv_policy s)) g opts tk now c = (f, c')" by force
      have "cache_typed c'" "\<And>ips. f = Some ips \<Longrightarrow> fits q ips"
        using refresh_typed [OF assms(1) c(1) f] get_with_ticket [of _ host q _ now _ v h tk c] w t by auto
      then show ?thesis using assms(2,3) w False Some t s cached f c(2) [OF Some]
        by (auto simp: lookup_via_qtype_def cached_def [symmetric] Let_def resolver_typed_def split: if_splits option.splits)
    qed
  qed
qed

lemma reject_typed:
  assumes "resolver_typed s" "reject_answer x opts source host q now s = (r, s')"
  shows "resolver_typed s' \<and> answer_typed q r"
  using assms by (auto simp: reject_answer_def Let_def resolver_typed_def cache_typed_negative split: prod.splits reject_method.splits)

lemma family_fits: "of_family (family_for_qtype q = Family_V6) ip \<Longrightarrow> fits q [ip]"
  by (cases q) (auto simp: family_for_qtype_def fits_def of_family_def qtype_matches_ip_code split: ip_addr.splits)

lemma fake_answer_typed:
  assumes "groups_typed x" "resolver_typed s" "fake_answer x prompt host q now s = (r, s')"
  shows "resolver_typed s' \<and> answer_typed q r"
proof (cases "case re_fake_filter x of Some f \<Rightarrow> should_skip (re_u x) f host | None \<Rightarrow> False")
  case True
  then show ?thesis using lookup_typed [OF assms(1,2)] assms(3) by (simp add: fake_answer_def)
next
  case False
  show ?thesis
  proof (cases "rv_fake_pool s")
    case None
    then show ?thesis using assms False by (auto simp: fake_answer_def)
  next
    case (Some p)
    obtain f p' where f: "fake_alloc (re_u x) host (family_for_qtype q) now p = (f, p')" by force
    have "pool_typed p" using assms(2) Some by (simp add: resolver_typed_def)
    from fake_alloc_typed [OF this f] show ?thesis
      using assms(2,3) False Some f by (cases f) (auto simp: fake_answer_def resolver_typed_def family_fits)
  qed
qed

lemma predefined_typed: "answer_typed q (predefined_answer x pre host q)"
  by (simp add: predefined_answer_def Let_def split: pre_rcode.splits)

lemma hosts_lookup_fits: "hosts_lookup host q t = Some ips \<Longrightarrow> fits q ips"
  by (cases q) (auto simp: hosts_lookup_def Let_def fits_def list_all_iff qtype_matches_ip_code split: option.splits if_splits)

lemma answered: "map_prod Some (\<lambda>t. t) p = (r, s') \<longleftrightarrow> (\<exists>a. p = (a, s') \<and> r = Some a)"
  by (cases p) auto

lemma policy_loop_typed:
  assumes "groups_typed x" "resolver_typed s" "\<forall>ips. ec_saved_response ctx = Some ips \<longrightarrow> fits q ips"
    and "policy_loop x prompt host q now rs ctx s = (r, s')"
  shows "resolver_typed s' \<and> (\<forall>a. r = Some a \<longrightarrow> answer_typed q a)"
  using assms(2-4)
proof (induction rs arbitrary: ctx s)
  case (Cons rule rs)
  show ?case
  proof (cases "policy_matches (re_env x) (pg_sets (rv_policy s)) (pu_matcher rule) host ctx")
    case False
    then show ?thesis using Cons by simp
  next
    case True
    note step = Cons.prems(3) [simplified policy_loop.simps, simplified True simp_thms if_False]
    show ?thesis
    proof (cases "pu_action rule")
      case (Act_Evaluate g opts)
      obtain a t where l: "lookup_via_qtype x prompt host g opts q now s = (a, t)" by force
      from lookup_typed [OF assms(1) Cons.prems(1) l] have "resolver_typed t" "answer_typed q a" by simp_all
      then show ?thesis using step l Act_Evaluate Cons.prems(2) Cons.IH [of t ctx]
          Cons.IH [of t "ctx\<lparr>ec_saved_response := Some (ra_ips (projr a)), ec_saved_opts := Some opts\<rparr>"]
        by (cases a) (simp_all add: answer_typed_def)
    qed (use step Cons.prems(1,2) in \<open>auto simp: predefined_typed answered split: option.splits
          dest: lookup_typed [OF assms(1) Cons.prems(1)] fake_answer_typed [OF assms(1) Cons.prems(1)] reject_typed [OF Cons.prems(1)]\<close>)
  qed
qed auto

lemma default_typed:
  assumes "groups_typed x" "resolver_typed s" "default_answer x prompt host q now s = (r, s')"
  shows "resolver_typed s' \<and> answer_typed q r"
  using assms(2,3)
  by (cases "default_action_of (rv_policy s)")
    (auto simp: default_answer_def Let_def split: if_splits
      dest: lookup_typed [OF assms(1,2)] fake_answer_typed [OF assms(1,2)] reject_typed [OF assms(2)])

lemma policy_typed:
  assumes "groups_typed x" "resolver_typed s" "resolve_policy_qtype x prompt host q now s = (r, s')"
  shows "resolver_typed s' \<and> answer_typed q r"
proof -
  obtain l t where l: "policy_loop x prompt host q now (pg_rules (rv_policy s)) eval_context_default s = (l, t)" by force
  have "resolver_typed t \<and> (\<forall>a. l = Some a \<longrightarrow> answer_typed q a)"
    by (rule policy_loop_typed [OF assms(1,2) _ l]) (simp add: eval_context_default_def)
  then show ?thesis using assms(2,3) l default_typed [OF assms(1), of t]
    by (auto simp: resolve_policy_qtype_def hosts_lookup_fits split: if_splits option.splits bind_splits)
qed

lemma resolve_typed:
  assumes "groups_typed x" "resolver_typed s" "resolve_qtype_answer x prompt host q now s = (r, s')"
  shows "resolver_typed s' \<and> answer_typed q r"
  using assms(2,3) policy_typed [OF assms(1,2)]
  by (auto simp: resolve_qtype_answer_def fits_def split: option.splits)

text \<open>What happens to a resolver: a name is resolved, by itself or with options, a pending refresh ends, or the state is reset.\<close>

datatype 'n resolver_event =
    Re_Resolve "string \<Rightarrow> bool" string qtype nat
  | Re_With_Opts "string \<Rightarrow> bool" string "'n query_options" nat
  | Re_Refresh nat nat
  | Re_Reset
  | Re_Flush

fun resolver_apply :: "'n resolver_env \<Rightarrow> 'n resolver \<Rightarrow> 'n resolver_event \<Rightarrow> 'n resolver" where
  "resolver_apply x s (Re_Resolve prompt host q now) = snd (resolve_qtype x prompt host q now s)"
| "resolver_apply x s (Re_With_Opts prompt host opts now) = snd (resolve_with_opts x prompt host opts now s)"
| "resolver_apply x s (Re_Refresh i now) = finish_refresh x i now s"
| "resolver_apply x s Re_Reset = reset_connections s"
| "resolver_apply x s Re_Flush = snd (flush_fakeip s)"

definition resolver_new :: "cache_config \<Rightarrow> 'n policy_engine \<Rightarrow> fake_ip_config option \<Rightarrow> ip_host_mapping \<Rightarrow> 'n resolver" where
  "resolver_new cfg pol fake m =
    \<lparr>rv_cache = cache_new cfg, rv_policy = pol, rv_fake_pool = map_option fake_pool_new fake, rv_mapping = m, rv_pending = []\<rparr>"

lemma new_typed: "resolver_typed (resolver_new cfg pol fake m)"
  by (auto simp: resolver_new_def resolver_typed_def cache_typed_def cache_new_def pool_typed_def fake_pool_new_def)

lemma resolve_qtype_typed:
  assumes "groups_typed x" "resolver_typed s" "resolve_qtype x prompt host q now s = (r, s')"
  shows "resolver_typed s' \<and> (\<forall>ips. r = Inr ips \<longrightarrow> fits q ips)"
proof -
  obtain a t where a: "resolve_qtype_answer x prompt host q now s = (a, t)" by force
  from resolve_typed [OF assms(1,2) a] show ?thesis using assms(3) a
    by (auto simp: resolve_qtype_def answer_typed_def split: sum.splits)
qed

lemma with_opts_typed:
  assumes "groups_typed x" "resolver_typed s"
  shows "resolver_typed (snd (resolve_with_opts x prompt host opts now s))"
proof -
  have "resolver_typed (snd (lookup_via_qtype x prompt h g opts QT_A now s))" for h g
    using lookup_typed [OF assms, of prompt h g opts QT_A now] by (metis prod.collapse)
  then show ?thesis using assms(2)
    by (auto simp: resolve_with_opts_def Let_def split: option.splits prod.splits sum.splits) (metis snd_conv)+
qed

lemma finish_refresh_typed:
  assumes "groups_typed x" "resolver_typed s"
  shows "resolver_typed (finish_refresh x i now s)"
proof -
  have "cache_typed (snd (run_refresh x idx g opts t now (rv_cache s)))" for idx g opts t
    using refresh_typed [OF assms(1), of "rv_cache s"] assms(2) by (metis prod.collapse resolver_typed_def)
  then show ?thesis using assms(2) by (auto simp: finish_refresh_def resolver_typed_def split: list.splits)
qed

lemma reset_typed: "resolver_typed s \<Longrightarrow> resolver_typed (reset_connections s)"
  by (simp add: resolver_typed_def reset_connections_def cache_typed_def cache_clear_def)

lemma flush_typed: "resolver_typed s \<Longrightarrow> resolver_typed (snd (flush_fakeip s))"
  by (simp add: resolver_typed_def flush_fakeip_def fake_clear_def pool_typed_def split: option.split)

lemma apply_typed: "groups_typed x \<Longrightarrow> resolver_typed s \<Longrightarrow> resolver_typed (resolver_apply x s e)"
proof (cases e)
  case (Re_Resolve prompt host q now)
  assume "groups_typed x" "resolver_typed s"
  then show ?thesis using resolve_qtype_typed [of x s prompt host q now] Re_Resolve by (metis prod.collapse resolver_apply.simps(1))
qed (simp_all add: with_opts_typed finish_refresh_typed reset_typed flush_typed)

lemma run_typed: "groups_typed x \<Longrightarrow> resolver_typed s \<Longrightarrow> resolver_typed (foldl (resolver_apply x) s es)"
  by (induction es arbitrary: s) (simp_all add: apply_typed)

text \<open>
  C28: when the servers of every group answer a question for a family with addresses of that family, a name asked for with the type A is
  never answered with an IPv6 address, and with AAAA never with an IPv4 address, whatever the rules, the hosts table, the fallback filter
  and the fake addresses are, and whatever was resolved, refreshed and reset before.
\<close>

theorem answers_fit_query_type:
  assumes "groups_typed x"
    and "resolve_qtype x prompt host q now (foldl (resolver_apply x) (resolver_new cfg pol fake m) es) = (Inr ips, s')"
  shows "list_all (\<lambda>ip. qtype_matches_ip ip q) ips"
  using resolve_qtype_typed [OF assms(1) run_typed [OF assms(1) new_typed] assms(2)] by (simp add: fits_def)

text \<open>
  The cache does not tell groups apart: while an answer for a name is fresh, a rule that routes this name to another group is answered
  with it, and that group is not asked.
\<close>

lemma groups_share_answers:
  assumes "answer_at (rv_cache s) (cache_key_of (re_u x) host q) = Some (ips, expire)" "now < expire" "ips \<noteq> []" "\<not> qo_disable_cache opts"
  shows "fst (lookup_via_qtype x prompt host g opts q now s) = Inr (answer_live ips)"
proof -
  let ?dis = "qo_disable_optimistic_cache opts \<or> \<not> re_optimistic x"
  obtain v h t c where g: "cache_get (re_u x) host q now (rv_cache s) = ((v, h, t), c)" by (metis prod.exhaust)
  have "v = Some ips" "h = Hit_Fresh" using cache_get_answer(2,3) [OF g] assms(1,2) by simp_all
  with g have "cache_get_with (re_u x) host q ?dis now (rv_cache s) = ((Some ips, Hit_Fresh, t), c)" by (simp add: cache_get_with_def)
  then show ?thesis using assms(3,4) by (simp add: lookup_via_qtype_def Let_def split: option.split)
qed

text \<open>
  A direct connection is resolved by the group for direct connections or the default group alone: what the other groups answer, the group
  of the proxy servers among them, the fallback filter and the filter of fake names make no difference.
\<close>

lemma direct_uses_own_groups:
  assumes "re_groups x ''direct-nameserver'' = re_groups y ''direct-nameserver''" "re_groups x ''default'' = re_groups y ''default''"
    and "re_hosts x = re_hosts y" "re_ipv6_enabled x = re_ipv6_enabled y" "re_env x = re_env y"
  shows "resolve_via_direct x host = resolve_via_direct y host"
  unfolding resolve_via_direct_def resolve_via_group_dual_def assms ..

section \<open>Witnesses\<close>

text \<open>Two groups, a rule that asks the first and keeps its answer, and one that routes to the second.\<close>

definition sample_asking :: "string \<Rightarrow> asking option" where
  "sample_asking g =
    (if g = ''one'' then Some (\<lambda>host v6 st. Inr (if v6 then [] else [V4 1]))
     else if g = ''two'' then Some (\<lambda>host v6 st. Inr (if v6 then [V6 2] else [V4 2])) else None)"

definition sample_resolver_env :: "unit resolver_env" where
  "sample_resolver_env = \<lparr>re_env = \<lparr>pe_unicode = plain_tables, pe_net_parse = (\<lambda>_. None), pe_net_contains = (\<lambda>_ _. False)\<rparr>,
     re_groups = sample_asking, re_fallback_group = None, re_fallback_filter = \<lparr>fb_ip_cidrs = [], fb_domain_matchers = [], fb_geoip = None\<rparr>,
     re_fake_filter = None, re_hosts = None, re_ipv6_enabled = True, re_optimistic = True, re_default_ttl = 60 * second\<rparr>"

definition sample_policy_engine :: "unit policy_engine" where
  "sample_policy_engine = \<lparr>pg_rules =
       [\<lparr>pu_matcher = HM_Any, pu_action = Act_Evaluate ''one'' query_options_default, pu_source = ''any->evaluate:one''\<rparr>,
        \<lparr>pu_matcher = HM_Any, pu_action = Act_Route ''two'' query_options_default, pu_source = ''any->route:two''\<rparr>],
     pg_sets = (\<lambda>_. None), pg_default = None, pg_throttle = throttle_default\<rparr>"

definition sample_resolver :: "unit resolver" where
  "sample_resolver = resolver_new cache_config_default sample_policy_engine None (mapping_new 16)"

lemma sample_groups_typed: "groups_typed sample_resolver_env"
  by (simp add: groups_typed_def sample_resolver_env_def sample_asking_def of_family_def)

lemma sample_answers:
  "fst (resolve_qtype sample_resolver_env (\<lambda>_. False) ''b.com'' QT_A 6 (resolver_apply sample_resolver_env sample_resolver (Re_Resolve (\<lambda>_. False) ''a.com'' QT_AAAA 5))) = Inr [V4 1]"
  by code_simp

theorem answers_fit_query_type_witness:
  "list_all (\<lambda>ip. qtype_matches_ip ip QT_A) [V4 1] \<and>
   fst (resolve_qtype sample_resolver_env (\<lambda>_. False) ''b.com'' QT_A 6
     (foldl (resolver_apply sample_resolver_env) (resolver_new cache_config_default sample_policy_engine None (mapping_new 16))
       [Re_Resolve (\<lambda>_. False) ''a.com'' QT_AAAA 5])) = Inr [V4 1]"
  (is "_ \<and> fst ?r = _")
proof -
  have "fst ?r = Inr [V4 1]" using sample_answers by (simp add: sample_resolver_def)
  then have "?r = (Inr [V4 1], snd ?r)" by (simp add: prod_eq_iff)
  from answers_fit_query_type [OF sample_groups_typed this] \<open>fst ?r = Inr [V4 1]\<close> show ?thesis by blast
qed

end
